(* ===== verification/Prelude.thy ===== *)
theory Prelude
  imports Complex_Main "HOL-Library.Word" "HOL-Library.Signed_Division"
    "HOL-Library.Monad_Syntax" "HOL-Library.Multiset"
begin

text \<open>
  Shared ground of the development: the error codes of \<^verbatim>\<open>include/rayforce.h\<close>, the C integer
  conversions and checked operations the components use, and the generic list lemmas.

  Conventions.  A value of a C signed type is an \<open>int\<close>.  Conversions the source writes as casts
  are the \<open>wrap_\<close> functions (two's complement, as gcc and clang define them).  Signed overflow is
  undefined in C, so where a computation may overflow it runs in the \<open>option\<close> monad and
  \<^term>\<open>None\<close> means that the C program has no defined behaviour there: a theorem that the result
  is \<^term>\<open>Some v\<close> also states that no step overflows.  Unsigned arithmetic wraps, by \<open>wrap_u64\<close>
  or on a word type.  C's \<open>/\<close> and \<open>%\<close> round towards zero: \<open>sdiv\<close> and \<open>smod\<close>.
\<close>

section \<open>Error codes\<close>

datatype ray_err =
    RAY_OK | RAY_ERR_OOM | RAY_ERR_TYPE | RAY_ERR_RANGE | RAY_ERR_LENGTH | RAY_ERR_RANK
  | RAY_ERR_DOMAIN | RAY_ERR_NYI | RAY_ERR_IO | RAY_ERR_SCHEMA | RAY_ERR_CORRUPT
  | RAY_ERR_CANCEL | RAY_ERR_PARSE | RAY_ERR_NAME | RAY_ERR_LIMIT | RAY_ERR_RESERVED
  | RAY_ERR_VERSION

section \<open>C integers\<close>

named_theorems c_int \<open>facts on C integer conversions and checked arithmetic\<close>

type_synonym u8 = "8 word"
type_synonym u32 = "32 word"
type_synonym u64 = "64 word"

definition i32_ok :: "int \<Rightarrow> bool" where
  "i32_ok x \<longleftrightarrow> - (2 ^ 31) \<le> x \<and> x < 2 ^ 31"

definition i64_ok :: "int \<Rightarrow> bool" where
  "i64_ok x \<longleftrightarrow> - (2 ^ 63) \<le> x \<and> x < 2 ^ 63"

definition wrap_i32 :: "int \<Rightarrow> int" where
  "wrap_i32 x = (x + 2 ^ 31) mod 2 ^ 32 - 2 ^ 31"

definition wrap_i64 :: "int \<Rightarrow> int" where
  "wrap_i64 x = (x + 2 ^ 63) mod 2 ^ 64 - 2 ^ 63"

definition wrap_u64 :: "int \<Rightarrow> int" where
  "wrap_u64 x = x mod 2 ^ 64"

definition chk_i32 :: "int \<Rightarrow> int option" where
  "chk_i32 x = (if i32_ok x then Some x else None)"

definition chk_i64 :: "int \<Rightarrow> int option" where
  "chk_i64 x = (if i64_ok x then Some x else None)"

lemma wrap_i32_id [c_int]: "i32_ok x \<Longrightarrow> wrap_i32 x = x"
  by (simp add: i32_ok_def wrap_i32_def)

lemma wrap_i64_id [c_int]: "i64_ok x \<Longrightarrow> wrap_i64 x = x"
  by (simp add: i64_ok_def wrap_i64_def)

lemma wrap_u64_id [c_int]: "0 \<le> x \<Longrightarrow> x < 2 ^ 64 \<Longrightarrow> wrap_u64 x = x"
  by (simp add: wrap_u64_def)

lemma chk_i32_ok [c_int]: "i32_ok x \<Longrightarrow> chk_i32 x = Some x"
  by (simp add: chk_i32_def)

lemma chk_i64_ok [c_int]: "i64_ok x \<Longrightarrow> chk_i64 x = Some x"
  by (simp add: chk_i64_def)

lemma chk_i32_SomeD: "chk_i32 x = Some y \<Longrightarrow> y = x \<and> i32_ok x"
  by (simp add: chk_i32_def split: if_splits)

lemma chk_i64_SomeD: "chk_i64 x = Some y \<Longrightarrow> y = x \<and> i64_ok x"
  by (simp add: chk_i64_def split: if_splits)

lemma sdiv_nonneg [c_int]: "0 \<le> (a::int) \<Longrightarrow> 0 < b \<Longrightarrow> a sdiv b = a div b"
  by (auto simp: signed_divide_int_def sgn_if)

lemma smod_nonneg [c_int]: "0 \<le> (a::int) \<Longrightarrow> 0 < b \<Longrightarrow> a smod b = a mod b"
  by (auto simp: signed_modulo_int_def sgn_if)

text \<open>The two idioms the source uses for division that rounds down.\<close>

lemma sdiv_floor_adjust:
  fixes a b :: int
  assumes "0 < b"
  shows "(if a < 0 \<and> a smod b \<noteq> 0 then a sdiv b - 1 else a sdiv b) = a div b"
proof (cases "a < 0")
  case True
  have "a smod b = - ((- a) mod b)" "a sdiv b = - ((- a) div b)"
    using True assms by (simp_all add: signed_modulo_int_def signed_divide_int_def sgn_if)
  moreover have "(- a) mod b = 0 \<longleftrightarrow> a mod b = 0" by (simp add: mod_eq_0_iff_dvd)
  moreover have "(- a) div b = (if a mod b = 0 then - (a div b) else - (a div b) - 1)"
    using assms by (simp add: zdiv_zminus1_eq_if)
  ultimately show ?thesis using True by simp
qed (use assms in \<open>simp add: sdiv_nonneg\<close>)

lemma sdiv_floor_shift:
  fixes a b :: int
  assumes b: "0 < b"
  shows "(if a \<ge> 0 then a else a - (b - 1)) sdiv b = a div b"
proof (cases "a \<ge> 0")
  case True
  with b show ?thesis by (simp add: sdiv_nonneg)
next
  case False
  have "(a - (b - 1)) sdiv b = - ((b - 1 - a) div b)"
    using False b by (auto simp: signed_divide_int_def sgn_if algebra_simps)
  moreover have "(b - 1 - a) div b = - (a div b)"
  proof -
    have "b - 1 - a = (b - 1 - a mod b) + b * (- (a div b))"
      using div_mult_mod_eq [of a b] by (simp add: algebra_simps)
    moreover have "(b - 1 - a mod b) div b = 0"
      using b pos_mod_bound [OF b, of a] pos_mod_sign [OF b, of a] by (intro div_pos_pos_trivial) auto
    ultimately show ?thesis
      using b by (metis add.right_neutral add.commute div_mult_self2 less_irrefl)
  qed
  ultimately show ?thesis using False by simp
qed

lemma smod_wrap_pos:
  fixes a b :: int
  assumes "0 < b"
  shows "(if a smod b < 0 then a smod b + b else a smod b) = a mod b"
proof (cases "a < 0")
  case True
  have "a smod b = - ((- a) mod b)" using True assms by (simp add: signed_modulo_int_def sgn_if)
  moreover have "(- a) mod b = (if a mod b = 0 then 0 else b - a mod b)"
    by (rule zmod_zminus1_eq_if)
  moreover have "0 \<le> a mod b" "a mod b < b" using assms by simp_all
  ultimately show ?thesis by simp
qed (use assms pos_mod_sign [OF assms, of a] in \<open>simp add: smod_nonneg not_less\<close>)

lemma smod_floor_sub:
  fixes a b :: int
  assumes "0 < b"
  shows "a - a smod b - (if a smod b < 0 then b else 0) = a div b * b"
  using smod_wrap_pos [OF assms, of a] minus_mod_eq_div_mult [of a b]
  by (auto split: if_splits)

end
