(* ===== verification/Pool.thy ===== *)
theory Pool
  imports Prelude
begin

text \<open>
  The thread pool (\<^verbatim>\<open>core/pool.c\<close>): how a dispatch cuts its elements into tasks and writes them to the
  ring, and how the threads claim tasks by two counters that only grow.  Every access to an atomic
  variable is a step of the thread that makes it, and the steps of the threads interleave in any
  order; the orderings the source asks for make the accesses sequentially consistent, which is
  how they are modelled.  The semaphore wakes a worker at any time, surplus signals included.  A task is
  run with its function and context as one name.  The counters of 64 bits do not wrap.
\<close>

unbundle bit_operations_syntax

section \<open>The ring and the tasks of a dispatch\<close>

record task =
  t_fn :: nat
  t_start :: int
  t_end :: int

record pool =
  tasks :: "task list"
  task_cap :: nat
  task_claim :: nat
  task_limit :: nat
  pending :: nat
  cancelled :: bool
  n_workers :: nat

definition RAY_POOL_INIT_TASKS :: nat where
  "RAY_POOL_INIT_TASKS = 1024"

definition RAY_POOL_MAX_TASKS :: nat where
  "RAY_POOL_MAX_TASKS = 65536"

definition TASK_GRAIN :: int where
  "TASK_GRAIN = 8 * 1024"

definition I64_MAX :: int where
  "I64_MAX = 2 ^ 63 - 1"

text \<open>
  Creating a pool: the ring, the semaphore, the array of threads, and for each thread its context and
  the thread itself; what fails is decided by the arguments, the last for the threads one by one.
\<close>

definition auto_workers :: "int option \<Rightarrow> nat \<Rightarrow> nat" where
  "auto_workers cores ncpu =
     (case cores of Some v \<Rightarrow> if v > 0 then nat (v mod 2 ^ 32) else 0 | None \<Rightarrow> if 1 < ncpu then ncpu - 1 else 0)"

definition ray_pool_create_impl ::
  "bool \<Rightarrow> ray_err \<Rightarrow> bool \<Rightarrow> (nat \<Rightarrow> bool) \<Rightarrow> (nat \<Rightarrow> ray_err) \<Rightarrow> (nat \<Rightarrow> task) \<Rightarrow> nat \<Rightarrow> ray_err + pool" where
  "ray_pool_create_impl ring_mem sem threads_mem ctx_mem create junk n =
     (if \<not> ring_mem then Inl RAY_ERR_OOM
      else if sem \<noteq> RAY_OK then Inl sem
      else if 0 < n \<and> \<not> threads_mem then Inl RAY_ERR_OOM
      else case filter (\<lambda>i. \<not> ctx_mem i \<or> create i \<noteq> RAY_OK) [0..<n] of
             i # _ \<Rightarrow> Inl (if \<not> ctx_mem i then RAY_ERR_OOM else create i)
           | [] \<Rightarrow> Inr \<lparr>tasks = map junk [0..<RAY_POOL_INIT_TASKS], task_cap = RAY_POOL_INIT_TASKS, task_claim = 0, task_limit = 0, pending = 0,
                       cancelled = False, n_workers = n\<rparr>)"

text \<open>Growing the ring; the capacity is positive, and doubled up to the ceiling.\<close>

function grow_cap :: "nat \<Rightarrow> nat \<Rightarrow> nat" where
  "grow_cap n c = (if 0 < c \<and> c < n \<and> c < RAY_POOL_MAX_TASKS then grow_cap n (c * 2) else c)"
  by pat_completeness auto
termination by (relation "measure (\<lambda>(n, c). n - c)") auto

declare grow_cap.simps [simp del]

definition grow_ring :: "bool \<Rightarrow> (nat \<Rightarrow> task) \<Rightarrow> nat \<Rightarrow> pool \<Rightarrow> pool" where
  "grow_ring mem junk n p =
     (if task_cap p < n
      then let new_cap = grow_cap n (task_cap p)
           in if task_cap p < new_cap \<and> mem
              then p\<lparr>tasks := tasks p @ map junk [task_cap p..<new_cap],
                     task_cap := new_cap\<rparr>
              else p
      else p)"

text \<open>The number of tasks as the source computes it, in 32 bits, and the tasks after clamping to the capacity.\<close>

definition clamp_total :: "int \<Rightarrow> int" where
  "clamp_total total_elems = (if I64_MAX - TASK_GRAIN + 1 < total_elems then I64_MAX - TASK_GRAIN + 1 else total_elems)"

definition wanted_tasks :: "int \<Rightarrow> nat" where
  "wanted_tasks total_elems = nat ((clamp_total total_elems + TASK_GRAIN - 1) div TASK_GRAIN mod 2 ^ 32)"

definition cut_tasks :: "nat \<Rightarrow> int \<Rightarrow> int \<Rightarrow> nat \<Rightarrow> task list" where
  "cut_tasks fn total_elems grain n =
     map (\<lambda>i. \<lparr>t_fn = fn, t_start = int i * grain, t_end = (if total_elems < int i * grain + grain then total_elems else int i * grain + grain)\<rparr>) [0..<n]"

definition dispatch_tasks :: "nat \<Rightarrow> int \<Rightarrow> nat \<Rightarrow> task list" where
  "dispatch_tasks fn total_elems cap =
     (let n_tasks = wanted_tasks total_elems; total_elems = clamp_total total_elems
      in if cap < n_tasks then cut_tasks fn total_elems ((total_elems + int cap - 1) div int cap) cap else cut_tasks fn total_elems TASK_GRAIN n_tasks)"

definition dispatch_n_tasks :: "nat \<Rightarrow> nat \<Rightarrow> nat \<Rightarrow> task list" where
  "dispatch_n_tasks fn n cap = map (\<lambda>i. \<lparr>t_fn = fn, t_start = int i, t_end = int i + 1\<rparr>) [0..<min n cap]"

text \<open>Writing the tasks of the tickets from \<open>base\<close> on.\<close>

definition slot :: "nat \<Rightarrow> nat \<Rightarrow> nat" where
  "slot cap k = k AND (cap - 1)"

fun fill_ring :: "task list \<Rightarrow> nat \<Rightarrow> nat \<Rightarrow> task list \<Rightarrow> task list" where
  "fill_ring ring cap base [] = ring"
| "fill_ring ring cap base (t # ts) = fill_ring (ring[slot cap base := t]) cap (base + 1) ts"

section \<open>The steps of the threads\<close>

text \<open>
  Where a thread is.  Thread 0 is the main thread: outside a dispatch it is idle, then it has filled
  the ring, set \<open>pending\<close>, published the window, and takes part as a worker until it waits for the rest.
  Inside \<^verbatim>\<open>pool_claim\<close> a thread has read the claim counter, then the limit.
\<close>

datatype pc = Idle | Filled nat | Armed nat | Load | Seen nat | Bound nat nat | Holding nat | Running nat | Finished nat | Spin

text \<open>The pool, the threads, and for the statements the tasks by ticket, what was run and what was skipped.\<close>

record psys = pool +
  pcs :: "nat \<Rightarrow> pc"
  sent :: "task list"
  ran :: "(nat \<times> nat \<times> task) list"
  skipped :: "nat list"

definition go :: "nat \<Rightarrow> pc \<Rightarrow> psys \<Rightarrow> psys" where
  "go w c s = s\<lparr>pcs := (pcs s)(w := c)\<rparr>"

definition load_tasks :: "task list \<Rightarrow> psys \<Rightarrow> psys" where
  "load_tasks ts s = s\<lparr>tasks := fill_ring (tasks s) (task_cap s) (task_limit s) ts, sent := sent s @ ts\<rparr>"

text \<open>A record of the wider type, with its pool part after the ring has grown.\<close>

definition grown :: "bool \<Rightarrow> (nat \<Rightarrow> task) \<Rightarrow> nat \<Rightarrow> psys \<Rightarrow> psys" where
  "grown mem junk n s = (let p = grow_ring mem junk n (pool.truncate s) in s\<lparr>tasks := tasks p, task_cap := task_cap p\<rparr>)"

inductive pstep :: "nat \<Rightarrow> psys \<Rightarrow> psys \<Rightarrow> bool" where
  dispatch: "pcs s 0 = Idle \<Longrightarrow> 0 < total_elems \<Longrightarrow> s1 = grown mem junk (wanted_tasks total_elems) s \<Longrightarrow>
    ts = dispatch_tasks fn total_elems (task_cap s1) \<Longrightarrow> pstep 0 s (go 0 (Filled (length ts)) (load_tasks ts s1))"
| dispatch_n: "pcs s 0 = Idle \<Longrightarrow> 0 < n \<Longrightarrow> s1 = grown mem junk n s \<Longrightarrow>
    ts = dispatch_n_tasks fn n (task_cap s1) \<Longrightarrow> pstep 0 s (go 0 (Filled (length ts)) (load_tasks ts s1))"
| arm: "pcs s 0 = Filled n \<Longrightarrow> pstep 0 s (go 0 (Armed n) (s\<lparr>pending := n\<rparr>))"
| publish: "pcs s 0 = Armed n \<Longrightarrow> pstep 0 s (go 0 Load (s\<lparr>task_limit := task_limit s + n\<rparr>))"
| wake: "0 < w \<Longrightarrow> w \<le> n_workers s \<Longrightarrow> pcs s w = Idle \<Longrightarrow> pstep w s (go w Load s)"
| load: "pcs s w = Load \<Longrightarrow> pstep w s (go w (Seen (task_claim s)) s)"
| limit: "pcs s w = Seen cur \<Longrightarrow> pstep w s (go w (Bound cur (task_limit s)) s)"
| exhausted: "pcs s w = Bound cur bnd \<Longrightarrow> bnd \<le> cur \<Longrightarrow> pstep w s (go w (if w = 0 then Spin else Idle) s)"
| claim: "pcs s w = Bound cur bnd \<Longrightarrow> cur < bnd \<Longrightarrow> task_claim s = cur \<Longrightarrow>
    pstep w s (go w (Holding cur) (s\<lparr>task_claim := cur + 1\<rparr>))"
| retry: "pcs s w = Bound cur bnd \<Longrightarrow> cur < bnd \<Longrightarrow> pstep w s (go w (Seen (task_claim s)) s)"
| skip: "pcs s w = Holding k \<Longrightarrow> cancelled s \<Longrightarrow> pstep w s (go w (Finished k) (s\<lparr>skipped := k # skipped s\<rparr>))"
| start: "pcs s w = Holding k \<Longrightarrow> \<not> cancelled s \<Longrightarrow> pstep w s (go w (Running k) s)"
| run: "pcs s w = Running k \<Longrightarrow>
    pstep w s (go w (Finished k) (s\<lparr>ran := (w, k, tasks s ! slot (task_cap s) k) # ran s\<rparr>))"
| finish: "pcs s w = Finished k \<Longrightarrow> pstep w s (go w Load (s\<lparr>pending := pending s - 1\<rparr>))"
| barrier: "pcs s 0 = Spin \<Longrightarrow> pending s = 0 \<Longrightarrow> pstep 0 s (go 0 Idle s)"
| ray_cancel: "pstep 0 s (s\<lparr>cancelled := True\<rparr>)"
| ray_cancel_reset: "pstep 0 s (s\<lparr>cancelled := False\<rparr>)"

definition pool_start :: "pool \<Rightarrow> psys" where
  "pool_start p = pool.extend p \<lparr>pcs = \<lambda>_. Idle, sent = [], ran = [], skipped = []\<rparr>"

inductive reachable :: "pool \<Rightarrow> psys \<Rightarrow> bool" for p where
  init: "reachable p (pool_start p)"
| step: "reachable p s \<Longrightarrow> pstep w s s' \<Longrightarrow> reachable p s'"

section \<open>The ring\<close>

lemma slot_mod: "slot (2 ^ e) k = k mod 2 ^ e"
proof -
  have "slot (2 ^ e) k = k AND mask e" by (simp add: slot_def mask_eq_exp_minus_1)
  then show ?thesis by (simp only: take_bit_eq_mask [symmetric] take_bit_eq_mod)
qed

lemma fill_ring_length [simp]: "length (fill_ring ring cap base ts) = length ring"
  by (induction ts arbitrary: ring base) simp_all

lemma fill_ring_other:
  assumes "\<forall>i < length ts. slot cap (base + i) \<noteq> j"
  shows "fill_ring ring cap base ts ! j = ring ! j"
  using assms
proof (induction ts arbitrary: ring base)
  case (Cons t ts)
  have "slot cap base \<noteq> j" using Cons.prems by (auto dest: spec [of _ 0])
  moreover have "\<forall>i < length ts. slot cap (base + 1 + i) \<noteq> j" using Cons.prems by (auto dest: spec [of _ "Suc _"])
  ultimately show ?case using Cons.IH [of "base + 1"] by simp
qed simp

lemma slot_distinct:
  assumes "i < j" "j < i + 2 ^ e"
  shows "slot (2 ^ e) i \<noteq> slot (2 ^ e) j"
proof
  assume "slot (2 ^ e) i = slot (2 ^ e) j"
  then have "2 ^ e dvd j - i" using assms(1) mod_eq_dvd_iff_nat [of i j "2 ^ e"] by (simp add: slot_mod)
  then have "2 ^ e \<le> j - i" using assms(1) by (intro dvd_imp_le) simp_all
  then show False using assms by simp
qed

lemma fill_ring_nth:
  assumes "length ts \<le> 2 ^ e" "length ring = 2 ^ e" "i < length ts"
  shows "fill_ring ring (2 ^ e) base ts ! slot (2 ^ e) (base + i) = ts ! i"
  using assms
proof (induction ts arbitrary: ring base i)
  case (Cons t ts)
  show ?case
  proof (cases i)
    case 0
    have "slot (2 ^ e) (base + 1 + j) \<noteq> slot (2 ^ e) base" if "j < length ts" for j
      using slot_distinct [of base "base + 1 + j" e] that Cons.prems(1) by simp
    then have "fill_ring (ring[slot (2 ^ e) base := t]) (2 ^ e) (base + 1) ts ! slot (2 ^ e) base = ring[slot (2 ^ e) base := t] ! slot (2 ^ e) base"
      by (intro fill_ring_other) simp
    then show ?thesis using 0 Cons.prems(2) by (simp add: slot_mod)
  next
    case (Suc j)
    then show ?thesis using Cons.IH [of "ring[slot (2 ^ e) base := t]" j "base + 1"] Cons.prems by simp
  qed
qed simp

lemma grow_cap_facts:
  assumes "c = 2 ^ d"
  shows "c \<le> grow_cap n c \<and> (\<exists>e. grow_cap n c = 2 ^ e)"
  using assms
proof (induction n c arbitrary: d rule: grow_cap.induct)
  case (1 n c)
  show ?case
  proof (cases "0 < c \<and> c < n \<and> c < RAY_POOL_MAX_TASKS")
    case True
    then show ?thesis using 1(1) [of "Suc d"] 1(2) by (subst (1 2) grow_cap.simps) auto
  qed (use 1(2) in \<open>auto simp: grow_cap.simps\<close>)
qed

text \<open>The ring has a power of two of slots.\<close>

definition ring_ok :: "psys \<Rightarrow> bool" where
  "ring_ok s \<longleftrightarrow> length (tasks s) = task_cap s \<and> (\<exists>e. task_cap s = 2 ^ e)"

lemma grown_facts:
  assumes "ring_ok s"
  shows "ring_ok (grown mem junk n s)" "task_claim (grown mem junk n s) = task_claim s" "task_limit (grown mem junk n s) = task_limit s"
    "pending (grown mem junk n s) = pending s" "cancelled (grown mem junk n s) = cancelled s" "n_workers (grown mem junk n s) = n_workers s"
    "pcs (grown mem junk n s) = pcs s" "sent (grown mem junk n s) = sent s" "ran (grown mem junk n s) = ran s" "skipped (grown mem junk n s) = skipped s"
proof -
  show "ring_ok (grown mem junk n s)"
    using assms grow_cap_facts [of "task_cap s" _ n] by (auto simp: grown_def grow_ring_def ring_ok_def Let_def pool.truncate_def)
qed (simp_all add: grown_def Let_def)

lemma dispatch_tasks_length: "length (dispatch_tasks fn n cap) \<le> cap" "length (dispatch_n_tasks fn m cap) \<le> cap"
  by (simp_all add: dispatch_tasks_def dispatch_n_tasks_def cut_tasks_def Let_def)

section \<open>The invariant of the pool\<close>

text \<open>The ticket a thread has claimed and not yet counted, and one whose task is still to be run.\<close>

fun held :: "pc \<Rightarrow> nat option" where
  "held (Holding k) = Some k"
| "held (Running k) = Some k"
| "held (Finished k) = Some k"
| "held _ = None"

fun unrun :: "pc \<Rightarrow> nat option" where
  "unrun (Holding k) = Some k"
| "unrun (Running k) = Some k"
| "unrun _ = None"

text \<open>Tasks written and not published; a main thread that is in no window.\<close>

fun unpublished :: "pc \<Rightarrow> nat" where
  "unpublished (Filled n) = n"
| "unpublished (Armed n) = n"
| "unpublished _ = 0"

fun no_window :: "pc \<Rightarrow> bool" where
  "no_window Idle = True"
| "no_window (Filled n) = True"
| "no_window (Armed n) = True"
| "no_window _ = False"

text \<open>A thread inside \<^verbatim>\<open>pool_claim\<close> has read values of the counters that may be old; main has the current limit.\<close>

fun reads_ok :: "nat \<Rightarrow> nat \<Rightarrow> bool \<Rightarrow> pc \<Rightarrow> bool" where
  "reads_ok clm bnd main (Seen cur) = (cur \<le> clm)"
| "reads_ok clm bnd main (Bound cur b) = (cur \<le> clm \<and> (if main then b = bnd else b \<le> bnd))"
| "reads_ok clm bnd main (Holding k) = (k < clm)"
| "reads_ok clm bnd main (Running k) = (k < clm)"
| "reads_ok clm bnd main (Finished k) = (k < clm)"
| "reads_ok clm bnd main Spin = (main \<and> clm = bnd)"
| "reads_ok clm bnd main _ = True"

definition ctl_ok :: "psys \<Rightarrow> bool" where
  "ctl_ok s \<longleftrightarrow> task_claim s \<le> task_limit s \<and>
     (\<forall>w. n_workers s < w \<longrightarrow> pcs s w = Idle) \<and>
     reads_ok (task_claim s) (task_limit s) True (pcs s 0) \<and>
     (\<forall>w > 0. reads_ok (task_claim s) (task_limit s) False (pcs s w)) \<and>
     (\<forall>v w k. held (pcs s v) = Some k \<longrightarrow> held (pcs s w) = Some k \<longrightarrow> v = w) \<and>
     (no_window (pcs s 0) \<longrightarrow> task_claim s = task_limit s \<and> (\<forall>w. held (pcs s w) = None))"

text \<open>What was run under a ticket is the task sent under it.\<close>

definition runs_ok :: "task list \<Rightarrow> (nat \<times> nat \<times> task) list \<Rightarrow> bool" where
  "runs_ok ts rs \<longleftrightarrow> (\<forall>(w, k, t) \<in> set rs. k < length ts \<and> t = ts ! k)"

definition data_ok :: "psys \<Rightarrow> bool" where
  "data_ok s \<longleftrightarrow> length (sent s) = task_limit s + unpublished (pcs s 0) \<and>
     (\<forall>k < length (sent s). task_claim s \<le> k \<or> (\<exists>w. unrun (pcs s w) = Some k) \<longrightarrow> tasks s ! slot (task_cap s) k = sent s ! k) \<and>
     distinct (map (fst \<circ> snd) (ran s) @ skipped s) \<and>
     set (map (fst \<circ> snd) (ran s) @ skipped s) = {k. k < task_claim s \<and> (\<forall>w. unrun (pcs s w) \<noteq> Some k)} \<and>
     runs_ok (sent s) (ran s)"

definition holders :: "psys \<Rightarrow> nat set" where
  "holders s = {w. held (pcs s w) \<noteq> None}"

definition count_ok :: "psys \<Rightarrow> bool" where
  "count_ok s \<longleftrightarrow> finite (holders s) \<and>
     (case pcs s 0 of Filled n \<Rightarrow> True | Armed n \<Rightarrow> pending s = n
      | _ \<Rightarrow> pending s = task_limit s - task_claim s + card (holders s))"

lemma held_claimed: "reads_ok c b m p \<Longrightarrow> held p = Some k \<Longrightarrow> k < c"
  by (cases p) auto

lemma unrun_held: "unrun p = Some k \<Longrightarrow> held p = Some k"
  by (cases p) auto

lemma reads_ok_mono: "reads_ok c b m p \<Longrightarrow> c < c' \<Longrightarrow> c' \<le> b \<Longrightarrow> reads_ok c' b m p"
  by (cases p) auto

lemma go_sel [simp]: "pcs (go w c s) = (pcs s)(w := c)" "task_claim (go w c s) = task_claim s" "task_limit (go w c s) = task_limit s"
  "tasks (go w c s) = tasks s" "task_cap (go w c s) = task_cap s" "pending (go w c s) = pending s" "cancelled (go w c s) = cancelled s"
  "n_workers (go w c s) = n_workers s" "sent (go w c s) = sent s" "ran (go w c s) = ran s" "skipped (go w c s) = skipped s"
  by (simp_all add: go_def)

lemma load_tasks_sel [simp]: "pcs (load_tasks ts s) = pcs s" "task_claim (load_tasks ts s) = task_claim s" "task_limit (load_tasks ts s) = task_limit s"
  "tasks (load_tasks ts s) = fill_ring (tasks s) (task_cap s) (task_limit s) ts" "task_cap (load_tasks ts s) = task_cap s" "pending (load_tasks ts s) = pending s"
  "cancelled (load_tasks ts s) = cancelled s" "n_workers (load_tasks ts s) = n_workers s" "sent (load_tasks ts s) = sent s @ ts"
  "ran (load_tasks ts s) = ran s" "skipped (load_tasks ts s) = skipped s"
  by (simp_all add: load_tasks_def)

lemma ring_step: "pstep w s s' \<Longrightarrow> ring_ok s \<Longrightarrow> ring_ok s'"
proof (induction rule: pstep.induct)
  case (dispatch s n s1 mem junk ts fn)
  then show ?case using grown_facts(1) [of s mem junk "wanted_tasks n"] by (simp add: ring_ok_def)
next
  case (dispatch_n s n s1 mem junk ts fn)
  then show ?case using grown_facts(1) [of s mem junk n] by (simp add: ring_ok_def)
qed (simp_all add: ring_ok_def)

lemma ctl_okD:
  assumes "ctl_ok s"
  shows "task_claim s \<le> task_limit s" "n_workers s < v \<Longrightarrow> pcs s v = Idle" "reads_ok (task_claim s) (task_limit s) (w = 0) (pcs s w)"
    "held (pcs s v) = Some k \<Longrightarrow> held (pcs s u) = Some k \<Longrightarrow> v = u"
    "no_window (pcs s 0) \<Longrightarrow> task_claim s = task_limit s" "no_window (pcs s 0) \<Longrightarrow> held (pcs s v) = None"
proof -
  have "reads_ok (task_claim s) (task_limit s) True (pcs s 0)" "0 < w \<Longrightarrow> reads_ok (task_claim s) (task_limit s) False (pcs s w)"
    using assms unfolding ctl_ok_def by blast+
  then show "reads_ok (task_claim s) (task_limit s) (w = 0) (pcs s w)" by (cases "w = 0") simp_all
qed (use assms in \<open>unfold ctl_ok_def, blast+\<close>)

text \<open>What a step that moves one thread has to keep, and the parts that do not matter.\<close>

lemma ctl_go:
  assumes "ctl_ok s" "reads_ok (task_claim s) (task_limit s) (w = 0) c" "held c = None \<or> held c = held (pcs s w)"
    and "w \<le> n_workers s" "w = 0 \<longrightarrow> no_window c \<longrightarrow> task_claim s = task_limit s \<and> (\<forall>v. held (pcs s v) = None)"
  shows "ctl_ok (go w c s)"
proof -
  have s: "task_claim s \<le> task_limit s" "\<forall>v. n_workers s < v \<longrightarrow> pcs s v = Idle"
    "reads_ok (task_claim s) (task_limit s) True (pcs s 0)" "\<forall>v > 0. reads_ok (task_claim s) (task_limit s) False (pcs s v)"
    "\<forall>v u k. held (pcs s v) = Some k \<longrightarrow> held (pcs s u) = Some k \<longrightarrow> v = u"
    "no_window (pcs s 0) \<longrightarrow> task_claim s = task_limit s \<and> (\<forall>v. held (pcs s v) = None)"
    using assms(1) unfolding ctl_ok_def by blast+
  have old: "held (((pcs s)(w := c)) v) = Some k \<Longrightarrow> held (pcs s v) = Some k" for v k using assms(3) by (auto split: if_splits)
  then have none: "held (pcs s v) = None \<Longrightarrow> held (((pcs s)(w := c)) v) = None" for v by (metis option.exhaust)
  show ?thesis unfolding ctl_ok_def go_sel
  proof (intro conjI)
    show "\<forall>v. n_workers s < v \<longrightarrow> ((pcs s)(w := c)) v = Idle" using s(2) assms(4) by simp
    show "reads_ok (task_claim s) (task_limit s) True (((pcs s)(w := c)) 0)" using s(3) assms(2) by auto
    show "\<forall>v > 0. reads_ok (task_claim s) (task_limit s) False (((pcs s)(w := c)) v)" using s(4) assms(2) by auto
    show "\<forall>v u k. held (((pcs s)(w := c)) v) = Some k \<longrightarrow> held (((pcs s)(w := c)) u) = Some k \<longrightarrow> v = u" using s(5) old by blast
    show "no_window (((pcs s)(w := c)) 0) \<longrightarrow> task_claim s = task_limit s \<and> (\<forall>v. held (((pcs s)(w := c)) v) = None)"
      using s(6) assms(5) none by (cases "w = 0") (simp_all del: fun_upd_apply add: fun_upd_same fun_upd_other)
  qed (rule s(1))
qed

lemma ctl_frame [simp]: "ctl_ok (s\<lparr>pending := n\<rparr>) = ctl_ok s" "ctl_ok (s\<lparr>skipped := ks\<rparr>) = ctl_ok s" "ctl_ok (s\<lparr>ran := rs\<rparr>) = ctl_ok s"
  "ctl_ok (s\<lparr>cancelled := b\<rparr>) = ctl_ok s" "ctl_ok (load_tasks ts s) = ctl_ok s"
  by (simp_all add: ctl_ok_def)

lemma ctl_thread:
  assumes "ctl_ok s"
  shows "pcs s w \<noteq> Idle \<Longrightarrow> w \<le> n_workers s" "reads_ok (task_claim s) (task_limit s) (w = 0) (pcs s w)"
    "no_window (pcs s 0) \<Longrightarrow> task_claim s = task_limit s \<and> held (pcs s v) = None"
  using ctl_okD [OF assms] by (metis not_le, simp, metis)

lemma ctl_claim:
  assumes s: "ctl_ok s" and w: "pcs s w = Bound (task_claim s) b" "task_claim s < b"
  shows "ctl_ok (go w (Holding (task_claim s)) (s\<lparr>task_claim := task_claim s + 1\<rparr>))"
proof -
  note th = ctl_thread [OF s]
  have lt: "task_claim s < task_limit s" using th(2) [of w] w by (auto split: if_splits)
  have old: "held (pcs s v) = Some k \<Longrightarrow> k < task_claim s" for v k using held_claimed [OF th(2)] .
  have r: "reads_ok (task_claim s + 1) (task_limit s) (v = 0) (pcs s v)" for v using reads_ok_mono [OF th(2), of "task_claim s + 1" v] lt by simp
  have noq: "\<not> no_window (pcs s 0)" using lt th(3) by auto
  have "w \<le> n_workers s" using th(1) [of w] w by simp
  then have idle: "\<forall>v. n_workers s < v \<longrightarrow> ((pcs s)(w := Holding (task_claim s))) v = Idle" using ctl_okD(2) [OF s] by simp
  have inj: "\<forall>v u k. held (((pcs s)(w := Holding (task_claim s))) v) = Some k \<longrightarrow> held (((pcs s)(w := Holding (task_claim s))) u) = Some k \<longrightarrow> v = u"
  proof (intro allI impI)
    fix v u k
    assume a: "held (((pcs s)(w := Holding (task_claim s))) v) = Some k" "held (((pcs s)(w := Holding (task_claim s))) u) = Some k"
    show "v = u"
    proof (cases "v = w \<or> u = w")
      case True
      then show ?thesis using a old [of v k] old [of u k] by (auto split: if_splits)
    next
      case False
      then show ?thesis using a ctl_okD(4) [OF s, of v k u] by simp
    qed
  qed
  let ?s = "go w (Holding (task_claim s)) (s\<lparr>task_claim := task_claim s + 1\<rparr>)"
  have sel: "pcs ?s = (pcs s)(w := Holding (task_claim s))" "task_claim ?s = task_claim s + 1" "task_limit ?s = task_limit s" "n_workers ?s = n_workers s"
    by simp_all
  have r': "reads_ok (task_claim s + 1) (task_limit s) (v = 0) (((pcs s)(w := Holding (task_claim s))) v)" for v using r [of v] by simp
  have noq': "\<not> no_window (((pcs s)(w := Holding (task_claim s))) 0)" using noq by simp
  show ?thesis unfolding ctl_ok_def sel
  proof (intro conjI)
    show "reads_ok (task_claim s + 1) (task_limit s) True (((pcs s)(w := Holding (task_claim s))) 0)" using r' [of 0] by (simp only: HOL.refl)
    show "\<forall>v > 0. reads_ok (task_claim s + 1) (task_limit s) False (((pcs s)(w := Holding (task_claim s))) v)" using r' by (metis neq0_conv)
    show "task_claim s + 1 \<le> task_limit s" using lt by simp
  qed (rule idle, rule inj, use noq' in blast)
qed

lemma ctl_publish:
  assumes s: "ctl_ok s" and w: "pcs s 0 = Armed n"
  shows "ctl_ok (go 0 Load (s\<lparr>task_limit := task_limit s + n\<rparr>))"
proof -
  have "reads_ok (task_claim s) (task_limit s + n) False (pcs s v)" if "0 < v" for v
    using ctl_thread(2) [OF s, of v] ctl_thread(3) [OF s, of v] w that by (cases "pcs s v") auto
  then show ?thesis using s w unfolding ctl_ok_def by simp
qed

lemma holders_empty: "count_ok s \<Longrightarrow> pcs s 0 = Spin \<Longrightarrow> pending s = 0 \<Longrightarrow> held (pcs s v) = None"
  by (auto simp: count_ok_def holders_def)

lemma ctl_grown: "ring_ok s \<Longrightarrow> ctl_ok (grown mem junk n s) = ctl_ok s"
  by (simp add: ctl_ok_def grown_facts)

lemma ctl_step: "pstep w s s' \<Longrightarrow> ring_ok s \<Longrightarrow> ctl_ok s \<Longrightarrow> count_ok s \<Longrightarrow> ctl_ok s'"
proof (induction rule: pstep.induct)
  case (dispatch s n s1 mem junk ts fn)
  then show ?case using ctl_thread(3) [OF dispatch(6)] by (intro ctl_go) (simp_all add: ctl_grown grown_facts)
next
  case (dispatch_n s n s1 mem junk ts fn)
  then show ?case using ctl_thread(3) [OF dispatch_n(6)] by (intro ctl_go) (simp_all add: ctl_grown grown_facts)
next
  case (barrier s)
  then show ?case using ctl_thread(2) [OF barrier(4), of 0] holders_empty [of s] by (intro ctl_go) auto
next
  case (exhausted s w cur b)
  then show ?case using ctl_thread(1,2) [OF exhausted(4), of w] by (intro ctl_go) (auto simp: ctl_ok_def)
next
  case (arm s n)
  then show ?case using ctl_thread(3) [OF arm(3)] by (intro ctl_go) simp_all
next
  case (load s w)
  then show ?case using ctl_thread(1) [OF load(3), of w] by (intro ctl_go) simp_all
next
  case (limit s w cur)
  then show ?case using ctl_thread(1,2) [OF limit(3), of w] by (intro ctl_go) simp_all
next
  case (retry s w cur b)
  then show ?case using ctl_thread(1) [OF retry(4), of w] by (intro ctl_go) simp_all
next
  case (skip s w k)
  then show ?case using ctl_thread(1,2) [OF skip(4), of w] by (intro ctl_go) simp_all
next
  case (start s w k)
  then show ?case using ctl_thread(1,2) [OF start(4), of w] by (intro ctl_go) simp_all
next
  case (run s w k)
  then show ?case using ctl_thread(1,2) [OF run(3), of w] by (intro ctl_go) simp_all
next
  case (finish s w k)
  then show ?case using ctl_thread(1) [OF finish(3), of w] by (intro ctl_go) simp_all
next
  case (wake w s)
  then show ?case by (intro ctl_go) simp_all
next
  case (claim s w cur b)
  then show ?case using ctl_claim [of s w b] by simp
qed (simp_all add: ctl_publish)

fun setting_up :: "pc \<Rightarrow> bool" where
  "setting_up (Filled n) = True"
| "setting_up (Armed n) = True"
| "setting_up _ = False"

lemma count_ok_alt: "count_ok s \<longleftrightarrow> finite (holders s) \<and> (\<forall>n. pcs s 0 = Armed n \<longrightarrow> pending s = n) \<and>
    (\<not> setting_up (pcs s 0) \<longrightarrow> pending s = task_limit s - task_claim s + card (holders s))"
  by (cases "pcs s 0") (simp_all add: count_ok_def)

lemma holders_go: "holders (go w c s) = (if held c = None then holders s - {w} else insert w (holders s))"
  by (auto simp: holders_def)

lemma holders_frame [simp]: "holders (s\<lparr>pending := n\<rparr>) = holders s" "holders (s\<lparr>skipped := ks\<rparr>) = holders s" "holders (s\<lparr>ran := rs\<rparr>) = holders s"
  "holders (s\<lparr>cancelled := b\<rparr>) = holders s" "holders (load_tasks ts s) = holders s" "holders (s\<lparr>task_claim := n\<rparr>) = holders s"
  "holders (s\<lparr>task_limit := n\<rparr>) = holders s"
  by (simp_all add: holders_def)

lemma count_go:
  assumes "count_ok s" "held c = held (pcs s w)" "w = 0 \<longrightarrow> \<not> setting_up c \<and> \<not> setting_up (pcs s 0)"
  shows "count_ok (go w c s)"
proof -
  have "holders (go w c s) = holders s" using assms(2) by (auto simp: holders_def)
  then show ?thesis using assms unfolding count_ok_alt by (cases "w = 0") auto
qed

lemma count_frame [simp]: "count_ok (s\<lparr>skipped := ks\<rparr>) = count_ok s" "count_ok (s\<lparr>ran := rs\<rparr>) = count_ok s" "count_ok (s\<lparr>cancelled := b\<rparr>) = count_ok s"
  by (simp_all add: count_ok_alt)

lemma main_working: "ctl_ok s \<Longrightarrow> held (pcs s w) = Some k \<Longrightarrow> \<not> setting_up (pcs s 0)"
  using ctl_okD(6) [of s w] by (cases "pcs s 0") auto

lemma count_step: "pstep w s s' \<Longrightarrow> ring_ok s \<Longrightarrow> ctl_ok s \<Longrightarrow> count_ok s \<Longrightarrow> count_ok s'"
proof (induction rule: pstep.induct)
  case (dispatch s n s1 mem junk ts fn)
  have "holders s1 = {}" using ctl_okD(6) [OF dispatch(6)] dispatch by (simp add: holders_def grown_facts)
  then show ?case by (simp add: count_ok_alt holders_go)
next
  case (dispatch_n s n s1 mem junk ts fn)
  have "holders s1 = {}" using ctl_okD(6) [OF dispatch_n(6)] dispatch_n by (simp add: holders_def grown_facts)
  then show ?case by (simp add: count_ok_alt holders_go)
next
  case (arm s n)
  have "holders s = {}" using ctl_okD(6) [OF arm(3)] arm by (simp add: holders_def)
  then show ?case by (simp add: count_ok_alt holders_go)
next
  case (publish s n)
  have "holders s = {}" "task_claim s = task_limit s" using ctl_okD(5,6) [OF publish(3)] publish by (simp_all add: holders_def)
  then show ?case using publish by (simp add: count_ok_alt holders_go)
next
  case (claim s w cur b)
  have w: "w \<notin> holders s" using claim by (simp add: holders_def)
  have lt: "task_claim s < task_limit s" using ctl_okD(3) [OF claim(5), of w] claim(1-3) by (auto split: if_splits)
  then have "\<not> setting_up (pcs s 0)" using ctl_okD(5) [OF claim(5)] by (cases "pcs s 0") auto
  then show ?case using claim w lt by (auto simp: count_ok_alt holders_go)
next
  case (finish s w k)
  have w: "w \<in> holders s" using finish by (simp add: holders_def)
  have "\<not> setting_up (pcs s 0)" using main_working [OF finish(3), of w k] finish(1) by simp
  then show ?case using finish w card_Suc_Diff1 [of "holders s" w] by (auto simp: count_ok_alt holders_go)
next
  case (exhausted s w cur b)
  then show ?case by (intro count_go) auto
next
  case (load s w)
  then show ?case by (intro count_go) auto
next
  case (limit s w cur)
  then show ?case by (intro count_go) auto
next
  case (retry s w cur b)
  then show ?case by (intro count_go) auto
next
  case (skip s w k)
  then show ?case by (intro count_go) auto
next
  case (start s w k)
  then show ?case by (intro count_go) auto
next
  case (run s w k)
  then show ?case by (intro count_go) auto
next
  case (wake w s)
  then show ?case by (intro count_go) auto
next
  case (barrier s)
  then show ?case by (intro count_go) auto
qed simp_all

text \<open>The tasks by ticket: a step that moves one thread whose task stays run or unrun changes nothing.\<close>

lemma data_go:
  assumes "data_ok s" "unrun c = unrun (pcs s w)" "w = 0 \<longrightarrow> unpublished c = unpublished (pcs s 0)"
  shows "data_ok (go w c s)"
proof -
  have u: "unrun (((pcs s)(w := c)) v) = unrun (pcs s v)" for v using assms(2) by simp
  have p: "unpublished (((pcs s)(w := c)) 0) = unpublished (pcs s 0)" using assms(3) by simp
  show ?thesis using assms(1) unfolding data_ok_def go_sel u p .
qed

lemma data_frame [simp]: "data_ok (s\<lparr>pending := n\<rparr>) = data_ok s" "data_ok (s\<lparr>cancelled := b\<rparr>) = data_ok s"
  by (simp_all add: data_ok_def)


lemma runs_ok_simps [simp]: "runs_ok ts []" "runs_ok ts ((w, k, t) # rs) \<longleftrightarrow> k < length ts \<and> t = ts ! k \<and> runs_ok ts rs"
  by (auto simp: runs_ok_def)

lemma runs_ok_append: "runs_ok ts rs \<Longrightarrow> runs_ok (ts @ us) rs"
  by (auto simp: runs_ok_def nth_append)

definition open_tickets :: "psys \<Rightarrow> nat set" where
  "open_tickets s = {k. \<exists>w. unrun (pcs s w) = Some k}"

lemma data_ok_alt: "data_ok s \<longleftrightarrow> length (sent s) = task_limit s + unpublished (pcs s 0) \<and>
     (\<forall>k < length (sent s). task_claim s \<le> k \<or> k \<in> open_tickets s \<longrightarrow> tasks s ! slot (task_cap s) k = sent s ! k) \<and>
     distinct (map (fst \<circ> snd) (ran s) @ skipped s) \<and>
     set (map (fst \<circ> snd) (ran s) @ skipped s) = {k. k < task_claim s} - open_tickets s \<and>
     runs_ok (sent s) (ran s)"
  by (auto simp: data_ok_def open_tickets_def)

lemma open_claimed: "ctl_ok s \<Longrightarrow> k \<in> open_tickets s \<Longrightarrow> k < task_claim s"
  unfolding open_tickets_def using held_claimed [OF ctl_okD(3)] unrun_held by blast

lemma open_go: "ctl_ok s \<Longrightarrow> unrun (pcs s w) = Some k \<Longrightarrow> unrun c = None \<Longrightarrow> open_tickets (go w c s) = open_tickets s - {k}"
proof (intro set_eqI iffI)
  fix j
  assume s: "ctl_ok s" and w: "unrun (pcs s w) = Some k" and c: "unrun c = None"
  show "j \<in> open_tickets s - {k}" if "j \<in> open_tickets (go w c s)"
  proof -
    obtain v where v: "unrun (((pcs s)(w := c)) v) = Some j" using \<open>j \<in> open_tickets (go w c s)\<close> by (auto simp: open_tickets_def simp del: fun_upd_apply)
    then have "v \<noteq> w" using c by auto
    then show ?thesis using v w ctl_okD(4) [OF s unrun_held unrun_held, of v k w] by (auto simp: open_tickets_def)
  qed
  show "j \<in> open_tickets (go w c s)" if "j \<in> open_tickets s - {k}"
  proof -
    obtain v where "unrun (pcs s v) = Some j" "j \<noteq> k" using \<open>j \<in> open_tickets s - {k}\<close> by (auto simp: open_tickets_def)
    then show ?thesis using w by (auto simp: open_tickets_def intro!: exI [of _ v])
  qed
qed

lemma unrun_none: "held p = None \<Longrightarrow> unrun p = None"
  by (cases p) auto

lemma open_quiet: "ctl_ok s \<Longrightarrow> no_window (pcs s 0) \<Longrightarrow> open_tickets s = {}"
  using unrun_none [OF ctl_okD(6)] by (simp add: open_tickets_def)

lemma settle_set:
  assumes "set xs = {k. k < c} - Op" "k \<in> Op" "k < c"
  shows "k \<notin> set xs" "insert k (set xs) = {j. j < (c :: nat)} - (Op - {k})"
  using assms by auto

lemma data_load:
  assumes r: "ring_ok s" and c: "ctl_ok s" and d: "data_ok s" and q: "pcs s 0 = Idle" and fit: "length ts \<le> task_cap s"
  shows "data_ok (go 0 (Filled (length ts)) (load_tasks ts s))"
proof -
  have q': "task_claim s = task_limit s" "open_tickets s = {}" "length (sent s) = task_limit s"
    using ctl_okD(5) [OF c] open_quiet [OF c] d q by (simp_all add: data_ok_def)
  have o: "open_tickets (go 0 (Filled (length ts)) (load_tasks ts s)) = {}" using q'(2) by (auto simp: open_tickets_def)
  obtain e where e: "task_cap s = 2 ^ e" "length (tasks s) = 2 ^ e" using r by (auto simp: ring_ok_def)
  have "fill_ring (tasks s) (task_cap s) (task_limit s) ts ! slot (task_cap s) k = (sent s @ ts) ! k"
    if "task_limit s \<le> k" "k < length (sent s @ ts)" for k
    using fill_ring_nth [of ts e "tasks s" "k - task_limit s" "task_limit s"] that e fit q'(3) by (simp add: nth_append)
  then have ring: "\<forall>k < length (sent s @ ts). task_claim s \<le> k \<or> k \<in> {} \<longrightarrow> fill_ring (tasks s) (task_cap s) (task_limit s) ts ! slot (task_cap s) k = (sent s @ ts) ! k"
    using q'(1) by simp
  have old: "runs_ok (sent s @ ts) (ran s)" using d runs_ok_append unfolding data_ok_alt by blast
  show ?thesis using d q' ring old unfolding data_ok_alt o by simp
qed

lemma data_claim:
  assumes c: "ctl_ok s" and d: "data_ok s" and w: "pcs s w = Bound (task_claim s) b" "task_claim s < b"
  shows "data_ok (go w (Holding (task_claim s)) (s\<lparr>task_claim := task_claim s + 1\<rparr>))"
proof -
  have "unrun (((pcs s)(w := Holding (task_claim s))) v) = Some k \<longleftrightarrow> v = w \<and> k = task_claim s \<or> unrun (pcs s v) = Some k" for v k
    using w(1) by auto
  then have "open_tickets (go w (Holding (task_claim s)) (s\<lparr>task_claim := task_claim s + 1\<rparr>)) = insert (task_claim s) (open_tickets s)"
    by (auto simp: open_tickets_def simp del: fun_upd_apply)
  moreover have "task_claim s \<notin> open_tickets s" using open_claimed [OF c] by blast
  moreover have "task_claim s < task_limit s" using ctl_okD(3) [OF c, of w] w by (auto split: if_splits)
  ultimately show ?thesis using d w(1) unfolding data_ok_alt by (cases "w = 0") auto
qed

lemma data_settle:
  assumes c: "ctl_ok s" and d: "data_ok s" and w: "unrun (pcs s w) = Some k"
  shows "k < task_claim s" "k < length (sent s)" "tasks s ! slot (task_cap s) k = sent s ! k" "k \<in> open_tickets s"
    "open_tickets (go w (Finished k) s) = open_tickets s - {k}" "unpublished (((pcs s)(w := Finished k)) 0) = unpublished (pcs s 0)"
proof -
  show o: "k \<in> open_tickets s" using w by (auto simp: open_tickets_def)
  show k: "k < task_claim s" using open_claimed [OF c o] .
  show l: "k < length (sent s)" using k ctl_okD(1) [OF c] d by (simp add: data_ok_def)
  show "tasks s ! slot (task_cap s) k = sent s ! k" using d o l unfolding data_ok_alt by blast
  show "open_tickets (go w (Finished k) s) = open_tickets s - {k}" using open_go [OF c w] by simp
  show "unpublished (((pcs s)(w := Finished k)) 0) = unpublished (pcs s 0)" using w by (cases "pcs s 0") auto
qed

lemma data_skip:
  assumes "ctl_ok s" "data_ok s" "pcs s w = Holding k"
  shows "data_ok (go w (Finished k) (s\<lparr>skipped := k # skipped s\<rparr>))"
proof -
  have w: "unrun (pcs s w) = Some k" using assms(3) by simp
  note k = data_settle [OF assms(1,2) w]
  have "open_tickets (go w (Finished k) (s\<lparr>skipped := k # skipped s\<rparr>)) = open_tickets s - {k}" using k(5) by (simp add: open_tickets_def)
  moreover have "set (map (fst \<circ> snd) (ran s) @ skipped s) = {k. k < task_claim s} - open_tickets s" using assms(2) by (simp add: data_ok_alt)
  note settle_set [OF this k(4,1)]
  ultimately show ?thesis using k(6) assms(2) unfolding data_ok_alt by simp
qed

lemma data_run:
  assumes "ctl_ok s" "data_ok s" "pcs s w = Running k"
  shows "data_ok (go w (Finished k) (s\<lparr>ran := (w, k, tasks s ! slot (task_cap s) k) # ran s\<rparr>))"
proof -
  have w: "unrun (pcs s w) = Some k" using assms(3) by simp
  note k = data_settle [OF assms(1,2) w]
  have "open_tickets (go w (Finished k) (s\<lparr>ran := (w, k, tasks s ! slot (task_cap s) k) # ran s\<rparr>)) = open_tickets s - {k}"
    using k(5) by (simp add: open_tickets_def)
  moreover have "set (map (fst \<circ> snd) (ran s) @ skipped s) = {k. k < task_claim s} - open_tickets s" using assms(2) by (simp add: data_ok_alt)
  note settle_set [OF this k(4,1)]
  ultimately show ?thesis using k(2,3,4,6) assms(2) unfolding data_ok_alt by simp
qed

lemma data_publish:
  assumes "data_ok s" "pcs s 0 = Armed n"
  shows "data_ok (go 0 Load (s\<lparr>task_limit := task_limit s + n\<rparr>))"
proof -
  have "unrun (((pcs s)(0 := Load)) v) = unrun (pcs s v)" for v using assms(2) by simp
  then have "open_tickets (go 0 Load (s\<lparr>task_limit := task_limit s + n\<rparr>)) = open_tickets s"
    by (simp add: open_tickets_def del: fun_upd_apply)
  then show ?thesis using assms unfolding data_ok_alt by simp
qed

lemma data_step: "pstep w s s' \<Longrightarrow> ring_ok s \<Longrightarrow> ctl_ok s \<Longrightarrow> data_ok s \<Longrightarrow> data_ok s'"
proof (induction rule: pstep.induct)
  case (dispatch s n s1 mem junk ts fn)
  have "ring_ok s1" "ctl_ok s1" using dispatch grown_facts(1) ctl_grown by simp_all
  moreover have "open_tickets s = {}" "open_tickets s1 = {}" "task_claim s = task_limit s" "length (sent s) = task_limit s"
    using dispatch open_quiet [OF dispatch(6)] ctl_okD(5) [OF dispatch(6)] by (simp_all add: open_tickets_def grown_facts data_ok_def)
  then have "data_ok s1" using dispatch unfolding data_ok_alt by (simp add: grown_facts)
  ultimately show ?case using dispatch data_load [of s1 ts] dispatch_tasks_length(1) by (simp add: grown_facts)
next
  case (dispatch_n s n s1 mem junk ts fn)
  have "ring_ok s1" "ctl_ok s1" using dispatch_n grown_facts(1) ctl_grown by simp_all
  moreover have "open_tickets s = {}" "open_tickets s1 = {}" "task_claim s = task_limit s" "length (sent s) = task_limit s"
    using dispatch_n open_quiet [OF dispatch_n(6)] ctl_okD(5) [OF dispatch_n(6)] by (simp_all add: open_tickets_def grown_facts data_ok_def)
  then have "data_ok s1" using dispatch_n unfolding data_ok_alt by (simp add: grown_facts)
  ultimately show ?case using dispatch_n data_load [of s1 ts] dispatch_tasks_length(2) by (simp add: grown_facts)
next
  case (claim s w cur b)
  then show ?case using data_claim [of s w b] by simp
next
  case (arm s n)
  then show ?case by (intro data_go) auto
next
  case (exhausted s w cur b)
  then show ?case by (intro data_go) auto
next
  case (load s w)
  then show ?case by (intro data_go) auto
next
  case (limit s w cur)
  then show ?case by (intro data_go) auto
next
  case (retry s w cur b)
  then show ?case by (intro data_go) auto
next
  case (start s w k)
  then show ?case by (intro data_go) auto
next
  case (finish s w k)
  then show ?case by (intro data_go) auto
next
  case (wake w s)
  then show ?case by (intro data_go) auto
next
  case (barrier s)
  then show ?case by (intro data_go) auto
qed (simp_all add: data_publish data_skip data_run)

section \<open>Reachable states\<close>

inductive steps :: "psys \<Rightarrow> psys \<Rightarrow> bool" for s where
  none: "steps s s"
| more: "steps s s' \<Longrightarrow> pstep w s' s'' \<Longrightarrow> steps s s''"

lemma steps_trans: "steps s' s'' \<Longrightarrow> steps s s' \<Longrightarrow> steps s s''"
  by (induction rule: steps.induct) (auto intro: steps.more)

lemma steps_first: "pstep w s s' \<Longrightarrow> steps s' s'' \<Longrightarrow> steps s s''"
  by (rule steps_trans) (auto intro: steps.intros)

definition pool_ok :: "psys \<Rightarrow> bool" where
  "pool_ok s \<longleftrightarrow> ring_ok s \<and> ctl_ok s \<and> count_ok s \<and> data_ok s"

lemma pool_ok_step: "pool_ok s \<Longrightarrow> pstep w s s' \<Longrightarrow> pool_ok s'"
  using ring_step ctl_step count_step data_step unfolding pool_ok_def by blast

lemma pool_ok_steps: "steps s s' \<Longrightarrow> pool_ok s \<Longrightarrow> pool_ok s'"
  by (induction rule: steps.induct) (auto intro: pool_ok_step)

lemma pool_ok_start:
  assumes "ray_pool_create_impl rm sm tm cm cr junk n = Inr p"
  shows "pool_ok (pool_start p)"
proof -
  have p: "tasks p = map junk [0..<1024]" "task_cap p = 1024" "task_claim p = 0" "task_limit p = 0" "pending p = 0"
    using assms by (auto simp: ray_pool_create_impl_def RAY_POOL_INIT_TASKS_def split: if_splits list.splits)
  have s: "tasks (pool_start p) = tasks p" "task_cap (pool_start p) = task_cap p" "task_claim (pool_start p) = task_claim p"
    "task_limit (pool_start p) = task_limit p" "pending (pool_start p) = pending p" "pcs (pool_start p) = (\<lambda>_. Idle)"
    "sent (pool_start p) = []" "ran (pool_start p) = []" "skipped (pool_start p) = []"
    by (simp_all add: pool_start_def pool.extend_def)
  have "(1024 :: nat) = 2 ^ 10" by simp
  then have "ring_ok (pool_start p)" unfolding ring_ok_def s p by (metis length_map length_upt diff_zero)
  moreover have "ctl_ok (pool_start p)" "count_ok (pool_start p)" "data_ok (pool_start p)"
    unfolding ctl_ok_def count_ok_def data_ok_def holders_def s p by simp_all
  ultimately show ?thesis by (simp add: pool_ok_def)
qed

lemma reachable_ok:
  assumes "ray_pool_create_impl rm sm tm cm cr junk n = Inr p"
  shows "reachable p s \<Longrightarrow> pool_ok s"
  by (induction rule: reachable.induct) (auto intro: pool_ok_start [OF assms] pool_ok_step)

text \<open>Outside a dispatch every ticket is settled.\<close>

lemma all_settled:
  assumes ok: "pool_ok s" and idle: "pcs s 0 = Idle"
  shows "mset (map (snd \<circ> snd) (ran s)) + mset (map ((!) (sent s)) (skipped s)) = mset (sent s)"
proof -
  have d: "length (sent s) = task_claim s" "runs_ok (sent s) (ran s)" "open_tickets s = {}"
    "distinct (map (fst \<circ> snd) (ran s) @ skipped s)" "set (map (fst \<circ> snd) (ran s) @ skipped s) = {k. k < task_claim s} - open_tickets s"
    using ok idle open_quiet [of s] ctl_okD(5) [of s] by (simp_all add: pool_ok_def data_ok_alt)
  have "map (snd \<circ> snd) (ran s) = map ((!) (sent s)) (map (fst \<circ> snd) (ran s))" using d(2) by (auto simp: runs_ok_def)
  then have "mset (map (snd \<circ> snd) (ran s)) + mset (map ((!) (sent s)) (skipped s)) =
      mset (map ((!) (sent s)) (map (fst \<circ> snd) (ran s) @ skipped s))"
    by (simp only: map_append mset_append)
  also have "mset (map (fst \<circ> snd) (ran s) @ skipped s) = mset [0..<length (sent s)]"
    using d(1,3-5) by (intro set_eq_iff_mset_eq_distinct [THEN iffD1]) auto
  then have "mset (map ((!) (sent s)) (map (fst \<circ> snd) (ran s) @ skipped s)) = mset (map ((!) (sent s)) [0..<length (sent s)])"
    by (metis mset_map)
  also have "map ((!) (sent s)) [0..<length (sent s)] = sent s" by (rule map_nth)
  finally show ?thesis .
qed

text \<open>What was run stays on record, and so does what was sent.\<close>

lemma logs_grow: "pstep w s s' \<Longrightarrow> (\<exists>rs. ran s' = rs @ ran s) \<and> (\<exists>ks. skipped s' = ks @ skipped s) \<and> (\<exists>ts. sent s' = sent s @ ts)"
  by (induction rule: pstep.induct) (simp_all add: grown_def Let_def)

lemma logs_grow_steps: "steps s s' \<Longrightarrow> (\<exists>rs. ran s' = rs @ ran s) \<and> (\<exists>ks. skipped s' = ks @ skipped s) \<and> (\<exists>ts. sent s' = sent s @ ts)"
proof (induction rule: steps.induct)
  case (more s' w s'')
  then show ?case using logs_grow [OF more(2)] by (metis append.assoc)
qed simp

section \<open>The tasks of a dispatch cover its elements\<close>

lemma concat_ranges:
  fixes g m :: int
  assumes "0 < g" "0 \<le> m"
  shows "concat (map (\<lambda>i. [int i * g..(if m < int i * g + g then m else int i * g + g) - 1]) [0..<n]) = [0..min m (int n * g) - 1]"
proof (induction n)
  case (Suc n)
  show ?case
  proof (cases "m \<le> int n * g")
    case True
    then show ?thesis using Suc assms by (simp add: algebra_simps)
  next
    case False
    have "int n * g + g = int (Suc n) * g" by (simp add: algebra_simps)
    moreover have "[0..int n * g - 1] @ [int n * g..j - 1] = [0..j - 1]" if "int n * g \<le> j" for j
    proof (cases "int n * g = j")
      case False
      then show ?thesis using that assms by (intro upto_split1 [symmetric]) simp_all
    qed simp
    ultimately show ?thesis using Suc False assms by (simp add: min_def)
  qed
qed (use assms in simp)

definition elements :: "task list \<Rightarrow> int list" where
  "elements ts = concat (map (\<lambda>t. [t_start t..t_end t - 1]) ts)"

lemma dispatch_elements:
  assumes "0 < m" "m < 2 ^ 44" "0 < cap"
  shows "elements (dispatch_tasks fn m cap) = [0..m - 1]" "\<forall>t \<in> set (dispatch_tasks fn m cap). t_fn t = fn"
proof -
  have c: "clamp_total m = m" using assms by (simp add: clamp_total_def I64_MAX_def TASK_GRAIN_def)
  have "0 < (m + 8191) div 8192" "(m + 8191) div 8192 < 2 ^ 32" using assms by (auto simp: div_less_iff_less_mult pos_imp_zdiv_pos_iff)
  then have w: "int (wanted_tasks m) = (m + 8191) div 8192" by (simp add: wanted_tasks_def c TASK_GRAIN_def add.commute)
  have cover: "m \<le> (m + b - 1) div b * b" if "0 < b" for b
    using that div_mult_mod_eq [of "m + b - 1" b] pos_mod_bound [of b "m + b - 1"] by linarith
  have el: "elements (cut_tasks fn m g k) = [0..min m (int k * g) - 1]" if "0 < g" for g k
    using concat_ranges [of g m k] that assms(1) by (simp add: elements_def cut_tasks_def comp_def)
  show "elements (dispatch_tasks fn m cap) = [0..m - 1]"
  proof (cases "cap < wanted_tasks m")
    case True
    have g: "0 < (m + int cap - 1) div int cap" using assms by (simp add: pos_imp_zdiv_pos_iff)
    then show ?thesis using True el [OF g, of cap] cover [of "int cap"] assms(3) by (simp add: dispatch_tasks_def c min_def mult.commute)
  next
    case False
    then show ?thesis using el [of TASK_GRAIN "wanted_tasks m"] cover [of 8192] w by (simp add: dispatch_tasks_def c min_def TASK_GRAIN_def)
  qed
  show "\<forall>t \<in> set (dispatch_tasks fn m cap). t_fn t = fn" by (auto simp: dispatch_tasks_def cut_tasks_def Let_def)
qed


text \<open>What one dispatch ran, when nothing was skipped and no other dispatch came between.\<close>

lemma dispatch_ran:
  assumes ok: "pool_ok s" and idle: "pcs s 0 = Idle" "pcs s' 0 = Idle" and run: "steps s s'"
    and sent: "sent s' = sent s @ ts" and none: "skipped s' = skipped s"
  shows "\<exists>new. ran s' = new @ ran s \<and> mset (map (snd \<circ> snd) new) = mset ts"
proof -
  obtain new where new: "ran s' = new @ ran s" using logs_grow_steps [OF run] by blast
  have k: "k < length (sent s)" if "k \<in> set (skipped s)" for k
  proof -
    have "k \<in> set (map (fst \<circ> snd) (ran s) @ skipped s)" using that by simp
    moreover have "set (map (fst \<circ> snd) (ran s) @ skipped s) = {k. k < task_claim s} - open_tickets s"
      using ok unfolding pool_ok_def data_ok_alt by blast
    ultimately have "k < task_claim s" by blast
    then show ?thesis using ok ctl_okD(1) [of s] by (simp add: pool_ok_def data_ok_def)
  qed
  have "mset (map (snd \<circ> snd) new) + (mset (map (snd \<circ> snd) (ran s)) + mset (map ((!) (sent s')) (skipped s))) = mset ts + mset (sent s)"
    using all_settled [OF pool_ok_steps [OF run ok] idle(2)] new sent none by (simp add: ac_simps)
  moreover have "map ((!) (sent s')) (skipped s) = map ((!) (sent s)) (skipped s)" using k sent by (simp add: nth_append)
  ultimately have "mset (map (snd \<circ> snd) new) + mset (sent s) = mset ts + mset (sent s)"
    using all_settled [OF ok idle(1)] by metis
  then show ?thesis using new by auto
qed

lemma elements_mset: "mset us = mset ts \<Longrightarrow> mset (elements us) = mset (elements ts)"
proof -
  have "mset (elements xs) = \<Sum>\<^sub># (image_mset (\<lambda>t. mset [t_start t..t_end t - 1]) (mset xs))" for xs
    by (induction xs) (simp_all add: elements_def)
  then show "mset us = mset ts \<Longrightarrow> mset (elements us) = mset (elements ts)" by metis
qed

text \<open>
  C11.  However the threads of a pool interleave, no ticket is run twice, and what is run under a ticket is
  the task that was sent under it, although the slots of the ring are written again by later dispatches.
  When no dispatch is in progress, every task sent so far was run once or, after a cancellation, skipped.
\<close>

theorem pool_runs_once:
  assumes "ray_pool_create_impl rm sm tm cm cr junk n = Inr p" "reachable p s"
  shows "distinct (map (fst \<circ> snd) (ran s) @ skipped s) \<and>
    (\<forall>(w, k, t) \<in> set (ran s). k < length (sent s) \<and> t = sent s ! k) \<and>
    (pcs s 0 = Idle \<longrightarrow> mset (map (snd \<circ> snd) (ran s)) + mset (map ((!) (sent s)) (skipped s)) = mset (sent s))"
proof -
  have ok: "pool_ok s" using reachable_ok assms by blast
  then show ?thesis using all_settled [OF ok] by (auto simp: pool_ok_def data_ok_alt runs_ok_def simp del: map_map)
qed

text \<open>
  C26.  A dispatch of \<open>m < 2 ^ 44\<close> elements that is not cancelled hands every element to the function exactly once,
  in ranges, whatever the capacity of the ring is and whether it could grow: between the dispatch and
  the next state in which the main thread is idle and has sent nothing else.
\<close>

theorem dispatch_covers:
  assumes "ray_pool_create_impl rm sm tm cm cr junk n = Inr p" "reachable p s" "pcs s 0 = Idle"
    and "0 < m" "m < 2 ^ 44" "s1 = grown mem j (wanted_tasks m) s" "ts = dispatch_tasks fn m (task_cap s1)"
    and "steps (go 0 (Filled (length ts)) (load_tasks ts s1)) s'" "pcs s' 0 = Idle" "sent s' = sent s @ ts" "skipped s' = skipped s"
  shows "\<exists>new. ran s' = new @ ran s \<and> (\<forall>(w, k, t) \<in> set new. t_fn t = fn) \<and>
    mset (concat (map (\<lambda>(w, k, t). [t_start t..t_end t - 1]) new)) = mset [0..m - 1]"
proof -
  have ok: "pool_ok s" using reachable_ok [OF assms(1,2)] .
  have run: "steps s s'" using steps_first [OF pstep.dispatch [OF assms(3,4,6,7)] assms(8)] .
  obtain new where new: "ran s' = new @ ran s" "mset (map (snd \<circ> snd) new) = mset ts"
    using dispatch_ran [OF ok assms(3,9) run assms(10,11)] by blast
  have "0 < task_cap s1" using grown_facts(1) [of s mem j "wanted_tasks m"] ok assms(6) by (auto simp: pool_ok_def ring_ok_def)
  note el = dispatch_elements [OF assms(4,5) this, of fn]
  have "mset (elements (map (snd \<circ> snd) new)) = mset [0..m - 1]" using elements_mset [OF new(2)] el(1) assms(7) by simp
  moreover have "elements (map (snd \<circ> snd) new) = concat (map (\<lambda>(w, k, t). [t_start t..t_end t - 1]) new)"
    by (simp add: elements_def comp_def case_prod_unfold)
  moreover have "set (map (snd \<circ> snd) new) = set ts" using new(2) by (metis set_mset_mset)
  then have "t_fn t = fn" if "(w, k, t) \<in> set new" for w k t using el(2) assms(7) that by force
  ultimately show ?thesis using new(1) by auto
qed

section \<open>A dispatch can always be brought to its end\<close>

text \<open>Steps in which nothing is sent or cancelled, and nothing is skipped unless the query is cancelled.\<close>

definition carries :: "psys \<Rightarrow> psys \<Rightarrow> bool" where
  "carries s s' \<longleftrightarrow> steps s s' \<and> sent s' = sent s \<and> cancelled s' = cancelled s \<and> (\<not> cancelled s \<longrightarrow> skipped s' = skipped s)"

lemma carries_refl [simp]: "carries s s"
  by (simp add: carries_def steps.none)

lemma carries_trans: "carries s s' \<Longrightarrow> carries s' s'' \<Longrightarrow> carries s s''"
  unfolding carries_def using steps_trans by metis

lemma carries_first: "pstep w s s' \<Longrightarrow> sent s' = sent s \<Longrightarrow> cancelled s' = cancelled s \<Longrightarrow> cancelled s \<or> skipped s' = skipped s \<Longrightarrow> carries s' s'' \<Longrightarrow> carries s s''"
  unfolding carries_def using steps_first by metis

lemma go_go [simp]: "go w c (go w b s) = go w c s"
  by (simp add: go_def)

lemma finished_settles:
  "pcs s w = Finished k \<Longrightarrow> \<exists>s'. carries s s' \<and> pcs s' = (pcs s)(w := Load) \<and> task_claim s' = task_claim s \<and> task_limit s' = task_limit s"
  by (intro exI conjI, rule carries_first [OF pstep.finish _ _ _ carries_refl]) simp_all

lemma running_settles:
  assumes "pcs s w = Running k"
  shows "\<exists>s'. carries s s' \<and> pcs s' = (pcs s)(w := Load) \<and> task_claim s' = task_claim s \<and> task_limit s' = task_limit s"
proof -
  let ?s = "go w (Finished k) (s\<lparr>ran := (w, k, tasks s ! slot (task_cap s) k) # ran s\<rparr>)"
  obtain s' where s': "carries ?s s'" "pcs s' = (pcs ?s)(w := Load)" "task_claim s' = task_claim ?s" "task_limit s' = task_limit ?s"
    using finished_settles [of ?s w k] by auto
  have "carries s s'" using carries_first [OF pstep.run [OF assms] _ _ _ s'(1)] by simp
  then show ?thesis using s'(2-4) by (intro exI [of _ s']) simp
qed

lemma holder_settles:
  assumes "held (pcs s w) = Some k"
  shows "\<exists>s'. carries s s' \<and> pcs s' = (pcs s)(w := Load) \<and> task_claim s' = task_claim s \<and> task_limit s' = task_limit s"
proof (cases "pcs s w = Holding k")
  case True
  show ?thesis
  proof (cases "cancelled s")
    case c: True
    let ?s = "go w (Finished k) (s\<lparr>skipped := k # skipped s\<rparr>)"
    obtain s' where s': "carries ?s s'" "pcs s' = (pcs ?s)(w := Load)" "task_claim s' = task_claim ?s" "task_limit s' = task_limit ?s"
      using finished_settles [of ?s w k] by auto
    have "carries s s'" using carries_first [OF pstep.skip [OF True c] _ _ _ s'(1)] c by simp
    then show ?thesis using s'(2-4) by (intro exI [of _ s']) simp
  next
    case c: False
    let ?s = "go w (Running k) s"
    obtain s' where s': "carries ?s s'" "pcs s' = (pcs ?s)(w := Load)" "task_claim s' = task_claim ?s" "task_limit s' = task_limit ?s"
      using running_settles [of ?s w k] by auto
    have "carries s s'" using carries_first [OF pstep.start [OF True c] _ _ _ s'(1)] by simp
    then show ?thesis using s'(2-4) by (intro exI [of _ s']) simp
  qed
next
  case False
  then have "pcs s w = Running k \<or> pcs s w = Finished k" using assms by (cases "pcs s w") auto
  then show ?thesis using running_settles finished_settles by blast
qed

text \<open>Main at the compare-and-swap with a fresh value takes the ticket and settles it, or leaves the loop.\<close>

lemma main_fresh:
  assumes "pcs s 0 = Bound (task_claim s) b"
  shows "\<exists>s'. carries s s' \<and> (pcs s' 0 = Spin \<or> pcs s' 0 = Load \<and> task_limit s' = task_limit s \<and> task_claim s' = task_claim s + 1 \<and> task_claim s < b)"
proof (cases "b \<le> task_claim s")
  case True
  show ?thesis
    by (rule exI [of _ "go 0 Spin s"]) (use carries_first [OF pstep.exhausted [OF assms True] _ _ _ carries_refl] in simp)
next
  case False
  let ?s = "go 0 (Holding (task_claim s)) (s\<lparr>task_claim := task_claim s + 1\<rparr>)"
  have "held (pcs ?s 0) = Some (task_claim s)" by simp
  then obtain s' where s': "carries ?s s'" "pcs s' = (pcs ?s)(0 := Load)" "task_claim s' = task_claim ?s" "task_limit s' = task_limit ?s"
    using holder_settles by blast
  have "carries s s'" using carries_first [OF pstep.claim [OF assms _ HOL.refl] _ _ _ s'(1)] False by simp
  then show ?thesis using s'(2-4) False by (intro exI [of _ s']) simp
qed

lemma main_load:
  assumes "pcs s 0 = Load"
  shows "\<exists>s'. carries s s' \<and> (pcs s' 0 = Spin \<or> pcs s' 0 = Load \<and> task_limit s' = task_limit s \<and> task_claim s' = task_claim s + 1 \<and> task_claim s < task_limit s)"
proof -
  let ?s = "go 0 (Bound (task_claim s) (task_limit s)) s"
  have p: "pstep 0 s (go 0 (Seen (task_claim s)) s)" "pstep 0 (go 0 (Seen (task_claim s)) s) ?s"
    using pstep.load [OF assms] pstep.limit [of "go 0 (Seen (task_claim s)) s" 0 "task_claim s"] by simp_all
  have "carries s ?s" using carries_first [OF p(1) _ _ _ carries_first [OF p(2) _ _ _ carries_refl]] by simp
  moreover obtain s' where "carries ?s s'" "pcs s' 0 = Spin \<or> pcs s' 0 = Load \<and> task_limit s' = task_limit s \<and> task_claim s' = task_claim s + 1 \<and> task_claim s < task_limit s"
    using main_fresh [of ?s "task_limit s"] by auto
  ultimately show ?thesis using carries_trans by blast
qed

lemma main_spins: "pcs s 0 = Load \<Longrightarrow> \<exists>s'. carries s s' \<and> pcs s' 0 = Spin"
proof (induction "task_limit s - task_claim s" arbitrary: s rule: less_induct)
  case less
  obtain s' where s': "carries s s'" "pcs s' 0 = Spin \<or> pcs s' 0 = Load \<and> task_limit s' = task_limit s \<and> task_claim s' = task_claim s + 1 \<and> task_claim s < task_limit s"
    using main_load [OF less.prems] by blast
  show ?case
  proof (cases "pcs s' 0 = Spin")
    case False
    then have "task_limit s' - task_claim s' < task_limit s - task_claim s" "pcs s' 0 = Load" using s'(2) by auto
    then show ?thesis using less.hyps [of s'] carries_trans [OF s'(1)] by blast
  qed (use s'(1) in blast)
qed

lemma spin_ends:
  "pool_ok s \<Longrightarrow> pcs s 0 = Spin \<Longrightarrow> \<exists>s'. carries s s' \<and> pcs s' 0 = Idle"
proof (induction "card (holders s)" arbitrary: s rule: less_induct)
  case less
  have c: "ctl_ok s" "count_ok s" using less.prems(1) by (simp_all add: pool_ok_def)
  show ?case
  proof (cases "holders s = {}")
    case True
    have "pending s = 0" using c less.prems(2) True ctl_okD(3) [OF c(1), of 0] by (simp add: count_ok_def)
    then have "carries s (go 0 Idle s)" using carries_first [OF pstep.barrier [OF less.prems(2)] _ _ _ carries_refl] by simp
    then show ?thesis by (intro exI [of _ "go 0 Idle s"]) simp
  next
    case False
    then obtain w k where w: "held (pcs s w) = Some k" by (auto simp: holders_def)
    then obtain s' where s': "carries s s'" "pcs s' = (pcs s)(w := Load)" using holder_settles by blast
    have "w \<noteq> 0" using w less.prems(2) by (intro notI) simp
    then have spin: "pcs s' 0 = Spin" using s'(2) less.prems(2) by simp
    have "finite (holders s)" "w \<in> holders s" using w c(2) by (simp_all add: count_ok_def holders_def)
    moreover have "holders s' = holders s - {w}" using s'(2) by (auto simp: holders_def)
    ultimately have "card (holders s') < card (holders s)" by (simp only: card_Diff1_less)
    moreover have "pool_ok s'" using pool_ok_steps s'(1) less.prems(1) unfolding carries_def by blast
    ultimately show ?thesis using less.hyps [of s'] spin carries_trans [OF s'(1)] by blast
  qed
qed


lemma main_bound:
  assumes "pcs s 0 = Bound cur b"
  shows "\<exists>s'. carries s s' \<and> (pcs s' 0 = Spin \<or> pcs s' 0 = Load)"
proof (cases "cur = task_claim s")
  case True
  then show ?thesis using main_fresh [of s b] assms by blast
next
  case False
  show ?thesis
  proof (cases "b \<le> cur")
    case True
    show ?thesis by (rule exI [of _ "go 0 Spin s"]) (use carries_first [OF pstep.exhausted [OF assms True] _ _ _ carries_refl] in simp)
  next
    case lt: False
    let ?s = "go 0 (Seen (task_claim s)) s" and ?s' = "go 0 (Bound (task_claim s) (task_limit s)) s"
    have p: "pstep 0 s ?s" "pstep 0 ?s ?s'"
      using pstep.retry [OF assms] lt pstep.limit [of ?s 0 "task_claim s"] by simp_all
    then have "carries s ?s'" using carries_first [OF p(1) _ _ _ carries_first [OF p(2) _ _ _ carries_refl]] by simp
    moreover obtain s'' where "carries ?s' s''" "pcs s'' 0 = Spin \<or> pcs s'' 0 = Load" using main_fresh [of ?s' "task_limit s"] by auto
    ultimately show ?thesis using carries_trans by blast
  qed
qed

lemma main_returns:
  assumes "pcs s 0 \<noteq> Idle"
  shows "\<exists>s'. carries s s' \<and> (pcs s' 0 = Spin \<or> pcs s' 0 = Load)"
proof -
  have armed: "\<exists>s'. carries s s' \<and> pcs s' 0 = Load" if "pcs s 0 = Armed n" for s n
    by (intro exI conjI, rule carries_first [OF pstep.publish [OF that] _ _ _ carries_refl]) simp_all
  show ?thesis
  proof (cases "pcs s 0")
    case (Filled n)
    let ?s = "go 0 (Armed n) (s\<lparr>pending := n\<rparr>)"
    obtain s' where "carries ?s s'" "pcs s' 0 = Load" using armed [of ?s n] by auto
    then show ?thesis using carries_first [OF pstep.arm [OF Filled]] by fastforce
  next
    case (Armed n)
    then show ?thesis using armed by blast
  next
    case (Seen cur)
    let ?s = "go 0 (Bound cur (task_limit s)) s"
    obtain s' where "carries ?s s'" "pcs s' 0 = Spin \<or> pcs s' 0 = Load" using main_bound [of ?s cur "task_limit s"] by auto
    then show ?thesis using carries_first [OF pstep.limit [OF Seen]] by fastforce
  next
    case (Bound cur b)
    then show ?thesis using main_bound by blast
  next
    case (Holding k)
    then show ?thesis using holder_settles [of s 0 k] by fastforce
  next
    case (Running k)
    then show ?thesis using holder_settles [of s 0 k] by fastforce
  next
    case (Finished k)
    then show ?thesis using holder_settles [of s 0 k] by fastforce
  qed (use assms carries_refl in blast)+
qed

lemma can_finish:
  assumes "pool_ok s"
  shows "\<exists>s'. carries s s' \<and> pcs s' 0 = Idle"
proof (cases "pcs s 0 = Idle")
  case False
  obtain s1 where s1: "carries s s1" "pcs s1 0 = Spin \<or> pcs s1 0 = Load" using main_returns [OF False] by blast
  obtain s2 where s2: "carries s1 s2" "pcs s2 0 = Spin" using s1(2) main_spins [of s1] carries_refl by blast
  have "pool_ok s2" using pool_ok_steps assms carries_trans [OF s1(1) s2(1)] unfolding carries_def by blast
  then show ?thesis using spin_ends [OF _ s2(2)] carries_trans [OF carries_trans [OF s1(1) s2(1)]] by blast
qed (use carries_refl in blast)

text \<open>
  C27.  No dispatch is stuck: in every state that the threads can reach, steps of the threads lead to one in which the
  main thread has returned, without sending a task, without a cancellation, and, unless the query is
  cancelled, without skipping a task.
\<close>

theorem pool_never_stuck:
  assumes "ray_pool_create_impl rm sm tm cm cr junk n = Inr p" "reachable p s"
  shows "\<exists>s'. steps s s' \<and> pcs s' 0 = Idle \<and> sent s' = sent s \<and> cancelled s' = cancelled s \<and> (\<not> cancelled s \<longrightarrow> skipped s' = skipped s)"
  using can_finish [OF reachable_ok [OF assms]] unfolding carries_def by blast

lemma reachable_steps: "steps s s' \<Longrightarrow> reachable p s \<Longrightarrow> reachable p s'"
  by (induction rule: steps.induct) (auto intro: reachable.step)

text \<open>A pool with two workers, a dispatch of ten elements by its main thread, and a state in which it has ended.\<close>

definition small_pool :: pool where
  "small_pool = \<lparr>tasks = map (\<lambda>_. \<lparr>t_fn = 0, t_start = 0, t_end = 0\<rparr>) [0..<RAY_POOL_INIT_TASKS], task_cap = RAY_POOL_INIT_TASKS,
     task_claim = 0, task_limit = 0, pending = 0, cancelled = False, n_workers = 2\<rparr>"

abbreviation small_tasks :: "task list" where
  "small_tasks \<equiv> dispatch_tasks 7 10 (task_cap (grown True (\<lambda>_. \<lparr>t_fn = 0, t_start = 0, t_end = 0\<rparr>) (wanted_tasks 10) (pool_start small_pool)))"

abbreviation small_sent :: psys where
  "small_sent \<equiv> go 0 (Filled (length small_tasks)) (load_tasks small_tasks
     (grown True (\<lambda>_. \<lparr>t_fn = 0, t_start = 0, t_end = 0\<rparr>) (wanted_tasks 10) (pool_start small_pool)))"

lemma small_pool_created:
  "ray_pool_create_impl True RAY_OK True (\<lambda>_. True) (\<lambda>_. RAY_OK) (\<lambda>_. \<lparr>t_fn = 0, t_start = 0, t_end = 0\<rparr>) 2 = Inr small_pool"
  by (simp add: ray_pool_create_impl_def small_pool_def)

lemma small_start: "pcs (pool_start small_pool) 0 = Idle" "sent (pool_start small_pool) = []" "skipped (pool_start small_pool) = []"
    "ran (pool_start small_pool) = []" "cancelled (pool_start small_pool) = False" "ring_ok (pool_start small_pool)"
  using pool_ok_start [OF small_pool_created] by (simp_all add: pool_start_def pool.extend_def small_pool_def pool_ok_def)

lemma small_done:
  obtains s where "steps small_sent s" "pcs s 0 = Idle" "sent s = small_tasks" "skipped s = []" "reachable small_pool s"
proof -
  have first: "pstep 0 (pool_start small_pool) small_sent"
    by (rule pstep.dispatch [where total_elems = 10 and fn = 7]) (simp_all add: small_start)
  have "pool_ok small_sent" using pool_ok_step [OF pool_ok_start [OF small_pool_created] first] .
  then obtain s where s: "carries small_sent s" "pcs s 0 = Idle" using can_finish by blast
  have "sent small_sent = small_tasks" "skipped small_sent = []" "\<not> cancelled small_sent" using small_start by (simp_all add: grown_facts)
  then show ?thesis
    using that [of s] s reachable_steps [OF _ reachable.step [OF reachable.init first]] unfolding carries_def by simp
qed

theorem pool_runs_once_witness:
  "\<exists>s. reachable small_pool s \<and> pcs s 0 = Idle \<and> sent s = small_tasks \<and> distinct (map (fst \<circ> snd) (ran s) @ skipped s) \<and>
     mset (map (snd \<circ> snd) (ran s)) = mset small_tasks"
proof -
  obtain s where s: "steps small_sent s" "pcs s 0 = Idle" "sent s = small_tasks" "skipped s = []" "reachable small_pool s" by (rule small_done)
  show ?thesis using pool_runs_once [OF small_pool_created s(5)] s by (intro exI [of _ s]) simp
qed

theorem dispatch_covers_witness:
  "\<exists>s. reachable small_pool s \<and> (\<forall>(w, k, t) \<in> set (ran s). t_fn t = 7) \<and>
     mset (concat (map (\<lambda>(w, k, t). [t_start t..t_end t - 1]) (ran s))) = mset [0, 1, 2, 3, 4, 5, 6, 7, 8, 9]"
proof -
  obtain s where s: "steps small_sent s" "pcs s 0 = Idle" "sent s = small_tasks" "skipped s = []" "reachable small_pool s" by (rule small_done)
  have "[0..10 - 1] = [0, 1, 2, 3, 4, 5, 6, 7, 8, 9 :: int]" by (simp add: upto.simps)
  then show ?thesis
    using dispatch_covers [OF small_pool_created reachable.init small_start(1) _ _ HOL.refl HOL.refl s(1,2), of] s small_start(2-4)
    by (intro exI [of _ s]) simp
qed

theorem pool_never_stuck_witness:
  "\<exists>s. reachable small_pool small_sent \<and> steps small_sent s \<and> pcs s 0 = Idle \<and> sent s = sent small_sent"
proof -
  have "pstep 0 (pool_start small_pool) small_sent"
    by (rule pstep.dispatch [where total_elems = 10 and fn = 7]) (simp_all add: small_start)
  then have r: "reachable small_pool small_sent" using reachable.init reachable.step by blast
  show ?thesis using pool_never_stuck [OF small_pool_created r] r by blast
qed

text \<open>
  The number of tasks is kept in 32 bits: a dispatch of \<open>2 ^ 45\<close> elements sends no task at all.  And a
  dispatch by number sends at most as many tasks as the ring can hold; the others are dropped.
\<close>

lemma dispatch_truncated: "wanted_tasks (2 ^ 45) = 0" "1024 \<le> cap \<Longrightarrow> dispatch_tasks fn (2 ^ 45) cap = []"
  by (simp_all add: wanted_tasks_def clamp_total_def I64_MAX_def TASK_GRAIN_def dispatch_tasks_def cut_tasks_def Let_def)

lemma dispatch_n_drops: "cap < n \<Longrightarrow> length (dispatch_n_tasks fn n cap) = cap"
  by (simp add: dispatch_n_tasks_def)

text \<open>When the number of tasks is clamped, the last of them may start behind the end of the elements.\<close>

lemma dispatch_reversed_range:
  "\<exists>t \<in> set (dispatch_tasks fn 536870913 65536). t_end t < t_start t"
proof -
  have cut: "dispatch_tasks fn 536870913 65536 = cut_tasks fn 536870913 8193 65536"
    by (simp add: dispatch_tasks_def wanted_tasks_def clamp_total_def I64_MAX_def TASK_GRAIN_def)
  have i: "65535 \<in> set [0..<65536]" by (simp only: set_upt atLeastLessThan_iff) simp
  have "\<lparr>t_fn = fn, t_start = int 65535 * 8193, t_end = 536870913\<rparr> \<in> set (dispatch_tasks fn 536870913 65536)"
    unfolding cut cut_tasks_def set_map by (rule rev_image_eqI [OF i]) simp
  then show ?thesis by (rule bexI [rotated]) simp
qed

end
