(* ===== verification/Calendar.thy ===== *)
theory Calendar
  imports Prelude "HOL-Library.Log_Nat"
begin

text \<open>
  The calendar of \<^verbatim>\<open>src/lang/cal.h\<close> (used by the formatter and the parser).  Dates are days since
  2000-01-01.  \<open>date_to_ymd\<close> divides in double precision; IEEE rounding to 53 bits is modelled by
  \<open>rnd53\<close> on rationals (all the values involved are far inside the normal range).
  Signed overflow is \<^term>\<open>None\<close>.
\<close>

section \<open>Double precision on rationals\<close>

definition bexp :: "rat \<Rightarrow> int" where
  "bexp x = (case quotient_of x of (p, q) \<Rightarrow>
     let k = bitlen p - bitlen q in if 2 powi k \<le> x then k else k - 1)"

definition round_half_even :: "rat \<Rightarrow> int" where
  "round_half_even z =
     (let f = \<lfloor>z\<rfloor>; r = z - of_int f in
      if r < 1 / 2 then f
      else if 1 / 2 < r then f + 1
      else if even f then f else f + 1)"

definition rnd53 :: "rat \<Rightarrow> rat" where
  "rnd53 x =
     (if x = 0 then 0
      else let u = 2 powi (bexp \<bar>x\<bar> - 52)
           in sgn x * (of_int (round_half_even (\<bar>x\<bar> / u)) * u))"

definition trunc_rat :: "rat \<Rightarrow> int" where
  "trunc_rat x = (if 0 \<le> x then \<lfloor>x\<rfloor> else \<lceil>x\<rceil>)"

section \<open>The calendar code\<close>

definition RAY_DATE_EPOCH :: int where
  "RAY_DATE_EPOCH = 2000"

definition MONTHDAYS :: "bool \<Rightarrow> int list" where
  "MONTHDAYS leap =
     (if leap then [0, 31, 60, 91, 121, 152, 182, 213, 244, 274, 305, 335, 366]
      else [0, 31, 59, 90, 120, 151, 181, 212, 243, 273, 304, 334, 365])"

definition date_leap_year :: "int \<Rightarrow> bool" where
  "date_leap_year year \<longleftrightarrow>
     (year smod 4 = 0 \<and> year smod 100 \<noteq> 0) \<or> year smod 400 = 0"

definition date_years_by_days :: "int \<Rightarrow> int" where
  "date_years_by_days yy = wrap_i32 (yy * 365 + yy sdiv 4 - yy sdiv 100 + yy sdiv 400)"

text \<open>The loop \<open>for (mid = 12; mid > 0; mid--)\<close> that finds the month.\<close>

fun month_scan :: "bool \<Rightarrow> int \<Rightarrow> nat \<Rightarrow> nat" where
  "month_scan leap rem 0 = 0"
| "month_scan leap rem (Suc n) =
     (if MONTHDAYS leap ! Suc n \<noteq> 0 \<and> rem sdiv (MONTHDAYS leap ! Suc n) \<noteq> 0 then Suc n
      else month_scan leap rem n)"

text \<open>The year estimated in double precision, rounded half away from zero by the cast.\<close>

definition year_estimate :: "int \<Rightarrow> int" where
  "year_estimate offset =
     (let approx = rnd53 (of_int offset / rnd53 (3652425 / 10000)) in
      trunc_rat (if 0 \<le> approx then rnd53 (approx + 1 / 2) else rnd53 (approx - 1 / 2)))"

definition date_to_ymd :: "int \<Rightarrow> (int \<times> int \<times> int) option" where
  "date_to_ymd days = do {
     offset \<leftarrow> chk_i32 (days + date_years_by_days (RAY_DATE_EPOCH - 1));
     years0 \<leftarrow> chk_i32 (year_estimate offset);
     years \<leftarrow> chk_i32 (if date_years_by_days years0 > offset then years0 - 1 else years0);
     rem \<leftarrow> chk_i32 (offset - date_years_by_days years);
     yy \<leftarrow> chk_i32 (years + 1);
     let leap = date_leap_year yy;
     let mid0 = month_scan leap rem 12;
     let mid = (if mid0 = 12 then 0 else mid0);
     d0 \<leftarrow> chk_i32 (1 + rem);
     d \<leftarrow> chk_i32 (d0 - MONTHDAYS leap ! mid);
     Some (yy, 1 + int mid smod 12, d)
   }"

definition ymd_to_date :: "int \<Rightarrow> int \<Rightarrow> int \<Rightarrow> int option" where
  "ymd_to_date year month day = do {
     let yy = (if year > 0 then year - 1 else 0);
     let ydays = date_years_by_days yy;
     let leap = date_leap_year year;
     let mm0 = (if month > 0 then month - 1 else 0);
     let mm = (if mm0 > 12 then 12 else mm0);
     let mdays = MONTHDAYS leap ! nat mm;
     t1 \<leftarrow> chk_i32 (ydays - date_years_by_days (RAY_DATE_EPOCH - 1));
     t2 \<leftarrow> chk_i32 (t1 + mdays);
     t3 \<leftarrow> chk_i32 (t2 + day);
     chk_i32 (t3 - 1)
   }"

section \<open>The rounding error\<close>

lemma bexp_bounds:
  assumes "0 < x"
  shows "2 powi bexp x \<le> x" "x < 2 powi (bexp x + 1)"
proof -
  obtain p q where pq: "quotient_of x = (p, q)" by force
  have q: "0 < q" using pq by (rule quotient_of_denom_pos)
  have x: "x = of_int p / of_int q" using pq by (rule quotient_of_div)
  have p: "0 < p" using assms x q by (simp add: zero_less_divide_iff)
  define k where "k = bitlen p - bitlen q"
  have bp: "2 ^ nat (bitlen p - 1) \<le> p" "p < 2 ^ nat (bitlen p)" using bitlen_bounds [OF p] by auto
  have bq: "2 ^ nat (bitlen q - 1) \<le> q" "q < 2 ^ nat (bitlen q)" using bitlen_bounds [OF q] by auto
  have lp: "1 \<le> bitlen p" using p bitlen_nonneg [of p] bitlen_eq_zero_iff [of p] by linarith
  have lq: "1 \<le> bitlen q" using q bitlen_nonneg [of q] bitlen_eq_zero_iff [of q] by linarith
  have P1: "(2::rat) powi (bitlen p - 1) \<le> of_int p"
    using bp(1) lp by (simp add: power_int_def)
  have P2: "of_int p < (2::rat) powi (bitlen p)"
    using bp(2) lp by (simp add: power_int_def)
  have Q1: "(2::rat) powi (bitlen q - 1) \<le> of_int q"
    using bq(1) lq by (simp add: power_int_def)
  have Q2: "of_int q < (2::rat) powi (bitlen q)"
    using bq(2) lq by (simp add: power_int_def)
  have lo: "2 powi (k - 1) \<le> x"
  proof -
    have "2 powi (k - 1) * of_int q \<le> 2 powi (k - 1) * (2::rat) powi (bitlen q)"
      using Q2 by (simp add: mult_left_mono)
    also have "\<dots> = 2 powi (bitlen p - 1)"
      by (simp add: k_def power_int_add [symmetric])
    also note P1
    finally show ?thesis using q by (simp add: x pos_le_divide_eq)
  qed
  have hi: "x < 2 powi (k + 1)"
  proof -
    note P2
    also have "(2::rat) powi bitlen p = 2 powi (k + 1) * 2 powi (bitlen q - 1)"
      by (simp add: k_def power_int_add [symmetric])
    also have "\<dots> \<le> 2 powi (k + 1) * of_int q"
      using Q1 by (simp add: mult_left_mono)
    finally show ?thesis using q by (simp add: x pos_divide_less_eq)
  qed
  have be: "bexp x = (if 2 powi k \<le> x then k else k - 1)"
    by (simp add: bexp_def pq k_def Let_def)
  show "2 powi bexp x \<le> x" using lo by (simp add: be)
  show "x < 2 powi (bexp x + 1)" using hi by (simp add: be)
qed

lemma round_half_even_error: "\<bar>of_int (round_half_even z) - z\<bar> \<le> 1 / 2"
proof -
  have "of_int \<lfloor>z\<rfloor> \<le> z" "z < of_int \<lfloor>z\<rfloor> + 1" by linarith+
  then show ?thesis
    by (auto simp: round_half_even_def Let_def abs_le_iff)
qed

lemma rnd53_error: "\<bar>rnd53 x - x\<bar> \<le> \<bar>x\<bar> / 2 ^ 53"
proof (cases "x = 0")
  case False
  define u :: rat where "u = 2 powi (bexp \<bar>x\<bar> - 52)"
  define z where "z = \<bar>x\<bar> / u"
  have u: "0 < u" by (simp add: u_def)
  have x: "x = sgn x * (z * u)" using u by (simp add: z_def sgn_mult_abs)
  have "u * 2 ^ 52 = 2 powi bexp \<bar>x\<bar>"
    by (simp add: u_def power_int_diff power_int_numeral)
  then have le: "u * 2 ^ 52 \<le> \<bar>x\<bar>" using bexp_bounds(1) [of "\<bar>x\<bar>"] False by simp
  have "rnd53 x = sgn x * (of_int (round_half_even z) * u)"
    using False by (simp add: rnd53_def u_def z_def Let_def)
  then have "rnd53 x - x = sgn x * ((of_int (round_half_even z) - z) * u)"
    by (subst (2) x) (simp add: algebra_simps)
  then have "\<bar>rnd53 x - x\<bar> = \<bar>of_int (round_half_even z) - z\<bar> * u"
    using False u by (simp add: abs_mult)
  also have "\<dots> \<le> 1 / 2 * u"
    using round_half_even_error [of z] u by (intro mult_right_mono) auto
  also have "\<dots> \<le> \<bar>x\<bar> / 2 ^ 53" using le by simp
  finally show ?thesis .
qed (simp add: rnd53_def)


section \<open>Years\<close>

text \<open>The days before year \<open>Y + 1\<close> of the proleptic Gregorian calendar, with exact division.\<close>

definition ydays :: "int \<Rightarrow> int" where
  "ydays Y = 365 * Y + Y div 4 - Y div 100 + Y div 400"

lemma date_leap_year_iff:
  "date_leap_year y \<longleftrightarrow> (y mod 4 = 0 \<and> y mod 100 \<noteq> 0) \<or> y mod 400 = 0"
proof -
  have *: "y smod b = 0 \<longleftrightarrow> y mod b = 0" if "0 < b" for b :: int
  proof -
    have "y mod b \<noteq> b" using pos_mod_bound [OF that, of y] by simp
    then show ?thesis
      using that by (auto simp: signed_modulo_int_eq_modulo_int dvd_eq_mod_eq_0 split: if_splits)
  qed
  show ?thesis by (simp add: date_leap_year_def *)
qed

lemma int_div_Suc:
  fixes Y b :: int
  assumes "0 < b"
  shows "(Y + 1) div b = Y div b + of_bool ((Y + 1) mod b = 0)"
proof (cases "(Y + 1) mod b = 0")
  case True
  then obtain k where k: "Y + 1 = b * k" by (metis dvd_def dvd_eq_mod_eq_0)
  then have "Y = b * (k - 1) + (b - 1)" by (simp add: algebra_simps)
  then have "Y div b = k - 1" using assms by (simp add: div_pos_pos_trivial)
  moreover have "(Y + 1) div b = k" using k assms by simp
  ultimately show ?thesis using True by simp
next
  case False
  have "Y + 1 = b * ((Y + 1) div b) + (Y + 1) mod b" by simp
  then have *: "Y = b * ((Y + 1) div b) + ((Y + 1) mod b - 1)" by linarith
  have "0 \<le> (Y + 1) mod b - 1" "(Y + 1) mod b - 1 < b"
    using False assms pos_mod_sign [OF assms, of "Y + 1"] pos_mod_bound [OF assms, of "Y + 1"]
    by linarith+
  then have "Y div b = (Y + 1) div b"
    using * assms by (metis add_cancel_left_right div_mult_self4 div_pos_pos_trivial less_irrefl)
  then show ?thesis using False by simp
qed

lemma ydays_Suc: "ydays (Y + 1) = ydays Y + 365 + of_bool (date_leap_year (Y + 1))"
proof -
  have "(Y + 1) mod 100 = 0 \<Longrightarrow> (Y + 1) mod 4 = 0" "(Y + 1) mod 400 = 0 \<Longrightarrow> (Y + 1) mod 100 = 0"
    by (auto simp: mod_eq_0_iff_dvd intro: dvd_trans [of 4 100] dvd_trans [of 100 400])
  then show ?thesis
    by (auto simp: ydays_def int_div_Suc date_leap_year_iff of_bool_def)
qed

lemma ydays_mono: "Y \<le> Z \<Longrightarrow> ydays Y \<le> ydays Z"
proof (induction Z rule: int_ge_induct)
  case (step i)
  then show ?case using ydays_Suc [of i] by simp
qed simp

lemma ydays_bounds:
  "146097 * Y - 699 \<le> 400 * ydays Y" "400 * ydays Y \<le> 146097 * Y + 396"
proof -
  have "Y = 4 * (Y div 4) + Y mod 4" "Y = 100 * (Y div 100) + Y mod 100"
    "Y = 400 * (Y div 400) + Y mod 400" by simp_all
  moreover have "0 \<le> Y mod 4" "Y mod 4 < 4" "0 \<le> Y mod 100" "Y mod 100 < 100"
    "0 \<le> Y mod 400" "Y mod 400 < 400" by simp_all
  moreover have "400 * ydays Y = 146000 * Y + 400 * (Y div 4) - 400 * (Y div 100) + 400 * (Y div 400)"
    by (simp add: ydays_def)
  ultimately show "146097 * Y - 699 \<le> 400 * ydays Y" and "400 * ydays Y \<le> 146097 * Y + 396"
    by linarith+
qed

lemma date_years_by_days_eq:
  assumes "0 \<le> Y" "ydays Y < 2 ^ 31"
  shows "date_years_by_days Y = ydays Y"
proof -
  have "0 \<le> ydays Y" using ydays_bounds(1) [of Y] assms by (cases "Y = 0") (auto simp: ydays_def)
  then have "wrap_i32 (ydays Y) = ydays Y" using assms by (intro wrap_i32_id) (simp add: i32_ok_def)
  then show ?thesis
    using assms by (simp add: date_years_by_days_def sdiv_nonneg ydays_def algebra_simps)
qed

lemma year_exists:
  assumes "0 \<le> offset"
  shows "\<exists>Y \<ge> 0. ydays Y \<le> offset \<and> offset < ydays (Y + 1)"
proof -
  have base: "ydays 0 = 0" by (simp add: ydays_def)
  have "\<exists>Y \<ge> 0. ydays Y \<le> int n \<and> int n < ydays (Y + 1)" for n
  proof (induction n)
    case 0
    have "0 < ydays (0 + 1)" using ydays_Suc [of 0] base by simp
    then show ?case using base by (intro exI [of _ 0]) simp
  next
    case (Suc n)
    then obtain Y where Y: "Y \<ge> 0" "ydays Y \<le> int n" "int n < ydays (Y + 1)" by blast
    show ?case
    proof (cases "int (Suc n) < ydays (Y + 1)")
      case True
      with Y show ?thesis by (intro exI [of _ Y]) simp
    next
      case False
      with Y have "ydays (Y + 1) = int (Suc n)" by simp
      then show ?thesis using Y ydays_Suc [of "Y + 1"] by (intro exI [of _ "Y + 1"]) simp
    qed
  qed
  from this [of "nat offset"] assms show ?thesis by simp
qed

text \<open>
  The estimate \<open>offset / 365.2425\<close>, rounded three times, lands on the year or on the next one.
\<close>

lemma rnd53_365: "rnd53 (3652425 / 10000) = 6425414011327611 / 17592186044416"
  by (simp add: rnd53_def bexp_def) code_simp

lemma rnd53_abs_error:
  assumes "0 \<le> x" "x \<le> 2 ^ 33"
  shows "\<bar>rnd53 x - x\<bar> \<le> 1 / 1000"
proof -
  have "\<bar>rnd53 x - x\<bar> \<le> \<bar>x\<bar> / 2 ^ 53" by (rule rnd53_error)
  also have "\<dots> \<le> 2 ^ 33 / 2 ^ 53" using assms by simp
  finally show ?thesis by simp
qed

lemma rnd53_nonneg: "0 \<le> x \<Longrightarrow> 0 \<le> rnd53 x"
proof -
  assume "0 \<le> x"
  then have "\<bar>x\<bar> / 2 ^ 53 \<le> x" by simp
  then show ?thesis using rnd53_error [of x] by linarith
qed

lemma year_estimate_ok:
  assumes Y: "0 \<le> Y" "ydays Y \<le> offset" "offset < ydays (Y + 1)" and r: "offset < 2 ^ 31"
  shows "year_estimate offset = Y \<or> year_estimate offset = Y + 1"
proof -
  define c :: rat where "c = 6425414011327611 / 17592186044416"
  define x where "x = of_int offset / c"
  define a where "a = rnd53 x"
  define b where "b = rnd53 (a + 1 / 2)"
  have "ydays 0 = 0" by (simp add: ydays_def)
  then have off: "0 \<le> offset" using Y ydays_mono [of 0 Y] by linarith
  have off': "of_int offset < (2 ^ 31 :: rat)" using r [folded of_int_less_iff [where 'a = rat]] by simp
  have x0: "0 \<le> x" "x \<le> 2 ^ 31" using off off' by (simp_all add: x_def c_def)
  have a: "\<bar>a - x\<bar> \<le> 1 / 1000" unfolding a_def by (rule rnd53_abs_error) (use x0 in auto)
  have a0: "0 \<le> a" unfolding a_def by (rule rnd53_nonneg [OF x0(1)])
  have a1: "x - 1 / 1000 \<le> a" "a \<le> x + 1 / 1000" using a by linarith+
  have b: "\<bar>b - (a + 1 / 2)\<bar> \<le> 1 / 1000"
    unfolding b_def by (rule rnd53_abs_error) (use a0 a1 x0 in simp_all)
  have b1: "a + 1 / 2 - 1 / 1000 \<le> b" "b \<le> a + 1 / 2 + 1 / 1000" using b by linarith+
  have b0: "0 \<le> b" unfolding b_def by (rule rnd53_nonneg) (use a0 in simp)
  have lo: "146097 * Y - 699 \<le> 400 * offset" using ydays_bounds(1) [of Y] Y by linarith
  have hi: "400 * offset \<le> 146097 * (Y + 1) + 396" using ydays_bounds(2) [of "Y + 1"] Y by linarith
  have lo': "146097 * rat_of_int Y - 699 \<le> 400 * of_int offset"
    using lo [folded of_int_le_iff [where 'a = rat]] by simp
  have hi': "400 * of_int offset \<le> 146097 * (rat_of_int Y + 1) + 396"
    using hi [folded of_int_le_iff [where 'a = rat]] by simp
  have YB: "rat_of_int Y \<le> 2 ^ 23"
  proof -
    have "Y \<le> 2 ^ 23" using lo r by simp
    from this [folded of_int_le_iff [where 'a = rat]] show ?thesis by simp
  qed
  have xl: "rat_of_int Y - 1 / 100 \<le> x"
    using lo' YB Y(1) unfolding x_def c_def by simp
  have xh: "x \<le> rat_of_int Y + 1 + 1 / 100"
    using hi' YB Y(1) unfolding x_def c_def by simp
  have "\<lfloor>b\<rfloor> = Y \<or> \<lfloor>b\<rfloor> = Y + 1"
  proof -
    have "of_int Y \<le> b" "b < of_int (Y + 2)" using a1 b1 xl xh by simp_all
    then have "Y \<le> \<lfloor>b\<rfloor>" "\<lfloor>b\<rfloor> < Y + 2" by (simp_all add: le_floor_iff floor_less_iff)
    then show ?thesis by linarith
  qed
  moreover have "year_estimate offset = \<lfloor>b\<rfloor>"
  proof -
    have c: "rnd53 (3652425 / 10000) = c" unfolding c_def by (rule rnd53_365)
    show ?thesis
      unfolding year_estimate_def Let_def c x_def [symmetric] a_def [symmetric]
      using a0 b0 by (simp add: trunc_rat_def b_def)
  qed
  ultimately show ?thesis by simp
qed

section \<open>Months and days\<close>

definition days_in_month :: "int \<Rightarrow> nat \<Rightarrow> int" where
  "days_in_month y m =
     MONTHDAYS (date_leap_year y) ! m - MONTHDAYS (date_leap_year y) ! (m - 1)"

text \<open>The dates the code can represent: up to the year whose last day still has an \<open>int32\<close> number.\<close>

definition valid_ymd :: "int \<Rightarrow> int \<Rightarrow> int \<Rightarrow> bool" where
  "valid_ymd y m d \<longleftrightarrow>
     1 \<le> y \<and> y \<le> 5879610 \<and> 1 \<le> m \<and> m \<le> 12 \<and> 1 \<le> d \<and> d \<le> days_in_month y (nat m)"

lemma sdiv_ge_iff: "0 \<le> rem \<Longrightarrow> 0 < c \<Longrightarrow> rem sdiv c \<noteq> 0 \<longleftrightarrow> (c::int) \<le> rem"
  by (simp add: sdiv_nonneg zdiv_eq_0_iff) linarith

lemma month_cases:
  assumes "1 \<le> m" "m \<le> (12::int)"
  obtains "m = 1" | "m = 2" | "m = 3" | "m = 4" | "m = 5" | "m = 6"
    | "m = 7" | "m = 8" | "m = 9" | "m = 10" | "m = 11" | "m = 12"
  using assms by atomize_elim presburger

lemma month_scan_months:
  assumes "1 \<le> m" "m \<le> 12" "MONTHDAYS leap ! (nat m - 1) \<le> rem" "rem < MONTHDAYS leap ! nat m"
  shows "month_scan leap rem 12 = nat m - 1"
proof -
  have "0 \<le> MONTHDAYS leap ! (nat m - 1)"
    using assms(1,2) by (cases rule: month_cases) (simp_all add: MONTHDAYS_def)
  then have "0 \<le> rem" using assms(3) by linarith
  then show ?thesis
    apply (insert assms(3-))
    by (rule month_cases [OF assms(1,2)]; cases leap)
      (simp_all add: MONTHDAYS_def sdiv_ge_iff numeral_eq_Suc)
qed

lemma month_exists:
  assumes "0 \<le> rem" "rem < MONTHDAYS leap ! 12"
  obtains m where "1 \<le> m" "m \<le> 12" "MONTHDAYS leap ! (nat m - 1) \<le> rem"
    "rem < MONTHDAYS leap ! nat m"
proof -
  define m where "m = (LEAST k. rem < MONTHDAYS leap ! k)"
  have lt: "rem < MONTHDAYS leap ! m" and le: "m \<le> 12"
    unfolding m_def using assms(2) by (rule LeastI, rule Least_le)
  have "MONTHDAYS leap ! 0 = 0" by (simp add: MONTHDAYS_def)
  then have "m \<noteq> 0" using lt assms(1) by (metis not_less)
  then have "\<not> rem < MONTHDAYS leap ! (m - 1)" unfolding m_def by (intro not_less_Least) simp
  then show ?thesis using lt le \<open>m \<noteq> 0\<close> by (intro that [of "int m"]) auto
qed

lemma monthdays_12: "MONTHDAYS leap ! 12 = 365 + of_bool leap"
  by (simp add: MONTHDAYS_def)

lemma monthdays_range: "k \<le> 12 \<Longrightarrow> 0 \<le> MONTHDAYS leap ! k \<and> MONTHDAYS leap ! k \<le> 366"
proof -
  assume "k \<le> 12"
  then have "MONTHDAYS leap ! k \<in> set (MONTHDAYS leap)" by (auto simp: MONTHDAYS_def intro!: nth_mem)
  then show ?thesis by (auto simp: MONTHDAYS_def split: if_splits)
qed

section \<open>Encoding and decoding\<close>

lemma ydays_1999: "date_years_by_days (RAY_DATE_EPOCH - 1) = 730119"
  by (simp add: date_years_by_days_def RAY_DATE_EPOCH_def wrap_i32_def)

lemma ydays_max: "Y \<le> 5879610 \<Longrightarrow> ydays Y \<le> 2147483455"
proof -
  assume "Y \<le> 5879610"
  then have "ydays Y \<le> ydays 5879610" by (rule ydays_mono)
  also have "\<dots> = 2147483455" by (simp add: ydays_def)
  finally show ?thesis .
qed

lemma ymd_to_date_eq:
  assumes "valid_ymd y m d"
  shows "ymd_to_date y m d =
    Some (ydays (y - 1) + MONTHDAYS (date_leap_year y) ! (nat m - 1) + d - 1 - 730119)"
proof -
  define L where "L = date_leap_year y"
  have v: "1 \<le> y" "y \<le> 5879610" "1 \<le> m" "m \<le> 12" "1 \<le> d"
    "d \<le> MONTHDAYS L ! nat m - MONTHDAYS L ! (nat m - 1)"
    using assms by (auto simp: valid_ymd_def days_in_month_def L_def)
  have mr: "0 \<le> MONTHDAYS L ! (nat m - 1)" "MONTHDAYS L ! nat m \<le> 366"
    using v monthdays_range [of "nat m - 1" L] monthdays_range [of "nat m" L] by auto
  have yl: "0 \<le> ydays (y - 1)" using v ydays_mono [of 0 "y - 1"] by (simp add: ydays_def)
  have yu: "ydays (y - 1) \<le> 2147483455" using v by (intro ydays_max) simp
  have dy: "date_years_by_days (y - 1) = ydays (y - 1)"
    using v yu by (intro date_years_by_days_eq) auto
  have mm: "nat (m - 1) = nat m - 1" by (simp add: nat_diff_distrib)
  show ?thesis
    using v mr yl yu
    by (simp add: ymd_to_date_def ydays_1999 dy L_def [symmetric] Let_def mm chk_i32_ok i32_ok_def)
qed

lemma date_to_ymd_eq:
  assumes v: "valid_ymd y m d"
    and days: "days = ydays (y - 1) + MONTHDAYS (date_leap_year y) ! (nat m - 1) + d - 1 - 730119"
  shows "date_to_ymd days = Some (y, m, d)"
proof -
  define L where "L = date_leap_year y"
  define rem where "rem = MONTHDAYS L ! (nat m - 1) + d - 1"
  define offset where "offset = ydays (y - 1) + rem"
  have v: "1 \<le> y" "y \<le> 5879610" "1 \<le> m" "m \<le> 12" "1 \<le> d"
    "d \<le> MONTHDAYS L ! nat m - MONTHDAYS L ! (nat m - 1)"
    using v by (auto simp: valid_ymd_def days_in_month_def L_def)
  have mr: "0 \<le> MONTHDAYS L ! (nat m - 1)" "MONTHDAYS L ! nat m \<le> MONTHDAYS L ! 12"
    by (rule month_cases [OF v(3,4)]; cases L; simp add: MONTHDAYS_def)+
  have rem: "0 \<le> rem" "rem < 365 + of_bool L" "rem < MONTHDAYS L ! nat m"
    "MONTHDAYS L ! (nat m - 1) \<le> rem"
    using v mr by (auto simp: rem_def monthdays_12)
  have rem': "rem < 366" "d \<le> 366"
    using rem(2) v(6) mr by (cases L; simp add: monthdays_12)+
  have scan: "month_scan L rem 12 = nat m - 1"
    using v rem by (intro month_scan_months) auto
  have yl: "0 \<le> ydays (y - 1)" using v ydays_mono [of 0 "y - 1"] by (simp add: ydays_def)
  have yu: "ydays (y - 1) \<le> 2147483455" "ydays y \<le> 2147483455" using v by (auto intro!: ydays_max)
  have suc: "ydays y = ydays (y - 1) + 365 + of_bool L" using ydays_Suc [of "y - 1"] by (simp add: L_def)
  have off: "0 \<le> offset" "offset < ydays y" "offset < 2 ^ 31"
    using rem yl yu suc by (auto simp: offset_def)
  have est: "year_estimate offset = y - 1 \<or> year_estimate offset = y - 1 + 1"
    using v off rem by (intro year_estimate_ok) (auto simp: offset_def)
  have dy: "date_years_by_days (y - 1) = ydays (y - 1)" "date_years_by_days y = ydays y"
    using v yu by (auto intro!: date_years_by_days_eq)
  have days': "days + 730119 = offset" by (simp add: days offset_def rem_def L_def)
  have yrs: "(if date_years_by_days (year_estimate offset) > offset
      then year_estimate offset - 1 else year_estimate offset) = y - 1"
    using est off dy rem yl by (auto simp: offset_def)
  have ok: "i32_ok offset" "i32_ok (year_estimate offset)" "i32_ok (y - 1)" "i32_ok rem"
    "i32_ok y" "i32_ok (1 + rem)" "i32_ok d"
    using off est v rem rem' by (auto simp: i32_ok_def)
  have dd: "1 + rem - MONTHDAYS L ! (nat m - Suc 0) = d" by (simp add: rem_def)
  have mm: "nat m - 1 \<noteq> 12" "1 + int (nat m - 1) smod 12 = m"
    using v by (auto simp: smod_nonneg)
  show ?thesis
    unfolding date_to_ymd_def ydays_1999 days' chk_i32_ok [OF ok(1)] Option.bind.bind_lunit
      chk_i32_ok [OF ok(2)] yrs chk_i32_ok [OF ok(3)] dy
    using ok mm by (simp add: offset_def chk_i32_ok L_def [symmetric] scan Let_def dd)
qed

text \<open>
  C19. Encoding then decoding is the identity on every valid date up to year 5879610, with no
  signed overflow on the way.
\<close>

theorem date_roundtrip:
  assumes "valid_ymd y m d"
  shows "\<exists>days. ymd_to_date y m d = Some days \<and> date_to_ymd days = Some (y, m, d)"
  using ymd_to_date_eq [OF assms] date_to_ymd_eq [OF assms refl] by blast

theorem date_roundtrip_witness:
  "valid_ymd 2024 2 29 \<and>
   (\<exists>days. ymd_to_date 2024 2 29 = Some days \<and> date_to_ymd days = Some (2024, 2, 29))"
proof -
  have v: "valid_ymd 2024 2 29"
    by (simp add: valid_ymd_def days_in_month_def MONTHDAYS_def date_leap_year_def)
  show ?thesis using v date_roundtrip [OF v] by blast
qed

text \<open>
  Decoding any day number from 0001-01-01 to the end of year 5879610 gives a valid date
  that encodes back to it.
\<close>

theorem date_decode_total:
  assumes "-730119 \<le> days" "days < 2146753336"
  shows "\<exists>y m d. date_to_ymd days = Some (y, m, d) \<and> valid_ymd y m d
           \<and> ymd_to_date y m d = Some days"
proof -
  define offset where "offset = days + 730119"
  obtain Y where Y: "0 \<le> Y" "ydays Y \<le> offset" "offset < ydays (Y + 1)"
    using year_exists [of offset] assms by (auto simp: offset_def)
  define L where "L = date_leap_year (Y + 1)"
  have "offset - ydays Y < MONTHDAYS L ! 12"
    using Y ydays_Suc [of Y] by (simp add: monthdays_12 L_def)
  then obtain m where m: "1 \<le> m" "m \<le> 12" "MONTHDAYS L ! (nat m - 1) \<le> offset - ydays Y"
    "offset - ydays Y < MONTHDAYS L ! nat m"
    using Y by (elim month_exists [rotated]) auto
  define d where "d = offset - ydays Y - MONTHDAYS L ! (nat m - 1) + 1"
  have "Y \<le> 5879609"
  proof (rule ccontr)
    assume "\<not> ?thesis"
    then have "ydays 5879610 \<le> ydays Y" by (intro ydays_mono) simp
    then show False using Y assms by (simp add: offset_def ydays_def [of 5879610])
  qed
  then have v: "valid_ymd (Y + 1) m d"
    using Y m by (auto simp: valid_ymd_def days_in_month_def L_def d_def)
  have days: "days = ydays (Y + 1 - 1) + MONTHDAYS (date_leap_year (Y + 1)) ! (nat m - 1) + d - 1 - 730119"
    by (simp add: d_def L_def offset_def)
  show ?thesis
    using v ymd_to_date_eq [OF v] date_to_ymd_eq [OF v days] days by blast
qed

theorem date_decode_total_witness:
  "(-730119 \<le> (8840::int) \<and> (8840::int) < 2146753336) \<and>
   (\<exists>y m d. date_to_ymd 8840 = Some (y, m, d) \<and> valid_ymd y m d
      \<and> ymd_to_date y m d = Some 8840)"
proof -
  have a: "-730119 \<le> (8840::int)" and b: "(8840::int) < 2146753336" by simp_all
  show ?thesis using a b date_decode_total [OF a b] by blast
qed

end
