(* ===== verification/Value.thy ===== *)
theory Value
  imports Prelude
begin

unbundle bit_operations_syntax

text \<open>
  The value model: the type tags and null sentinels of \<^verbatim>\<open>include/rayforce.h\<close>, atoms
  (\<^verbatim>\<open>src/vec/atom.c\<close>) and the null state of vectors (\<^verbatim>\<open>src/vec/vec.c\<close>).

  An atom is its type tag, the typed-null bit \<open>aux[0] & 1\<close> and the 8-byte union of the header
  as a 64-bit word, of which the source reads views of several widths; a string or GUID atom
  carries its bytes.  A vector is the header flags the null code looks at and the list of its
  cells; a slice is a window on a parent that is not a slice itself (\<open>ray_vec_slice\<close> resolves
  to the ultimate parent).  Floats are kept as IEEE bit patterns.  Operations that mutate a
  uniquely owned vector in place are functions from the old vector to the new one.
\<close>

section \<open>Type tags and sentinels\<close>

abbreviation (input) "RAY_LIST \<equiv> (0::int)"
abbreviation (input) "RAY_BOOL \<equiv> (1::int)"
abbreviation (input) "RAY_U8 \<equiv> (2::int)"
abbreviation (input) "RAY_I16 \<equiv> (3::int)"
abbreviation (input) "RAY_I32 \<equiv> (4::int)"
abbreviation (input) "RAY_I64 \<equiv> (5::int)"
abbreviation (input) "RAY_F32 \<equiv> (6::int)"
abbreviation (input) "RAY_F64 \<equiv> (7::int)"
abbreviation (input) "RAY_DATE \<equiv> (8::int)"
abbreviation (input) "RAY_TIME \<equiv> (9::int)"
abbreviation (input) "RAY_TIMESTAMP \<equiv> (10::int)"
abbreviation (input) "RAY_GUID \<equiv> (11::int)"
abbreviation (input) "RAY_SYM \<equiv> (12::int)"
abbreviation (input) "RAY_STR \<equiv> (13::int)"

definition NULL_I16 :: int where "NULL_I16 = - (2 ^ 15)"
definition NULL_I32 :: int where "NULL_I32 = - (2 ^ 31)"
definition NULL_I64 :: int where "NULL_I64 = - (2 ^ 63)"
definition NULL_F64 :: u64 where "NULL_F64 = 0x7FF8000000000000"
definition NULL_F32 :: u32 where "NULL_F32 = 0x7FC00000"

definition is_nan64 :: "u64 \<Rightarrow> bool" where
  "is_nan64 w \<longleftrightarrow> drop_bit 52 w AND 0x7FF = 0x7FF \<and> w AND 0xFFFFFFFFFFFFF \<noteq> 0"

definition is_nan32 :: "u32 \<Rightarrow> bool" where
  "is_nan32 w \<longleftrightarrow> drop_bit 23 w AND 0xFF = 0xFF \<and> w AND 0x7FFFFF \<noteq> 0"

section \<open>Atoms\<close>

record atom =
  a_type :: int
  a_aux0 :: bool
  a_word :: u64
  a_bytes :: "u8 list"

text \<open>Views of the header union.\<close>

definition view_i64 :: "u64 \<Rightarrow> int" where "view_i64 w = sint w"
definition view_i32 :: "u64 \<Rightarrow> int" where "view_i32 w = sint (ucast w :: u32)"
definition view_i16 :: "u64 \<Rightarrow> int" where "view_i16 w = sint (ucast w :: 16 word)"

text \<open>
  \<open>ray_atom_is_null_fn\<close> for an object that is not the null singleton.  The atom's \<open>f64\<close> slot is
  a NaN exactly if its narrowing to \<open>float\<close> is.
\<close>

definition ray_atom_is_null_fn :: "atom \<Rightarrow> bool" where
  "ray_atom_is_null_fn x =
     (let t = - a_type x in
      if a_type x \<ge> 0 then False
      else if t = RAY_F64 \<or> t = RAY_F32 then is_nan64 (a_word x)
      else if t = RAY_I64 \<or> t = RAY_TIMESTAMP then view_i64 (a_word x) = NULL_I64
      else if t = RAY_I32 \<or> t = RAY_DATE \<or> t = RAY_TIME then view_i32 (a_word x) = NULL_I32
      else if t = RAY_I16 then view_i16 (a_word x) = NULL_I16
      else if t = RAY_SYM then False
      else if t = RAY_STR then False
      else if t = RAY_GUID then (\<forall>b \<in> set (take 16 (a_bytes x)). b = 0)
      else a_aux0 x)"

text \<open>
  The constructors.  \<open>ray_alloc(0)\<close> returns a zeroed header or a NULL pointer (\<open>ok\<close> says which);
  the constructors only test \<open>RAY_IS_ERR\<close>, which is false of NULL, and then write through the
  pointer, so with \<open>ok = False\<close> the program has no defined behaviour: \<^term>\<open>None\<close>.
\<close>

definition header0 :: atom where
  "header0 = \<lparr>a_type = 0, a_aux0 = False, a_word = 0, a_bytes = []\<rparr>"

definition mk_atom :: "bool \<Rightarrow> int \<Rightarrow> u64 \<Rightarrow> atom option" where
  "mk_atom ok t w = (if ok then Some (header0\<lparr>a_type := t, a_word := w\<rparr>) else None)"

text \<open>Narrow stores into the zeroed union leave the upper bytes zero (little-endian layout).\<close>

definition ray_bool :: "bool \<Rightarrow> bool \<Rightarrow> atom option" where
  "ray_bool ok val = mk_atom ok (- RAY_BOOL) (if val then 1 else 0)"

definition ray_u8 :: "bool \<Rightarrow> u8 \<Rightarrow> atom option" where
  "ray_u8 ok val = mk_atom ok (- RAY_U8) (ucast val)"

definition ray_i16 :: "bool \<Rightarrow> int \<Rightarrow> atom option" where
  "ray_i16 ok val = mk_atom ok (- RAY_I16) (ucast (word_of_int val :: 16 word))"

definition ray_i32 :: "bool \<Rightarrow> int \<Rightarrow> atom option" where
  "ray_i32 ok val = mk_atom ok (- RAY_I32) (ucast (word_of_int val :: u32))"

definition ray_i64 :: "bool \<Rightarrow> int \<Rightarrow> atom option" where
  "ray_i64 ok val = mk_atom ok (- RAY_I64) (word_of_int val)"

definition ray_f64 :: "bool \<Rightarrow> u64 \<Rightarrow> atom option" where
  "ray_f64 ok val = mk_atom ok (- RAY_F64) val"

definition ray_sym :: "bool \<Rightarrow> int \<Rightarrow> atom option" where
  "ray_sym ok sid = mk_atom ok (- RAY_SYM) (word_of_int sid)"

definition ray_date :: "bool \<Rightarrow> int \<Rightarrow> atom option" where
  "ray_date ok val = mk_atom ok (- RAY_DATE) (word_of_int val)"

definition ray_time :: "bool \<Rightarrow> int \<Rightarrow> atom option" where
  "ray_time ok val = mk_atom ok (- RAY_TIME) (word_of_int val)"

definition ray_timestamp :: "bool \<Rightarrow> int \<Rightarrow> atom option" where
  "ray_timestamp ok val = mk_atom ok (- RAY_TIMESTAMP) (word_of_int val)"

text \<open>
  A GUID takes two blocks, the bytes (checked for NULL: the result is the NULL pointer,
  \<open>Some None\<close> here) and the header (not checked).
\<close>

definition ray_guid :: "bool \<Rightarrow> bool \<Rightarrow> u8 list \<Rightarrow> atom option option" where
  "ray_guid ok1 ok2 bytes =
     (if \<not> ok1 then Some None
      else map_option Some
        (map_option (\<lambda>v. v\<lparr>a_bytes := take 16 bytes\<rparr>) (mk_atom ok2 (- RAY_GUID) 0)))"

text \<open>
  \<open>ray_typed_null\<close>: \<open>Inl\<close> is the \<open>type\<close> error object.  For a GUID whose byte block cannot be
  allocated, \<open>ray_guid\<close> returns NULL and \<open>aux\<close> is written through it.  \<open>NULL_F32\<close> widened to
  double is the quiet NaN.
\<close>

definition ray_typed_null :: "bool \<Rightarrow> bool \<Rightarrow> int \<Rightarrow> (ray_err + atom) option" where
  "ray_typed_null ok1 ok2 type =
     (if type \<ge> 0 then Some (Inl RAY_ERR_TYPE)
      else if type = - RAY_GUID then
        (case ray_guid ok1 ok2 (replicate 16 0) of
           Some (Some v) \<Rightarrow> Some (Inr (v\<lparr>a_aux0 := True\<rparr>))
         | _ \<Rightarrow> None)
      else if \<not> ok1 then None
      else let v = header0\<lparr>a_type := type\<rparr> in
        if type = - RAY_F64 \<or> type = - RAY_F32 then
          Some (Inr (v\<lparr>a_word := NULL_F64, a_aux0 := True\<rparr>))
        else if type = - RAY_I64 \<or> type = - RAY_TIMESTAMP then
          Some (Inr (v\<lparr>a_word := word_of_int NULL_I64, a_aux0 := True\<rparr>))
        else if type = - RAY_I32 \<or> type = - RAY_DATE \<or> type = - RAY_TIME then
          Some (Inr (v\<lparr>a_word := ucast (word_of_int NULL_I32 :: u32), a_aux0 := True\<rparr>))
        else if type = - RAY_I16 then
          Some (Inr (v\<lparr>a_word := ucast (word_of_int NULL_I16 :: 16 word), a_aux0 := True\<rparr>))
        else if type = - RAY_SYM then Some (Inr (v\<lparr>a_word := 0\<rparr>))
        else Some (Inr (v\<lparr>a_word := 0, a_aux0 := True\<rparr>)))"

section \<open>Vectors and their null state\<close>

datatype cell = CI int | CF64 u64 | CF32 u32 | CGuid "u8 list" | CStr "u8 list"

record vec =
  v_type :: int
  v_has_nulls :: bool
  v_sorted :: bool
  v_has_index :: bool
  v_cells :: "cell list"

text \<open>
  A vector object: its own payload, or a slice (parent, \<open>slice_offset\<close>, \<open>len\<close>).  The objects
  the operations receive may also be the NULL pointer or an error.
\<close>

datatype rvec = Own vec | Slice vec int int

datatype ray = NULLPTR | ERR ray_err | ATOM atom | VEC rvec

fun rvec_type :: "rvec \<Rightarrow> int" where
  "rvec_type (Own v) = v_type v"
| "rvec_type (Slice p off len) = v_type p"

fun rvec_len :: "rvec \<Rightarrow> int" where
  "rvec_len (Own v) = int (length (v_cells v))"
| "rvec_len (Slice p off len) = len"

text \<open>The cell that the typed read \<open>ray_data(v)[i]\<close> delivers, through the slice offset.\<close>

fun rvec_cell :: "rvec \<Rightarrow> int \<Rightarrow> cell" where
  "rvec_cell (Own v) i = v_cells v ! nat i"
| "rvec_cell (Slice p off len) i = v_cells p ! nat (off + i)"

fun rvec_ok :: "rvec \<Rightarrow> bool" where
  "rvec_ok (Own v) = True"
| "rvec_ok (Slice p off len) = (0 \<le> off \<and> 0 \<le> len \<and> off + len \<le> int (length (v_cells p)))"

text \<open>The payload of a vector as the list its window shows.\<close>

definition rvec_list :: "rvec \<Rightarrow> cell list" where
  "rvec_list v = map (\<lambda>i. rvec_cell v (int i)) [0..<nat (rvec_len v)]"

definition sentinel_is_null :: "int \<Rightarrow> cell \<Rightarrow> bool" where
  "sentinel_is_null t c =
     (if t = RAY_F64 then (case c of CF64 x \<Rightarrow> is_nan64 x | _ \<Rightarrow> False)
      else if t = RAY_F32 then (case c of CF32 x \<Rightarrow> is_nan32 x | _ \<Rightarrow> False)
      else if t = RAY_I64 \<or> t = RAY_TIMESTAMP then c = CI NULL_I64
      else if t = RAY_I32 \<or> t = RAY_DATE \<or> t = RAY_TIME then c = CI NULL_I32
      else if t = RAY_I16 then c = CI NULL_I16
      else if t = RAY_STR then c = CStr []
      else if t = RAY_GUID then c = CGuid (replicate 16 0)
      else False)"

definition vec_any_nulls :: "vec \<Rightarrow> bool" where
  "vec_any_nulls v = v_has_nulls v"

definition vec_is_null :: "vec \<Rightarrow> int \<Rightarrow> bool" where
  "vec_is_null v idx =
     (if idx < 0 \<or> idx \<ge> int (length (v_cells v)) then False
      else if v_type v = RAY_SYM \<or> v_type v = RAY_STR then False
      else if \<not> vec_any_nulls v then False
      else if v_type v \<in> {RAY_F64, RAY_F32, RAY_I64, RAY_TIMESTAMP, RAY_I32, RAY_DATE, RAY_TIME,
                RAY_I16, RAY_STR, RAY_GUID}
        then sentinel_is_null (v_type v) (v_cells v ! nat idx)
      else False)"

fun rvec_is_null :: "rvec \<Rightarrow> int \<Rightarrow> bool" where
  "rvec_is_null (Own v) idx = vec_is_null v idx"
| "rvec_is_null (Slice p off len) idx =
     (if idx < 0 \<or> idx \<ge> len then False
      else if v_type p = RAY_SYM \<or> v_type p = RAY_STR then False
      else vec_is_null p (off + idx))"

definition ray_vec_is_null :: "ray \<Rightarrow> int \<Rightarrow> bool" where
  "ray_vec_is_null v idx = (case v of VEC r \<Rightarrow> rvec_is_null r idx | _ \<Rightarrow> False)"

text \<open>Dropping the accelerator index before a write, and with it the order promise.\<close>

definition vec_drop_index_inplace :: "vec \<Rightarrow> vec" where
  "vec_drop_index_inplace v = v\<lparr>v_sorted := False, v_has_index := False\<rparr>"

definition null_cell :: "int \<Rightarrow> cell option" where
  "null_cell t =
     (if t = RAY_F64 then Some (CF64 NULL_F64)
      else if t = RAY_F32 then Some (CF32 NULL_F32)
      else if t = RAY_I64 \<or> t = RAY_TIMESTAMP then Some (CI NULL_I64)
      else if t = RAY_I32 \<or> t = RAY_DATE \<or> t = RAY_TIME then Some (CI NULL_I32)
      else if t = RAY_I16 then Some (CI NULL_I16)
      else if t = RAY_GUID then Some (CGuid (replicate 16 0))
      else None)"

fun rvec_set_null_checked :: "rvec \<Rightarrow> int \<Rightarrow> bool \<Rightarrow> ray_err \<times> rvec" where
  "rvec_set_null_checked (Slice p off len) idx is_null = (RAY_ERR_TYPE, Slice p off len)"
| "rvec_set_null_checked (Own v) idx is_null =
     (if idx < 0 \<or> idx \<ge> int (length (v_cells v)) then (RAY_ERR_RANGE, Own v)
      else if v_type v = RAY_SYM \<or> v_type v = RAY_BOOL \<or> v_type v = RAY_U8
        then (RAY_ERR_TYPE, Own v)
      else let v = vec_drop_index_inplace v in
        if \<not> is_null then (RAY_OK, Own v)
        else if v_type v = RAY_STR then
          (RAY_OK, Own (v\<lparr>v_cells := (v_cells v)[nat idx := CStr []]\<rparr>))
        else (case null_cell (v_type v) of
            Some c \<Rightarrow> (RAY_OK, Own (v\<lparr>v_cells := (v_cells v)[nat idx := c], v_has_nulls := True\<rparr>))
          | None \<Rightarrow> (RAY_ERR_TYPE, Own v)))"

definition ray_vec_set_null_checked :: "ray \<Rightarrow> int \<Rightarrow> bool \<Rightarrow> ray_err \<times> ray" where
  "ray_vec_set_null_checked v idx is_null =
     (case v of
        VEC r \<Rightarrow> (case rvec_set_null_checked r idx is_null of (e, r') \<Rightarrow> (e, VEC r'))
      | _ \<Rightarrow> (RAY_ERR_TYPE, v))"

definition rvec_set_null :: "rvec \<Rightarrow> int \<Rightarrow> bool \<Rightarrow> rvec" where
  "rvec_set_null v idx is_null = snd (rvec_set_null_checked v idx is_null)"

lemma rvec_set_null_checked_len:
  "(e, v') = rvec_set_null_checked v idx b \<Longrightarrow> rvec_len v' = rvec_len v"
  by (cases v) (auto simp: vec_drop_index_inplace_def Let_def split: if_splits option.splits)

text \<open>The \<open>for\<close> loop of \<open>ray_vec_copy_nulls\<close>, from index \<open>i\<close>, over the common length.\<close>

function copy_nulls_loop :: "rvec \<Rightarrow> rvec \<Rightarrow> int \<Rightarrow> ray_err \<times> rvec" where
  "copy_nulls_loop dst src i =
     (if i < rvec_len dst \<and> i < rvec_len src then
        (if rvec_is_null src i then
           (case rvec_set_null_checked dst i True of (e, dst') \<Rightarrow>
              if e \<noteq> RAY_OK then (e, dst')
              else copy_nulls_loop dst' src (i + 1))
         else copy_nulls_loop dst src (i + 1))
      else (RAY_OK, dst))"
  by pat_completeness auto
termination
  by (relation "measure (\<lambda>(dst, src, i). nat (rvec_len dst - i))")
    (auto dest!: rvec_set_null_checked_len)

definition rvec_src_has_nulls :: "rvec \<Rightarrow> bool" where
  "rvec_src_has_nulls v =
     (case v of Own p \<Rightarrow> v_has_nulls p | Slice p off len \<Rightarrow> v_has_nulls p)"

definition ray_vec_copy_nulls :: "rvec \<Rightarrow> rvec \<Rightarrow> ray_err \<times> rvec" where
  "ray_vec_copy_nulls dst src =
     (if \<not> rvec_src_has_nulls src then (RAY_OK, dst) else copy_nulls_loop dst src 0)"

text \<open>
  \<open>ray_vec_slice\<close>: a window, resolved to the ultimate parent; \<open>ok\<close> is the header allocation.  The type
  of the input is not checked: the value of an atom is read as its length, and an object that shows a
  window of an atom is no value, which is \<^term>\<open>None\<close>.
\<close>

definition ray_vec_slice :: "bool \<Rightarrow> ray \<Rightarrow> int \<Rightarrow> int \<Rightarrow> ray option" where
  "ray_vec_slice ok v offset len =
     (case v of
        NULLPTR \<Rightarrow> Some NULLPTR
      | ERR e \<Rightarrow> Some (ERR e)
      | ATOM a \<Rightarrow>
          (let n = view_i64 (a_word a)
           in if offset < 0 \<or> len < 0 \<or> offset > n \<or> len > n - offset then Some (ERR RAY_ERR_RANGE)
              else if \<not> ok then Some NULLPTR
              else None)
      | VEC r \<Rightarrow>
          (if offset < 0 \<or> len < 0 \<or> offset > rvec_len r \<or> len > rvec_len r - offset
             then Some (ERR RAY_ERR_RANGE)
           else if \<not> ok then Some NULLPTR
           else (case r of
               Own p \<Rightarrow> Some (VEC (Slice p offset len))
             | Slice p off _ \<Rightarrow> Some (VEC (Slice p (off + offset) len)))))"

text \<open>\<open>ray_vec_get\<close>: the cell the returned pointer addresses, or the NULL pointer.\<close>

definition ray_vec_get :: "ray \<Rightarrow> int \<Rightarrow> cell option" where
  "ray_vec_get v idx =
     (case v of
        VEC r \<Rightarrow> (if rvec_type r = RAY_STR then None
                 else if idx < 0 \<or> idx \<ge> rvec_len r then None
                 else Some (rvec_cell r idx))
      | _ \<Rightarrow> None)"


section \<open>Atoms: the nullability matrix\<close>

lemma nan_sentinels [simp]: "is_nan64 NULL_F64" "is_nan32 NULL_F32"
  by (simp_all add: is_nan64_def is_nan32_def NULL_F64_def NULL_F32_def)

lemma view_sentinels [simp]:
  "view_i64 (word_of_int NULL_I64) = NULL_I64"
  "view_i32 (ucast (word_of_int NULL_I32 :: u32)) = NULL_I32"
  "view_i16 (ucast (word_of_int NULL_I16 :: 16 word)) = NULL_I16"
  by (simp_all add: view_i64_def view_i32_def view_i16_def NULL_I64_def NULL_I32_def NULL_I16_def)

lemma atom_type_cases:
  assumes "-13 \<le> t" "t \<le> (-1::int)"
  obtains "t = -1" | "t = -2" | "t = -3" | "t = -4" | "t = -5" | "t = -6" | "t = -7"
    | "t = -8" | "t = -9" | "t = -10" | "t = -11" | "t = -12" | "t = -13"
  using assms by atomize_elim presburger

section \<open>Vectors: null state\<close>

text \<open>The vector types that have a null.\<close>

definition nullable :: "int \<Rightarrow> bool" where
  "nullable t \<longleftrightarrow> null_cell t \<noteq> None"

lemma sentinel_null_cell: "null_cell t = Some c \<Longrightarrow> sentinel_is_null t c"
  by (auto simp: null_cell_def sentinel_is_null_def split: if_splits)

lemma nullable_types:
  "nullable t \<longleftrightarrow> t \<in> {RAY_F64, RAY_F32, RAY_I64, RAY_TIMESTAMP, RAY_I32, RAY_DATE, RAY_TIME,
     RAY_I16, RAY_GUID}"
  by (auto simp: nullable_def null_cell_def)

lemma vec_is_null_nullable:
  "nullable (v_type v) \<Longrightarrow> 0 \<le> i \<Longrightarrow> i < int (length (v_cells v)) \<Longrightarrow>
     vec_is_null v i \<longleftrightarrow> v_has_nulls v \<and> sentinel_is_null (v_type v) (v_cells v ! nat i)"
  by (auto simp: vec_is_null_def vec_any_nulls_def nullable_types)

lemma vec_is_null_out: "i < 0 \<or> int (length (v_cells v)) \<le> i \<Longrightarrow> \<not> vec_is_null v i"
  by (auto simp: vec_is_null_def)

lemma vec_is_null_not_nullable: "\<not> nullable (v_type v) \<Longrightarrow> \<not> vec_is_null v i"
  by (auto simp: vec_is_null_def nullable_types sentinel_is_null_def)

text \<open>
  A vector whose flag is clear but which holds a sentinel anyway would gain a null from another
  cell's update; the producers keep the flag exact in this direction.
\<close>

definition nulls_flagged :: "vec \<Rightarrow> bool" where
  "nulls_flagged v \<longleftrightarrow>
     (v_has_nulls v \<or> (\<forall>c \<in> set (v_cells v). \<not> sentinel_is_null (v_type v) c))"

lemma set_null_own:
  assumes "nullable (v_type v)" "0 \<le> i" "i < int (length (v_cells v))"
  obtains v' where "rvec_set_null_checked (Own v) i True = (RAY_OK, Own v')"
    "v_type v' = v_type v" "length (v_cells v') = length (v_cells v)" "v_has_nulls v'"
    "\<not> v_sorted v'" "\<not> v_has_index v'"
    "vec_is_null v' i"
    "\<And>j. 0 \<le> j \<Longrightarrow> j \<noteq> i \<Longrightarrow> v_cells v' ! nat j = v_cells v ! nat j"
proof -
  obtain c where c: "null_cell (v_type v) = Some c" using assms by (auto simp: nullable_def)
  define v' where "v' = v\<lparr>v_sorted := False, v_has_index := False,
     v_cells := (v_cells v)[nat i := c], v_has_nulls := True\<rparr>"
  have t: "v_type v \<noteq> RAY_SYM" "v_type v \<noteq> RAY_BOOL" "v_type v \<noteq> RAY_U8" "v_type v \<noteq> RAY_STR"
    using assms(1) by (auto simp: nullable_types)
  have "rvec_set_null_checked (Own v) i True = (RAY_OK, Own v')"
    using assms t c by (simp add: vec_drop_index_inplace_def v'_def)
  moreover have "vec_is_null v' i"
    using assms c by (simp add: vec_is_null_nullable v'_def nat_less_iff sentinel_null_cell)
  ultimately show ?thesis
    using assms by (intro that [of v']) (auto simp: v'_def nth_list_update nat_eq_iff)
qed

lemma set_null_flagged:
  assumes "nullable (v_type v)" "nulls_flagged v" "0 \<le> i" "i < int (length (v_cells v))"
  obtains v' where "rvec_set_null_checked (Own v) i True = (RAY_OK, Own v')"
    "v_type v' = v_type v" "length (v_cells v') = length (v_cells v)" "nulls_flagged v'"
    "v_has_nulls v'" "\<not> v_sorted v'" "\<not> v_has_index v'"
    "\<And>j. vec_is_null v' j \<longleftrightarrow> j = i \<or> vec_is_null v j"
proof -
  obtain v' where v': "rvec_set_null_checked (Own v) i True = (RAY_OK, Own v')"
    "v_type v' = v_type v" "length (v_cells v') = length (v_cells v)" "v_has_nulls v'"
    "\<not> v_sorted v'" "\<not> v_has_index v'" "vec_is_null v' i"
    "\<And>j. 0 \<le> j \<Longrightarrow> j \<noteq> i \<Longrightarrow> v_cells v' ! nat j = v_cells v ! nat j"
    using set_null_own [OF assms(1,3,4)] by blast
  have "vec_is_null v' j \<longleftrightarrow> j = i \<or> vec_is_null v j" for j
  proof (cases "0 \<le> j \<and> j < int (length (v_cells v)) \<and> j \<noteq> i")
    case True
    then have "v_cells v ! nat j \<in> set (v_cells v)" by (intro nth_mem) (simp add: nat_less_iff)
    then have "sentinel_is_null (v_type v) (v_cells v ! nat j) \<Longrightarrow> v_has_nulls v"
      using assms(2) by (auto simp: nulls_flagged_def)
    then show ?thesis
      using True assms v' by (auto simp: vec_is_null_nullable)
  next
    case False
    then consider "j = i" | "j \<noteq> i" "j < 0 \<or> int (length (v_cells v)) \<le> j" by linarith
    then show ?thesis
    proof cases
      case 1
      then show ?thesis using v'(7) by simp
    next
      case 2
      then show ?thesis using v'(3) by (simp add: vec_is_null_out)
    qed
  qed
  then show ?thesis using v' by (intro that [of v']) (auto simp: nulls_flagged_def)
qed

declare copy_nulls_loop.simps [simp del]

lemma copy_nulls_loop_own:
  assumes "dst = Own v" "nullable (v_type v)" "nulls_flagged v" "0 \<le> i"
  shows "\<exists>v'. copy_nulls_loop dst src i = (RAY_OK, Own v') \<and> v_type v' = v_type v
     \<and> length (v_cells v') = length (v_cells v)
     \<and> (\<forall>j. vec_is_null v' j \<longleftrightarrow> vec_is_null v j
            \<or> (i \<le> j \<and> j < int (length (v_cells v)) \<and> j < rvec_len src \<and> rvec_is_null src j))"
  using assms
proof (induction dst src i arbitrary: v rule: copy_nulls_loop.induct)
  case (1 dst src i)
  show ?case
  proof (cases "i < rvec_len dst \<and> i < rvec_len src")
    case False
    then show ?thesis using 1(3,4,5,6) by (subst copy_nulls_loop.simps) auto
  next
    case True
    show ?thesis
    proof (cases "rvec_is_null src i")
      case False
      have "\<exists>v'. copy_nulls_loop dst src (i + 1) = (RAY_OK, Own v') \<and> v_type v' = v_type v
        \<and> length (v_cells v') = length (v_cells v)
        \<and> (\<forall>j. vec_is_null v' j \<longleftrightarrow> vec_is_null v j
              \<or> (i + 1 \<le> j \<and> j < int (length (v_cells v)) \<and> j < rvec_len src \<and> rvec_is_null src j))"
        using 1 True False by simp
      moreover have "i + 1 \<le> j \<and> rvec_is_null src j \<longleftrightarrow> i \<le> j \<and> rvec_is_null src j" for j
        using False by (cases "j = i") auto
      moreover have "copy_nulls_loop dst src i = copy_nulls_loop dst src (i + 1)"
        using True False by (subst copy_nulls_loop.simps) simp
      ultimately show ?thesis by (auto simp: conj_ac)
    next
      case nul: True
      obtain v1 where v1: "rvec_set_null_checked (Own v) i True = (RAY_OK, Own v1)"
        "v_type v1 = v_type v" "length (v_cells v1) = length (v_cells v)" "nulls_flagged v1"
        "\<And>j. vec_is_null v1 j \<longleftrightarrow> j = i \<or> vec_is_null v j"
        using set_null_flagged [of v i] 1(3,4,5,6) True by auto
      have step: "copy_nulls_loop dst src i = copy_nulls_loop (Own v1) src (i + 1)"
        using True nul v1(1) 1(3) by (subst copy_nulls_loop.simps) simp
      have "\<exists>v'. copy_nulls_loop (Own v1) src (i + 1) = (RAY_OK, Own v') \<and> v_type v' = v_type v1
        \<and> length (v_cells v') = length (v_cells v1)
        \<and> (\<forall>j. vec_is_null v' j \<longleftrightarrow> vec_is_null v1 j
              \<or> (i + 1 \<le> j \<and> j < int (length (v_cells v1)) \<and> j < rvec_len src \<and> rvec_is_null src j))"
        using 1(1) [OF True nul, of RAY_OK "Own v1" v1] 1(3,4,5,6) v1 by simp
      moreover have "j = i \<or> (i + 1 \<le> j \<and> j < int (length (v_cells v)) \<and> j < rvec_len src \<and> rvec_is_null src j)
          \<longleftrightarrow> i \<le> j \<and> j < int (length (v_cells v)) \<and> j < rvec_len src \<and> rvec_is_null src j" for j
        using True nul 1(3) by (cases "j = i") auto
      ultimately show ?thesis unfolding step using v1 by (metis (no_types, lifting))
    qed
  qed
qed

section \<open>Slices\<close>

lemma length_rvec_list [simp]: "length (rvec_list v) = nat (rvec_len v)"
  by (simp add: rvec_list_def)

lemma nth_rvec_list: "i < nat (rvec_len v) \<Longrightarrow> rvec_list v ! i = rvec_cell v (int i)"
  by (simp add: rvec_list_def)

lemma rvec_list_own [simp]: "rvec_list (Own v) = v_cells v"
  by (rule nth_equalityI) (simp_all add: nth_rvec_list)

section \<open>Properties\<close>

text \<open>
  The nullability matrix of \<^verbatim>\<open>rayforce.h\<close>: a typed null of any atom type can be built, keeps its
  type, and is null except for SYM and STR, whose typed null is the ordinary empty value.
\<close>

theorem typed_null_matrix:
  assumes "-13 \<le> t" "t \<le> -1"
  shows "\<exists>v. ray_typed_null True True t = Some (Inr v) \<and> a_type v = t
           \<and> (ray_atom_is_null_fn v \<longleftrightarrow> t \<noteq> - RAY_SYM \<and> t \<noteq> - RAY_STR)"
  by (rule atom_type_cases [OF assms])
    (simp_all add: ray_typed_null_def ray_guid_def mk_atom_def header0_def ray_atom_is_null_fn_def
      Let_def)

theorem typed_null_matrix_witness:
  "(-13 \<le> (-8::int) \<and> (-8::int) \<le> -1) \<and>
   (\<exists>v. ray_typed_null True True (-8) = Some (Inr v) \<and> a_type v = -8
      \<and> (ray_atom_is_null_fn v \<longleftrightarrow> (-8::int) \<noteq> - RAY_SYM \<and> (-8::int) \<noteq> - RAY_STR))"
  using typed_null_matrix [of "-8"] by simp

text \<open>
  Setting a null on an unshared nullable vector succeeds, raises the vector's null flag,
  drops its order mark and index, makes exactly that position null and changes the null state
  of no other position.
\<close>

theorem set_null_is_null:
  assumes "nullable (v_type v)" "nulls_flagged v" "0 \<le> i" "i < int (length (v_cells v))"
  shows "\<exists>v'. ray_vec_set_null_checked (VEC (Own v)) i True = (RAY_OK, VEC (Own v'))
    \<and> v_has_nulls v' \<and> \<not> v_sorted v' \<and> \<not> v_has_index v'
    \<and> (\<forall>j. ray_vec_is_null (VEC (Own v')) j \<longleftrightarrow> j = i \<or> ray_vec_is_null (VEC (Own v)) j)"
  by (rule set_null_flagged [OF assms])
    (auto simp: ray_vec_set_null_checked_def ray_vec_is_null_def)

definition example_vec :: vec where
  "example_vec = \<lparr>v_type = RAY_I64, v_has_nulls = False, v_sorted = True, v_has_index = True,
     v_cells = [CI 1, CI 2, CI 3]\<rparr>"

theorem set_null_is_null_witness:
  "nullable (v_type example_vec) \<and> nulls_flagged example_vec \<and> (0::int) \<le> 1
   \<and> 1 < int (length (v_cells example_vec))
   \<and> (\<exists>v'. ray_vec_set_null_checked (VEC (Own example_vec)) 1 True = (RAY_OK, VEC (Own v'))
    \<and> v_has_nulls v' \<and> \<not> v_sorted v' \<and> \<not> v_has_index v'
    \<and> (\<forall>j. ray_vec_is_null (VEC (Own v')) j \<longleftrightarrow> j = 1 \<or> ray_vec_is_null (VEC (Own example_vec)) j))"
proof -
  have h: "nullable (v_type example_vec)" "nulls_flagged example_vec" "(0::int) \<le> 1"
    "1 < int (length (v_cells example_vec))"
    by (auto simp: example_vec_def nullable_types nulls_flagged_def sentinel_is_null_def NULL_I64_def)
  show ?thesis using h set_null_is_null [OF h] by blast
qed

text \<open>
  Copying nulls into an unshared nullable vector makes null exactly the positions that were
  null in the destination or, within its length, are null in the source, whether the source is
  a vector or a slice.
\<close>

theorem copy_nulls_spec:
  assumes "nullable (v_type v)" "nulls_flagged v"
  shows "\<exists>v'. ray_vec_copy_nulls (Own v) src = (RAY_OK, Own v') \<and> v_type v' = v_type v
     \<and> length (v_cells v') = length (v_cells v)
     \<and> (\<forall>j. vec_is_null v' j \<longleftrightarrow> vec_is_null v j
            \<or> (j < int (length (v_cells v)) \<and> rvec_is_null src j))"
proof -
  have rng: "rvec_is_null src j \<Longrightarrow> 0 \<le> j \<and> j < rvec_len src" for j
    by (cases src) (auto simp: vec_is_null_def split: if_splits)
  show ?thesis
  proof (cases "rvec_src_has_nulls src")
    case True
    then show ?thesis
      using copy_nulls_loop_own [OF refl assms, of 0 src] rng
      by (auto simp: ray_vec_copy_nulls_def)
  next
    case False
    then have "\<not> rvec_is_null src j" for j
      by (cases src) (auto simp: rvec_src_has_nulls_def vec_is_null_def vec_any_nulls_def)
    then show ?thesis using False by (simp add: ray_vec_copy_nulls_def)
  qed
qed

theorem copy_nulls_spec_witness:
  "nullable (v_type example_vec) \<and> nulls_flagged example_vec
   \<and> (\<exists>v'. ray_vec_copy_nulls (Own example_vec) (Slice example_vec 1 2) = (RAY_OK, Own v')
     \<and> v_type v' = v_type example_vec \<and> length (v_cells v') = length (v_cells example_vec)
     \<and> (\<forall>j. vec_is_null v' j \<longleftrightarrow> vec_is_null example_vec j
          \<or> (j < int (length (v_cells example_vec)) \<and> rvec_is_null (Slice example_vec 1 2) j)))"
proof -
  have h: "nullable (v_type example_vec)" "nulls_flagged example_vec"
    by (auto simp: example_vec_def nullable_types nulls_flagged_def sentinel_is_null_def NULL_I64_def)
  show ?thesis using h copy_nulls_spec [OF h] by blast
qed


end
