(* ===== verification/Morsel.thy ===== *)
theory Morsel
  imports Value
begin

text \<open>
  The morsel iterator (\<^verbatim>\<open>src/core/morsel.c\<close>): a cursor that walks a vector in chunks of at most
  \<open>RAY_MORSEL_ELEMS\<close> elements and synthesises a null bitmap for each chunk.  The data pointer of a
  chunk is represented by the index of its first element (\<open>m_offset\<close>); the \<open>madvise\<close> hint of a
  mapped vector has no effect on the values.  The bitmap is a list of booleans, one per bit.
\<close>

definition RAY_MORSEL_ELEMS :: int where
  "RAY_MORSEL_ELEMS = 1024"

text \<open>Bits of \<open>null_bits_buf\<close> (128 bytes).\<close>

definition NULL_BITS_BUF_BYTES :: int where
  "NULL_BITS_BUF_BYTES = RAY_MORSEL_ELEMS sdiv 8"

record ray_morsel =
  m_vec :: rvec
  m_offset :: int
  m_len :: int
  m_morsel_len :: int
  m_null_bits :: "bool list option"

definition ray_morsel_init :: "rvec \<Rightarrow> ray_morsel" where
  "ray_morsel_init vec =
     \<lparr>m_vec = vec, m_offset = 0, m_len = rvec_len vec, m_morsel_len = 0, m_null_bits = None\<rparr>"

definition ray_morsel_init_range :: "rvec \<Rightarrow> int \<Rightarrow> int \<Rightarrow> ray_morsel" where
  "ray_morsel_init_range vec start fin =
     \<lparr>m_vec = vec, m_offset = start, m_len = fin, m_morsel_len = 0, m_null_bits = None\<rparr>"

text \<open>The attribute test \<open>vec->attrs & RAY_ATTR_HAS_NULLS\<close>: a slice header never has the bit.\<close>

definition has_nulls_attr :: "rvec \<Rightarrow> bool" where
  "has_nulls_attr v = (case v of Own p \<Rightarrow> v_has_nulls p | Slice p off len \<Rightarrow> False)"

text \<open>The loop that sets bit \<open>bit0 + k\<close> of the zeroed buffer for each null element \<open>k\<close>.\<close>

fun null_bits_loop :: "rvec \<Rightarrow> int \<Rightarrow> int \<Rightarrow> nat list \<Rightarrow> bool list \<Rightarrow> bool list" where
  "null_bits_loop v offset bit0 [] buf = buf"
| "null_bits_loop v offset bit0 (k # ks) buf =
     null_bits_loop v offset bit0 ks
       (if rvec_is_null v (offset + int k) then buf[nat bit0 + k := True] else buf)"

definition ray_morsel_next :: "ray_morsel \<Rightarrow> bool \<times> ray_morsel" where
  "ray_morsel_next m0 =
     (let m = m0\<lparr>m_offset := m_offset m0 + m_morsel_len m0\<rparr> in
      if m_offset m \<ge> m_len m then (False, m)
      else
        let remaining = m_len m - m_offset m;
            m = m\<lparr>m_morsel_len := (if remaining < RAY_MORSEL_ELEMS then remaining else RAY_MORSEL_ELEMS),
                  m_null_bits := None\<rparr>
        in if has_nulls_attr (m_vec m) then
             let bit0 = m_offset m mod 8;
                 total_bits = bit0 + m_morsel_len m;
                 nbytes = (total_bits + 7) sdiv 8
             in if nbytes > NULL_BITS_BUF_BYTES then (True, m)
                else (True, m\<lparr>m_null_bits :=
                       Some (null_bits_loop (m_vec m) (m_offset m) bit0 [0..<nat (m_morsel_len m)]
                               (replicate (nat (8 * nbytes)) False))\<rparr>)
           else (True, m))"

text \<open>
  A consumer's loop \<open>while (ray_morsel_next(&m)) ...\<close>: the chunks it sees, as pairs of offset and
  length, with the bitmap.  A vector has finitely many elements, so the cursor, which moves by at
  least one element, reaches the end.
\<close>

lemma ray_morsel_next_progress:
  assumes "ray_morsel_next m = (True, m')"
  shows "m_offset m' = m_offset m + m_morsel_len m" "m_offset m' < m_len m'"
    "m_len m' = m_len m" "m_vec m' = m_vec m"
    "m_morsel_len m' = min (m_len m' - m_offset m') RAY_MORSEL_ELEMS"
    "0 < m_morsel_len m'"
  using assms
  by (auto simp: ray_morsel_next_def Let_def RAY_MORSEL_ELEMS_def split: if_splits)

function morsel_chunks :: "ray_morsel \<Rightarrow> (int \<times> int \<times> bool list option) list" where
  "morsel_chunks m =
     (case ray_morsel_next m of
        (True, m') \<Rightarrow> (m_offset m', m_morsel_len m', m_null_bits m') # morsel_chunks m'
      | (False, m') \<Rightarrow> [])"
  by pat_completeness auto
termination
proof (relation "measure (\<lambda>m. nat (m_len m - m_offset m - m_morsel_len m))", goal_cases)
  case (2 m p m')
  then have "ray_morsel_next m = (True, m')" by auto
  from ray_morsel_next_progress [OF this] show ?case by auto
qed simp

declare morsel_chunks.simps [simp del]

section \<open>The chunks partition the range\<close>

definition chunk_indices :: "(int \<times> int \<times> bool list option) list \<Rightarrow> int list" where
  "chunk_indices cs = concat (map (\<lambda>(off, n, _). [off..off + n - 1]) cs)"

lemma upto_append: "a \<le> b \<Longrightarrow> b \<le> c \<Longrightarrow> [a..b - 1] @ [b..c - 1] = [a..(c::int) - 1]"
  using upto_split1 [of a b "c - 1"] upto_split2 [of a b "c - 1"]
  by (cases "b \<le> c - 1") auto

lemma morsel_chunks_indices:
  assumes "m_offset m + m_morsel_len m \<le> m_len m"
  shows "chunk_indices (morsel_chunks m) = [m_offset m + m_morsel_len m..m_len m - 1]"
  using assms
proof (induction m rule: morsel_chunks.induct)
  case (1 m)
  show ?case
  proof (cases "ray_morsel_next m")
    case (Pair b m')
    show ?thesis
    proof (cases b)
      case True
      note p = ray_morsel_next_progress [of m m']
      have n: "ray_morsel_next m = (True, m')" using Pair True by simp
      have IH: "chunk_indices (morsel_chunks m') = [m_offset m' + m_morsel_len m'..m_len m' - 1]"
        using "1.IH" [OF n [symmetric]] p [OF n] by auto
      have "m_offset m' + m_morsel_len m' \<le> m_len m'" using p [OF n] by auto
      then show ?thesis
        using p [OF n] IH n upto_append [of "m_offset m'" "m_offset m' + m_morsel_len m'" "m_len m'"]
        by (subst morsel_chunks.simps) (auto simp: chunk_indices_def)
    next
      case False
      then have "m_offset m + m_morsel_len m \<ge> m_len m"
        using Pair by (auto simp: ray_morsel_next_def Let_def split: if_splits)
      then show ?thesis
        using Pair False 1(2) by (subst morsel_chunks.simps) (simp add: chunk_indices_def)
    qed
  qed
qed

lemma null_bits_loop_nth:
  assumes "distinct ks" "\<And>k. k \<in> set ks \<Longrightarrow> nat bit0 + k < length buf" "j < length buf"
  shows "null_bits_loop v off bit0 ks buf ! j \<longleftrightarrow>
     buf ! j \<or> (nat bit0 \<le> j \<and> j - nat bit0 \<in> set ks \<and> rvec_is_null v (off + int (j - nat bit0)))"
  using assms
proof (induction ks arbitrary: buf)
  case (Cons k ks)
  define buf' where
    "buf' = (if rvec_is_null v (off + int k) then buf[nat bit0 + k := True] else buf)"
  have "length buf' = length buf" by (simp add: buf'_def)
  then have "null_bits_loop v off bit0 ks buf' ! j \<longleftrightarrow>
     buf' ! j \<or> (nat bit0 \<le> j \<and> j - nat bit0 \<in> set ks \<and> rvec_is_null v (off + int (j - nat bit0)))"
    using Cons.prems by (intro Cons.IH) auto
  moreover have "buf' ! j \<longleftrightarrow> buf ! j \<or> (nat bit0 \<le> j \<and> j - nat bit0 = k \<and> rvec_is_null v (off + int k))"
  proof (cases "j = nat bit0 + k")
    case True
    then show ?thesis using Cons.prems(3) by (auto simp: buf'_def)
  next
    case False
    then have "\<not> (nat bit0 \<le> j \<and> j - nat bit0 = k)" by auto
    then show ?thesis using False by (auto simp: buf'_def)
  qed
  ultimately show ?case by (auto simp: buf'_def)
qed simp

lemma morsel_next_bits:
  assumes n: "ray_morsel_next m = (True, m')" and nb: "m_null_bits m' = Some bits"
    and k: "0 \<le> k" "k < m_morsel_len m'"
  shows "bits ! nat (m_offset m' mod 8 + k) \<longleftrightarrow> rvec_is_null (m_vec m) (m_offset m' + k)"
proof -
  define bit0 where "bit0 = m_offset m' mod 8"
  define nbytes where "nbytes = (bit0 + m_morsel_len m' + 7) sdiv 8"
  have b0: "0 \<le> bit0" by (simp add: bit0_def)
  note p = ray_morsel_next_progress [OF n]
  have bits: "bits = null_bits_loop (m_vec m) (m_offset m') bit0 [0..<nat (m_morsel_len m')]
                 (replicate (nat (8 * nbytes)) False)"
    using n nb p by (auto simp: ray_morsel_next_def Let_def bit0_def nbytes_def split: if_splits)
  have "nbytes = (bit0 + m_morsel_len m' + 7) div 8"
    using b0 p(6) by (simp add: nbytes_def sdiv_nonneg)
  then have len: "bit0 + m_morsel_len m' \<le> 8 * nbytes" by linarith
  have "nat (bit0 + k) - nat bit0 = nat k" "nat bit0 \<le> nat (bit0 + k)" using k b0 by auto
  then show ?thesis
    unfolding bit0_def [symmetric] bits
    using k b0 len p(4) by (subst null_bits_loop_nth) auto
qed


lemma morsel_chunks_all:
  assumes P: "\<And>m'. ray_morsel_next m = (True, m') \<Longrightarrow> P m' \<and> I m'"
    and step: "\<And>m m'. I m \<Longrightarrow> ray_morsel_next m = (True, m') \<Longrightarrow> P m' \<and> I m'"
    and c: "(off, n, bits) \<in> set (morsel_chunks m)"
  shows "\<exists>m'. P m' \<and> m_offset m' = off \<and> m_morsel_len m' = n \<and> m_null_bits m' = bits"
  using c P
proof (induction m rule: morsel_chunks.induct)
  case (1 m)
  show ?case
  proof (cases "ray_morsel_next m")
    case (Pair b m')
    show ?thesis
    proof (cases b)
      case True
      have nx: "ray_morsel_next m = (True, m')" using Pair True by simp
      have Im: "P m' \<and> I m'" using 1(3) [OF nx] .
      have "(off, n, bits) = (m_offset m', m_morsel_len m', m_null_bits m')
              \<or> (off, n, bits) \<in> set (morsel_chunks m')"
        using 1(2) nx by (subst (asm) morsel_chunks.simps) auto
      then show ?thesis
      proof
        assume "(off, n, bits) \<in> set (morsel_chunks m')"
        then show ?thesis using 1(1) [OF nx [symmetric]] Im step [of m'] by blast
      qed (use Im in auto)
    next
      case False
      then show ?thesis using 1(2) Pair by (subst (asm) morsel_chunks.simps) simp
    qed
  qed
qed

text \<open>A cursor that stands at a byte boundary or is about to stop.\<close>

definition aligned :: "rvec \<Rightarrow> int \<Rightarrow> ray_morsel \<Rightarrow> bool" where
  "aligned v fin m \<longleftrightarrow> m_vec m = v \<and> m_len m = fin
     \<and> ((m_offset m + m_morsel_len m) mod 8 = 0 \<or> fin \<le> m_offset m + m_morsel_len m)"

definition bits_exact :: "rvec \<Rightarrow> ray_morsel \<Rightarrow> bool" where
  "bits_exact v m \<longleftrightarrow> m_offset m mod 8 = 0
     \<and> (\<exists>bits. m_null_bits m = Some bits
         \<and> (\<forall>k. 0 \<le> k \<longrightarrow> k < m_morsel_len m \<longrightarrow> bits ! nat k = rvec_is_null v (m_offset m + k)))"

lemma morsel_next_has_bits:
  assumes nx: "ray_morsel_next m = (True, m')" and "has_nulls_attr (m_vec m)"
    and sz: "\<not> NULL_BITS_BUF_BYTES < (m_offset m' mod 8 + m_morsel_len m' + 7) sdiv 8"
  shows "\<exists>bits. m_null_bits m' = Some bits"
proof (rule ccontr)
  assume n: "\<not> ?thesis"
  have "NULL_BITS_BUF_BYTES < (m_offset m' mod 8 + m_morsel_len m' + 7) sdiv 8"
    using nx assms(2) n unfolding ray_morsel_next_def Let_def
    by (auto split: if_splits)
  with sz show False by simp
qed

lemma aligned_next:
  assumes a: "aligned v fin m" and hn: "has_nulls_attr v" and nx: "ray_morsel_next m = (True, m')"
  shows "bits_exact v m' \<and> aligned v fin m'"
proof -
  note p = ray_morsel_next_progress [OF nx]
  have off: "m_offset m' mod 8 = 0" using a p by (auto simp: aligned_def)
  have len: "m_morsel_len m' \<le> 1024" using p(5) by (simp add: RAY_MORSEL_ELEMS_def)
  have sz: "\<not> NULL_BITS_BUF_BYTES < (m_offset m' mod 8 + m_morsel_len m' + 7) sdiv 8"
    using len p(6) off by (simp add: sdiv_nonneg NULL_BITS_BUF_BYTES_def RAY_MORSEL_ELEMS_def)
  have "has_nulls_attr (m_vec m)" using hn a by (simp add: aligned_def)
  then obtain bits where bits: "m_null_bits m' = Some bits"
    using morsel_next_has_bits [OF nx _ sz] by blast
  have "aligned v fin m'"
    using a p off by (auto simp: aligned_def RAY_MORSEL_ELEMS_def min_def split: if_splits)
  then show ?thesis
    using off bits morsel_next_bits [OF nx bits] a by (auto simp: bits_exact_def aligned_def)
qed

section \<open>Properties\<close>

text \<open>
  C29. Walking a range of a vector morsel by morsel ends and visits every index of the range
  exactly once, in order, in chunks of 1 to 1024 elements.
\<close>

theorem morsel_cover:
  assumes "start \<le> fin"
  shows "chunk_indices (morsel_chunks (ray_morsel_init_range v start fin)) = [start..fin - 1]
    \<and> (\<forall>(off, n, bits) \<in> set (morsel_chunks (ray_morsel_init_range v start fin)). 0 < n \<and> n \<le> 1024)"
proof -
  let ?m = "ray_morsel_init_range v start fin"
  have a: "chunk_indices (morsel_chunks ?m) = [start..fin - 1]"
    using morsel_chunks_indices [of ?m] assms by (simp add: ray_morsel_init_range_def)
  have len: "0 < m_morsel_len m' \<and> m_morsel_len m' \<le> 1024"
    if "ray_morsel_next m = (True, m')" for m m'
    using ray_morsel_next_progress [OF that] by (simp add: RAY_MORSEL_ELEMS_def)
  have "0 < n \<and> n \<le> 1024" if "(off, n, bits) \<in> set (morsel_chunks ?m)" for off n bits
    using morsel_chunks_all [where P = "\<lambda>m. 0 < m_morsel_len m \<and> m_morsel_len m \<le> 1024"
        and I = "\<lambda>_. True", OF _ _ that] len by auto
  with a show ?thesis by auto
qed

definition morsel_example :: rvec where
  "morsel_example = Own \<lparr>v_type = RAY_I64, v_has_nulls = True, v_sorted = False, v_has_index = False,
     v_cells = CI 0 # CI NULL_I64 # replicate 1100 (CI 7)\<rparr>"

theorem morsel_cover_witness:
  "(0::int) \<le> 1102
   \<and> chunk_indices (morsel_chunks (ray_morsel_init_range morsel_example 0 1102)) = [0..1102 - 1]"
  using morsel_cover [of 0 1102 morsel_example] by simp

text \<open>
  From a range start that is a multiple of 8, on a vector with the null flag, every chunk
  carries a bitmap, and bit \<open>k\<close> of it says whether element \<open>k\<close> of the chunk is null.
\<close>

theorem morsel_null_bits:
  assumes "start mod 8 = 0" "has_nulls_attr v"
    and "(off, n, bits) \<in> set (morsel_chunks (ray_morsel_init_range v start fin))"
  shows "\<exists>bs. bits = Some bs
    \<and> (\<forall>k. 0 \<le> k \<longrightarrow> k < n \<longrightarrow> bs ! nat k = rvec_is_null v (off + k))"
proof -
  let ?m = "ray_morsel_init_range v start fin"
  have "aligned v fin ?m" using assms(1) by (simp add: aligned_def ray_morsel_init_range_def)
  then show ?thesis
    using morsel_chunks_all [where P = "bits_exact v" and I = "aligned v fin", OF _ _ assms(3)]
      aligned_next [OF _ assms(2)]
    by (fastforce simp: bits_exact_def)
qed

lemma morsel_chunks_first:
  "ray_morsel_next m = (True, m') \<Longrightarrow>
     (m_offset m', m_morsel_len m', m_null_bits m') \<in> set (morsel_chunks m)"
  by (subst morsel_chunks.simps) simp

theorem morsel_null_bits_witness:
  "\<exists>bits n. (0::int) mod 8 = 0 \<and> has_nulls_attr morsel_example
   \<and> (0, n, bits) \<in> set (morsel_chunks (ray_morsel_init_range morsel_example 0 1102))
   \<and> (\<exists>bs. bits = Some bs
      \<and> (\<forall>k. 0 \<le> k \<longrightarrow> k < n \<longrightarrow> bs ! nat k = rvec_is_null morsel_example (0 + k)))"
proof -
  let ?m = "ray_morsel_init_range morsel_example 0 1102"
  obtain m' where m': "ray_morsel_next ?m = (True, m')" "m_offset m' = 0"
    by (cases "ray_morsel_next ?m")
      (auto simp: ray_morsel_next_def ray_morsel_init_range_def Let_def split: if_splits)
  have c: "(0, m_morsel_len m', m_null_bits m') \<in> set (morsel_chunks ?m)"
    using morsel_chunks_first [OF m'(1)] m'(2) by simp
  have h: "(0::int) mod 8 = 0" "has_nulls_attr morsel_example"
    by (simp_all add: has_nulls_attr_def morsel_example_def)
  show ?thesis
    by (intro exI [of _ "m_null_bits m'"] exI [of _ "m_morsel_len m'"] conjI h c
        morsel_null_bits [OF h c])
qed

text \<open>
  From a start that is not a multiple of 8 a full chunk needs 129 bitmap bytes where the
  buffer has 128: the iterator then reports a chunk with no bitmap, as for a vector without
  nulls, although an element of the chunk is null.
\<close>

theorem morsel_unaligned_drops_bitmap:
  "\<exists>m'. ray_morsel_next (ray_morsel_init_range morsel_example 1 1025) = (True, m')
     \<and> m_null_bits m' = None \<and> m_offset m' = 1 \<and> rvec_is_null morsel_example 1"
  by (simp add: ray_morsel_next_def ray_morsel_init_range_def Let_def RAY_MORSEL_ELEMS_def
      has_nulls_attr_def morsel_example_def NULL_BITS_BUF_BYTES_def sdiv_nonneg
      vec_is_null_def vec_any_nulls_def sentinel_is_null_def)

end
