(* ===== verification/Temporal.thy ===== *)
theory Temporal
  imports Calendar Morsel
begin

text \<open>
  Temporal fields and truncation (\<^verbatim>\<open>src/ops/temporal.c\<close>): the scalar kernel \<open>rte_extract_one\<close>, the
  unit conversion \<open>rte_to_us\<close>, the loop \<open>rte_rows\<close> of the standalone builtins \<open>ray_temporal_extract\<close> and
  \<open>ray_temporal_truncate\<close>, and the executor kernels \<open>exec_extract\<close> and \<open>exec_date_trunc\<close> that walk
  the column morsel by morsel.  The source repeats the decomposition and the rounding in the bodies
  of the executor's loop macros, and so does the theory: \<open>extract_inner\<close>, \<open>exec_to_us\<close>,
  \<open>date_trunc_us\<close> and the row loop of the executor share no definition with the builtins' kernels.  Dates are days, times are milliseconds and timestamps are
  nanoseconds since 2000-01-01; the kernels work in microseconds.  \<^term>\<open>None\<close> is signed overflow.
  The \<open>uint64_t\<close> steps of the civil-date arithmetic are reduced modulo \<open>2 ^ 64\<close>.
\<close>

abbreviation (input) "RAY_EXTRACT_YEAR \<equiv> (0::int)"
abbreviation (input) "RAY_EXTRACT_MONTH \<equiv> (1::int)"
abbreviation (input) "RAY_EXTRACT_DAY \<equiv> (2::int)"
abbreviation (input) "RAY_EXTRACT_HOUR \<equiv> (3::int)"
abbreviation (input) "RAY_EXTRACT_MINUTE \<equiv> (4::int)"
abbreviation (input) "RAY_EXTRACT_SECOND \<equiv> (5::int)"
abbreviation (input) "RAY_EXTRACT_DOW \<equiv> (6::int)"
abbreviation (input) "RAY_EXTRACT_DOY \<equiv> (7::int)"
abbreviation (input) "RAY_EXTRACT_EPOCH \<equiv> (8::int)"

abbreviation (input) "USEC_PER_SEC \<equiv> (1000000::int)"
abbreviation (input) "USEC_PER_MIN \<equiv> (60000000::int)"
abbreviation (input) "USEC_PER_HOUR \<equiv> (3600000000::int)"
abbreviation (input) "USEC_PER_DAY \<equiv> (86400000000::int)"

section \<open>The scalar kernels\<close>

text \<open>The day, rounded down, and the Hinnant civil date of it: \<open>(y, mo, d)\<close>.\<close>

definition days_since_2000 :: "int \<Rightarrow> int" where
  "days_since_2000 us =
     (if us < 0 \<and> us smod USEC_PER_DAY \<noteq> 0 then us sdiv USEC_PER_DAY - 1
      else us sdiv USEC_PER_DAY)"

definition civil_of_days :: "int \<Rightarrow> int \<times> int \<times> int" where
  "civil_of_days days =
     (let z = days + 10957 + 719468;
          era = (if z \<ge> 0 then z else z - 146096) sdiv 146097;
          doe = wrap_u64 (z - era * 146097);
          yoe = wrap_u64 (doe - doe div 1460 + doe div 36524 - doe div 146096) div 365;
          y = yoe + era * 400;
          doy_mar = wrap_u64 (doe - wrap_u64 (365 * yoe + yoe div 4 - yoe div 100));
          mp = wrap_u64 (5 * doy_mar + 2) div 153;
          d = wrap_u64 (doy_mar - wrap_u64 (153 * mp + 2) div 5 + 1);
          mo = (if mp < 10 then mp + 3 else wrap_u64 (mp - 9));
          y = y + (if mo \<le> 2 then 1 else 0)
      in (y, mo, d))"

definition dbm :: "int list" where
  "dbm = [0, 0, 31, 59, 90, 120, 151, 181, 212, 243, 273, 304, 334]"

definition day_us :: "int \<Rightarrow> int" where
  "day_us us = (let r = us smod USEC_PER_DAY in if r < 0 then r + USEC_PER_DAY else r)"

definition rte_extract_one :: "int \<Rightarrow> int \<Rightarrow> int" where
  "rte_extract_one us field =
     (if field = RAY_EXTRACT_EPOCH then us
      else if field = RAY_EXTRACT_HOUR then day_us us sdiv USEC_PER_HOUR
      else if field = RAY_EXTRACT_MINUTE then (day_us us smod USEC_PER_HOUR) sdiv USEC_PER_MIN
      else if field = RAY_EXTRACT_SECOND then (day_us us smod USEC_PER_MIN) sdiv USEC_PER_SEC
      else
        let days = days_since_2000 us in
        case civil_of_days days of (y, mo, d) \<Rightarrow>
          if field = RAY_EXTRACT_YEAR then y
          else if field = RAY_EXTRACT_MONTH then mo
          else if field = RAY_EXTRACT_DAY then d
          else if field = RAY_EXTRACT_DOW then ((days smod 7) + 7 + 5) smod 7 + 1
          else if field = RAY_EXTRACT_DOY then
            (if mo < 1 \<or> mo > 12 then 0
             else let leap = (y smod 4 = 0 \<and> (y smod 100 \<noteq> 0 \<or> y smod 400 = 0));
                      doy_jan = dbm ! nat mo + d
                  in if mo > 2 \<and> leap then doy_jan + 1 else doy_jan)
          else 0)"

definition rte_to_us :: "int \<Rightarrow> int \<Rightarrow> int option" where
  "rte_to_us type raw =
     (if type = RAY_DATE \<or> type = - RAY_DATE then chk_i64 (raw * USEC_PER_DAY)
      else if type = RAY_TIME \<or> type = - RAY_TIME then chk_i64 (raw * 1000)
      else if raw \<ge> 0 then Some (raw sdiv 1000)
      else do { n \<leftarrow> chk_i64 (- raw); m \<leftarrow> chk_i64 (n + 999); Some (- (m sdiv 1000)) })"

definition rte_us_to_ts_raw :: "int \<Rightarrow> int option" where
  "rte_us_to_ts_raw us = chk_i64 (us * 1000)"

definition days_from_civil :: "int \<Rightarrow> int \<Rightarrow> int \<Rightarrow> int" where
  "days_from_civil y0 m d =
     (let y = y0 - (if m \<le> 2 then 1 else 0);
          era = (if y \<ge> 0 then y else y - 399) sdiv 400;
          yoe = wrap_u64 (y - era * 400);
          doy = wrap_u64 (wrap_u64 (153 * wrap_u64 (if m > 2 then m - 3 else m + 9) + 2) div 5 + d - 1);
          doe = wrap_u64 (yoe * 365 + yoe div 4 - yoe div 100 + doy)
      in era * 146097 + doe - 719468 - 10957)"

text \<open>The truncation step \<open>us - r - (r < 0 ? bucket : 0)\<close>.\<close>

definition trunc_us :: "int \<Rightarrow> int \<Rightarrow> int option" where
  "trunc_us bucket us =
     (let r = us smod bucket in
      do { a \<leftarrow> chk_i64 (us - r); chk_i64 (a - (if r < 0 then bucket else 0)) })"

section \<open>The loops over a column\<close>

text \<open>
  One row of a builtin's loop: a null source row writes the sentinel and marks the row null; any
  other row writes the kernel's value for its cell.  The result vector has the length of the input; its payload is not
  initialised, and every cell is written.
\<close>

definition store_cell :: "vec \<Rightarrow> int \<Rightarrow> int \<Rightarrow> vec" where
  "store_cell res i v = res\<lparr>v_cells := (v_cells res)[nat i := CI v]\<rparr>"

definition store_null :: "vec \<Rightarrow> int \<Rightarrow> vec" where
  "store_null res i =
     (case rvec_set_null (Own (store_cell res i NULL_I64)) i True of Own r \<Rightarrow> r | Slice r _ _ \<Rightarrow> r)"

definition rte_row :: "(int \<Rightarrow> int option) \<Rightarrow> rvec \<Rightarrow> bool \<Rightarrow> int \<Rightarrow> vec \<Rightarrow> vec option" where
  "rte_row kern input has_nulls i res =
     (if has_nulls \<and> rvec_is_null input i then Some (store_null res i)
      else (case rvec_cell input i of
          CI raw \<Rightarrow> do { v \<leftarrow> kern raw; Some (store_cell res i v) }
        | _ \<Rightarrow> None))"

fun rte_rows :: "(int \<Rightarrow> int option) \<Rightarrow> rvec \<Rightarrow> bool \<Rightarrow> int list \<Rightarrow> vec \<Rightarrow> vec option" where
  "rte_rows kern input has_nulls [] res = Some res"
| "rte_rows kern input has_nulls (i # is) res =
     do { res' \<leftarrow> rte_row kern input has_nulls i res; rte_rows kern input has_nulls is res' }"

text \<open>
  \<open>ray_vec_new(type, len)\<close> with \<open>len\<close> set: \<open>mem\<close> is the content of the fresh block.
\<close>

definition fresh_vec :: "int \<Rightarrow> cell list \<Rightarrow> vec" where
  "fresh_vec type mem =
     \<lparr>v_type = type, v_has_nulls = False, v_sorted = False, v_has_index = False, v_cells = mem\<rparr>"

definition is_temporal :: "int \<Rightarrow> bool" where
  "is_temporal t \<longleftrightarrow> t = RAY_DATE \<or> t = RAY_TIME \<or> t = RAY_TIMESTAMP"

text \<open>
  The standalone builtins.  \<open>alloc\<close> is what the allocator hands out for the result: no block, or
  a block with some content (of the requested length).  A vector that cannot be allocated is the
  \<open>oom\<close> error object, an atom that cannot be allocated is a write through a NULL pointer.
\<close>

definition ray_temporal_extract :: "cell list option \<Rightarrow> ray \<Rightarrow> int \<Rightarrow> ray option" where
  "ray_temporal_extract alloc input field =
     (case input of
        NULLPTR \<Rightarrow> Some NULLPTR
      | ERR e \<Rightarrow> Some (ERR e)
      | ATOM a \<Rightarrow>
          (if \<not> is_temporal (- a_type a) then Some (ERR RAY_ERR_TYPE)
           else if ray_atom_is_null_fn a then
             (case ray_typed_null (alloc \<noteq> None) (alloc \<noteq> None) (- RAY_I64) of
                Some (Inr v) \<Rightarrow> Some (ATOM v) | Some (Inl e) \<Rightarrow> Some (ERR e) | None \<Rightarrow> None)
           else do { us \<leftarrow> rte_to_us (a_type a) (view_i64 (a_word a));
                     v \<leftarrow> ray_i64 (alloc \<noteq> None) (rte_extract_one us field);
                     Some (ATOM v) })
      | VEC r \<Rightarrow>
          (if \<not> is_temporal (rvec_type r) then Some (ERR RAY_ERR_TYPE)
           else (case alloc of
               None \<Rightarrow> Some (ERR RAY_ERR_OOM)
             | Some mem \<Rightarrow>
                 map_option (\<lambda>res. VEC (Own res))
                   (rte_rows (\<lambda>raw. map_option (\<lambda>us. rte_extract_one us field) (rte_to_us (rvec_type r) raw))
                      r (rvec_src_has_nulls r) [0..rvec_len r - 1] (fresh_vec RAY_I64 mem)))))"

definition trunc_bucket :: "int \<Rightarrow> int" where
  "trunc_bucket kind = (if kind = RAY_EXTRACT_DAY then USEC_PER_DAY else USEC_PER_SEC)"

definition truncate_kernel :: "int \<Rightarrow> int \<Rightarrow> int \<Rightarrow> int option" where
  "truncate_kernel type bucket raw =
     do { us \<leftarrow> rte_to_us type raw; out_us \<leftarrow> trunc_us bucket us; rte_us_to_ts_raw out_us }"

definition ray_temporal_truncate :: "cell list option \<Rightarrow> ray \<Rightarrow> int \<Rightarrow> ray option" where
  "ray_temporal_truncate alloc input kind =
     (case input of
        NULLPTR \<Rightarrow> Some NULLPTR
      | ERR e \<Rightarrow> Some (ERR e)
      | ATOM a \<Rightarrow>
          (if \<not> is_temporal (- a_type a) then Some (ERR RAY_ERR_TYPE)
           else if ray_atom_is_null_fn a then
             (case ray_typed_null (alloc \<noteq> None) (alloc \<noteq> None) (- RAY_TIMESTAMP) of
                Some (Inr v) \<Rightarrow> Some (ATOM v) | Some (Inl e) \<Rightarrow> Some (ERR e) | None \<Rightarrow> None)
           else do { ts \<leftarrow> truncate_kernel (a_type a) (trunc_bucket kind) (view_i64 (a_word a));
                     v \<leftarrow> ray_timestamp (alloc \<noteq> None) ts;
                     Some (ATOM v) })
      | VEC r \<Rightarrow>
          (if \<not> is_temporal (rvec_type r) then Some (ERR RAY_ERR_TYPE)
           else (case alloc of
               None \<Rightarrow> Some (ERR RAY_ERR_OOM)
             | Some mem \<Rightarrow>
                 map_option (\<lambda>res. VEC (Own res))
                   (rte_rows (truncate_kernel (rvec_type r) (trunc_bucket kind))
                      r (rvec_src_has_nulls r) [0..rvec_len r - 1] (fresh_vec RAY_TIMESTAMP mem)))))"

section \<open>Names of the fields\<close>

text \<open>\<open>ray_temporal_field_from_sym\<close> and \<open>ray_temporal_trunc_from_sym\<close> on the symbol's text
  (no text: an unknown symbol).\<close>

definition ray_temporal_field_from_sym :: "string option \<Rightarrow> int" where
  "ray_temporal_field_from_sym s =
     (case s of None \<Rightarrow> -1
      | Some p \<Rightarrow>
          (if p = ''yyyy'' then RAY_EXTRACT_YEAR
           else if p = ''mm'' then RAY_EXTRACT_MONTH
           else if p = ''dd'' then RAY_EXTRACT_DAY
           else if p = ''hh'' then RAY_EXTRACT_HOUR
           else if p = ''minute'' then RAY_EXTRACT_MINUTE
           else if p = ''ss'' then RAY_EXTRACT_SECOND
           else if p = ''dow'' then RAY_EXTRACT_DOW
           else if p = ''doy'' then RAY_EXTRACT_DOY
           else -1))"

definition ray_temporal_trunc_from_sym :: "string option \<Rightarrow> int" where
  "ray_temporal_trunc_from_sym s =
     (case s of None \<Rightarrow> -1
      | Some p \<Rightarrow>
          (if p = ''date'' then RAY_EXTRACT_DAY
           else if p = ''time'' then RAY_EXTRACT_SECOND
           else if p = ''month'' then RAY_EXTRACT_MONTH
           else if p = ''hour'' then RAY_EXTRACT_HOUR
           else if p = ''year'' then RAY_EXTRACT_YEAR
           else -1))"

section \<open>The executor kernels\<close>

text \<open>
  One row of the loop macros: the null test is on row \<open>i\<close> of the column, the cell is read at \<open>src\<close>
  through the pointer of the chunk.
\<close>

definition row_step ::
  "(int \<Rightarrow> int option) \<Rightarrow> rvec \<Rightarrow> bool \<Rightarrow> int \<Rightarrow> int \<Rightarrow> vec \<Rightarrow> vec option" where
  "row_step kern input has_nulls src i res =
     (if has_nulls \<and> rvec_is_null input i then Some (store_null res i)
      else (case rvec_cell input src of
          CI raw \<Rightarrow> do { v \<leftarrow> kern raw; Some (store_cell res i v) }
        | _ \<Rightarrow> None))"

fun row_loop ::
  "(int \<Rightarrow> int option) \<Rightarrow> rvec \<Rightarrow> bool \<Rightarrow> (int \<times> int) list \<Rightarrow> vec \<Rightarrow> vec option" where
  "row_loop kern input has_nulls [] res = Some res"
| "row_loop kern input has_nulls ((src, i) # is) res =
     do { res' \<leftarrow> row_step kern input has_nulls src i res;
          row_loop kern input has_nulls is res' }"

text \<open>
  Row loops nested in the morsel loop: \<open>off\<close> is the running row offset that the source keeps
  beside the cursor; rows are read through the chunk pointer (element \<open>i\<close> of the chunk) and
  written at \<open>off + i\<close>.
\<close>

fun morsel_rows ::
  "(int \<Rightarrow> int option) \<Rightarrow> rvec \<Rightarrow> bool \<Rightarrow> (int \<times> int \<times> bool list option) list \<Rightarrow> int
     \<Rightarrow> vec \<Rightarrow> vec option" where
  "morsel_rows kern input has_nulls [] off res = Some res"
| "morsel_rows kern input has_nulls ((m_off, n, _) # ms) off res =
     do { res' \<leftarrow> row_loop kern input has_nulls (map (\<lambda>i. (m_off + i, off + i)) [0..n - 1]) res;
          morsel_rows kern input has_nulls ms (off + n) res' }"

text \<open>The element conversion of the kernels: by the input type, any type other than DATE and TIME
  being read as 64-bit nanoseconds.  The kernels do not check the type; a column that is neither
  temporal nor of 64-bit integers would be read at the wrong width, and has no result here.\<close>

definition in64 :: "int \<Rightarrow> bool" where
  "in64 t \<longleftrightarrow> t = RAY_TIMESTAMP \<or> t = RAY_I64"

definition exec_to_us :: "int \<Rightarrow> int \<Rightarrow> int option" where
  "exec_to_us in_type raw =
     (if in_type = RAY_DATE \<or> in_type = RAY_TIME then
        (if in_type = RAY_DATE then chk_i64 (raw * USEC_PER_DAY) else chk_i64 (raw * 1000))
      else if raw \<ge> 0 then Some (raw sdiv 1000)
      else do { n \<leftarrow> chk_i64 (- raw); m \<leftarrow> chk_i64 (n + 999); Some (- (m sdiv 1000)) })"

text \<open>The body of \<open>EXTRACT_INNER\<close> after the conversion.\<close>

definition extract_dbm :: "int list" where
  "extract_dbm = [0, 0, 31, 59, 90, 120, 151, 181, 212, 243, 273, 304, 334]"

definition extract_inner :: "int \<Rightarrow> int \<Rightarrow> int" where
  "extract_inner field us =
     (if field = RAY_EXTRACT_EPOCH then us
      else if field = RAY_EXTRACT_HOUR then
        (let r = us smod USEC_PER_DAY; r = (if r < 0 then r + USEC_PER_DAY else r)
         in r sdiv USEC_PER_HOUR)
      else if field = RAY_EXTRACT_MINUTE then
        (let r = us smod USEC_PER_DAY; r = (if r < 0 then r + USEC_PER_DAY else r)
         in (r smod USEC_PER_HOUR) sdiv USEC_PER_MIN)
      else if field = RAY_EXTRACT_SECOND then
        (let r = us smod USEC_PER_DAY; r = (if r < 0 then r + USEC_PER_DAY else r)
         in (r smod USEC_PER_MIN) sdiv USEC_PER_SEC)
      else
        let days = (if us < 0 \<and> us smod USEC_PER_DAY \<noteq> 0 then us sdiv USEC_PER_DAY - 1
                    else us sdiv USEC_PER_DAY);
            z = days + 10957 + 719468;
            era = (if z \<ge> 0 then z else z - 146096) sdiv 146097;
            doe = wrap_u64 (z - era * 146097);
            yoe = wrap_u64 (doe - doe div 1460 + doe div 36524 - doe div 146096) div 365;
            y = yoe + era * 400;
            doy_mar = wrap_u64 (doe - wrap_u64 (365 * yoe + yoe div 4 - yoe div 100));
            mp = wrap_u64 (5 * doy_mar + 2) div 153;
            d_cal = wrap_u64 (doy_mar - wrap_u64 (153 * mp + 2) div 5 + 1);
            mo = (if mp < 10 then mp + 3 else wrap_u64 (mp - 9));
            y = y + (if mo \<le> 2 then 1 else 0)
        in if field = RAY_EXTRACT_YEAR then y
           else if field = RAY_EXTRACT_MONTH then mo
           else if field = RAY_EXTRACT_DAY then d_cal
           else if field = RAY_EXTRACT_DOW then ((days smod 7) + 7 + 5) smod 7 + 1
           else if field = RAY_EXTRACT_DOY then
             (if mo < 1 \<or> mo > 12 then 0
              else let leap = (y smod 4 = 0 \<and> (y smod 100 \<noteq> 0 \<or> y smod 400 = 0));
                       doy_jan = extract_dbm ! nat mo + d_cal
                   in if mo > 2 \<and> leap then doy_jan + 1 else doy_jan)
           else 0)"

text \<open>\<open>ext\<close> is the field of the operator's extension record, absent if there is none.\<close>

definition exec_extract :: "cell list option \<Rightarrow> ray \<Rightarrow> int option \<Rightarrow> ray option" where
  "exec_extract alloc input ext =
     (case input of
        NULLPTR \<Rightarrow> Some NULLPTR
      | ERR e \<Rightarrow> Some (ERR e)
      | ATOM a \<Rightarrow> None
      | VEC r \<Rightarrow>
          (case ext of None \<Rightarrow> Some (ERR RAY_ERR_NYI)
           | Some field \<Rightarrow>
             (case alloc of
                None \<Rightarrow> Some (ERR RAY_ERR_OOM)
              | Some mem \<Rightarrow>
                  if \<not> (is_temporal (rvec_type r) \<or> in64 (rvec_type r)) then None
                  else map_option (\<lambda>res. VEC (Own res))
                    (morsel_rows
                       (\<lambda>raw. map_option (extract_inner field) (exec_to_us (rvec_type r) raw))
                       r (rvec_src_has_nulls r) (morsel_chunks (ray_morsel_init r)) 0
                       (fresh_vec RAY_I64 mem)))))"

text \<open>The \<open>switch\<close> of \<open>DATE_TRUNC_INNER\<close>.\<close>

definition date_trunc_us :: "int \<Rightarrow> int \<Rightarrow> int option" where
  "date_trunc_us field us =
     (if field = RAY_EXTRACT_SECOND then
        (let r = us smod USEC_PER_SEC
         in do { a \<leftarrow> chk_i64 (us - r); chk_i64 (a - (if r < 0 then USEC_PER_SEC else 0)) })
      else if field = RAY_EXTRACT_MINUTE then
        (let r = us smod USEC_PER_MIN
         in do { a \<leftarrow> chk_i64 (us - r); chk_i64 (a - (if r < 0 then USEC_PER_MIN else 0)) })
      else if field = RAY_EXTRACT_HOUR then
        (let r = us smod USEC_PER_HOUR
         in do { a \<leftarrow> chk_i64 (us - r); chk_i64 (a - (if r < 0 then USEC_PER_HOUR else 0)) })
      else if field = RAY_EXTRACT_DAY then
        (let r = us smod USEC_PER_DAY
         in do { a \<leftarrow> chk_i64 (us - r); chk_i64 (a - (if r < 0 then USEC_PER_DAY else 0)) })
      else if field = RAY_EXTRACT_MONTH then
        (let days2k = (if us < 0 \<and> us smod USEC_PER_DAY \<noteq> 0 then us sdiv USEC_PER_DAY - 1
                       else us sdiv USEC_PER_DAY);
             z = days2k + 10957 + 719468;
             era = (if z \<ge> 0 then z else z - 146096) sdiv 146097;
             doe = wrap_u64 (z - era * 146097);
             yoe = wrap_u64 (doe - doe div 1460 + doe div 36524 - doe div 146096) div 365;
             y = yoe + era * 400;
             doy_mar = wrap_u64 (doe - wrap_u64 (365 * yoe + yoe div 4 - yoe div 100));
             mp = wrap_u64 (5 * doy_mar + 2) div 153;
             mo = (if mp < 10 then mp + 3 else wrap_u64 (mp - 9));
             y = y + (if mo \<le> 2 then 1 else 0)
         in chk_i64 (days_from_civil y mo 1 * USEC_PER_DAY))
      else if field = RAY_EXTRACT_YEAR then
        (let days2k = (if us < 0 \<and> us smod USEC_PER_DAY \<noteq> 0 then us sdiv USEC_PER_DAY - 1
                       else us sdiv USEC_PER_DAY);
             z = days2k + 10957 + 719468;
             era = (if z \<ge> 0 then z else z - 146096) sdiv 146097;
             doe = wrap_u64 (z - era * 146097);
             yoe = wrap_u64 (doe - doe div 1460 + doe div 36524 - doe div 146096) div 365;
             y = yoe + era * 400;
             doy_mar = wrap_u64 (doe - wrap_u64 (365 * yoe + yoe div 4 - yoe div 100));
             mp = wrap_u64 (5 * doy_mar + 2) div 153;
             mo = (if mp < 10 then mp + 3 else wrap_u64 (mp - 9));
             y = y + (if mo \<le> 2 then 1 else 0)
         in chk_i64 (days_from_civil y 1 1 * USEC_PER_DAY))
      else Some us)"

definition date_trunc_kernel :: "int \<Rightarrow> int \<Rightarrow> int \<Rightarrow> int option" where
  "date_trunc_kernel in_type field raw =
     do { us \<leftarrow> exec_to_us in_type raw; out_us \<leftarrow> date_trunc_us field us; chk_i64 (out_us * 1000) }"

definition exec_date_trunc :: "cell list option \<Rightarrow> ray \<Rightarrow> int option \<Rightarrow> ray option" where
  "exec_date_trunc alloc input ext =
     (case input of
        NULLPTR \<Rightarrow> Some NULLPTR
      | ERR e \<Rightarrow> Some (ERR e)
      | ATOM a \<Rightarrow> None
      | VEC r \<Rightarrow>
          (case ext of None \<Rightarrow> Some (ERR RAY_ERR_NYI)
           | Some field \<Rightarrow>
             (case alloc of
                None \<Rightarrow> Some (ERR RAY_ERR_OOM)
              | Some mem \<Rightarrow>
                  if \<not> (is_temporal (rvec_type r) \<or> in64 (rvec_type r)) then None
                  else map_option (\<lambda>res. VEC (Own res))
                    (morsel_rows (date_trunc_kernel (rvec_type r) field)
                       r (rvec_src_has_nulls r) (morsel_chunks (ray_morsel_init r)) 0
                       (fresh_vec RAY_TIMESTAMP mem)))))"


section \<open>The civil-date arithmetic\<close>

text \<open>The day of the era on which its year \<open>yoe\<close> (counted from March) starts.\<close>

definition ystart :: "int \<Rightarrow> int" where
  "ystart y = 365 * y + y div 4 - y div 100"

definition yoe_of :: "int \<Rightarrow> int" where
  "yoe_of doe = (doe - doe div 1460 + doe div 36524 - doe div 146096) div 365"

definition mstart :: "int \<Rightarrow> int" where
  "mstart mp = (153 * mp + 2) div 5"

definition ylen :: "int \<Rightarrow> int" where
  "ylen y = 365 + of_bool (date_leap_year (y + 1))"

lemma yoe_of_mono:
  assumes "0 \<le> a" "a \<le> b" "b \<le> 146096"
  shows "yoe_of a \<le> yoe_of b"
proof -
  have *: "a - a div 1460 + a div 36524 \<le> b - b div 1460 + b div 36524"
  proof -
    have "b div 1460 - a div 1460 \<le> b - a"
    proof -
      have "b div 1460 \<le> (a + 1460 * (b - a)) div 1460" using assms by (intro zdiv_mono1) auto
      then show ?thesis by simp
    qed
    moreover have "a div 36524 \<le> b div 36524" using assms by (intro zdiv_mono1) auto
    ultimately show ?thesis by linarith
  qed
  show ?thesis
  proof (cases "b = 146096 \<and> a < b")
    case True
    have "a - a div 1460 + a div 36524 \<le> 146095 - 146095 div 1460 + 146095 div 36524"
    proof -
      have "146095 div 1460 - a div 1460 \<le> 146095 - a"
      proof -
        have "146095 div 1460 \<le> (a + 1460 * (146095 - a)) div 1460"
          using True by (intro zdiv_mono1) auto
        then show ?thesis by simp
      qed
      moreover have "a div 36524 \<le> 146095 div 36524" using True by (intro zdiv_mono1) auto
      ultimately show ?thesis by linarith
    qed
    then have "a - a div 1460 + a div 36524 - a div 146096 \<le> 145999"
      using True assms by simp
    then show ?thesis using True unfolding yoe_of_def by (intro zdiv_mono1) auto
  next
    case False
    then have "a div 146096 = b div 146096" using assms by (cases "a = b") auto
    then show ?thesis using * unfolding yoe_of_def by (intro zdiv_mono1) auto
  qed
qed

definition yoe_check :: "int \<Rightarrow> bool" where
  "yoe_check y \<longleftrightarrow> yoe_of (ystart y) = y \<and> yoe_of (ystart y + ylen y - 1) = y
     \<and> ystart y + ylen y - 1 \<le> 146096"

lemma yoe_check_all: "list_all yoe_check [0..399]"
  by code_simp

lemma yoe_of_year:
  assumes "0 \<le> y" "y < 400" "0 \<le> doy" "doy < ylen y"
  shows "yoe_of (ystart y + doy) = y" "ystart y + doy \<le> 146096" "0 \<le> ystart y"
proof -
  have c: "yoe_check y" using yoe_check_all assms by (auto simp: list_all_iff)
  show s: "0 \<le> ystart y" using assms by (simp add: ystart_def)
  have "yoe_of (ystart y) \<le> yoe_of (ystart y + doy)"
    "yoe_of (ystart y + doy) \<le> yoe_of (ystart y + ylen y - 1)"
    using c assms s by (rule_tac yoe_of_mono; simp add: yoe_check_def)+
  then show "yoe_of (ystart y + doy) = y" using c by (simp add: yoe_check_def)
  show "ystart y + doy \<le> 146096" using c assms by (simp add: yoe_check_def)
qed

lemma ystart_Suc:
  assumes "0 \<le> y" "y < 399"
  shows "ystart (y + 1) = ystart y + ylen y"
proof -
  have "(y + 1) mod 400 \<noteq> 0" using assms by simp
  moreover have "(y + 1) mod 100 = 0 \<Longrightarrow> (y + 1) mod 4 = 0" by presburger
  ultimately show ?thesis
    by (auto simp: ystart_def ylen_def date_leap_year_iff int_div_Suc of_bool_def)
qed

lemma doe_decompose:
  assumes "0 \<le> doe" "doe \<le> 146096"
  shows "\<exists>y doy. 0 \<le> y \<and> y < 400 \<and> 0 \<le> doy \<and> doy < ylen y \<and> doe = ystart y + doy"
proof -
  have "\<exists>y doy. 0 \<le> y \<and> y < 400 \<and> 0 \<le> doy \<and> doy < ylen y \<and> int n = ystart y + doy"
    if "int n \<le> 146096" for n
    using that
  proof (induction n)
    case 0
    show ?case
      by (intro exI [of _ 0]) (simp add: ystart_def ylen_def)
  next
    case (Suc n)
    then obtain y doy where y: "0 \<le> y" "y < 400" "0 \<le> doy" "doy < ylen y" "int n = ystart y + doy"
      by auto
    show ?case
    proof (cases "doy + 1 < ylen y")
      case True
      then show ?thesis using y by (intro exI [of _ y] exI [of _ "doy + 1"]) auto
    next
      case False
      have "y \<noteq> 399"
      proof
        assume "y = 399"
        then have "ystart y + ylen y = 146097"
          by (simp add: ystart_def ylen_def date_leap_year_iff)
        then show False using False y Suc.prems by simp
      qed
      then have "ystart (y + 1) = ystart y + ylen y" using y by (intro ystart_Suc) auto
      moreover have "0 < ylen (y + 1)" by (simp add: ylen_def)
      ultimately show ?thesis
        using False y \<open>y \<noteq> 399\<close> by (intro exI [of _ "y + 1"] exI [of _ 0]) auto
    qed
  qed
  from this [of "nat doe"] assms show ?thesis by simp
qed

text \<open>Months from March: the month of a day of the year and the civil month it stands for.\<close>

definition month_check :: "bool \<Rightarrow> int \<Rightarrow> bool" where
  "month_check leap doy \<longleftrightarrow>
     (let mp = (5 * doy + 2) div 153; d = doy - mstart mp + 1;
          mo = (if mp < 10 then mp + 3 else mp - 9) in
      0 \<le> mp \<and> mp \<le> 11 \<and> 1 \<le> d \<and> 1 \<le> mo \<and> mo \<le> 12
      \<and> d \<le> MONTHDAYS leap ! nat mo - MONTHDAYS leap ! (nat mo - 1))"

lemma mp_bounds:
  assumes "mp = (5 * doy + 2) div (153::int)"
  shows "mstart mp \<le> doy" "doy < mstart (mp + 1)"
proof -
  have "153 * mp \<le> 5 * doy + 2" "5 * doy + 2 < 153 * mp + 153" using assms by simp_all
  moreover have "5 * mstart mp \<le> 153 * mp + 2" "153 * mp + 155 < 5 * mstart (mp + 1) + 5"
    by (simp_all add: mstart_def)
  ultimately show "mstart mp \<le> doy" "doy < mstart (mp + 1)" by linarith+
qed

lemma mp_unique:
  assumes "mstart mp \<le> doy" "doy < mstart (mp + 1)"
  shows "(5 * doy + 2) div (153::int) = mp"
proof -
  have "153 * mp + 2 < 5 * mstart mp + 5" "5 * mstart (mp + 1) \<le> 153 * mp + 155"
    by (simp_all add: mstart_def)
  then have "153 * mp \<le> 5 * doy + 2" "5 * doy + 2 < 153 * mp + 153" using assms by linarith+
  then show ?thesis by simp
qed

lemma mp_cases:
  assumes "0 \<le> mp" "mp \<le> (11::int)"
  obtains "mp = 0" | "mp = 1" | "mp = 2" | "mp = 3" | "mp = 4" | "mp = 5" | "mp = 6" | "mp = 7"
    | "mp = 8" | "mp = 9" | "mp = 10" | "mp = 11"
  using assms by atomize_elim presburger

lemma month_of_doy:
  assumes "0 \<le> doy" "doy < 365 + of_bool leap"
  shows "month_check leap doy"
proof -
  define mp where "mp = (5 * doy + 2) div 153"
  note b = mp_bounds [OF mp_def]
  have r: "0 \<le> mp" "mp \<le> 11" using assms by (cases leap; simp add: mp_def)+
  show ?thesis
    unfolding month_check_def Let_def mp_def [symmetric]
    using b assms
    by (rule_tac mp_cases [OF r]; cases leap) (simp_all add: mstart_def MONTHDAYS_def)
qed

lemma doy_of_month:
  assumes "1 \<le> mo" "mo \<le> 12" "1 \<le> d" "d \<le> MONTHDAYS leap ! nat mo - MONTHDAYS leap ! (nat mo - 1)"
    and "mp = (if mo > 2 then mo - 3 else mo + 9)"
  shows "(5 * (mstart mp + d - 1) + 2) div 153 = mp" "0 \<le> mstart mp + d - 1"
    "mstart mp + d - 1 < 365 + of_bool leap"
proof -
  have "0 \<le> mstart mp + d - 1 \<and> mstart mp + d - 1 < 365 + of_bool leap
     \<and> mstart mp \<le> mstart mp + d - 1 \<and> mstart mp + d - 1 < mstart (mp + 1)"
    using assms(3-)
    by (rule_tac month_cases [OF assms(1,2)]; cases leap) (simp_all add: mstart_def MONTHDAYS_def)
  then show "(5 * (mstart mp + d - 1) + 2) div 153 = mp" "0 \<le> mstart mp + d - 1"
    "mstart mp + d - 1 < 365 + of_bool leap" using mp_unique by blast+
qed

lemma date_leap_year_period: "date_leap_year (y + 400 * k) = date_leap_year y"
proof -
  have "(y + 400 * k) mod 4 = y mod 4" "(y + 400 * k) mod 100 = y mod 100"
    using mod_mult_self2 [of y 4 "100 * k"] mod_mult_self2 [of y 100 "4 * k"]
    by (simp_all add: mult.assoc [symmetric])
  then show ?thesis by (simp add: date_leap_year_iff)
qed

text \<open>A civil date in any year, and its day number in the March calendar.\<close>

definition valid_civil :: "int \<Rightarrow> int \<Rightarrow> int \<Rightarrow> bool" where
  "valid_civil y m d \<longleftrightarrow> 1 \<le> m \<and> m \<le> 12 \<and> 1 \<le> d \<and> d \<le> days_in_month y (nat m)"

text \<open>The two functions on the decomposition \<open>(era, yoe, doy)\<close> of a day.\<close>

lemma civil_of_days_decomp:
  assumes y: "0 \<le> yoe" "yoe < 400" and doy: "0 \<le> doy" "doy < ylen yoe"
    and z: "days + 730425 = era * 146097 + ystart yoe + doy"
    and mp: "mp = (5 * doy + 2) div 153" and mo: "mo = (if mp < 10 then mp + 3 else mp - 9)"
  shows "civil_of_days days =
    (yoe + era * 400 + (if mo \<le> 2 then 1 else 0), mo, doy - mstart mp + 1)"
proof -
  define doe where "doe = ystart yoe + doy"
  note ye = yoe_of_year [OF y doy]
  have doe: "0 \<le> doe" "doe \<le> 146096" using ye doy by (simp_all add: doe_def)
  have zz: "days + 10957 + 719468 = doe + era * 146097" using z by (simp add: doe_def)
  have era: "(if days + 10957 + 719468 \<ge> 0 then days + 10957 + 719468
      else days + 10957 + 719468 - 146096) sdiv 146097 = era"
    unfolding zz using sdiv_floor_shift [of 146097 "doe + era * 146097"] doe
    by (simp split: if_splits)
  have l: "ylen yoe \<le> 366" by (simp add: ylen_def)
  have c: "month_check (date_leap_year (yoe + 1)) doy"
    using doy by (intro month_of_doy) (simp_all add: ylen_def)
  have m: "0 \<le> mp" "mp \<le> 11" "1 \<le> doy - mstart mp + 1" "1 \<le> mo"
    using c unfolding month_check_def Let_def mp [symmetric] mo [symmetric] by auto
  have ms: "0 \<le> mstart mp" using m by (simp add: mstart_def)
  have w1: "wrap_u64 (doe + era * 146097 - era * 146097) = doe"
    using doe by (simp add: wrap_u64_def)
  have w2: "wrap_u64 (doe - doe div 1460 + doe div 36524 - doe div 146096) div 365 = yoe"
  proof -
    have "0 \<le> doe - doe div 1460 + doe div 36524 - doe div 146096" using doe by linarith
    moreover have "doe - doe div 1460 + doe div 36524 - doe div 146096 < 2 ^ 64" using doe by simp
    ultimately show ?thesis using ye(1) by (simp add: wrap_u64_id yoe_of_def doe_def)
  qed
  have w3: "wrap_u64 (365 * yoe + yoe div 4 - yoe div 100) = ystart yoe"
    using ye(2,3) doy by (simp add: ystart_def wrap_u64_def)
  have w4: "wrap_u64 (doe - ystart yoe) = doy" using doy l by (simp add: doe_def wrap_u64_def)
  have w5: "wrap_u64 (5 * doy + 2) div 153 = mp" using doy l by (simp add: mp wrap_u64_def)
  have w6: "wrap_u64 (doy - wrap_u64 (153 * mp + 2) div 5 + 1) = doy - mstart mp + 1"
    using m ms doy l by (simp add: mstart_def wrap_u64_def)
  have w7: "(if mp < 10 then mp + 3 else wrap_u64 (mp - 9)) = mo"
    using m by (simp add: mo wrap_u64_def)
  show ?thesis
    unfolding civil_of_days_def Let_def era
    unfolding zz w1 w2 w3 w4 w5 w6 w7 by simp
qed

lemma days_from_civil_decomp:
  assumes v: "valid_civil y m d"
    and y': "y' = y - (if m \<le> 2 then 1 else 0)" and mp: "mp = (if m > 2 then m - 3 else m + 9)"
  shows "days_from_civil y m d
      = (y' div 400) * 146097 + ystart (y' mod 400) + (mstart mp + d - 1) - 730425"
    "0 \<le> mstart mp + d - 1" "mstart mp + d - 1 < ylen (y' mod 400)"
proof -
  define L where "L = date_leap_year y"
  have vm: "1 \<le> m" "m \<le> 12" "1 \<le> d" "d \<le> MONTHDAYS L ! nat m - MONTHDAYS L ! (nat m - 1)"
    using v by (auto simp: valid_civil_def days_in_month_def L_def)
  note dm = doy_of_month [OF vm mp]
  show pos: "0 \<le> mstart mp + d - 1" using dm by simp
  have ms: "0 \<le> mstart mp" using vm mp by (auto simp: mstart_def)
  have d31: "mstart mp + d - 1 < 366" using dm(3) by (cases L) simp_all
  have ylen_eq: "ylen (y' mod 400) = 365 + of_bool (date_leap_year (y' + 1))"
  proof -
    have "y' + 1 = (y' mod 400 + 1) + 400 * (y' div 400)" by simp
    then have "date_leap_year (y' + 1) = date_leap_year (y' mod 400 + 1)"
      by (metis date_leap_year_period)
    then show ?thesis by (simp add: ylen_def)
  qed
  show lt: "mstart mp + d - 1 < ylen (y' mod 400)"
  proof (cases "m \<le> 2")
    case True
    then show ?thesis using dm(3) y' unfolding ylen_eq L_def by simp
  next
    case False
    then have "mp \<le> 9" using vm mp by simp
    moreover have "d \<le> 31"
    proof -
      have "MONTHDAYS L ! nat m - MONTHDAYS L ! (nat m - 1) \<le> 31"
        by (rule month_cases [OF vm(1,2)]; cases L; simp add: MONTHDAYS_def)
      then show ?thesis using vm by simp
    qed
    ultimately have "mstart mp + d - 1 < 365" by (simp add: mstart_def)
    then show ?thesis unfolding ylen_eq by simp
  qed
  have era: "(if y' \<ge> 0 then y' else y' - 399) sdiv 400 = y' div 400"
    using sdiv_floor_shift [of 400 y'] by (simp split: if_splits)
  have r: "0 \<le> y' mod 400" "y' mod 400 < 400" by simp_all
  have ys: "0 \<le> ystart (y' mod 400)" "ystart (y' mod 400) \<le> 146096"
    using yoe_of_year [OF r pos lt] pos by simp_all
  have w1: "wrap_u64 (y' - y' div 400 * 400) = y' mod 400"
    using r by (simp add: minus_div_mult_eq_mod wrap_u64_def)
  have w2: "wrap_u64 (if m > 2 then m - 3 else m + 9) = mp"
    using vm by (simp add: mp wrap_u64_def)
  have w3: "wrap_u64 (wrap_u64 (153 * mp + 2) div 5 + d - 1) = mstart mp + d - 1"
    using vm mp pos d31 by (simp add: mstart_def wrap_u64_def)
  have w4: "wrap_u64 ((y' mod 400) * 365 + y' mod 400 div 4 - y' mod 400 div 100 + (mstart mp + d - 1))
      = ystart (y' mod 400) + (mstart mp + d - 1)"
    using ys pos d31 by (simp add: ystart_def wrap_u64_def algebra_simps)
  show "days_from_civil y m d
      = (y' div 400) * 146097 + ystart (y' mod 400) + (mstart mp + d - 1) - 730425"
    unfolding days_from_civil_def Let_def y' [symmetric] era w1 w2 w3 w4 by simp
qed

lemma civil_of_days_from_civil:
  assumes v: "valid_civil y m d"
  shows "civil_of_days (days_from_civil y m d) = (y, m, d)"
proof -
  define y' where "y' = y - (if m \<le> 2 then 1 else 0)"
  define mp where "mp = (if m > 2 then m - 3 else m + 9)"
  note dc = days_from_civil_decomp [OF v y'_def mp_def]
  have vm: "1 \<le> m" "m \<le> 12" "1 \<le> d"
    "d \<le> MONTHDAYS (date_leap_year y) ! nat m - MONTHDAYS (date_leap_year y) ! (nat m - 1)"
    using v by (auto simp: valid_civil_def days_in_month_def)
  note dm = doy_of_month [OF vm mp_def]
  have "civil_of_days (days_from_civil y m d) =
     (y' mod 400 + y' div 400 * 400 + (if m \<le> 2 then 1 else 0), m, (mstart mp + d - 1) - mstart mp + 1)"
    by (rule civil_of_days_decomp) (use dc dm vm in \<open>auto simp: mp_def\<close>)
  moreover have "y' mod 400 + y' div 400 * 400 = y'" by simp
  ultimately show ?thesis by (simp add: y'_def)
qed

lemma days_from_civil_of_days:
  "\<exists>y m d. civil_of_days days = (y, m, d) \<and> valid_civil y m d \<and> days_from_civil y m d = days"
proof -
  define z where "z = days + 730425"
  have "0 \<le> z mod 146097" "z mod 146097 \<le> 146096" by (simp_all add: zle_diff1_eq [symmetric])
  then obtain yoe doy where yd: "0 \<le> yoe" "yoe < 400" "0 \<le> doy" "doy < ylen yoe"
    "z mod 146097 = ystart yoe + doy" using doe_decompose by blast
  define era where "era = z div 146097"
  define mp where "mp = (5 * doy + 2) div 153"
  define mo where "mo = (if mp < 10 then mp + 3 else mp - 9)"
  define y where "y = yoe + era * 400 + (if mo \<le> 2 then 1 else 0)"
  define d where "d = doy - mstart mp + 1"
  have z: "days + 730425 = era * 146097 + ystart yoe + doy"
    using div_mult_mod_eq [of z 146097] yd(5) unfolding z_def era_def by linarith
  have civ: "civil_of_days days = (y, mo, d)"
    unfolding y_def d_def by (rule civil_of_days_decomp [OF yd(1-4) z mp_def mo_def])
  have c: "month_check (date_leap_year (yoe + 1)) doy"
    using yd by (intro month_of_doy) (simp_all add: ylen_def)
  have m: "0 \<le> mp" "mp \<le> 11" "1 \<le> d" "1 \<le> mo" "mo \<le> 12"
    "d \<le> MONTHDAYS (date_leap_year (yoe + 1)) ! nat mo
          - MONTHDAYS (date_leap_year (yoe + 1)) ! (nat mo - 1)"
    using c unfolding month_check_def Let_def mp_def [symmetric] mo_def [symmetric] d_def [symmetric]
    by auto
  have "valid_civil y mo d"
  proof (cases "mo \<le> 2")
    case True
    then have "y = (yoe + 1) + 400 * era" by (simp add: y_def)
    then have "date_leap_year y = date_leap_year (yoe + 1)" by (simp only: date_leap_year_period)
    then show ?thesis using m by (simp add: valid_civil_def days_in_month_def)
  next
    case False
    have "MONTHDAYS L ! nat mo - MONTHDAYS L ! (nat mo - 1)
        = MONTHDAYS L' ! nat mo - MONTHDAYS L' ! (nat mo - 1)" for L L'
      using False
      by (rule_tac month_cases [OF m(4,5)]; cases L; cases L'; simp add: MONTHDAYS_def)
    then show ?thesis using m unfolding valid_civil_def days_in_month_def by metis
  qed
  moreover have "days_from_civil y mo d = days"
  proof -
    have mp': "mp = (if mo > 2 then mo - 3 else mo + 9)" using m by (simp add: mo_def)
    have y': "yoe + era * 400 = y - (if mo \<le> 2 then 1 else 0)" by (simp add: y_def)
    have "(yoe + era * 400) div 400 = era" "(yoe + era * 400) mod 400 = yoe" using yd by simp_all
    then show ?thesis
      using days_from_civil_decomp(1) [OF \<open>valid_civil y mo d\<close> y' mp'] z by (simp add: d_def)
  qed
  ultimately show ?thesis using civ by blast
qed

text \<open>The March calendar counts the same days as \<^verbatim>\<open>cal.h\<close>.\<close>

lemma days_from_civil_ydays:
  assumes v: "valid_civil y m d"
  shows "days_from_civil y m d
    = ydays (y - 1) + MONTHDAYS (date_leap_year y) ! (nat m - 1) + d - 1 - 730119"
proof -
  define y' where "y' = y - (if m \<le> 2 then 1 else 0)"
  define mp where "mp = (if m > 2 then m - 3 else m + 9)"
  define L where "L = date_leap_year y"
  have vm: "1 \<le> m" "m \<le> 12" using v by (auto simp: valid_civil_def)
  have ys: "(y' div 400) * 146097 + ystart (y' mod 400) = ydays y'"
  proof -
    define k where "k = y' div 400"
    define r where "r = y' mod 400"
    have y: "y' = r + 400 * k" by (simp add: k_def r_def)
    have e: "r + 400 * k = r + 4 * (100 * k)" "r + 400 * k = r + 100 * (4 * k)" by simp_all
    have d: "(r + 400 * k) div 4 = r div 4 + 100 * k" unfolding e(1) by (subst div_mult_self2) simp_all
    have c: "(r + 400 * k) div 100 = r div 100 + 4 * k" unfolding e(2) by (subst div_mult_self2) simp_all
    have q: "(r + 400 * k) div 400 = k" by (subst div_mult_self2) (simp_all add: r_def)
    have "ydays (r + 400 * k) = 146097 * k + ystart r"
      unfolding ydays_def ystart_def d c q by (simp add: algebra_simps)
    then show ?thesis
      unfolding k_def r_def by (simp only: mod_mult_div_eq mult.commute [of 146097])
  qed
  have "ydays y' + mstart mp - 306 = ydays (y - 1) + MONTHDAYS L ! (nat m - 1)"
  proof (cases "m \<le> 2")
    case True
    then have "m = 1 \<or> m = 2" using vm by linarith
    then show ?thesis by (auto simp: y'_def mp_def mstart_def MONTHDAYS_def)
  next
    case False
    have "mstart mp + 59 + of_bool L = MONTHDAYS L ! (nat m - 1)"
      using False
      by (rule_tac month_cases [OF vm]; cases L; simp add: mp_def mstart_def MONTHDAYS_def)
    then show ?thesis using False ydays_Suc [of "y - 1"] by (simp add: y'_def L_def)
  qed
  then show ?thesis
    using days_from_civil_decomp(1) [OF v y'_def mp_def] ys by (simp add: L_def)
qed

section \<open>The row loops\<close>

definition row_value :: "(int \<Rightarrow> int option) \<Rightarrow> rvec \<Rightarrow> bool \<Rightarrow> int \<Rightarrow> int option" where
  "row_value kern input hn i =
     (if hn \<and> rvec_is_null input i then Some NULL_I64
      else (case rvec_cell input i of CI raw \<Rightarrow> kern raw | _ \<Rightarrow> None))"

text \<open>The result of writing row \<open>i\<close>: the cell, and the null flag where the row is null.\<close>

definition row_update :: "rvec \<Rightarrow> bool \<Rightarrow> int \<Rightarrow> int \<Rightarrow> vec \<Rightarrow> vec" where
  "row_update input hn i v res =
     res\<lparr>v_cells := (v_cells res)[nat i := CI v],
         v_has_nulls := v_has_nulls res \<or> (hn \<and> rvec_is_null input i)\<rparr>"

definition out_vec :: "int \<Rightarrow> vec \<Rightarrow> bool" where
  "out_vec n res \<longleftrightarrow> (v_type res = RAY_I64 \<or> v_type res = RAY_TIMESTAMP)
     \<and> \<not> v_sorted res \<and> \<not> v_has_index res \<and> int (length (v_cells res)) = n"

lemma out_vec_row_update [simp]: "out_vec n (row_update input hn i v res) = out_vec n res"
  by (simp add: out_vec_def row_update_def)

lemma row_step_eq:
  assumes "out_vec n res" "0 \<le> i" "i < n"
  shows "row_step kern input hn i i res =
    map_option (\<lambda>v. row_update input hn i v res) (row_value kern input hn i)"
proof (cases "hn \<and> rvec_is_null input i")
  case True
  have "store_null res i = row_update input hn i NULL_I64 res"
    using assms True
    by (auto simp: store_null_def store_cell_def rvec_set_null_def row_update_def out_vec_def
        vec_drop_index_inplace_def null_cell_def Let_def)
  then show ?thesis using True by (simp add: row_step_def row_value_def)
next
  case False
  have "v_has_nulls res = (v_has_nulls res \<or> (hn \<and> rvec_is_null input i))" using False by auto
  then show ?thesis
    using False
    by (auto simp: row_step_def row_value_def row_update_def store_cell_def map_option_case
        split: cell.splits option.splits)
qed

lemma row_loop_append:
  "row_loop kern input hn (xs @ ys) res
     = Option.bind (row_loop kern input hn xs res) (row_loop kern input hn ys)"
proof (induction xs arbitrary: res)
  case (Cons x xs)
  then show ?case by (cases x) (auto split: Option.bind_splits)
qed simp

text \<open>The whole column: every cell is the row's value, or some row's kernel has no value.\<close>

lemma row_loop_upto:
  assumes "out_vec n res" "0 \<le> k" "k \<le> n"
    and "\<And>i. 0 \<le> i \<Longrightarrow> i < k \<Longrightarrow> row_value kern input hn i \<noteq> None"
  shows "row_loop kern input hn (map (\<lambda>i. (i, i)) [0..k - 1]) res =
    Some (res\<lparr>v_cells := map (\<lambda>i. CI (the (row_value kern input hn (int i)))) [0..<nat k]
                           @ drop (nat k) (v_cells res),
              v_has_nulls := v_has_nulls res \<or> (\<exists>i. 0 \<le> i \<and> i < k \<and> hn \<and> rvec_is_null input i)\<rparr>)"
  using assms(2-)
proof (induction k rule: int_ge_induct)
  case base
  have e: "(\<exists>i\<ge>0. i < (0::int) \<and> hn \<and> rvec_is_null input i) = False" by auto
  show ?case unfolding e by simp
next
  case (step k)
  define res' where "res' = res\<lparr>v_cells :=
      map (\<lambda>i. CI (the (row_value kern input hn (int i)))) [0..<nat k] @ drop (nat k) (v_cells res),
      v_has_nulls := v_has_nulls res \<or> (\<exists>i. 0 \<le> i \<and> i < k \<and> hn \<and> rvec_is_null input i)\<rparr>"
  have IH: "row_loop kern input hn (map (\<lambda>i. (i, i)) [0..k - 1]) res = Some res'"
    unfolding res'_def using step by simp
  have len: "nat k < length (v_cells res)" using step(1,3) assms(1) by (auto simp: out_vec_def)
  have o: "out_vec n res'" using assms(1) len by (auto simp: out_vec_def res'_def)
  obtain v where v: "row_value kern input hn k = Some v" using step(4) [of k] step(1) by auto
  have one: "row_loop kern input hn [(k, k)] res' = Some (row_update input hn k v res')"
    using row_step_eq [OF o, of k kern input hn] step(1,3) v by simp
  have split: "[0..k + 1 - 1] = [0..k - 1] @ [k]" using step(1) by (simp add: upto_rec2)
  have upd: "(map (\<lambda>i. CI (the (row_value kern input hn (int i)))) [0..<nat k]
        @ drop (nat k) (v_cells res))[nat k := CI v]
      = map (\<lambda>i. CI (the (row_value kern input hn (int i)))) [0..<nat (k + 1)]
        @ drop (nat (k + 1)) (v_cells res)"
    using step(1) v len
    by (simp add: nat_add_distrib list_update_append Cons_nth_drop_Suc [symmetric])
  have ex: "(\<exists>i\<ge>0. i < k \<and> hn \<and> rvec_is_null input i) \<or> (hn \<and> rvec_is_null input k)
      \<longleftrightarrow> (\<exists>i\<ge>0. i < k + 1 \<and> hn \<and> rvec_is_null input i)"
    using step(1) by (metis zless_add1_eq)
  have "row_loop kern input hn (map (\<lambda>i. (i, i)) [0..k + 1 - 1]) res
      = Some (row_update input hn k v res')"
    unfolding split map_append row_loop_append IH Option.bind.bind_lunit
    using one by simp
  also have "row_update input hn k v res' = res\<lparr>v_cells :=
      map (\<lambda>i. CI (the (row_value kern input hn (int i)))) [0..<nat (k + 1)]
        @ drop (nat (k + 1)) (v_cells res),
      v_has_nulls := v_has_nulls res \<or> (\<exists>i. 0 \<le> i \<and> i < k + 1 \<and> hn \<and> rvec_is_null input i)\<rparr>"
    unfolding row_update_def res'_def using upd ex by (auto simp: disj_assoc)
  finally show ?case .
qed

text \<open>The morsel loop visits the same rows in the same order.\<close>

lemma morsel_rows_eq:
  assumes "m_offset m + m_morsel_len m \<le> m_len m"
  shows "morsel_rows kern input hn (morsel_chunks m) (m_offset m + m_morsel_len m) res
    = row_loop kern input hn (map (\<lambda>i. (i, i)) [m_offset m + m_morsel_len m..m_len m - 1]) res"
  using assms
proof (induction m arbitrary: res rule: morsel_chunks.induct)
  case (1 m)
  show ?case
  proof (cases "ray_morsel_next m")
    case (Pair b m')
    show ?thesis
    proof (cases b)
      case True
      have nx: "ray_morsel_next m = (True, m')" using Pair True by simp
      note p = ray_morsel_next_progress [OF nx]
      let ?o = "m_offset m'" and ?n = "m_morsel_len m'"
      have le: "?o + ?n \<le> m_len m'" using p by auto
      have IH: "morsel_rows kern input hn (morsel_chunks m') (?o + ?n) r
          = row_loop kern input hn (map (\<lambda>i. (i, i)) [?o + ?n..m_len m' - 1]) r" for r
        by (rule "1.IH" [OF nx [symmetric] refl le])
      have cs: "morsel_chunks m = (?o, ?n, m_null_bits m') # morsel_chunks m'"
        using nx by (subst morsel_chunks.simps) simp
      have rows: "map (\<lambda>i. (?o + i, ?o + i)) [0..?n - 1] = map (\<lambda>i. (i, i)) [?o..?o + ?n - 1]"
        by (rule nth_equalityI) auto
      have all: "map (\<lambda>i. (i, i)) [?o..m_len m' - 1]
          = map (\<lambda>i. (i, i)) [?o..?o + ?n - 1] @ map (\<lambda>i. (i, i)) [?o + ?n..m_len m' - 1]"
        unfolding map_append [symmetric] using p(6) by (subst upto_append) (use le in auto)
      show ?thesis
        unfolding cs p(1) [symmetric] p(3) [symmetric] all row_loop_append
        by (simp add: rows IH [abs_def])
    next
      case False
      then have "m_offset m + m_morsel_len m \<ge> m_len m"
        using Pair by (auto simp: ray_morsel_next_def Let_def split: if_splits)
      then show ?thesis
        using Pair False 1(2) by (subst morsel_chunks.simps) simp
    qed
  qed
qed

lemma rte_rows_eq:
  "rte_rows kern input hn is res = row_loop kern input hn (map (\<lambda>i. (i, i)) is) res"
proof (induction "is" arbitrary: res)
  case (Cons i "is")
  have "rte_row kern input hn i res = row_step kern input hn i i res"
    by (simp add: rte_row_def row_step_def)
  then show ?case by (cases "row_step kern input hn i i res") (simp_all add: Cons.IH)
qed simp

lemma case_Let: "(case Let a b of (y, m, d) \<Rightarrow> f y m d) = Let a (\<lambda>x. case b x of (y, m, d) \<Rightarrow> f y m d)"
  by simp

lemma extract_inner_calendar:
  assumes "field \<noteq> RAY_EXTRACT_EPOCH" "field \<noteq> RAY_EXTRACT_HOUR" "field \<noteq> RAY_EXTRACT_MINUTE"
    "field \<noteq> RAY_EXTRACT_SECOND"
  shows "extract_inner field us = rte_extract_one us field"
  unfolding extract_inner_def rte_extract_one_def days_since_2000_def civil_of_days_def
    extract_dbm_def dbm_def case_Let prod.case if_not_P [OF assms(1)] if_not_P [OF assms(2)]
    if_not_P [OF assms(3)] if_not_P [OF assms(4)]
  by (rule refl)

lemma extract_inner_eq: "extract_inner field = (\<lambda>us. rte_extract_one us field)"
proof
  fix us
  consider "field = RAY_EXTRACT_EPOCH" | "field = RAY_EXTRACT_HOUR" | "field = RAY_EXTRACT_MINUTE"
    | "field = RAY_EXTRACT_SECOND"
    | "field \<noteq> RAY_EXTRACT_EPOCH" "field \<noteq> RAY_EXTRACT_HOUR" "field \<noteq> RAY_EXTRACT_MINUTE"
      "field \<noteq> RAY_EXTRACT_SECOND" by blast
  then show "extract_inner field us = rte_extract_one us field"
  proof cases
    case 5
    then show ?thesis by (rule extract_inner_calendar)
  qed (simp_all add: extract_inner_def rte_extract_one_def day_us_def Let_def)
qed

lemma date_trunc_us_clock:
  "date_trunc_us RAY_EXTRACT_SECOND us = trunc_us USEC_PER_SEC us"
  "date_trunc_us RAY_EXTRACT_MINUTE us = trunc_us USEC_PER_MIN us"
  "date_trunc_us RAY_EXTRACT_HOUR us = trunc_us USEC_PER_HOUR us"
  "date_trunc_us RAY_EXTRACT_DAY us = trunc_us USEC_PER_DAY us"
  by (simp_all add: date_trunc_us_def trunc_us_def)

lemma date_trunc_us_calendar:
  "date_trunc_us RAY_EXTRACT_MONTH us =
     (case civil_of_days (days_since_2000 us) of (y, mo, _) \<Rightarrow>
        chk_i64 (days_from_civil y mo 1 * USEC_PER_DAY))"
  "date_trunc_us RAY_EXTRACT_YEAR us =
     (case civil_of_days (days_since_2000 us) of (y, mo, _) \<Rightarrow>
        chk_i64 (days_from_civil y 1 1 * USEC_PER_DAY))"
  unfolding date_trunc_us_def days_since_2000_def civil_of_days_def case_Let prod.case
  by (simp_all only: one_eq_numeral_iff zero_neq_numeral zero_neq_one num.distinct simp_thms if_True if_False)
    (simp_all only: Let_def)

lemma exec_to_us_eq: "is_temporal t \<Longrightarrow> exec_to_us t = rte_to_us t"
  by (auto simp: is_temporal_def exec_to_us_def rte_to_us_def fun_eq_iff)

lemma trunc_us_eq:
  assumes "0 < bucket" "i64_ok us" "i64_ok (us div bucket * bucket)" "i64_ok (us - us smod bucket)"
  shows "trunc_us bucket us = Some (us div bucket * bucket)"
  using assms smod_floor_sub [OF assms(1), of us]
  by (auto simp: trunc_us_def Let_def chk_i64_ok)

lemma days_since_2000_eq: "days_since_2000 us = us div 86400000000"
  unfolding days_since_2000_def by (rule sdiv_floor_adjust) simp

lemma day_us_eq: "day_us us = us mod 86400000000"
  using smod_wrap_pos [of 86400000000 us] by (simp add: day_us_def Let_def)

lemma extract_civil:
  assumes "civil_of_days (us div 86400000000) = (y, m, d)"
  shows "rte_extract_one us RAY_EXTRACT_YEAR = y" "rte_extract_one us RAY_EXTRACT_MONTH = m"
    "rte_extract_one us RAY_EXTRACT_DAY = d"
  using assms by (simp_all add: rte_extract_one_def days_since_2000_eq)

lemma smod7_shift: "((d smod 7) + 7 + 5) smod 7 = (d + 5) mod 7" for d :: int
proof -
  have b: "-7 < d smod 7" "d smod 7 < 7" by (auto simp: signed_modulo_int_def sgn_if)
  have "((d smod 7) + 7 + 5) smod 7 = ((d smod 7) + 12) mod 7"
    using b by (subst smod_nonneg) (simp_all add: algebra_simps)
  also have "\<dots> = (d mod 7 + 12) mod 7"
  proof (cases "d smod 7 < 0")
    case True
    then have e: "d mod 7 + 12 = (d smod 7 + 12) + 7" using smod_wrap_pos [of 7 d] by simp
    show ?thesis unfolding e by (rule mod_add_self2 [symmetric])
  qed (use smod_wrap_pos [of 7 d] in simp)
  also have "\<dots> = (d + 5) mod 7"
    using mod_add_self2 [of "d + 5" 7] mod_add_left_eq [of d 7 12] by (simp add: add.assoc)
  finally show ?thesis .
qed

lemma extract_clock:
  "rte_extract_one us RAY_EXTRACT_HOUR = us mod 86400000000 div 3600000000"
  "rte_extract_one us RAY_EXTRACT_MINUTE = us mod 86400000000 mod 3600000000 div 60000000"
  "rte_extract_one us RAY_EXTRACT_SECOND = us mod 86400000000 mod 60000000 div 1000000"
  by (simp_all add: rte_extract_one_def day_us_eq sdiv_nonneg smod_nonneg)

lemma extract_dow: "rte_extract_one us RAY_EXTRACT_DOW = (us div 86400000000 + 5) mod 7 + 1"
proof -
  obtain y mo dd where "civil_of_days (us div 86400000000) = (y, mo, dd)" by (metis prod_cases3)
  then show ?thesis using smod7_shift [of "us div 86400000000"] by (simp add: rte_extract_one_def days_since_2000_eq)
qed

lemma days_in_month_pos: "1 \<le> m \<Longrightarrow> m \<le> 12 \<Longrightarrow> 1 \<le> days_in_month y (nat m)"
  by (rule month_cases [of m]; cases "date_leap_year y"; simp add: days_in_month_def MONTHDAYS_def)

lemma exec_rows_eq:
  assumes "0 \<le> rvec_len r"
  shows "morsel_rows kern r hn (morsel_chunks (ray_morsel_init r)) 0 res
    = row_loop kern r hn (map (\<lambda>i. (i, i)) [0..rvec_len r - 1]) res"
  using morsel_rows_eq [of "ray_morsel_init r" kern r hn res] assms
  by (simp add: ray_morsel_init_def)

lemma rvec_len_nonneg: "rvec_ok r \<Longrightarrow> 0 \<le> rvec_len r"
  by (cases r) auto

lemma rvec_is_null_src: "rvec_is_null r i \<Longrightarrow> rvec_src_has_nulls r"
  by (cases r) (auto simp: vec_is_null_def vec_any_nulls_def rvec_src_has_nulls_def split: if_splits)

lemma date_trunc_kernel_eq:
  assumes "is_temporal t" "field = RAY_EXTRACT_DAY \<or> field = RAY_EXTRACT_SECOND"
  shows "date_trunc_kernel t field = truncate_kernel t (trunc_bucket field)"
  using assms(2)
  by (auto simp: date_trunc_kernel_def truncate_kernel_def date_trunc_us_clock trunc_bucket_def
      exec_to_us_eq [OF assms(1)] rte_us_to_ts_raw_def fun_eq_iff)

text \<open>The instant of a row in microseconds.\<close>

definition row_us :: "rvec \<Rightarrow> int \<Rightarrow> int option" where
  "row_us r i = (case rvec_cell r i of CI raw \<Rightarrow> rte_to_us (rvec_type r) raw | _ \<Rightarrow> None)"

lemma neg_ceil_div: "- ((- x + 999) div 1000) = x div (1000::int)"
proof -
  have x: "x = x div 1000 * 1000 + x mod 1000" by simp
  have "- x + 999 = (999 - x mod 1000) + (- (x div 1000)) * 1000" using x by linarith
  then have "(- x + 999) div 1000 = (999 - x mod 1000) div 1000 + - (x div 1000)"
    by (simp only: div_mult_self1 [of 1000] zero_neq_numeral not_False_eq_True)
  moreover have "(999 - x mod 1000) div 1000 = 0" by (rule div_pos_pos_trivial) simp_all
  ultimately show ?thesis by simp
qed

lemma rte_to_us_timestamp:
  assumes "-9223372036854774000 \<le> raw" "i64_ok raw"
  shows "rte_to_us RAY_TIMESTAMP raw = Some (raw div 1000)"
proof (cases "raw \<ge> 0")
  case False
  then have "chk_i64 (- raw) = Some (- raw)" "chk_i64 (- raw + 999) = Some (- raw + 999)"
    using assms by (auto simp: chk_i64_def i64_ok_def)
  then show ?thesis using False neg_ceil_div [of raw] by (simp add: rte_to_us_def sdiv_nonneg)
qed (simp add: rte_to_us_def sdiv_nonneg)

section \<open>Properties\<close>

text \<open>
  Encoding a valid civil date of any year and decoding it gives the date back.
\<close>

theorem civil_date_roundtrip:
  assumes "valid_civil y m d"
  shows "civil_of_days (days_from_civil y m d) = (y, m, d)"
  by (rule civil_of_days_from_civil [OF assms])

theorem civil_date_roundtrip_witness:
  "valid_civil (-44) 3 15 \<and> civil_of_days (days_from_civil (-44) 3 15) = (-44, 3, 15)"
proof -
  have v: "valid_civil (-44) 3 15"
    by (simp add: valid_civil_def days_in_month_def MONTHDAYS_def)
  show ?thesis using v civil_date_roundtrip [OF v] by blast
qed

text \<open>
  The two calendars of the program agree: the year, month and day that the executor's kernel
  extracts from any instant of a day are the ones the formatter's \<^verbatim>\<open>cal.h\<close> decoder gives.
\<close>

theorem extract_agrees_with_cal:
  assumes "-730119 \<le> days" "days < 2146753336" "0 \<le> t" "t < USEC_PER_DAY"
  shows "date_to_ymd days =
    Some (rte_extract_one (days * USEC_PER_DAY + t) RAY_EXTRACT_YEAR,
          rte_extract_one (days * USEC_PER_DAY + t) RAY_EXTRACT_MONTH,
          rte_extract_one (days * USEC_PER_DAY + t) RAY_EXTRACT_DAY)"
proof -
  obtain y m d where c: "civil_of_days days = (y, m, d)" "valid_civil y m d"
    "days_from_civil y m d = days"
    using days_from_civil_of_days by blast
  have D: "days = ydays (y - 1) + MONTHDAYS (date_leap_year y) ! (nat m - 1) + d - 1 - 730119"
    using days_from_civil_ydays [OF c(2)] c(3) by simp
  define r where "r = MONTHDAYS (date_leap_year y) ! (nat m - 1) + d - 1"
  have r: "0 \<le> r" "r < 365 + of_bool (date_leap_year y)"
  proof -
    have vm: "1 \<le> m" "m \<le> 12" "1 \<le> d" "d \<le> days_in_month y (nat m)"
      using c(2) by (auto simp: valid_civil_def)
    have "nat m - 1 \<le> 12" using vm by linarith
    from monthdays_range [OF this, of "date_leap_year y"] show "0 \<le> r" using vm by (simp add: r_def)
    have "MONTHDAYS L ! nat m \<le> MONTHDAYS L ! 12" for L
      by (rule month_cases [OF vm(1,2)]; cases L; simp add: MONTHDAYS_def)
    then have "MONTHDAYS (date_leap_year y) ! nat m \<le> 365 + of_bool (date_leap_year y)"
      unfolding monthdays_12 .
    then show "r < 365 + of_bool (date_leap_year y)"
      using vm by (simp add: r_def days_in_month_def)
  qed
  have yr: "1 \<le> y \<and> y \<le> 5879610"
  proof (rule ccontr)
    assume "\<not> ?thesis"
    then consider "y \<le> 0" | "5879611 \<le> y" by linarith
    then show False
    proof cases
      case 1
      then have "ydays y \<le> ydays 0" by (intro ydays_mono)
      moreover have "ydays 0 = 0" by (simp add: ydays_def)
      ultimately show False using ydays_Suc [of "y - 1"] r D assms by (simp add: r_def)
    next
      case 2
      then have "ydays 5879610 \<le> ydays (y - 1)" by (intro ydays_mono) simp
      moreover have "ydays 5879610 = 2147483455" by (simp add: ydays_def)
      ultimately show False using r D assms by (simp add: r_def)
    qed
  qed
  have v: "valid_ymd y m d" using c(2) yr by (simp add: valid_ymd_def valid_civil_def)
  have "(days * 86400000000 + t) div 86400000000 = days" using assms by simp
  then show ?thesis
    using extract_civil [of "days * 86400000000 + t" y m d] c(1) date_to_ymd_eq [OF v D] by simp
qed

theorem extract_agrees_with_cal_witness:
  "(-730119 \<le> (-1::int) \<and> (-1::int) < 2146753336 \<and> (0::int) \<le> 5 \<and> 5 < USEC_PER_DAY) \<and>
   date_to_ymd (-1) =
    Some (rte_extract_one (-1 * USEC_PER_DAY + 5) RAY_EXTRACT_YEAR,
          rte_extract_one (-1 * USEC_PER_DAY + 5) RAY_EXTRACT_MONTH,
          rte_extract_one (-1 * USEC_PER_DAY + 5) RAY_EXTRACT_DAY)"
proof -
  have h: "-730119 \<le> (-1::int)" "(-1::int) < 2146753336" "(0::int) \<le> 5" "5 < USEC_PER_DAY"
    by simp_all
  show ?thesis using h extract_agrees_with_cal [OF h] by blast
qed

text \<open>
  The clock fields, for instants before and after the epoch: an instant composed of a day,
  hour, minute, second and microseconds yields exactly these, and the weekday field counts the
  ISO weekdays (1 to 7, 2000-01-01 being a Saturday).
\<close>

theorem extract_clock_fields:
  assumes "0 \<le> h" "h < 24" "0 \<le> mi" "mi < 60" "0 \<le> s" "s < 60" "0 \<le> f" "f < USEC_PER_SEC"
    and "us = days * USEC_PER_DAY + h * USEC_PER_HOUR + mi * USEC_PER_MIN + s * USEC_PER_SEC + f"
  shows "rte_extract_one us RAY_EXTRACT_HOUR = h \<and> rte_extract_one us RAY_EXTRACT_MINUTE = mi
    \<and> rte_extract_one us RAY_EXTRACT_SECOND = s
    \<and> rte_extract_one us RAY_EXTRACT_DOW = (days + 5) mod 7 + 1"
proof -
  define r where "r = h * 3600000000 + mi * 60000000 + s * 1000000 + f"
  have r: "0 \<le> r" "r < 86400000000" using assms by (simp_all add: r_def)
  have us: "us = r + days * 86400000000" using assms by (simp add: r_def)
  have d: "us div 86400000000 = days" "us mod 86400000000 = r" using r by (simp_all add: us)
  have m1: "r div 3600000000 = h" "r mod 3600000000 = mi * 60000000 + s * 1000000 + f"
  proof -
    have "r = (mi * 60000000 + s * 1000000 + f) + h * 3600000000" by (simp add: r_def)
    moreover have "0 \<le> mi * 60000000 + s * 1000000 + f" "mi * 60000000 + s * 1000000 + f < 3600000000"
      using assms by simp_all
    ultimately show "r div 3600000000 = h" "r mod 3600000000 = mi * 60000000 + s * 1000000 + f"
      by simp_all
  qed
  have m2: "r mod 60000000 = s * 1000000 + f"
  proof -
    have "r = (s * 1000000 + f) + (h * 60 + mi) * 60000000" by (simp add: r_def)
    moreover have "0 \<le> s * 1000000 + f" "s * 1000000 + f < 60000000" using assms by simp_all
    ultimately show ?thesis by (metis mod_mult_self1 mod_pos_pos_trivial)
  qed
  have m3: "(mi * 60000000 + s * 1000000 + f) div 60000000 = mi"
    "(s * 1000000 + f) div 1000000 = s"
  proof -
    have "mi * 60000000 + s * 1000000 + f = (s * 1000000 + f) + mi * 60000000" by simp
    then show "(mi * 60000000 + s * 1000000 + f) div 60000000 = mi"
      using assms by (simp only: div_mult_self1 zero_neq_numeral not_False_eq_True div_pos_pos_trivial add_0)
    show "(s * 1000000 + f) div 1000000 = s"
      using assms by (subst add.commute, subst div_mult_self1) simp_all
  qed
  show ?thesis
    unfolding extract_clock extract_dow d using m1 m2 m3 by simp
qed

theorem extract_clock_fields_witness:
  "rte_extract_one (-1) RAY_EXTRACT_HOUR = 23 \<and> rte_extract_one (-1) RAY_EXTRACT_MINUTE = 59
    \<and> rte_extract_one (-1) RAY_EXTRACT_SECOND = 59
    \<and> rte_extract_one (-1) RAY_EXTRACT_DOW = (-1 + 5) mod 7 + 1"
  by (rule extract_clock_fields [of 23 59 59 999999 "-1" "-1"]) simp_all

text \<open>
  The builtin rounds to a day or, for every other kind, to a second (its callers pass no other
  kind); the executor rounds to minutes, hours, months and years as well.  On those the two differ.
\<close>

lemma truncate_kinds_differ:
  "date_trunc_kernel RAY_TIMESTAMP RAY_EXTRACT_MONTH 86400000000000 = Some 0"
  "truncate_kernel RAY_TIMESTAMP (trunc_bucket RAY_EXTRACT_MONTH) 86400000000000 = Some 86400000000000"
  by code_simp+

text \<open>
  C30. The executor's morsel-by-morsel kernels, with their own copies of the conversion, of the
  field decomposition and of the rounding, agree with the standalone builtins on every temporal
  vector, slices and nulls included: the same cells, null flag and failures, for every field of the
  extraction, and for truncation to the day and to the second only (for the month, the year and the
  hour the two do different things).
\<close>

theorem exec_temporal_refines:
  assumes "is_temporal (rvec_type r)" "rvec_ok r"
  shows "exec_extract alloc (VEC r) (Some field) = ray_temporal_extract alloc (VEC r) field
    \<and> (field = RAY_EXTRACT_DAY \<or> field = RAY_EXTRACT_SECOND \<longrightarrow>
         exec_date_trunc alloc (VEC r) (Some field) = ray_temporal_truncate alloc (VEC r) field)"
proof -
  note rows = exec_rows_eq [OF rvec_len_nonneg [OF assms(2)]]
  have "exec_date_trunc alloc (VEC r) (Some field) = ray_temporal_truncate alloc (VEC r) field"
    if "field = RAY_EXTRACT_DAY \<or> field = RAY_EXTRACT_SECOND"
    unfolding exec_date_trunc_def ray_temporal_truncate_def
    by (simp add: rows rte_rows_eq assms(1) date_trunc_kernel_eq [OF assms(1) that] cong: option.case_cong)
  then show ?thesis
    using assms(1)
    by (simp add: exec_extract_def ray_temporal_extract_def rows rte_rows_eq exec_to_us_eq
        extract_inner_eq cong: option.case_cong)
qed

definition temporal_example :: rvec where
  "temporal_example = Slice \<lparr>v_type = RAY_DATE, v_has_nulls = True, v_sorted = False,
     v_has_index = False, v_cells = [CI 7, CI 59, CI NULL_I32]\<rparr> 1 2"

theorem exec_temporal_refines_witness:
  "is_temporal (rvec_type temporal_example) \<and> rvec_ok temporal_example
   \<and> exec_date_trunc (Some [CI 0, CI 0]) (VEC temporal_example) (Some RAY_EXTRACT_DAY)
       = ray_temporal_truncate (Some [CI 0, CI 0]) (VEC temporal_example) RAY_EXTRACT_DAY"
proof -
  have h: "is_temporal (rvec_type temporal_example)" "rvec_ok temporal_example"
    by (simp_all add: temporal_example_def is_temporal_def)
  show ?thesis using h exec_temporal_refines [OF h, of _ RAY_EXTRACT_DAY] by blast
qed

text \<open>
  The extracted column: with a result block of the right length, every row that is not null
  holds the field of its instant, and every null row holds the sentinel and is null in the result.
\<close>

theorem extract_rows:
  assumes "is_temporal (rvec_type r)" "rvec_ok r" "int (length mem) = rvec_len r"
    and "\<forall>i. 0 \<le> i \<and> i < rvec_len r \<and> \<not> rvec_is_null r i \<longrightarrow> row_us r i \<noteq> None"
  shows "\<exists>res. ray_temporal_extract (Some mem) (VEC r) field = Some (VEC (Own res))
    \<and> length (v_cells res) = length mem
    \<and> (\<forall>i. 0 \<le> i \<and> i < rvec_len r \<longrightarrow>
        (if rvec_is_null r i then v_cells res ! nat i = CI NULL_I64 \<and> vec_is_null res i
         else v_cells res ! nat i = CI (rte_extract_one (the (row_us r i)) field)))"
proof -
  let ?k = "\<lambda>raw. map_option (\<lambda>us. rte_extract_one us field) (rte_to_us (rvec_type r) raw)"
  let ?h = "rvec_src_has_nulls r" and ?n = "rvec_len r"
  have val: "row_value ?k r ?h i = (if rvec_is_null r i then Some NULL_I64
      else map_option (\<lambda>us. rte_extract_one us field) (row_us r i))" for i
    using rvec_is_null_src [of r i] by (auto simp: row_value_def row_us_def split: cell.splits)
  have o: "out_vec ?n (fresh_vec RAY_I64 mem)"
    using assms(3) by (simp add: out_vec_def fresh_vec_def)
  have some: "row_value ?k r ?h i \<noteq> None" if "0 \<le> i" "i < ?n" for i
    using assms(4) that by (auto simp: val)
  define res where "res = (fresh_vec RAY_I64 mem)
    \<lparr>v_cells := map (\<lambda>i. CI (the (row_value ?k r ?h (int i)))) [0..<nat ?n] @ drop (nat ?n) mem,
     v_has_nulls := \<exists>i. 0 \<le> i \<and> i < ?n \<and> ?h \<and> rvec_is_null r i\<rparr>"
  have run: "ray_temporal_extract (Some mem) (VEC r) field = Some (VEC (Own res))"
    using row_loop_upto [OF o rvec_len_nonneg [OF assms(2)] order_refl some] assms(1)
    by (simp add: ray_temporal_extract_def res_def fresh_vec_def rte_rows_eq)
  have cell: "v_cells res ! nat i = CI (the (row_value ?k r ?h i))" if "0 \<le> i" "i < ?n" for i
    using that by (simp add: res_def nth_append)
  have null: "vec_is_null res i" if "0 \<le> i" "i < ?n" "rvec_is_null r i" for i
  proof -
    have "v_cells res ! nat i = CI NULL_I64" using cell [OF that(1,2)] that(3) by (simp add: val)
    moreover have "v_type res = RAY_I64" "v_has_nulls res" "int (length (v_cells res)) = ?n"
      using that rvec_is_null_src [OF that(3)] assms(3) by (auto simp: res_def fresh_vec_def)
    ultimately show ?thesis
      using that by (simp add: vec_is_null_def vec_any_nulls_def sentinel_is_null_def)
  qed
  have "v_cells res ! nat i = CI (rte_extract_one (the (row_us r i)) field)"
    if "0 \<le> i" "i < ?n" "\<not> rvec_is_null r i" for i
    using that cell [of i] assms(4) by (auto simp: val)
  moreover have "v_cells res ! nat i = CI NULL_I64" if "0 \<le> i" "i < ?n" "rvec_is_null r i" for i
    using that cell [of i] by (simp add: val)
  moreover have "length (v_cells res) = length mem"
    using assms(3) by (simp add: res_def)
  ultimately show ?thesis using run null by (intro exI [of _ res]) auto
qed

theorem extract_rows_witness:
  "\<exists>res. ray_temporal_extract (Some [CI 0, CI 0]) (VEC temporal_example) RAY_EXTRACT_MONTH
      = Some (VEC (Own res)) \<and> length (v_cells res) = length [CI 0, CI 0]
      \<and> vec_is_null res 1"
proof -
  have c: "i = 0 \<or> i = 1" if "0 \<le> i" "i < 2" for i :: int using that by linarith
  have h: "is_temporal (rvec_type temporal_example)" "rvec_ok temporal_example"
    "int (length [CI 0, CI 0]) = rvec_len temporal_example"
    by (simp_all add: temporal_example_def is_temporal_def)
  have n: "rvec_is_null temporal_example 1" "\<not> rvec_is_null temporal_example 0"
    by (simp_all add: temporal_example_def vec_is_null_def vec_any_nulls_def sentinel_is_null_def
        NULL_I32_def)
  have l: "rvec_len temporal_example = 2" by (simp add: temporal_example_def)
  have "row_us temporal_example 0 \<noteq> None"
    by (simp add: temporal_example_def row_us_def rte_to_us_def chk_i64_def i64_ok_def)
  then have h4: "\<forall>i. 0 \<le> i \<and> i < rvec_len temporal_example \<and> \<not> rvec_is_null temporal_example i
      \<longrightarrow> row_us temporal_example i \<noteq> None"
    using c n(1) unfolding l by blast
  show ?thesis using extract_rows [OF h h4, of RAY_EXTRACT_MONTH] n(1) l by fastforce
qed

text \<open>
  Truncation rounds towards the past, before the epoch too: a timestamp truncated to days or
  seconds is the greatest multiple of the bucket that is not after it, in nanoseconds.  The lower
  bound keeps the negation and the bucket step in range.
\<close>

theorem truncate_floor:
  assumes "-9223285000000000000 \<le> raw" "raw < 2 ^ 63"
  shows "truncate_kernel RAY_TIMESTAMP (trunc_bucket kind) raw
    = Some (raw div (1000 * trunc_bucket kind) * (1000 * trunc_bucket kind))"
proof -
  let ?b = "trunc_bucket kind"
  have b: "0 < ?b" "?b \<le> USEC_PER_DAY" by (auto simp: trunc_bucket_def)
  define us where "us = raw div 1000"
  have us: "-9223285000000000 \<le> us" "us \<le> 9223372036854775" "1000 * us \<le> raw"
    using assms by (simp_all add: us_def)
  have r: "rte_to_us RAY_TIMESTAMP raw = Some us"
    unfolding us_def by (rule rte_to_us_timestamp) (use assms in \<open>auto simp: i64_ok_def\<close>)
  define q where "q = us div ?b * ?b"
  have q: "q \<le> us" "us - ?b < q"
    using b pos_mod_bound [of ?b us] pos_mod_sign [of ?b us]
    by (simp_all add: q_def minus_mod_eq_div_mult [symmetric])
  have m: "\<bar>us smod ?b\<bar> < ?b" using b abs_mod_less [of ?b "\<bar>us\<bar>"]
    by (auto simp: signed_modulo_int_def sgn_if abs_mult)
  have t: "trunc_us ?b us = Some q" unfolding q_def
    by (rule trunc_us_eq) (use b us q m in \<open>auto simp: i64_ok_def q_def\<close>)
  have "raw div (1000 * ?b) * (1000 * ?b) = 1000 * q"
    using b zdiv_zmult2_eq [of ?b raw 1000] by (simp add: q_def us_def)
  moreover have "chk_i64 (q * 1000) = Some (q * 1000)"
    using q us b by (intro chk_i64_ok) (auto simp: i64_ok_def)
  ultimately show ?thesis by (simp add: truncate_kernel_def r t rte_us_to_ts_raw_def)
qed

theorem truncate_floor_witness:
  "truncate_kernel RAY_TIMESTAMP (trunc_bucket RAY_EXTRACT_DAY) (-1)
    = Some (-1 div (1000 * trunc_bucket RAY_EXTRACT_DAY) * (1000 * trunc_bucket RAY_EXTRACT_DAY))"
  by (rule truncate_floor) simp_all

text \<open>
  Truncation to a month or year gives midnight of the first day of the instant's own month or
  year.
\<close>

theorem trunc_month_year_first:
  assumes "field = RAY_EXTRACT_MONTH \<or> field = RAY_EXTRACT_YEAR" "date_trunc_us field us = Some t"
  shows "rte_extract_one t RAY_EXTRACT_YEAR = rte_extract_one us RAY_EXTRACT_YEAR
    \<and> rte_extract_one t RAY_EXTRACT_MONTH
        = (if field = RAY_EXTRACT_MONTH then rte_extract_one us RAY_EXTRACT_MONTH else 1)
    \<and> rte_extract_one t RAY_EXTRACT_DAY = 1 \<and> day_us t = 0"
proof -
  obtain y m d where c: "civil_of_days (us div 86400000000) = (y, m, d)" "valid_civil y m d"
    using days_from_civil_of_days by blast
  define m' where "m' = (if field = RAY_EXTRACT_MONTH then m else 1)"
  have v: "valid_civil y m' 1" using c(2) days_in_month_pos [of 1 y] by (auto simp: m'_def valid_civil_def)
  have t: "t = days_from_civil y m' 1 * 86400000000"
    using assms c(1) by (auto simp: date_trunc_us_calendar days_since_2000_eq m'_def chk_i64_def split: if_splits)
  have "civil_of_days (t div 86400000000) = (y, m', 1)"
    using civil_of_days_from_civil [OF v] by (simp add: t)
  note e = extract_civil [OF this] extract_civil [OF c(1)]
  show ?thesis using e assms(1) by (auto simp: m'_def day_us_eq t)
qed

theorem trunc_month_year_first_witness:
  "\<exists>t. date_trunc_us RAY_EXTRACT_MONTH (-1) = Some t
    \<and> rte_extract_one t RAY_EXTRACT_MONTH = rte_extract_one (-1) RAY_EXTRACT_MONTH
    \<and> rte_extract_one t RAY_EXTRACT_DAY = 1"
proof -
  have d: "date_trunc_us RAY_EXTRACT_MONTH (-1) = Some (-2678400000000)" by code_simp
  show ?thesis
    using d trunc_month_year_first [OF _ d] by simp
qed

end
