(* ===== verification/Glob.thy ===== *)
theory Glob
  imports Prelude
begin

text \<open>
  The glob matcher and the substring patterns (\<^verbatim>\<open>src/ops/glob.c\<close>).  Strings are lists of byte
  values (\<open>int\<close>, so the results do not depend on the signedness of \<open>char\<close>); \<open>size_t\<close> positions are
  naturals.  The specification reads a pattern as a list of tokens and a token as a set of words.
\<close>

abbreviation (input) "CH_STAR \<equiv> (42::int)"
abbreviation (input) "CH_ANY \<equiv> (63::int)"
abbreviation (input) "CH_OPEN \<equiv> (91::int)"
abbreviation (input) "CH_CLOSE \<equiv> (93::int)"
abbreviation (input) "CH_NEG \<equiv> (33::int)"
abbreviation (input) "CH_DASH \<equiv> (45::int)"

definition to_lower :: "int \<Rightarrow> int" where
  "to_lower c = (if c \<ge> 65 \<and> c \<le> 90 then c + 32 else c)"

definition fold_case :: "bool \<Rightarrow> int \<Rightarrow> int" where
  "fold_case ci c = (if ci then to_lower c else c)"

section \<open>The matcher\<close>

text \<open>The loop of \<open>match_class\<close>: the position after the members, and whether one of them matched.\<close>

function class_loop :: "int list \<Rightarrow> bool \<Rightarrow> int \<Rightarrow> nat \<Rightarrow> bool \<Rightarrow> bool \<Rightarrow> nat \<times> bool" where
  "class_loop p ci ch i first matched =
     (if i < length p \<and> (first \<or> p ! i \<noteq> CH_CLOSE) then
        let lo = fold_case ci (p ! i) in
        if i + 2 < length p \<and> p ! (i + 1) = CH_DASH \<and> p ! (i + 2) \<noteq> CH_CLOSE then
          let hi = fold_case ci (p ! (i + 2)) in
          class_loop p ci ch (i + 3) False (matched \<or> (lo \<le> ch \<and> ch \<le> hi))
        else class_loop p ci ch (i + 1) False (matched \<or> ch = lo)
      else (i, matched))"
  by pat_completeness auto
termination by (relation "measure (\<lambda>(p, ci, ch, i, first, matched). length p - i)") auto

declare class_loop.simps [simp del]

definition match_class :: "int list \<Rightarrow> nat \<Rightarrow> int \<Rightarrow> bool \<Rightarrow> nat \<times> bool" where
  "match_class p pi0 c ci =
     (let neg = (pi0 < length p \<and> p ! pi0 = CH_NEG);
          i = (if neg then pi0 + 1 else pi0)
      in case class_loop p ci (fold_case ci c) i True False of (i, matched) \<Rightarrow>
           (if i < length p \<and> p ! i = CH_CLOSE then i + 1 else i,
            if neg then \<not> matched else matched))"

lemma class_loop_ge: "i \<le> fst (class_loop p ci ch i first matched)"
proof (induction p ci ch i first matched rule: class_loop.induct)
  case (1 p ci ch i first matched)
  show ?case
    by (subst class_loop.simps) (use 1 in \<open>auto simp: Let_def intro: add_leD1 [of i 3]\<close>)
qed

lemma match_class_ge: "i \<le> fst (match_class p i c ci)"
  using class_loop_ge [of "i + 1" p ci "fold_case ci c" True False]
    class_loop_ge [of i p ci "fold_case ci c" True False]
  by (auto simp: match_class_def Let_def split: prod.splits)

text \<open>
  One pattern position against one character: the next position, or no match.  The cases are the
  branches of \<open>glob_impl\<close> below the star.
\<close>

definition glob_step :: "bool \<Rightarrow> int list \<Rightarrow> nat \<Rightarrow> int \<Rightarrow> nat option" where
  "glob_step ci p pi0 c =
     (if pi0 < length p \<and> p ! pi0 = CH_ANY then Some (pi0 + 1)
      else if pi0 < length p \<and> p ! pi0 = CH_OPEN then
        (case match_class p (pi0 + 1) c ci of (cls_pi, ok) \<Rightarrow> if ok then Some cls_pi else None)
      else if pi0 < length p then
        (if fold_case ci c = fold_case ci (p ! pi0) then Some (pi0 + 1) else None)
      else None)"

lemma glob_step_gt: "glob_step ci p i c = Some j \<Longrightarrow> i < j"
  using match_class_ge [of "i + 1" p c ci]
  by (auto simp: glob_step_def split: if_splits prod.splits)

function skip_stars :: "int list \<Rightarrow> nat \<Rightarrow> nat" where
  "skip_stars p i = (if i < length p \<and> p ! i = CH_STAR then skip_stars p (i + 1) else i)"
  by pat_completeness auto
termination by (relation "measure (\<lambda>(p, i). length p - i)") auto

declare skip_stars.simps [simp del]

text \<open>
  The loop of \<open>glob_impl\<close>.  \<open>star\<close> is the pair \<open>(star_pi, star_si)\<close> of the last star, absent while
  \<open>star_pi\<close> is \<open>(size_t)-1\<close>; a mismatch falls back to it and gives it one more character.
\<close>

definition star_sane :: "(nat \<times> nat) option \<Rightarrow> nat \<Rightarrow> bool" where
  "star_sane star pi0 = (case star of None \<Rightarrow> True | Some (sp, _) \<Rightarrow> sp < pi0)"

function glob_loop ::
  "bool \<Rightarrow> int list \<Rightarrow> int list \<Rightarrow> nat \<Rightarrow> nat \<Rightarrow> (nat \<times> nat) option \<Rightarrow> bool" where
  "glob_loop ci s p si pi0 star =
     (if si < length s then
        (if pi0 < length p \<and> p ! pi0 = CH_STAR then
           glob_loop ci s p si (pi0 + 1) (Some (pi0, si))
         else (case glob_step ci p pi0 (s ! si) of
             Some pi1 \<Rightarrow> glob_loop ci s p (si + 1) pi1 star
           | None \<Rightarrow>
               (case star of
                  Some (star_pi, star_si) \<Rightarrow>
                    glob_loop ci s p (star_si + 1) (star_pi + 1) (Some (star_pi, star_si + 1))
                | None \<Rightarrow> False)))
      else skip_stars p pi0 = length p)"
  by pat_completeness auto
termination
  by (relation "measures
      [\<lambda>(ci, s, p, si, pi0, star). of_bool (\<not> star_sane star pi0),
       \<lambda>(ci, s, p, si, pi0, star). (case star of None \<Rightarrow> length p + 1 | Some (sp, _) \<Rightarrow> length p - sp),
       \<lambda>(ci, s, p, si, pi0, star). (case star of None \<Rightarrow> 0 | Some (_, ss) \<Rightarrow> length s - ss),
       \<lambda>(ci, s, p, si, pi0, star). length s - si]")
    (auto simp: star_sane_def dest: glob_step_gt split: option.splits)

declare glob_loop.simps [simp del]

definition glob_impl :: "int list \<Rightarrow> int list \<Rightarrow> bool \<Rightarrow> bool" where
  "glob_impl s p ci = glob_loop ci s p 0 0 None"

definition ray_glob_match :: "int list \<Rightarrow> int list \<Rightarrow> bool" where
  "ray_glob_match s p = glob_impl s p False"

definition ray_glob_match_ci :: "int list \<Rightarrow> int list \<Rightarrow> bool" where
  "ray_glob_match_ci s p = glob_impl s p True"

section \<open>Compiled shapes\<close>

datatype ray_glob_shape = SHAPE_NONE | SHAPE_EXACT | SHAPE_PREFIX | SHAPE_SUFFIX | SHAPE_CONTAINS | SHAPE_ANY

record ray_glob_compiled =
  shape :: ray_glob_shape
  lit :: "int list"

definition ray_glob_compile :: "int list \<Rightarrow> ray_glob_compiled" where
  "ray_glob_compile p =
     (if length p = 0 then \<lparr>shape = SHAPE_EXACT, lit = []\<rparr>
      else
        let leading_star = (p ! 0 = CH_STAR);
            trailing_star = (p ! (length p - 1) = CH_STAR \<and> (length p > 1 \<or> \<not> leading_star));
            lo = (if leading_star then 1 else 0);
            hi = (if trailing_star then length p - 1 else length p)
        in if list_ex (\<lambda>i. p ! i = CH_STAR \<or> p ! i = CH_ANY \<or> p ! i = CH_OPEN) [lo..<hi]
           then \<lparr>shape = SHAPE_NONE, lit = []\<rparr>
           else
             let l = take (hi - lo) (drop lo p) in
             \<lparr>shape = (if leading_star \<and> trailing_star then (if length l = 0 then SHAPE_ANY else SHAPE_CONTAINS)
                       else if leading_star then SHAPE_SUFFIX
                       else if trailing_star then SHAPE_PREFIX
                       else SHAPE_EXACT),
              lit = l\<rparr>)"

text \<open>
  The C library searches: \<open>memchr\<close> and \<open>memmem\<close> give the first position, \<open>memcmp\<close> compares bytes.
\<close>

definition memchr :: "int list \<Rightarrow> int \<Rightarrow> nat option" where
  "memchr s c = find (\<lambda>i. s ! i = c) [0..<length s]"

definition occurs_at :: "int list \<Rightarrow> int list \<Rightarrow> nat \<Rightarrow> bool" where
  "occurs_at s needle i \<longleftrightarrow> i + length needle \<le> length s \<and> take (length needle) (drop i s) = needle"

definition memmem :: "int list \<Rightarrow> int list \<Rightarrow> nat option" where
  "memmem s needle = find (occurs_at s needle) [0..<length s + 1]"

text \<open>The portable fallback, a byte scan with \<open>memchr\<close>; \<open>off\<close> is \<open>haystack - s\<close>.\<close>

function memmem_scan :: "int list \<Rightarrow> int list \<Rightarrow> nat \<Rightarrow> nat option" where
  "memmem_scan s needle off =
     (if needle \<noteq> [] \<and> off \<le> length s \<and> length s - off \<ge> length needle then
        (case memchr (take (length s - off - length needle + 1) (drop off s)) (needle ! 0) of
           None \<Rightarrow> None
         | Some d \<Rightarrow>
             if take (length needle) (drop (off + d) s) = needle then Some (off + d)
             else memmem_scan s needle (off + d + 1))
      else None)"
  by pat_completeness auto
termination by (relation "measure (\<lambda>(s, needle, off). length s - off)")
    (auto simp: neq_Nil_conv)

declare memmem_scan.simps [simp del]

definition ray_glob_match_compiled :: "ray_glob_compiled \<Rightarrow> int list \<Rightarrow> bool" where
  "ray_glob_match_compiled c s =
     (let n = length (lit c) in
      case shape c of
        SHAPE_ANY \<Rightarrow> True
      | SHAPE_EXACT \<Rightarrow> length s = n \<and> (n = 0 \<or> take n s = lit c)
      | SHAPE_PREFIX \<Rightarrow> length s \<ge> n \<and> (n = 0 \<or> take n s = lit c)
      | SHAPE_SUFFIX \<Rightarrow> length s \<ge> n \<and> (n = 0 \<or> take n (drop (length s - n) s) = lit c)
      | SHAPE_CONTAINS \<Rightarrow>
          (if n = 0 then True else if length s < n then False else memmem s (lit c) \<noteq> None)
      | SHAPE_NONE \<Rightarrow> False)"

section \<open>Substring patterns\<close>

record ray_strpat =
  pat :: "int list"
  tokens :: nat
  anchor :: "int list"
  anchor_len :: nat
  anchor_token :: nat
  literal :: bool

text \<open>The locals of the compilation loop: the current literal run and the longest one so far.\<close>

record strpat_locals =
  l_literal :: bool
  l_tokens :: nat
  run_start :: nat
  run_len :: nat
  run_token :: nat
  best_len :: nat
  best_start :: nat
  best_token :: nat

definition search_flush_run :: "strpat_locals \<Rightarrow> strpat_locals" where
  "search_flush_run l =
     (let l = (if run_len l > best_len l
               then l\<lparr>best_len := run_len l, best_start := run_start l, best_token := run_token l\<rparr>
               else l)
      in l\<lparr>run_len := 0\<rparr>)"

text \<open>The class skipper of the compiler: the position after the class that opens before \<open>j\<close>.\<close>

function class_skip :: "int list \<Rightarrow> nat \<Rightarrow> bool \<Rightarrow> nat" where
  "class_skip p j first =
     (if j < length p \<and> (first \<or> p ! j \<noteq> CH_CLOSE) then
        (if j + 2 < length p \<and> p ! (j + 1) = CH_DASH \<and> p ! (j + 2) \<noteq> CH_CLOSE
         then class_skip p (j + 3) False
         else class_skip p (j + 1) False)
      else j)"
  by pat_completeness auto
termination by (relation "measure (\<lambda>(p, j, first). length p - j)") auto

declare class_skip.simps [simp del]

definition class_end :: "int list \<Rightarrow> nat \<Rightarrow> nat" where
  "class_end p i =
     (let j = i + 1;
          j = (if j < length p \<and> p ! j = CH_NEG then j + 1 else j);
          j = class_skip p j True
      in if j < length p \<and> p ! j = CH_CLOSE then j + 1 else j)"

lemma class_skip_ge: "j \<le> class_skip p j first"
proof (induction p j first rule: class_skip.induct)
  case (1 p j first)
  show ?case by (subst class_skip.simps) (use 1 in \<open>auto intro: add_leD1 [of j 3]\<close>)
qed

lemma class_end_gt: "i < class_end p i"
  using class_skip_ge [of "i + 1" p True] class_skip_ge [of "i + 2" p True]
  by (auto simp: class_end_def Let_def)

function strpat_loop :: "int list \<Rightarrow> nat \<Rightarrow> strpat_locals \<Rightarrow> strpat_locals option" where
  "strpat_loop p i l =
     (if i < length p then
        (if p ! i = CH_STAR then None
         else if p ! i = CH_ANY \<or> p ! i = CH_OPEN then
           let l = search_flush_run (l\<lparr>l_literal := False\<rparr>);
               i' = (if p ! i = CH_OPEN then class_end p i else i + 1)
           in strpat_loop p i' (l\<lparr>l_tokens := l_tokens l + 1\<rparr>)
         else
           let l = (if run_len l = 0 then l\<lparr>run_start := i, run_token := l_tokens l\<rparr> else l)
           in strpat_loop p (i + 1) (l\<lparr>run_len := run_len l + 1, l_tokens := l_tokens l + 1\<rparr>))
      else Some (search_flush_run l))"
  by pat_completeness auto
termination
  by (relation "measure (\<lambda>(p, i, l). length p - i)") (auto intro: diff_less_mono2 class_end_gt)

declare strpat_loop.simps [simp del]

definition strpat_locals0 :: strpat_locals where
  "strpat_locals0 = \<lparr>l_literal = True, l_tokens = 0, run_start = 0, run_len = 0, run_token = 0,
     best_len = 0, best_start = 0, best_token = 0\<rparr>"

definition ray_strpat_compile :: "int list \<Rightarrow> ray_strpat option" where
  "ray_strpat_compile p =
     (case strpat_loop p 0 strpat_locals0 of
        None \<Rightarrow> None
      | Some l \<Rightarrow> Some \<lparr>pat = p, tokens = l_tokens l,
          anchor = take (best_len l) (drop (best_start l) p), anchor_len = best_len l,
          anchor_token = best_token l, literal = l_literal l\<rparr>)"

function strpat_match_loop :: "int list \<Rightarrow> int list \<Rightarrow> nat \<Rightarrow> nat \<Rightarrow> bool" where
  "strpat_match_loop p s pi0 si =
     (if pi0 < length p then
        (if si \<ge> length s then False
         else if p ! pi0 = CH_ANY then strpat_match_loop p s (pi0 + 1) (si + 1)
         else if p ! pi0 = CH_OPEN then
           (let r = match_class p (pi0 + 1) (s ! si) False in
            if \<not> snd r then False else strpat_match_loop p s (fst r) (si + 1))
         else if s ! si \<noteq> p ! pi0 then False
         else strpat_match_loop p s (pi0 + 1) (si + 1))
      else True)"
  by pat_completeness auto
termination by (relation "measure (\<lambda>(p, s, pi0, si). length s - si)") auto

declare strpat_match_loop.simps [simp del]

definition strpat_match_at :: "ray_strpat \<Rightarrow> int list \<Rightarrow> nat \<Rightarrow> bool" where
  "strpat_match_at c s pos = strpat_match_loop (pat c) s 0 pos"

definition strpat_memmem :: "int list \<Rightarrow> int list \<Rightarrow> nat option" where
  "strpat_memmem s needle =
     (if length needle = 0 then Some 0
      else if length needle > length s then None
      else if length needle = 1 then memchr s (needle ! 0)
      else memmem s needle)"

text \<open>The anchored scan: find the anchor in \<open>s[scan_from, sn - tail)\<close>, try the pattern around it.\<close>

function anchor_scan :: "ray_strpat \<Rightarrow> int list \<Rightarrow> nat \<Rightarrow> nat \<Rightarrow> nat option" where
  "anchor_scan c s tail scan_from =
     (if anchor_len c > 0 \<and> scan_from + anchor_len c + tail \<le> length s then
        (let hay_len = length s - tail - scan_from in
         case strpat_memmem (take hay_len (drop scan_from s)) (anchor c) of
           None \<Rightarrow> None
         | Some hit \<Rightarrow>
             (let anchor_pos = scan_from + hit;
                  start = anchor_pos - anchor_token c
              in if start + tokens c \<le> length s \<and> strpat_match_at c s start then Some start
                 else anchor_scan c s tail (anchor_pos + 1)))
      else None)"
  by pat_completeness auto
termination by (relation "measure (\<lambda>(c, s, tail, scan_from). length s - scan_from)") auto

declare anchor_scan.simps [simp del]

definition ray_strpat_find :: "ray_strpat \<Rightarrow> int list \<Rightarrow> nat option" where
  "ray_strpat_find c s =
     (if tokens c = 0 then Some 0
      else if tokens c > length s then None
      else if literal c then strpat_memmem s (pat c)
      else if anchor_len c > 0 then
        anchor_scan c s (tokens c - anchor_token c - anchor_len c) (anchor_token c)
      else find (strpat_match_at c s) [0..<length s - tokens c + 1])"

definition ray_strpat_find_raw :: "int list \<Rightarrow> int list \<Rightarrow> nat option" where
  "ray_strpat_find_raw s p =
     (case ray_strpat_compile p of None \<Rightarrow> None | Some c \<Rightarrow> ray_strpat_find c s)"

section \<open>What a pattern means\<close>

datatype gtok = TStar | TAny | TClass bool "(int \<times> int) list" | TLit int

text \<open>The members of a class as ranges; a single character is a range of one.\<close>

function class_items :: "int list \<Rightarrow> nat \<Rightarrow> bool \<Rightarrow> (int \<times> int) list" where
  "class_items p j first =
     (if j < length p \<and> (first \<or> p ! j \<noteq> CH_CLOSE) then
        (if j + 2 < length p \<and> p ! (j + 1) = CH_DASH \<and> p ! (j + 2) \<noteq> CH_CLOSE
         then (p ! j, p ! (j + 2)) # class_items p (j + 3) False
         else (p ! j, p ! j) # class_items p (j + 1) False)
      else [])"
  by pat_completeness auto
termination by (relation "measure (\<lambda>(p, j, first). length p - j)") auto

declare class_items.simps [simp del]

definition class_tok :: "int list \<Rightarrow> nat \<Rightarrow> gtok" where
  "class_tok p i =
     (let neg = (i + 1 < length p \<and> p ! (i + 1) = CH_NEG)
      in TClass neg (class_items p (if neg then i + 2 else i + 1) True))"

function pattern_tokens :: "int list \<Rightarrow> nat \<Rightarrow> gtok list" where
  "pattern_tokens p i =
     (if i < length p then
        (if p ! i = CH_STAR then TStar # pattern_tokens p (i + 1)
         else if p ! i = CH_ANY then TAny # pattern_tokens p (i + 1)
         else if p ! i = CH_OPEN then class_tok p i # pattern_tokens p (class_end p i)
         else TLit (p ! i) # pattern_tokens p (i + 1))
      else [])"
  by pat_completeness auto
termination
  by (relation "measure (\<lambda>(p, i). length p - i)") (auto intro: diff_less_mono2 class_end_gt)

declare pattern_tokens.simps [simp del]

text \<open>A token other than the star is a set of characters; a pattern is a concatenation.\<close>

fun tok_ok :: "bool \<Rightarrow> gtok \<Rightarrow> int \<Rightarrow> bool" where
  "tok_ok ci TStar c = False"
| "tok_ok ci TAny c = True"
| "tok_ok ci (TClass neg items) c =
     (neg \<noteq> list_ex (\<lambda>(lo, hi). fold_case ci lo \<le> fold_case ci c \<and> fold_case ci c \<le> fold_case ci hi) items)"
| "tok_ok ci (TLit x) c = (fold_case ci c = fold_case ci x)"

definition tok_word :: "bool \<Rightarrow> gtok \<Rightarrow> int list \<Rightarrow> bool" where
  "tok_word ci t w \<longleftrightarrow> (if t = TStar then True else \<exists>c. w = [c] \<and> tok_ok ci t c)"

definition glob_lang :: "bool \<Rightarrow> gtok list \<Rightarrow> int list \<Rightarrow> bool" where
  "glob_lang ci ts s \<longleftrightarrow> (\<exists>ws. s = concat ws \<and> list_all2 (tok_word ci) ts ws)"

section \<open>Classes and tokens\<close>

lemma class_loop_eq:
  "class_loop p ci ch i first matched =
     (class_skip p i first,
      matched \<or> list_ex (\<lambda>(lo, hi). fold_case ci lo \<le> ch \<and> ch \<le> fold_case ci hi) (class_items p i first))"
proof (induction p ci ch i first matched rule: class_loop.induct)
  case (1 p ci ch i first matched)
  show ?case
    by (subst class_loop.simps, subst class_skip.simps, subst class_items.simps)
      (use 1 in \<open>auto simp: Let_def\<close>)
qed

lemma match_class_eq:
  "match_class p (i + 1) c ci = (class_end p i, tok_ok ci (class_tok p i) c)"
  by (cases "i + 1 < length p \<and> p ! (i + 1) = CH_NEG")
    (auto simp: match_class_def class_end_def class_tok_def class_loop_eq Let_def)

lemma pattern_tokens_end: "length p \<le> i \<Longrightarrow> pattern_tokens p i = []"
  by (subst pattern_tokens.simps) simp

lemma pattern_tokens_star:
  "i < length p \<Longrightarrow> p ! i = CH_STAR \<Longrightarrow> pattern_tokens p i = TStar # pattern_tokens p (i + 1)"
  by (subst pattern_tokens.simps) simp

text \<open>Below a star, \<open>glob_step\<close> is one token against one character.\<close>

lemma glob_step_token:
  assumes "i < length p" "p ! i \<noteq> CH_STAR"
  shows "\<exists>t j. pattern_tokens p i = t # pattern_tokens p j \<and> t \<noteq> TStar \<and> i < j
    \<and> (\<forall>ci c. glob_step ci p i c = (if tok_ok ci t c then Some j else None))"
proof (cases "p ! i = CH_ANY \<or> p ! i \<noteq> CH_OPEN")
  case True
  let ?t = "if p ! i = CH_ANY then TAny else TLit (p ! i)"
  have "pattern_tokens p i = ?t # pattern_tokens p (i + 1)"
    using assms True by (subst pattern_tokens.simps) auto
  moreover have "\<forall>ci c. glob_step ci p i c = (if tok_ok ci ?t c then Some (i + 1) else None)"
    using assms True by (auto simp: glob_step_def)
  ultimately show ?thesis by (intro exI [of _ ?t] exI [of _ "i + 1"]) simp
next
  case False
  have "pattern_tokens p i = class_tok p i # pattern_tokens p (class_end p i)"
    using assms False by (subst pattern_tokens.simps) auto
  moreover have "\<forall>ci c. glob_step ci p i c
      = (if tok_ok ci (class_tok p i) c then Some (class_end p i) else None)"
    using assms False match_class_eq [of p i] by (simp add: glob_step_def)
  moreover have "class_tok p i \<noteq> TStar" by (simp add: class_tok_def Let_def)
  ultimately show ?thesis
    using class_end_gt by (intro exI [of _ "class_tok p i"] exI [of _ "class_end p i"]) simp
qed

section \<open>The language of a pattern\<close>

lemma glob_lang_Nil [simp]: "glob_lang ci [] s \<longleftrightarrow> s = []"
  by (auto simp: glob_lang_def)

lemma glob_lang_Cons:
  "glob_lang ci (t # ts) s \<longleftrightarrow> (\<exists>w s'. s = w @ s' \<and> tok_word ci t w \<and> glob_lang ci ts s')"
proof
  assume "glob_lang ci (t # ts) s"
  then show "\<exists>w s'. s = w @ s' \<and> tok_word ci t w \<and> glob_lang ci ts s'"
    unfolding glob_lang_def list_all2_Cons1 by (metis concat.simps(2))
next
  assume "\<exists>w s'. s = w @ s' \<and> tok_word ci t w \<and> glob_lang ci ts s'"
  then obtain w ws where "s = w @ concat ws" "tok_word ci t w" "list_all2 (tok_word ci) ts ws"
    by (auto simp: glob_lang_def)
  then show "glob_lang ci (t # ts) s"
    unfolding glob_lang_def by (intro exI [of _ "w # ws"]) simp
qed

lemma glob_lang_star:
  "glob_lang ci (TStar # ts) s \<longleftrightarrow> (\<exists>k \<le> length s. glob_lang ci ts (drop k s))"
proof
  assume "glob_lang ci (TStar # ts) s"
  then obtain w s' where "s = w @ s'" "glob_lang ci ts s'" by (auto simp: glob_lang_Cons)
  then show "\<exists>k \<le> length s. glob_lang ci ts (drop k s)" by (intro exI [of _ "length w"]) simp
next
  assume "\<exists>k \<le> length s. glob_lang ci ts (drop k s)"
  then show "glob_lang ci (TStar # ts) s"
    unfolding glob_lang_Cons by (metis append_take_drop_id tok_word_def)
qed

lemma glob_lang_tok:
  "t \<noteq> TStar \<Longrightarrow> glob_lang ci (t # ts) s \<longleftrightarrow> (\<exists>c s'. s = c # s' \<and> tok_ok ci t c \<and> glob_lang ci ts s')"
  unfolding glob_lang_Cons tok_word_def by (metis append_Cons append_Nil)

text \<open>The question at position \<open>(pi0, si)\<close> of the loop.\<close>

definition glob_at :: "bool \<Rightarrow> int list \<Rightarrow> int list \<Rightarrow> nat \<Rightarrow> nat \<Rightarrow> bool" where
  "glob_at ci s p pi0 si \<longleftrightarrow> si \<le> length s \<and> glob_lang ci (pattern_tokens p pi0) (drop si s)"

lemma glob_at_star:
  assumes "i < length p" "p ! i = CH_STAR"
  shows "glob_at ci s p i si \<longleftrightarrow> (\<exists>k \<ge> si. glob_at ci s p (i + 1) k)"
proof -
  have "glob_at ci s p i si \<longleftrightarrow> si \<le> length s \<and>
      (\<exists>k \<le> length s - si. glob_lang ci (pattern_tokens p (i + 1)) (drop (si + k) s))"
    by (simp add: glob_at_def pattern_tokens_star [OF assms] glob_lang_star add.commute)
  also have "\<dots> \<longleftrightarrow> (\<exists>k \<ge> si. glob_at ci s p (i + 1) k)"
  proof safe
    fix k assume "si \<le> length s" "k \<le> length s - si" "glob_lang ci (pattern_tokens p (i + 1)) (drop (si + k) s)"
    then show "\<exists>k \<ge> si. glob_at ci s p (i + 1) k" by (intro exI [of _ "si + k"]) (simp add: glob_at_def)
  next
    fix k assume "si \<le> k" "glob_at ci s p (i + 1) k"
    then show "\<exists>k \<le> length s - si. glob_lang ci (pattern_tokens p (i + 1)) (drop (si + k) s)"
      by (intro exI [of _ "k - si"]) (auto simp: glob_at_def)
  qed (auto simp: glob_at_def)
  finally show ?thesis .
qed

lemma glob_at_step:
  assumes "\<not> (i < length p \<and> p ! i = CH_STAR)" "si < length s"
  shows "glob_at ci s p i si \<longleftrightarrow> (\<exists>j. glob_step ci p i (s ! si) = Some j \<and> glob_at ci s p j (si + 1))"
proof (cases "i < length p")
  case True
  obtain t j where t: "pattern_tokens p i = t # pattern_tokens p j" "t \<noteq> TStar"
    "\<forall>ci c. glob_step ci p i c = (if tok_ok ci t c then Some j else None)"
    using glob_step_token [OF True] True assms(1) by blast
  have d: "drop si s = s ! si # drop (Suc si) s" using assms(2) by (simp add: Cons_nth_drop_Suc)
  show ?thesis
    unfolding glob_at_def t(1) glob_lang_tok [OF t(2)] d using assms(2) t(3) by simp
next
  case False
  then show ?thesis using assms(2) by (simp add: glob_at_def pattern_tokens_end glob_step_def)
qed

text \<open>A step of one character moves every later match along.\<close>

lemma glob_at_shift:
  assumes "\<not> (i < length p \<and> p ! i = CH_STAR)" "glob_step ci p i c = Some j" "glob_at ci s p i k"
  shows "glob_at ci s p j (k + 1)"
proof -
  have "i < length p" using assms(2) by (auto simp: glob_step_def split: if_splits)
  then obtain t j' where t: "pattern_tokens p i = t # pattern_tokens p j'" "t \<noteq> TStar"
    "\<forall>ci c. glob_step ci p i c = (if tok_ok ci t c then Some j' else None)"
    using glob_step_token [of i p] assms(1) by blast
  then have "j' = j" using assms(2) by (simp split: if_splits)
  have k: "k < length s"
    using assms(3) unfolding glob_at_def t(1) glob_lang_tok [OF t(2)]
    by (metis drop_all list.distinct(1) not_le)
  show ?thesis using glob_at_step [OF assms(1) k] assms(3) t(3) \<open>j' = j\<close> by (auto split: if_splits)
qed

lemma skip_stars_end:
  "i \<le> length p \<Longrightarrow> skip_stars p i = length p \<longleftrightarrow> glob_lang ci (pattern_tokens p i) []"
proof (induction p i rule: skip_stars.induct)
  case (1 p i)
  show ?case
  proof (cases "i < length p")
    case True
    show ?thesis
    proof (cases "p ! i = CH_STAR")
      case True
      then show ?thesis using \<open>i < length p\<close> "1.IH"
        by (subst skip_stars.simps) (simp add: pattern_tokens_star glob_lang_star)
    next
      case False
      obtain t j where "pattern_tokens p i = t # pattern_tokens p j" "t \<noteq> TStar"
        using glob_step_token [OF True False] by blast
      then show ?thesis
        using True False by (subst skip_stars.simps) (simp add: glob_lang_tok)
    qed
  next
    case False
    then show ?thesis using 1(2) by (subst skip_stars.simps) (simp add: pattern_tokens_end)
  qed
qed

lemma class_skip_le: "j \<le> length p \<Longrightarrow> class_skip p j first \<le> length p"
proof (induction p j first rule: class_skip.induct)
  case (1 p j first)
  show ?case by (subst class_skip.simps) (use 1 in auto)
qed

lemma class_end_le: "i < length p \<Longrightarrow> class_end p i \<le> length p"
  using class_skip_le [of "i + 1" p True] class_skip_le [of "i + 2" p True]
  by (auto simp: class_end_def Let_def)

lemma glob_step_le: "glob_step ci p i c = Some j \<Longrightarrow> j \<le> length p"
  using match_class_eq [of p i c ci] class_end_le [of i p]
  by (auto simp: glob_step_def split: if_splits)

section \<open>The loop\<close>

text \<open>
  The invariant of the backtracking: the tokens between the last star and the current position
  take one character each, so a match of them further right is a match of the current position
  further right by the same distance.  An older star is therefore never needed again.
\<close>

definition star_inv ::
  "bool \<Rightarrow> int list \<Rightarrow> int list \<Rightarrow> nat \<Rightarrow> nat \<Rightarrow> (nat \<times> nat) option \<Rightarrow> bool" where
  "star_inv ci s p si pi0 star \<longleftrightarrow>
     (\<forall>sp ss. star = Some (sp, ss) \<longrightarrow> sp < length p \<and> ss \<le> si \<and>
        (\<forall>k \<ge> ss. glob_at ci s p (sp + 1) k \<longrightarrow> glob_at ci s p pi0 (k + (si - ss))))"

definition star_retry ::
  "bool \<Rightarrow> int list \<Rightarrow> int list \<Rightarrow> (nat \<times> nat) option \<Rightarrow> bool" where
  "star_retry ci s p star \<longleftrightarrow>
     (\<exists>sp ss k. star = Some (sp, ss) \<and> ss < k \<and> glob_at ci s p (sp + 1) k)"

lemma star_retry_None [simp]: "\<not> star_retry ci s p None"
  by (simp add: star_retry_def)

lemma star_retry_next:
  "glob_at ci s p (sp + 1) (ss + 1) \<or> star_retry ci s p (Some (sp, ss + 1))
     \<longleftrightarrow> star_retry ci s p (Some (sp, ss))"
proof -
  have "(\<exists>k > ss. Q k) \<longleftrightarrow> Q (ss + 1) \<or> (\<exists>k > ss + 1. Q k)" for Q :: "nat \<Rightarrow> bool"
    by (metis Suc_eq_plus1 Suc_lessD Suc_lessI lessI)
  from this [of "glob_at ci s p (sp + 1)"] show ?thesis by (simp add: star_retry_def)
qed

lemma star_inv_fresh: "i < length p \<Longrightarrow> star_inv ci s p si (i + 1) (Some (i, si))"
  by (simp add: star_inv_def)

lemma star_inv_retry: "star_inv ci s p si pi0 star \<Longrightarrow> star_retry ci s p star
    \<Longrightarrow> \<exists>k > si. glob_at ci s p pi0 k"
  unfolding star_inv_def star_retry_def
  by (metis add.commute diff_add_inverse2 le_add_diff_inverse2 less_imp_le_nat nat_add_left_cancel_less)

lemma glob_loop_correct:
  assumes "star_inv ci s p si pi0 star" "si \<le> length s" "pi0 \<le> length p"
  shows "glob_loop ci s p si pi0 star \<longleftrightarrow> glob_at ci s p pi0 si \<or> star_retry ci s p star"
  using assms
proof (induction ci s p si pi0 star rule: glob_loop.induct)
  case (1 ci s p si pi0 star)
  note inv = "1.prems"(1)
  consider (fin) "si = length s" | (star) "si < length s" "pi0 < length p" "p ! pi0 = CH_STAR"
    | (tok) "si < length s" "\<not> (pi0 < length p \<and> p ! pi0 = CH_STAR)"
    using "1.prems"(2) by linarith
  then show ?case
  proof cases
    case fin
    have "\<not> star_retry ci s p star"
      using star_inv_retry [OF inv] fin by (auto simp: glob_at_def)
    then show ?thesis
      using fin skip_stars_end [OF "1.prems"(3)] by (subst glob_loop.simps) (simp add: glob_at_def)
  next
    case star
    have "star_retry ci s p star \<Longrightarrow> glob_at ci s p pi0 si"
      using star_inv_retry [OF inv] glob_at_star [OF star(2,3)] by (metis less_imp_le_nat le_trans)
    moreover have "glob_loop ci s p si pi0 star = glob_loop ci s p si (pi0 + 1) (Some (pi0, si))"
      using star by (subst glob_loop.simps) simp
    moreover have "glob_at ci s p (pi0 + 1) si \<or> star_retry ci s p (Some (pi0, si))
        \<longleftrightarrow> glob_at ci s p pi0 si"
      unfolding glob_at_star [OF star(2,3)] star_retry_def by (auto simp: le_less)
    ultimately show ?thesis
      using "1.IH"(1) [OF star(1) _ star_inv_fresh] star "1.prems"(2) by auto
  next
    case tok
    show ?thesis
    proof (cases "glob_step ci p pi0 (s ! si)")
      case (Some j)
      have "star_inv ci s p (si + 1) j star"
        using inv glob_at_shift [OF tok(2) Some] unfolding star_inv_def
        by (auto simp: Suc_diff_le)
      then have "glob_loop ci s p (si + 1) j star
          \<longleftrightarrow> glob_at ci s p j (si + 1) \<or> star_retry ci s p star"
        using "1.IH"(3) [OF tok(1) tok(2) Some] tok(1) glob_step_le [OF Some] by simp
      then show ?thesis
        using tok Some glob_at_step [OF tok(2,1)] by (subst glob_loop.simps) auto
    next
      case None
      then have no: "\<not> glob_at ci s p pi0 si" using glob_at_step [OF tok(2,1)] by simp
      show ?thesis
      proof (cases star)
        case None
        then show ?thesis
          using no tok \<open>glob_step ci p pi0 (s ! si) = None\<close> by (subst glob_loop.simps) auto
      next
        case (Some st)
        obtain sp ss where st: "st = (sp, ss)" by (cases st)
        have "ss < length s" "sp < length p" using inv Some st tok(1) by (auto simp: star_inv_def)
        then have "glob_loop ci s p (ss + 1) (sp + 1) (Some (sp, ss + 1))
            \<longleftrightarrow> star_retry ci s p (Some (sp, ss))"
          using "1.IH"(2) [OF tok(1) tok(2) None Some st [symmetric] star_inv_fresh] star_retry_next by simp
        then show ?thesis
          using no tok None Some st by (subst glob_loop.simps) auto
      qed
    qed
  qed
qed

lemma glob_impl_lang: "glob_impl s p ci \<longleftrightarrow> glob_lang ci (pattern_tokens p 0) s"
  using glob_loop_correct [of ci s p 0 0 None] by (simp add: glob_impl_def star_inv_def glob_at_def)

section \<open>Compiled shapes\<close>

definition plain :: "int \<Rightarrow> bool" where
  "plain c \<longleftrightarrow> c \<noteq> CH_STAR \<and> c \<noteq> CH_ANY \<and> c \<noteq> CH_OPEN"

lemma pattern_tokens_plain:
  assumes "list_all plain l"
  shows "pattern_tokens (q @ l @ r) (length q) = map TLit l @ pattern_tokens (q @ l @ r) (length q + length l)"
  using assms
proof (induction l arbitrary: q)
  case (Cons c l)
  have "pattern_tokens (q @ (c # l) @ r) (length q) = TLit c # pattern_tokens ((q @ [c]) @ l @ r) (length (q @ [c]))"
    using Cons.prems by (subst pattern_tokens.simps) (simp add: plain_def nth_append)
  then show ?case using Cons.IH [of "q @ [c]"] Cons.prems by simp
qed simp

lemma glob_lang_lits:
  "glob_lang False (map TLit l @ ts) s \<longleftrightarrow> (\<exists>s'. s = l @ s' \<and> glob_lang False ts s')"
proof (induction l arbitrary: s)
  case (Cons c l)
  then show ?case by (auto simp: glob_lang_tok fold_case_def)
qed simp

lemma glob_lang_lits_end: "glob_lang False (map TLit l) s \<longleftrightarrow> s = l"
  using glob_lang_lits [of l "[]" s] by simp

lemma glob_lang_star_end [simp]: "glob_lang ci [TStar] s"
  unfolding glob_lang_star by (intro exI [of _ "length s"]) simp

lemma find_Some_least:
  "find P [a..<b] = Some i \<longleftrightarrow> a \<le> i \<and> i < b \<and> P i \<and> (\<forall>j. a \<le> j \<longrightarrow> j < i \<longrightarrow> \<not> P j)"
proof
  assume "find P [a..<b] = Some i"
  then obtain k where k: "k < b - a" "P (a + k)" "i = a + k" "\<forall>j<k. \<not> P (a + j)"
    by (auto simp: find_Some_iff)
  have "\<not> P j" if "a \<le> j" "j < i" for j using k(3,4) that by (metis le_Suc_ex nat_add_left_cancel_less)
  then show "a \<le> i \<and> i < b \<and> P i \<and> (\<forall>j. a \<le> j \<longrightarrow> j < i \<longrightarrow> \<not> P j)" using k by auto
next
  assume *: "a \<le> i \<and> i < b \<and> P i \<and> (\<forall>j. a \<le> j \<longrightarrow> j < i \<longrightarrow> \<not> P j)"
  then show "find P [a..<b] = Some i"
    unfolding find_Some_iff by (intro exI [of _ "i - a"]) (auto simp: less_diff_conv)
qed

lemma find_None_range: "find P [a..<b] = None \<longleftrightarrow> (\<forall>j. a \<le> j \<longrightarrow> j < b \<longrightarrow> \<not> P j)"
  by (auto simp: find_None_iff)

lemma occurs_at_iff: "occurs_at s l i \<longleftrightarrow> (\<exists>u v. s = u @ l @ v \<and> length u = i)"
proof
  assume "occurs_at s l i"
  then have "s = take i s @ l @ drop (i + length l) s" "length (take i s) = i"
    unfolding occurs_at_def by (metis append_take_drop_id drop_drop add.commute, simp)
  then show "\<exists>u v. s = u @ l @ v \<and> length u = i" by blast
qed (auto simp: occurs_at_def)

lemma memmem_Some: "memmem s l = Some i \<longleftrightarrow> occurs_at s l i \<and> (\<forall>j < i. \<not> occurs_at s l j)"
  unfolding memmem_def find_Some_least by (auto simp: occurs_at_def)

lemma memmem_None: "memmem s l = None \<longleftrightarrow> (\<forall>i. \<not> occurs_at s l i)"
  unfolding memmem_def find_None_range by (auto simp: occurs_at_def)

lemma glob_lang_contains:
  "glob_lang False (TStar # map TLit l @ [TStar]) s \<longleftrightarrow> (\<exists>i. occurs_at s l i)"
  unfolding glob_lang_Cons glob_lang_lits occurs_at_iff by (auto simp: tok_word_def)

lemma glob_lang_suffix: "glob_lang False (TStar # map TLit l) s \<longleftrightarrow> (\<exists>u. s = u @ l)"
  unfolding glob_lang_Cons glob_lang_lits_end by (auto simp: tok_word_def)

lemma glob_lang_prefix: "glob_lang False (map TLit l @ [TStar]) s \<longleftrightarrow> (\<exists>u. s = l @ u)"
  unfolding glob_lang_lits by simp

lemma residual_plain:
  assumes "\<not> list_ex (\<lambda>i. p ! i = CH_STAR \<or> p ! i = CH_ANY \<or> p ! i = CH_OPEN) [lo..<hi]"
    "hi \<le> length p"
  shows "list_all plain (take (hi - lo) (drop lo p))"
  using assms by (auto simp: list_all_length list_ex_iff plain_def)

text \<open>The forms a compiled pattern can have.\<close>

lemma ray_glob_compile_cases:
  assumes "shape (ray_glob_compile p) \<noteq> SHAPE_NONE"
  obtains (exact) l where "list_all plain l" "p = l" "ray_glob_compile p = \<lparr>shape = SHAPE_EXACT, lit = l\<rparr>"
  | (suffix) l where "list_all plain l" "p = CH_STAR # l" "ray_glob_compile p = \<lparr>shape = SHAPE_SUFFIX, lit = l\<rparr>"
  | (prefix) l where "list_all plain l" "p = l @ [CH_STAR]" "ray_glob_compile p = \<lparr>shape = SHAPE_PREFIX, lit = l\<rparr>"
  | (contains) l where "list_all plain l" "p = CH_STAR # l @ [CH_STAR]"
      "ray_glob_compile p = \<lparr>shape = (if l = [] then SHAPE_ANY else SHAPE_CONTAINS), lit = l\<rparr>"
proof (cases "p = []")
  case True
  then show thesis using exact [of "[]"] by (simp add: ray_glob_compile_def)
next
  case False
  define ld where "ld = (p ! 0 = CH_STAR)"
  define tr where "tr = (p ! (length p - 1) = CH_STAR \<and> (length p > 1 \<or> \<not> ld))"
  define lo where "lo = (if ld then 1 else 0 :: nat)"
  define hi where "hi = (if tr then length p - 1 else length p)"
  define l where "l = take (hi - lo) (drop lo p)"
  have no: "\<not> list_ex (\<lambda>i. p ! i = CH_STAR \<or> p ! i = CH_ANY \<or> p ! i = CH_OPEN) [lo..<hi]"
    using assms False
    unfolding ray_glob_compile_def Let_def ld_def [symmetric] tr_def [symmetric]
      lo_def [symmetric] hi_def [symmetric]
    by (cases "list_ex (\<lambda>i. p ! i = CH_STAR \<or> p ! i = CH_ANY \<or> p ! i = CH_OPEN) [lo..<hi]") simp_all
  have c: "ray_glob_compile p =
      \<lparr>shape = (if ld \<and> tr then (if l = [] then SHAPE_ANY else SHAPE_CONTAINS)
         else if ld then SHAPE_SUFFIX else if tr then SHAPE_PREFIX else SHAPE_EXACT), lit = l\<rparr>"
    using no False
    unfolding ray_glob_compile_def Let_def ld_def [symmetric] tr_def [symmetric]
      lo_def [symmetric] hi_def [symmetric] l_def [symmetric] by auto
  have pl: "list_all plain l" unfolding l_def by (rule residual_plain [OF no]) (simp add: hi_def)
  obtain x q where p: "p = x # q" using False by (cases p) auto
  have tl: "p = butlast p @ [CH_STAR]" if tr
  proof -
    have "last p = CH_STAR" using that last_conv_nth [OF False] by (simp add: tr_def)
    then show ?thesis using append_butlast_last_id [OF False] by simp
  qed
  show thesis
  proof (cases ld)
    case True
    then have x: "x = CH_STAR" by (simp add: ld_def p)
    show thesis
    proof (cases tr)
      case True
      have "q \<noteq> []" using \<open>tr\<close> \<open>ld\<close> by (auto simp: tr_def p)
      then have "q = butlast q @ [CH_STAR]" using tl [OF \<open>tr\<close>] by (simp add: p)
      then have "q = l @ [CH_STAR]"
        using \<open>ld\<close> \<open>tr\<close> butlast_conv_take [of q] by (simp add: l_def lo_def hi_def p)
      then show thesis using contains [OF pl] c \<open>ld\<close> \<open>tr\<close> by (simp add: p x)
    next
      case False
      then have "q = l" using \<open>ld\<close> by (simp add: l_def lo_def hi_def p)
      then show thesis using suffix [OF pl] c \<open>ld\<close> False by (simp add: p x)
    qed
  next
    case False
    show thesis
    proof (cases tr)
      case True
      then have "p = l @ [CH_STAR]"
        using tl False by (simp add: l_def lo_def hi_def butlast_conv_take)
      then show thesis using prefix [OF pl] c False True by simp
    next
      assume "\<not> tr"
      then have "p = l" using False by (simp add: l_def lo_def hi_def)
      then show thesis using exact [OF pl] c False \<open>\<not> tr\<close> by simp
    qed
  qed
qed

lemma tokens_forms:
  assumes "list_all plain l"
  shows "pattern_tokens l 0 = map TLit l"
    "pattern_tokens (CH_STAR # l) 0 = TStar # map TLit l"
    "pattern_tokens (l @ [CH_STAR]) 0 = map TLit l @ [TStar]"
    "pattern_tokens (CH_STAR # l @ [CH_STAR]) 0 = TStar # map TLit l @ [TStar]"
  using pattern_tokens_plain [OF assms, of "[]" "[]"] pattern_tokens_plain [OF assms, of "[CH_STAR]" "[]"]
    pattern_tokens_plain [OF assms, of "[]" "[CH_STAR]"]
    pattern_tokens_plain [OF assms, of "[CH_STAR]" "[CH_STAR]"]
  by (simp_all add: pattern_tokens_end pattern_tokens_star)

lemma match_compiled_correct:
  assumes "shape (ray_glob_compile p) \<noteq> SHAPE_NONE"
  shows "ray_glob_match_compiled (ray_glob_compile p) s \<longleftrightarrow> glob_lang False (pattern_tokens p 0) s"
  using assms
proof (cases rule: ray_glob_compile_cases)
  case (exact l)
  then show ?thesis
    by (auto simp: ray_glob_match_compiled_def Let_def tokens_forms glob_lang_lits_end)
next
  case (suffix l)
  have "(\<exists>u. s = u @ l) \<longleftrightarrow> length l \<le> length s \<and> drop (length s - length l) s = l"
    by (metis append_eq_conv_conj append_take_drop_id diff_add_inverse2 le_add2 length_append length_drop)
  then show ?thesis
    using suffix by (auto simp: ray_glob_match_compiled_def Let_def tokens_forms glob_lang_suffix)
next
  case (prefix l)
  have "(\<exists>u. s = l @ u) \<longleftrightarrow> length l \<le> length s \<and> take (length l) s = l"
    by (metis append_eq_conv_conj append_take_drop_id le_add1 length_append)
  then show ?thesis
    using prefix by (auto simp: ray_glob_match_compiled_def Let_def tokens_forms glob_lang_prefix)
next
  case (contains l)
  have "occurs_at s l i \<Longrightarrow> length l \<le> length s" for i by (simp add: occurs_at_def)
  then show ?thesis
    using contains memmem_None [of s l]
    by (auto simp: ray_glob_match_compiled_def Let_def tokens_forms glob_lang_contains occurs_at_def
        simp flip: not_None_eq)
qed

lemma memmem_scan_eq:
  assumes "needle \<noteq> []" "\<forall>j < off. \<not> occurs_at s needle j"
  shows "memmem_scan s needle off = memmem s needle"
  using assms
proof (induction s needle off rule: memmem_scan.induct)
  case (1 s needle off)
  let ?w = "take (length s - off - length needle + 1) (drop off s)"
  show ?case
  proof (cases "off \<le> length s \<and> length s - off \<ge> length needle")
    case False
    then have "\<not> occurs_at s needle j" for j
      using 1(3) by (cases "j < off") (auto simp: occurs_at_def)
    then show ?thesis using False memmem_None [of s needle] by (subst memmem_scan.simps) auto
  next
    case True
    have hd: "s ! j = needle ! 0" if "occurs_at s needle j" for j
      using that 1(2) by (auto simp: occurs_at_iff nth_append)
    show ?thesis
    proof (cases "memchr ?w (needle ! 0)")
      case None
      have "\<not> occurs_at s needle j" for j
      proof
        assume o: "occurs_at s needle j"
        then have "off \<le> j" "j + length needle \<le> length s"
          using 1(3) by (auto simp: occurs_at_def not_less [symmetric])
        then have "j - off < length ?w" "?w ! (j - off) = s ! j" using 1(2) by (auto simp: neq_Nil_conv)
        then show False using None hd [OF o] unfolding memchr_def find_None_range by auto
      qed
      then show ?thesis using None True memmem_None [of s needle] by (subst memmem_scan.simps) simp
    next
      case (Some d)
      then have d: "d < length ?w" "\<forall>j < d. ?w ! j \<noteq> needle ! 0"
        by (auto simp: memchr_def find_Some_least)
      have before: "\<not> occurs_at s needle j" if "j < off + d" for j
      proof
        assume o: "occurs_at s needle j"
        then have "off \<le> j" using 1(3) by (auto simp: not_less [symmetric])
        then have "j - off < d" "?w ! (j - off) = s ! j" using that d(1) by auto
        then show False using d(2) hd [OF o] by auto
      qed
      show ?thesis
      proof (cases "take (length needle) (drop (off + d) s) = needle")
        case T: True
        then have "occurs_at s needle (off + d)" using d(1) True 1(2)
          by (auto simp: occurs_at_def neq_Nil_conv)
        then have "memmem s needle = Some (off + d)" using before by (simp add: memmem_Some)
        then show ?thesis using Some True T 1(2) by (subst memmem_scan.simps) simp
      next
        case F: False
        then have "\<forall>j < off + d + 1. \<not> occurs_at s needle j"
          using before by (auto simp: less_Suc_eq occurs_at_def)
        then show ?thesis using 1(1) [OF _ Some F] 1(2) Some True F by (subst memmem_scan.simps) simp
      qed
    qed
  qed
qed

section \<open>Substring patterns\<close>

text \<open>The pattern occurs at \<open>pos\<close>: its tokens take the characters from there, one each.\<close>

definition pat_at :: "gtok list \<Rightarrow> int list \<Rightarrow> nat \<Rightarrow> bool" where
  "pat_at ts s pos \<longleftrightarrow> pos + length ts \<le> length s \<and> (\<forall>j < length ts. tok_ok False (ts ! j) (s ! (pos + j)))"

lemma pat_at_Nil: "pat_at [] s pos \<longleftrightarrow> pos \<le> length s"
  by (simp add: pat_at_def)

lemma pat_at_Cons:
  "pat_at (t # ts) s pos \<longleftrightarrow> pos < length s \<and> tok_ok False t (s ! pos) \<and> pat_at ts s (pos + 1)"
  by (auto simp: pat_at_def less_Suc_eq_0_disj)

lemma strpat_match_loop_eq:
  assumes "TStar \<notin> set (pattern_tokens p i)" "si \<le> length s"
  shows "strpat_match_loop p s i si \<longleftrightarrow> pat_at (pattern_tokens p i) s si"
  using assms
proof (induction p s i si rule: strpat_match_loop.induct)
  case (1 p s i si)
  show ?case
  proof (cases "i < length p \<and> si < length s")
    case False
    show ?thesis
    proof (cases "i < length p")
      case True
      moreover have "pattern_tokens p i \<noteq> []" using True by (subst pattern_tokens.simps) auto
      ultimately show ?thesis
        using False 1(4,5) by (subst strpat_match_loop.simps) (auto simp: pat_at_def neq_Nil_conv)
    qed (use 1(5) in \<open>subst strpat_match_loop.simps, simp add: pattern_tokens_end pat_at_Nil\<close>)
  next
    case True
    then have i: "i < length p" and si: "si < length s" by auto
    have ns: "p ! i \<noteq> CH_STAR" using 1(4) pattern_tokens_star [OF i] by auto
    consider (any) "p ! i = CH_ANY" | (cls) "p ! i = CH_OPEN" | (lit) "p ! i \<noteq> CH_ANY" "p ! i \<noteq> CH_OPEN"
      by blast
    then show ?thesis
    proof cases
      case any
      then have "pattern_tokens p i = TAny # pattern_tokens p (i + 1)"
        using i by (subst pattern_tokens.simps) simp
      then show ?thesis using any i si 1(1,4)
        by (subst strpat_match_loop.simps) (simp add: pat_at_Cons)
    next
      case cls
      then have "pattern_tokens p i = class_tok p i # pattern_tokens p (class_end p i)"
        using i by (subst pattern_tokens.simps) simp
      then show ?thesis using cls i si 1(2,4) match_class_eq [of p i]
        by (subst strpat_match_loop.simps) (simp add: pat_at_Cons Let_def)
    next
      case lit
      then have "pattern_tokens p i = TLit (p ! i) # pattern_tokens p (i + 1)"
        using i ns by (subst pattern_tokens.simps) simp
      then show ?thesis using lit i si 1(3,4)
        by (subst strpat_match_loop.simps) (auto simp: pat_at_Cons fold_case_def)
    qed
  qed
qed

text \<open>A run of literal tokens: \<open>len\<close> tokens from \<open>tk\<close> are the pattern bytes from \<open>st\<close>.\<close>

definition lit_run :: "gtok list \<Rightarrow> int list \<Rightarrow> nat \<Rightarrow> nat \<Rightarrow> nat \<Rightarrow> bool" where
  "lit_run ts p tk st len \<longleftrightarrow> tk + len \<le> length ts \<and> st + len \<le> length p
     \<and> (\<forall>j < len. ts ! (tk + j) = TLit (p ! (st + j)))"

lemma lit_run_append: "lit_run ts p tk st len \<Longrightarrow> lit_run (ts @ us) p tk st len"
  by (auto simp: lit_run_def nth_append)

lemma lit_run_snoc:
  "lit_run ts p tk st len \<Longrightarrow> tk + len = length ts \<Longrightarrow> st + len < length p
     \<Longrightarrow> lit_run (ts @ [TLit (p ! (st + len))]) p tk st (Suc len)"
  by (auto simp: lit_run_def nth_append less_Suc_eq)

definition comp_inv :: "int list \<Rightarrow> nat \<Rightarrow> gtok list \<Rightarrow> strpat_locals \<Rightarrow> bool" where
  "comp_inv p i ts l \<longleftrightarrow> i \<le> length p \<and> l_tokens l = length ts
     \<and> (run_len l > 0 \<longrightarrow> lit_run ts p (run_token l) (run_start l) (run_len l)
          \<and> run_token l + run_len l = length ts \<and> run_start l + run_len l = i)
     \<and> lit_run ts p (best_token l) (best_start l) (best_len l)
     \<and> (l_literal l \<longrightarrow> ts = map TLit (take i p))"

lemma comp_inv_flush:
  "comp_inv p i ts l \<Longrightarrow> comp_inv p i ts (search_flush_run l) \<and> run_len (search_flush_run l) = 0
     \<and> l_tokens (search_flush_run l) = l_tokens l \<and> l_literal (search_flush_run l) = l_literal l"
  by (auto simp: comp_inv_def search_flush_run_def Let_def)

lemma comp_inv_wild:
  assumes "comp_inv p i ts l" "j \<le> length p"
  shows "comp_inv p j (ts @ [t])
    ((search_flush_run (l\<lparr>l_literal := False\<rparr>))\<lparr>l_tokens := l_tokens (search_flush_run (l\<lparr>l_literal := False\<rparr>)) + 1\<rparr>)"
proof -
  have "comp_inv p i ts (l\<lparr>l_literal := False\<rparr>)" using assms(1) by (simp add: comp_inv_def)
  from comp_inv_flush [OF this] show ?thesis
    using assms by (auto simp: comp_inv_def intro: lit_run_append)
qed

lemma comp_inv_lit:
  assumes "comp_inv p i ts l" "i < length p"
    "l' = (if run_len l = 0 then l\<lparr>run_start := i, run_token := l_tokens l\<rparr> else l)"
  shows "comp_inv p (i + 1) (ts @ [TLit (p ! i)]) (l'\<lparr>run_len := run_len l' + 1, l_tokens := l_tokens l' + 1\<rparr>)"
proof -
  have r: "lit_run ts p (run_token l') (run_start l') (run_len l')
      \<and> run_token l' + run_len l' = length ts \<and> run_start l' + run_len l' = i"
    using assms by (auto simp: comp_inv_def lit_run_def)
  then have "lit_run (ts @ [TLit (p ! i)]) p (run_token l') (run_start l') (Suc (run_len l'))"
    using lit_run_snoc [of ts p "run_token l'" "run_start l'" "run_len l'"] assms(2) by simp
  then show ?thesis
    using assms r by (auto simp: comp_inv_def take_Suc_conv_app_nth intro: lit_run_append)
qed

definition comp_result :: "int list \<Rightarrow> nat \<Rightarrow> gtok list \<Rightarrow> strpat_locals option \<Rightarrow> bool" where
  "comp_result p i ts r = (case r of
      None \<Rightarrow> TStar \<in> set (pattern_tokens p i)
    | Some l' \<Rightarrow> TStar \<notin> set (pattern_tokens p i)
        \<and> comp_inv p (length p) (ts @ pattern_tokens p i) l')"

lemma comp_result_step:
  assumes "pattern_tokens p i = t # pattern_tokens p j" "t \<noteq> TStar" "comp_result p j (ts @ [t]) r"
  shows "comp_result p i ts r"
  using assms by (simp add: comp_result_def split: option.splits)

lemma strpat_loop_wild:
  "i < length p \<Longrightarrow> p ! i = CH_ANY \<or> p ! i = CH_OPEN \<Longrightarrow>
   strpat_loop p i l = (let l1 = search_flush_run (l\<lparr>l_literal := False\<rparr>) in
     strpat_loop p (if p ! i = CH_OPEN then class_end p i else i + 1) (l1\<lparr>l_tokens := l_tokens l1 + 1\<rparr>))"
  by (subst strpat_loop.simps) (auto simp: Let_def)

lemma strpat_loop_inv: "comp_inv p i ts l \<Longrightarrow> comp_result p i ts (strpat_loop p i l)"
proof (induction p i l arbitrary: ts rule: strpat_loop.induct)
  case (1 p i l)
  consider (fin) "i = length p" | (star) "i < length p" "p ! i = CH_STAR"
    | (any) "i < length p" "p ! i = CH_ANY" | (cls) "i < length p" "p ! i = CH_OPEN"
    | (lit) "i < length p" "p ! i \<noteq> CH_STAR" "p ! i \<noteq> CH_ANY" "p ! i \<noteq> CH_OPEN"
    using 1(3) by (auto simp: comp_inv_def le_less)
  then show ?case
  proof cases
    case fin
    then show ?thesis
      using comp_inv_flush [OF 1(3)]
      by (subst strpat_loop.simps) (simp add: comp_result_def pattern_tokens_end)
  next
    case star
    then show ?thesis by (subst strpat_loop.simps) (simp add: comp_result_def pattern_tokens_star)
  next
    case any
    have t: "pattern_tokens p i = TAny # pattern_tokens p (i + 1)"
      using any by (subst pattern_tokens.simps) simp
    define l1 where "l1 = search_flush_run (l\<lparr>l_literal := False\<rparr>)"
    define i' where "i' = (if p ! i = CH_OPEN then class_end p i else i + 1)"
    have i': "i' = i + 1" using any by (simp add: i'_def)
    have "comp_result p i' (ts @ [TAny]) (strpat_loop p i' (l1\<lparr>l_tokens := l_tokens l1 + 1\<rparr>))"
      by (rule 1(1) [OF any(1) _ _ l1_def i'_def])
        (use any comp_inv_wild [OF 1(3), of "i + 1" TAny] in \<open>auto simp: l1_def i'\<close>)
    then show ?thesis
      unfolding i' using any comp_result_step [OF t] by (subst strpat_loop_wild) (simp_all add: l1_def Let_def)
  next
    case cls
    have t: "pattern_tokens p i = class_tok p i # pattern_tokens p (class_end p i)"
      using cls by (subst pattern_tokens.simps) simp
    have n: "class_tok p i \<noteq> TStar" by (simp add: class_tok_def Let_def)
    define l1 where "l1 = search_flush_run (l\<lparr>l_literal := False\<rparr>)"
    define i' where "i' = (if p ! i = CH_OPEN then class_end p i else i + 1)"
    have i': "i' = class_end p i" using cls by (simp add: i'_def)
    have "comp_result p i' (ts @ [class_tok p i]) (strpat_loop p i' (l1\<lparr>l_tokens := l_tokens l1 + 1\<rparr>))"
      by (rule 1(1) [OF cls(1) _ _ l1_def i'_def])
        (use cls comp_inv_wild [OF 1(3) class_end_le [OF cls(1)], of "class_tok p i"] in
          \<open>auto simp: l1_def i'\<close>)
    then show ?thesis
      unfolding i' using cls comp_result_step [OF t n] by (subst strpat_loop_wild) (simp_all add: l1_def Let_def)
  next
    case lit
    have t: "pattern_tokens p i = TLit (p ! i) # pattern_tokens p (i + 1)"
      using lit by (subst pattern_tokens.simps) simp
    define l' where "l' = (if run_len l = 0 then l\<lparr>run_start := i, run_token := l_tokens l\<rparr> else l)"
    have e: "strpat_loop p i l = strpat_loop p (i + 1) (l'\<lparr>run_len := run_len l' + 1, l_tokens := l_tokens l' + 1\<rparr>)"
      using lit by (subst strpat_loop.simps) (simp add: Let_def l'_def)
    have "comp_result p (i + 1) (ts @ [TLit (p ! i)])
        (strpat_loop p (i + 1) (l'\<lparr>run_len := run_len l' + 1, l_tokens := l_tokens l' + 1\<rparr>))"
      by (rule 1(2) [OF lit(1,2) _ l'_def]) (use lit comp_inv_lit [OF 1(3) lit(1) l'_def] in auto)
    then show ?thesis unfolding e by (intro comp_result_step [OF t]) simp_all
  qed
qed

lemma ray_strpat_compile_ok:
  "case ray_strpat_compile p of
      None \<Rightarrow> TStar \<in> set (pattern_tokens p 0)
    | Some c \<Rightarrow> TStar \<notin> set (pattern_tokens p 0) \<and> pat c = p
        \<and> tokens c = length (pattern_tokens p 0)
        \<and> length (anchor c) = anchor_len c \<and> anchor_token c + anchor_len c \<le> tokens c
        \<and> (\<forall>j < anchor_len c. pattern_tokens p 0 ! (anchor_token c + j) = TLit (anchor c ! j))
        \<and> (literal c \<longrightarrow> pattern_tokens p 0 = map TLit p)"
proof -
  have "comp_inv p 0 [] strpat_locals0" by (simp add: comp_inv_def strpat_locals0_def lit_run_def)
  from strpat_loop_inv [OF this] show ?thesis
    by (auto simp: comp_result_def ray_strpat_compile_def comp_inv_def lit_run_def split: option.splits)
qed

lemma strpat_memmem_eq: "strpat_memmem s needle = memmem s needle"
proof -
  have z: "memmem s [] = Some 0" by (simp add: memmem_Some occurs_at_def)
  have one: "memmem s [c] = memchr s c" for c
  proof -
    have "occurs_at s [c] i \<longleftrightarrow> i < length s \<and> s ! i = c" for i
      by (auto simp: occurs_at_def take_Suc_conv_app_nth)
    then have "memchr s c = r \<Longrightarrow> memmem s [c] = r" for r
      by (cases r) (auto simp: memmem_Some memmem_None memchr_def find_Some_least find_None_range)
    then show ?thesis by simp
  qed
  have long: "length s < length needle \<Longrightarrow> memmem s needle = None"
    by (simp add: memmem_None occurs_at_def)
  show ?thesis
    using z one [of "needle ! 0"] long
    by (auto simp: strpat_memmem_def length_Suc_conv)
qed

definition leftmost :: "gtok list \<Rightarrow> int list \<Rightarrow> nat option \<Rightarrow> bool" where
  "leftmost ts s r = (case r of
      None \<Rightarrow> \<forall>j. \<not> pat_at ts s j
    | Some i \<Rightarrow> pat_at ts s i \<and> (\<forall>j < i. \<not> pat_at ts s j))"

definition strpat_ok :: "gtok list \<Rightarrow> ray_strpat \<Rightarrow> bool" where
  "strpat_ok ts c \<longleftrightarrow> ts = pattern_tokens (pat c) 0 \<and> TStar \<notin> set ts \<and> tokens c = length ts
     \<and> length (anchor c) = anchor_len c \<and> anchor_token c + anchor_len c \<le> tokens c
     \<and> (\<forall>j < anchor_len c. ts ! (anchor_token c + j) = TLit (anchor c ! j))
     \<and> (literal c \<longrightarrow> ts = map TLit (pat c))"

lemma strpat_match_at_eq: "strpat_ok ts c \<Longrightarrow> pos \<le> length s \<Longrightarrow> strpat_match_at c s pos \<longleftrightarrow> pat_at ts s pos"
  using strpat_match_loop_eq [of "pat c" 0 pos s] by (auto simp: strpat_match_at_def strpat_ok_def)

lemma pat_at_anchor:
  assumes "strpat_ok ts c" "pat_at ts s j"
  shows "occurs_at s (anchor c) (j + anchor_token c)"
    "j + anchor_token c + anchor_len c + (tokens c - anchor_token c - anchor_len c) \<le> length s"
proof -
  have "s ! (j + anchor_token c + i) = anchor c ! i" if "i < anchor_len c" for i
    using assms that unfolding strpat_ok_def pat_at_def
    by (metis add.assoc add_less_cancel_left fold_case_def less_le_trans tok_ok.simps(4))
  then show "occurs_at s (anchor c) (j + anchor_token c)"
    using assms unfolding occurs_at_def strpat_ok_def pat_at_def
    by (auto intro!: nth_equalityI)
  show "j + anchor_token c + anchor_len c + (tokens c - anchor_token c - anchor_len c) \<le> length s"
    using assms by (auto simp: strpat_ok_def pat_at_def)
qed

lemma occurs_at_window:
  "off + i + length l \<le> off + n \<Longrightarrow> off + n \<le> length s
     \<Longrightarrow> occurs_at (take n (drop off s)) l i \<longleftrightarrow> occurs_at s l (off + i)"
  by (auto simp: occurs_at_def min_def take_drop add.commute add.left_commute)

lemma anchor_scan_leftmost:
  assumes "strpat_ok ts c" "0 < anchor_len c" "tail = tokens c - anchor_token c - anchor_len c"
    "anchor_token c \<le> k" "\<forall>j. j + anchor_token c < k \<longrightarrow> \<not> pat_at ts s j"
  shows "leftmost ts s (anchor_scan c s tail k)"
  using assms
proof (induction c s tail k rule: anchor_scan.induct)
  case (1 c s tail k)
  note ok = "1.prems"(1) and al = "1.prems"(2) and tl = "1.prems"(3) and kt = "1.prems"(4) and pre = "1.prems"(5)
  have len: "length (anchor c) = anchor_len c" using ok by (simp add: strpat_ok_def)
  have from_k: "k \<le> j + anchor_token c \<and> j + anchor_token c + anchor_len c + tail \<le> length s
      \<and> occurs_at s (anchor c) (j + anchor_token c)" if "pat_at ts s j" for j
    using pat_at_anchor [OF ok that] pre that tl by (metis not_less)
  show ?case
  proof (cases "k + anchor_len c + tail \<le> length s")
    case False
    then have "\<not> pat_at ts s j" for j using from_k [of j] by linarith
    then show ?thesis using False by (subst anchor_scan.simps) (simp add: leftmost_def)
  next
    case True
    define n where "n = length s - tail - k"
    define hay where "hay = take n (drop k s)"
    have win: "occurs_at hay (anchor c) i \<longleftrightarrow> occurs_at s (anchor c) (k + i) \<and> k + i + anchor_len c + tail \<le> length s"
      for i
    proof (cases "i + anchor_len c \<le> n")
      case le: True
      then show ?thesis
        unfolding hay_def using True len by (subst occurs_at_window) (auto simp: n_def)
    next
      case False
      then show ?thesis using True len by (auto simp: hay_def n_def occurs_at_def)
    qed
    have unf: "anchor_scan c s tail k = (case memmem hay (anchor c) of None \<Rightarrow> None
        | Some hit \<Rightarrow> (if k + hit - anchor_token c + tokens c \<le> length s \<and> strpat_match_at c s (k + hit - anchor_token c)
             then Some (k + hit - anchor_token c) else anchor_scan c s tail (k + hit + 1)))"
      using True al by (subst anchor_scan.simps) (simp add: Let_def strpat_memmem_eq hay_def n_def cong: option.case_cong)
    show ?thesis
    proof (cases "memmem hay (anchor c)")
      case None
      have "\<not> pat_at ts s j" for j
      proof
        assume "pat_at ts s j"
        then have "occurs_at hay (anchor c) (j + anchor_token c - k)" using from_k [of j] win by simp
        then show False using None by (simp add: memmem_None)
      qed
      then show ?thesis using None unf by (simp add: leftmost_def)
    next
      case (Some hit)
      define st where "st = k + hit - anchor_token c"
      have hit: "occurs_at hay (anchor c) hit" "\<forall>j < hit. \<not> occurs_at hay (anchor c) j"
        using Some by (simp_all add: memmem_Some)
      have st: "st + anchor_token c = k + hit" using kt by (simp add: st_def)
      have fits: "st + tokens c \<le> length s"
        using hit(1) st tl ok unfolding win by (auto simp: strpat_ok_def)
      have before: "\<not> pat_at ts s j" if "j < st" for j
      proof
        assume "pat_at ts s j"
        then have "occurs_at hay (anchor c) (j + anchor_token c - k)" "k \<le> j + anchor_token c"
          using from_k [of j] win by simp_all
        then show False using hit(2) that st by auto
      qed
      show ?thesis
      proof (cases "pat_at ts s st")
        case True
        then have "anchor_scan c s tail k = Some st"
          using Some unf fits strpat_match_at_eq [OF ok, of st s] by (simp add: st_def)
        then show ?thesis using True before by (simp add: leftmost_def)
      next
        case F: False
        then have e: "anchor_scan c s tail k = anchor_scan c s tail (k + hit + 1)"
          using Some unf fits strpat_match_at_eq [OF ok, of st s] by (simp add: st_def)
        have nx: "\<forall>j. j + anchor_token c < k + hit + 1 \<longrightarrow> \<not> pat_at ts s j"
          using before F st by (metis Suc_eq_plus1 add_less_cancel_right less_Suc_eq)
        have "leftmost ts s (anchor_scan c s tail (k + hit + 1))"
          using "1.IH" [OF _ refl _ refl refl _ ok al tl _ nx] al True Some F fits kt
            strpat_match_at_eq [OF ok, of st s]
          by (simp add: strpat_memmem_eq hay_def n_def st_def)
        then show ?thesis unfolding e .
      qed
    qed
  qed
qed

lemma ray_strpat_find_leftmost:
  assumes "strpat_ok ts c"
  shows "leftmost ts s (ray_strpat_find c s)"
proof -
  have tk: "tokens c = length ts" using assms by (simp add: strpat_ok_def)
  have none: "leftmost ts s None" if "length s < length ts"
    using that by (auto simp: leftmost_def pat_at_def)
  have lit: "pat_at (map TLit l) s i \<longleftrightarrow> occurs_at s l i" for l i
    unfolding pat_at_def occurs_at_def by (auto simp: fold_case_def list_eq_iff_nth_eq)
  have l: "leftmost ts s (strpat_memmem s (pat c))" if "literal c"
  proof -
    have "pat_at ts s = occurs_at s (pat c)" using assms that lit by (auto simp: strpat_ok_def)
    then show ?thesis
      unfolding strpat_memmem_eq leftmost_def by (simp add: memmem_Some memmem_None split: option.split)
  qed
  have a: "leftmost ts s (anchor_scan c s (tokens c - anchor_token c - anchor_len c) (anchor_token c))"
    if "anchor_len c > 0" using that by (intro anchor_scan_leftmost [OF assms]) auto
  have f: "leftmost ts s (find (strpat_match_at c s) [0..<length s - tokens c + 1])" if "\<not> length s < length ts"
  proof -
    have m: "strpat_match_at c s i \<longleftrightarrow> pat_at ts s i" if "i \<le> length s" for i
      by (rule strpat_match_at_eq [OF assms that])
    have b: "pat_at ts s j \<Longrightarrow> j < length s - tokens c + 1" for j by (auto simp: pat_at_def tk)
    show ?thesis
    proof (cases "find (strpat_match_at c s) [0..<length s - tokens c + 1]")
      case None
      then have "\<not> pat_at ts s j" for j
        using b [of j] m [of j] unfolding find_None_range by (auto simp: pat_at_def)
      then show ?thesis using None by (simp add: leftmost_def del: upt_Suc)
    next
      case (Some i)
      then have i: "i < length s - tokens c + 1" "strpat_match_at c s i"
        "\<And>j. j < i \<Longrightarrow> \<not> strpat_match_at c s j"
        unfolding find_Some_least by auto
      then have "pat_at ts s i" "\<forall>j < i. \<not> pat_at ts s j" using m by auto
      then show ?thesis using Some by (simp add: leftmost_def del: upt_Suc)
    qed
  qed
  have z: "leftmost ts s (Some 0)" if "tokens c = 0"
    using that tk by (simp add: leftmost_def pat_at_Nil)
  show ?thesis using none l a f z by (auto simp: ray_strpat_find_def tk not_less)
qed

section \<open>Properties\<close>

text \<open>
  C10. The matcher is exact: the single-star backtracking accepts a string if and only if the string
  is a concatenation of words of the pattern's tokens, case-sensitive or not.  It always ends
  (\<open>glob_loop\<close> is a total function).
\<close>

theorem glob_match_correct:
  "ray_glob_match s p = glob_lang False (pattern_tokens p 0) s
   \<and> ray_glob_match_ci s p = glob_lang True (pattern_tokens p 0) s"
  by (simp add: ray_glob_match_def ray_glob_match_ci_def glob_impl_lang)

text \<open>
  C31. The compiled fast path agrees with the general matcher on every pattern it accepts.
\<close>

theorem glob_compiled_equiv:
  assumes "shape (ray_glob_compile p) \<noteq> SHAPE_NONE"
  shows "ray_glob_match_compiled (ray_glob_compile p) s = ray_glob_match s p"
  using match_compiled_correct [OF assms] by (simp add: ray_glob_match_def glob_impl_lang)

theorem glob_compiled_equiv_witness:
  "shape (ray_glob_compile [42, 97, 98, 42]) = SHAPE_CONTAINS
   \<and> ray_glob_match_compiled (ray_glob_compile [42, 97, 98, 42]) [120, 97, 98]
       = ray_glob_match [120, 97, 98] [42, 97, 98, 42]"
proof -
  have "shape (ray_glob_compile [42, 97, 98, 42]) = SHAPE_CONTAINS" by code_simp
  then show ?thesis using glob_compiled_equiv [of "[42, 97, 98, 42]" "[120, 97, 98]"] by simp
qed

text \<open>
  C32. The substring search finds the first position at which the pattern's tokens match, and
  finds none exactly if there is none (or the pattern has a star, which is refused).
\<close>

theorem strpat_find_first:
  "ray_strpat_find_raw s p = Some pos \<longleftrightarrow>
     TStar \<notin> set (pattern_tokens p 0) \<and> pat_at (pattern_tokens p 0) s pos
     \<and> (\<forall>j < pos. \<not> pat_at (pattern_tokens p 0) s j)"
proof (cases "ray_strpat_compile p")
  case None
  then show ?thesis using ray_strpat_compile_ok [of p] by (simp add: ray_strpat_find_raw_def)
next
  case (Some c)
  then have ok: "strpat_ok (pattern_tokens p 0) c" "TStar \<notin> set (pattern_tokens p 0)"
    using ray_strpat_compile_ok [of p] by (auto simp: strpat_ok_def)
  show ?thesis
    using ray_strpat_find_leftmost [OF ok(1), of s] ok(2) Some
    by (auto simp: ray_strpat_find_raw_def leftmost_def split: option.splits) (metis linorder_neqE_nat)
qed

text \<open>
  The portable byte scan used where the C library has no \<open>memmem\<close> finds the same position.
\<close>

theorem memmem_fallback_equiv:
  assumes "needle \<noteq> []"
  shows "memmem_scan s needle 0 = memmem s needle"
  using memmem_scan_eq [OF assms, of 0 s] by simp

theorem memmem_fallback_equiv_witness:
  "[1, 2] \<noteq> ([] :: int list) \<and> memmem_scan [1, 1, 2, 3] [1, 2] 0 = memmem [1, 1, 2, 3] [1, 2]"
  using memmem_fallback_equiv [of "[1, 2]" "[1, 1, 2, 3]"] by simp
theorem strpat_find_first_witness: "ray_strpat_find_raw [120, 97, 98] [97, 98] = Some 1"
proof -
  have t: "pattern_tokens [97, 98] 0 = [TLit 97, TLit 98]"
    by code_simp
  have "pat_at [TLit 97, TLit 98] [120, 97, 98] 1" "\<not> pat_at [TLit 97, TLit 98] [120, 97, 98] 0"
    by (simp_all add: pat_at_Cons pat_at_Nil fold_case_def)
  then show ?thesis using strpat_find_first [of "[120, 97, 98]" "[97, 98]" 1] t by simp
qed
end
