(* ===== verification/Timers.thy ===== *)
theory Timers
  imports Prelude "HOL-Library.Product_Lexorder"
begin

text \<open>
  The timer heap (\<^verbatim>\<open>src/core/timer.c\<close>): a binary min-heap in an array, keyed on the deadline and
  then the id.  The state is the array (its first \<open>n\<close> slots, as a list), the capacity, the id
  counter and the number of references the timers hold on each callback.  A callback is code of
  the interpreter: it is a parameter that says which timer calls the callback makes when it runs,
  which is all it can do to the timers.  Firing yields the set and the calls it made, each with the
  callback and the time it was given.  Signed overflow and a write past the
  capacity of the array are undefined behaviour: the loop ends there with the fault as its result.
\<close>

record timer =
  t_id :: int
  tic_ms :: int
  exp_ms :: int
  num :: int
  fn :: nat

record ray_timers =
  heap :: "timer list"
  cap :: int
  next_id :: int
  refs :: "nat \<Rightarrow> int"

section \<open>The heap\<close>

definition heap_less :: "timer \<Rightarrow> timer \<Rightarrow> bool" where
  "heap_less a b = (if exp_ms a \<noteq> exp_ms b then exp_ms a < exp_ms b else t_id a < t_id b)"

definition heap_swap :: "timer list \<Rightarrow> nat \<Rightarrow> nat \<Rightarrow> timer list" where
  "heap_swap h i j = h[i := h ! j, j := h ! i]"

fun heap_up :: "timer list \<Rightarrow> nat \<Rightarrow> timer list" where
  "heap_up h i =
     (if i > 0 then
        let parent = (i - 1) div 2 in
        if heap_less (h ! i) (h ! parent) then heap_up (heap_swap h i parent) parent else h
      else h)"

declare heap_up.simps [simp del]

text \<open>The child that \<open>heap_down\<close> selects, \<open>i\<close> itself if none is smaller.\<close>

definition heap_best :: "timer list \<Rightarrow> nat \<Rightarrow> nat" where
  "heap_best h i =
     (let n = length h; l = 2 * i + 1; r = 2 * i + 2;
          best = (if l < n \<and> heap_less (h ! l) (h ! i) then l else i)
      in if r < n \<and> heap_less (h ! r) (h ! best) then r else best)"

lemma heap_best_cases:
  "heap_best h i = i \<or> (heap_best h i < length h \<and> (heap_best h i = 2 * i + 1 \<or> heap_best h i = 2 * i + 2)
     \<and> heap_less (h ! heap_best h i) (h ! i))"
  by (auto simp: heap_best_def Let_def heap_less_def split: if_splits)

function heap_down :: "timer list \<Rightarrow> nat \<Rightarrow> timer list" where
  "heap_down h i =
     (let best = heap_best h i in
      if best = i then h else heap_down (heap_swap h i best) best)"
  by pat_completeness auto
termination
proof (relation "measure (\<lambda>(h, i). length h - i)")
  fix h :: "timer list" and i best
  assume "best = heap_best h i" "best \<noteq> i"
  then show "((heap_swap h i best, best), (h, i)) \<in> measure (\<lambda>(h, i). length h - i)"
    using heap_best_cases [of h i] by (auto simp: heap_swap_def)
qed simp

declare heap_down.simps [simp del]

definition heap_push :: "timer \<Rightarrow> timer list \<Rightarrow> timer list" where
  "heap_push x h = heap_up (h @ [x]) (length h)"

text \<open>Removing the head: the tail element takes its place and sinks.\<close>

definition heap_pop :: "timer list \<Rightarrow> timer list" where
  "heap_pop h =
     (let h' = butlast h in if h' \<noteq> [] then heap_down (h'[0 := last h]) 0 else h')"

section \<open>The operations\<close>

definition ray_timers_create :: "bool \<Rightarrow> bool \<Rightarrow> int \<Rightarrow> ray_timers option" where
  "ray_timers_create ok_struct ok_heap initial_cap =
     (let initial_cap = (if initial_cap < 1 then 1 else initial_cap) in
      if \<not> ok_struct then None else if \<not> ok_heap then None
      else Some \<lparr>heap = [], cap = initial_cap, next_id = 0, refs = (\<lambda>_. 0)\<rparr>)"

definition ray_timers_destroy :: "ray_timers \<Rightarrow> nat \<Rightarrow> int" where
  "ray_timers_destroy t = fold (\<lambda>x r. r(fn x := r (fn x) - 1)) (heap t) (refs t)"

definition heap_grow :: "bool \<Rightarrow> ray_timers \<Rightarrow> ray_timers option" where
  "heap_grow ok t = (if ok then Some (t\<lparr>cap := cap t * 2\<rparr>) else None)"

text \<open>
  \<open>ok_grow\<close> and \<open>ok_timer\<close> are the outcomes of the two allocations, \<open>now\<close> the reading of the clock;
  \<open>f\<close> is absent for a NULL callback.  The result is the returned id and the new state.
\<close>

definition ray_timers_add ::
  "bool \<Rightarrow> bool \<Rightarrow> int \<Rightarrow> ray_timers \<Rightarrow> int \<Rightarrow> int \<Rightarrow> nat option \<Rightarrow> (int \<times> ray_timers) option" where
  "ray_timers_add ok_grow ok_timer now t tic n f =
     (case f of None \<Rightarrow> Some (-1, t) | Some f \<Rightarrow>
      case (if int (length (heap t)) \<ge> cap t then heap_grow ok_grow t else Some t) of
        None \<Rightarrow> Some (-1, t)
      | Some t \<Rightarrow>
          if \<not> ok_timer then Some (-1, t)
          else do {
            nid \<leftarrow> chk_i64 (next_id t + 1);
            e \<leftarrow> chk_i64 (now + tic);
            let x = \<lparr>t_id = next_id t, tic_ms = tic, exp_ms = e, num = n, fn = f\<rparr>;
            Some (t_id x, t\<lparr>heap := heap_push x (heap t), next_id := nid,
                            refs := (refs t)(f := refs t f + 1)\<rparr>)
          })"

definition ray_timers_del :: "ray_timers \<Rightarrow> int \<Rightarrow> bool \<times> ray_timers" where
  "ray_timers_del t tid =
     (case find (\<lambda>i. t_id (heap t ! i) = tid) [0..<length (heap t)] of
        None \<Rightarrow> (False, t)
      | Some i \<Rightarrow>
          let f = fn (heap t ! i); h = butlast (heap t);
              h = (if i < length h then heap_up (heap_down (h[i := last (heap t)]) i) i else h)
          in (True, t\<lparr>heap := h, refs := (refs t)(f := refs t f - 1)\<rparr>))"

definition ray_timers_next_deadline_ms :: "ray_timers \<Rightarrow> int" where
  "ray_timers_next_deadline_ms t = (if heap t = [] then 2 ^ 63 - 1 else exp_ms (heap t ! 0))"

section \<open>Firing\<close>

text \<open>The timer calls a callback makes (\<^verbatim>\<open>.time.timer.set\<close> and \<^verbatim>\<open>.time.timer.del\<close>).\<close>

datatype timer_call = Add bool bool int int int nat | Del int

fun run_call :: "timer_call \<Rightarrow> ray_timers \<Rightarrow> ray_timers option" where
  "run_call (Add ok_grow ok_timer now tic n f) t =
     map_option snd (ray_timers_add ok_grow ok_timer now t tic n (Some f))"
| "run_call (Del tid) t = Some (snd (ray_timers_del t tid))"

fun run_calls :: "timer_call list \<Rightarrow> ray_timers \<Rightarrow> ray_timers option" where
  "run_calls [] t = Some t"
| "run_calls (c # cs) t = do { t' \<leftarrow> run_call c t; run_calls cs t' }"

text \<open>What has no defined behaviour: signed overflow, and a store past the end of the array.\<close>

datatype fault = Overflow | PastEnd

text \<open>Re-pushing a fired timer: the slot \<open>heap[n]\<close> must exist; nothing grows the array here.\<close>

definition repush :: "timer \<Rightarrow> ray_timers \<Rightarrow> fault + ray_timers" where
  "repush x t =
     (if int (length (heap t)) < cap t then Inr (t\<lparr>heap := heap_push x (heap t)\<rparr>) else Inl PastEnd)"

definition reschedule :: "timer \<Rightarrow> ray_timers \<Rightarrow> fault + ray_timers" where
  "reschedule x t =
     (if num x = 0 then
        (case chk_i64 (exp_ms x + tic_ms x) of None \<Rightarrow> Inl Overflow | Some e \<Rightarrow> repush (x\<lparr>exp_ms := e\<rparr>) t)
      else if num x > 1 then
        (case chk_i64 (exp_ms x + tic_ms x) of None \<Rightarrow> Inl Overflow
         | Some e \<Rightarrow> repush (x\<lparr>num := num x - 1, exp_ms := e\<rparr>) t)
      else Inr (t\<lparr>refs := (refs t)(fn x := refs t (fn x) - 1)\<rparr>))"

text \<open>The result of firing, with the calls made: which callback, and the time it was given.\<close>

datatype fire_result =
    Returned ray_timers "(nat \<times> int) list"
  | OutOfFuel ray_timers "(nat \<times> int) list"
  | Undefined fault

text \<open>
  The loop of \<open>ray_timers_fire_expired\<close>.  The clock gives \<open>clk k\<close> at its reading number \<open>k\<close>; \<open>k\<close> readings
  have been taken and the last is \<open>now\<close>.
\<close>

fun fire_loop ::
  "nat \<Rightarrow> (nat \<Rightarrow> int \<Rightarrow> timer_call list) \<Rightarrow> (nat \<Rightarrow> int) \<Rightarrow> nat \<Rightarrow> int \<Rightarrow> (nat \<times> int) list \<Rightarrow> ray_timers \<Rightarrow> fire_result" where
  "fire_loop 0 cb clk k now calls t = OutOfFuel t calls"
| "fire_loop (Suc fuel) cb clk k now calls t =
     (if heap t \<noteq> [] \<and> exp_ms (heap t ! 0) \<le> now then
        let x = heap t ! 0; t1 = t\<lparr>heap := heap_pop (heap t)\<rparr> in
        case run_calls (cb (fn x) now) t1 of
          None \<Rightarrow> Undefined Overflow
        | Some t2 \<Rightarrow>
            (case reschedule x t2 of
               Inl e \<Rightarrow> Undefined e
             | Inr t3 \<Rightarrow> fire_loop fuel cb clk (k + 1) (clk k) (calls @ [(fn x, now)]) t3)
      else Returned t calls)"

definition ray_timers_fire_expired ::
  "nat \<Rightarrow> (nat \<Rightarrow> int \<Rightarrow> timer_call list) \<Rightarrow> (nat \<Rightarrow> int) \<Rightarrow> ray_timers \<Rightarrow> fire_result" where
  "ray_timers_fire_expired fuel cb clk t =
     (if heap t = [] then Returned t [] else fire_loop fuel cb clk 1 (clk 0) [] t)"

section \<open>The priority queue interface\<close>

locale priority_queue =
  fixes inv :: "'q \<Rightarrow> bool" and elems :: "'q \<Rightarrow> 'a multiset" and key :: "'a \<Rightarrow> 'k::linorder"
    and push :: "'a \<Rightarrow> 'q \<Rightarrow> 'q" and pop :: "'q \<Rightarrow> 'q" and top :: "'q \<Rightarrow> 'a"
  assumes push_inv: "inv q \<Longrightarrow> inv (push x q)"
    and push_elems: "inv q \<Longrightarrow> elems (push x q) = add_mset x (elems q)"
    and pop_inv: "inv q \<Longrightarrow> elems q \<noteq> {#} \<Longrightarrow> inv (pop q)"
    and pop_elems: "inv q \<Longrightarrow> elems q \<noteq> {#} \<Longrightarrow> elems q = add_mset (top q) (elems (pop q))"
    and top_least: "inv q \<Longrightarrow> x \<in># elems q \<Longrightarrow> key (top q) \<le> key x"
begin

lemma top_mem:
  assumes "inv q" "elems q \<noteq> {#}"
  shows "top q \<in># elems q"
  by (subst pop_elems [OF assms]) simp

lemma pop_mem:
  assumes "inv q" "elems q \<noteq> {#}" "x \<in># elems (pop q)"
  shows "x \<in># elems q"
  using assms(3) by (subst pop_elems [OF assms(1,2)]) simp

text \<open>Successive heads come in order.\<close>

lemma next_top_ge:
  assumes "inv q" "elems q \<noteq> {#}" "elems (pop q) \<noteq> {#}"
  shows "key (top q) \<le> key (top (pop q))"
  by (rule top_least [OF assms(1) pop_mem [OF assms(1,2) top_mem [OF pop_inv [OF assms(1,2)] assms(3)]]])

end

definition tkey :: "timer \<Rightarrow> int \<times> int" where
  "tkey x = (exp_ms x, t_id x)"

lemma heap_less_key: "heap_less a b \<longleftrightarrow> tkey a < tkey b"
  by (auto simp: heap_less_def tkey_def)

definition par :: "nat \<Rightarrow> nat" where "par i = (i - 1) div 2"

lemma par_less: "0 < i \<Longrightarrow> par i < i" by (simp add: par_def)

lemma par_children: "par c = i \<and> 0 < c \<longleftrightarrow> c = 2 * i + 1 \<or> c = 2 * i + 2"
  by (auto simp: par_def)

text \<open>The edge above \<open>j\<close> is in order.\<close>

definition edge :: "timer list \<Rightarrow> nat \<Rightarrow> bool" where
  "edge h j \<longleftrightarrow> tkey (h ! par j) \<le> tkey (h ! j)"

definition is_heap :: "timer list \<Rightarrow> bool" where
  "is_heap h \<longleftrightarrow> (\<forall>j. 0 < j \<and> j < length h \<longrightarrow> edge h j)"

text \<open>Every edge but the one above \<open>i\<close>; below \<open>i\<close> nothing is smaller than the parent of \<open>i\<close>.\<close>

definition heap_but_up :: "timer list \<Rightarrow> nat \<Rightarrow> bool" where
  "heap_but_up h i \<longleftrightarrow>
     (\<forall>j. 0 < j \<and> j < length h \<and> j \<noteq> i \<longrightarrow> edge h j)
     \<and> (\<forall>c. 0 < i \<and> 0 < c \<and> c < length h \<and> par c = i \<longrightarrow> tkey (h ! par i) \<le> tkey (h ! c))"

text \<open>Every edge but those that touch \<open>i\<close>.\<close>

definition heap_but_at :: "timer list \<Rightarrow> nat \<Rightarrow> bool" where
  "heap_but_at h i \<longleftrightarrow>
     (\<forall>j. 0 < j \<and> j < length h \<and> j \<noteq> i \<and> par j \<noteq> i \<longrightarrow> edge h j)
     \<and> (\<forall>c. 0 < i \<and> 0 < c \<and> c < length h \<and> par c = i \<longrightarrow> tkey (h ! par i) \<le> tkey (h ! c))"

lemma heap_swap_nth:
  "i < length h \<Longrightarrow> j < length h \<Longrightarrow> k < length h \<Longrightarrow>
     heap_swap h i j ! k = (if k = i then h ! j else if k = j then h ! i else h ! k)"
  by (auto simp: heap_swap_def nth_list_update)

lemma heap_swap_length [simp]: "length (heap_swap h i j) = length h"
  by (simp add: heap_swap_def)

lemma heap_swap_mset: "i < length h \<Longrightarrow> j < length h \<Longrightarrow> mset (heap_swap h i j) = mset h"
  unfolding heap_swap_def by (rule mset_swap)

lemma heap_up_ok:
  assumes "heap_but_up h i" "i < length h"
  shows "is_heap (heap_up h i) \<and> mset (heap_up h i) = mset h"
  using assms
proof (induction h i rule: heap_up.induct)
  case (1 h i)
  show ?case
  proof (cases "i > 0 \<and> heap_less (h ! i) (h ! par i)")
    case False
    have "edge h i" if "0 < i"
      using False that by (auto simp: heap_less_key edge_def)
    then have "is_heap h" using 1(2) by (auto simp: is_heap_def heap_but_up_def)
    moreover have "heap_up h i = h"
      using False by (subst heap_up.simps) (auto simp: par_def Let_def)
    ultimately show ?thesis by simp
  next
    case True
    let ?p = "par i" and ?h = "heap_swap h i (par i)"
    have p: "?p < i" using True par_less by simp
    have pl: "?p < length h" using p 1(3) by simp
    have lt: "tkey (h ! i) < tkey (h ! ?p)" using True by (simp add: heap_less_key)
    note sw = heap_swap_nth [OF 1(3) pl]
    have old: "edge h j" if "0 < j" "j < length h" "j \<noteq> i" for j
      using 1(2) that by (simp add: heap_but_up_def)
    have e: "edge ?h j" if j: "0 < j" "j < length h" "j \<noteq> ?p" for j
    proof -
      have pj: "par j < length h" "par j \<noteq> j" using par_less [OF j(1)] j(2) by auto
      show ?thesis
      proof (cases "j = i")
        case True
        then show ?thesis using lt p sw [OF 1(3)] sw [OF pl] by (simp add: edge_def)
      next
        case F: False
        show ?thesis
        proof (cases "par j = i")
          case True
          have "tkey (h ! ?p) \<le> tkey (h ! j)"
            using 1(2) True j \<open>i > 0 \<and> _\<close> by (simp add: heap_but_up_def)
          then show ?thesis using True F j p sw [OF j(2)] sw [OF 1(3)] by (simp add: edge_def)
        next
          case False
          show ?thesis
            using old [OF j(1,2) F] lt F False j sw [OF j(2)] sw [OF pj(1)]
            by (cases "par j = ?p") (auto simp: edge_def)
        qed
      qed
    qed
    have g: "tkey (?h ! par ?p) \<le> tkey (?h ! c)" if c: "0 < ?p" "0 < c" "c < length h" "par c = ?p" for c
    proof -
      have pp: "par ?p < ?p" using par_less c(1) by simp
      have "tkey (h ! par ?p) \<le> tkey (h ! ?p)" using old [OF c(1) pl] p by (simp add: edge_def)
      moreover have "c \<noteq> i \<Longrightarrow> tkey (h ! ?p) \<le> tkey (h ! c)" using old [OF c(2,3)] c(4) by (simp add: edge_def)
      moreover have "c \<noteq> ?p" using par_less [OF c(2)] c(4) by auto
      ultimately show ?thesis
        using pp p sw [OF c(3)] sw [of "par ?p"] pl by (auto intro: order_trans)
    qed
    have "heap_but_up ?h ?p" using e g by (simp add: heap_but_up_def)
    then have IH: "is_heap (heap_up ?h ?p) \<and> mset (heap_up ?h ?p) = mset ?h"
      using 1(1) [OF _ refl] True pl by (simp add: par_def)
    moreover have "heap_up h i = heap_up ?h ?p"
      using True by (subst heap_up.simps) (simp add: par_def Let_def)
    ultimately show ?thesis using heap_swap_mset [OF 1(3) pl] by simp
  qed
qed

lemma heap_best_least:
  assumes "i < length h"
  shows "tkey (h ! heap_best h i) \<le> tkey (h ! i)"
    and "0 < c \<Longrightarrow> c < length h \<Longrightarrow> par c = i \<Longrightarrow> tkey (h ! heap_best h i) \<le> tkey (h ! c)"
  using par_children [of c i]
  by (auto simp: heap_best_def Let_def heap_less_key not_less split: if_splits)

lemma heap_best_child:
  assumes "heap_best h i \<noteq> i"
  shows "heap_best h i < length h" "0 < heap_best h i" "par (heap_best h i) = i" "i < heap_best h i"
  using heap_best_cases [of h i] assms par_children [of "heap_best h i" i] by auto

lemma heap_down_frame:
  assumes "i < length h"
  shows "length (heap_down h i) = length h \<and> mset (heap_down h i) = mset h
    \<and> (\<forall>k < i. heap_down h i ! k = h ! k) \<and> heap_down h i ! i = h ! heap_best h i"
  using assms
proof (induction h i rule: heap_down.induct)
  case (1 h i)
  show ?case
  proof (cases "heap_best h i = i")
    case True
    then show ?thesis by (subst (1 2 3 4) heap_down.simps) simp
  next
    case False
    note b = heap_best_child [OF False]
    have e: "heap_down h i = heap_down (heap_swap h i (heap_best h i)) (heap_best h i)"
      using False by (subst heap_down.simps) (simp add: Let_def)
    have "heap_swap h i (heap_best h i) ! k = h ! k" if "k < i" for k
      using that b 1(2) heap_swap_nth [OF 1(2) b(1), of k] by simp
    moreover have "heap_swap h i (heap_best h i) ! i = h ! heap_best h i"
      using b 1(2) heap_swap_nth [OF 1(2) b(1) 1(2)] by simp
    ultimately show ?thesis
      unfolding e using 1(1) [OF refl False] b heap_swap_mset [OF 1(2) b(1)] by simp
  qed
qed

lemma heap_down_ok:
  assumes "heap_but_at h i" "i < length h"
  shows "heap_but_up (heap_down h i) i"
  using assms
proof (induction h i rule: heap_down.induct)
  case (1 h i)
  let ?b = "heap_best h i"
  have old: "edge h j" if "0 < j" "j < length h" "j \<noteq> i" "par j \<noteq> i" for j
    using 1(2) that by (simp add: heap_but_at_def)
  have gp: "tkey (h ! par i) \<le> tkey (h ! c)" if "0 < i" "0 < c" "c < length h" "par c = i" for c
    using 1(2) that by (simp add: heap_but_at_def)
  note least = heap_best_least [OF 1(3)]
  show ?case
  proof (cases "?b = i")
    case True
    have "heap_down h i = h" using True by (subst heap_down.simps) simp
    moreover have "edge h j" if "0 < j" "j < length h" "j \<noteq> i" for j
      using old [OF that] least(2) [OF that(1,2)] True by (cases "par j = i") (auto simp: edge_def)
    ultimately show ?thesis using gp by (simp add: heap_but_up_def)
  next
    case False
    note b = heap_best_child [OF False]
    let ?h = "heap_swap h i ?b"
    note sw = heap_swap_nth [OF 1(3) b(1)]
    have e: "heap_down h i = heap_down ?h ?b" using False by (subst heap_down.simps) (simp add: Let_def)
    have hi: "?h ! i = h ! ?b" "?h ! ?b = h ! i" using sw [OF 1(3)] sw [OF b(1)] b(4) by auto
    have other: "?h ! k = h ! k" if "k < length h" "k \<noteq> i" "k \<noteq> ?b" for k using sw [OF that(1)] that by simp
    have edges: "edge ?h j" if j: "0 < j" "j < length h" "j \<noteq> ?b" "par j \<noteq> ?b" for j
    proof -
      have pl: "par j < length h" "par j < j" using par_less [OF j(1)] j(2) by auto
      consider "j = i" | "par j = i" | "j \<noteq> i" "par j \<noteq> i" by blast
      then show ?thesis
      proof cases
        case 1
        then show ?thesis
          using gp [OF _ b(2,1,3)] j pl other [OF pl(1)] hi(1) by (simp add: edge_def)
      next
        case 2
        then show ?thesis
          using least(2) [OF j(1,2)] j pl other [OF j(2)] hi(1) by (simp add: edge_def)
      next
        case 3
        then show ?thesis
          using old [OF j(1,2)] j other [OF j(2)] other [OF pl(1)] by (simp add: edge_def)
      qed
    qed
    have below: "tkey (h ! ?b) \<le> tkey (h ! c)" if "0 < c" "c < length h" "par c = ?b" for c
      using old [OF that(1,2)] that b(4) par_less [OF that(1)] by (auto simp: edge_def)
    have gp2: "tkey (?h ! par ?b) \<le> tkey (?h ! c)" if c: "0 < c" "c < length h" "par c = ?b" for c
      using below [OF c] b other [OF c(2)] par_less [OF c(1)] c(3) hi(1) by auto
    have "heap_but_at ?h ?b" using edges gp2 by (simp add: heap_but_at_def)
    then have IH: "heap_but_up (heap_down ?h ?b) ?b" using 1(1) [OF refl False] b(1) by simp
    let ?r = "heap_down ?h ?b"
    have bl: "?b < length ?h" using b(1) by simp
    note fr = heap_down_frame [OF bl]
    have ri: "?r ! i = h ! ?b" using fr b(4) hi by simp
    have "tkey (h ! ?b) \<le> tkey (?h ! heap_best ?h ?b)"
    proof (cases "heap_best ?h ?b = ?b")
      case True
      then show ?thesis using least(1) hi by simp
    next
      case F: False
      note c = heap_best_child [OF F]
      show ?thesis using gp2 [OF c(2) _ c(3)] c(1) b(3) hi(1) by simp
    qed
    then have rb: "edge ?r ?b" using fr ri b(3) by (simp add: edge_def)
    have all: "edge ?r j" if "0 < j" "j < length h" "j \<noteq> i" for j
      using IH rb that fr by (cases "j = ?b") (simp_all add: heap_but_up_def)
    moreover have "tkey (?r ! par i) \<le> tkey (?r ! c)" if c: "0 < i" "0 < c" "c < length h" "par c = i" for c
    proof -
      have pi: "par i < i" using par_less c(1) by simp
      have "?r ! par i = h ! par i" using fr pi b(4) other [of "par i"] 1(3) by simp
      moreover have "tkey (?r ! i) \<le> tkey (?r ! c)"
        using all [OF c(2,3)] par_less [OF c(2)] c(4) by (auto simp: edge_def)
      ultimately show ?thesis using gp [OF c(1) b(2,1,3)] ri by simp
    qed
    ultimately show ?thesis unfolding e using fr by (simp add: heap_but_up_def)
  qed
qed

section \<open>The heap operations on the multiset of timers\<close>

lemma heap_push_ok: "is_heap h \<Longrightarrow> is_heap (heap_push x h) \<and> mset (heap_push x h) = add_mset x (mset h)"
proof -
  assume h: "is_heap h"
  have "heap_but_up (h @ [x]) (length h)"
    unfolding heap_but_up_def
  proof safe
    fix j assume "0 < j" "j < length (h @ [x])" "j \<noteq> length h"
    then show "edge (h @ [x]) j"
      using h par_less [of j] by (auto simp: is_heap_def edge_def nth_append)
  next
    fix c assume "0 < c" "c < length (h @ [x])" "par c = length h"
    then show "tkey ((h @ [x]) ! par (length h)) \<le> tkey ((h @ [x]) ! c)" using par_less [of c] by simp
  qed
  then show ?thesis using heap_up_ok [of "h @ [x]" "length h"] by (simp add: heap_push_def)
qed

lemma is_heap_butlast:
  assumes "is_heap h"
  shows "is_heap (butlast h)"
  unfolding is_heap_def
proof safe
  fix j assume j: "0 < j" "j < length (butlast h)"
  then have "edge h j" "par j < length (butlast h)"
    using assms par_less [of j] by (auto simp: is_heap_def)
  then show "edge (butlast h) j" using j by (simp add: edge_def nth_butlast)
qed

lemma is_heap_replace: "is_heap h \<Longrightarrow> i < length h \<Longrightarrow> heap_but_at (h[i := x]) i"
proof -
  assume h: "is_heap h" "i < length h"
  have e: "edge h j" if "0 < j" "j < length h" for j using h that by (simp add: is_heap_def)
  have "tkey (h[i := x] ! par i) \<le> tkey (h[i := x] ! c)" if "0 < i" "0 < c" "c < length h" "par c = i" for c
  proof -
    have "tkey (h ! par i) \<le> tkey (h ! c)"
      using e [OF that(1) h(2)] e [OF that(2,3)] that by (auto simp: edge_def intro: order_trans)
    moreover have "par i \<noteq> i" "c \<noteq> i" using par_less [OF that(1)] par_less [OF that(2)] that(4) by auto
    ultimately show ?thesis by simp
  qed
  moreover have "edge (h[i := x]) j" if "0 < j" "j < length h" "j \<noteq> i" "par j \<noteq> i" for j
    using e [OF that(1,2)] that by (simp add: edge_def)
  ultimately show ?thesis unfolding heap_but_at_def by simp
qed

lemma root_least: "is_heap h \<Longrightarrow> i < length h \<Longrightarrow> tkey (h ! 0) \<le> tkey (h ! i)"
proof (induction i rule: less_induct)
  case (less i)
  show ?case
  proof (cases "i = 0")
    case False
    then have "tkey (h ! par i) \<le> tkey (h ! i)" using less by (simp add: is_heap_def edge_def)
    moreover have "tkey (h ! 0) \<le> tkey (h ! par i)"
      using less.IH [OF par_less] less.prems False par_less [of i] by simp
    ultimately show ?thesis by simp
  qed simp
qed

lemma mset_remove_at:
  assumes "i < length h"
  shows "mset h = add_mset (h ! i) (mset (if i < length (butlast h) then (butlast h)[i := last h] else butlast h))"
proof -
  have h: "h = butlast h @ [last h]" using assms by (metis append_butlast_last_id length_0_conv not_less_zero)
  have m: "mset h = add_mset (last h) (mset (butlast h))" by (subst h) simp
  show ?thesis
  proof (cases "i < length (butlast h)")
    case True
    then have "h ! i = butlast h ! i" by (simp add: nth_butlast)
    then show ?thesis using True m by (simp add: mset_update)
  next
    case False
    then have "i = length h - 1" using assms by simp
    then have "h ! i = last h" using assms by (metis last_conv_nth length_0_conv not_less_zero)
    then show ?thesis using False m by simp
  qed
qed

text \<open>Deleting position \<open>i\<close>, as both \<open>ray_timers_del\<close> and the firing loop do it.\<close>

lemma heap_remove_ok:
  assumes "is_heap h" "i < length h"
    and "h' = (if i < length (butlast h) then heap_up (heap_down ((butlast h)[i := last h]) i) i else butlast h)"
  shows "is_heap h' \<and> mset h = add_mset (h ! i) (mset h')"
proof (cases "i < length (butlast h)")
  case True
  let ?g = "(butlast h)[i := last h]"
  have g: "heap_but_at ?g i" "i < length ?g"
    using is_heap_replace [OF is_heap_butlast [OF assms(1)] True] True by simp_all
  note d = heap_down_ok [OF g] heap_down_frame [OF g(2)]
  have "is_heap (heap_up (heap_down ?g i) i) \<and> mset (heap_up (heap_down ?g i) i) = mset ?g"
    using heap_up_ok [OF d(1)] d(2) g(2) by simp
  then show ?thesis using True assms(3) mset_remove_at [OF assms(2)] by simp
next
  case False
  then show ?thesis using is_heap_butlast [OF assms(1)] assms(3) mset_remove_at [OF assms(2)] by simp
qed

lemma heap_pop_ok:
  assumes "is_heap h" "h \<noteq> []"
  shows "is_heap (heap_pop h) \<and> mset h = add_mset (h ! 0) (mset (heap_pop h))"
proof -
  have up0: "heap_up g 0 = g" for g by (simp add: heap_up.simps)
  have "heap_pop h = (if 0 < length (butlast h) then heap_up (heap_down ((butlast h)[0 := last h]) 0) 0 else butlast h)"
    unfolding heap_pop_def Let_def up0 length_greater_0_conv by simp
  then show ?thesis using heap_remove_ok [OF assms(1), of 0] assms(2) by simp
qed

interpretation timer_queue: priority_queue is_heap mset tkey heap_push heap_pop "\<lambda>h. h ! 0"
proof
  fix h :: "timer list" and x
  assume h: "is_heap h"
  show "is_heap (heap_push x h)" "mset (heap_push x h) = add_mset x (mset h)"
    using heap_push_ok [OF h] by blast+
  show "is_heap (heap_pop h)" "mset h = add_mset (h ! 0) (mset (heap_pop h))" if "mset h \<noteq> {#}"
    using heap_pop_ok [OF h] that by simp_all
  show "tkey (h ! 0) \<le> tkey x" if "x \<in># mset h"
    using root_least [OF h] that by (auto simp: in_set_conv_nth)
qed

section \<open>The invariant of the timer set\<close>

definition held :: "ray_timers \<Rightarrow> nat \<Rightarrow> int" where
  "held t f = int (size (filter_mset (\<lambda>x. fn x = f) (mset (heap t))))"

text \<open>
  The array is a heap that fits the capacity; ids are distinct, not negative and below the counter;
  every callback is held once per timer that has it, on top of the references \<open>r0\<close> of others.
\<close>

definition timers_inv :: "(nat \<Rightarrow> int) \<Rightarrow> ray_timers \<Rightarrow> bool" where
  "timers_inv r0 t \<longleftrightarrow> is_heap (heap t) \<and> int (length (heap t)) \<le> cap t \<and> 0 < cap t
     \<and> distinct (map t_id (heap t)) \<and> (\<forall>x \<in> set (heap t). 0 \<le> t_id x \<and> t_id x < next_id t)
     \<and> 0 \<le> next_id t \<and> (\<forall>f. refs t f = r0 f + held t f)"

lemma heap_mset_facts:
  assumes "mset h' = add_mset x (mset h)"
  shows "length h' = Suc (length h)" "set h' = insert x (set h)"
    "distinct (map t_id h') \<longleftrightarrow> t_id x \<notin> t_id ` set h \<and> distinct (map t_id h)"
proof -
  show "length h' = Suc (length h)" using assms by (metis size_add_mset size_mset)
  show "set h' = insert x (set h)" using assms by (metis set_mset_add_mset_insert set_mset_mset)
  have "mset h' = mset (x # h)" using assms by simp
  then have "mset (map t_id h') = mset (map t_id (x # h))" by (metis mset_map)
  then have "distinct (map t_id h') = distinct (map t_id (x # h))" by (rule mset_eq_imp_distinct_iff)
  then show "distinct (map t_id h') \<longleftrightarrow> t_id x \<notin> t_id ` set h \<and> distinct (map t_id h)" by simp
qed

lemma timers_inv_add:
  assumes "timers_inv r0 t" "ray_timers_add g a now t tic n f = Some (r, t')"
  shows "timers_inv r0 t'"
proof -
  show ?thesis
  proof (cases "f = None \<or> (int (length (heap t)) \<ge> cap t \<and> \<not> g) \<or> \<not> a")
    case True
    then have "t' = t \<or> t' = t\<lparr>cap := cap t * 2\<rparr>"
      using assms(2) by (auto simp: ray_timers_add_def heap_grow_def split: if_splits option.splits)
    then show ?thesis using assms(1) by (auto simp: timers_inv_def held_def)
  next
    case False
    then obtain f' where f: "f = Some f'" by auto
    define c where "c = (if int (length (heap t)) \<ge> cap t then cap t * 2 else cap t)"
    obtain e x where x: "x = \<lparr>t_id = next_id t, tic_ms = tic, exp_ms = e, num = n, fn = f'\<rparr>"
      "t' = t\<lparr>cap := c, heap := heap_push x (heap t), next_id := next_id t + 1,
              refs := (refs t)(f' := refs t f' + 1)\<rparr>"
      using assms(2) False f
      by (auto simp: ray_timers_add_def heap_grow_def chk_i64_def c_def Let_def
          split: if_splits option.splits Option.bind_splits)
    have h: "is_heap (heap t)" using assms(1) by (simp add: timers_inv_def)
    have m: "mset (heap_push x (heap t)) = add_mset x (mset (heap t))"
      using timer_queue.push_elems [OF h] .
    have "next_id t \<notin> t_id ` set (heap t)" using assms(1) by (auto simp: timers_inv_def)
    then show ?thesis
      using assms(1) timer_queue.push_inv [OF h, of x] heap_mset_facts [OF m] m
      by (auto simp: timers_inv_def x held_def c_def)
  qed
qed

lemma find_index:
  "find (\<lambda>i. P (xs ! i)) [0..<length xs] = None \<longleftrightarrow> (\<forall>x \<in> set xs. \<not> P x)"
  "find (\<lambda>i. P (xs ! i)) [0..<length xs] = Some i \<Longrightarrow> i < length xs \<and> P (xs ! i)"
  by (auto simp: find_None_iff find_Some_iff all_set_conv_all_nth)

text \<open>What deletion does: no timer with that id, or exactly that one is gone.\<close>

lemma ray_timers_del_cases:
  assumes "is_heap (heap t)"
  obtains (absent) "ray_timers_del t tid = (False, t)" "\<forall>x \<in> set (heap t). t_id x \<noteq> tid"
  | (found) x h where "ray_timers_del t tid = (True, t\<lparr>heap := h, refs := (refs t)(fn x := refs t (fn x) - 1)\<rparr>)"
      "t_id x = tid" "is_heap h" "mset (heap t) = add_mset x (mset h)"
proof (cases "find (\<lambda>i. t_id (heap t ! i) = tid) [0..<length (heap t)]")
  case None
  then have n: "\<forall>x \<in> set (heap t). t_id x \<noteq> tid"
    using find_index(1) [of "\<lambda>x. t_id x = tid" "heap t"] by simp
  show thesis using absent [OF _ n] None by (simp add: ray_timers_del_def)
next
  case (Some i)
  then have i: "i < length (heap t)" "t_id (heap t ! i) = tid"
    using find_index(2) [of "\<lambda>x. t_id x = tid" "heap t" i] by simp_all
  define h where "h = (if i < length (butlast (heap t))
    then heap_up (heap_down ((butlast (heap t))[i := last (heap t)]) i) i else butlast (heap t))"
  note r = heap_remove_ok [OF assms i(1) h_def]
  have "ray_timers_del t tid = (True, t\<lparr>heap := h,
      refs := (refs t)(fn (heap t ! i) := refs t (fn (heap t ! i)) - 1)\<rparr>)"
    unfolding ray_timers_del_def Some option.case Let_def h_def by simp
  then show thesis using found [OF _ i(2)] r by blast
qed

lemma timers_inv_remove:
  assumes "timers_inv r0 t" "is_heap h" "mset (heap t) = add_mset x (mset h)"
  shows "timers_inv r0 (t\<lparr>heap := h, refs := (refs t)(fn x := refs t (fn x) - 1)\<rparr>)"
  using assms heap_mset_facts [OF assms(3)] by (auto simp: timers_inv_def held_def)

lemma timers_inv_del:
  assumes "timers_inv r0 t"
  shows "timers_inv r0 (snd (ray_timers_del t tid))"
proof -
  have "is_heap (heap t)" using assms by (simp add: timers_inv_def)
  then show ?thesis
  proof (cases rule: ray_timers_del_cases [where tid = tid])
    case (found x h)
    then show ?thesis using timers_inv_remove [OF assms found(3,4)] by simp
  qed (use assms in simp)
qed

section \<open>Firing\<close>

text \<open>A fired timer is out of the heap while its callback runs, and no other timer gets its id.\<close>

definition id_free :: "int \<Rightarrow> ray_timers \<Rightarrow> bool" where
  "id_free i t \<longleftrightarrow> 0 \<le> i \<and> i < next_id t \<and> (\<forall>x \<in> set (heap t). t_id x \<noteq> i)"

lemma id_free_add:
  assumes "timers_inv r0 t" "id_free i t" "ray_timers_add g a now t tic n f = Some (r, t')"
  shows "id_free i t'"
proof -
  have h: "is_heap (heap t)" using assms(1) by (simp add: timers_inv_def)
  have m: "set (heap_push x (heap t)) = insert x (set (heap t))" for x
    using heap_mset_facts(2) [OF timer_queue.push_elems [OF h]] .
  show ?thesis
    using assms(2,3)
    by (auto simp: ray_timers_add_def heap_grow_def chk_i64_def Let_def id_free_def m
        split: if_splits option.splits Option.bind_splits)
qed

lemma id_free_del:
  assumes "timers_inv r0 t" "id_free i t"
  shows "id_free i (snd (ray_timers_del t tid))"
proof -
  have "is_heap (heap t)" using assms(1) by (simp add: timers_inv_def)
  then show ?thesis
  proof (cases rule: ray_timers_del_cases [where tid = tid])
    case (found x h)
    then show ?thesis using assms(2) heap_mset_facts(2) [OF found(4)] by (simp add: id_free_def)
  qed (use assms in simp)
qed

lemma run_calls_inv:
  "timers_inv r0 t \<Longrightarrow> id_free i t \<Longrightarrow> run_calls cs t = Some t' \<Longrightarrow> timers_inv r0 t' \<and> id_free i t'"
proof (induction cs arbitrary: t)
  case (Cons c cs)
  obtain t1 where t1: "run_call c t = Some t1" "run_calls cs t1 = Some t'"
    using Cons.prems(3) by (auto split: Option.bind_splits)
  have "timers_inv r0 t1 \<and> id_free i t1"
  proof (cases c)
    case (Add g a now tic n f)
    then obtain r where "ray_timers_add g a now t tic n (Some f) = Some (r, t1)" using t1(1) by auto
    from timers_inv_add [OF Cons.prems(1) this] id_free_add [OF Cons.prems(1,2) this]
    show ?thesis by simp
  next
    case (Del tid)
    then show ?thesis using t1(1) Cons.prems timers_inv_del id_free_del by auto
  qed
  then show ?case using Cons.IH t1(2) by blast
qed simp

lemma timers_inv_repush:
  assumes "timers_inv (r0(fn x := r0 (fn x) + 1)) t" "id_free (t_id x) t" "repush x t = Inr t'"
  shows "timers_inv r0 t'"
proof -
  have h: "is_heap (heap t)" using assms(1) by (simp add: timers_inv_def)
  have m: "mset (heap_push x (heap t)) = add_mset x (mset (heap t))" using timer_queue.push_elems [OF h] .
  have t': "t' = t\<lparr>heap := heap_push x (heap t)\<rparr>" "int (length (heap t)) < cap t"
    using assms(3) by (auto simp: repush_def split: if_splits)
  show ?thesis
    using assms(1,2) timer_queue.push_inv [OF h, of x] heap_mset_facts [OF m] m t'
    by (auto simp: timers_inv_def held_def id_free_def)
qed

lemma timers_inv_reschedule:
  assumes "timers_inv (r0(fn x := r0 (fn x) + 1)) t" "id_free (t_id x) t" "reschedule x t = Inr t'"
  shows "timers_inv r0 t'"
proof (cases "num x = 0 \<or> num x > 1")
  case True
  then obtain y where "repush y t = Inr t'" "fn y = fn x" "t_id y = t_id x"
    using assms(3) by (auto simp: reschedule_def split: if_splits option.splits)
  then show ?thesis using timers_inv_repush [of r0 y t t'] assms(1,2) by simp
next
  case False
  then have "t' = t\<lparr>refs := (refs t)(fn x := refs t (fn x) - 1)\<rparr>"
    using assms(3) by (simp add: reschedule_def)
  then show ?thesis using assms(1) by (auto simp: timers_inv_def held_def)
qed

lemma timers_inv_pop:
  assumes "timers_inv r0 t" "heap t \<noteq> []"
  shows "timers_inv (r0(fn (heap t ! 0) := r0 (fn (heap t ! 0)) + 1)) (t\<lparr>heap := heap_pop (heap t)\<rparr>)
    \<and> id_free (t_id (heap t ! 0)) (t\<lparr>heap := heap_pop (heap t)\<rparr>)"
proof -
  have "is_heap (heap t)" using assms(1) by (simp add: timers_inv_def)
  from heap_pop_ok [OF this assms(2)]
  have p: "is_heap (heap_pop (heap t))" "mset (heap t) = add_mset (heap t ! 0) (mset (heap_pop (heap t)))"
    by auto
  show ?thesis
    using assms(1) p heap_mset_facts [OF p(2)]
    by (auto simp: timers_inv_def held_def id_free_def image_iff)
qed

text \<open>Callbacks that set no timer leave the slot of the fired timer free.\<close>

fun adds :: "timer_call \<Rightarrow> bool" where
  "adds (Add ok_grow ok_timer now tic n f) = True"
| "adds (Del tid) = False"

lemma run_calls_cancel:
  "timers_inv r0 t \<Longrightarrow> \<forall>c \<in> set cs. \<not> adds c \<Longrightarrow>
     \<exists>t'. run_calls cs t = Some t' \<and> mset (heap t') \<subseteq># mset (heap t) \<and> cap t' = cap t \<and> timers_inv r0 t'"
proof (induction cs arbitrary: t)
  case (Cons c cs)
  then obtain tid where c: "c = Del tid" by (cases c) auto
  let ?t = "snd (ray_timers_del t tid)"
  have "is_heap (heap t)" using Cons.prems(1) by (simp add: timers_inv_def)
  then have s: "mset (heap ?t) \<subseteq># mset (heap t) \<and> cap ?t = cap t"
    by (cases rule: ray_timers_del_cases [where tid = tid]) simp_all
  obtain t' where "run_calls cs ?t = Some t'" "mset (heap t') \<subseteq># mset (heap ?t)" "cap t' = cap ?t" "timers_inv r0 t'"
    using Cons.IH [OF timers_inv_del [OF Cons.prems(1)]] Cons.prems(2) by auto
  then show ?case using s subset_mset.order_trans by (auto simp: c)
qed simp

lemma pop_room:
  assumes "timers_inv r0 t" "heap t \<noteq> []"
  shows "int (length (heap_pop (heap t))) < cap t"
proof -
  have h: "is_heap (heap t)" using assms(1) by (simp add: timers_inv_def)
  have "length (heap t) = Suc (length (heap_pop (heap t)))"
    using heap_mset_facts(1) [OF conjunct2 [OF heap_pop_ok [OF h assms(2)]]] .
  then show ?thesis using assms(1) by (simp add: timers_inv_def)
qed

lemma fire_step_inv:
  assumes "timers_inv r0 t" "heap t \<noteq> []"
    "run_calls cs (t\<lparr>heap := heap_pop (heap t)\<rparr>) = Some t2" "reschedule (heap t ! 0) t2 = Inr t'"
  shows "timers_inv r0 t'"
  using timers_inv_pop [OF assms(1,2)] run_calls_inv [OF _ _ assms(3)] timers_inv_reschedule [OF _ _ assms(4)] by blast

text \<open>The store past the end happens only after a callback has set a timer.\<close>

lemma past_end_added:
  assumes "timers_inv r0 t" "heap t \<noteq> []"
    "run_calls cs (t\<lparr>heap := heap_pop (heap t)\<rparr>) = Some t2" "reschedule x t2 = Inl PastEnd"
  shows "\<exists>c \<in> set cs. adds c"
proof (rule ccontr)
  let ?t = "t\<lparr>heap := heap_pop (heap t)\<rparr>"
  assume "\<not> ?thesis"
  moreover have "timers_inv (r0(fn (heap t ! 0) := r0 (fn (heap t ! 0)) + 1)) ?t" using timers_inv_pop [OF assms(1,2)] by blast
  ultimately have "mset (heap t2) \<subseteq># mset (heap_pop (heap t))" "cap t2 = cap t"
    using run_calls_cancel [of _ ?t cs] assms(3) by auto
  then have "int (length (heap t2)) < cap t2" using pop_room [OF assms(1,2)] size_mset_mono by fastforce
  then show False using assms(4) by (auto simp: reschedule_def repush_def split: if_splits option.splits)
qed

text \<open>
  Where firing stops: with a well-formed set, in which no timer is due if the loop returned, and a call
  for each clock reading but the last.
\<close>

definition calls_ok :: "(nat \<Rightarrow> int) \<Rightarrow> (nat \<times> int) list \<Rightarrow> bool" where
  "calls_ok clk calls \<longleftrightarrow> map snd calls = map clk [0..<length calls]"

lemma fire_loop_inv:
  "timers_inv r0 t \<Longrightarrow> k = length calls + 1 \<Longrightarrow> now = clk (length calls) \<Longrightarrow> calls_ok clk calls \<Longrightarrow>
     (case fire_loop fuel cb clk k now calls t of
        Returned t' calls' \<Rightarrow> timers_inv r0 t' \<and> calls_ok clk calls' \<and> (\<forall>x \<in> set (heap t'). clk (length calls') < exp_ms x)
      | OutOfFuel t' calls' \<Rightarrow> timers_inv r0 t' \<and> length calls' = length calls + fuel
      | Undefined e \<Rightarrow> e = PastEnd \<longrightarrow> (\<exists>f now. \<exists>c \<in> set (cb f now). adds c))"
proof (induction fuel arbitrary: k now calls t)
  case (Suc fuel)
  show ?case
  proof (cases "heap t \<noteq> [] \<and> exp_ms (heap t ! 0) \<le> now")
    case True
    let ?x = "heap t ! 0"
    let ?run = "run_calls (cb (fn ?x) now) (t\<lparr>heap := heap_pop (heap t)\<rparr>)"
    have ok: "calls_ok clk (calls @ [(fn ?x, now)])" using Suc.prems(3,4) by (simp add: calls_ok_def)
    show ?thesis
    proof (cases ?run)
      case None
      then show ?thesis using True by (simp add: Let_def)
    next
      case (Some t2)
      show ?thesis
      proof (cases "reschedule ?x t2")
        case (Inl e)
        then show ?thesis
          using True Some past_end_added [OF Suc.prems(1) _ Some, of ?x] by (cases e) (auto simp: Let_def)
      next
        case (Inr t3)
        have "timers_inv r0 t3" using fire_step_inv [OF Suc.prems(1) _ Some Inr] True by blast
        then show ?thesis
          using Suc.IH [of t3 "k + 1" "calls @ [(fn ?x, now)]" "clk k"] Suc.prems(2) ok True Some Inr
          by (simp add: Let_def split: fire_result.splits)
      qed
    qed
  next
    case False
    have "now < exp_ms x" if x: "x \<in> set (heap t)" for x
    proof -
      have "is_heap (heap t)" using Suc.prems(1) by (simp add: timers_inv_def)
      then have "tkey (heap t ! 0) \<le> tkey x" using timer_queue.top_least x by simp
      then show ?thesis using False x by (auto simp: tkey_def)
    qed
    then show ?thesis using Suc.prems False by auto
  qed
qed simp

lemma fire_expired_inv:
  assumes "timers_inv r0 t"
  shows "case ray_timers_fire_expired fuel cb clk t of
      Returned t' calls \<Rightarrow> timers_inv r0 t' \<and> calls_ok clk calls \<and> (\<forall>x \<in> set (heap t'). clk (length calls) < exp_ms x)
    | OutOfFuel t' calls \<Rightarrow> timers_inv r0 t' \<and> length calls = fuel
    | Undefined e \<Rightarrow> e = PastEnd \<longrightarrow> (\<exists>f now. \<exists>c \<in> set (cb f now). adds c)"
  using fire_loop_inv [OF assms, of 1 "[]" "clk 0" clk fuel cb] assms
  by (simp add: ray_timers_fire_expired_def calls_ok_def split: fire_result.splits)

section \<open>Termination of the firing loop\<close>

text \<open>Each firing moves a deadline that is not after \<open>B\<close> by at least one, or removes it.\<close>

definition fire_weight :: "int \<Rightarrow> ray_timers \<Rightarrow> nat" where
  "fire_weight B t = (\<Sum>x \<in># mset (heap t). nat (B + 1 - exp_ms x))"

definition tics_ok :: "int \<Rightarrow> ray_timers \<Rightarrow> bool" where
  "tics_ok B t \<longleftrightarrow> (\<forall>x \<in> set (heap t). 1 \<le> tic_ms x \<and> - (2 ^ 63) \<le> exp_ms x \<and> B + tic_ms x < 2 ^ 63)"

lemma reschedule_progress:
  assumes "is_heap (heap t)" "int (length (heap t)) < cap t" "exp_ms x \<le> B"
    "1 \<le> tic_ms x" "- (2 ^ 63) \<le> exp_ms x" "B + tic_ms x < 2 ^ 63" "tics_ok B t"
  shows "\<exists>t'. reschedule x t = Inr t' \<and> tics_ok B t' \<and> fire_weight B t' < nat (B + 1 - exp_ms x) + fire_weight B t"
proof (cases "num x = 0 \<or> num x > 1")
  case True
  define y where "y = (if num x = 0 then x\<lparr>exp_ms := exp_ms x + tic_ms x\<rparr>
    else x\<lparr>num := num x - 1, exp_ms := exp_ms x + tic_ms x\<rparr>)"
  have "chk_i64 (exp_ms x + tic_ms x) = Some (exp_ms x + tic_ms x)"
    using assms by (simp add: chk_i64_def i64_ok_def)
  then have r: "reschedule x t = Inr (t\<lparr>heap := heap_push y (heap t)\<rparr>)"
    using True assms(2) by (auto simp: reschedule_def repush_def y_def)
  have m: "mset (heap_push y (heap t)) = add_mset y (mset (heap t))"
    using timer_queue.push_elems [OF assms(1)] .
  have "exp_ms y = exp_ms x + tic_ms x" "tic_ms y = tic_ms x" by (simp_all add: y_def)
  then show ?thesis
    using r m heap_mset_facts(2) [OF m] assms
    by (intro exI [of _ "t\<lparr>heap := heap_push y (heap t)\<rparr>"]) (auto simp: tics_ok_def fire_weight_def)
next
  case False
  then show ?thesis using assms by (auto simp: reschedule_def tics_ok_def fire_weight_def)
qed

lemma weight_mono:
  assumes "mset (heap u) \<subseteq># mset (heap t)"
  shows "fire_weight B u \<le> fire_weight B t" "tics_ok B t \<Longrightarrow> tics_ok B u"
proof -
  obtain M where M: "mset (heap t) = mset (heap u) + M" using assms by (metis subset_mset.add_diff_inverse)
  show "fire_weight B u \<le> fire_weight B t" by (simp add: fire_weight_def M)
  have "set (heap u) \<subseteq> set (heap t)" using set_mset_mono [OF assms] by simp
  then show "tics_ok B t \<Longrightarrow> tics_ok B u" by (auto simp: tics_ok_def)
qed

lemma fire_loop_returns:
  assumes "timers_inv r0 t" "tics_ok B t" "\<forall>k. clk k \<le> B" "now \<le> B" "\<forall>f now. \<forall>c \<in> set (cb f now). \<not> adds c"
    and "fire_weight B t < fuel"
  shows "\<exists>t' calls'. fire_loop fuel cb clk k now calls t = Returned t' calls'"
  using assms
proof (induction fuel arbitrary: k now calls t)
  case (Suc fuel)
  show ?case
  proof (cases "heap t \<noteq> [] \<and> exp_ms (heap t ! 0) \<le> now")
    case True
    let ?x = "heap t ! 0" and ?t = "t\<lparr>heap := heap_pop (heap t)\<rparr>"
    have h: "is_heap (heap t)" using Suc.prems(1) by (simp add: timers_inv_def)
    have p: "mset (heap t) = add_mset ?x (mset (heap_pop (heap t)))" using heap_pop_ok [OF h] True by blast
    note f = heap_mset_facts [OF p]
    have tk: "tics_ok B ?t" "1 \<le> tic_ms ?x" "- (2 ^ 63) \<le> exp_ms ?x" "B + tic_ms ?x < 2 ^ 63"
      using Suc.prems(2) f(2) by (auto simp: tics_ok_def)
    obtain r1 where inv1: "timers_inv r1 ?t" using timers_inv_pop [OF Suc.prems(1)] True by blast
    obtain t2 where t2: "run_calls (cb (fn ?x) now) ?t = Some t2" "mset (heap t2) \<subseteq># mset (heap ?t)" "cap t2 = cap ?t" "timers_inv r1 t2"
      using run_calls_cancel [OF inv1] Suc.prems(5) by blast
    have c: "int (length (heap t2)) < cap t2"
      using pop_room [OF Suc.prems(1)] True t2(3) size_mset_mono [OF t2(2)] by fastforce
    have e: "exp_ms ?x \<le> B" using True Suc.prems(4) order_trans by blast
    have h2: "is_heap (heap t2)" using t2(4) by (simp add: timers_inv_def)
    obtain t' where t': "reschedule ?x t2 = Inr t'" "tics_ok B t'"
      "fire_weight B t' < nat (B + 1 - exp_ms ?x) + fire_weight B t2"
      using reschedule_progress [OF h2 c e tk(2-4) weight_mono(2) [OF t2(2) tk(1)]] by blast
    have "fire_weight B t = nat (B + 1 - exp_ms ?x) + fire_weight B ?t"
      using p by (simp add: fire_weight_def)
    then have w: "fire_weight B t' < fuel" using t'(3) Suc.prems(6) weight_mono(1) [OF t2(2), of B] by simp
    have "timers_inv r0 t'" using fire_step_inv [OF Suc.prems(1) _ t2(1) t'(1)] True by blast
    then have "\<exists>t'' calls''. fire_loop fuel cb clk (k + 1) (clk k) (calls @ [(fn ?x, now)]) t' = Returned t'' calls''"
      using Suc.IH t'(2) Suc.prems(3,5) w by blast
    then show ?thesis using True t2(1) t'(1) by (simp add: Let_def)
  qed (use Suc.prems in auto)
qed simp

section \<open>Properties\<close>

lemma add_defined:
  assumes "ray_timers_add g a now t tic n f = None"
  shows "\<not> (i64_ok (next_id t + 1) \<and> i64_ok (now + tic))"
  using assms
  by (auto simp: ray_timers_add_def heap_grow_def chk_i64_def Let_def split: if_splits option.splits Option.bind_splits)

text \<open>
  C12. Every operation keeps the timer set well formed: the array stays a heap within its capacity,
  ids stay unique, and the set holds exactly one reference per scheduled timer on each callback.
  This covers insertion (also when an allocation fails; it has a result unless the next id or the
  deadline does not fit 64 bits), cancellation, and firing with callbacks
  that set and cancel timers themselves, at every point of the loop: whether it has returned or is
  still running after some number of rounds.  A store past the end of the array happens only when
  a callback has set a timer.
\<close>

theorem timers_wellformed:
  assumes "timers_inv r0 t"
  shows "(case ray_timers_add g a now t tic n f of
        Some (r, t') \<Rightarrow> timers_inv r0 t'
      | None \<Rightarrow> \<not> (i64_ok (next_id t + 1) \<and> i64_ok (now + tic)))
    \<and> timers_inv r0 (snd (ray_timers_del t tid))
    \<and> (case ray_timers_fire_expired rounds cb clk t of
        Returned t' calls \<Rightarrow> timers_inv r0 t'
      | OutOfFuel t' calls \<Rightarrow> timers_inv r0 t' \<and> length calls = rounds
      | Undefined e \<Rightarrow> e = PastEnd \<longrightarrow> (\<exists>f now. \<exists>c \<in> set (cb f now). adds c))"
proof (intro conjI)
  show "case ray_timers_add g a now t tic n f of
      Some (r, t') \<Rightarrow> timers_inv r0 t' | None \<Rightarrow> \<not> (i64_ok (next_id t + 1) \<and> i64_ok (now + tic))"
    using add_defined [of g a now t tic n f] timers_inv_add [OF assms, of g a now tic n f] by (auto split: option.splits)
  show "timers_inv r0 (snd (ray_timers_del t tid))" using timers_inv_del [OF assms] .
  show "case ray_timers_fire_expired rounds cb clk t of
        Returned t' calls \<Rightarrow> timers_inv r0 t'
      | OutOfFuel t' calls \<Rightarrow> timers_inv r0 t' \<and> length calls = rounds
      | Undefined e \<Rightarrow> e = PastEnd \<longrightarrow> (\<exists>f now. \<exists>c \<in> set (cb f now). adds c)"
    using fire_expired_inv [OF assms, where fuel = rounds and cb = cb and clk = clk] by (simp split: fire_result.splits)
qed

definition example_timers :: ray_timers where
  "example_timers = \<lparr>heap = [\<lparr>t_id = 1, tic_ms = 5, exp_ms = 10, num = 2, fn = 0\<rparr>,
      \<lparr>t_id = 0, tic_ms = 7, exp_ms = 30, num = 0, fn = 0\<rparr>], cap = 2, next_id = 2, refs = (\<lambda>f. if f = 0 then 2 else 0)\<rparr>"

lemma example_timers_inv: "timers_inv (\<lambda>_. 0) example_timers"
  by (auto simp: timers_inv_def example_timers_def is_heap_def edge_def par_def tkey_def held_def less_Suc_eq)

theorem timers_wellformed_witness:
  "timers_inv (\<lambda>_. 0) (snd (ray_timers_del example_timers 1)) \<and>
   (\<exists>t'. ray_timers_fire_expired 3 (\<lambda>f now. [Del 0]) (\<lambda>k. 20) example_timers = Returned t' [(0, 20), (0, 20)] \<and>
      timers_inv (\<lambda>_. 0) t' \<and> heap t' = [])"
proof -
  obtain t' where f: "ray_timers_fire_expired 3 (\<lambda>f now. [Del 0]) (\<lambda>k. 20) example_timers = Returned t' [(0, 20), (0, 20)]" "heap t' = []"
    by (simp add: ray_timers_fire_expired_def numeral_3_eq_3 example_timers_def heap_pop_def Let_def ray_timers_del_def
        chk_i64_def i64_ok_def heap_push_def heap_up.simps heap_down.simps heap_best_def reschedule_def repush_def)
  show ?thesis
    using timers_wellformed [OF example_timers_inv, where tid = 1 and rounds = 3 and cb = "\<lambda>f now. [Del 0]" and clk = "\<lambda>k. 20"] f
    by simp
qed

text \<open>
  Scheduling and cancelling: a timer that is added gets an id no other timer has, joins the
  set with its deadline, and cancelling that id removes exactly it and gives its reference back.
\<close>

theorem timers_add_del:
  assumes "timers_inv r0 t" "ray_timers_add g a now t tic n (Some f) = Some (r, t')" "r \<noteq> -1"
  shows "r \<notin> t_id ` set (heap t)
    \<and> mset (heap t') = add_mset \<lparr>t_id = r, tic_ms = tic, exp_ms = now + tic, num = n, fn = f\<rparr> (mset (heap t))
    \<and> fst (ray_timers_del t' r) \<and> mset (heap (snd (ray_timers_del t' r))) = mset (heap t)
    \<and> refs (snd (ray_timers_del t' r)) = refs t"
proof -
  have h: "is_heap (heap t)" using assms(1) by (simp add: timers_inv_def)
  let ?x = "\<lparr>t_id = r, tic_ms = tic, exp_ms = now + tic, num = n, fn = f\<rparr>"
  have t': "r = next_id t" "heap t' = heap_push ?x (heap t)" "refs t' = (refs t)(f := refs t f + 1)"
    using assms(2,3)
    by (auto simp: ray_timers_add_def heap_grow_def chk_i64_def Let_def split: if_splits option.splits Option.bind_splits)
  have fresh: "r \<notin> t_id ` set (heap t)" using assms(1) t'(1) by (auto simp: timers_inv_def)
  have m: "mset (heap t') = add_mset ?x (mset (heap t))" using timer_queue.push_elems [OF h] t'(2) by simp
  have h': "is_heap (heap t')" using timer_queue.push_inv [OF h] t'(2) by simp
  show ?thesis
    using h'
  proof (cases rule: ray_timers_del_cases [where tid = r])
    case absent
    then show ?thesis using heap_mset_facts(2) [OF m] by auto
  next
    case (found y h)
    have "y \<in># mset (heap t')" using found(4) by simp
    then have "y = ?x" using m found(2) fresh by auto
    then show ?thesis using found m fresh t'(3) by auto
  qed
qed

theorem timers_add_del_witness:
  "\<exists>r t'. ray_timers_add True True 100 example_timers 5 1 (Some 7) = Some (r, t') \<and> r \<noteq> -1
    \<and> fst (ray_timers_del t' r) \<and> mset (heap (snd (ray_timers_del t' r))) = mset (heap example_timers)"
proof -
  obtain t' where a: "ray_timers_add True True 100 example_timers 5 1 (Some 7) = Some (2, t')"
    by (simp add: ray_timers_add_def example_timers_def heap_grow_def chk_i64_def i64_ok_def)
  then show ?thesis using timers_add_del [OF example_timers_inv a] by force
qed

text \<open>
  The deadline the poll loop sleeps until is the earliest of all scheduled timers.
\<close>

theorem next_deadline_least:
  assumes "timers_inv r0 t"
  shows "(heap t = [] \<longrightarrow> ray_timers_next_deadline_ms t = 2 ^ 63 - 1)
    \<and> (heap t \<noteq> [] \<longrightarrow> ray_timers_next_deadline_ms t = Min (exp_ms ` set (heap t)))"
proof -
  have h: "is_heap (heap t)" using assms by (simp add: timers_inv_def)
  have "exp_ms (heap t ! 0) = Min (exp_ms ` set (heap t))" if "heap t \<noteq> []"
  proof (rule Min_eqI [symmetric])
    show "exp_ms (heap t ! 0) \<in> exp_ms ` set (heap t)" using that by simp
    show "exp_ms (heap t ! 0) \<le> y" if "y \<in> exp_ms ` set (heap t)" for y
      using timer_queue.top_least [OF h] that by (fastforce simp: tkey_def)
  qed simp
  then show ?thesis by (simp add: ray_timers_next_deadline_ms_def)
qed

theorem next_deadline_least_witness:
  "timers_inv (\<lambda>_. 0) example_timers \<and> ray_timers_next_deadline_ms example_timers = 10"
  using example_timers_inv next_deadline_least [OF example_timers_inv] by (simp add: example_timers_def)

text \<open>
  C33. Firing ends and is complete.  If the clock stays below a bound, every interval is at least a
  millisecond, deadlines that far fit 64 bits, and the callbacks set no timers (they may cancel any),
  the loop returns with a well-formed set.  The clock was read once before each call of a
  callback, which is given that time, and once more after the last; at this last reading no timer
  that is left is due.
\<close>

theorem fire_expired_returns:
  assumes "timers_inv r0 t" "tics_ok B t" "\<forall>k. clk k \<le> B" "\<forall>f now. \<forall>c \<in> set (cb f now). \<not> adds c"
  shows "\<exists>t' calls. ray_timers_fire_expired (fire_weight B t + 1) cb clk t = Returned t' calls
    \<and> timers_inv r0 t' \<and> map snd calls = map clk [0..<length calls]
    \<and> (\<forall>x \<in> set (heap t'). clk (length calls) < exp_ms x)"
proof -
  have "\<exists>t' calls. ray_timers_fire_expired (fire_weight B t + 1) cb clk t = Returned t' calls"
    using fire_loop_returns [OF assms(1-3) _ assms(4), of "clk 0" "fire_weight B t + 1" 1 "[]"] assms(3)
    by (auto simp: ray_timers_fire_expired_def)
  then show ?thesis
    using fire_expired_inv [OF assms(1), where fuel = "fire_weight B t + 1" and cb = cb and clk = clk] by (auto simp: calls_ok_def)
qed

theorem fire_expired_returns_witness:
  "\<exists>t' calls. ray_timers_fire_expired (fire_weight 40 example_timers + 1) (\<lambda>f now. [Del 0]) (\<lambda>k. min 40 (int k * 12)) example_timers
      = Returned t' calls
    \<and> timers_inv (\<lambda>_. 0) t' \<and> map snd calls = map (\<lambda>k. min 40 (int k * 12)) [0..<length calls]
    \<and> (\<forall>x \<in> set (heap t'). min 40 (int (length calls) * 12) < exp_ms x)"
proof -
  have b: "tics_ok 40 example_timers" by (simp add: tics_ok_def example_timers_def)
  show ?thesis using fire_expired_returns [OF example_timers_inv b, of "\<lambda>k. min 40 (int k * 12)" "\<lambda>f now. [Del 0]"] by simp
qed

section \<open>Flaws\<close>

text \<open>
  The re-push of a fired timer does not check the capacity: a callback that sets a timer takes the
  slot that the fired timer left, and the write goes past the end of the array.
\<close>

lemma fire_repush_overflow:
  "ray_timers_fire_expired 1 (\<lambda>f now. [Add True True now 5 1 9]) (\<lambda>k. 20)
     \<lparr>heap = [\<lparr>t_id = 0, tic_ms = 5, exp_ms = 10, num = 0, fn = 0\<rparr>], cap = 1, next_id = 1, refs = (\<lambda>_. 1)\<rparr>
   = Undefined PastEnd"
  by (simp add: ray_timers_fire_expired_def heap_pop_def Let_def ray_timers_add_def chk_i64_def i64_ok_def
      heap_push_def heap_up.simps reschedule_def repush_def)

text \<open>
  A callback cannot cancel its own timer: it is out of the heap while the callback runs, and is
  pushed again afterwards.
\<close>

lemma fire_self_cancel_ignored:
  "ray_timers_fire_expired 2 (\<lambda>f now. [Del 0]) (\<lambda>k. 12)
     \<lparr>heap = [\<lparr>t_id = 0, tic_ms = 5, exp_ms = 10, num = 0, fn = 0\<rparr>], cap = 4, next_id = 1, refs = (\<lambda>_. 1)\<rparr>
   = Returned \<lparr>heap = [\<lparr>t_id = 0, tic_ms = 5, exp_ms = 15, num = 0, fn = 0\<rparr>], cap = 4, next_id = 1, refs = (\<lambda>_. 1)\<rparr> [(0, 12)]"
  by (simp add: ray_timers_fire_expired_def numeral_2_eq_2 heap_pop_def Let_def ray_timers_del_def chk_i64_def i64_ok_def
      heap_push_def heap_up.simps reschedule_def repush_def)

text \<open>A forever timer with interval 0, which the builtin accepts, keeps the loop from returning.\<close>

lemma zero_interval_loop:
  "\<exists>t' calls'. fire_loop fuel (\<lambda>f now. []) (\<lambda>k. 12) k 12 calls
     \<lparr>heap = [\<lparr>t_id = 0, tic_ms = 0, exp_ms = 10, num = 0, fn = 0\<rparr>], cap = 4, next_id = 1, refs = (\<lambda>_. 1)\<rparr>
   = OutOfFuel t' calls'"
proof (induction fuel arbitrary: k calls)
  case (Suc fuel)
  then show ?case
    by (simp add: heap_pop_def Let_def chk_i64_def i64_ok_def heap_push_def heap_up.simps reschedule_def repush_def)
qed simp

lemma fire_zero_interval_diverges:
  "\<exists>t' calls. ray_timers_fire_expired fuel (\<lambda>f now. []) (\<lambda>k. 12)
     \<lparr>heap = [\<lparr>t_id = 0, tic_ms = 0, exp_ms = 10, num = 0, fn = 0\<rparr>], cap = 4, next_id = 1, refs = (\<lambda>_. 1)\<rparr>
   = OutOfFuel t' calls"
  using zero_interval_loop by (simp add: ray_timers_fire_expired_def)

end
