(* ===== verification/Crc.thy ===== *)
theory Crc
  imports Prelude
begin

unbundle bit_operations_syntax

text \<open>
  The checksum and the little-endian framing of the append-only log (\<^verbatim>\<open>src/store/aof.c\<close>): the
  constant table, the byte-wise CRC-32 loop, and the record checksum over length and payload.
  The table is shown to be the one of the reflected polynomial \<open>0xEDB88320\<close>; the checksum composes
  over concatenation and detects every change of a single byte.
\<close>

definition AOF_CRC_TABLE :: "u32 list" where
  "AOF_CRC_TABLE =
    [0x00000000, 0x77073096, 0xEE0E612C, 0x990951BA, 0x076DC419, 0x706AF48F, 0xE963A535, 0x9E6495A3,
     0x0EDB8832, 0x79DCB8A4, 0xE0D5E91E, 0x97D2D988, 0x09B64C2B, 0x7EB17CBD, 0xE7B82D07, 0x90BF1D91,
     0x1DB71064, 0x6AB020F2, 0xF3B97148, 0x84BE41DE, 0x1ADAD47D, 0x6DDDE4EB, 0xF4D4B551, 0x83D385C7,
     0x136C9856, 0x646BA8C0, 0xFD62F97A, 0x8A65C9EC, 0x14015C4F, 0x63066CD9, 0xFA0F3D63, 0x8D080DF5,
     0x3B6E20C8, 0x4C69105E, 0xD56041E4, 0xA2677172, 0x3C03E4D1, 0x4B04D447, 0xD20D85FD, 0xA50AB56B,
     0x35B5A8FA, 0x42B2986C, 0xDBBBC9D6, 0xACBCF940, 0x32D86CE3, 0x45DF5C75, 0xDCD60DCF, 0xABD13D59,
     0x26D930AC, 0x51DE003A, 0xC8D75180, 0xBFD06116, 0x21B4F4B5, 0x56B3C423, 0xCFBA9599, 0xB8BDA50F,
     0x2802B89E, 0x5F058808, 0xC60CD9B2, 0xB10BE924, 0x2F6F7C87, 0x58684C11, 0xC1611DAB, 0xB6662D3D,
     0x76DC4190, 0x01DB7106, 0x98D220BC, 0xEFD5102A, 0x71B18589, 0x06B6B51F, 0x9FBFE4A5, 0xE8B8D433,
     0x7807C9A2, 0x0F00F934, 0x9609A88E, 0xE10E9818, 0x7F6A0DBB, 0x086D3D2D, 0x91646C97, 0xE6635C01,
     0x6B6B51F4, 0x1C6C6162, 0x856530D8, 0xF262004E, 0x6C0695ED, 0x1B01A57B, 0x8208F4C1, 0xF50FC457,
     0x65B0D9C6, 0x12B7E950, 0x8BBEB8EA, 0xFCB9887C, 0x62DD1DDF, 0x15DA2D49, 0x8CD37CF3, 0xFBD44C65,
     0x4DB26158, 0x3AB551CE, 0xA3BC0074, 0xD4BB30E2, 0x4ADFA541, 0x3DD895D7, 0xA4D1C46D, 0xD3D6F4FB,
     0x4369E96A, 0x346ED9FC, 0xAD678846, 0xDA60B8D0, 0x44042D73, 0x33031DE5, 0xAA0A4C5F, 0xDD0D7CC9,
     0x5005713C, 0x270241AA, 0xBE0B1010, 0xC90C2086, 0x5768B525, 0x206F85B3, 0xB966D409, 0xCE61E49F,
     0x5EDEF90E, 0x29D9C998, 0xB0D09822, 0xC7D7A8B4, 0x59B33D17, 0x2EB40D81, 0xB7BD5C3B, 0xC0BA6CAD,
     0xEDB88320, 0x9ABFB3B6, 0x03B6E20C, 0x74B1D29A, 0xEAD54739, 0x9DD277AF, 0x04DB2615, 0x73DC1683,
     0xE3630B12, 0x94643B84, 0x0D6D6A3E, 0x7A6A5AA8, 0xE40ECF0B, 0x9309FF9D, 0x0A00AE27, 0x7D079EB1,
     0xF00F9344, 0x8708A3D2, 0x1E01F268, 0x6906C2FE, 0xF762575D, 0x806567CB, 0x196C3671, 0x6E6B06E7,
     0xFED41B76, 0x89D32BE0, 0x10DA7A5A, 0x67DD4ACC, 0xF9B9DF6F, 0x8EBEEFF9, 0x17B7BE43, 0x60B08ED5,
     0xD6D6A3E8, 0xA1D1937E, 0x38D8C2C4, 0x4FDFF252, 0xD1BB67F1, 0xA6BC5767, 0x3FB506DD, 0x48B2364B,
     0xD80D2BDA, 0xAF0A1B4C, 0x36034AF6, 0x41047A60, 0xDF60EFC3, 0xA867DF55, 0x316E8EEF, 0x4669BE79,
     0xCB61B38C, 0xBC66831A, 0x256FD2A0, 0x5268E236, 0xCC0C7795, 0xBB0B4703, 0x220216B9, 0x5505262F,
     0xC5BA3BBE, 0xB2BD0B28, 0x2BB45A92, 0x5CB36A04, 0xC2D7FFA7, 0xB5D0CF31, 0x2CD99E8B, 0x5BDEAE1D,
     0x9B64C2B0, 0xEC63F226, 0x756AA39C, 0x026D930A, 0x9C0906A9, 0xEB0E363F, 0x72076785, 0x05005713,
     0x95BF4A82, 0xE2B87A14, 0x7BB12BAE, 0x0CB61B38, 0x92D28E9B, 0xE5D5BE0D, 0x7CDCEFB7, 0x0BDBDF21,
     0x86D3D2D4, 0xF1D4E242, 0x68DDB3F8, 0x1FDA836E, 0x81BE16CD, 0xF6B9265B, 0x6FB077E1, 0x18B74777,
     0x88085AE6, 0xFF0F6A70, 0x66063BCA, 0x11010B5C, 0x8F659EFF, 0xF862AE69, 0x616BFFD3, 0x166CCF45,
     0xA00AE278, 0xD70DD2EE, 0x4E048354, 0x3903B3C2, 0xA7672661, 0xD06016F7, 0x4969474D, 0x3E6E77DB,
     0xAED16A4A, 0xD9D65ADC, 0x40DF0B66, 0x37D83BF0, 0xA9BCAE53, 0xDEBB9EC5, 0x47B2CF7F, 0x30B5FFE9,
     0xBDBDF21C, 0xCABAC28A, 0x53B39330, 0x24B4A3A6, 0xBAD03605, 0xCDD70693, 0x54DE5729, 0x23D967BF,
     0xB3667A2E, 0xC4614AB8, 0x5D681B02, 0x2A6F2B94, 0xB40BBE37, 0xC30C8EA1, 0x5A05DF1B, 0x2D02EF8D]"

definition crc_step :: "u8 \<Rightarrow> u32 \<Rightarrow> u32" where
  "crc_step b c = AOF_CRC_TABLE ! unat ((c XOR ucast b) AND 0xFF) XOR drop_bit 8 c"

definition aof_crc32 :: "u32 \<Rightarrow> u8 list \<Rightarrow> u32" where
  "aof_crc32 seed p = fold crc_step p (seed XOR 0xFFFFFFFF) XOR 0xFFFFFFFF"

definition aof_put_u32le :: "u32 \<Rightarrow> u8 list" where
  "aof_put_u32le v =
     [ucast v, ucast (drop_bit 8 v), ucast (drop_bit 16 v), ucast (drop_bit 24 v)]"

definition aof_get_u32le :: "u8 list \<Rightarrow> u32" where
  "aof_get_u32le p =
     ucast (p ! 0) OR push_bit 8 (ucast (p ! 1)) OR push_bit 16 (ucast (p ! 2))
       OR push_bit 24 (ucast (p ! 3))"

definition aof_record_crc :: "u32 \<Rightarrow> u8 list \<Rightarrow> u32" where
  "aof_record_crc len payload =
     (let c = aof_crc32 0 (aof_put_u32le len) in aof_crc32 c (take (unat len) payload))"

section \<open>The table\<close>

text \<open>One bit of the reflected division by the polynomial.\<close>

definition crc_bit :: "u32 \<Rightarrow> u32" where
  "crc_bit c = (if c AND 1 = 1 then drop_bit 1 c XOR 0xEDB88320 else drop_bit 1 c)"

lemma table_length [simp]: "length AOF_CRC_TABLE = 256"
  by (simp add: AOF_CRC_TABLE_def)

lemma table_tops_distinct: "distinct (map (\<lambda>w. uint w div 16777216) AOF_CRC_TABLE)"
  by (simp add: AOF_CRC_TABLE_def)

definition crc_bit_int :: "int \<Rightarrow> int" where
  "crc_bit_int c = (if c mod 2 = 1 then (c div 2) XOR 0xEDB88320 else c div 2)"

lemma uint_crc_bit: "uint (crc_bit w) = crc_bit_int (uint w)"
proof -
  have "w AND 1 = 1 \<longleftrightarrow> uint w mod 2 = 1"
  proof -
    have "w AND 1 = 1 \<longleftrightarrow> odd w" by (simp add: and_one_eq odd_iff_mod_2_eq_one)
    also have "\<dots> \<longleftrightarrow> odd (uint w)" by (metis bit_0 bit_uint_iff bit_imp_le_length)
    finally show ?thesis by (simp add: odd_iff_mod_2_eq_one)
  qed
  moreover have "uint (drop_bit (Suc 0) w) = uint w div 2"
    by (simp add: unsigned_drop_bit_eq drop_bit_eq_div uint_div)
  moreover have "uint (0xEDB88320 :: u32) = 0xEDB88320" by simp
  ultimately show ?thesis by (simp add: crc_bit_def crc_bit_int_def unsigned_xor_eq)
qed

lemma crc_bit_int_numeral:
  "crc_bit_int 0 = 0" "crc_bit_int 1 = 0xEDB88320"
  "crc_bit_int (numeral (num.Bit0 n)) = numeral n"
  "crc_bit_int (numeral (num.Bit1 n)) = numeral n XOR 0xEDB88320"
  by (simp_all add: crc_bit_int_def)

lemma table_int: "map (\<lambda>i. crc_bit_int (crc_bit_int (crc_bit_int (crc_bit_int
    (crc_bit_int (crc_bit_int (crc_bit_int (crc_bit_int i)))))))) [0..255] = map uint AOF_CRC_TABLE"
  by (simp add: AOF_CRC_TABLE_def upto.simps crc_bit_int_numeral)

lemma table_nth_bitwise:
  assumes "i < 256"
  shows "AOF_CRC_TABLE ! i = (crc_bit ^^ 8) (of_nat i)"
proof -
  have n: "nat (int i) = i" "[0..255] ! i = int i" using assms by simp_all
  have "uint (AOF_CRC_TABLE ! i) = map uint AOF_CRC_TABLE ! i" using assms by simp
  also have "\<dots> = uint ((crc_bit ^^ 8) (of_nat i))"
  proof -
    have "uint (of_nat i :: u32) = int i"
      using assms by (simp add: unsigned_of_nat take_bit_nat_eq_self)
    then show ?thesis
      unfolding table_int [symmetric] using assms
      by (simp add: numeral_eq_Suc uint_crc_bit)
  qed
  finally show ?thesis by (rule unsigned_word_eqI)
qed

section \<open>Injectivity of the step\<close>

lemma table_top_inj:
  assumes "i < 256" "j < 256" "drop_bit 24 (AOF_CRC_TABLE ! i) = drop_bit 24 (AOF_CRC_TABLE ! j)"
  shows "i = j"
proof -
  have "uint (drop_bit 24 w) = uint w div 16777216" for w :: u32
    by (simp add: unsigned_drop_bit_eq drop_bit_eq_div uint_div)
  then have "uint (AOF_CRC_TABLE ! i) div 16777216 = uint (AOF_CRC_TABLE ! j) div 16777216"
    using assms(3) by metis
  then show ?thesis
    using nth_eq_iff_index_eq [OF table_tops_distinct, of i j] assms(1,2) by simp
qed

lemma low_byte_less: "unat (w AND 0xFF :: u32) < 256"
proof -
  have "w AND 0xFF \<le> 0xFF" by (rule word_and_le1)
  then show ?thesis by (simp add: word_le_nat_alt)
qed

text \<open>Equal results come from equal upper bytes of the state and equal table positions.\<close>

lemma crc_step_inj:
  assumes "crc_step b c = crc_step b' c'"
  shows "drop_bit 8 c = drop_bit 8 c'" "(c XOR ucast b) AND 0xFF = (c' XOR ucast b') AND 0xFF"
proof -
  let ?i = "(c XOR ucast b) AND 0xFF" and ?j = "(c' XOR ucast b') AND 0xFF"
  have z: "drop_bit 24 (drop_bit 8 x) = 0" for x :: u32
    by (simp add: drop_bit_drop_bit)
  have "drop_bit 24 (crc_step b c) = drop_bit 24 (crc_step b' c')" using assms by simp
  then have "drop_bit 24 (AOF_CRC_TABLE ! unat ?i) = drop_bit 24 (AOF_CRC_TABLE ! unat ?j)"
    unfolding crc_step_def drop_bit_xor z by simp
  then have "unat ?i = unat ?j" by (rule table_top_inj [OF low_byte_less low_byte_less])
  then show e: "?i = ?j" by (simp only: unsigned_word_eqI)
  show "drop_bit 8 c = drop_bit 8 c'"
  proof -
    have "crc_step b c = AOF_CRC_TABLE ! unat ?i XOR drop_bit 8 c" "crc_step b' c' = AOF_CRC_TABLE ! unat ?i XOR drop_bit 8 c'"
      using e by (simp_all add: crc_step_def)
    then have "AOF_CRC_TABLE ! unat ?i XOR (AOF_CRC_TABLE ! unat ?i XOR drop_bit 8 c)
        = AOF_CRC_TABLE ! unat ?i XOR (AOF_CRC_TABLE ! unat ?i XOR drop_bit 8 c')" using assms by simp
    then show ?thesis by (simp only: xor.assoc [symmetric] xor_self_eq xor.left_neutral)
  qed
qed

lemma crc_step_state_inj: "crc_step b c = crc_step b c' \<Longrightarrow> c = c'"
proof (rule bit_word_eqI)
  fix n assume s: "crc_step b c = crc_step b c'" and n: "n < LENGTH(32)"
  note i = crc_step_inj [OF s]
  show "bit c n = bit c' n"
  proof (cases "n < 8")
    case True
    have "bit ((c XOR ucast b) AND 0xFF) n = bit ((c' XOR ucast b) AND 0xFF) n" using i(2) by simp
    moreover have "bit (0xFF :: u32) n" using True by (auto simp: less_Suc_eq numeral_eq_Suc)
    ultimately show ?thesis by (auto simp: bit_and_iff bit_xor_iff)
  next
    case False
    have "bit (drop_bit 8 c) (n - 8) = bit (drop_bit 8 c') (n - 8)" using i(1) by simp
    then show ?thesis using False by (simp add: bit_drop_bit_eq)
  qed
qed

lemma crc_step_byte_inj: "crc_step b c = crc_step b' c \<Longrightarrow> b = b'"
proof (rule bit_word_eqI)
  fix n assume s: "crc_step b c = crc_step b' c" and n: "n < LENGTH(8)"
  have "bit ((c XOR ucast b) AND 0xFF) n = bit ((c XOR ucast b') AND 0xFF) n"
    using crc_step_inj(2) [OF s] by simp
  moreover have "bit (0xFF :: u32) n" using n by (auto simp: less_Suc_eq numeral_eq_Suc)
  ultimately show "bit b n = bit b' n" using n by (auto simp: bit_and_iff bit_xor_iff bit_ucast_iff)
qed

lemma fold_crc_inj: "fold crc_step p c = fold crc_step p c' \<Longrightarrow> c = c'"
  by (induction p arbitrary: c c') (auto dest: crc_step_state_inj)

lemma xor_ones_inj:
  assumes "a XOR x = b XOR x"
  shows "a = (b :: u32)"
proof -
  have "(a XOR x) XOR x = (b XOR x) XOR x" using assms by simp
  then show ?thesis by (simp add: xor.assoc)
qed

lemma aof_crc32_append: "aof_crc32 seed (p @ q) = aof_crc32 (aof_crc32 seed p) q"
  by (simp add: aof_crc32_def xor.assoc)

lemma crc_single_byte:
  assumes "i < length p" "aof_crc32 seed (p[i := b]) = aof_crc32 seed p"
  shows "b = p ! i"
proof -
  let ?c = "fold crc_step (take i p) (seed XOR 0xFFFFFFFF)"
  have f: "fold crc_step (p[i := x]) (seed XOR 0xFFFFFFFF) = fold crc_step (drop (Suc i) p) (crc_step x ?c)" for x
    using assms(1) by (simp add: upd_conv_take_nth_drop)
  have "fold crc_step (drop (Suc i) p) (crc_step b ?c) = fold crc_step (drop (Suc i) p) (crc_step (p ! i) ?c)"
    using assms(2) f [of b] f [of "p ! i"] unfolding aof_crc32_def by (auto dest: xor_ones_inj)
  then show ?thesis by (blast dest: fold_crc_inj crc_step_byte_inj)
qed

section \<open>Little-endian words\<close>

lemma put_u32le_length [simp]: "length (aof_put_u32le v) = 4"
  by (simp add: aof_put_u32le_def)

lemma get_put_u32le: "aof_get_u32le (aof_put_u32le v @ r) = v"
proof (rule bit_word_eqI)
  fix n assume n: "n < LENGTH(32)"
  note d = aof_get_u32le_def aof_put_u32le_def bit_or_iff bit_push_bit_iff bit_ucast_iff bit_drop_bit_eq
  consider "n < 8" | "8 \<le> n" "n < 16" | "16 \<le> n" "n < 24" | "24 \<le> n" by linarith
  then show "bit (aof_get_u32le (aof_put_u32le v @ r)) n = bit v n"
  proof cases
    case 1
    then show ?thesis by (simp add: d)
  next
    case 2
    then have "n - 8 < 8" "n - 8 < 32" by linarith+
    then show ?thesis using 2 by (simp add: d)
  next
    case 3
    then have "n - 16 < 8" "n - 16 < 32" "\<not> n - 8 < 8" by linarith+
    then show ?thesis using 3 by (simp add: d)
  next
    case 4
    then have "n - 24 < 8" "n - 24 < 32" "\<not> n - 8 < 8" "\<not> n - 16 < 8" using n by simp_all
    then show ?thesis using 4 n by (simp add: d)
  qed
qed

section \<open>Properties\<close>

text \<open>
  The constant table is the CRC-32 table: entry \<open>i\<close> is the byte \<open>i\<close> divided bit by bit, reflected,
  by the polynomial \<open>0xEDB88320\<close>.
\<close>

theorem crc_table_polynomial:
  assumes "i < 256"
  shows "AOF_CRC_TABLE ! i = (crc_bit ^^ 8) (of_nat i)"
  by (rule table_nth_bitwise [OF assms])

theorem crc_table_polynomial_witness:
  "(255::nat) < 256 \<and> AOF_CRC_TABLE ! 255 = (crc_bit ^^ 8) (of_nat 255)"
  using crc_table_polynomial [of 255] by simp

text \<open>
  C35. The record checksum detects every change of one payload byte, and it is the checksum of the
  length prefix followed by the payload.
\<close>

theorem record_crc_detects_byte_change:
  assumes "i < length p" "unat len = length p" "b \<noteq> p ! i"
  shows "aof_record_crc len (p[i := b]) \<noteq> aof_record_crc len p
    \<and> aof_record_crc len p = aof_crc32 0 (aof_put_u32le len @ p)"
  using crc_single_byte [OF assms(1)] assms(2,3)
  by (auto simp: aof_record_crc_def Let_def aof_crc32_append)

theorem record_crc_detects_byte_change_witness:
  "aof_record_crc 2 ([7, 9][1 := 8]) \<noteq> aof_record_crc 2 [7, 9]
    \<and> aof_record_crc 2 [7, 9] = aof_crc32 0 (aof_put_u32le 2 @ [7, 9])"
  by (rule record_crc_detects_byte_change) simp_all
end
