(* ===== verification/Aof.thy ===== *)
theory Aof
  imports Crc
begin

text \<open>
  The append-only log (\<^verbatim>\<open>src/store/aof.c\<close>): record and commit-frame encoding, the survey and
  delivery walks over a segment, and the writer: open with recovery, append with rotation, commit,
  scan and close.

  A directory is the list of its segments, \<open>(first LSN, bytes)\<close> in ascending order; the bytes are
  what the writer has handed to the operating system.  \<open>synced\<close> is the number of bytes of the active
  segment known to be durable.  The outcome of each system call of the writer is given by an \<open>io\<close>
  record; a failed write leaves some prefix of the data in the file.  Buffers for records come
  from \<open>alloc\<close>, which says which sizes can be allocated.
\<close>

abbreviation (input) "AOF_HEADER \<equiv> (8::nat)"

definition AOF_FRAME_LEN :: u32 where "AOF_FRAME_LEN = 0xFFFFFFFF"
definition AOF_FRAME_MAGIC :: u32 where "AOF_FRAME_MAGIC = 0xB0AD63C9"
definition AOF_LEN_MAX :: u32 where "AOF_LEN_MAX = 0xFFFFFFFE"
definition RAY_AOF_DEFAULT_SEGMENT_LIMIT :: int where
  "RAY_AOF_DEFAULT_SEGMENT_LIMIT = 256 * 1024 * 1024"

section \<open>Segment names\<close>

definition aof_seg_name_valid :: "string \<Rightarrow> bool" where
  "aof_seg_name_valid name =
     (list_all (\<lambda>i. of_char (name ! i) \<ge> (48::nat) \<and> of_char (name ! i) \<le> (57::nat)) [0..<20] \<and> drop 20 name = ''.aof'')"

text \<open>The insertion sort of the first LSNs: \<open>ins\<close> walks left from \<open>j\<close> as the source does.\<close>

function seg_shift :: "int list \<Rightarrow> int \<Rightarrow> int \<Rightarrow> int list \<times> int" where
  "seg_shift v key j =
     (if j \<ge> 0 \<and> v ! nat j > key then seg_shift (v[nat (j + 1) := v ! nat j]) key (j - 1)
      else (v, j))"
  by pat_completeness auto
termination by (relation "measure (\<lambda>(v, key, j). nat (j + 1))") auto

declare seg_shift.simps [simp del]

fun seg_sort_from :: "nat list \<Rightarrow> int list \<Rightarrow> int list" where
  "seg_sort_from [] v = v"
| "seg_sort_from (i # is) v =
     (let key = v ! i in
      case seg_shift v key (int i - 1) of (v', j) \<Rightarrow> seg_sort_from is (v'[nat (j + 1) := key]))"

definition aof_segments_sort :: "int list \<Rightarrow> int list" where
  "aof_segments_sort v = seg_sort_from [1..<length v] v"

section \<open>The walks over a segment\<close>

record aof_survey =
  committed_end :: int
  committed_records :: int
  corrupt_committed :: bool
  file_size :: int

text \<open>
  The loop of \<open>aof_seg_survey\<close> on the bytes that are left; \<open>first_bad\<close> is \<open>-1\<close> until a checksum
  fails, \<open>buf_cap\<close> the size of the record buffer.
\<close>

function survey_loop ::
  "(nat \<Rightarrow> bool) \<Rightarrow> u8 list \<Rightarrow> nat \<Rightarrow> int \<Rightarrow> int \<Rightarrow> int \<Rightarrow> aof_survey \<Rightarrow> ray_err + aof_survey \<times> int" where
  "survey_loop alloc bs buf_cap offset records first_bad s =
     (if length bs < AOF_HEADER then Inr (s\<lparr>file_size := offset + int (length bs)\<rparr>, first_bad)
      else
        let len = aof_get_u32le bs; crc = aof_get_u32le (drop 4 bs); rest = drop AOF_HEADER bs in
        if len = AOF_FRAME_LEN then
          (if crc \<noteq> AOF_FRAME_MAGIC then Inr (s\<lparr>file_size := offset + 8\<rparr>, first_bad)
           else survey_loop alloc rest buf_cap (offset + 8) records first_bad
                  (s\<lparr>committed_end := offset + 8, committed_records := records, file_size := offset + 8\<rparr>))
        else if len > AOF_LEN_MAX then Inr (s\<lparr>file_size := offset + 8\<rparr>, first_bad)
        else if unat len > buf_cap \<and> \<not> alloc (unat len) then Inl RAY_ERR_OOM
        else
          let n = unat len in
          if length rest < n then Inr (s\<lparr>file_size := offset + 8 + int (length rest)\<rparr>, first_bad)
          else survey_loop alloc (drop n rest) (max buf_cap n) (offset + 8 + int n) (records + 1)
                 (if aof_record_crc len rest \<noteq> crc \<and> first_bad < 0 then offset else first_bad)
                 (s\<lparr>file_size := offset + 8 + int n\<rparr>))"
  by pat_completeness auto
termination by (relation "measure (\<lambda>(alloc, bs, _). length bs)") auto

declare survey_loop.simps [simp del]

definition aof_seg_survey :: "(nat \<Rightarrow> bool) \<Rightarrow> u8 list \<Rightarrow> ray_err + aof_survey" where
  "aof_seg_survey alloc bs =
     (case survey_loop alloc bs 0 0 0 (-1)
             \<lparr>committed_end = 0, committed_records = 0, corrupt_committed = False, file_size = 0\<rparr> of
        Inl e \<Rightarrow> Inl e
      | Inr (s, first_bad) \<Rightarrow>
          Inr (if first_bad \<ge> 0 \<and> first_bad < committed_end s then s\<lparr>corrupt_committed := True\<rparr> else s))"

text \<open>
  \<open>aof_seg_deliver\<close>: the callback gets the LSN, the payload and its context and says whether to go
  on.  The result is the number delivered, whether the callback stopped the scan, and the context.
\<close>

function deliver_loop ::
  "(nat \<Rightarrow> bool) \<Rightarrow> (int \<Rightarrow> u8 list \<Rightarrow> 'c \<Rightarrow> bool \<times> 'c) \<Rightarrow> int \<Rightarrow> int \<Rightarrow> u8 list \<Rightarrow> nat \<Rightarrow> int \<Rightarrow> int
     \<Rightarrow> int \<Rightarrow> 'c \<Rightarrow> ray_err + int \<times> bool \<times> 'c" where
  "deliver_loop alloc cb boundary from_lsn bs buf_cap offset lsn delivered ctx =
     (if offset < boundary then
        (if length bs < AOF_HEADER then Inr (delivered, False, ctx)
         else
           let len = aof_get_u32le bs; rest = drop AOF_HEADER bs in
           if len = AOF_FRAME_LEN then
             deliver_loop alloc cb boundary from_lsn rest buf_cap (offset + 8) lsn delivered ctx
           else if unat len > buf_cap \<and> \<not> alloc (unat len) then Inl RAY_ERR_OOM
           else
             let n = unat len in
             if length rest < n then Inr (delivered, False, ctx)
             else if lsn \<ge> from_lsn then
               (case cb lsn (take n rest) ctx of (go, ctx') \<Rightarrow>
                  if \<not> go then Inr (delivered + 1, True, ctx')
                  else deliver_loop alloc cb boundary from_lsn (drop n rest) (max buf_cap n)
                         (offset + 8 + int n) (lsn + 1) (delivered + 1) ctx')
             else deliver_loop alloc cb boundary from_lsn (drop n rest) (max buf_cap n)
                    (offset + 8 + int n) (lsn + 1) delivered ctx)
      else Inr (delivered, False, ctx))"
  by pat_completeness auto
termination by (relation "measure (\<lambda>(alloc, cb, boundary, from_lsn, bs, _). length bs)") auto

declare deliver_loop.simps [simp del]

definition aof_seg_deliver ::
  "(nat \<Rightarrow> bool) \<Rightarrow> u8 list \<Rightarrow> int \<Rightarrow> int \<Rightarrow> int \<Rightarrow> (int \<Rightarrow> u8 list \<Rightarrow> 'c \<Rightarrow> bool \<times> 'c) \<Rightarrow> 'c \<Rightarrow> int
     \<Rightarrow> ray_err + int \<times> bool \<times> 'c" where
  "aof_seg_deliver alloc bs base_lsn boundary from_lsn cb ctx delivered =
     deliver_loop alloc cb boundary from_lsn bs 0 0 base_lsn delivered ctx"

section \<open>Scanning\<close>

type_synonym aof_dir = "(int \<times> u8 list) list"

fun scan_loop ::
  "(nat \<Rightarrow> bool) \<Rightarrow> (int \<Rightarrow> u8 list \<Rightarrow> 'c \<Rightarrow> bool \<times> 'c) \<Rightarrow> int \<Rightarrow> aof_dir \<Rightarrow> int \<Rightarrow> 'c
     \<Rightarrow> ray_err + int \<times> 'c" where
  "scan_loop alloc cb from_lsn [] delivered ctx = Inr (delivered, ctx)"
| "scan_loop alloc cb from_lsn ((base, bs) # segs) delivered ctx =
     (if segs \<noteq> [] \<and> fst (hd segs) \<le> from_lsn then scan_loop alloc cb from_lsn segs delivered ctx
      else (case aof_seg_survey alloc bs of
          Inl e \<Rightarrow> Inl e
        | Inr s \<Rightarrow>
            if corrupt_committed s \<or> (segs \<noteq> [] \<and> committed_end s \<noteq> file_size s) then Inl RAY_ERR_CORRUPT
            else (case aof_seg_deliver alloc bs base (committed_end s) from_lsn cb ctx delivered of
                Inl e \<Rightarrow> Inl e
              | Inr (delivered', stopped, ctx') \<Rightarrow>
                  if stopped then Inr (delivered', ctx')
                  else scan_loop alloc cb from_lsn segs delivered' ctx')))"

definition ray_aof_scan ::
  "(nat \<Rightarrow> bool) \<Rightarrow> aof_dir \<Rightarrow> int \<Rightarrow> (int \<Rightarrow> u8 list \<Rightarrow> 'c \<Rightarrow> bool \<times> 'c) \<Rightarrow> 'c \<Rightarrow> ray_err + int \<times> 'c" where
  "ray_aof_scan alloc d from_lsn cb ctx = scan_loop alloc cb from_lsn d 0 ctx"

section \<open>The writer\<close>

record ray_aof =
  a_dir :: aof_dir
  a_base :: int
  fp_open :: bool
  next_lsn :: int
  seg_bytes :: int
  seg_limit :: int
  dirty :: bool
  synced :: int

text \<open>Outcomes of the system calls; a write is complete or stops after some bytes.\<close>

record io =
  io_head :: "nat option"
  io_body :: "nat option"
  io_frame :: "nat option"
  io_flush :: bool
  io_sync :: bool
  io_close :: bool
  io_open :: bool
  io_syncdir :: bool

definition io_fine :: io where
  "io_fine = \<lparr>io_head = None, io_body = None, io_frame = None, io_flush = True, io_sync = True,
     io_close = True, io_open = True, io_syncdir = True\<rparr>"

definition seg_data :: "aof_dir \<Rightarrow> int \<Rightarrow> u8 list" where
  "seg_data d b = (case map_of d b of None \<Rightarrow> [] | Some bs \<Rightarrow> bs)"

definition dir_append :: "int \<Rightarrow> u8 list \<Rightarrow> aof_dir \<Rightarrow> aof_dir" where
  "dir_append b bs d = map (\<lambda>(k, c). if k = b then (k, c @ bs) else (k, c)) d"

definition dir_truncate :: "int \<Rightarrow> nat \<Rightarrow> aof_dir \<Rightarrow> aof_dir" where
  "dir_truncate b n d = map (\<lambda>(k, c). if k = b then (k, take n c) else (k, c)) d"

text \<open>\<open>fopen(path, "ab")\<close>: the file is created if it does not exist.\<close>

definition dir_touch :: "int \<Rightarrow> aof_dir \<Rightarrow> aof_dir" where
  "dir_touch b d = (if b \<in> fst ` set d then d else insort_key fst (b, []) d)"

definition put_bytes :: "u8 list \<Rightarrow> nat option \<Rightarrow> ray_aof \<Rightarrow> bool \<times> ray_aof" where
  "put_bytes bs w lg =
     (case w of
        None \<Rightarrow> (True, lg\<lparr>a_dir := dir_append (a_base lg) bs (a_dir lg)\<rparr>)
      | Some k \<Rightarrow> (False, lg\<lparr>a_dir := dir_append (a_base lg) (take k bs) (a_dir lg)\<rparr>))"

definition enc_frame :: "u8 list" where
  "enc_frame = aof_put_u32le AOF_FRAME_LEN @ aof_put_u32le AOF_FRAME_MAGIC"

definition enc_head :: "u8 list \<Rightarrow> u8 list" where
  "enc_head p = aof_put_u32le (word_of_nat (length p))
     @ aof_put_u32le (aof_record_crc (word_of_nat (length p)) p)"

definition aof_write_frame :: "io \<Rightarrow> ray_aof \<Rightarrow> ray_err \<times> ray_aof" where
  "aof_write_frame r lg =
     (case put_bytes enc_frame (io_frame r) lg of
        (False, lg') \<Rightarrow> (RAY_ERR_IO, lg')
      | (True, lg') \<Rightarrow> (RAY_OK, lg'\<lparr>seg_bytes := seg_bytes lg' + 8, dirty := False\<rparr>))"

text \<open>\<open>fsync\<close> makes the bytes of the active segment durable.\<close>

definition sync_active :: "ray_aof \<Rightarrow> ray_aof" where
  "sync_active lg = lg\<lparr>synced := int (length (seg_data (a_dir lg) (a_base lg)))\<rparr>"

definition aof_rotate :: "io \<Rightarrow> ray_aof \<Rightarrow> ray_err \<times> ray_aof" where
  "aof_rotate r lg =
     (case (if dirty lg then aof_write_frame r lg else (RAY_OK, lg)) of (err, lg) \<Rightarrow>
      if err \<noteq> RAY_OK then (err, lg)
      else if \<not> io_flush r then (RAY_ERR_IO, lg)
      else if \<not> io_sync r then (RAY_ERR_IO, lg)
      else
        let lg = sync_active lg in
        if \<not> io_close r then (RAY_ERR_IO, lg\<lparr>fp_open := False\<rparr>)
        else if \<not> io_open r then (RAY_ERR_IO, lg\<lparr>fp_open := False\<rparr>)
        else
          let lg = lg\<lparr>a_dir := dir_touch (next_lsn lg) (a_dir lg), a_base := next_lsn lg,
                        seg_bytes := 0, synced := 0\<rparr>
          in (if io_syncdir r then RAY_OK else RAY_ERR_IO, lg))"

text \<open>\<open>payload\<close> is absent for a NULL pointer, which is allowed for an empty record.  The result is
  the LSN or \<open>-1\<close>, the error, and the lg.\<close>

definition ray_aof_append :: "io \<Rightarrow> ray_aof \<Rightarrow> u8 list option \<Rightarrow> int \<Rightarrow> int \<times> ray_err \<times> ray_aof" where
  "ray_aof_append r lg payload len =
     (if \<not> fp_open lg \<or> (payload = None \<and> len > 0) \<or> len < 0 then (-1, RAY_ERR_DOMAIN, lg)
      else if len > uint AOF_LEN_MAX then (-1, RAY_ERR_LIMIT, lg)
      else
        case (if seg_bytes lg > 0 \<and> seg_bytes lg + 8 + len > seg_limit lg then aof_rotate r lg
              else (RAY_OK, lg)) of (err, lg) \<Rightarrow>
        if err \<noteq> RAY_OK then (-1, err, lg)
        else
          let p = (case payload of None \<Rightarrow> [] | Some p \<Rightarrow> take (nat len) p) in
          case put_bytes (enc_head p) (io_head r) lg of
            (False, lg) \<Rightarrow> (-1, RAY_ERR_IO, lg)
          | (True, lg) \<Rightarrow>
              (case (if len > 0 then put_bytes p (io_body r) lg else (True, lg)) of
                 (False, lg) \<Rightarrow> (-1, RAY_ERR_IO, lg)
               | (True, lg) \<Rightarrow>
                   (next_lsn lg, RAY_OK,
                    lg\<lparr>seg_bytes := seg_bytes lg + 8 + len, dirty := True, next_lsn := next_lsn lg + 1\<rparr>)))"

definition ray_aof_commit :: "io \<Rightarrow> ray_aof \<Rightarrow> ray_err \<times> ray_aof" where
  "ray_aof_commit r lg =
     (if \<not> fp_open lg then (RAY_ERR_DOMAIN, lg)
      else if \<not> dirty lg then (RAY_OK, lg)
      else case aof_write_frame r lg of (err, lg) \<Rightarrow>
        if err \<noteq> RAY_OK then (err, lg)
        else if \<not> io_flush r then (RAY_ERR_IO, lg)
        else if \<not> io_sync r then (RAY_ERR_IO, lg)
        else (RAY_OK, sync_active lg))"

text \<open>The checks and allocations of \<open>ray_aof_open\<close> before and after the recovery.\<close>

record open_env =
  dir_name_ok :: bool
  mkdir_ok :: bool
  log_alloc_ok :: bool
  truncate_ok :: bool
  fopen_ok :: bool
  syncdir_ok :: bool

definition open_env_fine :: open_env where
  "open_env_fine = \<lparr>dir_name_ok = True, mkdir_ok = True, log_alloc_ok = True, truncate_ok = True,
     fopen_ok = True, syncdir_ok = True\<rparr>"

definition ray_aof_open :: "open_env \<Rightarrow> (nat \<Rightarrow> bool) \<Rightarrow> aof_dir \<Rightarrow> int \<Rightarrow> ray_err + ray_aof" where
  "ray_aof_open e alloc d segment_limit =
     (if \<not> dir_name_ok e then Inl RAY_ERR_DOMAIN
      else if \<not> mkdir_ok e then Inl RAY_ERR_IO
      else if \<not> log_alloc_ok e then Inl RAY_ERR_OOM
      else
        let lg = \<lparr>a_dir = d, a_base = 0, fp_open = True, next_lsn = 0, seg_bytes = 0,
                   seg_limit = (if segment_limit > 0 then segment_limit else RAY_AOF_DEFAULT_SEGMENT_LIMIT),
                   dirty = False, synced = 0\<rparr>
        in if d \<noteq> [] then
             let tail_base = fst (last d) in
             case aof_seg_survey alloc (snd (last d)) of
               Inl err \<Rightarrow> Inl err
             | Inr s \<Rightarrow>
                 if corrupt_committed s then Inl RAY_ERR_CORRUPT
                 else if file_size s > committed_end s \<and> \<not> truncate_ok e then Inl RAY_ERR_IO
                 else if \<not> fopen_ok e then Inl RAY_ERR_IO
                 else Inr (lg\<lparr>a_dir := (if file_size s > committed_end s
                                          then dir_truncate tail_base (nat (committed_end s)) d else d),
                               a_base := tail_base, next_lsn := tail_base + committed_records s,
                               seg_bytes := committed_end s, synced := committed_end s\<rparr>)
           else if \<not> fopen_ok e then Inl RAY_ERR_IO
           else if \<not> syncdir_ok e then Inl RAY_ERR_IO
           else Inr (lg\<lparr>a_dir := [(0, [])]\<rparr>))"

definition ray_aof_next_lsn :: "ray_aof option \<Rightarrow> int" where
  "ray_aof_next_lsn lg = (case lg of None \<Rightarrow> -1 | Some l \<Rightarrow> next_lsn l)"

definition ray_aof_close :: "io \<Rightarrow> ray_aof option \<Rightarrow> ray_err \<times> aof_dir" where
  "ray_aof_close r lg =
     (case lg of None \<Rightarrow> (RAY_ERR_DOMAIN, [])
      | Some lg \<Rightarrow>
          if fp_open lg then
            (case ray_aof_commit r lg of (err, lg') \<Rightarrow>
               (if \<not> io_close r \<and> err = RAY_OK then RAY_ERR_IO else err, a_dir lg'))
          else (RAY_OK, a_dir lg))"

section \<open>The stream as a sequence of records and frames\<close>

datatype item = Rec "u8 list" | Frame

fun enc :: "item \<Rightarrow> u8 list" where
  "enc (Rec p) = enc_head p @ p"
| "enc Frame = enc_frame"

definition encs :: "item list \<Rightarrow> u8 list" where
  "encs is = concat (map enc is)"

fun item_ok :: "item \<Rightarrow> bool" where
  "item_ok (Rec p) = (length p \<le> 4294967294)"
| "item_ok Frame = True"

fun recs :: "item list \<Rightarrow> u8 list list" where
  "recs [] = []"
| "recs (Rec p # is) = p # recs is"
| "recs (Frame # is) = recs is"

text \<open>The items up to the last frame.\<close>

fun upto_frame :: "item list \<Rightarrow> item list" where
  "upto_frame [] = []"
| "upto_frame (it # is) = (if upto_frame is \<noteq> [] \<or> it = Frame then it # upto_frame is else [])"

lemma encs_simps [simp]: "encs [] = []" "encs (it # is) = enc it @ encs is" "encs (is @ js) = encs is @ encs js"
  by (simp_all add: encs_def)

lemma recs_append [simp]: "recs (is @ js) = recs is @ recs js"
  by (induction "is" rule: recs.induct) auto

lemma enc_head_length [simp]: "length (enc_head p) = 8"
  by (simp add: enc_head_def)

lemma enc_frame_length [simp]: "length enc_frame = 8"
  by (simp add: enc_frame_def)

lemma enc_length: "8 \<le> length (enc it)"
  by (cases it) auto

lemma item_len:
  assumes "length p \<le> 4294967294"
  shows "unat (word_of_nat (length p) :: u32) = length p"
    "(word_of_nat (length p) :: u32) \<noteq> AOF_FRAME_LEN" "\<not> AOF_LEN_MAX < (word_of_nat (length p) :: u32)"
proof -
  show u: "unat (word_of_nat (length p) :: u32) = length p"
    using assms by (simp add: unat_of_nat take_bit_nat_eq_self)
  show "(word_of_nat (length p) :: u32) \<noteq> AOF_FRAME_LEN"
  proof
    assume "(word_of_nat (length p) :: u32) = AOF_FRAME_LEN"
    then have "length p = unat AOF_FRAME_LEN" using u by simp
    then show False using assms by (simp add: AOF_FRAME_LEN_def)
  qed
  show "\<not> AOF_LEN_MAX < (word_of_nat (length p) :: u32)"
    using assms u by (simp add: word_less_nat_alt AOF_LEN_MAX_def)
qed

lemma head_fields:
  "aof_get_u32le (enc_head p @ r) = word_of_nat (length p)"
  "aof_get_u32le (drop 4 (enc_head p @ r)) = aof_record_crc (word_of_nat (length p)) p"
  "aof_get_u32le (enc_frame @ r) = AOF_FRAME_LEN"
  "aof_get_u32le (drop 4 (enc_frame @ r)) = AOF_FRAME_MAGIC"
  by (simp_all add: enc_head_def enc_frame_def get_put_u32le)

lemma record_crc_prefix:
  "unat len = length p \<Longrightarrow> aof_record_crc len (p @ r) = aof_record_crc len p"
  by (simp add: aof_record_crc_def)

section \<open>The survey of a segment\<close>

lemma survey_rec:
  assumes "length p \<le> 4294967294" "\<forall>n. alloc n"
  shows "survey_loop alloc (enc_head q @ p @ r) cap off n fb s =
    (if length q = length p then
       survey_loop alloc r (max cap (length p)) (off + 8 + int (length p)) (n + 1)
         (if aof_record_crc (word_of_nat (length p)) p \<noteq> aof_record_crc (word_of_nat (length p)) q \<and> fb < 0 then off else fb)
         (s\<lparr>file_size := off + 8 + int (length p)\<rparr>)
     else survey_loop alloc (enc_head q @ p @ r) cap off n fb s)"
proof (cases "length q = length p")
  case True
  note l = item_len [OF assms(1)]
  show ?thesis
    using l assms(2) True head_fields(1,2) [of q "p @ r"] record_crc_prefix [OF l(1), of r]
    by (subst survey_loop.simps) (simp add: Let_def)
qed simp

lemma survey_frame:
  "survey_loop alloc (enc_frame @ r) cap off n fb s =
     survey_loop alloc r cap (off + 8) n fb
       (s\<lparr>committed_end := off + 8, committed_records := n, file_size := off + 8\<rparr>)"
  using head_fields(3,4) [of r] by (subst survey_loop.simps) (simp add: Let_def)

text \<open>A torn tail: a proper prefix of an item.\<close>

definition torn :: "u8 list \<Rightarrow> bool" where
  "torn t \<longleftrightarrow> (\<exists>it k. item_ok it \<and> k < length (enc it) \<and> t = take k (enc it))"

lemma torn_Nil [simp]: "torn []"
  unfolding torn_def by (intro exI [of _ Frame] exI [of _ 0]) simp

lemma survey_torn:
  assumes "torn t" "\<forall>n. alloc n"
  shows "survey_loop alloc t cap off n fb s = Inr (s\<lparr>file_size := off + int (length t)\<rparr>, fb)"
proof (cases "length t < 8")
  case True
  then show ?thesis by (subst survey_loop.simps) simp
next
  case False
  obtain it k where t: "item_ok it" "k < length (enc it)" "t = take k (enc it)"
    using assms(1) by (auto simp: torn_def)
  obtain p where p: "it = Rec p" using t False by (cases it) auto
  have tt: "t = enc_head p @ take (k - 8) p" "k - 8 < length p"
    using t p False by (auto simp: take_append)
  note l = item_len [of p]
  have pl: "length p \<le> 4294967294" using t p by simp
  have "survey_loop alloc (enc_head p @ take (k - 8) p) cap off n fb s
      = Inr (s\<lparr>file_size := off + 8 + int (k - 8)\<rparr>, fb)"
    using l [OF pl] assms(2) tt(2) head_fields(1) [of p "take (k - 8) p"]
    by (subst survey_loop.simps) (simp add: Let_def min_def)
  then show ?thesis using tt by (simp add: min_def)
qed

lemma survey_items:
  assumes "list_all item_ok is" "torn t" "\<forall>n. alloc n"
  shows "survey_loop alloc (encs is @ t) cap off n fb s =
    Inr (s\<lparr>committed_end := (if upto_frame is = [] then committed_end s else off + int (length (encs (upto_frame is)))),
           committed_records := (if upto_frame is = [] then committed_records s else n + int (length (recs (upto_frame is)))),
           file_size := off + int (length (encs is)) + int (length t)\<rparr>, fb)"
  using assms(1)
proof (induction "is" arbitrary: cap off n s)
  case Nil
  then show ?case using survey_torn [OF assms(2,3)] by simp
next
  case (Cons it "is")
  show ?case
  proof (cases it)
    case (Rec p)
    then show ?thesis
      using Cons survey_rec [OF _ assms(3), of p p "encs is @ t"] by simp
  next
    case Frame
    then show ?thesis using Cons survey_frame [of alloc "encs is @ t"] by simp
  qed
qed

lemma aof_seg_survey_items:
  assumes "list_all item_ok is" "torn t" "\<forall>n. alloc n"
  shows "aof_seg_survey alloc (encs is @ t) =
    Inr \<lparr>committed_end = int (length (encs (upto_frame is))),
         committed_records = int (length (recs (upto_frame is))), corrupt_committed = False,
         file_size = int (length (encs is)) + int (length t)\<rparr>"
  by (simp add: aof_seg_survey_def survey_items [OF assms])

text \<open>A record whose payload no longer fits its checksum, with a frame after it.\<close>

lemma survey_bad_record:
  assumes "list_all item_ok is" "list_all item_ok js" "Frame \<in> set js" "torn t" "\<forall>n. alloc n"
    "length p = length q" "length p \<le> 4294967294"
    "aof_record_crc (word_of_nat (length p)) p \<noteq> aof_record_crc (word_of_nat (length p)) q"
  shows "\<exists>s. aof_seg_survey alloc (encs is @ (enc_head q @ p) @ encs js @ t) = Inr s \<and> corrupt_committed s"
proof -
  have fr: "upto_frame js \<noteq> []" using assms(3) by (induction js) auto
  have walk: "\<exists>cap' n' s'. survey_loop alloc (encs is @ r) cap off n fb s
      = survey_loop alloc r cap' (off + int (length (encs is))) n' fb s'" for r cap off n fb s
    using assms(1)
  proof (induction "is" arbitrary: cap off n s)
    case (Cons it "is")
    show ?case
    proof (cases it)
      case (Rec p)
      then show ?thesis
        using Cons.prems survey_rec [OF _ assms(5), of p p "encs is @ r" cap off n fb s]
          Cons.IH [of "max cap (length p)" "off + 8 + int (length p)" "n + 1" "s\<lparr>file_size := off + 8 + int (length p)\<rparr>"]
        by (simp add: add.assoc)
    next
      case Frame
      then show ?thesis
        using Cons.prems survey_frame [of alloc "encs is @ r" cap off n fb s]
          Cons.IH [of cap "off + 8" n "s\<lparr>committed_end := off + 8, committed_records := n, file_size := off + 8\<rparr>"]
        by (simp add: add.assoc)
    qed
  qed auto
  obtain cap' n' s' where w: "survey_loop alloc (encs is @ (enc_head q @ p) @ encs js @ t) 0 0 0 (-1)
        \<lparr>committed_end = 0, committed_records = 0, corrupt_committed = False, file_size = 0\<rparr>
      = survey_loop alloc ((enc_head q @ p) @ encs js @ t) cap' (int (length (encs is))) n' (-1) s'"
    using walk [of "(enc_head q @ p) @ encs js @ t" 0 0 0 "-1"
        "\<lparr>committed_end = 0, committed_records = 0, corrupt_committed = False, file_size = 0\<rparr>"] by auto
  show ?thesis
    using survey_rec [OF assms(7,5), of q "encs js @ t" cap' "int (length (encs is))" n' "-1" s'] assms(6,8)
      w [unfolded append_assoc]
    by (simp add: aof_seg_survey_def survey_items [OF assms(2,4,5)] fr)
qed

section \<open>Delivery and scan\<close>

text \<open>What a scan is for: the callback gets the records from \<open>from_lsn\<close> on, in order, until it stops.\<close>

fun feed ::
  "(int \<Rightarrow> u8 list \<Rightarrow> 'c \<Rightarrow> bool \<times> 'c) \<Rightarrow> int \<Rightarrow> int \<Rightarrow> u8 list list \<Rightarrow> int \<Rightarrow> 'c \<Rightarrow> int \<times> bool \<times> 'c" where
  "feed cb from_lsn lsn [] delivered ctx = (delivered, False, ctx)"
| "feed cb from_lsn lsn (p # ps) delivered ctx =
     (if lsn \<ge> from_lsn then
        (case cb lsn p ctx of (go, ctx') \<Rightarrow>
           if \<not> go then (delivered + 1, True, ctx')
           else feed cb from_lsn (lsn + 1) ps (delivered + 1) ctx')
      else feed cb from_lsn (lsn + 1) ps delivered ctx)"

lemma feed_append:
  "feed cb from_lsn lsn (ps @ qs) d ctx =
     (case feed cb from_lsn lsn ps d ctx of (d', stopped, ctx') \<Rightarrow>
        if stopped then (d', True, ctx') else feed cb from_lsn (lsn + int (length ps)) qs d' ctx')"
  by (induction ps arbitrary: lsn d ctx) (auto split: prod.splits simp: add.assoc)

lemma feed_skip: "lsn + int (length ps) \<le> from_lsn \<Longrightarrow> feed cb from_lsn lsn ps d ctx = (d, False, ctx)"
  by (induction ps arbitrary: lsn) auto

lemma deliver_rec:
  assumes "length p \<le> 4294967294" "\<forall>n. alloc n" "off < bd"
  shows "deliver_loop alloc cb bd from_lsn (enc_head p @ p @ r) cap off lsn d ctx =
    (if lsn \<ge> from_lsn then
       (case cb lsn p ctx of (go, ctx') \<Rightarrow>
          if \<not> go then Inr (d + 1, True, ctx')
          else deliver_loop alloc cb bd from_lsn r (max cap (length p)) (off + 8 + int (length p)) (lsn + 1) (d + 1) ctx')
     else deliver_loop alloc cb bd from_lsn r (max cap (length p)) (off + 8 + int (length p)) (lsn + 1) d ctx)"
  using item_len [OF assms(1)] assms(2,3) head_fields(1) [of p "p @ r"]
  by (subst deliver_loop.simps) (simp add: Let_def split: prod.split)

lemma deliver_frame:
  "off < bd \<Longrightarrow> deliver_loop alloc cb bd from_lsn (enc_frame @ r) cap off lsn d ctx =
     deliver_loop alloc cb bd from_lsn r cap (off + 8) lsn d ctx"
  using head_fields(3) [of r] by (subst deliver_loop.simps) (simp add: Let_def)

lemma deliver_items:
  assumes "list_all item_ok is" "\<forall>n. alloc n" "bd = off + int (length (encs is))"
  shows "deliver_loop alloc cb bd from_lsn (encs is @ r) cap off lsn d ctx = Inr (feed cb from_lsn lsn (recs is) d ctx)"
  using assms(1,3)
proof (induction "is" arbitrary: cap off lsn d ctx)
  case Nil
  then show ?case by (subst deliver_loop.simps) simp
next
  case (Cons it "is")
  have b: "off < bd" using Cons.prems(2) enc_length [of it] by simp
  show ?case
  proof (cases it)
    case (Rec p)
    have "bd = (off + 8 + int (length p)) + int (length (encs is))" using Cons.prems(2) Rec by simp
    note IH = Cons.IH [OF _ this]
    have pl: "length p \<le> 4294967294" "list_all item_ok is" using Cons.prems(1) Rec by simp_all
    show ?thesis
      unfolding Rec encs_simps enc.simps append_assoc recs.simps feed.simps
        deliver_rec [OF pl(1) assms(2) b]
      by (auto simp: IH [OF pl(2)] split: prod.splits)
  next
    case Frame
    have "bd = (off + 8) + int (length (encs is))" using Cons.prems(2) Frame by simp
    from Cons.IH [OF _ this] show ?thesis
      using Cons.prems(1) Frame deliver_frame [OF b, of alloc cb from_lsn "encs is @ r"] by simp
  qed
qed

lemma upto_frame_prefix: "\<exists>js. is = upto_frame is @ js \<and> Frame \<notin> set js"
proof (induction "is")
  case (Cons it "is")
  then obtain js where js: "is = upto_frame is @ js" "Frame \<notin> set js" by blast
  show ?case
  proof (cases "upto_frame is \<noteq> [] \<or> it = Frame")
    case True
    then show ?thesis using js by auto
  next
    case False
    then show ?thesis using js by (intro exI [of _ "it # js"]) auto
  qed
qed simp

lemma upto_frame_ok: "list_all item_ok is \<Longrightarrow> list_all item_ok (upto_frame is)"
  by (induction "is") auto

definition sealed :: "item list \<Rightarrow> bool" where
  "sealed is \<longleftrightarrow> is \<noteq> [] \<and> last is = Frame"

lemma upto_frame_snoc: "upto_frame (is @ [Frame]) = is @ [Frame]"
  by (induction "is") auto

lemma upto_frame_snoc_rec: "upto_frame (is @ [Rec p]) = upto_frame is"
  by (induction "is") auto

lemma upto_frame_sealed: "sealed is \<Longrightarrow> upto_frame is = is"
  by (metis append_butlast_last_id sealed_def upto_frame_snoc)

lemma deliver_committed:
  assumes "list_all item_ok is" "\<forall>n. alloc n"
  shows "aof_seg_deliver alloc (encs is @ t) base (int (length (encs (upto_frame is)))) from_lsn cb ctx d
    = Inr (feed cb from_lsn base (recs (upto_frame is)) d ctx)"
proof -
  obtain js where js: "is = upto_frame is @ js" using upto_frame_prefix by blast
  have "encs is @ t = encs (upto_frame is) @ (encs js @ t)" by (subst js) simp
  then show ?thesis
    using deliver_items [OF upto_frame_ok [OF assms(1)] assms(2), of "int (length (encs (upto_frame is)))" 0]
    by (simp add: aof_seg_deliver_def)
qed

text \<open>
  The layout of a directory: every segment but the last is sealed by a frame; each is named by the
  number of records before it; \<open>t\<close> is what follows the last complete item of the last segment.
\<close>

fun layout :: "int \<Rightarrow> aof_dir \<Rightarrow> item list list \<Rightarrow> u8 list \<Rightarrow> bool" where
  "layout b [] iss t \<longleftrightarrow> iss = [] \<and> t = []"
| "layout b ((k, bs) # segs) [] t \<longleftrightarrow> False"
| "layout b ((k, bs) # segs) (is # iss) t \<longleftrightarrow> k = b \<and> list_all item_ok is
     \<and> (if segs = [] then iss = [] \<and> bs = encs is @ t
        else bs = encs is \<and> sealed is \<and> layout (b + int (length (recs is))) segs iss t)"

definition committed :: "item list list \<Rightarrow> u8 list list" where
  "committed iss = concat (map (recs \<circ> upto_frame) iss)"

definition appended :: "item list list \<Rightarrow> u8 list list" where
  "appended iss = concat (map recs iss)"

lemma scan_layout:
  assumes "layout b segs iss t" "torn t" "\<forall>n. alloc n"
  shows "scan_loop alloc cb from_lsn segs d ctx =
    (case feed cb from_lsn b (committed iss) d ctx of (d', stopped, ctx') \<Rightarrow> Inr (d', ctx'))"
  using assms(1)
proof (induction segs arbitrary: b iss d ctx)
  case Nil
  then show ?case by (simp add: committed_def)
next
  case (Cons kb segs)
  obtain k bs where kb: "kb = (k, bs)" by (cases kb)
  obtain is0 iss' where i: "iss = is0 # iss'" using Cons.prems kb by (cases iss) auto
  have ok: "list_all item_ok is0" "k = b" using Cons.prems kb i by simp_all
  show ?case
  proof (cases "segs = []")
    case True
    then have e: "iss' = []" "bs = encs is0 @ t" using Cons.prems kb i by simp_all
    show ?thesis
      using e True kb i ok aof_seg_survey_items [OF ok(1) assms(2,3)]
        deliver_committed [OF ok(1) assms(3), of t b from_lsn cb ctx d]
      by (simp add: committed_def split: prod.split)
  next
    case False
    then have e: "bs = encs is0" "sealed is0" "layout (b + int (length (recs is0))) segs iss' t"
      using Cons.prems kb i by simp_all
    obtain k' bs' segs' where s: "segs = (k', bs') # segs'" using False by (cases segs) auto
    have k': "k' = b + int (length (recs is0))" using e(3) s by (cases iss') auto
    have com: "committed iss = recs is0 @ committed iss'" using i e(2) by (simp add: committed_def upto_frame_sealed)
    show ?thesis
    proof (cases "k' \<le> from_lsn")
      case True
      then show ?thesis
        using Cons.IH [OF e(3)] s k' kb com feed_skip [of b "recs is0" from_lsn cb d ctx]
        by (simp add: feed_append)
    next
      case F: False
      have sv: "aof_seg_survey alloc bs = Inr \<lparr>committed_end = int (length (encs is0)),
          committed_records = int (length (recs is0)), corrupt_committed = False, file_size = int (length (encs is0))\<rparr>"
        using aof_seg_survey_items [OF ok(1) torn_Nil assms(3)] e(1,2) by (simp add: upto_frame_sealed)
      have dl: "aof_seg_deliver alloc bs k (int (length (encs is0))) from_lsn cb ctx d
          = Inr (feed cb from_lsn b (recs is0) d ctx)"
        using deliver_committed [OF ok(1) assms(3), of "[]" b from_lsn cb ctx d] e(1,2) ok(2) by (simp add: upto_frame_sealed)
      show ?thesis
        using Cons.IH [OF e(3)] F s sv dl kb com
        by (simp add: feed_append split: prod.split)
    qed
  qed
qed

section \<open>The writer\<close>

fun front_ok :: "int \<Rightarrow> aof_dir \<Rightarrow> item list list \<Rightarrow> bool" where
  "front_ok b [] iss \<longleftrightarrow> iss = []"
| "front_ok b ((k, bs) # f) [] \<longleftrightarrow> False"
| "front_ok b ((k, bs) # f) (is # iss) \<longleftrightarrow> k = b \<and> list_all item_ok is \<and> bs = encs is \<and> sealed is
     \<and> front_ok (b + int (length (recs is))) f iss"

lemma appended_simps [simp]: "appended [] = []" "appended (is # iss) = recs is @ appended iss"
  "appended (iss @ jss) = appended iss @ appended jss"
  by (simp_all add: appended_def)

lemma committed_simps [simp]: "committed [] = []" "committed (is # iss) = recs (upto_frame is) @ committed iss"
  "committed (iss @ jss) = committed iss @ committed jss"
  by (simp_all add: committed_def)

lemma layout_front:
  "front_ok b front iss \<Longrightarrow> list_all item_ok is \<Longrightarrow>
   layout b (front @ [(b + int (length (appended iss)), encs is @ t)]) (iss @ [is]) t"
  by (induction b front iss rule: front_ok.induct) (auto simp: add.assoc)

lemma front_committed: "front_ok b front iss \<Longrightarrow> committed iss = appended iss"
  by (induction b front iss rule: front_ok.induct) (auto simp: upto_frame_sealed)

lemma front_keys:
  "front_ok b front iss \<Longrightarrow> list_all (\<lambda>i. recs i \<noteq> []) iss \<Longrightarrow> k \<in> fst ` set front \<Longrightarrow>
   b \<le> k \<and> k < b + int (length (appended iss))"
proof (induction b front iss rule: front_ok.induct)
  case (3 b k' bs f "is" iss)
  have r: "0 < length (recs is)" using 3(3) by simp
  show ?case
  proof (cases "k = b")
    case False
    then have "k \<in> fst ` set f" using 3(2,4) by auto
    then show ?thesis using 3(1) 3(2,3) by simp
  qed (use r in \<open>simp del: length_greater_0_conv\<close>)
qed auto

lemma front_snoc:
  "front_ok b front iss \<Longrightarrow> list_all item_ok is \<Longrightarrow> sealed is \<Longrightarrow>
   front_ok b (front @ [(b + int (length (appended iss)), encs is)]) (iss @ [is])"
  by (induction b front iss rule: front_ok.induct) (auto simp: add.assoc)

text \<open>
  The writer's state in terms of the items: \<open>iss\<close> are the sealed segments, \<open>is\<close> the active one.
\<close>

definition aof_inv :: "ray_aof \<Rightarrow> item list list \<Rightarrow> item list \<Rightarrow> bool" where
  "aof_inv lg iss is \<longleftrightarrow> fp_open lg
     \<and> (\<exists>front. a_dir lg = front @ [(a_base lg, encs is)] \<and> front_ok 0 front iss)
     \<and> list_all item_ok is \<and> list_all (\<lambda>i. recs i \<noteq> []) iss
     \<and> a_base lg = int (length (appended iss)) \<and> next_lsn lg = a_base lg + int (length (recs is))
     \<and> seg_bytes lg = int (length (encs is)) \<and> (dirty lg \<longleftrightarrow> is \<noteq> [] \<and> last is \<noteq> Frame)
     \<and> (is \<noteq> [] \<longrightarrow> hd is \<noteq> Frame) \<and> synced lg = int (length (encs (upto_frame is)))"

lemma recs_hd: "is \<noteq> [] \<Longrightarrow> hd is \<noteq> Frame \<Longrightarrow> recs is \<noteq> []"
  by (cases "is" rule: recs.cases) auto

lemma upto_frame_hd: "upto_frame is \<noteq> [] \<Longrightarrow> hd (upto_frame is) = hd is \<and> is \<noteq> []"
  by (cases "is") (auto split: if_splits)

lemma aof_inv_front:
  assumes "aof_inv lg iss is"
  obtains front where "a_dir lg = front @ [(a_base lg, encs is)]" "front_ok 0 front iss"
    "a_base lg \<notin> fst ` set front" "a_base lg = int (length (appended iss))"
proof -
  obtain front where f: "a_dir lg = front @ [(a_base lg, encs is)]" "front_ok 0 front iss"
    using assms by (auto simp: aof_inv_def)
  have b: "a_base lg = int (length (appended iss))" "list_all (\<lambda>i. recs i \<noteq> []) iss"
    using assms by (auto simp: aof_inv_def)
  have "a_base lg \<notin> fst ` set front" using front_keys [OF f(2) b(2)] b(1) by fastforce
  then show thesis using that f b by blast
qed

lemma dir_append_last:
  "b \<notin> fst ` set front \<Longrightarrow> dir_append b bs (front @ [(b, c)]) = front @ [(b, c @ bs)]"
  by (force simp: dir_append_def intro: map_idI)

lemma seg_data_last: "b \<notin> fst ` set front \<Longrightarrow> seg_data (front @ [(b, c)]) b = c"
  by (induction front) (auto simp: seg_data_def)

lemma insort_last: "\<forall>k \<in> fst ` set d. k < b \<Longrightarrow> insort_key fst (b, c) d = d @ [(b, c)]"
  by (induction d) auto

lemma last_frame_iff: "is \<noteq> [] \<and> last is = Frame \<longleftrightarrow> sealed is"
  by (simp add: sealed_def)

text \<open>Writing the frame of a dirty segment.\<close>

lemma aof_write_frame_ok:
  assumes "aof_inv lg iss is" "dirty lg" "io_frame r = None"
  shows "\<exists>lg'. aof_write_frame r lg = (RAY_OK, lg') \<and> aof_inv (sync_active lg') iss (is @ [Frame])
    \<and> a_base lg' = a_base lg \<and> next_lsn lg' = next_lsn lg \<and> seg_limit lg' = seg_limit lg
    \<and> \<not> dirty lg'"
proof -
  obtain front where f: "a_dir lg = front @ [(a_base lg, encs is)]" "front_ok 0 front iss"
    "a_base lg \<notin> fst ` set front"
    using aof_inv_front [OF assms(1)] .
  define lg' where "lg' = lg\<lparr>a_dir := front @ [(a_base lg, encs is @ enc_frame)],
    seg_bytes := seg_bytes lg + 8, dirty := False\<rparr>"
  have w: "aof_write_frame r lg = (RAY_OK, lg')"
    using assms(3) f(1) dir_append_last [OF f(3)] by (simp add: aof_write_frame_def put_bytes_def lg'_def)
  have "synced (sync_active lg') = int (length (encs is)) + 8"
    using seg_data_last [OF f(3)] by (simp add: lg'_def sync_active_def)
  then have "aof_inv (sync_active lg') iss (is @ [Frame])"
    using assms(1,2) f(2) by (auto simp: aof_inv_def lg'_def sync_active_def upto_frame_snoc)
  then show ?thesis using w by (simp add: lg'_def)
qed

lemma ray_aof_commit_ok:
  assumes "aof_inv lg iss is"
  shows "\<exists>lg' js. ray_aof_commit io_fine lg = (RAY_OK, lg') \<and> aof_inv lg' iss js
    \<and> js = (if dirty lg then is @ [Frame] else is) \<and> \<not> dirty lg'"
proof (cases "dirty lg")
  case True
  obtain lg1 where l: "aof_write_frame io_fine lg = (RAY_OK, lg1)" "aof_inv (sync_active lg1) iss (is @ [Frame])"
    "\<not> dirty lg1" using aof_write_frame_ok [OF assms True, of io_fine] by (auto simp: io_fine_def)
  have "fp_open lg" using assms by (simp add: aof_inv_def)
  then show ?thesis using l True by (simp add: ray_aof_commit_def io_fine_def sync_active_def)
next
  case False
  have "fp_open lg" using assms by (simp add: aof_inv_def)
  then show ?thesis using False assms by (simp add: ray_aof_commit_def)
qed

lemma aof_rotate_ok:
  assumes "aof_inv lg iss is" "is \<noteq> []"
  shows "\<exists>lg' js. aof_rotate io_fine lg = (RAY_OK, lg') \<and> aof_inv lg' (iss @ [js]) []
    \<and> js = (if dirty lg then is @ [Frame] else is) \<and> next_lsn lg' = next_lsn lg \<and> seg_limit lg' = seg_limit lg"
proof -
  define js where "js = (if dirty lg then is @ [Frame] else is)"
  define lg1 where "lg1 = (if dirty lg then snd (aof_write_frame io_fine lg) else lg)"
  have l1: "(if dirty lg then aof_write_frame io_fine lg else (RAY_OK, lg)) = (RAY_OK, lg1)"
    "aof_inv (sync_active lg1) iss js" "next_lsn lg1 = next_lsn lg" "seg_limit lg1 = seg_limit lg" "\<not> dirty lg1"
  proof -
    show "(if dirty lg then aof_write_frame io_fine lg else (RAY_OK, lg)) = (RAY_OK, lg1)"
      "next_lsn lg1 = next_lsn lg" "seg_limit lg1 = seg_limit lg" "\<not> dirty lg1"
      using aof_write_frame_ok [OF assms(1), of io_fine] by (auto simp: lg1_def io_fine_def)
    show "aof_inv (sync_active lg1) iss js"
    proof (cases "dirty lg")
      case True
      then show ?thesis using aof_write_frame_ok [OF assms(1), of io_fine] by (auto simp: lg1_def js_def io_fine_def)
    next
      case False
      obtain front where f: "a_dir lg = front @ [(a_base lg, encs is)]" "a_base lg \<notin> fst ` set front"
        using aof_inv_front [OF assms(1)] .
      have "sealed is" using assms False by (auto simp: aof_inv_def sealed_def)
      then have "sync_active lg = lg"
        using assms(1) f seg_data_last [OF f(2)] by (simp add: sync_active_def aof_inv_def upto_frame_sealed)
      then show ?thesis using False assms(1) by (simp add: lg1_def js_def)
    qed
  qed
  obtain front where f: "a_dir lg1 = front @ [(a_base lg1, encs js)]" "front_ok 0 front iss"
    "a_base lg1 = int (length (appended iss))"
    using aof_inv_front [OF l1(2)] by (metis (no_types) sync_active_def ray_aof.ext_inject ray_aof.surjective ray_aof.update_convs(8))
  have js: "list_all item_ok js" "recs js \<noteq> []" "list_all (\<lambda>i. recs i \<noteq> []) iss" "sealed js" "fp_open lg1"
    using l1(2,5) assms(2) recs_hd [of js] by (auto simp: aof_inv_def sync_active_def js_def sealed_def)
  have n: "next_lsn lg1 = int (length (appended (iss @ [js])))"
    using l1(2) by (simp add: aof_inv_def sync_active_def)
  have fr: "front_ok 0 (a_dir lg1) (iss @ [js])" using front_snoc [OF f(2) js(1,4)] f by simp
  have keys: "\<forall>k \<in> fst ` set (a_dir lg1). k < next_lsn lg1"
    using front_keys [OF fr] js(2,3) n by auto
  then have "dir_touch (next_lsn lg1) (a_dir lg1) = a_dir lg1 @ [(next_lsn lg1, [])]"
    using insort_last [OF keys] by (auto simp: dir_touch_def)
  then show ?thesis
    using l1 js fr n f
    by (auto simp: aof_rotate_def io_fine_def sync_active_def aof_inv_def js_def [symmetric] Let_def)
qed

text \<open>An append, after the rotation that the segment limit may ask for.\<close>

lemma append_record:
  assumes "aof_inv lg iss is" "length p \<le> 4294967294"
  shows "\<exists>lg1. put_bytes (enc_head p) None lg = (True, lg1) \<and>
    (let lg2 = (if length p > 0 then snd (put_bytes p None lg1) else lg1) in
     aof_inv (lg2\<lparr>seg_bytes := seg_bytes lg2 + 8 + int (length p), dirty := True, next_lsn := next_lsn lg2 + 1\<rparr>)
       iss (is @ [Rec p]) \<and> next_lsn lg2 = next_lsn lg)"
proof -
  obtain front where f: "a_dir lg = front @ [(a_base lg, encs is)]" "front_ok 0 front iss"
    "a_base lg \<notin> fst ` set front"
    using aof_inv_front [OF assms(1)] .
  have "put_bytes (enc_head p) None lg = (True, lg\<lparr>a_dir := front @ [(a_base lg, encs is @ enc_head p)]\<rparr>)"
    "put_bytes p None (lg\<lparr>a_dir := front @ [(a_base lg, encs is @ enc_head p)]\<rparr>)
      = (True, lg\<lparr>a_dir := front @ [(a_base lg, encs is @ enc_head p @ p)]\<rparr>)"
    using f(1) dir_append_last [OF f(3)] by (simp_all add: put_bytes_def)
  then show ?thesis
    using assms f(2) by (auto simp: aof_inv_def Let_def upto_frame_snoc_rec hd_append)
qed

definition rotates :: "ray_aof \<Rightarrow> u8 list \<Rightarrow> bool" where
  "rotates lg p \<longleftrightarrow> seg_bytes lg > 0 \<and> seg_bytes lg + 8 + int (length p) > seg_limit lg"

lemma ray_aof_append_ok:
  assumes "aof_inv lg iss is" "length p \<le> 4294967294"
  shows "\<exists>lg'. ray_aof_append io_fine lg (Some p) (int (length p)) = (next_lsn lg, RAY_OK, lg')
    \<and> (if rotates lg p then aof_inv lg' (iss @ [if dirty lg then is @ [Frame] else is]) [Rec p]
       else aof_inv lg' iss (is @ [Rec p]))"
proof -
  have fp: "fp_open lg" using assms(1) by (simp add: aof_inv_def)
  have lim: "\<not> int (length p) > uint AOF_LEN_MAX" using assms(2) by (simp add: AOF_LEN_MAX_def)
  define iss1 where "iss1 = (if rotates lg p then iss @ [if dirty lg then is @ [Frame] else is] else iss)"
  define is1 where "is1 = (if rotates lg p then [] else is)"
  have ne: "is \<noteq> []" if "rotates lg p" using that assms(1) by (auto simp: rotates_def aof_inv_def)
  obtain lg1 where l: "(if seg_bytes lg > 0 \<and> seg_bytes lg + 8 + int (length p) > seg_limit lg
        then aof_rotate io_fine lg else (RAY_OK, lg)) = (RAY_OK, lg1)" "aof_inv lg1 iss1 is1" "next_lsn lg1 = next_lsn lg"
    using aof_rotate_ok [OF assms(1) ne] assms(1)
    by (cases "rotates lg p") (auto simp: rotates_def iss1_def is1_def)
  obtain lg2 where a: "put_bytes (enc_head p) None lg1 = (True, lg2)"
    "let lg3 = (if length p > 0 then snd (put_bytes p None lg2) else lg2) in
     aof_inv (lg3\<lparr>seg_bytes := seg_bytes lg3 + 8 + int (length p), dirty := True, next_lsn := next_lsn lg3 + 1\<rparr>)
       iss1 (is1 @ [Rec p]) \<and> next_lsn lg3 = next_lsn lg1"
    using append_record [OF l(2) assms(2)] by blast
  have pb: "fst (put_bytes p None lg2)" by (simp add: put_bytes_def)
  obtain lg3 where b: "(if int (length p) > 0 then put_bytes p (io_body io_fine) lg2 else (True, lg2)) = (True, lg3)"
    "lg3 = (if length p > 0 then snd (put_bytes p None lg2) else lg2)"
    using pb by (cases "put_bytes p None lg2") (auto simp: io_fine_def)
  have "ray_aof_append io_fine lg (Some p) (int (length p)) = (next_lsn lg3, RAY_OK,
      lg3\<lparr>seg_bytes := seg_bytes lg3 + 8 + int (length p), dirty := True, next_lsn := next_lsn lg3 + 1\<rparr>)"
    unfolding ray_aof_append_def l(1) using fp lim a(1) b(1) by (simp add: Let_def io_fine_def)
  then show ?thesis
    using a(2) b(2) l(3) by (simp add: Let_def iss1_def is1_def split: if_splits)
qed

section \<open>Crashes and recovery\<close>

lemma upto_frame_noframe: "Frame \<notin> set js \<Longrightarrow> upto_frame (is @ js) = upto_frame is"
proof (induction "is")
  case Nil
  then show ?case by (induction js) auto
qed auto

lemma upto_frame_idem [simp]: "upto_frame (upto_frame is) = upto_frame is"
  by (metis upto_frame_noframe upto_frame_prefix)

lemma take_encs:
  "list_all item_ok is \<Longrightarrow> \<exists>js t. take n (encs is) = encs js @ t \<and> torn t \<and> (\<exists>r. is = js @ r)"
proof (induction "is" arbitrary: n)
  case Nil
  then show ?case by (intro exI [of _ "[]"]) simp
next
  case (Cons it "is")
  show ?case
  proof (cases "n < length (enc it)")
    case True
    then have "torn (take n (enc it))" using Cons.prems by (auto simp: torn_def)
    then show ?thesis using True by (intro exI [of _ "[]"] exI [of _ "take n (enc it)"]) simp
  next
    case False
    obtain js t where "take (n - length (enc it)) (encs is) = encs js @ t" "torn t" "\<exists>r. is = js @ r"
      using Cons.IH [of "n - length (enc it)"] Cons.prems by auto
    then show ?thesis using False by (intro exI [of _ "it # js"] exI [of _ t]) auto
  qed
qed

text \<open>A crash keeps the durable part of the active segment and some of what was written after it.\<close>

definition crash :: "nat \<Rightarrow> ray_aof \<Rightarrow> aof_dir" where
  "crash n lg = dir_truncate (a_base lg) n (a_dir lg)"

lemma dir_truncate_last:
  "b \<notin> fst ` set front \<Longrightarrow> dir_truncate b n (front @ [(b, c)]) = front @ [(b, take n c)]"
  by (force simp: dir_truncate_def intro: map_idI)

lemma crash_layout:
  assumes "aof_inv lg iss is" "synced lg \<le> int n"
  shows "\<exists>front js t. crash n lg = front @ [(a_base lg, encs (upto_frame is @ js) @ t)]
    \<and> front_ok 0 front iss \<and> torn t \<and> list_all item_ok (upto_frame is @ js) \<and> Frame \<notin> set js
    \<and> a_base lg \<notin> fst ` set front"
proof -
  obtain front where f: "a_dir lg = front @ [(a_base lg, encs is)]" "front_ok 0 front iss"
    "a_base lg \<notin> fst ` set front"
    using aof_inv_front [OF assms(1)] .
  obtain r where r: "is = upto_frame is @ r" "Frame \<notin> set r" using upto_frame_prefix by blast
  have ok: "list_all item_ok is" using assms(1) by (simp add: aof_inv_def)
  then have "list_all item_ok r" by (subst (asm) r(1)) simp
  then obtain js t where j: "take (n - length (encs (upto_frame is))) (encs r) = encs js @ t" "torn t" "\<exists>r'. r = js @ r'"
    using take_encs by blast
  have sy: "length (encs (upto_frame is)) \<le> n" using assms by (simp add: aof_inv_def)
  have "take n (encs is) = encs (upto_frame is @ js) @ t"
    using sy j(1) by (subst r(1)) simp
  moreover have "Frame \<notin> set js" "list_all item_ok js" using j(3) r(2) \<open>list_all item_ok r\<close> by auto
  ultimately show ?thesis
    using f dir_truncate_last [OF f(3)] j(2) upto_frame_ok [OF ok]
    by (auto simp: crash_def)
qed

lemma open_layout:
  assumes "d = front @ [(int (length (appended iss)), encs is @ t)]" "front_ok 0 front iss" "torn t"
    "list_all item_ok is" "\<forall>n. alloc n" "list_all (\<lambda>i. recs i \<noteq> []) iss" "is \<noteq> [] \<longrightarrow> hd is \<noteq> Frame"
  shows "\<exists>lg. ray_aof_open open_env_fine alloc d limit = Inr lg \<and> aof_inv lg iss (upto_frame is)"
proof -
  let ?b = "int (length (appended iss))"
  have nb: "?b \<notin> fst ` set front" using front_keys [OF assms(2,6)] by fastforce
  note sv = aof_seg_survey_items [OF assms(4,3,5)]
  obtain r where r: "is = upto_frame is @ r" using upto_frame_prefix by blast
  have e: "encs is @ t = encs (upto_frame is) @ (encs r @ t)" by (subst r) simp
  have nt: "(if int (length (encs is)) + int (length t) > int (length (encs (upto_frame is)))
      then dir_truncate ?b (nat (int (length (encs (upto_frame is))))) d else d) = front @ [(?b, encs (upto_frame is))]"
  proof (cases "int (length (encs is)) + int (length t) > int (length (encs (upto_frame is)))")
    case True
    have "take (length (encs (upto_frame is))) (encs is @ t) = encs (upto_frame is)" by (subst e) simp
    then show ?thesis using True dir_truncate_last [OF nb] assms(1) by simp
  next
    case False
    have "length (encs is @ t) = length (encs (upto_frame is)) + length (encs r @ t)" by (subst e) simp
    then have "length (encs r @ t) = 0" using False unfolding length_append by linarith
    then have "encs r @ t = []" by simp
    then show ?thesis using False assms(1) e by simp
  qed
  have dty: "\<not> (upto_frame is \<noteq> [] \<and> last (upto_frame is) \<noteq> Frame)"
    by (induction "is") auto
  show ?thesis
    using assms(2,6,7) nt upto_frame_ok [OF assms(4)] dty upto_frame_hd [of "is"]
    by (auto simp: ray_aof_open_def open_env_fine_def Let_def assms(1) sv aof_inv_def split: if_splits)
qed

section \<open>The log as a durable sequence\<close>

locale durable_log =
  fixes ok :: "'s \<Rightarrow> bool" and fits :: "'p \<Rightarrow> bool" and written :: "'s \<Rightarrow> 'p list" and durable :: "'s \<Rightarrow> 'p list"
    and append :: "'p \<Rightarrow> 's \<Rightarrow> 's" and commit :: "'s \<Rightarrow> 's"
  assumes append_ok: "ok s \<Longrightarrow> fits p \<Longrightarrow> ok (append p s)"
    and append_written: "ok s \<Longrightarrow> fits p \<Longrightarrow> written (append p s) = written s @ [p]"
    and append_durable: "ok s \<Longrightarrow> fits p \<Longrightarrow> \<exists>q. durable (append p s) = durable s @ q"
    and commit_ok: "ok s \<Longrightarrow> ok (commit s)"
    and commit_written: "ok s \<Longrightarrow> written (commit s) = written s"
    and commit_durable: "ok s \<Longrightarrow> durable (commit s) = written s"
begin

lemma append_all:
  "ok s \<Longrightarrow> \<forall>p \<in> set ps. fits p \<Longrightarrow>
     ok (fold append ps s) \<and> written (fold append ps s) = written s @ ps \<and> (\<exists>q. durable (fold append ps s) = durable s @ q)"
proof (induction ps arbitrary: s)
  case (Cons p ps)
  have s: "ok (append p s)" "written (append p s) = written s @ [p]" "\<exists>q. durable (append p s) = durable s @ q"
    using Cons.prems append_ok append_written append_durable by simp_all
  show ?case using Cons.IH [OF s(1)] Cons.prems s(2,3) by auto
qed simp

lemma batch_durable:
  assumes "ok s" "\<forall>p \<in> set ps. fits p"
  shows "ok (commit (fold append ps s))" "durable (commit (fold append ps s)) = written s @ ps"
  using append_all [OF assms] commit_ok commit_durable by simp_all

end

text \<open>The log with its items beside it; the operations are those of the code.\<close>

type_synonym aof_ghost = "ray_aof \<times> item list list \<times> item list"

definition aof_append1 :: "u8 list \<Rightarrow> ray_aof \<Rightarrow> ray_aof" where
  "aof_append1 p lg = snd (snd (ray_aof_append io_fine lg (Some p) (int (length p))))"

definition g_append :: "u8 list \<Rightarrow> aof_ghost \<Rightarrow> aof_ghost" where
  "g_append p s = (case s of (lg, iss, is) \<Rightarrow>
     (aof_append1 p lg,
      if rotates lg p then (iss @ [if dirty lg then is @ [Frame] else is], [Rec p]) else (iss, is @ [Rec p])))"

definition g_commit :: "aof_ghost \<Rightarrow> aof_ghost" where
  "g_commit s = (case s of (lg, iss, is) \<Rightarrow>
     (snd (ray_aof_commit io_fine lg), iss, if dirty lg then is @ [Frame] else is))"

definition g_ok :: "aof_ghost \<Rightarrow> bool" where
  "g_ok s = (case s of (lg, iss, is) \<Rightarrow> aof_inv lg iss is)"

definition g_written :: "aof_ghost \<Rightarrow> u8 list list" where
  "g_written s = (case s of (lg, iss, is) \<Rightarrow> appended (iss @ [is]))"

definition g_durable :: "aof_ghost \<Rightarrow> u8 list list" where
  "g_durable s = (case s of (lg, iss, is) \<Rightarrow> committed (iss @ [is]))"

lemma aof_inv_committed: "aof_inv lg iss is \<Longrightarrow> committed iss = appended iss"
  using front_committed by (auto simp: aof_inv_def)

lemma not_dirty_sealed: "aof_inv lg iss is \<Longrightarrow> \<not> dirty lg \<Longrightarrow> upto_frame is = is"
  by (cases "is = []") (auto simp: aof_inv_def upto_frame_sealed sealed_def)

interpretation aof: durable_log g_ok "\<lambda>p. length p \<le> 4294967294" g_written g_durable g_append g_commit
proof
  fix s :: aof_ghost and p :: "u8 list"
  obtain lg iss "is" where s: "s = (lg, iss, is)" by (metis prod_cases3)
  assume ok: "g_ok s"
  then have inv: "aof_inv lg iss is" by (simp add: g_ok_def s)
  have com: "committed iss = appended iss" using aof_inv_committed [OF inv] .
  show "g_ok (g_commit s)" "g_written (g_commit s) = g_written s" "g_durable (g_commit s) = g_written s"
    using ray_aof_commit_ok [OF inv] not_dirty_sealed [OF inv] com
    by (auto simp: s g_ok_def g_commit_def g_written_def g_durable_def upto_frame_snoc)
  assume p: "length p \<le> 4294967294"
  show "g_ok (g_append p s)" "g_written (g_append p s) = g_written s @ [p]"
    using ray_aof_append_ok [OF inv p]
    by (auto simp: s g_ok_def g_append_def g_written_def aof_append1_def split: if_splits)
  obtain r where r: "is = upto_frame is @ r" using upto_frame_prefix by blast
  have "recs is = recs (upto_frame is) @ recs r" by (subst r) simp
  then have "g_durable (g_append p s) = g_durable s @ (if rotates lg p \<and> dirty lg then recs r else [])"
    by (simp add: s g_append_def g_durable_def upto_frame_snoc upto_frame_snoc_rec)
  then show "\<exists>q. g_durable (g_append p s) = g_durable s @ q" by blast
qed

lemma fold_g_append: "fst (fold g_append ps (lg, iss, is)) = fold aof_append1 ps lg"
  by (induction ps arbitrary: lg iss "is") (auto simp: g_append_def)

lemma scan_inv:
  assumes "aof_inv lg iss is" "\<forall>n. alloc n"
  shows "ray_aof_scan alloc (a_dir lg) from_lsn cb ctx =
    (case feed cb from_lsn 0 (committed (iss @ [is])) 0 ctx of (n, stopped, ctx') \<Rightarrow> Inr (n, ctx'))"
proof -
  obtain front where f: "a_dir lg = front @ [(a_base lg, encs is)]" "front_ok 0 front iss"
    "a_base lg = int (length (appended iss))"
    using aof_inv_front [OF assms(1)] .
  have "layout 0 (a_dir lg) (iss @ [is]) []"
    using layout_front [OF f(2), of "is" "[]"] f assms(1) by (simp add: aof_inv_def)
  from scan_layout [OF this torn_Nil assms(2), of cb from_lsn 0 ctx] show ?thesis
    by (simp add: ray_aof_scan_def)
qed

lemma open_empty:
  "\<exists>lg. ray_aof_open open_env_fine alloc [] limit = Inr lg \<and> aof_inv lg [] []"
  by (auto simp: ray_aof_open_def open_env_fine_def aof_inv_def Let_def)

section \<open>Properties\<close>

text \<open>
  C20. What is committed is visible, all of it and nothing else: after any batch of appends (with the
  rotations they cause) and a commit, a scan hands its callback exactly the records written since
  the log was created, from the requested LSN on, in LSN order, until the callback stops it.
\<close>

theorem aof_commit_scan:
  assumes "aof_inv lg iss is" "\<forall>p \<in> set ps. length p \<le> 4294967294" "\<forall>n. alloc n"
  shows "ray_aof_scan alloc (a_dir (snd (ray_aof_commit io_fine (fold aof_append1 ps lg)))) from_lsn cb ctx =
    (case feed cb from_lsn 0 (appended (iss @ [is]) @ ps) 0 ctx of (n, stopped, ctx') \<Rightarrow> Inr (n, ctx'))"
proof -
  let ?s = "g_commit (fold g_append ps (lg, iss, is))"
  have ok: "g_ok (lg, iss, is)" using assms(1) by (simp add: g_ok_def)
  note b = aof.batch_durable [OF ok assms(2)]
  obtain lg' iss' is' where s: "?s = (lg', iss', is')" by (metis prod_cases3)
  have l: "lg' = snd (ray_aof_commit io_fine (fold aof_append1 ps lg))"
    using s fold_g_append [of ps lg iss "is"] by (auto simp: g_commit_def split: prod.splits)
  have "aof_inv lg' iss' is'" "committed (iss' @ [is']) = appended (iss @ [is]) @ ps"
    using b by (simp_all add: s g_ok_def g_durable_def g_written_def)
  then show ?thesis using scan_inv [OF _ assms(3), of lg' iss' is' from_lsn cb ctx] l by simp
qed

definition fresh_log :: ray_aof where
  "fresh_log = \<lparr>a_dir = [(0, [])], a_base = 0, fp_open = True, next_lsn = 0, seg_bytes = 0,
     seg_limit = 20, dirty = False, synced = 0\<rparr>"

lemma fresh_log_inv: "aof_inv fresh_log [] []"
  by (simp add: fresh_log_def aof_inv_def)

theorem aof_commit_scan_witness:
  "ray_aof_scan (\<lambda>_. True) (a_dir (snd (ray_aof_commit io_fine (fold aof_append1 [[1, 2, 3], [4]] fresh_log))))
     1 (\<lambda>lsn p acc. (True, acc @ [(lsn, p)])) [] = Inr (1, [(1, [4])])"
  using aof_commit_scan [OF fresh_log_inv, of "[[1, 2, 3], [4]]" "\<lambda>_. True" 1 "\<lambda>lsn p acc. (True, acc @ [(lsn, p)])" "[]"]
  by simp

text \<open>
  C3. Crash safety: whatever part of the bytes after the last sync survives a crash, a scan of the
  surviving directory shows exactly the committed records, opening it succeeds, and the writer then
  continues with the LSN after the last committed record.
\<close>

theorem aof_crash_recovery:
  assumes "aof_inv lg iss is" "synced lg \<le> int n" "\<forall>n. alloc n"
  shows "ray_aof_scan alloc (crash n lg) from_lsn cb ctx = ray_aof_scan alloc (a_dir lg) from_lsn cb ctx
    \<and> (\<exists>lg'. ray_aof_open open_env_fine alloc (crash n lg) limit = Inr lg'
         \<and> aof_inv lg' iss (upto_frame is) \<and> next_lsn lg' = int (length (committed (iss @ [is]))))"
proof -
  obtain front js t where c: "crash n lg = front @ [(a_base lg, encs (upto_frame is @ js) @ t)]"
    "front_ok 0 front iss" "torn t" "list_all item_ok (upto_frame is @ js)" "Frame \<notin> set js"
    using crash_layout [OF assms(1,2)] by blast
  have b: "a_base lg = int (length (appended iss))" "list_all (\<lambda>i. recs i \<noteq> []) iss" "is \<noteq> [] \<longrightarrow> hd is \<noteq> Frame"
    using assms(1) by (simp_all add: aof_inv_def)
  have uf: "upto_frame (upto_frame is @ js) = upto_frame is" using upto_frame_noframe [OF c(5)] by simp
  have lay: "layout 0 (crash n lg) (iss @ [upto_frame is @ js]) t"
    using layout_front [OF c(2,4)] c(1) b(1) by simp
  have sc: "ray_aof_scan alloc (crash n lg) from_lsn cb ctx = ray_aof_scan alloc (a_dir lg) from_lsn cb ctx"
    using scan_layout [OF lay c(3) assms(3), of cb from_lsn 0 ctx] scan_inv [OF assms(1,3), of from_lsn cb ctx] uf
    by (simp add: ray_aof_scan_def)
  have hd: "upto_frame is @ js \<noteq> [] \<longrightarrow> hd (upto_frame is @ js) \<noteq> Frame"
    using b(3) upto_frame_hd [of "is"] c(5) by (cases "upto_frame is") (auto simp: neq_Nil_conv)
  obtain lg' where o: "ray_aof_open open_env_fine alloc (crash n lg) limit = Inr lg'" "aof_inv lg' iss (upto_frame is)"
    using open_layout [OF _ c(2,3,4) assms(3) b(2) hd, of "crash n lg"] c(1) b(1) uf by auto
  have "next_lsn lg' = int (length (committed (iss @ [is])))"
    using o(2) aof_inv_committed [OF assms(1)] by (simp add: aof_inv_def)
  then show ?thesis using sc o by blast
qed

theorem aof_crash_recovery_witness:
  "synced (aof_append1 [7] fresh_log) \<le> int 5
   \<and> ray_aof_scan (\<lambda>_. True) (crash 5 (aof_append1 [7] fresh_log)) 0 (\<lambda>lsn p acc. (True, acc @ [p])) []
       = ray_aof_scan (\<lambda>_. True) (a_dir (aof_append1 [7] fresh_log)) 0 (\<lambda>lsn p acc. (True, acc @ [p])) []"
proof -
  have i: "aof_inv (aof_append1 [7] fresh_log) [] [Rec [7]]"
    using ray_aof_append_ok [OF fresh_log_inv, of "[7]"]
    by (auto simp: aof_append1_def rotates_def fresh_log_def)
  have s: "synced (aof_append1 [7] fresh_log) \<le> int 5" using i by (simp add: aof_inv_def)
  show ?thesis
    using s aof_crash_recovery [OF i s, of "\<lambda>_. True" 0 "\<lambda>lsn p acc. (True, acc @ [p])" "[]"] by blast
qed

text \<open>
  C34. Damage is reported, not dropped: if one payload byte of a record before the last commit frame
  of the segment is changed, the survey flags the committed prefix, and opening a log with such a
  tail segment fails with the corruption error.
\<close>

theorem aof_damage_detected:
  assumes "list_all item_ok (is @ Rec p # js)" "Frame \<in> set js" "i < length p" "b \<noteq> p ! i" "\<forall>n. alloc n"
    and "bs = encs is @ enc_head p @ p[i := b] @ encs js"
  shows "(\<exists>s. aof_seg_survey alloc bs = Inr s \<and> corrupt_committed s)
    \<and> ray_aof_open open_env_fine alloc (d @ [(k, bs)]) limit = Inl RAY_ERR_CORRUPT"
proof -
  have pl: "length p \<le> 4294967294" using assms(1) by simp
  have u: "unat (word_of_nat (length p) :: u32) = length p" using item_len(1) [OF pl] .
  have "aof_crc32 0 (aof_put_u32le w @ p[i := b]) \<noteq> aof_crc32 0 (aof_put_u32le w @ p)" for w
    using crc_single_byte [OF assms(3)] assms(4) by (auto simp: aof_crc32_append)
  then have "aof_record_crc (word_of_nat (length p)) (p[i := b]) \<noteq> aof_record_crc (word_of_nat (length p)) p"
    using u by (simp add: aof_record_crc_def Let_def aof_crc32_append)
  then obtain s where s: "aof_seg_survey alloc bs = Inr s" "corrupt_committed s"
    using survey_bad_record [of "is" js "[]" alloc "p[i := b]" p] assms pl by auto
  then show ?thesis by (auto simp: ray_aof_open_def open_env_fine_def Let_def)
qed

theorem aof_damage_detected_witness:
  "ray_aof_open open_env_fine (\<lambda>_. True) ([] @ [(0, encs [] @ enc_head [5, 6] @ [5, 6][1 := 9] @ encs [Frame])]) 0
     = Inl RAY_ERR_CORRUPT"
  using aof_damage_detected [of "[]" "[5, 6]" "[Frame]" 1 9 "\<lambda>_. True"
      "encs [] @ enc_head [5, 6] @ [5, 6][1 := 9] @ encs [Frame]" "[]" 0 0] by simp

section \<open>A flaw\<close>

text \<open>
  A failed write does not close the handle: the partial bytes stay in the stream, a later append and
  commit report success, and yet the committed record is not visible to a scan.
\<close>

lemma append_after_failed_write_lost:
  "let r1 = ray_aof_append (io_fine\<lparr>io_head := Some 3\<rparr>) fresh_log (Some []) 0;
       r2 = ray_aof_append io_fine (snd (snd r1)) (Some [1]) 1;
       r3 = ray_aof_commit io_fine (snd (snd r2))
   in fst r1 = -1 \<and> fst (snd r2) = RAY_OK \<and> fst r3 = RAY_OK
      \<and> ray_aof_scan (\<lambda>_. True) (a_dir (snd r3)) 0 (\<lambda>lsn p acc. (True, acc @ [p])) [] = Inr (0, [])"
proof -
  define bs where "bs = [0, 0, 0] @ enc_head [1] @ [1] @ enc_frame"
  have l: "length bs = 20" by (simp add: bs_def)
  have "aof_get_u32le bs = 0x1000000"
    by (simp add: bs_def enc_head_def aof_put_u32le_def aof_get_u32le_def)
  then have "survey_loop (\<lambda>_. True) bs 0 0 0 (-1) s = Inr (s\<lparr>file_size := 20\<rparr>, -1)" for s
    using l by (subst survey_loop.simps) (simp add: Let_def AOF_FRAME_LEN_def AOF_LEN_MAX_def)
  then have "ray_aof_scan (\<lambda>_. True) [(0, bs)] 0 (\<lambda>lsn p acc. (True, acc @ [p])) [] = Inr (0, [])"
    by (simp add: ray_aof_scan_def aof_seg_survey_def aof_seg_deliver_def deliver_loop.simps)
  moreover have "take 3 (enc_head []) = [0, 0, 0]"
    by (simp add: enc_head_def aof_put_u32le_def numeral_3_eq_3)
  ultimately show ?thesis
    by (simp add: ray_aof_append_def ray_aof_commit_def aof_write_frame_def put_bytes_def fresh_log_def
        io_fine_def AOF_LEN_MAX_def dir_append_def sync_active_def bs_def Let_def)
qed
end
