(* ===== verification/NumParse.thy ===== *)
theory NumParse
  imports Prelude Calendar
begin

text \<open>
  The number parsers of \<^verbatim>\<open>core/numparse.c\<close>, which the tokenizer and the CSV reader share: the
  SWAR digit tests and folds on 8 and 4 bytes, the integer parser, the hexadecimal parser and the
  float parser.

  A source buffer is the list of its bytes, so its length is the \<open>len\<close> argument; a parser that
  returns 0 and leaves its output alone is \<^term>\<open>None\<close>, one that consumes \<open>n\<close> bytes and stores
  \<open>v\<close> is \<^term>\<open>Some (n, v)\<close>.  A load by \<^verbatim>\<open>memcpy\<close> is little-endian, the layout to which the
  source normalises.
\<close>

unbundle bit_operations_syntax

section \<open>SWAR digit tests and folds\<close>

definition load_le :: "u8 list \<Rightarrow> 'a::len word" where
  "load_le bs = word_of_int (horner_sum uint 256 bs)"

definition ray_is_8_digits :: "u8 list \<Rightarrow> bool" where
  "ray_is_8_digits p =
     (let chunk = (load_le (take 8 p) :: u64);
          under = chunk - 0x3030303030303030;
          over = chunk + 0x4646464646464646
      in (under OR over) AND 0x8080808080808080 = 0)"

definition ray_is_4_digits :: "u8 list \<Rightarrow> bool" where
  "ray_is_4_digits p =
     (let chunk = (load_le (take 4 p) :: u32);
          under = chunk - 0x30303030;
          over = chunk + 0x46464646
      in (under OR over) AND 0x80808080 = 0)"

definition ray_parse_8_digits :: "u8 list \<Rightarrow> u64" where
  "ray_parse_8_digits p =
     (let chunk = (load_le (take 8 p) :: u64) - 0x3030303030303030;
          tens = chunk AND 0x000F000F000F000F;
          ones = drop_bit 8 chunk AND 0x000F000F000F000F;
          pairs = tens * 10 + ones;
          p_hi = pairs AND 0x000000FF000000FF;
          p_lo = drop_bit 16 pairs AND 0x000000FF000000FF;
          quads = p_hi * 100 + p_lo
      in (quads AND 0xFFFFFFFF) * 10000 + drop_bit 32 quads)"

definition ray_parse_4_digits :: "u8 list \<Rightarrow> u32" where
  "ray_parse_4_digits p =
     (let chunk = (load_le (take 4 p) :: u32) - 0x30303030;
          tens = chunk AND 0x000F000F;
          ones = drop_bit 8 chunk AND 0x000F000F;
          pairs = tens * 10 + ones
      in (pairs AND 0xFFFF) * 100 + drop_bit 16 pairs)"

section \<open>Integers\<close>

definition IS_DIGIT :: "u8 \<Rightarrow> bool" where
  "IS_DIGIT c \<longleftrightarrow> (ucast c - 48 :: u32) < 10"

function skip_zeros :: "u8 list \<Rightarrow> nat \<Rightarrow> nat" where
  "skip_zeros src i = (if i < length src \<and> src ! i = 48 then skip_zeros src (i + 1) else i)"
  by auto
termination by (relation "measure (\<lambda>(src, i). length src - i)") auto

text \<open>The scalar tail: \<^term>\<open>None\<close> is the early \<open>return 0\<close>.\<close>

function i64_tail :: "u8 list \<Rightarrow> nat \<Rightarrow> nat \<Rightarrow> u64 \<Rightarrow> (nat \<times> u64) option" where
  "i64_tail src sig_start i result =
     (if i < length src \<and> IS_DIGIT (src ! i)
      then if 19 \<le> i - sig_start then None
           else let result' = result * 10 + (ucast (src ! i) - 48)
                in if result' < result then None
                   else i64_tail src sig_start (i + 1) result'
      else Some (i, result))"
  by auto
termination by (relation "measure (\<lambda>(src, s, i, r). length src - i)") auto

declare skip_zeros.simps [simp del] i64_tail.simps [simp del]

text \<open>The two optional SWAR chunks of the first sixteen significant digits.\<close>

definition i64_swar :: "u8 list \<Rightarrow> nat \<Rightarrow> nat \<times> u64" where
  "i64_swar src i =
     (if i + 8 \<le> length src \<and> ray_is_8_digits (drop i src)
      then let result = ray_parse_8_digits (drop i src); i = i + 8
           in if i + 8 \<le> length src \<and> result \<le> 922337203 \<and> ray_is_8_digits (drop i src)
              then (i + 8, result * 100000000 + ray_parse_8_digits (drop i src))
              else (i, result)
      else (i, 0))"

definition scan_sign :: "u8 list \<Rightarrow> bool \<times> nat" where
  "scan_sign src =
     (if src ! 0 = 45 then (True, 1) else if src ! 0 = 43 then (False, 1) else (False, 0))"

definition ray_parse_i64 :: "u8 list \<Rightarrow> (nat \<times> int) option" where
  "ray_parse_i64 src =
     (if src = [] then None
      else let (neg, digit_start) = scan_sign src
           in if digit_start = length src then None
              else let sig_start = skip_zeros src digit_start;
                       (i, result) = i64_swar src sig_start
                   in case i64_tail src sig_start i result of
                        None \<Rightarrow> None
                      | Some (i, result) \<Rightarrow>
                          if i = digit_start then None
                          else if neg
                          then if 9223372036854775807 + 1 < result then None
                               else Some (i, sint (0 - result))
                          else if 9223372036854775807 < result then None
                               else Some (i, sint result))"

section \<open>Hexadecimal\<close>

definition hex_digit :: "u8 \<Rightarrow> u64 option" where
  "hex_digit c =
     (if 48 \<le> c \<and> c \<le> 57 then Some (ucast (c - 48))
      else if 97 \<le> c \<and> c \<le> 102 then Some (ucast (c - 97 + 10))
      else if 65 \<le> c \<and> c \<le> 70 then Some (ucast (c - 65 + 10))
      else None)"

function hex_loop :: "u8 list \<Rightarrow> nat \<Rightarrow> u64 \<Rightarrow> nat \<times> u64" where
  "hex_loop src i v =
     (if i < length src \<and> i < 16
      then case hex_digit (src ! i) of
             None \<Rightarrow> (i, v)
           | Some d \<Rightarrow> hex_loop src (i + 1) (push_bit 4 v OR d)
      else (i, v))"
  by auto
termination by (relation "measure (\<lambda>(src, i, v). length src - i)") auto

declare hex_loop.simps [simp del]

definition ray_parse_u64_hex :: "u8 list \<Rightarrow> (nat \<times> u64) option" where
  "ray_parse_u64_hex src =
     (let (i, v) = hex_loop src 0 0 in if i = 0 then None else Some (i, v))"

section \<open>Lanes\<close>

text \<open>The value of bytes as digits, most significant first.\<close>

definition dec_val :: "u8 list \<Rightarrow> int" where
  "dec_val ds = foldl (\<lambda>v d. v * 10 + (uint d - 48)) 0 ds"

lemma bit_add_lane:
  fixes a x :: int
  assumes "0 \<le> a" "a < 2 ^ k"
  shows "bit (a + 2 ^ k * x) n \<longleftrightarrow> (if n < k then bit a n else bit x (n - k))"
proof -
  have "a = take_bit k (a + 2 ^ k * x)" using assms by (simp add: take_bit_eq_mod)
  moreover have "x = drop_bit k (a + 2 ^ k * x)" using assms by (simp add: drop_bit_eq_div)
  ultimately show ?thesis
    by (smt (verit) bit_take_bit_iff bit_drop_bit_eq comp_apply le_add_diff_inverse not_less)
qed

lemma and_lane:
  fixes a b x y :: int
  assumes "0 \<le> a" "a < 2 ^ k" "0 \<le> b" "b < 2 ^ k"
  shows "(a + 2 ^ k * x) AND (b + 2 ^ k * y) = (a AND b) + 2 ^ k * (x AND y)"
proof -
  have "0 \<le> (a AND b)" "(a AND b) < 2 ^ k"
    using assms by (auto intro: order.strict_trans1 [OF AND_upper1])
  then show ?thesis
    using assms by (intro bit_eqI) (auto simp: bit_add_lane bit_and_iff)
qed

definition is_dig :: "int \<Rightarrow> bool" where
  "is_dig b \<longleftrightarrow> 48 \<le> b \<and> b \<le> 57"

lemma mod_wrap_neg: "- m \<le> x \<Longrightarrow> x < 0 \<Longrightarrow> x mod m = x + m" for x m :: int
  using mod_add_self2 [of x m] mod_pos_pos_trivial [of "x + m" m] by linarith

lemma mod_wrap_over: "m \<le> x \<Longrightarrow> x < 2 * m \<Longrightarrow> x mod m = x - m" for x m :: int
  using mod_add_self2 [of "x - m" m] mod_pos_pos_trivial [of "x - m" m] by simp

lemma byte_bounds: "0 \<le> uint c" "uint c < 256" for c :: u8
  using uint_bounded [of c] by simp_all

lemma IS_DIGIT_iff: "IS_DIGIT c \<longleftrightarrow> is_dig (uint c)"
proof -
  define u where "u = uint c"
  have u: "0 \<le> u" "u < 256" using byte_bounds by (simp_all add: u_def)
  have "uint (ucast c - 48 :: u32) = (u - 48) mod 2 ^ 32"
    by (simp add: uint_word_ariths uint_up_ucast is_up u_def)
  then have "IS_DIGIT c \<longleftrightarrow> (u - 48) mod 2 ^ 32 < 10"
    by (simp add: IS_DIGIT_def word_less_def)
  also have "\<dots> \<longleftrightarrow> is_dig u"
    using u mod_wrap_neg [of "2 ^ 32" "u - 48"] mod_pos_pos_trivial [of "u - 48" "2 ^ 32"]
    by (cases "48 \<le> u") (auto simp: is_dig_def)
  finally show ?thesis by (simp add: u_def)
qed

lemma digit_lane:
  assumes "0 \<le> b" "b < 256" "\<not> is_dig b"
  shows "128 \<le> (b - 0x30) mod 256 \<or> 128 \<le> (b + 0x46) mod (256 :: int)"
proof -
  consider "b < 48" | "57 < b" "b < 186" | "186 \<le> b" using assms by (force simp: is_dig_def)
  then show ?thesis
  proof cases
    case 1
    then show ?thesis using assms mod_wrap_neg [of 256 "b - 0x30"] by simp
  next
    case 2
    then show ?thesis by simp
  next
    case 3
    then show ?thesis using assms by simp
  qed
qed

lemma bit7: "bit x 7 \<longleftrightarrow> 128 \<le> x mod 256" for x :: int
proof -
  define y where "y = x mod 256"
  have y: "0 \<le> y" "y < 256" by (simp_all add: y_def)
  have "y div 128 = (if y < 128 then 0 else 1)" using y by (simp add: div_pos_geq)
  then have "bit y 7 \<longleftrightarrow> 128 \<le> y" by (simp add: bit_iff_odd)
  moreover have "bit x 7 \<longleftrightarrow> bit y 7" using bit_take_bit_iff [of 8 x 7] by (simp add: take_bit_eq_mod y_def)
  ultimately show ?thesis by (simp add: y_def)
qed

lemma lanes_digits:
  assumes "\<forall>b \<in> set bs. 0 \<le> b \<and> b < 256"
  shows "(\<forall>k < length bs.
            \<not> bit (horner_sum (\<lambda>b. b) 256 bs - horner_sum (\<lambda>_. 0x30) 256 bs :: int) (8 * k + 7) \<and>
            \<not> bit (horner_sum (\<lambda>b. b) 256 bs + horner_sum (\<lambda>_. 0x46) 256 bs) (8 * k + 7))
         \<longleftrightarrow> (\<forall>b \<in> set bs. is_dig b)"
  using assms
proof (induction bs)
  case (Cons b bs)
  let ?h = "horner_sum (\<lambda>b. b) 256 bs :: int" and ?u = "horner_sum (\<lambda>_. 0x30) 256 bs :: int"
    and ?o = "horner_sum (\<lambda>_. 0x46) 256 bs :: int"
  have b: "0 \<le> b" "b < 256" using Cons.prems by auto
  show ?case
  proof (cases "is_dig b")
    case True
    have U: "bit (b + 256 * ?h - (0x30 + 256 * ?u)) n \<longleftrightarrow>
        (if n < 8 then bit (b - 0x30) n else bit (?h - ?u) (n - 8))" for n
      using bit_add_lane [of "b - 0x30" 8 "?h - ?u" n] True by (simp add: is_dig_def algebra_simps)
    have O: "bit (b + 256 * ?h + (0x46 + 256 * ?o)) n \<longleftrightarrow>
        (if n < 8 then bit (b + 0x46) n else bit (?h + ?o) (n - 8))" for n
      using bit_add_lane [of "b + 0x46" 8 "?h + ?o" n] True by (simp add: is_dig_def algebra_simps)
    have "\<not> bit (b - 0x30) 7" "\<not> bit (b + 0x46) 7"
      using True by (auto simp: bit7 is_dig_def)
    moreover have lane7: "15 + 8 * k - 8 = 8 * k + 7" for k :: nat by simp
    ultimately show ?thesis
      using Cons True by (simp add: All_less_Suc2 U O lane7)
  next
    case False
    have "bit (b + 256 * ?h - (0x30 + 256 * ?u)) 7 \<or> bit (b + 256 * ?h + (0x46 + 256 * ?o)) 7"
    proof -
      have "b + 256 * ?h - (0x30 + 256 * ?u) = b - 0x30 + 256 * (?h - ?u)"
        "b + 256 * ?h + (0x46 + 256 * ?o) = b + 0x46 + 256 * (?h + ?o)"
        by (simp_all add: algebra_simps)
      then have "(b + 256 * ?h - (0x30 + 256 * ?u)) mod 256 = (b - 0x30) mod 256"
        "(b + 256 * ?h + (0x46 + 256 * ?o)) mod 256 = (b + 0x46) mod 256"
        by (simp_all only: mod_mult_self2)
      then show ?thesis using digit_lane [OF b False] by (simp add: bit7)
    qed
    with False show ?thesis by (auto simp: All_less_Suc2)
  qed
qed simp


lemma lanes_of_bytes: "horner_sum (\<lambda>b. b) 256 (map uint bs) = horner_sum uint 256 bs"
  by (induction bs) simp_all

lemma bit_lane_tops:
  "bit (horner_sum (\<lambda>_. 128) 256 bs :: int) n \<longleftrightarrow> n mod 8 = 7 \<and> n < 8 * length bs"
proof (induction bs arbitrary: n)
  case (Cons b bs)
  have top: "bit (128 :: int) n \<longleftrightarrow> n = 7" using bit_exp_iff [of 7 n, where 'a = int] by simp
  have "bit (horner_sum (\<lambda>_. 128) 256 (b # bs) :: int) n \<longleftrightarrow>
      (if n < 8 then bit (128 :: int) n else bit (horner_sum (\<lambda>_. 128) 256 bs :: int) (n - 8))"
    using bit_add_lane [of 128 8 "horner_sum (\<lambda>_. 128) 256 bs" n] by simp
  then show ?case
    by (cases "n < 8") (auto simp: top Cons.IH le_mod_geq)
qed simp

lemma word_or_and_zero:
  "(a OR b) AND m = 0 \<longleftrightarrow> (\<forall>n < LENGTH('a). bit m n \<longrightarrow> \<not> bit a n \<and> \<not> bit b n)"
  for a b m :: "'a::len word"
  by (subst bit_eq_iff) (auto simp: bit_simps)

text \<open>The range check on all lanes at once, for any number of lanes.\<close>

lemma swar_test:
  fixes bs :: "int list"
  assumes len: "LENGTH('a::len) = 8 * length bs" and b: "\<forall>b \<in> set bs. 0 \<le> b \<and> b < 256"
  shows "(word_of_int (horner_sum (\<lambda>b. b) 256 bs) - word_of_int (horner_sum (\<lambda>_. 0x30) 256 bs) OR
          word_of_int (horner_sum (\<lambda>b. b) 256 bs) + word_of_int (horner_sum (\<lambda>_. 0x46) 256 bs))
         AND (word_of_int (horner_sum (\<lambda>_. 128) 256 bs) :: 'a word) = 0
         \<longleftrightarrow> (\<forall>b \<in> set bs. is_dig b)" (is "?l = 0 \<longleftrightarrow> ?r")
proof -
  let ?P = "\<lambda>n. \<not> bit (horner_sum (\<lambda>b. b) 256 bs - horner_sum (\<lambda>_. 0x30) 256 bs) n \<and>
      \<not> bit (horner_sum (\<lambda>b. b) 256 bs + horner_sum (\<lambda>_. 0x46) 256 bs) n"
  have "?l = 0 \<longleftrightarrow> (\<forall>n < 8 * length bs. n mod 8 = 7 \<longrightarrow> ?P n)"
    unfolding wi_hom_add wi_hom_sub word_or_and_zero bit_word_of_int_iff bit_lane_tops len by blast
  also have "\<dots> \<longleftrightarrow> (\<forall>k < length bs. ?P (8 * k + 7))"
  proof (intro iffI allI impI)
    fix n assume k: "\<forall>k < length bs. ?P (8 * k + 7)" and n: "n < 8 * length bs" "n mod 8 = 7"
    have "n = 8 * (n div 8) + 7" using n by presburger
    moreover have "n div 8 < length bs" using n by linarith
    ultimately show "?P n" using k by metis
  next
    fix k assume "\<forall>n < 8 * length bs. n mod 8 = 7 \<longrightarrow> ?P n" "k < length bs"
    moreover have "(8 * k + 7) mod 8 = 7" by presburger
    ultimately show "?P (8 * k + 7)" by simp
  qed
  finally show ?thesis using lanes_digits [OF b] by simp
qed

lemma map_is_dig: "(\<forall>b \<in> set (map uint cs). is_dig b) \<longleftrightarrow> (\<forall>c \<in> set cs. IS_DIGIT c)"
  by (simp add: IS_DIGIT_iff)

lemma ray_is_8_digits_iff:
  assumes "8 \<le> length p"
  shows "ray_is_8_digits p \<longleftrightarrow> (\<forall>c \<in> set (take 8 p). IS_DIGIT c)"
proof -
  define bs where "bs = map uint (take 8 p)"
  have l: "length bs = 8" using assms by (simp add: bs_def)
  have "horner_sum (\<lambda>_. 0x30) 256 bs = (0x3030303030303030 :: int)"
    "horner_sum (\<lambda>_. 0x46) 256 bs = (0x4646464646464646 :: int)"
    "horner_sum (\<lambda>_. 128) 256 bs = (0x8080808080808080 :: int)"
    using l by (auto simp: length_Suc_conv numeral_eq_Suc)
  moreover have "\<forall>b \<in> set bs. 0 \<le> b \<and> b < 256" by (auto simp: bs_def byte_bounds)
  ultimately show ?thesis
    using swar_test [where 'a = 64 and bs = bs] l map_is_dig [of "take 8 p"]
    by (simp add: ray_is_8_digits_def load_le_def Let_def lanes_of_bytes [symmetric] flip: bs_def)
qed

lemma ray_is_4_digits_iff:
  assumes "4 \<le> length p"
  shows "ray_is_4_digits p \<longleftrightarrow> (\<forall>c \<in> set (take 4 p). IS_DIGIT c)"
proof -
  define bs where "bs = map uint (take 4 p)"
  have l: "length bs = 4" using assms by (simp add: bs_def)
  have "horner_sum (\<lambda>_. 0x30) 256 bs = (0x30303030 :: int)"
    "horner_sum (\<lambda>_. 0x46) 256 bs = (0x46464646 :: int)"
    "horner_sum (\<lambda>_. 128) 256 bs = (0x80808080 :: int)"
    using l by (auto simp: length_Suc_conv numeral_eq_Suc)
  moreover have "\<forall>b \<in> set bs. 0 \<le> b \<and> b < 256" by (auto simp: bs_def byte_bounds)
  ultimately show ?thesis
    using swar_test [where 'a = 32 and bs = bs] l map_is_dig [of "take 4 p"]
    by (simp add: ray_is_4_digits_def load_le_def Let_def lanes_of_bytes [symmetric] flip: bs_def)
qed

section \<open>Folding digits\<close>

text \<open>
  Bytes minus \<^verbatim>\<open>0x30\<close> as a number in base 256 whose lanes are digits.
\<close>

lemma load_digits:
  assumes "length p = k" "\<forall>c \<in> set p. IS_DIGIT c" "8 * k \<le> LENGTH('a::len)"
  shows "(load_le p :: 'a word) - word_of_int (horner_sum (\<lambda>_. 0x30) 256 p) =
    word_of_int (horner_sum (\<lambda>c. uint c - 48) 256 p)"
proof -
  have "horner_sum uint 256 p - horner_sum (\<lambda>_. 0x30) 256 p = horner_sum (\<lambda>c. uint c - 48) 256 p"
    by (induction p) (simp_all add: algebra_simps)
  then show ?thesis by (simp add: load_le_def wi_hom_sub)
qed

lemma and_lane_step:
  fixes a x y :: int
  assumes "0 \<le> a" "a < 2 ^ j" "0 \<le> b" "b < 2 ^ (k - j)" "j < k"
  shows "(a + 2 ^ j * b + 2 ^ k * x) AND (2 ^ j - 1 + 2 ^ k * y) = a + 2 ^ k * (x AND y)"
proof -
  have s: "2 ^ j * 2 ^ (k - j) = (2 :: int) ^ k" using assms(5) by (simp flip: power_add)
  have "2 ^ j * b \<le> 2 ^ j * (2 ^ (k - j) - 1)" using assms by (intro mult_left_mono) auto
  then have "a + 2 ^ j * b < 2 ^ k" using assms(2) s by (simp add: algebra_simps)
  moreover have "(2 :: int) ^ j - 1 < 2 ^ k"
    using power_strict_increasing [OF assms(5), of "2 :: int"] by linarith
  moreover have "(a + 2 ^ j * b) AND (2 ^ j - 1) = a"
    using assms(1,2) take_bit_eq_mask [of j "a + 2 ^ j * b"]
    by (simp add: mask_eq_exp_minus_1 take_bit_eq_mod)
  ultimately show ?thesis using assms(1,3) and_lane [of "a + 2 ^ j * b" k "2 ^ j - 1" x y] by simp
qed

lemma and_lanes:
  fixes ps :: "(int \<times> int) list"
  assumes "\<forall>(a, b) \<in> set ps. 0 \<le> a \<and> a < 2 ^ j \<and> 0 \<le> b \<and> b < 2 ^ (k - j)" "j < k"
  shows "horner_sum (\<lambda>(a, b). a + 2 ^ j * b) (2 ^ k) ps AND horner_sum (\<lambda>_. 2 ^ j - 1) (2 ^ k) ps =
    horner_sum fst (2 ^ k) ps"
  using assms
proof (induction ps)
  case (Cons p ps)
  then show ?case by (cases p) (simp add: and_lane_step)
qed simp

lemma word_of_int_and: "(word_of_int x :: 'a::len word) AND word_of_int y = word_of_int (x AND y)"
  by (rule bit_word_eqI) (simp add: bit_simps)

lemma drop_bit_word_of_int:
  "0 \<le> x \<Longrightarrow> x < 2 ^ LENGTH('a) \<Longrightarrow> drop_bit n (word_of_int x :: 'a::len word) = word_of_int (drop_bit n x)"
proof (rule bit_word_eqI)
  assume x: "0 \<le> x" "x < 2 ^ LENGTH('a)"
  have "bit x m \<Longrightarrow> m < LENGTH('a)" for m
    using x by (metis bit_take_bit_iff take_bit_int_eq_self)
  then show "bit (drop_bit n (word_of_int x :: 'a word)) m \<longleftrightarrow> bit (word_of_int (drop_bit n x) :: 'a word) m"
    if "m < LENGTH('a)" for m using that by (auto simp: bit_simps)
qed

lemma drop_lane: "0 \<le> a \<Longrightarrow> a < 2 ^ k \<Longrightarrow> drop_bit k (a + 2 ^ k * x) = x" for a x :: int
  by (simp add: drop_bit_eq_div)

text \<open>The pairs, the quads and the whole, for digits \<open>d0\<close> (printed first) to \<open>d7\<close>.\<close>

lemma tens_ones_8:
  fixes d0 d1 d2 d3 d4 d5 d6 d7 :: int
  assumes "\<forall>d \<in> set [d0, d1, d2, d3, d4, d5, d6, d7]. 0 \<le> d \<and> d < 10"
  defines "x \<equiv> horner_sum (\<lambda>d. d) 256 [d0, d1, d2, d3, d4, d5, d6, d7]"
  shows "x AND 0x000F000F000F000F = horner_sum (\<lambda>d. d) 65536 [d0, d2, d4, d6]"
    "drop_bit 8 x AND 0x000F000F000F000F = horner_sum (\<lambda>d. d) 65536 [d1, d3, d5, d7]"
    "0 \<le> x" "x < 2 ^ 64"
proof -
  show "x AND 0x000F000F000F000F = horner_sum (\<lambda>d. d) 65536 [d0, d2, d4, d6]"
    using and_lanes [of "[(d0, 16 * d1), (d2, 16 * d3), (d4, 16 * d5), (d6, 16 * d7)]" 4 16] assms
    by (simp add: algebra_simps)
  have "drop_bit 8 x = horner_sum (\<lambda>d. d) 256 [d1, d2, d3, d4, d5, d6, d7]"
    using drop_lane [of d0 8 "horner_sum (\<lambda>d. d) 256 [d1, d2, d3, d4, d5, d6, d7]"] assms by simp
  then show "drop_bit 8 x AND 0x000F000F000F000F = horner_sum (\<lambda>d. d) 65536 [d1, d3, d5, d7]"
    using and_lanes [of "[(d1, 16 * d2), (d3, 16 * d4), (d5, 16 * d6), (d7, 0)]" 4 16] assms
    by (simp add: algebra_simps)
  show "0 \<le> x" "x < 2 ^ 64" using assms by (simp_all)
qed

lemma pairs_8:
  fixes p0 p1 p2 p3 :: int
  assumes "\<forall>d \<in> set [p0, p1, p2, p3]. 0 \<le> d \<and> d < 100"
  defines "x \<equiv> horner_sum (\<lambda>d. d) 65536 [p0, p1, p2, p3]"
  shows "x AND 0x000000FF000000FF = p0 + 4294967296 * p2"
    "drop_bit 16 x AND 0x000000FF000000FF = p1 + 4294967296 * p3"
    "0 \<le> x" "x < 2 ^ 64"
proof -
  show "x AND 0x000000FF000000FF = p0 + 4294967296 * p2"
    using and_lanes [of "[(p0, 256 * p1), (p2, 256 * p3)]" 8 32] assms by (simp add: algebra_simps)
  have "drop_bit 16 x = horner_sum (\<lambda>d. d) 65536 [p1, p2, p3]"
    using drop_lane [of p0 16 "horner_sum (\<lambda>d. d) 65536 [p1, p2, p3]"] assms by simp
  then show "drop_bit 16 x AND 0x000000FF000000FF = p1 + 4294967296 * p3"
    using and_lanes [of "[(p1, 256 * p2), (p3, 0)]" 8 32] assms by (simp add: algebra_simps)
  show "0 \<le> x" "x < 2 ^ 64" using assms by simp_all
qed

lemma quads_8:
  fixes q0 q1 :: int
  assumes "0 \<le> q0" "q0 < 10000" "0 \<le> q1" "q1 < 10000"
  shows "(q0 + 4294967296 * q1) AND 0xFFFFFFFF = q0" "drop_bit 32 (q0 + 4294967296 * q1) = q1"
    "0 \<le> q0 + 4294967296 * q1" "q0 + 4294967296 * q1 < 2 ^ 64"
  using and_lanes [of "[(q0, q1)]" 32 64] assms by (simp_all add: drop_bit_eq_div)


lemma word_of_int_numerals:
  "(word_of_int x :: 'a::len word) AND numeral w = word_of_int (x AND numeral w)"
  "(word_of_int x :: 'a::len word) * numeral w = word_of_int (x * numeral w)"
  using word_of_int_and [of x "numeral w", where 'a = 'a] by simp_all

lemma drop_bit_u64: "0 \<le> x \<Longrightarrow> x < 2 ^ 64 \<Longrightarrow> drop_bit n (word_of_int x :: u64) = word_of_int (drop_bit n x)"
  by (simp add: drop_bit_word_of_int)

lemma drop_bit_u32: "0 \<le> x \<Longrightarrow> x < 2 ^ 32 \<Longrightarrow> drop_bit n (word_of_int x :: u32) = word_of_int (drop_bit n x)"
  by (simp add: drop_bit_word_of_int)

lemma fold_8:
  fixes d0 d1 d2 d3 d4 d5 d6 d7 :: int
  assumes d: "\<forall>d \<in> set [d0, d1, d2, d3, d4, d5, d6, d7]. 0 \<le> d \<and> d < 10"
  shows "(let chunk = (word_of_int (horner_sum (\<lambda>d. d) 256 [d0, d1, d2, d3, d4, d5, d6, d7]) :: u64);
          tens = chunk AND 0x000F000F000F000F;
          ones = drop_bit 8 chunk AND 0x000F000F000F000F;
          pairs = tens * 10 + ones;
          p_hi = pairs AND 0x000000FF000000FF;
          p_lo = drop_bit 16 pairs AND 0x000000FF000000FF;
          quads = p_hi * 100 + p_lo
      in (quads AND 0xFFFFFFFF) * 10000 + drop_bit 32 quads) =
    word_of_int (foldl (\<lambda>v d. v * 10 + d) 0 [d0, d1, d2, d3, d4, d5, d6, d7])"
proof -
  let ?p0 = "d0 * 10 + d1" and ?p1 = "d2 * 10 + d3" and ?p2 = "d4 * 10 + d5" and ?p3 = "d6 * 10 + d7"
  let ?q0 = "?p0 * 100 + ?p1" and ?q1 = "?p2 * 100 + ?p3"
  have p: "\<forall>p \<in> set [?p0, ?p1, ?p2, ?p3]. 0 \<le> p \<and> p < 100" using d by simp
  have q: "0 \<le> ?q0" "?q0 < 10000" "0 \<le> ?q1" "?q1 < 10000" using p by simp_all
  note A = tens_ones_8 [OF d]
  note P = pairs_8 [OF p]
  note Q = quads_8 [OF q]
  have pairs: "horner_sum (\<lambda>d. d) 65536 [d0, d2, d4, d6] * 10 + horner_sum (\<lambda>d. d) 65536 [d1, d3, d5, d7]
      = horner_sum (\<lambda>d. d) 65536 [?p0, ?p1, ?p2, ?p3]"
    by (simp add: algebra_simps)
  have quads: "(?p0 + 4294967296 * ?p2) * 100 + (?p1 + 4294967296 * ?p3) = ?q0 + 4294967296 * ?q1"
    by (simp add: algebra_simps)
  have "?q0 * 10000 + ?q1 = foldl (\<lambda>v d. v * 10 + d) 0 [d0, d1, d2, d3, d4, d5, d6, d7]"
    by (simp add: algebra_simps)
  then show ?thesis
    unfolding Let_def
    using A(3,4) P(3,4) Q(3,4)
    by (simp only: word_of_int_numerals drop_bit_u64 wi_hom_add A P Q pairs quads)
qed

lemma length_8E:
  assumes "length p = 8"
  obtains c0 c1 c2 c3 c4 c5 c6 c7 where "p = [c0, c1, c2, c3, c4, c5, c6, c7]"
  using assms by (auto simp: length_Suc_conv numeral_eq_Suc)

lemma ray_parse_8_digits_val:
  assumes "8 \<le> length p" "\<forall>c \<in> set (take 8 p). IS_DIGIT c"
  shows "ray_parse_8_digits p = word_of_int (dec_val (take 8 p))"
proof -
  obtain c0 c1 c2 c3 c4 c5 c6 c7 where p: "take 8 p = [c0, c1, c2, c3, c4, c5, c6, c7]"
    using assms(1) by (auto intro: length_8E [of "take 8 p"])
  let ?d = "\<lambda>c :: u8. uint c - 48"
  have d: "0 \<le> ?d c" "?d c < 10" if "c \<in> {c0, c1, c2, c3, c4, c5, c6, c7}" for c
    using assms(2) that by (auto simp: p IS_DIGIT_iff is_dig_def)
  note B = d [of c0] d [of c1] d [of c2] d [of c3] d [of c4] d [of c5] d [of c6] d [of c7]
  have load: "(load_le (take 8 p) :: u64) - 0x3030303030303030 =
      word_of_int (horner_sum (\<lambda>d. d) 256 [?d c0, ?d c1, ?d c2, ?d c3, ?d c4, ?d c5, ?d c6, ?d c7])"
    using load_digits [where 'a = 64, of "take 8 p" 8] assms by (simp add: p)
  show ?thesis
    unfolding ray_parse_8_digits_def load
    by (subst fold_8) (use B in \<open>auto simp: dec_val_def p\<close>)
qed

lemma fold_4:
  fixes d0 d1 d2 d3 :: int
  assumes d: "\<forall>d \<in> set [d0, d1, d2, d3]. 0 \<le> d \<and> d < 10"
  shows "(let chunk = (word_of_int (horner_sum (\<lambda>d. d) 256 [d0, d1, d2, d3]) :: u32);
          tens = chunk AND 0x000F000F;
          ones = drop_bit 8 chunk AND 0x000F000F;
          pairs = tens * 10 + ones
      in (pairs AND 0xFFFF) * 100 + drop_bit 16 pairs) =
    word_of_int (foldl (\<lambda>v d. v * 10 + d) 0 [d0, d1, d2, d3])"
proof -
  let ?x = "horner_sum (\<lambda>d. d) 256 [d0, d1, d2, d3]"
  let ?p0 = "d0 * 10 + d1" and ?p1 = "d2 * 10 + d3"
  have x: "0 \<le> ?x" "?x < 2 ^ 32" using d by simp_all
  have tens: "?x AND 0x000F000F = d0 + 65536 * d2"
    using and_lanes [of "[(d0, 16 * d1), (d2, 16 * d3)]" 4 16] d by (simp add: algebra_simps)
  have "drop_bit 8 ?x = horner_sum (\<lambda>d. d) 256 [d1, d2, d3]"
    using drop_lane [of d0 8 "horner_sum (\<lambda>d. d) 256 [d1, d2, d3]"] d by simp
  then have ones: "drop_bit 8 ?x AND 0x000F000F = d1 + 65536 * d3"
    using and_lanes [of "[(d1, 16 * d2), (d3, 0)]" 4 16] d by (simp add: algebra_simps)
  have pairs: "(d0 + 65536 * d2) * 10 + (d1 + 65536 * d3) = ?p0 + 65536 * ?p1"
    by (simp add: algebra_simps)
  have p: "0 \<le> ?p0 + 65536 * ?p1" "?p0 + 65536 * ?p1 < 2 ^ 32" using d by simp_all
  have lo: "(?p0 + 65536 * ?p1) AND 0xFFFF = ?p0" "drop_bit 16 (?p0 + 65536 * ?p1) = ?p1"
    using and_lanes [of "[(?p0, ?p1)]" 16 32] drop_lane [of ?p0 16 ?p1] d by simp_all
  have "?p0 * 100 + ?p1 = foldl (\<lambda>v d. v * 10 + d) 0 [d0, d1, d2, d3]" by simp
  then show ?thesis
    unfolding Let_def using x p
    by (simp only: word_of_int_numerals drop_bit_u32 wi_hom_add tens ones pairs lo)
qed

lemma length_4E:
  assumes "length p = 4"
  obtains c0 c1 c2 c3 where "p = [c0, c1, c2, c3]"
  using assms by (auto simp: length_Suc_conv numeral_eq_Suc)

lemma ray_parse_4_digits_val:
  assumes "4 \<le> length p" "\<forall>c \<in> set (take 4 p). IS_DIGIT c"
  shows "ray_parse_4_digits p = word_of_int (dec_val (take 4 p))"
proof -
  obtain c0 c1 c2 c3 where p: "take 4 p = [c0, c1, c2, c3]"
    using assms(1) by (auto intro: length_4E [of "take 4 p"])
  let ?d = "\<lambda>c :: u8. uint c - 48"
  have d: "0 \<le> ?d c" "?d c < 10" if "c \<in> {c0, c1, c2, c3}" for c
    using assms(2) that by (auto simp: p IS_DIGIT_iff is_dig_def)
  note B = d [of c0] d [of c1] d [of c2] d [of c3]
  have load: "(load_le (take 4 p) :: u32) - 0x30303030 =
      word_of_int (horner_sum (\<lambda>d. d) 256 [?d c0, ?d c1, ?d c2, ?d c3])"
    using load_digits [where 'a = 32, of "take 4 p" 4] assms by (simp add: p)
  show ?thesis
    unfolding ray_parse_4_digits_def load
    by (subst fold_4) (use B in \<open>auto simp: dec_val_def p\<close>)
qed

section \<open>Decimal values\<close>

lemma dec_val_Nil [simp]: "dec_val [] = 0"
  by (simp add: dec_val_def)

lemma dec_val_snoc: "dec_val (ds @ [d]) = dec_val ds * 10 + (uint d - 48)"
  by (simp add: dec_val_def)

lemma dec_val_append: "dec_val (xs @ ys) = dec_val xs * 10 ^ length ys + dec_val ys"
  by (induction ys rule: rev_induct)
    (simp_all add: dec_val_snoc algebra_simps flip: append_assoc)

abbreviation (input) digits :: "u8 list \<Rightarrow> bool" where
  "digits ds \<equiv> \<forall>c \<in> set ds. IS_DIGIT c"

lemma dec_val_range: "digits ds \<Longrightarrow> 0 \<le> dec_val ds \<and> dec_val ds < 10 ^ length ds"
proof (induction ds rule: rev_induct)
  case (snoc d ds)
  have "48 \<le> uint d" "uint d \<le> 57" using snoc.prems by (auto simp: IS_DIGIT_iff is_dig_def)
  moreover have "dec_val ds + 1 \<le> 10 ^ length ds" "0 \<le> dec_val ds" using snoc by auto
  ultimately show ?case by (simp add: dec_val_snoc)
qed simp

lemmas dec_val_bounds = dec_val_range [THEN conjunct1] dec_val_range [THEN conjunct2]

lemma dec_val_zeros: "dec_val (replicate n 48 @ ds) = dec_val ds"
  by (induction n) (simp_all add: dec_val_def)

lemma dec_val_lower:
  assumes "digits (d # ds)" "d \<noteq> 48"
  shows "10 ^ length ds \<le> dec_val (d # ds)"
proof -
  have "uint d \<noteq> 48" using assms(2) by (auto simp: word_uint_eq_iff)
  then have "1 \<le> uint d - 48" using assms(1) by (auto simp: IS_DIGIT_iff is_dig_def)
  then have "1 * 10 ^ length ds \<le> (uint d - 48) * 10 ^ length ds" by (intro mult_right_mono) auto
  moreover have "dec_val (d # ds) = (uint d - 48) * 10 ^ length ds + dec_val ds"
    using dec_val_append [of "[d]" ds] by (simp add: dec_val_def)
  moreover have "0 \<le> dec_val ds" using assms(1) by (intro dec_val_bounds) auto
  ultimately show ?thesis by linarith
qed

section \<open>The integer parser\<close>

text \<open>The reference: an optional sign, the longest run of digits, and the value if an int64 holds it.\<close>

definition parse_i64_spec :: "u8 list \<Rightarrow> (nat \<times> int) option" where
  "parse_i64_spec src =
     (let s = (if src \<noteq> [] \<and> (hd src = 45 \<or> hd src = 43) then 1 else 0);
          ds = takeWhile IS_DIGIT (drop s src);
          v = (if src \<noteq> [] \<and> hd src = 45 then - dec_val ds else dec_val ds)
      in if ds \<noteq> [] \<and> i64_ok v then Some (s + length ds, v) else None)"

lemma skip_zeros_eq: "skip_zeros src i = i + length (takeWhile (\<lambda>c. c = 48) (drop i src))"
proof (induction src i rule: skip_zeros.induct)
  case (1 src i)
  show ?case
  proof (cases "i < length src")
    case True
    then show ?thesis
      using 1 by (subst skip_zeros.simps) (auto simp: Cons_nth_drop_Suc [symmetric])
  qed (subst skip_zeros.simps, simp)
qed

lemma digit_run_split:
  assumes "digits (take k (drop i src))"
  shows "takeWhile IS_DIGIT (drop i src) = take k (drop i src) @ takeWhile IS_DIGIT (drop (i + k) src)"
proof -
  have "drop i src = take k (drop i src) @ drop (i + k) src"
    using append_take_drop_id [of k "drop i src"] by (simp add: drop_drop add.commute)
  then have "takeWhile IS_DIGIT (drop i src) = takeWhile IS_DIGIT (take k (drop i src) @ drop (i + k) src)"
    by (rule arg_cong)
  also have "\<dots> = take k (drop i src) @ takeWhile IS_DIGIT (drop (i + k) src)"
    using assms by (intro takeWhile_append2) blast
  finally show ?thesis .
qed

lemma digit_step_u64:
  "word_of_int (dec_val ds) * 10 + (ucast c - 48) = (word_of_int (dec_val (ds @ [c])) :: u64)"
  by (simp add: dec_val_snoc)

lemma i64_tail_eq:
  assumes "digits ds" "length ds = i - sig_start" "sig_start \<le> i" "length ds \<le> 19"
  shows "i64_tail src sig_start i (word_of_int (dec_val ds)) =
    (let rest = takeWhile IS_DIGIT (drop i src)
     in if length ds + length rest \<le> 19
        then Some (i + length rest, word_of_int (dec_val (ds @ rest))) else None)"
  using assms
proof (induction "length src - i" arbitrary: i ds rule: less_induct)
  case less
  show ?case
  proof (cases "i < length src \<and> IS_DIGIT (src ! i)")
    case False
    then have "takeWhile IS_DIGIT (drop i src) = []"
      by (auto simp: takeWhile_eq_Nil_iff hd_drop_conv_nth)
    with False less.prems show ?thesis by (subst i64_tail.simps) auto
  next
    case True
    define c where "c = src ! i"
    have run: "takeWhile IS_DIGIT (drop i src) = c # takeWhile IS_DIGIT (drop (Suc i) src)"
      using True by (simp add: c_def Cons_nth_drop_Suc [symmetric])
    show ?thesis
    proof (cases "length ds = 19")
      case True19: True
      with True less.prems show ?thesis by (subst i64_tail.simps) (simp add: run)
    next
      case False
      have l: "length (ds @ [c]) \<le> 19" "digits (ds @ [c])" using False less.prems True by (auto simp: c_def)
      have "dec_val (ds @ [c]) < 10 ^ length (ds @ [c])" using l by (intro dec_val_bounds)
      also have "(10 :: int) ^ length (ds @ [c]) \<le> 10 ^ 19" using l by (intro power_increasing) auto
      finally have hi: "dec_val (ds @ [c]) < 2 ^ 64" by simp
      have lo: "0 \<le> dec_val ds" "dec_val ds \<le> dec_val (ds @ [c])"
        using dec_val_bounds(1) [of ds] less.prems(1) True
        by (auto simp: dec_val_snoc IS_DIGIT_iff is_dig_def c_def)
      have mono: "\<not> (word_of_int (dec_val (ds @ [c])) :: u64) < word_of_int (dec_val ds)"
        using hi lo by (simp add: word_less_def uint_word_of_int_eq take_bit_int_eq_self)
      have "i64_tail src sig_start i (word_of_int (dec_val ds)) =
          i64_tail src sig_start (i + 1) (word_of_int (dec_val (ds @ [c])))"
        using True False less.prems mono
        by (subst i64_tail.simps) (simp add: digit_step_u64 Let_def flip: c_def)
      also have "\<dots> = (let rest = takeWhile IS_DIGIT (drop (i + 1) src)
          in if length (ds @ [c]) + length rest \<le> 19
             then Some (i + 1 + length rest, word_of_int (dec_val ((ds @ [c]) @ rest))) else None)"
        using True less.prems l by (intro less.hyps) auto
      finally show ?thesis by (simp add: run Let_def)
    qed
  qed
qed

lemma swar_8_at:
  assumes "i + 8 \<le> length src" "ray_is_8_digits (drop i src)"
  shows "digits (take 8 (drop i src))"
    "ray_parse_8_digits (drop i src) = word_of_int (dec_val (take 8 (drop i src)))"
proof -
  show d: "digits (take 8 (drop i src))" using assms by (subst ray_is_8_digits_iff [symmetric]) auto
  show "ray_parse_8_digits (drop i src) = word_of_int (dec_val (take 8 (drop i src)))"
    using assms d by (intro ray_parse_8_digits_val) auto
qed

lemma swar_8_twice:
  assumes "i + 16 \<le> length src"
  shows "(word_of_int (dec_val (take 8 (drop i src))) * 100000000 +
      word_of_int (dec_val (take 8 (drop (i + 8) src))) :: u64) =
    word_of_int (dec_val (take 16 (drop i src)))"
    "take 16 (drop i src) = take 8 (drop i src) @ take 8 (drop (i + 8) src)"
proof -
  show t: "take 16 (drop i src) = take 8 (drop i src) @ take 8 (drop (i + 8) src)"
    using take_add [of 8 8 "drop i src"] by (simp add: add.commute)
  have "length (take 8 (drop (i + 8) src)) = 8" using assms by simp
  then show "(word_of_int (dec_val (take 8 (drop i src))) * 100000000 +
      word_of_int (dec_val (take 8 (drop (i + 8) src))) :: u64) =
    word_of_int (dec_val (take 16 (drop i src)))"
    by (simp only: t dec_val_append) simp
qed

lemma i64_swar_eq:
  obtains k where "i64_swar src i = (i + k, word_of_int (dec_val (take k (drop i src))))"
    "k \<le> 16" "digits (take k (drop i src))" "i + k \<le> length src \<or> k = 0"
proof (cases "i + 8 \<le> length src \<and> ray_is_8_digits (drop i src)")
  case False
  then show thesis using that [of 0] by (auto simp: i64_swar_def)
next
  case True
  note s1 = swar_8_at [of i src]
  show thesis
  proof (cases "i + 8 + 8 \<le> length src \<and> ray_parse_8_digits (drop i src) \<le> 922337203 \<and>
      ray_is_8_digits (drop (i + 8) src)")
    case False
    then show thesis using True s1 that [of 8] by (auto simp: i64_swar_def Let_def)
  next
    case True2: True
    have "i64_swar src i = (i + 16, word_of_int (dec_val (take 16 (drop i src))))"
      using True True2 s1(2) swar_8_at(2) [of "i + 8" src] swar_8_twice(1) [of i src]
      by (simp add: i64_swar_def Let_def)
    moreover have "digits (take 16 (drop i src))"
      using True True2 s1(1) swar_8_at(1) [of "i + 8" src] swar_8_twice(2) [of i src] by auto
    ultimately show thesis using that [of 16] True2 by auto
  qed
qed

lemma zero_run:
  "takeWhile IS_DIGIT xs = replicate (length (takeWhile (\<lambda>c. c = 48) xs)) 48 @
     takeWhile IS_DIGIT (drop (length (takeWhile (\<lambda>c. c = 48) xs)) xs)"
proof (induction xs)
  case (Cons x xs)
  have "IS_DIGIT 48" by (simp add: IS_DIGIT_def)
  with Cons show ?case by auto
qed simp

lemma digits_takeWhile [simp]: "digits (takeWhile IS_DIGIT xs)"
  by (auto dest: set_takeWhileD)

text \<open>After its leading zeros a run of more than 19 digits is out of range in both signs.\<close>

lemma sig_digits_overflow:
  assumes "19 < length (takeWhile IS_DIGIT (dropWhile (\<lambda>c. c = 48) xs))"
  shows "10 ^ 19 \<le> dec_val (takeWhile IS_DIGIT (dropWhile (\<lambda>c. c = 48) xs))"
proof (cases "dropWhile (\<lambda>c. c = 48) xs")
  case (Cons d ds)
  then have d: "d \<noteq> 48" "IS_DIGIT d" using hd_dropWhile [of "\<lambda>c. c = 48" xs] assms
    by (auto split: if_splits)
  let ?r = "takeWhile IS_DIGIT ds"
  have "19 \<le> length ?r" using assms d Cons by simp
  then have "(10 :: int) ^ 19 \<le> 10 ^ length ?r" by (intro power_increasing) auto
  also have "\<dots> \<le> dec_val (d # ?r)" using d by (intro dec_val_lower) auto
  finally show ?thesis using Cons d by simp
next
  case Nil
  show ?thesis using assms unfolding Nil by simp
qed

lemma i64_scan_eq:
  assumes "sig = skip_zeros src s"
  shows "(let (i, result) = i64_swar src sig in i64_tail src sig i result) =
    (let ds = takeWhile IS_DIGIT (drop s src)
     in if length (takeWhile IS_DIGIT (drop sig src)) \<le> 19
        then Some (s + length ds, word_of_int (dec_val ds)) else None)"
proof -
  obtain k where k: "i64_swar src sig = (sig + k, word_of_int (dec_val (take k (drop sig src))))"
    "k \<le> 16" "digits (take k (drop sig src))" "sig + k \<le> length src \<or> k = 0"
    by (rule i64_swar_eq)
  let ?n = "length (takeWhile (\<lambda>c. c = 48) (drop s src))"
  have sig: "sig = s + ?n" by (simp add: assms skip_zeros_eq)
  have all: "takeWhile IS_DIGIT (drop s src) = replicate ?n 48 @ takeWhile IS_DIGIT (drop sig src)"
    using zero_run [of "drop s src"] by (simp add: sig add.commute)
  have sp: "takeWhile IS_DIGIT (drop sig src) =
      take k (drop sig src) @ takeWhile IS_DIGIT (drop (sig + k) src)"
    using k(3) by (rule digit_run_split)
  have len: "length (take k (drop sig src)) = k" using k(4) by auto
  have "i64_tail src sig (sig + k) (word_of_int (dec_val (take k (drop sig src)))) =
    (let rest = takeWhile IS_DIGIT (drop (sig + k) src)
     in if length (take k (drop sig src)) + length rest \<le> 19
        then Some (sig + k + length rest, word_of_int (dec_val (take k (drop sig src) @ rest))) else None)"
    using k len by (intro i64_tail_eq) auto
  also have "\<dots> = (if length (takeWhile IS_DIGIT (drop sig src)) \<le> 19
        then Some (sig + length (takeWhile IS_DIGIT (drop sig src)),
          word_of_int (dec_val (takeWhile IS_DIGIT (drop sig src)))) else None)"
    using len by (simp add: sp Let_def)
  finally have "i64_tail src sig (sig + k) (word_of_int (dec_val (take k (drop sig src)))) = \<dots>" .
  moreover have "s + length (takeWhile IS_DIGIT (drop s src)) = sig + length (takeWhile IS_DIGIT (drop sig src))"
    "dec_val (takeWhile IS_DIGIT (drop s src)) = dec_val (takeWhile IS_DIGIT (drop sig src))"
    by (simp_all only: all dec_val_zeros length_append length_replicate) (simp add: sig)
  ultimately show ?thesis by (simp add: k(1) Let_def)
qed

lemma u64_fits:
  assumes "0 \<le> v" "v < 2 ^ 64"
  shows "(9223372036854775807 + 1 :: u64) < word_of_int v \<longleftrightarrow> 2 ^ 63 < v"
    "(9223372036854775807 :: u64) < word_of_int v \<longleftrightarrow> 2 ^ 63 \<le> v"
  using assms by (auto simp: word_less_def uint_word_of_int_eq take_bit_int_eq_self)

lemma sint_word_of_int_u64: "- (2 ^ 63) \<le> v \<Longrightarrow> v < 2 ^ 63 \<Longrightarrow> sint (word_of_int v :: u64) = v"
  by (simp add: sint_sbintrunc' signed_take_bit_int_eq_self)

lemma scan_sign_eq:
  assumes "src \<noteq> []"
  shows "scan_sign src = (hd src = 45, if hd src = 45 \<or> hd src = 43 then 1 else 0)"
  using assms by (auto simp: scan_sign_def hd_conv_nth)

text \<open>
  C17.  The integer parser with its SWAR chunks, its 19-digit cap and its wrapping accumulator is
  the reference parser: it consumes an optional sign and the longest run of digits and stores
  their value, and it refuses exactly the texts without a digit and the values outside int64.
\<close>

theorem parse_i64_correct: "ray_parse_i64 src = parse_i64_spec src"
proof (cases "src = []")
  case False
  define s :: nat where "s = (if hd src = 45 \<or> hd src = 43 then 1 else 0)"
  define ds where "ds = takeWhile IS_DIGIT (drop s src)"
  define sig where "sig = skip_zeros src s"
  define run where "run = takeWhile IS_DIGIT (drop sig src)"
  have v: "0 \<le> dec_val ds" by (auto simp: ds_def intro: dec_val_bounds)
  have ds: "dec_val ds = dec_val run"
    using zero_run [of "drop s src"]
    by (simp add: ds_def run_def sig_def skip_zeros_eq dec_val_zeros add.commute)
  have big: "10 ^ 19 \<le> dec_val ds" if "19 < length run"
    using sig_digits_overflow [of "drop s src"] that
    by (simp add: ds run_def sig_def skip_zeros_eq dropWhile_eq_drop add.commute)
  have small: "dec_val ds < 2 ^ 64" if "length run \<le> 19"
  proof -
    have "dec_val run < 10 ^ length run" by (auto simp: run_def intro: dec_val_bounds)
    also have "(10 :: int) ^ length run \<le> 10 ^ 19" using that by (intro power_increasing) auto
    finally show ?thesis by (simp add: ds)
  qed
  have code: "ray_parse_i64 src =
    (if s = length src \<or> 19 < length run \<or> ds = [] then None
     else if hd src = 45
     then if 9223372036854775807 + 1 < (word_of_int (dec_val ds) :: u64) then None
          else Some (s + length ds, sint (0 - word_of_int (dec_val ds) :: u64))
     else if 9223372036854775807 < (word_of_int (dec_val ds) :: u64) then None
          else Some (s + length ds, sint (word_of_int (dec_val ds) :: u64)))"
    using i64_scan_eq [of sig src s] False
    by (auto simp: ray_parse_i64_def scan_sign_eq s_def [symmetric] sig_def [symmetric]
        ds_def [symmetric] run_def [symmetric] Let_def split: prod.splits)
  have spec: "parse_i64_spec src =
    (let v = if hd src = 45 then - dec_val ds else dec_val ds
     in if ds \<noteq> [] \<and> i64_ok v then Some (s + length ds, v) else None)"
    using False by (simp add: parse_i64_spec_def s_def [symmetric] ds_def [symmetric] Let_def)
  have "ds = []" if "s = length src" using that by (simp add: ds_def)
  then show ?thesis
    unfolding code spec
    using v big small sint_word_of_int_u64 [of "- dec_val ds"] sint_word_of_int_u64 [of "dec_val ds"]
      u64_fits [of "dec_val ds"]
    by (cases "length run \<le> 19") (auto simp: i64_ok_def Let_def)
qed (simp add: ray_parse_i64_def parse_i64_spec_def)

section \<open>The hexadecimal parser\<close>

definition hex_val :: "u8 list \<Rightarrow> int" where
  "hex_val ds = foldl (\<lambda>v c. 16 * v + (case hex_digit c of None \<Rightarrow> 0 | Some d \<Rightarrow> uint d)) 0 ds"


abbreviation (input) is_hex :: "u8 \<Rightarrow> bool" where
  "is_hex c \<equiv> hex_digit c \<noteq> None"

lemma hex_val_snoc: "hex_val (ds @ [c]) = 16 * hex_val ds + (case hex_digit c of None \<Rightarrow> 0 | Some d \<Rightarrow> uint d)"
  by (simp add: hex_val_def)

lemma hex_digit_less: "hex_digit c = Some d \<Longrightarrow> uint d < 16"
  by (auto simp: hex_digit_def word_le_def uint_word_ariths uint_up_ucast is_up split: if_splits)

lemma hex_val_range: "0 \<le> hex_val ds \<and> hex_val ds < 16 ^ length ds"
proof (induction ds rule: rev_induct)
  case (snoc c ds)
  have "(case hex_digit c of None \<Rightarrow> 0 | Some d \<Rightarrow> uint d) < 16"
    by (auto dest: hex_digit_less split: option.split)
  moreover have "0 \<le> (case hex_digit c of None \<Rightarrow> 0 | Some d \<Rightarrow> uint d)"
    by (auto split: option.split)
  moreover have "hex_val ds + 1 \<le> 16 ^ length ds" "0 \<le> hex_val ds" using snoc by auto
  ultimately show ?case by (simp add: hex_val_snoc)
qed (simp add: hex_val_def)

lemma hex_step:
  assumes "hex_digit c = Some d"
  shows "push_bit 4 (word_of_int (hex_val ds) :: u64) OR d = word_of_int (hex_val (ds @ [c]))"
proof -
  have "bit d n \<Longrightarrow> n < 4" for n
  proof -
    assume "bit d n"
    then have "bit (uint d) n" using bit_imp_le_length [of d n] by (simp add: bit_uint_iff)
    moreover have "uint d = take_bit 4 (uint d)"
      using hex_digit_less [OF assms] by (simp add: take_bit_int_eq_self)
    ultimately show "n < 4" by (metis bit_take_bit_iff)
  qed
  then have "push_bit 4 (word_of_int (hex_val ds) :: u64) OR d = push_bit 4 (word_of_int (hex_val ds)) + d"
    by (intro disjunctive_add [symmetric]) (auto simp: bit_push_bit_iff not_le)
  also have "\<dots> = word_of_int (hex_val (ds @ [c]))"
    by (simp add: hex_val_snoc assms push_bit_eq_mult)
  finally show ?thesis .
qed

lemma hex_loop_eq:
  assumes "i = length ds"
  shows "hex_loop src i (word_of_int (hex_val ds)) =
    (let rest = takeWhile is_hex (take (16 - i) (drop i src))
     in (i + length rest, word_of_int (hex_val (ds @ rest))))"
  using assms
proof (induction "length src - i" arbitrary: i ds rule: less_induct)
  case less
  show ?case
  proof (cases "i < length src \<and> i < 16")
    case False
    then show ?thesis by (subst hex_loop.simps) (auto simp: Let_def)
  next
    case True
    have t: "take (16 - i) (drop i src) = src ! i # take (16 - Suc i) (drop (Suc i) src)"
      using True by (simp add: Cons_nth_drop_Suc [symmetric] Suc_diff_Suc [symmetric])
    show ?thesis
    proof (cases "hex_digit (src ! i)")
      case None
      with True show ?thesis by (subst hex_loop.simps) (simp add: t)
    next
      case (Some d)
      have "hex_loop src i (word_of_int (hex_val ds)) = hex_loop src (Suc i) (word_of_int (hex_val (ds @ [src ! i])))"
        using True Some by (subst hex_loop.simps) (simp add: hex_step [OF Some])
      also have "\<dots> = (let rest = takeWhile is_hex (take (16 - Suc i) (drop (Suc i) src))
          in (Suc i + length rest, word_of_int (hex_val ((ds @ [src ! i]) @ rest))))"
        using True less.prems by (intro less.hyps) auto
      finally show ?thesis using Some by (simp add: t Let_def)
    qed
  qed
qed

lemma parse_u64_hex_eq:
  "ray_parse_u64_hex src =
     (let ds = takeWhile is_hex (take 16 src)
      in if ds = [] then None else Some (length ds, word_of_int (hex_val ds)))"
  using hex_loop_eq [of 0 "[]" src] by (simp add: ray_parse_u64_hex_def Let_def hex_val_def)

text \<open>No bit is lost: at most sixteen digits, so the value fits.\<close>

lemma parse_u64_hex_value:
  assumes "ray_parse_u64_hex src = Some (n, v)"
  shows "n \<le> 16 \<and> n = length (takeWhile is_hex (take 16 src)) \<and> uint v = hex_val (take n src)"
proof -
  define ds where "ds = takeWhile is_hex (take 16 src)"
  have n: "n = length ds" "v = word_of_int (hex_val ds)"
    using assms by (auto simp: parse_u64_hex_eq ds_def Let_def split: if_splits)
  have l: "length ds \<le> 16" using length_takeWhile_le [of is_hex "take 16 src"] by (simp add: ds_def)
  have "hex_val ds < 16 ^ length ds" "0 \<le> hex_val ds" using hex_val_range [of ds] by auto
  moreover have "(16 :: int) ^ length ds \<le> 16 ^ 16" using l by (intro power_increasing) auto
  ultimately have "uint (word_of_int (hex_val ds) :: u64) = hex_val ds"
    by (simp add: uint_word_of_int_eq take_bit_int_eq_self)
  moreover have "take n src = ds"
    using n(1) l takeWhile_eq_take [of is_hex "take 16 src"] by (simp add: ds_def min_def)
  ultimately show ?thesis using n l by (simp add: ds_def)
qed

end
