(* ===== verification/NumFloat.thy ===== *)
theory NumFloat
  imports NumParse
begin

text \<open>
  The float parser \<open>ray_parse_f64\<close> of \<^verbatim>\<open>core/numparse.c\<close>.  A double is a sign and a rational
  magnitude, an infinity or a NaN; an operation on doubles rounds its exact result to nearest,
  ties to even, with the gradual underflow and the overflow of binary64.  The C library calls
  \<^verbatim>\<open>strtod\<close> and \<^verbatim>\<open>pow\<close> and the success of the scratch allocation are parameters.
\<close>

section \<open>Doubles\<close>

datatype f64 = Fin bool rat | Inf bool | NaN

definition rnd_mag :: "rat \<Rightarrow> rat" where
  "rnd_mag x =
     (if x = 0 then 0
      else let u = 2 powi (max (bexp x - 52) (- 1074)) in of_int (round_half_even (x / u)) * u)"

definition f64_round :: "bool \<Rightarrow> rat \<Rightarrow> f64" where
  "f64_round neg x = (if rnd_mag x < 2 ^ 1024 then Fin neg (rnd_mag x) else Inf neg)"

fun f64_neg :: "f64 \<Rightarrow> f64" where
  "f64_neg (Fin s x) = Fin (\<not> s) x"
| "f64_neg (Inf s) = Inf (\<not> s)"
| "f64_neg NaN = NaN"

fun f64_mul :: "f64 \<Rightarrow> f64 \<Rightarrow> f64" where
  "f64_mul (Fin s x) (Fin t y) = f64_round (s \<noteq> t) (x * y)"
| "f64_mul (Fin s x) (Inf t) = (if x = 0 then NaN else Inf (s \<noteq> t))"
| "f64_mul (Inf s) (Fin t y) = (if y = 0 then NaN else Inf (s \<noteq> t))"
| "f64_mul (Inf s) (Inf t) = Inf (s \<noteq> t)"
| "f64_mul _ _ = NaN"

fun f64_div :: "f64 \<Rightarrow> f64 \<Rightarrow> f64" where
  "f64_div (Fin s x) (Fin t y) =
     (if y = 0 then (if x = 0 then NaN else Inf (s \<noteq> t)) else f64_round (s \<noteq> t) (x / y))"
| "f64_div (Fin s x) (Inf t) = Fin (s \<noteq> t) 0"
| "f64_div (Inf s) (Fin t y) = Inf (s \<noteq> t)"
| "f64_div _ _ = NaN"

text \<open>The test \<^verbatim>\<open>fabs(x) <= DBL_MAX\<close>.\<close>

fun f64_finite :: "f64 \<Rightarrow> bool" where
  "f64_finite (Fin _ _) = True"
| "f64_finite _ = False"

fun f64_is_zero :: "f64 \<Rightarrow> bool" where
  "f64_is_zero (Fin _ x) = (x = 0)"
| "f64_is_zero _ = False"

definition f64_of_u64 :: "u64 \<Rightarrow> f64" where
  "f64_of_u64 n = f64_round False (of_int (uint n))"

text \<open>The null of the column type: no infinity and no other NaN is a value.\<close>

abbreviation (input) null_f64 :: f64 where
  "null_f64 \<equiv> NaN"

section \<open>Scaling by a power of ten\<close>

record libc =
  strtod :: "u8 list \<Rightarrow> f64 \<times> nat"
  pow10 :: "nat \<Rightarrow> f64"
  alloc_ok :: "nat \<Rightarrow> bool"

definition g_pow10 :: "nat \<Rightarrow> f64" where
  "g_pow10 k = f64_round False (10 ^ k)"

function scale_down :: "f64 \<Rightarrow> nat \<Rightarrow> f64" where
  "scale_down val ne =
     (if 22 < ne
      then let val = f64_div val (g_pow10 22)
           in if f64_is_zero val then val else scale_down val (ne - 22)
      else f64_div val (g_pow10 ne))"
  by auto
termination by (relation "measure snd") auto

definition scale_pow10 :: "libc \<Rightarrow> f64 \<Rightarrow> int \<Rightarrow> f64" where
  "scale_pow10 L val e =
     (if e = 0 then val
      else if 0 < e
      then if e \<le> 22 then f64_mul val (g_pow10 (nat e)) else f64_mul val (pow10 L (nat e))
      else let ne = nat (- e) in
           if ne \<le> 22 then f64_div val (g_pow10 ne) else scale_down val ne)"

section \<open>Scanning the decimal text\<close>

text \<open>\<open>icmp3\<close> at an offset; the lower-case letters are given, \<open>XOR 0x20\<close> gives the upper ones.\<close>

definition icmp3 :: "u8 list \<Rightarrow> nat \<Rightarrow> u8 \<Rightarrow> u8 \<Rightarrow> u8 \<Rightarrow> bool" where
  "icmp3 src i a b c \<longleftrightarrow>
     (src ! i = a \<or> src ! i = xor a 0x20) \<and>
     (src ! (i + 1) = b \<or> src ! (i + 1) = xor b 0x20) \<and>
     (src ! (i + 2) = c \<or> src ! (i + 2) = xor c 0x20)"

record fnum =
  mantissa :: u64
  mant_digits :: nat
  dec_offset :: int

definition fnum0 :: fnum where
  "fnum0 = \<lparr>mantissa = 0, mant_digits = 0, dec_offset = 0\<rparr>"

text \<open>The fast path for the first 8 or 16 digits of the integer part.\<close>

definition int_swar :: "u8 list \<Rightarrow> nat \<Rightarrow> fnum \<Rightarrow> nat \<times> fnum" where
  "int_swar src i n =
     (if i + 8 \<le> length src \<and> ray_is_8_digits (drop i src)
      then let n = n\<lparr>mantissa := ray_parse_8_digits (drop i src), mant_digits := 8\<rparr>; i = i + 8
           in if i + 8 \<le> length src \<and> ray_is_8_digits (drop i src)
              then (i + 8, n\<lparr>mantissa := mantissa n * 100000000 + ray_parse_8_digits (drop i src),
                             mant_digits := 16\<rparr>)
              else (i, n)
      else (i, n))"

function int_tail :: "u8 list \<Rightarrow> nat \<Rightarrow> fnum \<Rightarrow> nat \<times> fnum" where
  "int_tail src i n =
     (if i < length src \<and> IS_DIGIT (src ! i)
      then int_tail src (i + 1)
             (if mant_digits n < 18
              then n\<lparr>mantissa := mantissa n * 10 + (ucast (src ! i) - 48),
                     mant_digits := mant_digits n + 1\<rparr>
              else n\<lparr>dec_offset := dec_offset n + 1\<rparr>)
      else (i, n))"
  by auto
termination by (relation "measure (\<lambda>(src, i, n). length src - i)") auto

text \<open>Zeros of the fraction before its first significant digit shift the point only.\<close>

function frac_zeros :: "u8 list \<Rightarrow> nat \<Rightarrow> fnum \<Rightarrow> nat \<times> fnum" where
  "frac_zeros src i n =
     (if i < length src \<and> src ! i = 48
      then frac_zeros src (i + 1) (n\<lparr>dec_offset := dec_offset n - 1\<rparr>)
      else (i, n))"
  by auto
termination by (relation "measure (\<lambda>(src, i, n). length src - i)") auto

definition frac_swar :: "u8 list \<Rightarrow> nat \<Rightarrow> fnum \<Rightarrow> nat \<times> fnum" where
  "frac_swar src i n =
     (if i + 8 \<le> length src \<and> mant_digits n + 8 \<le> 18 \<and> ray_is_8_digits (drop i src)
      then (i + 8, n\<lparr>mantissa := mantissa n * 100000000 + ray_parse_8_digits (drop i src),
                     mant_digits := mant_digits n + 8, dec_offset := dec_offset n - 8\<rparr>)
      else (i, n))"

function frac_tail :: "u8 list \<Rightarrow> nat \<Rightarrow> fnum \<Rightarrow> nat \<times> fnum" where
  "frac_tail src i n =
     (if i < length src \<and> IS_DIGIT (src ! i)
      then frac_tail src (i + 1)
             (if mant_digits n < 18
              then n\<lparr>mantissa := mantissa n * 10 + (ucast (src ! i) - 48),
                     mant_digits := mant_digits n + 1, dec_offset := dec_offset n - 1\<rparr>
              else n)
      else (i, n))"
  by auto
termination by (relation "measure (\<lambda>(src, i, n). length src - i)") auto

declare int_tail.simps [simp del] frac_zeros.simps [simp del] frac_tail.simps [simp del]
  scale_down.simps [simp del]

text \<open>
  The integer and fractional digits from \<open>i\<close>.  The flag \<open>have_digit\<close> is set whenever one of the
  loops moves past a digit, so it says that the offset moved by more than the point.
\<close>

definition scan_int :: "u8 list \<Rightarrow> nat \<Rightarrow> nat \<times> fnum \<times> bool" where
  "scan_int src i0 =
     (let i = skip_zeros src i0;
          (i, n) = int_swar src i fnum0;
          (i, n) = int_tail src i n
      in (i, n, i0 < i))"

definition scan_frac :: "u8 list \<Rightarrow> nat \<times> fnum \<times> bool \<Rightarrow> nat \<times> fnum \<times> bool" where
  "scan_frac src = (\<lambda>(i, n, have_digit).
     if i < length src \<and> src ! i = 46
     then let i0 = i + 1;
              (i, n) = (if mantissa n = 0 then frac_zeros src i0 n else (i0, n));
              (i, n) = frac_swar src i n;
              (i, n) = frac_tail src i n
          in (i, n, have_digit \<or> i0 < i)
     else (i, n, have_digit))"

function exp_loop :: "u8 list \<Rightarrow> nat \<Rightarrow> int \<Rightarrow> bool \<Rightarrow> nat \<times> int \<times> bool" where
  "exp_loop src i exp_v capped =
     (if i < length src \<and> IS_DIGIT (src ! i)
      then if exp_v \<le> 999 then exp_loop src (i + 1) (exp_v * 10 + (uint (src ! i) - 48)) capped
           else exp_loop src (i + 1) exp_v True
      else (i, exp_v, capped))"
  by auto
termination by (relation "measure (\<lambda>(src, i, v, c). length src - i)") auto

declare exp_loop.simps [simp del]

definition scan_exp :: "u8 list \<Rightarrow> nat \<Rightarrow> fnum \<Rightarrow> nat \<times> fnum" where
  "scan_exp src e_at n =
     (if e_at < length src \<and> (src ! e_at = 101 \<or> src ! e_at = 69)
      then let i = e_at + 1;
               e_neg = (i < length src \<and> src ! i = 45);
               e_start = (if i < length src \<and> (src ! i = 45 \<or> src ! i = 43) then i + 1 else i);
               (i, exp_v, capped) = exp_loop src e_start 0 False
           in if i = e_start then (e_at, n)
              else let e = if capped then 10000 else exp_v
                   in (i, n\<lparr>dec_offset := dec_offset n + (if e_neg then - e else e)\<rparr>)
      else (e_at, n))"

section \<open>The value\<close>

definition canon_f64 :: "f64 \<Rightarrow> f64" where
  "canon_f64 v = (if f64_finite v then v else null_f64)"

definition strtod_lane :: "libc \<Rightarrow> u8 list \<Rightarrow> nat \<Rightarrow> f64 option" where
  "strtod_lane L src i =
     (if i + 1 \<le> 128 \<or> alloc_ok L (i + 1)
      then let (v, endp) = strtod L (take i src) in if endp = i then Some v else None
      else None)"

definition finish_f64 :: "libc \<Rightarrow> u8 list \<Rightarrow> nat \<Rightarrow> bool \<Rightarrow> fnum \<Rightarrow> f64" where
  "finish_f64 L src i neg n =
     (let k = dec_offset n;
          out = (\<lambda>val. canon_f64 (if neg then f64_neg val else val))
      in if mantissa n = 0 then out (Fin False 0)
         else if 308 < k then out (Inf False)
         else if k < - 342 then out (Fin False 0)
         else if mant_digits n \<le> 15 \<and> - 22 \<le> k \<and> k \<le> 22
         then let val = f64_of_u64 (mantissa n)
              in out (if 0 < k then f64_mul val (g_pow10 (nat k))
                      else if k < 0 then f64_div val (g_pow10 (nat (- k))) else val)
         else case strtod_lane L src i of
                Some v \<Rightarrow> canon_f64 v
              | None \<Rightarrow> out (scale_pow10 L (f64_of_u64 (mantissa n)) k))"

definition ray_parse_f64 :: "libc \<Rightarrow> u8 list \<Rightarrow> (nat \<times> f64) option" where
  "ray_parse_f64 L src =
     (if src = [] then None
      else let (neg, i0) = scan_sign src
           in if i0 + 3 \<le> length src \<and> icmp3 src i0 110 97 110 then Some (i0 + 3, null_f64)
              else if i0 + 3 \<le> length src \<and> icmp3 src i0 105 110 102 then Some (i0 + 3, null_f64)
              else if i0 = length src then None
              else let (i, n, have_digit) = scan_frac src (scan_int src i0)
                   in if \<not> have_digit then None
                      else let (i, n) = scan_exp src i n
                           in Some (i, finish_f64 L src i neg n))"

section \<open>What the scanner holds\<close>

text \<open>
  After the digits \<open>D\<close>, the last \<open>f\<close> of them behind the point, the scanner holds the first 18
  significant digits and the power of ten that restores their place.
\<close>

definition sig :: "u8 list \<Rightarrow> u8 list" where
  "sig D = dropWhile (\<lambda>c. c = 48) D"

definition held :: "u8 list \<Rightarrow> nat \<Rightarrow> fnum" where
  "held D f = \<lparr>mantissa = word_of_int (dec_val (take 18 (sig D))),
     mant_digits = min 18 (length (sig D)),
     dec_offset = int (length (sig D) - 18) - int f\<rparr>"

lemma held_zeros: "held (replicate k 48) f = fnum0\<lparr>dec_offset := - int f\<rparr>"
proof -
  have "sig (replicate k 48) = []" by (simp add: sig_def)
  then show ?thesis by (simp add: held_def fnum0_def)
qed

lemma sig_replicate [simp]: "sig (replicate k 48) = []"
  by (simp add: sig_def)

lemma sig_append: "sig D \<noteq> [] \<or> E = [] \<or> hd E \<noteq> 48 \<Longrightarrow> sig (D @ E) = sig D @ E"
proof (cases "sig D = []")
  case True
  then have "\<forall>c \<in> set D. c = 48" by (simp add: sig_def dropWhile_eq_Nil_conv)
  moreover assume "sig D \<noteq> [] \<or> E = [] \<or> hd E \<noteq> 48"
  ultimately show ?thesis using True by (cases E) (auto simp: sig_def dropWhile_append2)
next
  case False
  then show ?thesis by (auto simp: sig_def dropWhile_append1 dropWhile_eq_Nil_conv)
qed

lemma sig_suffix: "set (sig D) \<subseteq> set D"
  by (auto simp: sig_def dest: set_dropWhileD)

lemma dec_val_sig: "dec_val (sig D) = dec_val D"
proof -
  have "D = replicate (length (takeWhile (\<lambda>c. c = 48) D)) 48 @ sig D"
    using takeWhile_dropWhile_id [of "\<lambda>c. c = 48" D]
    by (metis (mono_tags, lifting) replicate_length_same set_takeWhileD sig_def)
  then show ?thesis by (metis dec_val_zeros)
qed

lemma held_digits:
  assumes "digits D" "digits E" "sig D \<noteq> [] \<or> E = [] \<or> hd E \<noteq> 48" "length (sig D) + length E \<le> 18"
  shows "held (D @ E) f = (held D f)\<lparr>mantissa := mantissa (held D f) * 10 ^ length E + word_of_int (dec_val E),
    mant_digits := mant_digits (held D f) + length E\<rparr>"
  using assms by (simp add: held_def sig_append dec_val_append)

lemma held_step_small:
  assumes "sig D \<noteq> [] \<or> c \<noteq> 48" "mant_digits (held D f) < 18"
  shows "held (D @ [c]) f = (held D f)\<lparr>mantissa := mantissa (held D f) * 10 + (ucast c - 48),
    mant_digits := mant_digits (held D f) + 1\<rparr>"
  using assms by (auto simp: held_def sig_append dec_val_snoc)

lemma held_step_big:
  assumes "\<not> mant_digits (held D f) < 18"
  shows "held (D @ [c]) f = (held D f)\<lparr>dec_offset := dec_offset (held D f) + 1\<rparr>"
proof -
  have "18 \<le> length (sig D)" using assms by (simp add: held_def)
  moreover from this have "sig D \<noteq> []" by auto
  ultimately show ?thesis by (auto simp: held_def sig_append)
qed

lemma held_frac: "held D (f + k) = (held D f)\<lparr>dec_offset := dec_offset (held D f) - int k\<rparr>"
  by (simp add: held_def)

lemma int_tail_eq:
  assumes "sig D \<noteq> [] \<or> takeWhile IS_DIGIT (drop i src) = [] \<or> src ! i \<noteq> 48"
  shows "int_tail src i (held D f) =
    (let R = takeWhile IS_DIGIT (drop i src) in (i + length R, held (D @ R) f))"
  using assms
proof (induction "length src - i" arbitrary: i D rule: less_induct)
  case less
  show ?case
  proof (cases "i < length src \<and> IS_DIGIT (src ! i)")
    case False
    then have "takeWhile IS_DIGIT (drop i src) = []"
      by (auto simp: takeWhile_eq_Nil_iff hd_drop_conv_nth)
    with False show ?thesis by (subst int_tail.simps) auto
  next
    case True
    define c where "c = src ! i"
    have run: "takeWhile IS_DIGIT (drop i src) = c # takeWhile IS_DIGIT (drop (Suc i) src)"
      using True by (simp add: c_def Cons_nth_drop_Suc [symmetric])
    have nz: "sig D \<noteq> [] \<or> c \<noteq> 48" using less.prems by (auto simp: run c_def)
    have "int_tail src i (held D f) = int_tail src (i + 1) (held (D @ [c]) f)"
      using True held_step_small [OF nz] held_step_big [of D f c]
      by (subst int_tail.simps) (simp add: c_def)
    also have "\<dots> = (let R = takeWhile IS_DIGIT (drop (i + 1) src)
        in (i + 1 + length R, held ((D @ [c]) @ R) f))"
      using True nz by (intro less.hyps) (auto simp: sig_append)
    finally show ?thesis by (simp add: run Let_def)
  qed
qed

lemma frac_tail_eq:
  assumes "sig D \<noteq> [] \<or> takeWhile IS_DIGIT (drop i src) = [] \<or> src ! i \<noteq> 48"
  shows "frac_tail src i (held D f) =
    (let R = takeWhile IS_DIGIT (drop i src) in (i + length R, held (D @ R) (f + length R)))"
  using assms
proof (induction "length src - i" arbitrary: i D f rule: less_induct)
  case less
  show ?case
  proof (cases "i < length src \<and> IS_DIGIT (src ! i)")
    case False
    then have "takeWhile IS_DIGIT (drop i src) = []"
      by (auto simp: takeWhile_eq_Nil_iff hd_drop_conv_nth)
    with False show ?thesis by (subst frac_tail.simps) auto
  next
    case True
    define c where "c = src ! i"
    have run: "takeWhile IS_DIGIT (drop i src) = c # takeWhile IS_DIGIT (drop (Suc i) src)"
      using True by (simp add: c_def Cons_nth_drop_Suc [symmetric])
    have nz: "sig D \<noteq> [] \<or> c \<noteq> 48" using less.prems by (auto simp: run c_def)
    have "frac_tail src i (held D f) = frac_tail src (i + 1) (held (D @ [c]) (f + 1))"
      using True held_step_small [OF nz, of f] held_step_big [of D f c]
      by (subst frac_tail.simps) (simp add: c_def held_frac [of _ f 1, simplified])
    also have "\<dots> = (let R = takeWhile IS_DIGIT (drop (i + 1) src)
        in (i + 1 + length R, held ((D @ [c]) @ R) (f + 1 + length R)))"
      using True nz by (intro less.hyps) (auto simp: sig_append)
    finally show ?thesis by (simp add: run Let_def)
  qed
qed

lemma frac_zeros_eq:
  assumes "sig D = []"
  shows "frac_zeros src i (held D f) =
    (let R = takeWhile (\<lambda>c. c = 48) (drop i src) in (i + length R, held (D @ R) (f + length R)))"
  using assms
proof (induction "length src - i" arbitrary: i D f rule: less_induct)
  case less
  show ?case
  proof (cases "i < length src \<and> src ! i = 48")
    case False
    then have "takeWhile (\<lambda>c. c = 48) (drop i src) = []"
      by (auto simp: takeWhile_eq_Nil_iff hd_drop_conv_nth)
    with False show ?thesis by (subst frac_zeros.simps) auto
  next
    case True
    have run: "takeWhile (\<lambda>c. c = 48) (drop i src) = 48 # takeWhile (\<lambda>c. c = 48) (drop (Suc i) src)"
      using True by (simp add: Cons_nth_drop_Suc [symmetric])
    have z: "sig (D @ [48]) = []" using less.prems by (simp add: sig_def dropWhile_eq_Nil_conv)
    have "held (D @ [48]) (f + 1) = (held D f)\<lparr>dec_offset := dec_offset (held D f) - 1\<rparr>"
      using z less.prems by (simp add: held_def)
    then have "frac_zeros src i (held D f) = frac_zeros src (i + 1) (held (D @ [48]) (f + 1))"
      using True by (subst frac_zeros.simps) simp
    also have "\<dots> = (let R = takeWhile (\<lambda>c. c = 48) (drop (i + 1) src)
        in (i + 1 + length R, held ((D @ [48]) @ R) (f + 1 + length R)))"
      using True z by (intro less.hyps) auto
    finally show ?thesis by (simp add: run Let_def)
  qed
qed


text \<open>The integer part and the fraction, whatever mix of loops and chunks consumed them.\<close>

lemma held_chunk:
  assumes "i + 8 \<le> length src" "ray_is_8_digits (drop i src)" "digits D" "length (sig D) \<le> 10"
    "sig D \<noteq> [] \<or> src ! i \<noteq> 48"
  shows "held (D @ take 8 (drop i src)) f =
    (held D f)\<lparr>mantissa := mantissa (held D f) * 100000000 + ray_parse_8_digits (drop i src),
      mant_digits := mant_digits (held D f) + 8\<rparr>"
    "sig (D @ take 8 (drop i src)) = sig D @ take 8 (drop i src)"
    "digits (take 8 (drop i src))"
proof -
  have d: "digits (take 8 (drop i src))" "length (take 8 (drop i src)) = 8"
    using assms swar_8_at(1) [of i src] by auto
  have h: "hd (take 8 (drop i src)) = src ! i" using assms(1) by (simp add: hd_drop_conv_nth)
  show "sig (D @ take 8 (drop i src)) = sig D @ take 8 (drop i src)"
    using assms(5) h by (intro sig_append) auto
  show "held (D @ take 8 (drop i src)) f =
    (held D f)\<lparr>mantissa := mantissa (held D f) * 100000000 + ray_parse_8_digits (drop i src),
      mant_digits := mant_digits (held D f) + 8\<rparr>"
    using assms d h held_digits [of D "take 8 (drop i src)" f] swar_8_at(2) [of i src] by simp
  show "digits (take 8 (drop i src))" by (rule d)
qed

lemma skip_zeros_stop:
  "skip_zeros src i < length src \<Longrightarrow> src ! skip_zeros src i \<noteq> 48"
proof (induction src i rule: skip_zeros.induct)
  case (1 src i)
  then show ?case by (subst skip_zeros.simps, subst (asm) (2) skip_zeros.simps) (auto split: if_splits)
qed

lemma scan_int_eq:
  "scan_int src i0 =
    (let I = takeWhile IS_DIGIT (drop i0 src) in (i0 + length I, held I 0, I \<noteq> []))"
proof -
  define z where "z = skip_zeros src i0"
  define Z where "Z = replicate (length (takeWhile (\<lambda>c. c = 48) (drop i0 src))) (48 :: u8)"
  have z: "z = i0 + length Z" by (simp add: z_def Z_def skip_zeros_eq)
  have I: "takeWhile IS_DIGIT (drop i0 src) = Z @ takeWhile IS_DIGIT (drop z src)"
    using zero_run [of "drop i0 src"] by (simp add: z Z_def add.commute)
  have nz: "z < length src \<Longrightarrow> src ! z \<noteq> 48" using skip_zeros_stop [of src i0] by (simp add: z_def)
  have Z: "sig Z = []" "digits Z" "fnum0 = held Z 0"
    by (auto simp: Z_def held_zeros IS_DIGIT_def) (simp add: fnum0_def)
  have "\<exists>k. int_swar src z (held Z 0) = (z + k, held (Z @ take k (drop z src)) 0) \<and>
      digits (take k (drop z src)) \<and> length (take k (drop z src)) = k \<and>
      (k = 0 \<or> sig (Z @ take k (drop z src)) \<noteq> [])"
  proof (cases "z + 8 \<le> length src \<and> ray_is_8_digits (drop z src)")
    case False
    then show ?thesis by (intro exI [of _ 0]) (auto simp: int_swar_def)
  next
    case True
    have h0: "mantissa (held Z 0) = 0" "mant_digits (held Z 0) = 0" using Z(1) by (simp_all add: held_def)
    have s8: "src ! z \<noteq> 48" using nz True by auto
    note c1 = held_chunk(1) [of z src Z 0] held_chunk(2,3) [of z src Z]
    have h1: "held (Z @ take 8 (drop z src)) 0 = (held Z 0)\<lparr>mantissa := ray_parse_8_digits (drop z src), mant_digits := 8\<rparr>"
      using c1(1) True Z(1,2) s8 h0 by simp
    show ?thesis
    proof (cases "z + 8 + 8 \<le> length src \<and> ray_is_8_digits (drop (z + 8) src)")
      case False
      then show ?thesis using True Z s8 c1(2,3) h1
        by (intro exI [of _ 8]) (auto simp: int_swar_def Let_def)
    next
      case True2: True
      let ?D = "Z @ take 8 (drop z src)"
      note c2 = held_chunk(1) [of "z + 8" src ?D 0] held_chunk(2,3) [of "z + 8" src ?D]
      have t: "take 16 (drop z src) = take 8 (drop z src) @ take 8 (drop (z + 8) src)"
        using True2 by (intro swar_8_twice) auto
      have len0: "length (sig Z) \<le> 10" by (simp add: Z(1))
      have "sig ?D = sig Z @ take 8 (drop z src)" "digits (take 8 (drop z src))"
        using held_chunk(2,3) [of z src Z] True Z(2) s8 len0 by blast+
      then have d1: "sig ?D = take 8 (drop z src)" "digits ?D"
        using Z(1,2) unfolding set_append by (simp, blast)
      have l: "length (sig ?D) \<le> 10" "sig ?D \<noteq> []" using d1(1) True by auto
      have c2': "held (?D @ take 8 (drop (z + 8) src)) 0 =
          (held ?D 0)\<lparr>mantissa := mantissa (held ?D 0) * 100000000 + ray_parse_8_digits (drop (z + 8) src),
            mant_digits := mant_digits (held ?D 0) + 8\<rparr>" "digits (take 8 (drop (z + 8) src))"
        "sig (?D @ take 8 (drop (z + 8) src)) = sig ?D @ take 8 (drop (z + 8) src)"
        using c2 True2 d1(2) l by blast+
      have "int_swar src z (held Z 0) = (z + 16, held (Z @ take 16 (drop z src)) 0)"
        using True True2 by (simp add: t int_swar_def Let_def c2'(1) [unfolded h1, simplified] h0)
      moreover have "digits (take 16 (drop z src))" using d1(2) c2'(2) by (auto simp: t)
      moreover have "sig (Z @ take 16 (drop z src)) \<noteq> []" using c2'(3) l(2) by (simp add: t)
      moreover have "length (take 16 (drop z src)) = 16" using True2 by auto
      ultimately show ?thesis by (intro exI [of _ 16]) simp
    qed
  qed
  then obtain k where k: "int_swar src z (held Z 0) = (z + k, held (Z @ take k (drop z src)) 0)"
    "digits (take k (drop z src))" "length (take k (drop z src)) = k"
    "k = 0 \<or> sig (Z @ take k (drop z src)) \<noteq> []" by blast
  have "sig (Z @ take k (drop z src)) \<noteq> [] \<or> takeWhile IS_DIGIT (drop (z + k) src) = [] \<or> src ! (z + k) \<noteq> 48"
    using k(4) nz by (cases "z < length src") auto
  from int_tail_eq [OF this, of 0]
  have "int_tail src (z + k) (held (Z @ take k (drop z src)) 0) =
      (i0 + length (takeWhile IS_DIGIT (drop i0 src)), held (takeWhile IS_DIGIT (drop i0 src)) 0)"
    using digit_run_split [OF k(2)] k(3) by (simp add: I z Let_def)
  then show ?thesis
    using k(1) by (simp add: scan_int_def Z(3) flip: z_def) (simp add: Let_def)
qed


lemma held_mantissa_zero:
  assumes "digits D"
  shows "mantissa (held D f) = 0 \<longleftrightarrow> sig D = []"
proof (cases "sig D")
  case (Cons d ds)
  have d: "d \<noteq> 48" using Cons hd_dropWhile [of "\<lambda>c. c = 48" D] by (auto simp: sig_def)
  have dig: "digits (d # take 17 ds)" using assms sig_suffix [of D] Cons by (auto dest: in_set_takeD)
  have t: "take 18 (sig D) = d # take 17 ds" by (simp add: Cons)
  have "0 < dec_val (d # take 17 ds)"
    using dec_val_lower [OF dig d] by (smt (verit) zero_less_power)
  moreover have "dec_val (d # take 17 ds) < 10 ^ length (d # take 17 ds)"
    using dig by (intro dec_val_bounds)
  moreover have "(10 :: int) ^ length (d # take 17 ds) \<le> 10 ^ 18" by (intro power_increasing) auto
  ultimately have "uint (word_of_int (dec_val (take 18 (sig D))) :: u64) \<noteq> 0"
    by (simp add: t uint_word_of_int_eq take_bit_int_eq_self)
  then show ?thesis using Cons by (auto simp: held_def)
qed (simp add: held_def)

lemma frac_rest_eq:
  assumes D: "digits D" and nz: "sig D \<noteq> [] \<or> takeWhile IS_DIGIT (drop i src) = [] \<or> src ! i \<noteq> 48"
  shows "(let (j, n) = frac_swar src i (held D f) in frac_tail src j n) =
    (let R = takeWhile IS_DIGIT (drop i src) in (i + length R, held (D @ R) (f + length R)))"
proof (cases "i + 8 \<le> length src \<and> mant_digits (held D f) + 8 \<le> 18 \<and> ray_is_8_digits (drop i src)")
  case False
  then have "frac_swar src i (held D f) = (i, held D f)" by (auto simp: frac_swar_def)
  then show ?thesis using frac_tail_eq [OF nz] by simp
next
  case True
  let ?c = "take 8 (drop i src)"
  have l: "length (sig D) \<le> 10" using True by (simp add: held_def min_def split: if_splits)
  have dc: "digits ?c" using True swar_8_at(1) by blast
  have "takeWhile IS_DIGIT (drop i src) \<noteq> []" using digit_run_split [OF dc] True by auto
  with nz have nz': "sig D \<noteq> [] \<or> src ! i \<noteq> 48" by blast
  note hc = held_chunk(1) [of i src D f] held_chunk(2) [of i src D]
  have sc: "held (D @ ?c) f = (held D f)\<lparr>mantissa := mantissa (held D f) * 100000000 + ray_parse_8_digits (drop i src),
      mant_digits := mant_digits (held D f) + 8\<rparr>" "sig (D @ ?c) = sig D @ ?c"
    using hc True D l nz' by blast+
  have "frac_swar src i (held D f) = (i + 8, held (D @ ?c) (f + 8))"
    using True by (simp add: frac_swar_def held_frac [of "D @ ?c" f 8] sc(1))
  moreover have "sig (D @ ?c) \<noteq> []" using sc(2) True by auto
  then have "frac_tail src (i + 8) (held (D @ ?c) (f + 8)) =
      (let R = takeWhile IS_DIGIT (drop (i + 8) src)
       in (i + 8 + length R, held ((D @ ?c) @ R) (f + 8 + length R)))"
    by (intro frac_tail_eq) blast
  moreover have "length ?c = 8" using True by auto
  ultimately show ?thesis using digit_run_split [OF dc] by (simp add: Let_def add.assoc)
qed

lemma scan_frac_digits:
  assumes D: "digits D" and i: "i < length src" "src ! i = 46"
  shows "scan_frac src (i, held D 0, hd0) =
    (let F = takeWhile IS_DIGIT (drop (i + 1) src)
     in (i + 1 + length F, held (D @ F) (length F), hd0 \<or> F \<noteq> []))"
proof -
  let ?i0 = "i + 1"
  define Z where "Z = (if sig D = [] then takeWhile (\<lambda>c. c = 48) (drop ?i0 src) else [])"
  define z where "z = ?i0 + length Z"
  have Z48: "\<forall>c \<in> set Z. c = 48" by (auto simp: Z_def dest: set_takeWhileD)
  then have dZ: "digits Z" by (auto simp: IS_DIGIT_def)
  have DZ: "digits (D @ Z)" using D dZ by auto
  have zero: "(if mantissa (held D 0) = 0 then frac_zeros src ?i0 (held D 0) else (?i0, held D 0)) =
      (z, held (D @ Z) (length Z))"
    using frac_zeros_eq [of D src ?i0 0] by (simp add: held_mantissa_zero [OF D] Z_def z_def Let_def)
  have nz: "sig (D @ Z) \<noteq> [] \<or> takeWhile IS_DIGIT (drop z src) = [] \<or> src ! z \<noteq> 48"
  proof (cases "sig D = [] \<and> z < length src")
    case True
    then have "z = skip_zeros src ?i0" by (simp add: z_def Z_def skip_zeros_eq)
    then show ?thesis using skip_zeros_stop [of src ?i0] True by simp
  qed (auto simp: Z_def)
  have F: "takeWhile IS_DIGIT (drop ?i0 src) = Z @ takeWhile IS_DIGIT (drop z src)"
  proof -
    have "take (length Z) (drop ?i0 src) = Z"
      by (simp add: Z_def) (metis takeWhile_eq_take)
    then show ?thesis using digit_run_split [of "length Z" ?i0 src] dZ by (simp add: z_def)
  qed
  have "(let (j, n) = frac_swar src z (held (D @ Z) (length Z)) in frac_tail src j n) =
      (?i0 + length (takeWhile IS_DIGIT (drop ?i0 src)),
       held (D @ takeWhile IS_DIGIT (drop ?i0 src)) (length (takeWhile IS_DIGIT (drop ?i0 src))))"
    using frac_rest_eq [OF DZ nz, of "length Z"]
    unfolding F length_append by (simp add: Let_def) (simp add: z_def)
  moreover obtain j n where jn: "frac_swar src z (held (D @ Z) (length Z)) = (j, n)" by force
  ultimately have tl: "frac_tail src j n = (?i0 + length (takeWhile IS_DIGIT (drop ?i0 src)),
       held (D @ takeWhile IS_DIGIT (drop ?i0 src)) (length (takeWhile IS_DIGIT (drop ?i0 src))))"
    by (simp only: Let_def prod.case)
  show ?thesis
    by (simp only: scan_frac_def prod.case i simp_thms if_True Let_def zero jn tl) auto
qed

section \<open>Rounding\<close>

lemma round_half_even_int [simp]: "round_half_even (of_int n) = n"
  by (simp add: round_half_even_def)

lemma round_half_even_ge: "of_int n \<le> z \<Longrightarrow> n \<le> round_half_even z"
proof -
  assume "of_int n \<le> z"
  then have "n \<le> \<lfloor>z\<rfloor>" by (simp add: le_floor_iff)
  then show ?thesis by (simp add: round_half_even_def Let_def)
qed

lemma round_half_even_small: "0 \<le> z \<Longrightarrow> z \<le> 1 / 2 \<Longrightarrow> round_half_even z = 0"
proof -
  assume z: "0 \<le> z" "z \<le> 1 / 2"
  then have "\<lfloor>z\<rfloor> = 0" by linarith
  with z show ?thesis by (simp add: round_half_even_def)
qed

lemma bexp_le: "0 < x \<Longrightarrow> x < 2 powi (k + 1) \<Longrightarrow> bexp x \<le> k"
proof (rule ccontr)
  assume x: "0 < x" "x < 2 powi (k + 1)" and "\<not> bexp x \<le> k"
  then have "(2 :: rat) powi (k + 1) \<le> 2 powi bexp x" by (intro power_int_increasing) auto
  with bexp_bounds(1) [OF x(1)] x(2) show False by simp
qed

lemma bexp_ge: "2 powi k \<le> x \<Longrightarrow> k \<le> bexp x"
proof (rule ccontr)
  assume x: "2 powi k \<le> x" and "\<not> k \<le> bexp x"
  then have "(2 :: rat) powi (bexp x + 1) \<le> 2 powi k" by (intro power_int_increasing) auto
  moreover have "0 < x" using x less_le_trans zero_less_power_int zero_less_numeral by metis
  ultimately show False using bexp_bounds(2) [of x] x by simp
qed

lemma f64_round_zero [simp]: "f64_round neg 0 = Fin neg 0"
  by (simp add: f64_round_def rnd_mag_def)

lemma f64_round_overflow:
  assumes "2 ^ 1024 \<le> x"
  shows "f64_round neg x = Inf neg"
proof -
  have x0: "0 < x" using assms less_le_trans [of 0 "2 ^ 1024" x] by simp
  have b: "1024 \<le> bexp x" using assms by (intro bexp_ge) (simp add: power_int_numeral)
  define u :: rat where "u = 2 powi (bexp x - 52)"
  have u: "0 < u" by (simp add: u_def)
  have ub: "u * 2 ^ 52 = 2 powi bexp x" by (simp add: u_def power_int_diff power_int_numeral)
  have "of_int (2 ^ 52) \<le> x / u" using bexp_bounds(1) [OF x0] u by (simp add: ub [symmetric] field_simps)
  then have "2 ^ 52 \<le> round_half_even (x / u)" by (rule round_half_even_ge)
  then have "of_int (2 ^ 52) \<le> (of_int (round_half_even (x / u)) :: rat)" by (simp only: of_int_le_iff)
  then have "2 ^ 52 * u \<le> of_int (round_half_even (x / u)) * u" using u by (intro mult_right_mono) auto
  moreover have "(2 :: rat) powi 1024 \<le> 2 powi bexp x" using b by (intro power_int_increasing) auto
  moreover have "rnd_mag x = of_int (round_half_even (x / u)) * u"
    using x0 b by (simp add: rnd_mag_def u_def Let_def max_def)
  ultimately have "2 ^ 1024 \<le> rnd_mag x" using ub by (simp add: power_int_numeral mult.commute)
  then show ?thesis by (simp add: f64_round_def)
qed

lemma f64_round_underflow:
  assumes "0 \<le> x" "x \<le> 2 powi (- 1075)"
  shows "f64_round neg x = Fin neg 0"
proof (cases "x = 0")
  case False
  then have x0: "0 < x" using assms by simp
  have "x < 2 powi (- 1075 + 1)" using assms(2) by (simp add: power_int_minus power_int_numeral)
  then have b: "bexp x \<le> - 1075" by (rule bexp_le [OF x0])
  define u :: rat where "u = 2 powi (- 1074)"
  have "x \<le> u / 2" using assms(2) by (simp add: u_def power_int_minus power_int_numeral)
  then have "x / u \<le> 1 / 2" "0 < x / u" using x0 by (simp_all add: u_def field_simps)
  then have "round_half_even (x / u) = 0"
    by (intro round_half_even_small) auto
  moreover have "rnd_mag x = of_int (round_half_even (x / u)) * u"
    using False b by (simp add: rnd_mag_def u_def Let_def max_def)
  ultimately show ?thesis by (simp add: f64_round_def)
qed simp

lemma f64_round_exact:
  assumes n: "0 \<le> n" "n < 2 ^ 53" and small: "of_int n * 2 ^ j < (2 ^ 1024 :: rat)"
  shows "f64_round neg (of_int n * 2 ^ j) = Fin neg (of_int n * 2 ^ j)"
proof (cases "n = 0")
  case False
  let ?x = "of_int n * 2 ^ j :: rat"
  have x0: "0 < ?x" using n False by simp
  have "(of_int n :: rat) < of_int (2 ^ 53)" using n(2) by (simp only: of_int_less_iff)
  then have "?x < 2 ^ 53 * 2 ^ j" by simp
  also have "\<dots> = 2 powi (52 + int j + 1)" by (simp add: power_int_add power_int_of_nat power_int_numeral)
  finally have b: "bexp ?x \<le> 52 + int j" by (rule bexp_le [OF x0])
  define q where "q = max (bexp ?x - 52) (- 1074)"
  have q: "q \<le> int j" using b by (simp add: q_def)
  have "(2 :: rat) ^ j = 2 ^ nat (int j - q) * 2 powi q"
  proof -
    have "(2 :: rat) powi int j = 2 powi (int j - q) * 2 powi q" by (simp flip: power_int_add)
    moreover have "(2 :: rat) powi (int j - q) = 2 ^ nat (int j - q)" using q by (simp add: power_int_def)
    ultimately show ?thesis by (simp add: power_int_of_nat)
  qed
  then have "?x / 2 powi q = of_int (n * 2 ^ nat (int j - q))" by simp
  then have r: "round_half_even (?x / 2 powi q) = n * 2 ^ nat (int j - q)"
    by (simp only: round_half_even_int)
  have "rnd_mag ?x = of_int (round_half_even (?x / 2 powi q)) * 2 powi q"
    unfolding rnd_mag_def Let_def q_def [symmetric] using False by (intro if_not_P) simp
  also have "\<dots> = of_int (n * 2 ^ nat (int j - q)) * 2 powi q" by (simp only: r)
  also have "\<dots> = ?x" by (simp add: \<open>(2 :: rat) ^ j = _\<close>)
  finally show ?thesis using small by (simp add: f64_round_def)
qed simp


lemma f64_neg_round: "f64_neg (f64_round False x) = f64_round True x"
  by (simp add: f64_round_def)

lemma g_pow10_exact:
  assumes "k \<le> 22"
  shows "g_pow10 k = Fin False (10 ^ k)"
proof -
  have "(5 :: int) ^ k \<le> 5 ^ 22" using assms by (intro power_increasing) auto
  then have "(5 :: int) ^ k < 2 ^ 53" by simp
  moreover have ten: "of_int (5 ^ k) * 2 ^ k = (10 ^ k :: rat)" by (simp flip: power_mult_distrib)
  moreover have "(10 :: rat) ^ k \<le> 10 ^ 22" using assms by (intro power_increasing) auto
  then have "(10 :: rat) ^ k < 2 ^ 1024" by (rule order.strict_trans1) simp
  ultimately show ?thesis using f64_round_exact [of "5 ^ k" k False] by (simp add: g_pow10_def)
qed

lemma f64_of_u64_exact:
  assumes "0 \<le> m" "m < 2 ^ 53"
  shows "f64_of_u64 (word_of_int m) = Fin False (of_int m)"
proof -
  have "uint (word_of_int m :: u64) = m" using assms by (simp add: uint_word_of_int_eq take_bit_int_eq_self)
  moreover have "(of_int m :: rat) < of_int (2 ^ 53)" using assms by (simp only: of_int_less_iff)
  then have "(of_int m :: rat) < 2 ^ 1024" by (rule order.strict_trans) simp
  ultimately show ?thesis using f64_round_exact [of m 0 False] assms by (simp add: f64_of_u64_def)
qed

section \<open>The exponent\<close>

lemma exp_loop_eq:
  assumes "digits ds" "if c then 10000 \<le> dec_val ds \<and> 999 < v else v = dec_val ds \<and> v \<le> 9999"
  obtains v' c' where
    "exp_loop src i v c = (i + length (takeWhile IS_DIGIT (drop i src)), v', c')"
    "(if c' then 10000 else v') = min (dec_val (ds @ takeWhile IS_DIGIT (drop i src))) 10000"
proof -
  have "\<exists>v' c'. exp_loop src i v c = (i + length (takeWhile IS_DIGIT (drop i src)), v', c') \<and>
    (if c' then 10000 else v') = min (dec_val (ds @ takeWhile IS_DIGIT (drop i src))) 10000"
    using assms
  proof (induction "length src - i" arbitrary: i ds v c rule: less_induct)
    case less
    show ?case
    proof (cases "i < length src \<and> IS_DIGIT (src ! i)")
      case False
      then have "takeWhile IS_DIGIT (drop i src) = []"
        by (auto simp: takeWhile_eq_Nil_iff hd_drop_conv_nth)
      with False less.prems show ?thesis by (subst exp_loop.simps) (auto simp: min_def)
    next
      case True
      define d where "d = src ! i"
      have run: "takeWhile IS_DIGIT (drop i src) = d # takeWhile IS_DIGIT (drop (Suc i) src)"
        using True by (simp add: d_def Cons_nth_drop_Suc [symmetric])
      have dd: "48 \<le> uint d" "uint d \<le> 57" using True by (auto simp: IS_DIGIT_iff is_dig_def d_def)
      have dig: "digits (ds @ [d])" using less.prems True by (auto simp: d_def)
      have "\<exists>v1 c1. exp_loop src i v c = exp_loop src (i + 1) v1 c1 \<and>
          (if c1 then 10000 \<le> dec_val (ds @ [d]) \<and> 999 < v1 else v1 = dec_val (ds @ [d]) \<and> v1 \<le> 9999)"
      proof (cases "v \<le> 999")
        case small: True
        with less.prems(2) have nc: "\<not> c" "v = dec_val ds" by (auto split: if_splits)
        have "exp_loop src i v c = exp_loop src (i + 1) (v * 10 + (uint d - 48)) c"
          using True small by (subst exp_loop.simps) (simp add: d_def)
        then show ?thesis using nc small dd
          by (intro exI [of _ "v * 10 + (uint d - 48)"] exI [of _ False]) (simp add: dec_val_snoc)
      next
        case big: False
        have "exp_loop src i v c = exp_loop src (i + 1) v True"
          using True big by (subst exp_loop.simps) simp
        moreover have "10000 \<le> dec_val (ds @ [d])"
          using big less.prems(2) dd by (auto simp: dec_val_snoc split: if_splits)
        ultimately show ?thesis using big by (intro exI [of _ v] exI [of _ True]) simp
      qed
      then obtain v1 c1 where st: "exp_loop src i v c = exp_loop src (i + 1) v1 c1"
        "if c1 then 10000 \<le> dec_val (ds @ [d]) \<and> 999 < v1 else v1 = dec_val (ds @ [d]) \<and> v1 \<le> 9999"
        by blast
      have "length src - (i + 1) < length src - i" using True by auto
      from less.hyps [OF this dig st(2)] show ?thesis by (simp add: st(1) run)
    qed
  qed
  with that show thesis by blast
qed

section \<open>The decimal text and its exact value\<close>

text \<open>An exponent mark with at least one digit: where it ends and its value.\<close>

definition exponent_text :: "u8 list \<Rightarrow> nat \<Rightarrow> nat \<times> int" where
  "exponent_text src k =
     (let s = (if k + 1 < length src \<and> (src ! (k + 1) = 45 \<or> src ! (k + 1) = 43) then k + 2 else k + 1);
          E = takeWhile IS_DIGIT (drop s src)
      in if k < length src \<and> (src ! k = 101 \<or> src ! k = 69) \<and> E \<noteq> []
         then (s + length E,
               if k + 1 < length src \<and> src ! (k + 1) = 45 then - dec_val E else dec_val E)
         else (k, 0))"

text \<open>
  Digits, an optional point with digits, an optional exponent: where the text from \<open>i\<close> ends and
  the rational it denotes.
\<close>

definition decimal_text :: "u8 list \<Rightarrow> nat \<Rightarrow> (nat \<times> rat) option" where
  "decimal_text src i =
     (let I = takeWhile IS_DIGIT (drop i src);
          j = i + length I;
          dot = (j < length src \<and> src ! j = 46);
          F = (if dot then takeWhile IS_DIGIT (drop (j + 1) src) else []);
          k = (if dot then j + 1 + length F else j);
          (l, e) = exponent_text src k
      in if I = [] \<and> F = [] then None
         else Some (l, of_int (dec_val (I @ F)) * 10 powi (e - int (length F))))"

lemma scan_exp_eq:
  "scan_exp src k n = (case exponent_text src k of (l, e) \<Rightarrow>
     (l, n\<lparr>dec_offset := dec_offset n + max (- 10000) (min e 10000)\<rparr>))"
proof (cases "k < length src \<and> (src ! k = 101 \<or> src ! k = 69)")
  case False
  then show ?thesis by (auto simp: scan_exp_def exponent_text_def)
next
  case True
  define s where "s = (if k + 1 < length src \<and> (src ! (k + 1) = 45 \<or> src ! (k + 1) = 43) then k + 2 else k + 1)"
  define E where "E = takeWhile IS_DIGIT (drop s src)"
  obtain v c where vc: "exp_loop src s 0 False = (s + length E, v, c)"
    "(if c then 10000 else v) = min (dec_val E) 10000"
    using exp_loop_eq [of "[]" False 0 src s] by (auto simp: E_def)
  have E0: "0 \<le> dec_val E" by (auto simp: E_def intro: dec_val_bounds)
  have s: "(if k + 1 < length src \<and> (src ! (k + 1) = 45 \<or> src ! (k + 1) = 43) then k + 1 + 1 else k + 1) = s"
    by (simp add: s_def)
  show ?thesis
    unfolding scan_exp_def exponent_text_def Let_def s s_def [symmetric] E_def [symmetric] vc prod.case
    using True E0 by (auto simp: min_def max_def vc(2))
qed

text \<open>The held mantissa against the exact digits.\<close>

lemma held_value:
  assumes "digits D"
  defines "m \<equiv> dec_val (take 18 (sig D))" and "k \<equiv> length (sig D) - 18"
  shows "m * 10 ^ k \<le> dec_val D" "dec_val D < (m + 1) * 10 ^ k" "0 \<le> m" "m < 10 ^ min 18 (length (sig D))"
    "uint (mantissa (held D f)) = m" "mantissa (held D f) = word_of_int m"
proof -
  have S: "digits (sig D)" using assms(1) sig_suffix [of D] by blast
  have t: "digits (take 18 (sig D))" "digits (drop 18 (sig D))"
    using S by (auto dest: in_set_takeD in_set_dropD)
  have "dec_val D = m * 10 ^ k + dec_val (drop 18 (sig D))"
    using dec_val_append [of "take 18 (sig D)" "drop 18 (sig D)"]
    by (simp add: m_def k_def dec_val_sig)
  moreover have "0 \<le> dec_val (drop 18 (sig D))" "dec_val (drop 18 (sig D)) < 10 ^ k"
    using dec_val_range [OF t(2)] by (simp_all add: k_def)
  ultimately show "m * 10 ^ k \<le> dec_val D" "dec_val D < (m + 1) * 10 ^ k"
    by (simp_all add: algebra_simps)
  show m0: "0 \<le> m" and m1: "m < 10 ^ min 18 (length (sig D))"
    using dec_val_range [OF t(1)] by (simp_all add: m_def min.commute)
  have "(10 :: int) ^ min 18 (length (sig D)) \<le> 10 ^ 18" by (intro power_increasing) auto
  with m1 have "m < 2 ^ 64" by simp
  then show "uint (mantissa (held D f)) = m"
    using m0 by (simp add: held_def uint_word_of_int_eq take_bit_int_eq_self flip: m_def)
  show "mantissa (held D f) = word_of_int m" by (simp add: held_def m_def)
qed


lemma scaled_bounds:
  assumes "m * 10 ^ k \<le> d" "d < (m + 1) * 10 ^ k"
  shows "of_int m * 10 powi (int k + t) \<le> (of_int d * 10 powi t :: rat)"
    "of_int d * 10 powi t < (of_int (m + 1) * 10 powi (int k + t) :: rat)"
proof -
  have p: "(10 :: rat) powi (int k + t) = of_int (10 ^ k) * 10 powi t" by (simp add: power_int_add power_int_of_nat)
  have "of_int (m * 10 ^ k) \<le> (of_int d :: rat)" using assms(1) by (simp only: of_int_le_iff)
  then show "of_int m * 10 powi (int k + t) \<le> (of_int d * 10 powi t :: rat)"
    unfolding p by (simp add: mult_right_mono flip: mult.assoc)
  have "(of_int d :: rat) < of_int ((m + 1) * 10 ^ k)" using assms(2) by (simp only: of_int_less_iff)
  then show "of_int d * 10 powi t < (of_int (m + 1) * 10 powi (int k + t) :: rat)"
    unfolding p by (simp flip: mult.assoc)
qed

lemma decimal_overflow:
  assumes "1 \<le> m" "308 < t" "of_int m * 10 powi t \<le> x"
  shows "f64_round neg x = Inf neg"
proof -
  have "(2 ^ 1024 :: rat) \<le> 10 ^ 309" by simp
  also have "\<dots> = 10 powi 309" by (simp add: power_int_numeral)
  also have "(10 :: rat) powi 309 \<le> 10 powi t" using assms(2) by (intro power_int_increasing) auto
  also have "\<dots> \<le> of_int m * 10 powi t" using assms(1) mult_right_mono [of 1 "of_int m" "10 powi t :: rat"] by simp
  also note assms(3)
  finally show ?thesis by (rule f64_round_overflow)
qed

lemma decimal_underflow:
  assumes "m < 10 ^ 18" "t < - 342" "0 \<le> x" "x < of_int (m + 1) * 10 powi t"
  shows "f64_round neg x = Fin neg 0"
proof -
  have "of_int (m + 1) \<le> (of_int (10 ^ 18) :: rat)" using assms(1) by (subst of_int_le_iff) simp
  then have "of_int (m + 1) * 10 powi t \<le> (of_int (10 ^ 18) * 10 powi t :: rat)"
    by (intro mult_right_mono) auto
  with assms(4) have "x \<le> of_int (10 ^ 18) * 10 powi t" by linarith
  then have "x \<le> 10 ^ 18 * 10 powi t" by simp
  also have "(10 :: rat) powi t \<le> 10 powi (- 343)" using assms(2) by (intro power_int_increasing) auto
  then have "10 ^ 18 * 10 powi t \<le> 10 ^ 18 * (10 powi (- 343) :: rat)" by (intro mult_left_mono) auto
  also have "10 ^ 18 * (10 powi (- 343) :: rat) \<le> 2 powi (- 1075)"
    by (simp add: power_int_minus power_int_numeral field_simps)
  finally show ?thesis using assms(3) by (intro f64_round_underflow)
qed

text \<open>The fast path: both operands are exact, so the one operation rounds the exact value.\<close>

lemma decimal_fast:
  assumes "0 \<le> m" "m < 10 ^ 15" "- 22 \<le> t" "t \<le> 22"
  shows "(if 0 < t then f64_mul (f64_of_u64 (word_of_int m)) (g_pow10 (nat t))
          else if t < 0 then f64_div (f64_of_u64 (word_of_int m)) (g_pow10 (nat (- t)))
          else f64_of_u64 (word_of_int m)) = f64_round False (of_int m * 10 powi t)"
proof -
  have m53: "m < 2 ^ 53" using assms(2) by simp
  note v = f64_of_u64_exact [OF assms(1) m53]
  consider "0 < t" | "t < 0" | "t = 0" by linarith
  then show ?thesis
  proof cases
    case 1
    then show ?thesis using assms g_pow10_exact [of "nat t"] by (simp add: v power_int_def)
  next
    case 2
    then have "(10 :: rat) powi t = 1 / 10 ^ nat (- t)" by (simp add: power_int_def field_simps)
    then show ?thesis using 2 assms g_pow10_exact [of "nat (- t)"] by (simp add: v)
  next
    case 3
    then show ?thesis using assms by (simp add: f64_of_u64_def uint_word_of_int_eq take_bit_int_eq_self)
  qed
qed

lemma finish_correct:
  assumes D: "digits D" and len: "length D \<le> 9000" "f \<le> length D"
    and x: "x = of_int (dec_val D) * 10 powi (e - int f)"
    and n: "n = (held D f)\<lparr>dec_offset := dec_offset (held D f) + max (- 10000) (min e 10000)\<rparr>"
    and strtod: "strtod_lane L src i = Some (f64_round neg x)"
  shows "finish_f64 L src i neg n = canon_f64 (f64_round neg x)"
proof -
  define m where "m = dec_val (take 18 (sig D))"
  define k where "k = length (sig D) - 18"
  define t where "t = int k + (e - int f)"
  note hv = held_value(1-4) [OF D, folded m_def k_def] held_value(5,6) [OF D, of f, folded m_def]
  have mant: "mantissa n = word_of_int m" "mant_digits n = min 18 (length (sig D))"
    using hv(6) by (simp_all add: n) (simp add: held_def)
  have off: "dec_offset n = int k - int f + max (- 10000) (min e 10000)" by (simp add: n held_def k_def)
  have "length (sig D) \<le> length D" by (simp add: sig_def length_dropWhile_le)
  then have k: "int k \<le> 9000" "int f \<le> 9000" using len by (simp_all add: k_def)
  have o1: "308 < dec_offset n \<Longrightarrow> 308 < t" and o2: "dec_offset n < - 342 \<Longrightarrow> t < - 342"
    and o3: "- 342 \<le> dec_offset n \<Longrightarrow> dec_offset n \<le> 308 \<Longrightarrow> t = dec_offset n"
    unfolding off t_def using k by (auto simp: max_def min_def split: if_splits)
  have lo: "of_int m * 10 powi t \<le> x" and hi: "x < of_int (m + 1) * 10 powi t"
    using scaled_bounds [OF hv(1,2), of "e - int f"] by (simp_all add: x t_def)
  have x0: "0 \<le> x" using dec_val_bounds(1) [OF D] by (simp add: x)
  have out: "canon_f64 (if neg then f64_neg (f64_round False y) else f64_round False y) = canon_f64 (f64_round neg y)" for y
    by (simp add: f64_neg_round)
  have "(10 :: int) ^ min 18 (length (sig D)) \<le> 10 ^ 18" by (intro power_increasing) auto
  then have m18: "m < 10 ^ 18" using hv(4) by simp
  show ?thesis
  proof (cases "mantissa n = 0")
    case True
    then have "sig D = []" using held_mantissa_zero [OF D, of f] by (simp add: n)
    then have "x = 0" using dec_val_sig [of D] by (simp add: x)
    then show ?thesis using True by (simp add: finish_f64_def canon_f64_def)
  next
    case False
    then have m1: "1 \<le> m" using hv(3) by (cases "m = 0") (simp_all add: mant)
    consider "308 < dec_offset n" | "dec_offset n \<le> 308" "dec_offset n < - 342"
      | "- 342 \<le> dec_offset n" "dec_offset n \<le> 308" by linarith
    then show ?thesis
    proof cases
      case 1
      then have "f64_round neg x = Inf neg" using decimal_overflow [OF m1 o1 lo] by blast
      then show ?thesis using 1 False by (simp add: finish_f64_def canon_f64_def)
    next
      case 2
      then have "f64_round neg x = Fin neg 0" using decimal_underflow [OF m18 o2 x0 hi] by blast
      then show ?thesis using 2 False by (simp add: finish_f64_def canon_f64_def)
    next
      case 3
      then have t: "t = dec_offset n" by (rule o3)
      show ?thesis
      proof (cases "mant_digits n \<le> 15 \<and> - 22 \<le> t \<and> t \<le> 22")
        case fast: True
        then have l: "length (sig D) \<le> 15" by (simp add: mant min_def split: if_splits)
        then have "k = 0" by (simp add: k_def)
        then have "dec_val D = m" using hv(1,2) by simp
        then have xm: "x = of_int m * 10 powi t" by (simp add: x t_def \<open>k = 0\<close>)
        have "(10 :: int) ^ min 18 (length (sig D)) \<le> 10 ^ 15" using l by (intro power_increasing) auto
        then have m15: "m < 10 ^ 15" using hv(4) by linarith
        have "finish_f64 L src i neg n = canon_f64 (if neg then f64_neg (f64_round False x) else f64_round False x)"
          using 3 fast False decimal_fast [OF hv(3) m15, of t]
          unfolding finish_f64_def Let_def mant(1) xm t [symmetric] by simp
        then show ?thesis by (simp only: out)
      next
        case slow: False
        then show ?thesis using 3 False strtod by (auto simp: finish_f64_def t)
      qed
    qed
  qed
qed

section \<open>The float parser\<close>

definition word_at :: "u8 list \<Rightarrow> nat \<Rightarrow> u8 list \<Rightarrow> bool" where
  "word_at src i w \<longleftrightarrow> list_all2 (\<lambda>c l. c = l \<or> c = l - 32) (take 3 (drop i src)) w"

definition parse_f64_spec :: "u8 list \<Rightarrow> (nat \<times> f64) option" where
  "parse_f64_spec src =
     (if src = [] then None
      else let (neg, i) = scan_sign src
           in if word_at src i [110, 97, 110] \<or> word_at src i [105, 110, 102] then Some (i + 3, NaN)
              else case decimal_text src i of
                     None \<Rightarrow> None
                   | Some (n, x) \<Rightarrow> Some (n, canon_f64 (f64_round neg x)))"

text \<open>What the parser relies on: \<open>strtod\<close> reads all of the text it is given and rounds its value.\<close>

definition strtod_rounds :: "libc \<Rightarrow> u8 list \<Rightarrow> bool" where
  "strtod_rounds L src \<longleftrightarrow>
     (case decimal_text src (snd (scan_sign src)) of
        None \<Rightarrow> True
      | Some (n, x) \<Rightarrow> strtod L (take n src) = (f64_round (fst (scan_sign src)) x, n))"

lemma take_3_drop:
  "i + 3 \<le> length src \<Longrightarrow> take 3 (drop i src) = [src ! i, src ! (i + 1), src ! (i + 2)]"
  by (rule nth_equalityI) (auto simp: less_Suc_eq numeral_eq_Suc)

lemma icmp3_word:
  "(i + 3 \<le> length src \<and> icmp3 src i 110 97 110) = word_at src i [110, 97, 110]"
  "(i + 3 \<le> length src \<and> icmp3 src i 105 110 102) = word_at src i [105, 110, 102]"
proof -
  have "i + 3 \<le> length src" if "word_at src i [a, b, c]" for a b c
    using that list_all2_lengthD by (fastforce simp: word_at_def)
  then show "(i + 3 \<le> length src \<and> icmp3 src i 110 97 110) = word_at src i [110, 97, 110]"
    "(i + 3 \<le> length src \<and> icmp3 src i 105 110 102) = word_at src i [105, 110, 102]"
    by (cases "i + 3 \<le> length src"; force simp: word_at_def icmp3_def take_3_drop)+
qed

text \<open>Both scans together, for every text.\<close>

lemma scan_digits_eq:
  "\<exists>D f k. scan_frac src (scan_int src i0) = (k, held D f, D \<noteq> []) \<and>
     digits D \<and> f \<le> length D \<and> length D \<le> length src \<and> length D \<le> k \<and> k \<le> max i0 (length src) \<and>
     decimal_text src i0 = (case exponent_text src k of (l, e) \<Rightarrow>
       if D = [] then None else Some (l, of_int (dec_val D) * 10 powi (e - int f)))"
proof -
  define I where "I = takeWhile IS_DIGIT (drop i0 src)"
  define j where "j = i0 + length I"
  have lenI: "length I \<le> length src - i0"
    using length_takeWhile_le [of IS_DIGIT "drop i0 src"] by (simp add: I_def)
  have dI: "digits I" by (simp add: I_def)
  have int: "scan_int src i0 = (j, held I 0, I \<noteq> [])" by (simp add: scan_int_eq I_def j_def Let_def)
  show ?thesis
  proof (cases "j < length src \<and> src ! j = 46")
    case False
    then have "scan_frac src (scan_int src i0) = (j, held I 0, I \<noteq> [])" by (auto simp: int scan_frac_def)
    moreover have "decimal_text src i0 = (case exponent_text src j of (l, e) \<Rightarrow>
       if I = [] then None else Some (l, of_int (dec_val I) * 10 powi (e - int 0)))"
      unfolding decimal_text_def Let_def I_def [symmetric] j_def [symmetric] using False by (auto split: prod.split)
    ultimately show ?thesis using lenI dI
      by (intro exI [of _ I] exI [of _ 0] exI [of _ j]) (auto simp: j_def)
  next
    case True
    define F where "F = takeWhile IS_DIGIT (drop (j + 1) src)"
    have lenF: "length F \<le> length src - (j + 1)"
      using length_takeWhile_le [of IS_DIGIT "drop (j + 1) src"] by (simp add: F_def)
    have dF: "digits F" by (simp add: F_def)
    have "scan_frac src (scan_int src i0) = (j + 1 + length F, held (I @ F) (length F), I @ F \<noteq> [])"
      using True scan_frac_digits [OF dI, of j src "I \<noteq> []"] by (auto simp: int F_def Let_def)
    moreover have "decimal_text src i0 = (case exponent_text src (j + 1 + length F) of (l, e) \<Rightarrow>
       if I @ F = [] then None else Some (l, of_int (dec_val (I @ F)) * 10 powi (e - int (length F))))"
      unfolding decimal_text_def Let_def I_def [symmetric] j_def [symmetric] F_def [symmetric]
      using True by (auto split: prod.split)
    moreover have "digits (I @ F)" using dI dF by auto
    ultimately show ?thesis using lenI lenF True
      by (intro exI [of _ "I @ F"] exI [of _ "length F"] exI [of _ "j + 1 + length F"]) (auto simp: j_def)
  qed
qed

lemma exponent_text_end: "k \<le> length src \<Longrightarrow> exponent_text src k = (l, e) \<Longrightarrow> k \<le> l \<and> l \<le> length src"
proof -
  assume k: "k \<le> length src" and e: "exponent_text src k = (l, e)"
  define s where "s = (if k + 1 < length src \<and> (src ! (k + 1) = 45 \<or> src ! (k + 1) = 43) then k + 2 else k + 1)"
  have "length (takeWhile IS_DIGIT (drop s src)) \<le> length src - s"
    using length_takeWhile_le [of IS_DIGIT "drop s src"] by simp
  moreover have "k \<le> s" by (simp add: s_def)
  moreover have "l = k \<or> k < length src \<and> l = s + length (takeWhile IS_DIGIT (drop s src)) \<and>
      takeWhile IS_DIGIT (drop s src) \<noteq> []"
    using e unfolding exponent_text_def Let_def s_def [symmetric] by (auto split: if_splits)
  ultimately show ?thesis using k by (auto simp: s_def split: if_splits)
qed


lemma scan_sign_le: "src \<noteq> [] \<Longrightarrow> snd (scan_sign src) \<le> length src"
  by (cases src) (auto simp: scan_sign_def)

lemma finish_not_inf: "finish_f64 L src i neg n = NaN \<or> f64_finite (finish_f64 L src i neg n)"
  by (auto simp: finish_f64_def canon_f64_def Let_def split: option.split)

text \<open>
  C21.  Under a \<^verbatim>\<open>strtod\<close> that rounds correctly, on texts of at most 9000 bytes, the float parser stores the correctly rounded double
  of the decimal text: sixteen-digit SWAR chunks, the 18-digit mantissa, the table of powers of ten,
  the cut-offs at \<^verbatim>\<open>1e308\<close> and \<^verbatim>\<open>1e-342\<close> and the cap on exponents never change the value.  What no
  finite double holds becomes the null, and so do the words nan and inf.
\<close>

theorem parse_f64_correct:
  assumes strtod: "strtod_rounds L src" and alloc: "\<forall>n. alloc_ok L n" and len: "length src \<le> 9000"
  shows "ray_parse_f64 L src = parse_f64_spec src"
proof (cases "src = []")
  case False
  obtain neg i0 where s: "scan_sign src = (neg, i0)" by force
  have i0: "i0 \<le> length src" using scan_sign_le [OF False] s by simp
  obtain D f k where D: "scan_frac src (scan_int src i0) = (k, held D f, D \<noteq> [])" "digits D" "f \<le> length D"
    "length D \<le> length src"
    "decimal_text src i0 = (case exponent_text src k of (l, e) \<Rightarrow>
       if D = [] then None else Some (l, of_int (dec_val D) * 10 powi (e - int f)))"
    using scan_digits_eq by blast
  obtain l e where le: "exponent_text src k = (l, e)" by force
  define x where "x = (of_int (dec_val D) * 10 powi (e - int f) :: rat)"
  have dt: "decimal_text src i0 = (if D = [] then None else Some (l, x))" using D(5) le by (simp add: x_def)
  have none: "D = []" if "i0 = length src"
  proof -
    have "decimal_text src i0 = None" using that by (auto simp: decimal_text_def Let_def split: prod.split)
    then show ?thesis by (simp add: dt split: if_splits)
  qed
  have fin: "finish_f64 L src l neg ((held D f)\<lparr>dec_offset := dec_offset (held D f) + max (- 10000) (min e 10000)\<rparr>)
      = canon_f64 (f64_round neg x)" if "D \<noteq> []"
  proof (rule finish_correct [OF D(2) _ D(3) x_def refl])
    show "length D \<le> 9000" using D(4) len by simp
    show "strtod_lane L src l = Some (f64_round neg x)"
      using strtod alloc that by (simp add: strtod_lane_def strtod_rounds_def s dt)
  qed
  show ?thesis
    unfolding ray_parse_f64_def parse_f64_spec_def icmp3_word s prod.case Let_def D(1) scan_exp_eq le dt
    using False none fin by auto
qed (simp add: ray_parse_f64_def parse_f64_spec_def)

definition libc_250 :: libc where
  "libc_250 = \<lparr>strtod = (\<lambda>t. (f64_round False 250, length t)), pow10 = g_pow10, alloc_ok = (\<lambda>_. True)\<rparr>"

lemma text_250:
  "scan_sign [50, 53, 101, 49] = (False, 0)" "decimal_text [50, 53, 101, 49] 0 = Some (4, 250)"
  "\<not> word_at [50, 53, 101, 49] 0 [110, 97, 110]" "\<not> word_at [50, 53, 101, 49] 0 [105, 110, 102]"
  by (simp_all add: scan_sign_def decimal_text_def exponent_text_def IS_DIGIT_def dec_val_def word_at_def Let_def)

theorem parse_f64_correct_witness:
  "strtod_rounds libc_250 [50, 53, 101, 49] \<and>
   ray_parse_f64 libc_250 [50, 53, 101, 49] = Some (4, Fin False 250)"
proof -
  have r: "strtod_rounds libc_250 [50, 53, 101, 49]"
    by (simp add: strtod_rounds_def text_250 libc_250_def)
  moreover have "parse_f64_spec [50, 53, 101, 49] = Some (4, Fin False 250)"
    using f64_round_exact [of 250 0 False] by (simp add: parse_f64_spec_def text_250 canon_f64_def)
  ultimately show ?thesis
    using parse_f64_correct [of libc_250 "[50, 53, 101, 49]"] by (simp add: libc_250_def)
qed

text \<open>
  C36.  Whatever the C library returns, a parse that succeeds consumes at least one byte and no more
  than the buffer, and what it stores is a finite double or the null: no infinity enters a column.
\<close>

theorem parse_f64_domain:
  assumes "ray_parse_f64 L src = Some (n, v)"
  shows "0 < n \<and> n \<le> length src \<and> (v = NaN \<or> f64_finite v)"
proof -
  have ne: "src \<noteq> []" using assms by (auto simp: ray_parse_f64_def)
  obtain neg i0 where s: "scan_sign src = (neg, i0)" by force
  have i0: "i0 \<le> length src" using scan_sign_le [OF ne] s by simp
  obtain D f k where D: "scan_frac src (scan_int src i0) = (k, held D f, D \<noteq> [])"
    "length D \<le> k" "k \<le> max i0 (length src)"
    using scan_digits_eq by blast
  obtain l e where le: "exponent_text src k = (l, e)" by force
  have l: "k \<le> l" "l \<le> length src" using exponent_text_end [OF _ le] D(3) i0 by auto
  consider "n = i0 + 3" "i0 + 3 \<le> length src" "v = NaN"
    | "D \<noteq> []" "n = l" "v = finish_f64 L src l neg ((held D f)\<lparr>dec_offset := dec_offset (held D f) + max (- 10000) (min e 10000)\<rparr>)"
    using assms ne unfolding ray_parse_f64_def s prod.case Let_def D(1) scan_exp_eq le
    by (auto split: if_splits)
  then show ?thesis
  proof cases
    case 2
    then have "0 < n" using D(2) l by (cases D) auto
    then show ?thesis using 2 l finish_not_inf by blast
  qed auto
qed


theorem parse_f64_domain_witness:
  "ray_parse_f64 libc_250 [45, 78, 97, 110] = Some (4, NaN) \<and> 4 \<le> length [45, 78, 97, 110 :: u8]"
proof -
  have "ray_parse_f64 libc_250 [45, 78, 97, 110] = Some (4, NaN)"
    by (simp add: ray_parse_f64_def scan_sign_def icmp3_def)
  with parse_f64_domain [of libc_250 "[45, 78, 97, 110]" 4 NaN] show ?thesis by simp
qed

end
