(* ===== verification/Arena.thy ===== *)
theory Arena
  imports Prelude
begin

text \<open>
  Bump allocation and the string atoms that live in it: the page-rounded system allocator
  (\<^verbatim>\<open>mem/sys.c\<close>), the arena of chunks (\<^verbatim>\<open>mem/arena.c\<close>) and the reading and comparison of string
  atoms (\<^verbatim>\<open>vec/str.c\<close>).

  A \<^verbatim>\<open>size_t\<close> is a 64-bit word and wraps; an address is a natural number.  The operating system's
  \<^verbatim>\<open>mmap\<close> is the parameter \<open>vm\<close>: given the live mappings and a size it returns an address or
  fails.  The linked list of chunks is a list whose head is the current chunk, and the headers of
  mappings and chunks are kept beside the memory, which holds the blocks: one byte per address, so a
  store into one object shows in every other object it overlaps.
\<close>

unbundle bit_operations_syntax

type_synonym size_t = u64

abbreviation (input) SIZE_MAX :: size_t where
  "SIZE_MAX \<equiv> - 1"

section \<open>System blocks\<close>

record sysmap =
  vaddr :: nat
  map_size :: size_t
  usr_size :: size_t

type_synonym vm = "sysmap list \<Rightarrow> size_t \<Rightarrow> nat option"

abbreviation (input) SYS_HDR_SIZE :: size_t where
  "SYS_HDR_SIZE \<equiv> 32"

definition page_round :: "size_t \<Rightarrow> size_t" where
  "page_round n = (n + 4095) AND NOT 4095"

definition ray_sys_alloc :: "vm \<Rightarrow> sysmap list \<Rightarrow> size_t \<Rightarrow> nat option \<times> sysmap list" where
  "ray_sys_alloc vm maps sz =
     (let sz = if sz = 0 then 1 else sz
      in if SIZE_MAX - SYS_HDR_SIZE < sz then (None, maps)
         else let total = page_round (SYS_HDR_SIZE + sz)
              in case vm maps total of
                   None \<Rightarrow> (None, maps)
                 | Some p \<Rightarrow> (Some (p + unat SYS_HDR_SIZE),
                              \<lparr>vaddr = p, map_size = total, usr_size = sz\<rparr> # maps))"

definition ray_sys_free :: "sysmap list \<Rightarrow> nat \<Rightarrow> sysmap list" where
  "ray_sys_free maps ptr =
     (if ptr = 0 then maps else filter (\<lambda>m. vaddr m \<noteq> ptr - unat SYS_HDR_SIZE) maps)"

section \<open>The arena\<close>

record arena_chunk =
  caddr :: nat
  cap :: size_t
  used :: size_t

record arena =
  self :: nat
  chunks :: "arena_chunk list"
  chunk_size :: size_t

record memory =
  maps :: "sysmap list"
  mem :: "nat \<Rightarrow> u8"

definition mem_read :: "(nat \<Rightarrow> u8) \<Rightarrow> nat \<Rightarrow> nat \<Rightarrow> u8 list" where
  "mem_read h p n = map (\<lambda>k. h (p + k)) [0..<n]"

definition mem_write :: "memory \<Rightarrow> nat \<Rightarrow> u8 list \<Rightarrow> memory" where
  "mem_write m p bs =
     m\<lparr>mem := (\<lambda>q. if p \<le> q \<and> q < p + length bs then bs ! (q - p) else mem m q)\<rparr>"

text \<open>
  The header of an object: 16 auxiliary bytes, two bytes of the allocator, the type, the attributes, the
  reference count and the 8-byte union that holds a short string (its length, then its characters), a
  pointer or a vector's length.  The data of a vector follows.
\<close>

abbreviation (input) TYPE_AT :: "nat \<Rightarrow> nat" where "TYPE_AT v \<equiv> v + 18"
abbreviation (input) ATTRS_AT :: "nat \<Rightarrow> nat" where "ATTRS_AT v \<equiv> v + 19"
abbreviation (input) RC_AT :: "nat \<Rightarrow> nat" where "RC_AT v \<equiv> v + 20"
abbreviation (input) VAL_AT :: "nat \<Rightarrow> nat" where "VAL_AT v \<equiv> v + 24"

text \<open>The eight bytes of a pointer or a length, least significant first.\<close>

definition le_bytes :: "nat \<Rightarrow> u8 list" where
  "le_bytes n = map (\<lambda>k. word_of_nat (n div 256 ^ k)) [0..<8]"

definition le_value :: "u8 list \<Rightarrow> nat" where
  "le_value bs = horner_sum unat 256 bs"

abbreviation read_u64 :: "(nat \<Rightarrow> u8) \<Rightarrow> nat \<Rightarrow> nat" where
  "read_u64 h p \<equiv> le_value (mem_read h p 8)"

abbreviation (input) RAY_ATTR_SLICE :: u8 where
  "RAY_ATTR_SLICE \<equiv> 0x10"

abbreviation (input) RAY_ERROR :: int where
  "RAY_ERROR \<equiv> 127"

definition obj_type :: "(nat \<Rightarrow> u8) \<Rightarrow> nat \<Rightarrow> int" where
  "obj_type h v = sint (h (TYPE_AT v))"

definition type_byte :: "int \<Rightarrow> u8" where
  "type_byte t = word_of_int t"

definition RAY_IS_ERR :: "(nat \<Rightarrow> u8) \<Rightarrow> nat \<Rightarrow> bool" where
  "RAY_IS_ERR h p \<longleftrightarrow> p \<noteq> 0 \<and> p > 31 \<and> obj_type h p = RAY_ERROR"

text \<open>The data of a vector of bytes, whose elements have size 1.\<close>

definition ray_data :: "(nat \<Rightarrow> u8) \<Rightarrow> nat \<Rightarrow> nat" where
  "ray_data h v =
     (if h (ATTRS_AT v) AND RAY_ATTR_SLICE \<noteq> 0 then read_u64 h v + 32 + read_u64 h (v + 8) else v + 32)"

abbreviation (input) RAY_ATTR_ARENA :: u8 where
  "RAY_ATTR_ARENA \<equiv> 0x80"

abbreviation (input) RAY_STR :: int where
  "RAY_STR \<equiv> 13"

abbreviation (input) RAY_U8 :: int where
  "RAY_U8 \<equiv> 2"

definition ARENA_ALIGN_UP :: "size_t \<Rightarrow> size_t" where
  "ARENA_ALIGN_UP x = (x + 32 - 1) AND NOT (32 - 1)"

text \<open>Three words make a chunk header of 24 bytes, so its data starts at offset 32.\<close>

definition chunk_hdr :: size_t where
  "chunk_hdr = ARENA_ALIGN_UP 24"

definition chunk_data :: "arena_chunk \<Rightarrow> nat" where
  "chunk_data c = caddr c + unat chunk_hdr"

definition arena_new_chunk :: "vm \<Rightarrow> memory \<Rightarrow> size_t \<Rightarrow> arena_chunk option \<times> memory" where
  "arena_new_chunk vm m min_cap =
     (if SIZE_MAX - chunk_hdr < min_cap then (None, m)
      else case ray_sys_alloc vm (maps m) (chunk_hdr + min_cap) of
             (None, ms) \<Rightarrow> (None, m\<lparr>maps := ms\<rparr>)
           | (Some p, ms) \<Rightarrow> (Some \<lparr>caddr = p, cap = min_cap, used = 0\<rparr>, m\<lparr>maps := ms\<rparr>))"

definition ray_arena_new :: "vm \<Rightarrow> memory \<Rightarrow> size_t \<Rightarrow> arena option \<times> memory" where
  "ray_arena_new vm m csize =
     (let csize = ARENA_ALIGN_UP (if csize < 256 then 256 else csize)
      in case ray_sys_alloc vm (maps m) 16 of
           (None, ms) \<Rightarrow> (None, m\<lparr>maps := ms\<rparr>)
         | (Some a, ms) \<Rightarrow>
             (case arena_new_chunk vm (m\<lparr>maps := ms\<rparr>) csize of
                (None, m) \<Rightarrow> (None, m\<lparr>maps := ray_sys_free (maps m) a\<rparr>)
              | (Some first, m) \<Rightarrow> (Some \<lparr>self = a, chunks = [first], chunk_size = csize\<rparr>, m)))"

text \<open>Bumping the head chunk by one block and clearing its header.\<close>

definition arena_bump :: "arena \<Rightarrow> memory \<Rightarrow> size_t \<Rightarrow> nat option \<times> arena \<times> memory" where
  "arena_bump a m block_size =
     (let c = hd (chunks a);
          v = chunk_data c + unat (used c)
      in (Some v, a\<lparr>chunks := c\<lparr>used := used c + block_size\<rparr> # tl (chunks a)\<rparr>,
          mem_write (mem_write (mem_write m v (replicate 32 0)) (ATTRS_AT v) [RAY_ATTR_ARENA]) (RC_AT v) [1, 0, 0, 0]))"

definition ray_arena_alloc :: "vm \<Rightarrow> arena \<Rightarrow> memory \<Rightarrow> size_t \<Rightarrow> nat option \<times> arena \<times> memory" where
  "ray_arena_alloc vm a m nbytes =
     (if SIZE_MAX - 32 - (32 - 1) < nbytes then (None, a, m)
      else let block_size = ARENA_ALIGN_UP (32 + nbytes);
               c = hd (chunks a)
           in if cap c < used c + block_size
              then let new_cap = if chunk_size a < block_size then ARENA_ALIGN_UP block_size else chunk_size a
                   in case arena_new_chunk vm m new_cap of
                        (None, m) \<Rightarrow> (None, a, m)
                      | (Some nc, m) \<Rightarrow> arena_bump (a\<lparr>chunks := nc # chunks a\<rparr>) m block_size
              else arena_bump a m block_size)"

definition ray_arena_reserve :: "vm \<Rightarrow> arena \<Rightarrow> memory \<Rightarrow> size_t \<Rightarrow> bool \<times> arena \<times> memory" where
  "ray_arena_reserve vm a m bytes =
     (if bytes = 0 then (True, a, m)
      else if chunks a \<noteq> [] \<and> bytes \<le> cap (hd (chunks a)) - used (hd (chunks a)) then (True, a, m)
      else let new_cap = if chunk_size a < bytes then ARENA_ALIGN_UP bytes else chunk_size a
           in case arena_new_chunk vm m new_cap of
                (None, m) \<Rightarrow> (False, a, m)
              | (Some nc, m) \<Rightarrow> (True, a\<lparr>chunks := nc # chunks a\<rparr>, m))"

definition ray_arena_total_used :: "arena \<Rightarrow> size_t" where
  "ray_arena_total_used a = foldl (\<lambda>total c. total + used c) 0 (chunks a)"

definition free_chunks :: "arena_chunk list \<Rightarrow> memory \<Rightarrow> memory" where
  "free_chunks cs m = foldl (\<lambda>m c. m\<lparr>maps := ray_sys_free (maps m) (caddr c)\<rparr>) m cs"

definition ray_arena_reset :: "arena \<Rightarrow> memory \<Rightarrow> arena \<times> memory" where
  "ray_arena_reset a m =
     (if chunks a = [] then (a, m)
      else let keep = hd (chunks a)
           in (a\<lparr>chunks := [keep\<lparr>used := 0\<rparr>]\<rparr>, free_chunks (tl (chunks a)) m))"

definition ray_arena_destroy :: "arena \<Rightarrow> memory \<Rightarrow> memory" where
  "ray_arena_destroy a m =
     (let m = free_chunks (chunks a) m in m\<lparr>maps := ray_sys_free (maps m) (self a)\<rparr>)"

section \<open>String atoms\<close>

text \<open>
  A string of up to six bytes lies in the header.  A longer one has its characters in a vector of
  bytes, and the header that points to it in the same block, behind the characters.
\<close>

definition ray_arena_str :: "vm \<Rightarrow> arena \<Rightarrow> memory \<Rightarrow> u8 list \<Rightarrow> nat option \<times> arena \<times> memory" where
  "ray_arena_str vm a m s =
     (let len = length s
      in if len < 7
         then case ray_arena_alloc vm a m 0 of
                (None, a, m) \<Rightarrow> (None, a, m)
              | (Some v, a, m) \<Rightarrow>
                  let m = mem_write m (TYPE_AT v) [type_byte (- RAY_STR)];
                      m = mem_write m (VAL_AT v) [word_of_nat len];
                      m = (if len > 0 then mem_write m (VAL_AT v + 1) s else m);
                      m = mem_write m (VAL_AT v + 1 + len) [0]
                  in (Some v, a, m)
         else let data_size = word_of_nat len + 1;
                  chars_block = (32 + data_size + 31) AND NOT 31
              in case ray_arena_alloc vm a m chars_block of
                   (None, a, m) \<Rightarrow> (None, a, m)
                 | (Some chars, a, m) \<Rightarrow>
                     let m = mem_write m (TYPE_AT chars) [type_byte RAY_U8];
                         m = mem_write m (VAL_AT chars) (le_bytes len);
                         m = mem_write m (ray_data (mem m) chars) s;
                         m = mem_write m (ray_data (mem m) chars + len) [0];
                         v = chars + unat chars_block;
                         m = mem_write m v (replicate 32 0);
                         m = mem_write m (ATTRS_AT v) [RAY_ATTR_ARENA];
                         m = mem_write m (RC_AT v) [1, 0, 0, 0];
                         m = mem_write m (TYPE_AT v) [type_byte (- RAY_STR)];
                         m = mem_write m (VAL_AT v) (le_bytes chars)
                     in (Some v, a, m))"

definition is_sso :: "(nat \<Rightarrow> u8) \<Rightarrow> nat \<Rightarrow> bool" where
  "is_sso h s \<longleftrightarrow>
     (let slen = h (VAL_AT s)
      in 1 \<le> slen \<and> slen \<le> 7 \<or> slen = 0 \<and> read_u64 h (VAL_AT s) = 0)"

text \<open>The address of the characters, 0 for none, and their number.\<close>

definition ray_str_ptr :: "(nat \<Rightarrow> u8) \<Rightarrow> nat \<Rightarrow> nat" where
  "ray_str_ptr h s =
     (if s = 0 \<or> RAY_IS_ERR h s then 0
      else if is_sso h s then VAL_AT s + 1
      else ray_data h (read_u64 h (VAL_AT s)))"

definition ray_str_len :: "(nat \<Rightarrow> u8) \<Rightarrow> nat \<Rightarrow> nat" where
  "ray_str_len h s =
     (if s = 0 \<or> RAY_IS_ERR h s then 0
      else if is_sso h s then unat (h (VAL_AT s))
      else read_u64 h (VAL_AT (read_u64 h (VAL_AT s))))"

definition str_bytes :: "(nat \<Rightarrow> u8) \<Rightarrow> nat \<Rightarrow> u8 list" where
  "str_bytes h s = mem_read h (ray_str_ptr h s) (ray_str_len h s)"

text \<open>\<^verbatim>\<open>memcmp\<close>: the difference of the first bytes that differ.\<close>

fun memcmp :: "u8 list \<Rightarrow> u8 list \<Rightarrow> nat \<Rightarrow> int" where
  "memcmp (x # xs) (y # ys) (Suc n) = (if x = y then memcmp xs ys n else uint x - uint y)"
| "memcmp _ _ _ = 0"

definition ray_str_cmp :: "(nat \<Rightarrow> u8) \<Rightarrow> nat \<Rightarrow> nat \<Rightarrow> int" where
  "ray_str_cmp h a b =
     (if a = 0 \<or> RAY_IS_ERR h a \<or> b = 0 \<or> RAY_IS_ERR h b then 0
      else let ap = ray_str_ptr h a; bp = ray_str_ptr h b;
               alen = ray_str_len h a; blen = ray_str_len h b;
               d = if alen > 0 \<and> blen > 0 then uint (h ap) - uint (h bp) else 0
           in if d \<noteq> 0 then d
              else let minlen = (if alen < blen then alen else blen);
                       c = if minlen > 1 then memcmp (mem_read h (ap + 1) (minlen - 1)) (mem_read h (bp + 1) (minlen - 1)) (minlen - 1)
                           else 0
                   in if c \<noteq> 0 then c else if alen < blen then - 1 else if alen > blen then 1 else 0)"

section \<open>Bytes of the memory\<close>

lemma length_mem_read [simp]: "length (mem_read h p n) = n"
  by (simp add: mem_read_def)

lemma nth_mem_read [simp]: "k < n \<Longrightarrow> mem_read h p n ! k = h (p + k)"
  by (simp add: mem_read_def)

lemma mem_read_0 [simp]: "mem_read h p 0 = []"
  by (simp add: mem_read_def)

lemma mem_read_Suc: "mem_read h p (Suc n) = h p # mem_read h (Suc p) n"
  by (rule nth_equalityI) (auto simp: nth_Cons split: nat.splits)

lemma mem_read_eqI: "(\<And>q. p \<le> q \<Longrightarrow> q < p + n \<Longrightarrow> h q = h' q) \<Longrightarrow> mem_read h p n = mem_read h' p n"
  by (simp add: mem_read_def)

lemma maps_mem_write [simp]: "maps (mem_write m p bs) = maps m"
  by (simp add: mem_write_def)

lemma mem_write_at: "mem (mem_write m p bs) q = (if p \<le> q \<and> q < p + length bs then bs ! (q - p) else mem m q)"
  by (simp add: mem_write_def)

lemma mem_write_Nil [simp]: "mem_write m p [] = m"
  by (cases m) (auto simp: mem_write_def fun_eq_iff)

lemma mem_write_outside [simp]: "q < p \<or> p + length bs \<le> q \<Longrightarrow> mem (mem_write m p bs) q = mem m q"
  by (auto simp: mem_write_at)

lemma mem_read_same [simp]: "mem_read (mem (mem_write m p bs)) p (length bs) = bs"
  by (rule nth_equalityI) (simp_all add: mem_write_at)

lemma mem_read_same_n: "n = length bs \<Longrightarrow> mem_read (mem (mem_write m p bs)) p n = bs"
  by simp

lemma mem_read_outside [simp]:
  "q + n \<le> p \<or> p + length bs \<le> q \<Longrightarrow> mem_read (mem (mem_write m p bs)) q n = mem_read (mem m) q n"
  by (intro mem_read_eqI) (auto simp: mem_write_at)

section \<open>Rounding up\<close>

lemma unat_bound: "unat a < 2 ^ LENGTH('a)" for a :: "'a::len word"
  by (rule unsigned_less)

lemma unat_and_not_mask:
  fixes a :: "'a::len word"
  shows "unat (a AND NOT (mask n)) = unat a div 2 ^ n * 2 ^ n"
proof (cases "n < LENGTH('a)")
  case True
  have "a AND NOT (mask n) = push_bit n (drop_bit n a)"
    by (rule bit_word_eqI) (auto simp: bit_simps)
  moreover have "unat (drop_bit n a) = unat a div 2 ^ n" by (simp add: unat_drop_bit_eq drop_bit_eq_div [where 'a = nat])
  moreover have "unat a div 2 ^ n * 2 ^ n < 2 ^ LENGTH('a)"
    using unat_bound [of a] by (meson div_times_less_eq_dividend le_less_trans)
  ultimately show ?thesis
    by (simp only: unsigned_push_bit_eq push_bit_eq_mult [where 'a = nat] take_bit_nat_eq_self)
next
  case False
  then have "a AND NOT (mask n) = 0" by (intro bit_word_eqI) (auto simp: bit_simps)
  moreover have "unat a < 2 ^ n"
    using unat_bound [of a] False
    by (meson le_less_trans less_le_trans linorder_not_less one_le_numeral power_increasing)
  ultimately show ?thesis by simp
qed

text \<open>The least multiple of 32 that is not below a size.\<close>

definition up32 :: "nat \<Rightarrow> nat" where
  "up32 n = (n + 31) div 32 * 32"

lemma up32_bounds: "n \<le> up32 n" "up32 n \<le> n + 31" "32 dvd up32 n"
  by (simp_all add: up32_def)

lemma up32_mult [simp]: "32 dvd n \<Longrightarrow> up32 n = n"
  by (auto simp: up32_def elim!: dvdE)

lemma unat_ARENA_ALIGN_UP:
  assumes "unat x + 31 < 2 ^ 64"
  shows "unat (ARENA_ALIGN_UP x) = up32 (unat x)"
proof -
  have "unat (x + 31) = unat x + 31" using assms by (subst unat_plus_simple [THEN iffD1]) (auto simp: no_olen_add_nat)
  moreover have "ARENA_ALIGN_UP x = (x + 31) AND NOT (mask 5)"
    by (simp add: ARENA_ALIGN_UP_def mask_eq_exp_minus_1 add.commute)
  ultimately show ?thesis by (simp add: unat_and_not_mask up32_def)
qed

lemma chunk_hdr_32: "chunk_hdr = 32"
  by (simp add: chunk_hdr_def ARENA_ALIGN_UP_def)

lemma page_round_cases:
  assumes "page_round n \<noteq> 0"
  shows "unat n \<le> unat (page_round n)"
proof -
  have p: "page_round n = (n + 4095) AND NOT (mask 12)" by (simp add: page_round_def mask_eq_exp_minus_1)
  have u: "unat (n + 4095) = (unat n + 4095) mod 2 ^ 64" by (simp add: unat_word_ariths)
  show ?thesis
  proof (cases "unat n + 4095 < 2 ^ 64")
    case True
    then have "unat (page_round n) = (unat n + 4095) div 4096 * 4096" by (simp add: p unat_and_not_mask u)
    then show ?thesis
      using div_mult_mod_eq [of "unat n + 4095" 4096] mod_less_divisor [of 4096 "unat n + 4095"] by linarith
  next
    case False
    have "unat n < 2 ^ 64" using unat_bound [of n] by simp
    then have "unat (n + 4095) < 4096" using False by (simp add: u le_mod_geq)
    then have "unat (page_round n) = 0" by (simp add: p unat_and_not_mask)
    then show ?thesis using assms by (simp add: unat_eq_zero)
  qed
qed


section \<open>Mappings\<close>

text \<open>Two ranges, each an address and a size, that share no byte.\<close>

definition disj :: "nat \<times> nat \<Rightarrow> nat \<times> nat \<Rightarrow> bool" where
  "disj r s \<longleftrightarrow> fst r + snd r \<le> fst s \<or> fst s + snd s \<le> fst r"

abbreviation (input) map_range :: "sysmap \<Rightarrow> nat \<times> nat" where
  "map_range m \<equiv> (vaddr m, unat (map_size m))"

text \<open>
  What the system allocator relies on: \<^verbatim>\<open>mmap\<close> fails on an empty request and otherwise returns a
  page in the lower half of the address space whose range meets no live mapping.
\<close>

definition vm_ok :: "vm \<Rightarrow> bool" where
  "vm_ok vm \<longleftrightarrow> (\<forall>ms n p. vm ms n = Some p \<longrightarrow>
     n \<noteq> 0 \<and> 4096 dvd p \<and> 0 < p \<and> p + unat n \<le> 2 ^ 63 \<and> (\<forall>m \<in> set ms. disj (p, unat n) (map_range m)))"

definition maps_ok :: "sysmap list \<Rightarrow> bool" where
  "maps_ok ms \<longleftrightarrow> sorted_wrt (\<lambda>m m'. disj (map_range m) (map_range m')) ms \<and>
     (\<forall>m \<in> set ms. 0 < unat (map_size m) \<and> 4096 dvd vaddr m \<and> 0 < vaddr m \<and> vaddr m + unat (map_size m) \<le> 2 ^ 63)"

lemma sys_alloc_ok:
  assumes "ray_sys_alloc vm ms sz = (Some q, ms')" "vm_ok vm" "maps_ok ms"
  obtains m where "ms' = m # ms" "q = vaddr m + 32" "32 + unat sz \<le> unat (map_size m)" "maps_ok ms'"
    "\<forall>m' \<in> set ms. disj (map_range m) (map_range m')"
proof -
  define s where "s = (if sz = 0 then 1 else sz)"
  have ns: "\<not> SIZE_MAX - 32 < s" using assms(1) by (auto simp: ray_sys_alloc_def Let_def s_def split: if_splits)
  let ?t = "page_round (32 + s)"
  obtain p where p: "vm ms ?t = Some p" and r: "q = p + 32" "ms' = \<lparr>vaddr = p, map_size = ?t, usr_size = s\<rparr> # ms"
    using assms(1) ns by (auto simp: ray_sys_alloc_def Let_def s_def [symmetric] split: option.splits)
  have v: "?t \<noteq> 0" "4096 dvd p" "0 < p" "p + unat ?t \<le> 2 ^ 63" "\<forall>m \<in> set ms. disj (p, unat ?t) (map_range m)"
    using assms(2) p unfolding vm_ok_def by blast+
  have "unat s \<le> 2 ^ 64 - 1 - 32" using ns by (simp add: word_less_nat_alt not_less)
  then have "unat (32 + s) = 32 + unat s" by (subst unat_plus_simple [THEN iffD1]) (auto simp: no_olen_add_nat)
  moreover have "unat (32 + s) \<le> unat ?t" using v(1) by (rule page_round_cases)
  moreover have "unat sz \<le> unat s" by (simp add: s_def)
  moreover have "maps_ok ms'" using assms(3) v by (auto simp: maps_ok_def r unat_gt_0)
  ultimately show thesis using that [of "\<lparr>vaddr = p, map_size = ?t, usr_size = s\<rparr>"] r v(5) by simp
qed

lemma sys_alloc_None: "ray_sys_alloc vm ms sz = (None, ms') \<Longrightarrow> ms' = ms"
  by (auto simp: ray_sys_alloc_def Let_def split: if_splits option.splits)

lemma maps_ok_free: "maps_ok ms \<Longrightarrow> maps_ok (ray_sys_free ms p)"
  by (auto simp: maps_ok_def ray_sys_free_def sorted_wrt_filter)


section \<open>The arena invariant\<close>

definition chunk_ok :: "sysmap list \<Rightarrow> arena_chunk \<Rightarrow> bool" where
  "chunk_ok ms c \<longleftrightarrow>
     (\<exists>m \<in> set ms. caddr c = vaddr m + 32 \<and> 64 + unat (cap c) \<le> unat (map_size m)) \<and>
     unat (used c) \<le> unat (cap c) \<and> 32 dvd unat (used c)"

text \<open>A range of bytes that the chunks have given out.\<close>

definition given :: "arena \<Rightarrow> nat \<Rightarrow> nat \<Rightarrow> bool" where
  "given a p n \<longleftrightarrow> (\<exists>c \<in> set (chunks a). chunk_data c \<le> p \<and> p + n \<le> chunk_data c + unat (used c))"

definition arena_ok :: "arena \<Rightarrow> memory \<Rightarrow> bool" where
  "arena_ok a m \<longleftrightarrow> maps_ok (maps m) \<and> chunks a \<noteq> [] \<and> (\<forall>c \<in> set (chunks a). chunk_ok (maps m) c) \<and>
     distinct (map caddr (chunks a))"

lemma disj_sym: "disj r s \<longleftrightarrow> disj s r"
  by (auto simp: disj_def)

lemma maps_disj:
  "maps_ok ms \<Longrightarrow> m \<in> set ms \<Longrightarrow> m' \<in> set ms \<Longrightarrow> vaddr m \<noteq> vaddr m' \<Longrightarrow> disj (map_range m) (map_range m')"
proof (induction ms)
  case (Cons x ms)
  then have "maps_ok ms" by (simp add: maps_ok_def)
  with Cons show ?case by (auto simp: maps_ok_def disj_sym)
qed simp

lemma chunk_data_eq: "chunk_data c = caddr c + 32"
  by (simp add: chunk_data_def chunk_hdr_32)

lemma chunks_disj:
  assumes "maps_ok ms" "chunk_ok ms c" "chunk_ok ms c'" "caddr c \<noteq> caddr c'"
  shows "disj (chunk_data c, unat (cap c)) (chunk_data c', unat (cap c'))"
proof -
  obtain m m' where m: "m \<in> set ms" "caddr c = vaddr m + 32" "64 + unat (cap c) \<le> unat (map_size m)"
    "m' \<in> set ms" "caddr c' = vaddr m' + 32" "64 + unat (cap c') \<le> unat (map_size m')"
    using assms(2,3) by (auto simp: chunk_ok_def)
  have "disj (map_range m) (map_range m')" using assms(1,4) m by (intro maps_disj) auto
  then show ?thesis using m by (auto simp: disj_def chunk_data_eq)
qed

lemma chunk_ok_mono: "chunk_ok ms c \<Longrightarrow> set ms \<subseteq> set ms' \<Longrightarrow> chunk_ok ms' c"
  by (auto simp: chunk_ok_def)

lemma chunk_facts:
  assumes "maps_ok ms" "chunk_ok ms c"
  shows "32 dvd chunk_data c" "0 < chunk_data c" "chunk_data c + unat (cap c) \<le> 2 ^ 63"
proof -
  obtain m where m: "m \<in> set ms" "caddr c = vaddr m + 32" "64 + unat (cap c) \<le> unat (map_size m)"
    using assms(2) by (auto simp: chunk_ok_def)
  have v: "4096 dvd vaddr m" "vaddr m + unat (map_size m) \<le> 2 ^ 63" using assms(1) m(1) by (auto simp: maps_ok_def)
  have "32 dvd vaddr m" using v(1) by (rule dvd_trans [rotated]) simp
  then show "32 dvd chunk_data c" using m(2) by (simp add: chunk_data_eq)
  show "0 < chunk_data c" "chunk_data c + unat (cap c) \<le> 2 ^ 63" using m v by (simp_all add: chunk_data_eq)
qed

lemma new_chunk_ok:
  assumes "arena_new_chunk vm m n = (Some c, m')" "vm_ok vm" "maps_ok (maps m)"
  shows "chunk_ok (maps m') c" "cap c = n" "used c = 0" "maps_ok (maps m')" "mem m' = mem m"
    "set (maps m) \<subseteq> set (maps m')" "chunk_ok (maps m) d \<Longrightarrow> caddr d \<noteq> caddr c"
proof -
  have n: "\<not> SIZE_MAX - 32 < n" using assms(1) by (auto simp: arena_new_chunk_def chunk_hdr_32 split: if_splits)
  obtain q ms where q: "ray_sys_alloc vm (maps m) (32 + n) = (Some q, ms)"
    "c = \<lparr>caddr = q, cap = n, used = 0\<rparr>" "m' = m\<lparr>maps := ms\<rparr>"
    using assms(1) n by (auto simp: arena_new_chunk_def chunk_hdr_32 split: option.splits prod.splits)
  obtain k where k: "ms = k # maps m" "q = vaddr k + 32" "32 + unat (32 + n) \<le> unat (map_size k)" "maps_ok ms"
    "\<forall>k' \<in> set (maps m). disj (map_range k) (map_range k')"
    using sys_alloc_ok [OF q(1) assms(2,3)] .
  have "unat n \<le> 2 ^ 64 - 1 - 32" using n by (simp add: word_less_nat_alt not_less)
  then have "unat (32 + n) = 32 + unat n" by (subst unat_plus_simple [THEN iffD1]) (auto simp: no_olen_add_nat)
  then show "chunk_ok (maps m') c" using k q by (auto simp: chunk_ok_def)
  show "cap c = n" "used c = 0" "maps_ok (maps m')" "mem m' = mem m" "set (maps m) \<subseteq> set (maps m')"
    using k q by auto
  assume "chunk_ok (maps m) d"
  then obtain k' where k': "k' \<in> set (maps m)" "caddr d = vaddr k' + 32" "64 \<le> unat (map_size k')"
    by (auto simp: chunk_ok_def)
  have "disj (map_range k) (map_range k')" using k(5) k' by blast
  then show "caddr d \<noteq> caddr c" using k k' q by (auto simp: disj_def)
qed

lemma new_chunk_None: "arena_new_chunk vm m n = (None, m') \<Longrightarrow> m' = m"
  by (auto simp: arena_new_chunk_def dest: sys_alloc_None split: if_splits option.splits prod.splits)

text \<open>
  What a block given out at \<open>v\<close> keeps and promises, from one arena state to the next.
\<close>

definition gives :: "arena \<Rightarrow> arena \<Rightarrow> nat \<Rightarrow> nat \<Rightarrow> bool" where
  "gives a a' v n \<longleftrightarrow> 32 dvd v \<and> 0 < v \<and> v + n \<le> 2 ^ 63 \<and> given a' v n \<and>
     (\<forall>p k. given a p k \<longrightarrow> given a' p k \<and> disj (p, k) (v, n))"

text \<open>The header that the allocator leaves in a new block, and the bytes it leaves alone.\<close>

definition hdr0 :: "u8 list" where
  "hdr0 = replicate 19 0 @ [RAY_ATTR_ARENA, 1, 0, 0, 0] @ replicate 8 0"

definition clears :: "memory \<Rightarrow> nat \<Rightarrow> memory \<Rightarrow> bool" where
  "clears m v m' \<longleftrightarrow> mem_read (mem m') v 32 = hdr0 \<and> (\<forall>q. q < v \<or> v + 32 \<le> q \<longrightarrow> mem m' q = mem m q)"

lemma clears_nth: "clears m v m' \<Longrightarrow> k < 32 \<Longrightarrow> mem m' (v + k) = hdr0 ! k"
  by (metis clears_def nth_mem_read)

lemma clears_outside: "clears m v m' \<Longrightarrow> mem m' q \<noteq> mem m q \<Longrightarrow> v \<le> q \<and> q < v + 32"
  by (auto simp: clears_def not_less [symmetric])

lemma arena_ok_write [simp]: "arena_ok a (mem_write m p bs) \<longleftrightarrow> arena_ok a m"
  by (simp add: arena_ok_def)

lemma header_bytes:
  "clears m v (mem_write (mem_write (mem_write m v (replicate 32 0)) (ATTRS_AT v) [RAY_ATTR_ARENA]) (RC_AT v) [1, 0, 0, 0])"
proof -
  let ?m = "mem_write (mem_write (mem_write m v (replicate 32 0)) (ATTRS_AT v) [RAY_ATTR_ARENA]) (RC_AT v) [1, 0, 0, 0]"
  have "mem_read (mem ?m) v 32 ! k = hdr0 ! k" if "k < 32" for k
    using that by (auto simp: hdr0_def mem_write_at nth_append nth_Cons' del: replicate.simps)
  then have "mem_read (mem ?m) v 32 = hdr0" by (intro nth_equalityI) (simp_all add: hdr0_def)
  then show ?thesis by (simp add: clears_def del: mem_read_outside)
qed

lemma bump_ok:
  assumes ok: "arena_ok a m" and c: "c = hd (chunks a)"
    and fit: "unat (used c) + unat bs \<le> unat (cap c)" and bs: "32 dvd unat bs" "32 \<le> unat bs"
    and b: "arena_bump a m bs = (r, a', m')"
  shows "\<exists>v. r = Some v \<and> arena_ok a' m' \<and> gives a a' v (unat bs) \<and> maps m' = maps m \<and>
    clears m v m' \<and> chunk_size a' = chunk_size a \<and>
    chunks a' = c\<lparr>used := used c + bs\<rparr> # tl (chunks a) \<and> unat (used c + bs) = unat (used c) + unat bs"
proof -
  obtain cs where cs: "chunks a = c # cs" using ok c by (cases "chunks a") (auto simp: arena_ok_def)
  define c' where "c' = c\<lparr>used := used c + bs\<rparr>"
  define v where "v = chunk_data c + unat (used c)"
  have r: "r = Some v" "a' = a\<lparr>chunks := c' # cs\<rparr>" "clears m v m'" "maps m' = maps m"
    using b header_bytes [of m v] by (auto simp: arena_bump_def Let_def cs c'_def v_def)
  have mo: "maps_ok (maps m)" and co: "chunk_ok (maps m) c" and cso: "\<forall>d \<in> set cs. chunk_ok (maps m) d"
    and dist: "\<forall>d \<in> set cs. caddr c \<noteq> caddr d" "distinct (map caddr cs)"
    using ok by (auto simp: arena_ok_def cs)
  have "unat (used c) + unat bs < 2 ^ 64" using fit unat_bound [of "cap c"] by simp
  then have u: "unat (used c + bs) = unat (used c) + unat bs"
    by (subst unat_plus_simple [THEN iffD1]) (auto simp: no_olen_add_nat)
  have co': "chunk_ok (maps m) c'" using co fit bs(1) by (auto simp: chunk_ok_def c'_def u)
  have mono: "given a p k \<Longrightarrow> given a' p k" for p k
    by (auto simp: given_def r cs c'_def u chunk_data_def)
  have new: "given a' v (unat bs)" by (auto simp: given_def r c'_def u chunk_data_def v_def)
  have dj: "disj (p, k) (v, unat bs)" if "given a p k" for p k
  proof -
    obtain d where d: "d \<in> set (chunks a)" "chunk_data d \<le> p" "p + k \<le> chunk_data d + unat (used d)"
      using \<open>given a p k\<close> by (auto simp: given_def)
    show ?thesis
    proof (cases "d = c")
      case True
      then show ?thesis using d by (simp add: disj_def v_def)
    next
      case False
      then have "d \<in> set cs" using d(1) cs by auto
      then have dd: "disj (chunk_data c, unat (cap c)) (chunk_data d, unat (cap d))"
        using mo co cso dist by (intro chunks_disj) auto
      have "unat (used d) \<le> unat (cap d)" using cso \<open>d \<in> set cs\<close> by (auto simp: chunk_ok_def)
      then show ?thesis using dd d fit by (auto simp: disj_def v_def)
    qed
  qed
  note cf = chunk_facts [OF mo co]
  have "32 dvd v" using cf(1) co by (auto simp: v_def chunk_ok_def)
  moreover have "0 < v" "v + unat bs \<le> 2 ^ 63" using cf(2,3) fit by (auto simp: v_def)
  ultimately have g: "gives a a' v (unat bs)" using mono new dj by (simp add: gives_def)
  have "chunks a' \<noteq> []" "\<forall>d \<in> set (chunks a'). chunk_ok (maps m') d" "distinct (map caddr (chunks a'))"
    using co' cso dist by (auto simp: r c'_def)
  then have "arena_ok a' m'" using mo by (simp add: arena_ok_def r)
  then show ?thesis using g u by (simp add: r c'_def cs)
qed

lemma block_size_ok:
  assumes "unat nbytes \<le> 2 ^ 62"
  shows "unat (ARENA_ALIGN_UP (32 + nbytes)) = up32 (32 + unat nbytes)" "\<not> SIZE_MAX - 32 - (32 - 1) < nbytes"
    "32 \<le> up32 (32 + unat nbytes)" "up32 (32 + unat nbytes) \<le> 2 ^ 62 + 63"
proof -
  have "unat (32 + nbytes) = 32 + unat nbytes"
    using assms by (subst unat_plus_simple [THEN iffD1]) (auto simp: no_olen_add_nat)
  then show "unat (ARENA_ALIGN_UP (32 + nbytes)) = up32 (32 + unat nbytes)"
    using assms by (subst unat_ARENA_ALIGN_UP) auto
  show "\<not> SIZE_MAX - 32 - (32 - 1) < nbytes" using assms by (simp add: word_less_nat_alt)
  show "32 \<le> up32 (32 + unat nbytes)" "up32 (32 + unat nbytes) \<le> 2 ^ 62 + 63"
    using up32_bounds [of "32 + unat nbytes"] assms by auto
qed

lemma push_chunk_ok:
  assumes "arena_ok a m" "arena_new_chunk vm m n = (Some c, m')" "vm_ok vm"
  shows "arena_ok (a\<lparr>chunks := c # chunks a\<rparr>) m'" "\<And>p k. given a p k \<Longrightarrow> given (a\<lparr>chunks := c # chunks a\<rparr>) p k"
proof -
  have mo: "maps_ok (maps m)" using assms(1) by (simp add: arena_ok_def)
  note n = new_chunk_ok [OF assms(2,3) mo]
  show mono: "given a p k \<Longrightarrow> given (a\<lparr>chunks := c # chunks a\<rparr>) p k" for p k by (auto simp: given_def)
  have "\<forall>d \<in> set (chunks a). chunk_ok (maps m') d" using assms(1) n(6) chunk_ok_mono by (auto simp: arena_ok_def)
  moreover have "\<forall>d \<in> set (chunks a). caddr d \<noteq> caddr c" using assms(1) n(7) by (auto simp: arena_ok_def)
  ultimately show "arena_ok (a\<lparr>chunks := c # chunks a\<rparr>) m'"
    using assms(1) n(1-5) mono by (auto simp: arena_ok_def)
qed

lemma fits_iff:
  assumes "unat (used c) \<le> unat (cap c)" "unat (cap c) \<le> 2 ^ 63" "unat bs \<le> 2 ^ 62 + 63"
  shows "cap c < used c + bs \<longleftrightarrow> unat (cap c) < unat (used c) + unat bs"
proof -
  have "unat (used c + bs) = unat (used c) + unat bs"
    using assms by (subst unat_plus_simple [THEN iffD1]) (auto simp: no_olen_add_nat)
  then show ?thesis by (simp add: word_less_nat_alt)
qed


lemma arena_alloc_ok:
  assumes ok: "arena_ok a m" and vm: "vm_ok vm" and n: "unat nbytes \<le> 2 ^ 62"
    and al: "ray_arena_alloc vm a m nbytes = (r, a', m')"
  shows "arena_ok a' m' \<and>
    (case r of None \<Rightarrow> a' = a \<and> m' = m
     | Some v \<Rightarrow> gives a a' v (up32 (32 + unat nbytes)) \<and> clears m v m')"
proof -
  define bs where "bs = ARENA_ALIGN_UP (32 + nbytes)"
  note B = block_size_ok [OF n, folded bs_def]
  have bs: "32 dvd unat bs" "32 \<le> unat bs" "unat bs \<le> 2 ^ 62 + 63" using B up32_bounds by simp_all
  define c where "c = hd (chunks a)"
  have co: "chunk_ok (maps m) c" and mo: "maps_ok (maps m)" using ok by (auto simp: arena_ok_def c_def)
  have cap: "unat (used c) \<le> unat (cap c)" "unat (cap c) \<le> 2 ^ 63"
    using co chunk_facts(3) [OF mo co] by (auto simp: chunk_ok_def)
  note fits = fits_iff [OF cap bs(3)]
  show ?thesis
  proof (cases "cap c < used c + bs")
    case False
    then have "arena_bump a m bs = (r, a', m')"
      using al B(2) unfolding ray_arena_alloc_def Let_def bs_def [symmetric] c_def [symmetric] by simp
    from bump_ok [OF ok c_def _ bs(1,2) this] False fits show ?thesis
      using B(1) by (auto simp: not_less)
  next
    case True
    define nc where "nc = (if chunk_size a < bs then ARENA_ALIGN_UP bs else chunk_size a)"
    have ncap: "unat bs \<le> unat nc"
      using bs unat_ARENA_ALIGN_UP [of bs] by (auto simp: nc_def word_less_nat_alt)
    show ?thesis
    proof (cases "arena_new_chunk vm m nc")
      case (Pair d m1)
      have eq: "(case d of None \<Rightarrow> (None, a, m1) | Some nc \<Rightarrow> arena_bump (a\<lparr>chunks := nc # chunks a\<rparr>) m1 bs) = (r, a', m')"
        using al B(2) True Pair
        unfolding ray_arena_alloc_def Let_def bs_def [symmetric] c_def [symmetric] nc_def [symmetric]
        by (auto split: option.splits)
      show ?thesis
      proof (cases d)
        case None
        then show ?thesis using eq Pair new_chunk_None [of vm m nc m1] ok by auto
      next
        case (Some k)
        let ?a1 = "a\<lparr>chunks := k # chunks a\<rparr>"
        have nk: "arena_new_chunk vm m nc = (Some k, m1)" using Pair Some by simp
        have ok1: "arena_ok ?a1 m1" by (rule push_chunk_ok [OF ok nk vm])
        note n = new_chunk_ok [OF nk vm mo]
        have "arena_bump ?a1 m1 bs = (r, a', m')" using eq Some by simp
        moreover have "k = hd (chunks ?a1)" by simp
        moreover have "unat (used k) + unat bs \<le> unat (cap k)" using n(2,3) ncap by simp
        ultimately obtain v where v: "r = Some v" "arena_ok a' m'" "gives ?a1 a' v (unat bs)"
          "clears m1 v m'"
          using bump_ok [OF ok1 _ _ bs(1,2)] by blast
        have "gives a a' v (unat bs)" using v(3) push_chunk_ok(2) [OF ok nk vm] by (auto simp: gives_def)
        moreover have "clears m v m'" using v(4) n(5) by (simp add: clears_def)
        ultimately show ?thesis using v B(1) by simp
      qed
    qed
  qed
qed

text \<open>A sequence of requests and the blocks it gives, with the size each one occupies.\<close>

fun arena_allocs :: "vm \<Rightarrow> arena \<Rightarrow> memory \<Rightarrow> size_t list \<Rightarrow> (nat \<times> nat) list \<times> arena \<times> memory" where
  "arena_allocs vm a m [] = ([], a, m)"
| "arena_allocs vm a m (n # ns) =
     (case ray_arena_alloc vm a m n of (r, a, m) \<Rightarrow>
      case arena_allocs vm a m ns of (bs, a, m) \<Rightarrow>
        ((case r of None \<Rightarrow> bs | Some v \<Rightarrow> (v, up32 (32 + unat n)) # bs), a, m))"

lemma arena_allocs_ok:
  assumes "arena_ok a m" "vm_ok vm" "\<forall>n \<in> set ns. unat n \<le> 2 ^ 62" "arena_allocs vm a m ns = (bs, a', m')"
  shows "arena_ok a' m' \<and> sorted_wrt disj bs \<and>
    (\<forall>(v, n) \<in> set bs. 32 dvd v \<and> given a' v n) \<and>
    (\<forall>p k. given a p k \<longrightarrow> given a' p k \<and> (\<forall>b \<in> set bs. disj (p, k) b))"
  using assms
proof (induction ns arbitrary: a m bs)
  case (Cons n ns)
  obtain r a1 m1 where al: "ray_arena_alloc vm a m n = (r, a1, m1)" by (cases "ray_arena_alloc vm a m n")
  obtain bs1 where rest: "arena_allocs vm a1 m1 ns = (bs1, a', m')"
    and bs: "bs = (case r of None \<Rightarrow> bs1 | Some v \<Rightarrow> (v, up32 (32 + unat n)) # bs1)"
    using Cons.prems(4) by (auto simp: al split: prod.splits)
  have n: "unat n \<le> 2 ^ 62" using Cons.prems(3) by simp
  note one = arena_alloc_ok [OF Cons.prems(1,2) n al]
  have IH: "arena_ok a' m' \<and> sorted_wrt disj bs1 \<and> (\<forall>(v, n) \<in> set bs1. 32 dvd v \<and> given a' v n) \<and>
    (\<forall>p k. given a1 p k \<longrightarrow> given a' p k \<and> (\<forall>b \<in> set bs1. disj (p, k) b))"
    using one Cons.prems(2,3) rest by (intro Cons.IH) auto
  show ?case
  proof (cases r)
    case None
    then show ?thesis using IH one bs by simp
  next
    case (Some v)
    then have g: "gives a a1 v (up32 (32 + unat n))" using one by simp
    then show ?thesis using IH bs Some unfolding gives_def by (auto simp del: One_nat_def)
  qed
qed simp

lemma arena_new_ok:
  assumes "ray_arena_new vm m csize = (Some a, m')" "vm_ok vm" "maps_ok (maps m)"
  shows "arena_ok a m'"
proof -
  define cs where "cs = ARENA_ALIGN_UP (if csize < 256 then 256 else csize)"
  obtain p ms where p: "ray_sys_alloc vm (maps m) 16 = (Some p, ms)"
    using assms(1) by (auto simp: ray_arena_new_def Let_def split: prod.splits option.splits)
  obtain k where ms: "maps_ok ms" using sys_alloc_ok [OF p assms(2,3)] by metis
  obtain c where c: "arena_new_chunk vm (m\<lparr>maps := ms\<rparr>) cs = (Some c, m')"
    "a = \<lparr>self = p, chunks = [c], chunk_size = cs\<rparr>"
    using assms(1) p by (auto simp: ray_arena_new_def Let_def cs_def split: prod.splits option.splits)
  have "maps_ok (maps (m\<lparr>maps := ms\<rparr>))" using ms by simp
  note n = new_chunk_ok [OF c(1) assms(2) this]
  show ?thesis using n(1,4) by (simp add: arena_ok_def c(2))
qed

lemma given_mapped:
  assumes "arena_ok a m" "given a v n"
  shows "\<exists>k \<in> set (maps m). vaddr k + 64 \<le> v \<and> v + n \<le> vaddr k + unat (map_size k)"
proof -
  obtain c where c: "c \<in> set (chunks a)" "chunk_data c \<le> v" "v + n \<le> chunk_data c + unat (used c)"
    using assms(2) by (auto simp: given_def)
  then have "chunk_ok (maps m) c" using assms(1) by (simp add: arena_ok_def)
  then obtain k where "k \<in> set (maps m)" "caddr c = vaddr k + 32" "64 + unat (cap c) \<le> unat (map_size k)"
    "unat (used c) \<le> unat (cap c)" by (auto simp: chunk_ok_def)
  with c show ?thesis by (intro bexI [of _ k]) (auto simp: chunk_data_eq)
qed

text \<open>
  C15.  Every sequence of requests of at most \<open>2 ^ 62\<close> bytes to a new arena gives blocks that are 32-byte aligned, lie behind
  the two headers of a live mapping, and share no byte with one another.
\<close>

theorem arena_blocks_disjoint:
  assumes "vm_ok vm" "maps_ok (maps m)" "ray_arena_new vm m csize = (Some a, m1)"
    and "\<forall>n \<in> set ns. unat n \<le> 2 ^ 62" "arena_allocs vm a m1 ns = (bs, a', m')"
  shows "sorted_wrt disj bs \<and>
    (\<forall>(v, n) \<in> set bs. 32 dvd v \<and>
       (\<exists>k \<in> set (maps m'). vaddr k + 64 \<le> v \<and> v + n \<le> vaddr k + unat (map_size k)))"
proof -
  have "arena_ok a m1" using assms(1-3) by (intro arena_new_ok)
  note all = arena_allocs_ok [OF this assms(1,4,5)]
  have "\<forall>(v, n) \<in> set bs. \<exists>k \<in> set (maps m'). vaddr k + 64 \<le> v \<and> v + n \<le> vaddr k + unat (map_size k)"
    using all given_mapped by blast
  with all show ?thesis by blast
qed

text \<open>A concrete operating system: the next page behind all live mappings.\<close>

definition bump_vm :: vm where
  "bump_vm ms n =
     (let p = 4096 * Suc (\<Sum>m\<leftarrow>ms. vaddr m + unat (map_size m))
      in if n \<noteq> 0 \<and> p + unat n \<le> 2 ^ 63 then Some p else None)"

lemma bump_vm_ok: "vm_ok bump_vm"
proof -
  have le: "vaddr m + unat (map_size m) \<le> 4096 * Suc (\<Sum>m\<leftarrow>ms. vaddr m + unat (map_size m))"
    if "m \<in> set ms" for m ms
  proof -
    have "vaddr m + unat (map_size m) \<le> (\<Sum>m\<leftarrow>ms. vaddr m + unat (map_size m))"
      using that by (intro member_le_sum_list) auto
    then show ?thesis by simp
  qed
  show ?thesis
    unfolding vm_ok_def bump_vm_def Let_def disj_def using le by (auto simp del: mult_Suc_right split: if_splits)
qed

abbreviation (input) no_memory :: memory where
  "no_memory \<equiv> \<lparr>maps = [], mem = (\<lambda>_. 0)\<rparr>"

definition arena_run :: "(nat \<times> nat) list" where
  "arena_run = (case ray_arena_new bump_vm no_memory 100 of
     (Some a, m) \<Rightarrow> fst (arena_allocs bump_vm a m [10, 200, 1]) | _ \<Rightarrow> [])"

lemma arena_run_eq: "arena_run = [(33558592, 64), (137506066496, 256), (563362370949184, 64)]"
  by (simp add: arena_run_def ray_arena_new_def ray_sys_alloc_def page_round_def bump_vm_def
    arena_new_chunk_def chunk_hdr_def ARENA_ALIGN_UP_def ray_arena_alloc_def arena_bump_def chunk_data_def Let_def up32_def)

theorem arena_blocks_disjoint_witness:
  "\<exists>a m1 bs a' m'. ray_arena_new bump_vm no_memory 100 = (Some a, m1) \<and>
     arena_allocs bump_vm a m1 [10, 200, 1] = (bs, a', m') \<and> length bs = 3 \<and> sorted_wrt disj bs"
proof -
  obtain a m1 where new: "ray_arena_new bump_vm no_memory 100 = (Some a, m1)"
    using arena_run_eq by (cases "ray_arena_new bump_vm no_memory 100") (auto simp: arena_run_def split: option.splits)
  obtain bs a' m' where al: "arena_allocs bump_vm a m1 [10, 200, 1] = (bs, a', m')"
    by (cases "arena_allocs bump_vm a m1 [10, 200, 1]")
  have "bs = arena_run" by (simp add: arena_run_def new al del: arena_allocs.simps)
  then have "length bs = 3" by (simp add: arena_run_eq)
  moreover have "sorted_wrt disj bs"
    using arena_blocks_disjoint [OF bump_vm_ok _ new _ al] by (simp add: maps_ok_def)
  ultimately show ?thesis using new al by blast
qed

section \<open>Reserving\<close>

definition avail :: "arena \<Rightarrow> nat" where
  "avail a = unat (cap (hd (chunks a))) - unat (used (hd (chunks a)))"

lemma arena_reserve_ok:
  assumes ok: "arena_ok a m" and vm: "vm_ok vm" and b: "unat bytes \<le> 2 ^ 62"
    and r: "ray_arena_reserve vm a m bytes = (True, a', m')"
  shows "arena_ok a' m' \<and> unat bytes \<le> avail a'"
proof -
  let ?c = "hd (chunks a)"
  have mo: "maps_ok (maps m)" and co: "chunk_ok (maps m) ?c" and ne: "chunks a \<noteq> []"
    using ok by (auto simp: arena_ok_def)
  then have u: "used ?c \<le> cap ?c" by (auto simp: chunk_ok_def word_le_nat_alt)
  show ?thesis
  proof (cases "bytes = 0 \<or> bytes \<le> cap ?c - used ?c")
    case True
    then have "a' = a" "m' = m" using r ne by (auto simp: ray_arena_reserve_def split: if_splits)
    moreover have "unat bytes \<le> avail a"
      using True u by (auto simp: avail_def word_le_nat_alt unat_sub)
    ultimately show ?thesis using ok by simp
  next
    case False
    define nc where "nc = (if chunk_size a < bytes then ARENA_ALIGN_UP bytes else chunk_size a)"
    obtain k where k: "arena_new_chunk vm m nc = (Some k, m')" "a' = a\<lparr>chunks := k # chunks a\<rparr>"
      using r False ne by (auto simp: ray_arena_reserve_def Let_def nc_def split: prod.splits option.splits)
    have "unat bytes \<le> unat nc"
      using b unat_ARENA_ALIGN_UP [of bytes] up32_bounds(1) [of "unat bytes"]
      by (auto simp: nc_def word_less_nat_alt)
    then show ?thesis
      using push_chunk_ok(1) [OF ok k(1) vm] new_chunk_ok(2,3) [OF k(1) vm mo] by (simp add: k(2) avail_def)
  qed
qed

lemma arena_alloc_avail:
  assumes ok: "arena_ok a m" and n: "unat nbytes \<le> 2 ^ 62" and fit: "up32 (32 + unat nbytes) \<le> avail a"
  shows "\<exists>v a' m'. ray_arena_alloc vm a m nbytes = (Some v, a', m') \<and> arena_ok a' m' \<and>
    avail a' = avail a - up32 (32 + unat nbytes) \<and> maps m' = maps m"
proof -
  define bs where "bs = ARENA_ALIGN_UP (32 + nbytes)"
  note B = block_size_ok [OF n, folded bs_def]
  have bs: "32 dvd unat bs" "32 \<le> unat bs" "unat bs \<le> 2 ^ 62 + 63" using B up32_bounds by simp_all
  define c where "c = hd (chunks a)"
  have co: "chunk_ok (maps m) c" and mo: "maps_ok (maps m)" using ok by (auto simp: arena_ok_def c_def)
  have cap: "unat (used c) \<le> unat (cap c)" "unat (cap c) \<le> 2 ^ 63"
    using co chunk_facts(3) [OF mo co] by (auto simp: chunk_ok_def)
  have f: "unat (used c) + unat bs \<le> unat (cap c)" using fit cap(1) B(1) by (simp add: avail_def flip: c_def)
  then have "\<not> cap c < used c + bs" using fits_iff [OF cap bs(3)] by simp
  then have al: "ray_arena_alloc vm a m nbytes = arena_bump a m bs"
    using B(2) unfolding ray_arena_alloc_def Let_def bs_def [symmetric] c_def [symmetric] by simp
  obtain r a' m' where b: "arena_bump a m bs = (r, a', m')" by (cases "arena_bump a m bs")
  from bump_ok [OF ok c_def f bs(1,2) b] obtain v where v: "r = Some v" "arena_ok a' m'" "maps m' = maps m"
    "chunks a' = c\<lparr>used := used c + bs\<rparr> # tl (chunks a)" "unat (used c + bs) = unat (used c) + unat bs"
    by blast
  then have "avail a' = avail a - up32 (32 + unat nbytes)" using B(1) by (simp add: avail_def flip: c_def)
  then show ?thesis using al b v by simp
qed

lemma arena_allocs_avail:
  assumes "arena_ok a m" "\<forall>n \<in> set ns. unat n \<le> 2 ^ 62" "(\<Sum>n\<leftarrow>ns. up32 (32 + unat n)) \<le> avail a"
  shows "\<exists>bs a' m'. arena_allocs vm a m ns = (bs, a', m') \<and> length bs = length ns \<and> maps m' = maps m"
  using assms
proof (induction ns arbitrary: a m)
  case (Cons n ns)
  obtain v a1 m1 where a1: "ray_arena_alloc vm a m n = (Some v, a1, m1)" "arena_ok a1 m1"
    "avail a1 = avail a - up32 (32 + unat n)" "maps m1 = maps m"
    using arena_alloc_avail [of a m n vm] Cons.prems by auto
  have "(\<Sum>n\<leftarrow>ns. up32 (32 + unat n)) \<le> avail a1" using Cons.prems(3) a1(3) by simp
  then obtain bs a' m' where "arena_allocs vm a1 m1 ns = (bs, a', m')" "length bs = length ns" "maps m' = maps m1"
    using Cons.IH [of a1 m1] a1(2) Cons.prems(2) by auto
  then show ?case using a1 by simp
qed simp

text \<open>
  C37.  After a successful reservation, requests whose blocks fit into the reserved bytes all succeed,
  even when the operating system has no memory left, and make no new mapping.
\<close>

theorem arena_reserve_infallible:
  assumes "vm_ok vm" "arena_ok a m" "unat bytes \<le> 2 ^ 62" "ray_arena_reserve vm a m bytes = (True, a', m')"
    and "\<forall>n \<in> set ns. unat n \<le> 2 ^ 62" "(\<Sum>n\<leftarrow>ns. up32 (32 + unat n)) \<le> unat bytes"
  shows "\<exists>bs a2 m2. arena_allocs (\<lambda>_ _. None) a' m' ns = (bs, a2, m2) \<and> length bs = length ns \<and> maps m2 = maps m'"
  using arena_reserve_ok [OF assms(2,1,3,4)] assms(5,6) by (intro arena_allocs_avail) auto


theorem arena_reserve_infallible_witness:
  "\<exists>a m a' m' bs a2 m2. ray_arena_new bump_vm no_memory 100 = (Some a, m) \<and>
     ray_arena_reserve bump_vm a m 512 = (True, a', m') \<and>
     arena_allocs (\<lambda>_ _. None) a' m' [10, 200, 100] = (bs, a2, m2) \<and> length bs = 3"
proof -
  obtain a m where new: "ray_arena_new bump_vm no_memory 100 = (Some a, m)"
    using arena_run_eq by (cases "ray_arena_new bump_vm no_memory 100") (auto simp: arena_run_def split: option.splits)
  have ok: "arena_ok a m" using arena_new_ok [OF new bump_vm_ok] by (simp add: maps_ok_def)
  have "fst (ray_arena_reserve bump_vm a m 512)"
    using new by (auto simp: ray_arena_reserve_def ray_arena_new_def ray_sys_alloc_def page_round_def bump_vm_def
      arena_new_chunk_def chunk_hdr_def ARENA_ALIGN_UP_def Let_def)
  then obtain a' m' where r: "ray_arena_reserve bump_vm a m 512 = (True, a', m')"
    by (cases "ray_arena_reserve bump_vm a m 512") auto
  have "\<exists>bs a2 m2. arena_allocs (\<lambda>_ _. None) a' m' [10, 200, 100] = (bs, a2, m2) \<and>
      length bs = length [10, 200, 100 :: size_t] \<and> maps m2 = maps m'"
    using arena_reserve_infallible [OF bump_vm_ok ok _ r, of "[10, 200, 100]"] by (simp add: up32_def del: arena_allocs.simps)
  then show ?thesis using new r by auto
qed

section \<open>Accounting\<close>

lemma total_used_eq: "ray_arena_total_used a = (\<Sum>c\<leftarrow>chunks a. used c)"
proof -
  have "foldl (\<lambda>total c. total + used c) t cs = t + (\<Sum>c\<leftarrow>cs. used c)" for t and cs :: "arena_chunk list"
    by (induction cs arbitrary: t) (simp_all add: add.assoc)
  then show ?thesis by (simp add: ray_arena_total_used_def)
qed

lemma total_used_alloc:
  assumes "chunks a \<noteq> []" "ray_arena_alloc vm a m n = (r, a', m')" "vm_ok vm" "maps_ok (maps m)"
  shows "ray_arena_total_used a' =
    ray_arena_total_used a + (if r = None then 0 else ARENA_ALIGN_UP (32 + n))"
  using assms new_chunk_ok(3) [OF _ assms(3,4)]
  by (cases "chunks a")
    (auto simp: total_used_eq ray_arena_alloc_def arena_bump_def Let_def split: if_splits prod.splits option.splits)

lemma total_used_reset: "ray_arena_total_used (fst (ray_arena_reset a m)) = 0"
  by (simp add: total_used_eq ray_arena_reset_def Let_def)

text \<open>
  A request near the top of the address range wraps the capacity test: it is granted although no
  chunk can hold it, and the bump offset moves back over a block that is in use.
\<close>

lemma arena_alloc_huge_wraps:
  assumes "chunks a = c # cs" "64 \<le> used c" "used c \<le> cap c"
  shows "\<exists>v a' m'. ray_arena_alloc vm a m (SIZE_MAX - 63) = (Some v, a', m') \<and>
    hd (chunks a') = c\<lparr>used := used c - 32\<rparr>"
proof -
  have "ARENA_ALIGN_UP (32 + (SIZE_MAX - 63)) = - 32" by (simp add: ARENA_ALIGN_UP_def)
  moreover have "\<not> cap c < used c + - 32"
  proof -
    have "unat (used c - 32) = unat (used c) - 32" using assms(2) by (intro unat_sub_if' [THEN trans]) (auto simp: word_le_nat_alt)
    then show ?thesis using assms(2,3) by (simp add: word_le_nat_alt word_less_nat_alt)
  qed
  ultimately show ?thesis using assms(1) by (simp add: ray_arena_alloc_def arena_bump_def Let_def)
qed


section \<open>Strings in the arena\<close>

lemma horner_digits: "horner_sum (\<lambda>k. n div 256 ^ k mod 256) 256 [0..<j] = n mod 256 ^ j" for n :: nat
proof (induction j)
  case (Suc j)
  have "n mod 256 ^ Suc j = 256 ^ j * (n div 256 ^ j mod 256) + n mod 256 ^ j"
    by (metis mod_mult2_eq power_Suc2)
  then show ?case using Suc by (simp add: horner_sum_append)
qed simp

lemma le_value_le_bytes: "n < 2 ^ 64 \<Longrightarrow> le_value (le_bytes n) = n"
proof -
  assume n: "n < 2 ^ 64"
  have "le_value (le_bytes n) = horner_sum (\<lambda>k. n div 256 ^ k mod 256) 256 [0..<8]"
  proof -
    have "horner_sum unat 256 (map g ks) = horner_sum (\<lambda>k. unat (g k)) 256 ks" for g :: "nat \<Rightarrow> u8" and ks
      by (induction ks) simp_all
    then show ?thesis by (simp add: le_value_def le_bytes_def unat_of_nat)
  qed
  also have "\<dots> = n" using n unfolding horner_digits by simp
  finally show ?thesis .
qed

lemma le_bytes_length: "length (le_bytes n) = 8"
  by (simp add: le_bytes_def)

lemma read_u64_le: "n < 2 ^ 64 \<Longrightarrow> mem_read h p 8 = le_bytes n \<Longrightarrow> read_u64 h p = n"
  by (simp add: le_value_le_bytes)

lemma pointer_not_sso:
  assumes "32 dvd p" "0 < p" "p < 2 ^ 64" "mem_read h (VAL_AT s) 8 = le_bytes p"
  shows "\<not> is_sso h s"
proof -
  have "h (VAL_AT s) = le_bytes p ! 0" using nth_mem_read [of 0 8 h "VAL_AT s"] assms(4) by simp
  then have sl: "unat (h (VAL_AT s)) = p mod 256" by (simp add: le_bytes_def unat_of_nat)
  have "32 dvd p mod 256" using assms(1) by (simp add: dvd_mod)
  then have "\<not> (1 \<le> p mod 256 \<and> p mod 256 \<le> 7)" by (auto dest!: dvd_imp_le)
  then have "\<not> (1 \<le> h (VAL_AT s) \<and> h (VAL_AT s) \<le> 7)" using sl by (simp add: word_le_nat_alt)
  then show ?thesis using assms by (auto simp: is_sso_def Let_def le_value_le_bytes)
qed

lemma short_sso:
  assumes "length s < 7" "mem_read h (VAL_AT v) 8 = word_of_nat (length s) # s @ replicate (7 - length s) 0"
  shows "is_sso h v" "unat (h (VAL_AT v)) = length s" "mem_read h (VAL_AT v + 1) (length s) = s"
proof -
  let ?bs = "word_of_nat (length s) # s @ replicate (7 - length s) (0 :: u8)"
  have at: "h (VAL_AT v + k) = ?bs ! k" if "k < 8" for k
    using nth_mem_read [OF that, of h "VAL_AT v"] assms(2) by simp
  show u: "unat (h (VAL_AT v)) = length s" using at [of 0] assms by (simp add: unat_of_nat)
  show "mem_read h (VAL_AT v + 1) (length s) = s"
  proof (rule nth_equalityI)
    fix k assume "k < length (mem_read h (VAL_AT v + 1) (length s))"
    then show "mem_read h (VAL_AT v + 1) (length s) ! k = s ! k"
      using at [of "Suc k"] assms(1) by (simp add: nth_append add_ac)
  qed simp
  show "is_sso h v"
  proof (cases s)
    case Nil
    then have "mem_read h (VAL_AT v) 8 = replicate 8 0" using assms(2) by (simp add: numeral_eq_Suc)
    then have "read_u64 h (VAL_AT v) = 0" by (simp add: le_value_def numeral_eq_Suc)
    moreover have "h (VAL_AT v) = 0" using at [of 0] Nil by simp
    ultimately show ?thesis by (simp add: is_sso_def)
  next
    case (Cons x xs)
    then have "1 \<le> h (VAL_AT v) \<and> h (VAL_AT v) \<le> 7" using u assms(1) by (simp add: word_le_nat_alt)
    then show ?thesis by (simp add: is_sso_def)
  qed
qed

lemma given_sub:
  assumes "given a p n" "p \<le> q" "q + k \<le> p + n"
  shows "given a q k"
proof -
  obtain c where "c \<in> set (chunks a)" "chunk_data c \<le> p" "p + n \<le> chunk_data c + unat (used c)"
    using assms(1) by (auto simp: given_def)
  with assms(2,3) show ?thesis unfolding given_def by (intro bexI [of _ c]) auto
qed

text \<open>A step that keeps what has been given out, and its bytes.\<close>

definition grows :: "arena \<Rightarrow> memory \<Rightarrow> arena \<Rightarrow> memory \<Rightarrow> bool" where
  "grows a m a' m' \<longleftrightarrow> (\<forall>p n. given a p n \<longrightarrow> given a' p n) \<and>
     (\<forall>p n q. given a p n \<longrightarrow> p \<le> q \<longrightarrow> q < p + n \<longrightarrow> mem m' q = mem m q)"

lemma grows_refl: "grows a m a m"
  by (simp add: grows_def)

lemma grows_same_mem: "mem m' = mem m \<Longrightarrow> (\<And>p n. given a p n \<Longrightarrow> given a' p n) \<Longrightarrow> grows a m a' m'"
  by (simp add: grows_def)

lemma grows_read: "grows a m a' m' \<Longrightarrow> given a p n \<Longrightarrow> p \<le> q \<Longrightarrow> q + k \<le> p + n \<Longrightarrow>
    mem_read (mem m') q k = mem_read (mem m) q k"
  by (intro mem_read_eqI) (auto simp: grows_def)

lemma grows_byte: "grows a m a' m' \<Longrightarrow> given a p n \<Longrightarrow> p \<le> q \<Longrightarrow> q < p + n \<Longrightarrow> mem m' q = mem m q"
  by (auto simp: grows_def)

lemma gives_grows:
  assumes "gives a a' v n" "\<And>q. mem m' q \<noteq> mem m q \<Longrightarrow> v \<le> q \<and> q < v + n"
  shows "grows a m a' m'"
proof -
  have "mem m' q = mem m q" if "given a p k" "p \<le> q" "q < p + k" for p k q
  proof (rule ccontr)
    assume "mem m' q \<noteq> mem m q"
    then have "v \<le> q \<and> q < v + n" by (rule assms(2))
    moreover have "disj (p, k) (v, n)" using assms(1) that(1) by (simp add: gives_def)
    ultimately show False using that(2,3) by (auto simp: disj_def)
  qed
  then show ?thesis using assms(1) by (auto simp: grows_def gives_def)
qed

text \<open>A readable string atom: its header, and its characters if it is long, lie in bytes given out.\<close>

definition str_ok :: "arena \<Rightarrow> memory \<Rightarrow> nat \<Rightarrow> bool" where
  "str_ok a m w \<longleftrightarrow> 0 < w \<and> given a w 32 \<and> \<not> RAY_IS_ERR (mem m) w \<and>
     (is_sso (mem m) w \<or>
      (let c = read_u64 (mem m) (VAL_AT w)
       in mem m (ATTRS_AT c) AND RAY_ATTR_SLICE = 0 \<and> given a c (32 + read_u64 (mem m) (VAL_AT c))))"

lemma str_keep:
  assumes g: "grows a m a' m'" and w: "str_ok a m w"
  shows "str_ok a' m' w \<and> str_bytes (mem m') w = str_bytes (mem m) w \<and>
    ray_str_len (mem m') w = ray_str_len (mem m) w \<and> obj_type (mem m') w = obj_type (mem m) w"
proof -
  let ?h = "mem m" and ?h' = "mem m'" and ?c = "read_u64 (mem m) (VAL_AT w)"
  have gw: "given a w 32" "given a' w 32" using w g by (auto simp: str_ok_def grows_def)
  have t: "obj_type ?h' w = obj_type ?h w" using grows_byte [OF g gw(1), of "TYPE_AT w"] by (simp add: obj_type_def)
  then have e: "RAY_IS_ERR ?h' w = RAY_IS_ERR ?h w" "\<not> RAY_IS_ERR ?h w" using w by (auto simp: RAY_IS_ERR_def str_ok_def)
  have u: "mem_read ?h' (VAL_AT w) 8 = mem_read ?h (VAL_AT w) 8" using grows_read [OF g gw(1), of "VAL_AT w" 8] by simp
  have b: "?h' (VAL_AT w) = ?h (VAL_AT w)" using grows_byte [OF g gw(1), of "VAL_AT w"] by simp
  have so: "is_sso ?h' w = is_sso ?h w" by (simp add: is_sso_def u b)
  show ?thesis
  proof (cases "is_sso ?h w")
    case True
    have "unat (?h (VAL_AT w)) \<le> 7" using True by (auto simp: is_sso_def Let_def word_le_nat_alt)
    then have "mem_read ?h' (VAL_AT w + 1) (unat (?h (VAL_AT w))) = mem_read ?h (VAL_AT w + 1) (unat (?h (VAL_AT w)))"
      by (intro grows_read [OF g gw(1)]) auto
    then show ?thesis using w True so e b t gw(2) by (simp add: str_ok_def str_bytes_def ray_str_ptr_def ray_str_len_def)
  next
    case False
    have c: "?h (ATTRS_AT ?c) AND RAY_ATTR_SLICE = 0" "given a ?c (32 + read_u64 ?h (VAL_AT ?c))"
      using w False by (auto simp: str_ok_def Let_def)
    have cb: "?h' (ATTRS_AT ?c) = ?h (ATTRS_AT ?c)" using grows_byte [OF g c(2), of "ATTRS_AT ?c"] by simp
    have cl: "mem_read ?h' (VAL_AT ?c) 8 = mem_read ?h (VAL_AT ?c) 8" using grows_read [OF g c(2), of "VAL_AT ?c" 8] by simp
    have cd: "mem_read ?h' (?c + 32) (read_u64 ?h (VAL_AT ?c)) = mem_read ?h (?c + 32) (read_u64 ?h (VAL_AT ?c))"
      using grows_read [OF g c(2), of "?c + 32" "read_u64 ?h (VAL_AT ?c)"] by simp
    have "given a' ?c (32 + read_u64 ?h (VAL_AT ?c))" using g c(2) by (auto simp: grows_def)
    then show ?thesis
      using w False so e b t u cb cl cd c gw(2)
      by (simp add: str_ok_def str_bytes_def ray_str_ptr_def ray_str_len_def ray_data_def Let_def)
  qed
qed

text \<open>What storing a string at \<open>v\<close> promises; \<open>b\<close> and \<open>n\<close> are the block it was put into.\<close>

definition str_put :: "arena \<Rightarrow> memory \<Rightarrow> u8 list \<Rightarrow> nat \<Rightarrow> arena \<Rightarrow> memory \<Rightarrow> bool" where
  "str_put a m s v a' m' \<longleftrightarrow> str_bytes (mem m') v = s \<and> str_ok a' m' v \<and> ray_str_len (mem m') v = length s \<and>
     obj_type (mem m') v = - RAY_STR \<and> arena_ok a' m' \<and>
     (\<exists>b n. gives a a' b n \<and> (\<forall>q. mem m' q \<noteq> mem m q \<longrightarrow> b \<le> q \<and> q < b + n))"

lemma str_put_grows: "str_put a m s v a' m' \<Longrightarrow> grows a m a' m'"
  by (auto simp: str_put_def intro: gives_grows)

lemma type_byte_str: "sint (type_byte (- RAY_STR)) = - RAY_STR"
  by code_simp

lemma short_str_ok:
  assumes ok: "arena_ok a m" and vm: "vm_ok vm" and len: "length s < 7"
    and r: "ray_arena_str vm a m s = (Some v, a', m')"
  shows "str_put a m s v a' m'"
proof -
  define tb :: u8 where "tb = type_byte (- RAY_STR)"
  obtain m1 where m1: "ray_arena_alloc vm a m 0 = (Some v, a', m1)"
    and m': "m' = mem_write (mem_write (mem_write (mem_write m1 (TYPE_AT v) [tb])
      (VAL_AT v) [word_of_nat (length s)]) (VAL_AT v + 1) s) (VAL_AT v + 1 + length s) [0]"
    using r len by (cases s) (auto simp: ray_arena_str_def Let_def tb_def split: prod.splits option.splits)
  from arena_alloc_ok [OF ok vm _ m1]
  have al: "arena_ok a' m1" "gives a a' v (up32 32)" "clears m v m1" by simp_all
  have g: "gives a a' v 32" "0 < v" "given a' v 32" using al(2) by (simp_all add: gives_def)
  have h0: "mem m1 (v + k) = hdr0 ! k" if "k < 32" for k
    using clears_nth [OF al(3) that] .
  have z: "mem m1 (VAL_AT v + k) = 0" if "k < 8" for k
    using h0 [of "24 + k"] that by (simp add: hdr0_def nth_append add_ac del: replicate.simps)
  have "mem_read (mem m') (VAL_AT v) 8 ! k = (word_of_nat (length s) # s @ replicate (7 - length s) 0) ! k" if "k < 8" for k
    using that z [OF that] len by (auto simp: m' mem_write_at nth_append nth_Cons' simp del: replicate.simps)
  then have "mem_read (mem m') (VAL_AT v) 8 = word_of_nat (length s) # s @ replicate (7 - length s) 0"
    using len by (intro nth_equalityI) simp_all
  note sso = short_sso [OF len this]
  have t: "obj_type (mem m') v = - RAY_STR" using len type_byte_str by (simp add: obj_type_def m' mem_write_at tb_def)
  then have e: "\<not> RAY_IS_ERR (mem m') v" by (simp add: RAY_IS_ERR_def)
  have ch: "v \<le> q \<and> q < v + 32" if "mem m' q \<noteq> mem m q" for q
  proof (rule ccontr)
    assume q: "\<not> (v \<le> q \<and> q < v + 32)"
    then have "q < v \<or> v + 32 \<le> q" by linarith
    then have "mem m1 q = mem m q" using al(3) by (auto simp: clears_def)
    moreover have "mem m' q = mem m1 q" using q len by (auto simp: m' mem_write_at)
    ultimately show False using that by simp
  qed
  have "arena_ok a' m'" using al(1) by (simp add: arena_ok_def m')
  then show ?thesis
    unfolding str_put_def using sso t e g ch
    by (auto simp: str_ok_def str_bytes_def ray_str_ptr_def ray_str_len_def)
qed

text \<open>The stores of a long string: the characters and the header behind them do not meet.\<close>

lemma long_stores:
  assumes c: "clears m C m1" and gap: "C + 33 + length s \<le> V" and n: "C < 2 ^ 64" "length s < 2 ^ 64"
    and m2: "m2 = mem_write m1 (TYPE_AT C) [type_byte RAY_U8]"
    and m3: "m3 = mem_write m2 (VAL_AT C) (le_bytes (length s))"
    and m4: "m4 = mem_write m3 (ray_data (mem m3) C) s"
    and m5: "m5 = mem_write m4 (ray_data (mem m4) C + length s) [0]"
    and m6: "m6 = mem_write m5 V (replicate 32 0)"
    and m7: "m7 = mem_write (mem_write m6 (ATTRS_AT V) [RAY_ATTR_ARENA]) (RC_AT V) [1, 0, 0, 0]"
    and m8: "m8 = mem_write m7 (TYPE_AT V) [type_byte (- RAY_STR)]"
    and m': "m' = mem_write m8 (VAL_AT V) (le_bytes C)"
  shows "mem m' (ATTRS_AT C) AND RAY_ATTR_SLICE = 0" "read_u64 (mem m') (VAL_AT C) = length s"
    "mem_read (mem m') (C + 32) (length s) = s" "obj_type (mem m') V = - RAY_STR"
    "mem_read (mem m') (VAL_AT V) 8 = le_bytes C" "maps m' = maps m1"
    "mem m' q \<noteq> mem m q \<Longrightarrow> C \<le> q \<and> q < V + 32"
proof -
  have at: "mem m1 (ATTRS_AT C) = RAY_ATTR_ARENA"
    using clears_nth [OF c, of 19] by (simp add: hdr0_def nth_append)
  have a3: "mem m3 (ATTRS_AT C) = RAY_ATTR_ARENA" using at by (simp add: m3 m2)
  then have d3: "ray_data (mem m3) C = C + 32" by (simp add: ray_data_def)
  have a4: "mem m4 (ATTRS_AT C) = RAY_ATTR_ARENA" using a3 by (simp add: m4 d3)
  then have d4: "ray_data (mem m4) C = C + 32" by (simp add: ray_data_def)
  have m4x: "m4 = mem_write m3 (C + 32) s" by (simp only: m4 d3)
  have m5x: "m5 = mem_write m4 (C + 32 + length s) [0]" by (simp only: m5 d4)
  note ms = m' m8 m7 m6 m5x m4x m3 m2
  have below: "mem m' q = mem m5 q" if "q < V" for q using that by (simp add: m' m8 m7 m6)
  have low: "mem_read (mem m') p k = mem_read (mem m5) p k" if "p + k \<le> V" for p k
    using that below by (intro mem_read_eqI) auto
  have "mem m' (ATTRS_AT C) = RAY_ATTR_ARENA" using below [of "ATTRS_AT C"] gap a4 by (simp add: m5 d4)
  then show "mem m' (ATTRS_AT C) AND RAY_ATTR_SLICE = 0" by simp
  have "mem_read (mem m5) (VAL_AT C) 8 = mem_read (mem m4) (VAL_AT C) 8" by (simp add: m5 d4)
  also have "\<dots> = mem_read (mem m3) (VAL_AT C) 8" by (simp add: m4 d3)
  also have "\<dots> = le_bytes (length s)" by (simp add: m3 mem_read_same_n le_bytes_length)
  finally have "mem_read (mem m') (VAL_AT C) 8 = le_bytes (length s)" using low [of "VAL_AT C" 8] gap by simp
  then show "read_u64 (mem m') (VAL_AT C) = length s" by (rule read_u64_le [OF n(2)])
  have "mem_read (mem m5) (C + 32) (length s) = mem_read (mem m4) (C + 32) (length s)" by (simp add: m5 d4)
  then show "mem_read (mem m') (C + 32) (length s) = s" using low [of "C + 32" "length s"] gap by (simp add: m4 d3)
  show "mem_read (mem m') (VAL_AT V) 8 = le_bytes C" by (simp add: m' mem_read_same_n le_bytes_length)
  show "obj_type (mem m') V = - RAY_STR" using type_byte_str by (simp add: obj_type_def m' m8 mem_write_at [of m7])
  show "maps m' = maps m1" by (simp add: ms)
  assume q: "mem m' q \<noteq> mem m q"
  show "C \<le> q \<and> q < V + 32"
  proof (rule ccontr)
    assume nq: "\<not> (C \<le> q \<and> q < V + 32)"
    then consider "q < C" | "V + 32 \<le> q" by linarith
    then have "mem m' q = mem m1 q" using gap by cases (simp_all add: ms le_bytes_length)
    moreover have "mem m1 q = mem m q" using c gap nq by (auto simp: clears_def)
    ultimately show False using q by simp
  qed
qed

lemma long_str_ok:
  assumes ok: "arena_ok a m" and vm: "vm_ok vm" and len: "7 \<le> length s" "length s \<le> 2 ^ 61"
    and r: "ray_arena_str vm a m s = (Some v, a', m')"
  shows "str_put a m s v a' m'"
proof -
  define cb where "cb = (32 + (word_of_nat (length s) + 1) + 31 :: size_t) AND NOT 31"
  have cb_eq: "cb = ARENA_ALIGN_UP (32 + (word_of_nat (length s) + 1))"
    by (simp add: cb_def ARENA_ALIGN_UP_def add_ac)
  have "unat (32 + (word_of_nat (length s) + 1) :: size_t) = length s + 33"
    using len(2) by (simp add: unat_word_ariths unat_of_nat)
  then have cb: "unat cb = up32 (length s + 33)"
    using len(2) unat_ARENA_ALIGN_UP [of "32 + (word_of_nat (length s) + 1)"] by (simp add: cb_eq)
  have cbs: "unat cb \<le> 2 ^ 62" "32 dvd unat cb" "length s + 33 \<le> unat cb"
    using up32_bounds [of "length s + 33"] len(2) by (simp_all add: cb)
  obtain C m1 where m1: "ray_arena_alloc vm a m cb = (Some C, a', m1)" and v: "v = C + unat cb"
    and m': "m' = (let m = mem_write m1 (TYPE_AT C) [type_byte RAY_U8];
                       m = mem_write m (VAL_AT C) (le_bytes (length s));
                       m = mem_write m (ray_data (mem m) C) s;
                       m = mem_write m (ray_data (mem m) C + length s) [0];
                       m = mem_write m v (replicate 32 0);
                       m = mem_write (mem_write m (ATTRS_AT v) [RAY_ATTR_ARENA]) (RC_AT v) [1, 0, 0, 0];
                       m = mem_write m (TYPE_AT v) [type_byte (- RAY_STR)]
                   in mem_write m (VAL_AT v) (le_bytes C))"
    using r len(1) unfolding ray_arena_str_def Let_def cb_def [symmetric]
    by (auto split: prod.splits option.splits simp del: replicate.simps)
  from arena_alloc_ok [OF ok vm cbs(1) m1]
  have al: "arena_ok a' m1" "gives a a' C (32 + unat cb)" "clears m C m1"
    using cbs(2) by simp_all
  have g: "32 dvd C" "0 < C" "C + (32 + unat cb) \<le> 2 ^ 63" "given a' C (32 + unat cb)"
    using al(2) by (auto simp: gives_def)
  have c64: "C < 2 ^ 64" "length s < 2 ^ 64" using g(3) len(2) by simp_all
  have gap: "C + 33 + length s \<le> v" using cbs(3) by (simp add: v)
  note S = long_stores [OF al(3) gap c64 refl refl refl refl refl refl refl m' [unfolded Let_def]]
  have nsso: "\<not> is_sso (mem m') v" by (rule pointer_not_sso [OF g(1,2) c64(1) S(5)])
  have p: "read_u64 (mem m') (VAL_AT v) = C" by (rule read_u64_le [OF c64(1) S(5)])
  have e: "0 < v" "\<not> RAY_IS_ERR (mem m') v" using S(4) g(2) v by (simp_all add: RAY_IS_ERR_def)
  have gv: "given a' v 32" "given a' C (32 + length s)"
    using given_sub [OF g(4), of v 32] given_sub [OF g(4), of C "32 + length s"] cbs(3) by (simp_all add: v)
  have "C \<le> q \<and> q < C + (32 + unat cb)" if "mem m' q \<noteq> mem m q" for q using S(7) [OF that] by (simp add: v)
  moreover have "arena_ok a' m'" using al(1) S(6) by (simp add: arena_ok_def)
  moreover have "ray_str_ptr (mem m') v = C + 32" "ray_str_len (mem m') v = length s"
    using nsso p e S(1,2) by (simp_all add: ray_str_ptr_def ray_str_len_def ray_data_def)
  moreover have "str_ok a' m' v" using e gv nsso p S(1,2) by (simp add: str_ok_def Let_def)
  ultimately show ?thesis unfolding str_put_def using al(2) S(3,4) by (auto simp: str_bytes_def)
qed

lemma arena_str_ok:
  assumes "arena_ok a m" "vm_ok vm" "length s \<le> 2 ^ 61" "ray_arena_str vm a m s = (Some v, a', m')"
  shows "str_put a m s v a' m'"
  using short_str_ok [OF assms(1,2) _ assms(4)] long_str_ok [OF assms(1,2) _ assms(3,4)] by (meson not_less)

text \<open>
  C38.  A string put into the arena is read back by \<open>ray_str_ptr\<close> and \<open>ray_str_len\<close> as the bytes it was made from, whether it is stored in
  the header or in a vector behind a pointer: the 32-byte alignment of blocks keeps a pointer's low byte out of
  the lengths of short strings, and the characters end below the header that follows them.  Only bytes of one
  fresh block change, so every string that could be read before reads the same afterwards.
\<close>

theorem arena_str_roundtrip:
  assumes "vm_ok vm" "arena_ok a m" "length s \<le> 2 ^ 61" "ray_arena_str vm a m s = (Some v, a', m')"
  shows "str_bytes (mem m') v = s \<and> obj_type (mem m') v = - RAY_STR \<and> str_ok a' m' v \<and> arena_ok a' m' \<and>
    (\<exists>b n. gives a a' b n \<and> (\<forall>q. mem m' q \<noteq> mem m q \<longrightarrow> b \<le> q \<and> q < b + n)) \<and>
    (\<forall>w. str_ok a m w \<longrightarrow> str_bytes (mem m') w = str_bytes (mem m) w \<and> str_ok a' m' w)"
proof -
  have p: "str_put a m s v a' m'" by (rule arena_str_ok [OF assms(2,1,3,4)])
  show ?thesis using p str_keep [OF str_put_grows [OF p]] by (auto simp: str_put_def)
qed

theorem arena_str_roundtrip_witness:
  "\<exists>a m v a1 m1 w a2 m2. ray_arena_new bump_vm no_memory 100 = (Some a, m) \<and>
     ray_arena_str bump_vm a m [104, 101, 108, 108, 111, 33, 33, 33] = (Some v, a1, m1) \<and>
     ray_arena_str bump_vm a1 m1 [97, 98] = (Some w, a2, m2) \<and>
     str_bytes (mem m2) v = [104, 101, 108, 108, 111, 33, 33, 33] \<and> str_bytes (mem m2) w = [97, 98]"
proof -
  let ?s = "[104, 101, 108, 108, 111, 33, 33, 33] :: u8 list"
  obtain a m where new: "ray_arena_new bump_vm no_memory 100 = (Some a, m)"
    using arena_run_eq by (cases "ray_arena_new bump_vm no_memory 100") (auto simp: arena_run_def split: option.splits)
  have ok: "arena_ok a m" using arena_new_ok [OF new bump_vm_ok] by (simp add: maps_ok_def)
  have a: "chunks a = [\<lparr>caddr = 4096 * Suc (4096 + 4096) + 32, cap = 256, used = 0\<rparr>]"
    using new by (auto simp: ray_arena_new_def ray_sys_alloc_def page_round_def bump_vm_def arena_new_chunk_def
      chunk_hdr_def ARENA_ALIGN_UP_def Let_def)
  obtain v a1 m1 where r: "ray_arena_str bump_vm a m ?s = (Some v, a1, m1)"
    and a1: "chunks a1 = [\<lparr>caddr = 4096 * Suc (4096 + 4096) + 32, cap = 256, used = 96\<rparr>]"
    using a by (simp add: ray_arena_str_def ray_arena_alloc_def arena_bump_def ARENA_ALIGN_UP_def Let_def)
  obtain w a2 m2 where r2: "ray_arena_str bump_vm a1 m1 [97, 98] = (Some w, a2, m2)"
    using a1 by (simp add: ray_arena_str_def ray_arena_alloc_def arena_bump_def ARENA_ALIGN_UP_def Let_def)
  have one: "str_bytes (mem m1) v = ?s" "str_ok a1 m1 v" "arena_ok a1 m1"
    using arena_str_roundtrip [OF bump_vm_ok ok _ r] by simp_all
  have "str_bytes (mem m2) w = [97, 98]" "str_bytes (mem m2) v = ?s"
    using arena_str_roundtrip [OF bump_vm_ok one(3) _ r2] one by simp_all
  then show ?thesis using new r r2 by blast
qed

section \<open>Comparing strings\<close>

text \<open>Lexicographic order on bytes, a prefix before its extensions.\<close>

fun byte_cmp :: "u8 list \<Rightarrow> u8 list \<Rightarrow> int" where
  "byte_cmp [] [] = 0"
| "byte_cmp [] _ = - 1"
| "byte_cmp _ [] = 1"
| "byte_cmp (x # xs) (y # ys) = (if x < y then - 1 else if y < x then 1 else byte_cmp xs ys)"

definition cmp_tie :: "int \<Rightarrow> nat \<Rightarrow> nat \<Rightarrow> int" where
  "cmp_tie c m n = (if c \<noteq> 0 then c else if m < n then - 1 else if n < m then 1 else 0)"

lemma memcmp_0 [simp]: "memcmp xs ys 0 = 0"
  by (cases xs; cases ys) auto

lemma cmp_tie_Suc [simp]: "cmp_tie c (Suc m) (Suc n) = cmp_tie c m n"
  by (simp add: cmp_tie_def)

lemma memcmp_cmp:
  assumes "k = min (length xs) (length ys)" "xs = take (length xs) ap" "ys = take (length ys) bp"
  shows "sgn (cmp_tie (memcmp ap bp k) (length xs) (length ys)) = byte_cmp xs ys"
  using assms
proof (induction xs ys arbitrary: ap bp k rule: byte_cmp.induct)
  case (4 x xs y ys)
  obtain ap' bp' where ab: "ap = x # ap'" "xs = take (length xs) ap'" "bp = y # bp'" "ys = take (length ys) bp'"
    using 4(3,4) by (cases ap; cases bp) auto
  obtain k' where k: "k = Suc k'" "k' = min (length xs) (length ys)" using 4(2) by simp
  show ?case
  proof (cases "x = y")
    case True
    then show ?thesis using 4(1) [OF _ _ k(2) ab(2,4)] by (simp add: ab(1,3) k(1))
  next
    case False
    then have "uint x \<noteq> uint y" by (simp add: word_uint_eq_iff)
    then show ?thesis using False by (auto simp: cmp_tie_def ab(1,3) k(1) word_less_def sgn_if)
  qed
next
  case (1 ap bp k)
  show ?case by (simp add: cmp_tie_def 1(1))
next
  case (2 v va ap bp k)
  show ?case by (simp add: cmp_tie_def 2(1))
next
  case (3 v va ap bp k)
  show ?case by (simp add: cmp_tie_def 3(1))
qed

lemma memcmp_take: "n \<le> length xs \<Longrightarrow> n \<le> length ys \<Longrightarrow> memcmp (take n xs) (take n ys) n = memcmp xs ys n"
  by (induction xs ys n rule: memcmp.induct) auto

lemma mem_read_take: "k \<le> n \<Longrightarrow> mem_read h p k = take k (mem_read h p n)"
  by (rule nth_equalityI) simp_all

lemma str_cmp_memcmp:
  assumes "a \<noteq> 0" "\<not> RAY_IS_ERR h a" "b \<noteq> 0" "\<not> RAY_IS_ERR h b"
  shows "ray_str_cmp h a b =
    cmp_tie (memcmp (str_bytes h a) (str_bytes h b) (min (ray_str_len h a) (ray_str_len h b)))
      (ray_str_len h a) (ray_str_len h b)"
proof (cases "ray_str_len h a = 0 \<or> ray_str_len h b = 0")
  case True
  then show ?thesis using assms by (auto simp: ray_str_cmp_def cmp_tie_def Let_def)
next
  case False
  obtain i j where l: "ray_str_len h a = Suc i" "ray_str_len h b = Suc j"
    using False by (cases "ray_str_len h a"; cases "ray_str_len h b") auto
  define ap bp where ab: "ap = ray_str_ptr h a" "bp = ray_str_ptr h b"
  define k where "k = min i j"
  have kl: "k \<le> i" "k \<le> j" "(if Suc i < Suc j then Suc i else Suc j) = Suc k" "min (Suc i) (Suc j) = Suc k"
    by (simp_all add: k_def)
  define M where "M = memcmp (mem_read h (Suc ap) i) (mem_read h (Suc bp) j) k"
  have "memcmp (mem_read h (Suc ap) k) (mem_read h (Suc bp) k) k = M"
    using memcmp_take [of k "mem_read h (Suc ap) i" "mem_read h (Suc bp) j"] kl
      mem_read_take [OF kl(1), of h "Suc ap"] mem_read_take [OF kl(2), of h "Suc bp"] by (simp add: M_def)
  moreover have "M = 0" if "k = 0" using that by (simp add: M_def)
  ultimately have c: "(if 0 < k then memcmp (mem_read h (Suc ap) k) (mem_read h (Suc bp) k) k else 0) = M" by simp
  have xy: "uint (h ap) - uint (h bp) = 0 \<longleftrightarrow> h ap = h bp" by (simp add: word_uint_eq_iff)
  have "ray_str_cmp h a b =
      (if uint (h ap) - uint (h bp) \<noteq> 0 then uint (h ap) - uint (h bp) else cmp_tie M (Suc i) (Suc j))"
    using assms c unfolding ray_str_cmp_def Let_def l ab [symmetric] kl(3) diff_Suc_1 Suc_eq_plus1 [symmetric]
    by (simp add: cmp_tie_def)
  moreover have "memcmp (str_bytes h a) (str_bytes h b) (Suc k) = (if h ap = h bp then M else uint (h ap) - uint (h bp))"
    by (simp add: str_bytes_def l ab [symmetric] mem_read_Suc M_def)
  ultimately show ?thesis unfolding l kl(4) using xy by (auto simp: cmp_tie_def)
qed

text \<open>
  Comparing two string atoms orders their bytes lexicographically, a prefix first; the shortcut
  on the first byte changes nothing.
\<close>

theorem str_cmp_lexicographic:
  assumes "a \<noteq> 0" "\<not> RAY_IS_ERR h a" "b \<noteq> 0" "\<not> RAY_IS_ERR h b"
  shows "sgn (ray_str_cmp h a b) = byte_cmp (str_bytes h a) (str_bytes h b)"
proof -
  have l: "length (str_bytes h a) = ray_str_len h a" "length (str_bytes h b) = ray_str_len h b"
    by (simp_all add: str_bytes_def)
  then show ?thesis unfolding str_cmp_memcmp [OF assms] l [symmetric] by (intro memcmp_cmp) simp_all
qed

text \<open>Two short strings in memory: "ab" at 32 and "a" at 64.\<close>

definition cmp_memory :: "nat \<Rightarrow> u8" where
  "cmp_memory q = (if 56 \<le> q \<and> q < 59 then [2, 97, 98] ! (q - 56) else if 88 \<le> q \<and> q < 90 then [1, 97] ! (q - 88) else 0)"

theorem str_cmp_lexicographic_witness: "sgn (ray_str_cmp cmp_memory 64 32) = - 1"
proof -
  have e: "\<not> RAY_IS_ERR cmp_memory 64" "\<not> RAY_IS_ERR cmp_memory 32"
    by (simp_all add: RAY_IS_ERR_def obj_type_def cmp_memory_def)
  have s: "is_sso cmp_memory 64" "is_sso cmp_memory 32" by (simp_all add: is_sso_def cmp_memory_def)
  have l: "ray_str_len cmp_memory 64 = 1" "ray_str_len cmp_memory 32 = 2"
    "ray_str_ptr cmp_memory 64 = 89" "ray_str_ptr cmp_memory 32 = 57"
    using e s by (simp_all add: ray_str_len_def ray_str_ptr_def) (simp_all add: cmp_memory_def)
  have "sgn (ray_str_cmp cmp_memory 64 32) = byte_cmp (str_bytes cmp_memory 64) (str_bytes cmp_memory 32)"
    by (rule str_cmp_lexicographic) (simp_all add: e)
  also have "\<dots> = - 1" by (simp add: str_bytes_def l numeral_2_eq_2 mem_read_Suc cmp_memory_def)
  finally show ?thesis .
qed

end
