(* ===== verification/Sel.thy ===== *)
theory Sel
  imports Prelude
begin

text \<open>
  Selection bitmaps (\<^verbatim>\<open>vec/sel.c\<close>): one bit per row in 64-bit words, with a flag and a count of
  passing rows for each segment of 1024 rows, so that a consumer can skip a segment or process it
  without looking at its bits.  The block of a selection is a record of its four parts; what the
  functions pass around is a \<open>sel_obj\<close>, a pointer to a block with the tag that they check.
  That an allocation of a number of bytes finds memory is the parameter \<open>mem_ok\<close>.
\<close>

unbundle bit_operations_syntax

abbreviation (input) SEG_ELEMS :: nat where
  "SEG_ELEMS \<equiv> 1024"

datatype sel_flag = RAY_SEL_NONE | RAY_SEL_ALL | RAY_SEL_MIX

record sel =
  nrows :: nat
  total_pass :: int
  n_segs :: nat
  seg_flags :: "sel_flag list"
  seg_popcnt :: "nat list"
  bits :: "u64 list"

text \<open>A \<^verbatim>\<open>ray_t*\<close>: null, an error object, a selection, a vector of truth bytes, or another type.\<close>

datatype sel_obj = NULLP | ERR ray_err | SEL sel | BOOLS "u8 list" | OTHER

fun no_obj :: "sel_obj \<Rightarrow> bool" where
  "no_obj NULLP = True"
| "no_obj (ERR e) = True"
| "no_obj x = False"

definition RAY_SEL_BIT_SET :: "u64 list \<Rightarrow> nat \<Rightarrow> u64 list" where
  "RAY_SEL_BIT_SET bs r = bs[r div 64 := bs ! (r div 64) OR push_bit (r mod 64) 1]"

definition RAY_SEL_BIT_CLR :: "u64 list \<Rightarrow> nat \<Rightarrow> u64 list" where
  "RAY_SEL_BIT_CLR bs r = bs[r div 64 := bs ! (r div 64) AND NOT (push_bit (r mod 64) 1)]"

definition RAY_SEL_BIT_TEST :: "u64 list \<Rightarrow> nat \<Rightarrow> bool" where
  "RAY_SEL_BIT_TEST bs r \<longleftrightarrow> bs ! (r div 64) AND push_bit (r mod 64) 1 \<noteq> 0"

text \<open>The number of one bits of a word, \<^verbatim>\<open>__builtin_popcountll\<close>.\<close>

definition popcount :: "u64 \<Rightarrow> nat" where
  "popcount w = length (filter (bit w) [0..<64])"

section \<open>Layout and allocation\<close>

definition align8 :: "nat \<Rightarrow> nat" where
  "align8 n = (n + 7) div 8 * 8"

definition sel_data_size :: "nat \<Rightarrow> nat" where
  "sel_data_size n =
     (let n_segs = (n + SEG_ELEMS - 1) div SEG_ELEMS mod 2 ^ 32; n_words = (n + 63) div 64 mod 2 ^ 32
      in 16 + align8 n_segs + align8 (n_segs * 2) + n_words * 8)"

text \<open>Where the accessors place the counts and the words behind \<open>k\<close> segments.\<close>

definition sel_popcnt_offset :: "nat \<Rightarrow> nat" where
  "sel_popcnt_offset k = 16 + (k + 7) div 8 * 8"

definition sel_bits_offset :: "nat \<Rightarrow> nat" where
  "sel_bits_offset k = sel_popcnt_offset k + 2 * ((k + 3) div 4 * 4)"

definition ray_sel_new :: "(nat \<Rightarrow> bool) \<Rightarrow> int \<Rightarrow> sel_obj" where
  "ray_sel_new mem_ok n =
     (if n < 0 then ERR RAY_ERR_RANGE
      else if \<not> mem_ok (sel_data_size (nat n)) then NULLP
      else let n_segs = (nat n + SEG_ELEMS - 1) div SEG_ELEMS mod 2 ^ 32
           in SEL \<lparr>nrows = nat n, total_pass = 0, n_segs = n_segs,
                   seg_flags = replicate n_segs RAY_SEL_NONE, seg_popcnt = replicate n_segs 0,
                   bits = replicate ((nat n + 63) div 64 mod 2 ^ 32) 0\<rparr>)"

section \<open>Rebuilding flags and counts\<close>

definition seg_rows :: "sel \<Rightarrow> nat \<Rightarrow> nat" where
  "seg_rows s seg = min (nrows s - seg * SEG_ELEMS) SEG_ELEMS"

definition seg_pop :: "sel \<Rightarrow> nat \<Rightarrow> int" where
  "seg_pop s seg =
     (let seg_start = seg * SEG_ELEMS;
          word_start = seg_start div 64 mod 2 ^ 32;
          word_end = (seg_start + seg_rows s seg + 63) div 64 mod 2 ^ 32;
          pop = (\<Sum>w\<leftarrow>[word_start..<word_end]. int (popcount (bits s ! w)))
      in if seg = n_segs s - 1 \<and> nrows s mod 64 \<noteq> 0
         then pop - int (popcount (bits s ! (word_end - 1) AND NOT (push_bit (nrows s mod 64) 1 - 1)))
         else pop)"

definition seg_flag :: "sel \<Rightarrow> nat \<Rightarrow> sel_flag" where
  "seg_flag s seg =
     (if seg_pop s seg = 0 then RAY_SEL_NONE
      else if seg_pop s seg = int (seg_rows s seg) then RAY_SEL_ALL else RAY_SEL_MIX)"

definition sel_recompute :: "sel \<Rightarrow> sel" where
  "sel_recompute s =
     (let segs = [0..<n_segs s]
      in s\<lparr>seg_popcnt := map (\<lambda>seg. nat (seg_pop s seg mod 2 ^ 16)) segs,
           seg_flags := map (seg_flag s) segs,
           total_pass := (\<Sum>seg\<leftarrow>segs. seg_pop s seg)\<rparr>)"

definition ray_sel_recompute :: "sel_obj \<Rightarrow> sel_obj" where
  "ray_sel_recompute x = (case x of SEL s \<Rightarrow> SEL (sel_recompute s) | _ \<Rightarrow> x)"

section \<open>Building and combining selections\<close>

text \<open>The first \<open>n\<close> truth bytes from \<open>p\<close> packed into a word.\<close>

definition pack_word :: "u8 list \<Rightarrow> nat \<Rightarrow> u64" where
  "pack_word p n = foldl (\<lambda>word b. word OR push_bit b (if p ! b \<noteq> 0 then 1 else 0)) 0 [0..<n]"

definition ray_sel_from_pred :: "(nat \<Rightarrow> bool) \<Rightarrow> sel_obj \<Rightarrow> sel_obj" where
  "ray_sel_from_pred mem_ok pred =
     (case pred of
        NULLP \<Rightarrow> pred | ERR e \<Rightarrow> pred
      | BOOLS src \<Rightarrow>
          (case ray_sel_new mem_ok (int (length src)) of
             SEL s \<Rightarrow>
               let full_words = length src div 64;
                   b = fold (\<lambda>w bs. bs[w := pack_word (drop (w * 64) src) 64]) [0..<full_words] (bits s);
                   rem = length src mod 64;
                   b = if rem \<noteq> 0 then b[full_words := pack_word (drop (full_words * 64) src) rem] else b
               in ray_sel_recompute (SEL (s\<lparr>bits := b\<rparr>))
           | failed \<Rightarrow> failed)
      | _ \<Rightarrow> ERR RAY_ERR_TYPE)"

definition ray_sel_and :: "(nat \<Rightarrow> bool) \<Rightarrow> sel_obj \<Rightarrow> sel_obj \<Rightarrow> sel_obj" where
  "ray_sel_and mem_ok x y =
     (if no_obj x then x
      else if no_obj y then y
      else case (x, y) of
        (SEL a, SEL b) \<Rightarrow>
          (if nrows a \<noteq> nrows b then ERR RAY_ERR_RANGE
           else case ray_sel_new mem_ok (int (nrows a)) of
                  SEL out \<Rightarrow>
                    let n_words = (nrows a + 63) div 64 mod 2 ^ 32
                    in ray_sel_recompute
                         (SEL (out\<lparr>bits := fold (\<lambda>w dst. dst[w := bits a ! w AND bits b ! w]) [0..<n_words] (bits out)\<rparr>))
                | failed \<Rightarrow> failed)
      | _ \<Rightarrow> ERR RAY_ERR_TYPE)"

section \<open>Counting\<close>

definition selected :: "sel \<Rightarrow> nat \<Rightarrow> bool" where
  "selected s r \<longleftrightarrow> r < nrows s \<and> RAY_SEL_BIT_TEST (bits s) r"

definition count_sel :: "sel \<Rightarrow> nat \<Rightarrow> nat \<Rightarrow> nat" where
  "count_sel s a b = length (filter (selected s) [a..<b])"

definition seg_end :: "sel \<Rightarrow> nat \<Rightarrow> nat" where
  "seg_end s seg = min (nrows s) ((seg + 1) * SEG_ELEMS)"

text \<open>Sizes of a block whose word and segment counts fit their 32-bit fields.\<close>

definition shape_ok :: "sel \<Rightarrow> bool" where
  "shape_ok s \<longleftrightarrow> nrows s \<le> 2 ^ 37 \<and> n_segs s = (nrows s + 1023) div 1024 \<and> length (bits s) = (nrows s + 63) div 64"

text \<open>Flags and counts that agree with the bits.\<close>

definition sel_ok :: "sel \<Rightarrow> bool" where
  "sel_ok s \<longleftrightarrow> shape_ok s \<and> length (seg_flags s) = n_segs s \<and> length (seg_popcnt s) = n_segs s \<and>
     total_pass s = int (count_sel s 0 (nrows s)) \<and>
     (\<forall>seg < n_segs s.
        seg_popcnt s ! seg = count_sel s (seg * 1024) (seg_end s seg) \<and>
        (seg_flags s ! seg = RAY_SEL_NONE \<longleftrightarrow> (\<forall>r. seg * 1024 \<le> r \<and> r < seg_end s seg \<longrightarrow> \<not> selected s r)) \<and>
        (seg_flags s ! seg = RAY_SEL_ALL \<longleftrightarrow> (\<forall>r. seg * 1024 \<le> r \<and> r < seg_end s seg \<longrightarrow> selected s r)))"

section \<open>The layout\<close>

lemma sel_layout:
  "n \<le> 2 ^ 37 \<Longrightarrow> sel_bits_offset ((n + 1023) div 1024) + 8 * ((n + 63) div 64) = sel_data_size n"
proof -
  assume n: "n \<le> 2 ^ 37"
  define k where "k = (n + 1023) div 1024"
  have k: "k < 2 ^ 32" using n by (simp add: k_def)
  have w: "(n + 63) div 64 < 2 ^ 32" using n by simp
  have k8: "(k * 2 + 7) div 8 = (k + 3) div 4" using div_mult2_eq [of "k * 2 + 7" 2 4] by simp
  have "sel_data_size n = 16 + align8 k + align8 (k * 2) + (n + 63) div 64 * 8"
    unfolding sel_data_size_def Let_def using k w by (simp add: k_def add.commute)
  then show ?thesis
    unfolding k_def [symmetric] sel_bits_offset_def sel_popcnt_offset_def align8_def k8 by simp
qed

section \<open>Bits and rows\<close>

lemma word_of_bit_pos: "push_bit i 1 \<noteq> (0 :: u64)" if "i < 64"
proof
  assume "push_bit i 1 = (0 :: u64)"
  then have "bit (push_bit i 1 :: u64) i = bit (0 :: u64) i" by (rule arg_cong)
  then show False using that by (simp add: bit_push_bit_iff del: push_bit_of_1)
qed

lemma bit_test_iff: "RAY_SEL_BIT_TEST bs r \<longleftrightarrow> bit (bs ! (r div 64)) (r mod 64)"
proof -
  have "bs ! (r div 64) AND push_bit (r mod 64) 1 = (if bit (bs ! (r div 64)) (r mod 64) then push_bit (r mod 64) 1 else 0)"
    by (rule bit_word_eqI) (auto simp: bit_simps)
  moreover have "push_bit (r mod 64) 1 \<noteq> (0 :: u64)"
    by (rule word_of_bit_pos) simp
  ultimately show ?thesis unfolding RAY_SEL_BIT_TEST_def by simp
qed

lemma up64: "(64 * k + 63) div 64 = k" for k :: nat by simp

lemma upt_shift: "[64 * w + a..<64 * w + b] = map (\<lambda>i. 64 * w + i) [a..<b]" for w a b :: nat
  by (induction b) (auto simp: not_le)

lemma count_word:
  assumes "b \<le> 64"
  shows "length (filter (RAY_SEL_BIT_TEST bs) [64 * w + a..<64 * w + b]) = length (filter (bit (bs ! w)) [a..<b])"
proof -
  have "filter (RAY_SEL_BIT_TEST bs) [64 * w + a..<64 * w + b] = map (\<lambda>i. 64 * w + i) (filter (\<lambda>i. RAY_SEL_BIT_TEST bs (64 * w + i)) [a..<b])"
    unfolding upt_shift filter_map comp_def ..
  moreover have "filter (\<lambda>i. RAY_SEL_BIT_TEST bs (64 * w + i)) [a..<b] = filter (bit (bs ! w)) [a..<b]"
    using assms by (intro filter_cong) (auto simp: bit_test_iff)
  ultimately show ?thesis by simp
qed

lemma count_words:
  assumes "a \<le> b"
  shows "(\<Sum>w\<leftarrow>[a..<b]. int (popcount (bs ! w))) = int (length (filter (RAY_SEL_BIT_TEST bs) [64 * a..<64 * b]))"
  using assms
proof (induction b rule: dec_induct)
  case (step b)
  have "[64 * a..<64 * Suc b] = [64 * a..<64 * b] @ [64 * b..<64 * b + 64]"
    using step upt_add_eq_append [of "64 * a" "64 * b" 64] by (simp add: algebra_simps)
  then show ?case using step count_word [of 64 bs b 0] by (simp add: popcount_def)
qed simp

lemma popcount_trail:
  assumes "v < 64"
  shows "popcount (w AND NOT (push_bit v 1 - 1)) = length (filter (bit w) [v..<64])"
proof -
  have m: "push_bit v 1 - 1 = (mask v :: u64)" by (simp add: mask_eq_exp_minus_1 push_bit_eq_mult)
  have "[0..<64] = [0..<v] @ [v..<64]" using assms upt_add_eq_append [of 0 v "64 - v"] by simp
  moreover have "filter (bit (w AND NOT (mask v))) [0..<v] = []" by (auto simp: filter_empty_conv bit_simps)
  moreover have "filter (bit (w AND NOT (mask v))) [v..<64] = filter (bit w) [v..<64]"
    by (intro filter_cong) (auto simp: bit_simps)
  ultimately show ?thesis unfolding popcount_def m by simp
qed

lemma count_sel_bits:
  "b \<le> nrows s \<Longrightarrow> count_sel s a b = length (filter (RAY_SEL_BIT_TEST (bits s)) [a..<b])"
  unfolding count_sel_def by (intro arg_cong [of _ _ length] filter_cong) (auto simp: selected_def)

lemma seg_pop_count:
  assumes "shape_ok s" "seg < n_segs s"
  shows "seg_pop s seg = int (count_sel s (seg * 1024) (seg_end s seg))"
proof -
  define n where "n = nrows s"
  have n: "n \<le> 2 ^ 37" "n_segs s = (n + 1023) div 1024" using assms(1) by (auto simp: shape_ok_def n_def)
  have lt: "seg * 1024 < n" using assms(2) n(2) by simp
  have en: "seg * 1024 + seg_rows s seg = seg_end s seg" "seg_end s seg \<le> n" "seg * 1024 < seg_end s seg"
    using lt by (auto simp: seg_rows_def seg_end_def n_def min_def)
  define we where "we = (seg_end s seg + 63) div 64"
  have ws: "seg * 1024 div 64 mod 2 ^ 32 = seg * 16" using lt n(1) by simp
  have we: "(seg * 1024 + seg_rows s seg + 63) div 64 mod 2 ^ 32 = we" using en(1,2) n(1) by (simp add: we_def)
  have le: "seg * 16 \<le> we" "seg_end s seg \<le> 64 * we" using en(3) by (simp_all add: we_def)
  let ?B = "RAY_SEL_BIT_TEST (bits s)"
  have pop: "(\<Sum>w\<leftarrow>[seg * 16..<we]. int (popcount (bits s ! w))) = int (length (filter ?B [seg * 1024..<64 * we]))"
    using count_words [OF le(1), of "bits s"] by (simp add: mult.commute)
  have split: "length (filter ?B [seg * 1024..<64 * we]) =
      length (filter ?B [seg * 1024..<seg_end s seg]) + length (filter ?B [seg_end s seg..<64 * we])"
    using upt_add_eq_append [of "seg * 1024" "seg_end s seg" "64 * we - seg_end s seg"] le(2) en(3) by simp
  have cnt: "count_sel s (seg * 1024) (seg_end s seg) = length (filter ?B [seg * 1024..<seg_end s seg])"
    using en(2) by (intro count_sel_bits) (simp add: n_def)
  show ?thesis
  proof (cases "seg = n_segs s - 1 \<and> n mod 64 \<noteq> 0")
    case True
    have "n \<le> (seg + 1) * 1024" using True n(2) lt by simp
    then have e: "seg_end s seg = n" by (simp add: seg_end_def n_def)
    define w where "w = n div 64"
    have wn: "n = 64 * w + n mod 64" by (simp add: w_def)
    have "we = w + 1"
    proof -
      define v where "v = n mod 64"
      have v: "0 < v" "v < 64" "n = 64 * w + v" using True by (simp_all add: v_def w_def)
      have "n + 63 = (v - 1) + (w + 1) * 64" using v by simp
      then have "we = (v - 1) div 64 + (w + 1)" unfolding we_def e by simp
      then show ?thesis using v(2) by simp
    qed
    then have w1: "we - 1 = w" "64 * we = 64 * w + 64" by simp_all
    have "popcount (bits s ! w AND NOT (push_bit (n mod 64) 1 - 1)) = length (filter (bit (bits s ! w)) [n mod 64..<64])"
      by (rule popcount_trail) simp
    also have "\<dots> = length (filter ?B [n..<64 * we])"
      using count_word [of 64 "bits s" w "n mod 64"] wn w1 by simp
    finally have "popcount (bits s ! (we - 1) AND NOT (push_bit (n mod 64) 1 - 1)) = length (filter ?B [seg_end s seg..<64 * we])"
      unfolding w1 e .
    then show ?thesis using True pop split cnt unfolding seg_pop_def Let_def ws we n_def [symmetric] by simp
  next
    case False
    have "seg_end s seg = 64 * we"
    proof (cases "seg = n_segs s - 1")
      case True
      then have "n \<le> (seg + 1) * 1024" "n mod 64 = 0" using False n(2) lt by simp_all
      then show ?thesis by (auto simp: we_def seg_end_def n_def [symmetric] elim!: dvdE dest!: mod_0_imp_dvd)
    next
      case ne: False
      then have "(seg + 1) * 1024 \<le> n" using assms(2) n(2) by simp
      then have "seg_end s seg = 64 * (16 * seg + 16)" by (simp add: seg_end_def n_def)
      then show ?thesis unfolding we_def by (simp only: up64)
    qed
    then show ?thesis using False pop cnt unfolding seg_pop_def Let_def ws we n_def [symmetric] by auto
  qed
qed

section \<open>Flags and counts agree with the bits\<close>

lemma count_sel_append: "a \<le> b \<Longrightarrow> b \<le> c \<Longrightarrow> count_sel s a c = count_sel s a b + count_sel s b c"
  using upt_add_eq_append [of a b "c - b"] by (simp add: count_sel_def)

lemma count_sel_le: "count_sel s a b \<le> b - a"
  using length_filter_le [of "selected s" "[a..<b]"] by (simp add: count_sel_def)

lemma count_sel_none: "count_sel s a b = 0 \<longleftrightarrow> (\<forall>r. a \<le> r \<and> r < b \<longrightarrow> \<not> selected s r)"
  by (auto simp: count_sel_def filter_empty_conv)

lemma count_sel_all: "count_sel s a b = b - a \<longleftrightarrow> (\<forall>r. a \<le> r \<and> r < b \<longrightarrow> selected s r)"
proof -
  have "length (filter (selected s) [a..<b]) = length [a..<b] \<longleftrightarrow> (\<forall>r \<in> set [a..<b]. selected s r)"
    by (metis filter_True length_filter_less nat_neq_iff)
  then show ?thesis by (auto simp: count_sel_def)
qed

lemma seg_end_Suc: "seg < (n + 1023) div 1024 \<Longrightarrow> nrows s = n \<Longrightarrow> seg * 1024 < seg_end s seg"
  by (auto simp: seg_end_def min_def)

lemma total_count:
  assumes "shape_ok s" "k \<le> n_segs s"
  shows "(\<Sum>seg\<leftarrow>[0..<k]. seg_pop s seg) = int (count_sel s 0 (min (nrows s) (k * 1024)))"
  using assms(2)
proof (induction k)
  case 0
  then show ?case by (simp add: count_sel_def)
next
  case (Suc k)
  have "k * 1024 < nrows s" using Suc.prems assms(1) by (simp add: shape_ok_def)
  then have "min (nrows s) (k * 1024) = k * 1024" "k * 1024 \<le> seg_end s k" "min (nrows s) (Suc k * 1024) = seg_end s k"
    by (simp_all add: seg_end_def)
  then show ?case using Suc seg_pop_count [OF assms(1), of k] count_sel_append [of 0 "k * 1024" "seg_end s k" s] by simp
qed

lemma sel_recompute_sel [simp]:
  "nrows (sel_recompute s) = nrows s" "bits (sel_recompute s) = bits s" "n_segs (sel_recompute s) = n_segs s"
  by (simp_all add: sel_recompute_def Let_def)

lemma sel_recompute_rows [simp]:
  "selected (sel_recompute s) = selected s" "seg_end (sel_recompute s) = seg_end s" "shape_ok (sel_recompute s) = shape_ok s"
  by (auto simp: selected_def seg_end_def shape_ok_def)

lemma sel_recompute_count [simp]: "count_sel (sel_recompute s) = count_sel s"
  by (simp add: count_sel_def fun_eq_iff)

lemma recompute_sel_ok:
  assumes "shape_ok s"
  shows "sel_ok (sel_recompute s)"
proof -
  have n: "nrows s \<le> n_segs s * 1024" using assms by (simp add: shape_ok_def)
  have tot: "total_pass (sel_recompute s) = int (count_sel s 0 (nrows s))"
    using total_count [OF assms le_refl] n by (simp add: sel_recompute_def Let_def min_absorb1)
  have seg: "seg_popcnt (sel_recompute s) ! seg = count_sel s (seg * 1024) (seg_end s seg) \<and>
      (seg_flags (sel_recompute s) ! seg = RAY_SEL_NONE \<longleftrightarrow> count_sel s (seg * 1024) (seg_end s seg) = 0) \<and>
      (seg_flags (sel_recompute s) ! seg = RAY_SEL_ALL \<longleftrightarrow> count_sel s (seg * 1024) (seg_end s seg) = seg_end s seg - seg * 1024)"
    if "seg < n_segs s" for seg
  proof -
    define c where "c = count_sel s (seg * 1024) (seg_end s seg)"
    have lt: "seg * 1024 < nrows s" using that assms by (simp add: shape_ok_def)
    have rows: "seg_rows s seg = seg_end s seg - seg * 1024" "0 < seg_rows s seg" "seg_rows s seg \<le> 1024"
      using lt by (auto simp: seg_rows_def seg_end_def min_def)
    have "c \<le> 1024" using count_sel_le [of s "seg * 1024" "seg_end s seg"] rows by (simp add: c_def)
    moreover have pop: "seg_pop s seg = int c" using seg_pop_count [OF assms that] by (simp add: c_def)
    moreover have "seg_flag s seg = (if c = 0 then RAY_SEL_NONE else if c = seg_rows s seg then RAY_SEL_ALL else RAY_SEL_MIX)"
      by (simp add: seg_flag_def pop)
    ultimately show ?thesis
      using that rows unfolding c_def [symmetric] by (simp add: sel_recompute_def Let_def)
  qed
  have len: "length (seg_flags (sel_recompute s)) = n_segs s" "length (seg_popcnt (sel_recompute s)) = n_segs s"
    by (simp_all add: sel_recompute_def Let_def)
  show ?thesis
    unfolding sel_ok_def sel_recompute_sel sel_recompute_rows sel_recompute_count
    using assms tot len seg by (simp only: count_sel_none count_sel_all) blast
qed

lemma fold_upd_length: "length (fold (\<lambda>w ys. ys[w := f w]) ws xs) = length xs"
  by (induction ws arbitrary: xs) simp_all

lemma fold_upd_nth:
  "k \<le> length xs \<Longrightarrow> i < length xs \<Longrightarrow>
     fold (\<lambda>w ys. ys[w := f w]) [0..<k] xs ! i = (if i < k then f i else xs ! i)"
  by (induction k) (auto simp: nth_list_update fold_upd_length)


section \<open>What the constructors build\<close>

lemma bit_pack_word: "n \<le> 64 \<Longrightarrow> bit (pack_word p n) i \<longleftrightarrow> i < n \<and> p ! i \<noteq> 0"
proof (induction n)
  case (Suc n)
  have "pack_word p (Suc n) = pack_word p n OR push_bit n (if p ! n \<noteq> 0 then 1 else 0)" by (simp add: pack_word_def)
  then show ?case using Suc by (auto simp: bit_or_iff bit_push_bit_iff bit_1_iff less_Suc_eq split: if_splits)
qed (simp add: pack_word_def)

lemma ray_sel_new_SEL:
  assumes "n \<le> 2 ^ 37" "mem_ok (sel_data_size n)"
  shows "\<exists>s. ray_sel_new mem_ok (int n) = SEL s \<and> shape_ok s \<and> nrows s = n \<and> bits s = replicate ((n + 63) div 64) 0"
proof -
  have "(n + 1023) div 1024 mod 2 ^ 32 = (n + 1023) div 1024" "(n + 63) div 64 mod 2 ^ 32 = (n + 63) div 64"
    using assms(1) by simp_all
  then show ?thesis using assms by (simp add: ray_sel_new_def Let_def shape_ok_def)
qed

lemma shape_ok_bits: "shape_ok s \<Longrightarrow> length bs = length (bits s) \<Longrightarrow> shape_ok (s\<lparr>bits := bs\<rparr>)"
  by (simp add: shape_ok_def)

lemma row_word: "r < n \<Longrightarrow> r div 64 < (n + 63) div 64" for r n :: nat
  using div_le_mono [of "r + 64" "n + 63" 64] by simp

lemma from_pred_bits:
  assumes "r < length src"
  shows "bit ((let full_words = length src div 64;
                   b = fold (\<lambda>w bs. bs[w := pack_word (drop (w * 64) src) 64]) [0..<full_words] (replicate ((length src + 63) div 64) 0);
                   rem = length src mod 64
               in if rem \<noteq> 0 then b[full_words := pack_word (drop (full_words * 64) src) rem] else b) ! (r div 64)) (r mod 64)
         \<longleftrightarrow> src ! r \<noteq> 0"
proof -
  define n where "n = length src"
  define k where "k = n div 64"
  define b where "b = fold (\<lambda>w bs. bs[w := pack_word (drop (w * 64) src) 64]) [0..<k] (replicate ((n + 63) div 64) (0 :: u64))"
  have len: "length b = (n + 63) div 64" by (simp add: b_def fold_upd_length)
  have r: "r div 64 < (n + 63) div 64" "r < n" using row_word [of r n] assms by (simp_all add: n_def)
  have kle: "k \<le> (n + 63) div 64" by (simp add: k_def div_le_mono)
  have src: "drop (r div 64 * 64) src ! (r mod 64) = src ! r" using r by (simp add: n_def)
  show ?thesis
  proof (cases "r div 64 < k")
    case True
    then have "b ! (r div 64) = pack_word (drop (r div 64 * 64) src) 64" unfolding b_def using r kle by (simp add: fold_upd_nth)
    then show ?thesis using True src unfolding n_def [symmetric] k_def [symmetric] b_def [symmetric] Let_def by (simp add: bit_pack_word)
  next
    case False
    then have e: "r div 64 = k" using r(2) div_le_mono [of r n 64] by (simp add: k_def)
    have m: "r mod 64 < n mod 64" using r(2) e unfolding k_def by (metis div_mult_mod_eq nat_add_left_cancel_less)
    then show ?thesis
      using src e len r(1) unfolding n_def [symmetric] k_def [symmetric] b_def [symmetric] Let_def by (simp add: bit_pack_word less_imp_le)
  qed
qed

text \<open>
  C18.  Packing a vector of at most \<open>2 ^ 37\<close> truth bytes, when memory is found, gives a selection whose flags, segment
  counts and total agree with its bits, and whose selected rows are exactly the rows with a non-zero byte.
\<close>

theorem sel_from_pred_correct:
  assumes "length src \<le> 2 ^ 37" "mem_ok (sel_data_size (length src))"
  shows "\<exists>s. ray_sel_from_pred mem_ok (BOOLS src) = SEL s \<and> sel_ok s \<and> nrows s = length src \<and>
    (\<forall>r. selected s r \<longleftrightarrow> r < length src \<and> src ! r \<noteq> 0)"
proof -
  obtain s where s: "ray_sel_new mem_ok (int (length src)) = SEL s" "shape_ok s" "nrows s = length src"
      "bits s = replicate ((length src + 63) div 64) 0"
    using ray_sel_new_SEL [OF assms(1), of mem_ok] assms(2) by blast
  define bs where "bs = (let full_words = length src div 64;
                   b = fold (\<lambda>w bs. bs[w := pack_word (drop (w * 64) src) 64]) [0..<full_words] (bits s);
                   rem = length src mod 64
               in if rem \<noteq> 0 then b[full_words := pack_word (drop (full_words * 64) src) rem] else b)"
  have res: "ray_sel_from_pred mem_ok (BOOLS src) = SEL (sel_recompute (s\<lparr>bits := bs\<rparr>))"
    by (simp add: ray_sel_from_pred_def ray_sel_recompute_def s(1) bs_def Let_def)
  have "length bs = length (bits s)" by (simp add: bs_def Let_def fold_upd_length)
  then have "shape_ok (s\<lparr>bits := bs\<rparr>)" using s(2) by (rule shape_ok_bits [rotated])
  moreover have "selected (s\<lparr>bits := bs\<rparr>) r \<longleftrightarrow> r < length src \<and> src ! r \<noteq> 0" for r
    using from_pred_bits [of r src] unfolding bs_def s(4) by (auto simp: selected_def bit_test_iff s(3))
  ultimately show ?thesis using res recompute_sel_ok [of "s\<lparr>bits := bs\<rparr>"] s(3) by auto
qed

lemma sel_from_pred_correct_witness:
  "\<exists>s. ray_sel_from_pred (\<lambda>_. True) (BOOLS [1, 0, 255]) = SEL s \<and> sel_ok s \<and> nrows s = 3 \<and>
    (\<forall>r. selected s r \<longleftrightarrow> r < 3 \<and> [1, 0, 255 :: u8] ! r \<noteq> 0)"
  using sel_from_pred_correct [of "[1, 0, 255]" "\<lambda>_. True"] by (simp add: numeral_3_eq_3)

text \<open>
  The conjunction of two selections: lengths that differ are a range error and an allocation that
  fails is a null pointer; otherwise the result is consistent and selects the rows both select.
\<close>

theorem sel_and_correct:
  assumes "sel_ok a" "sel_ok b"
  shows "(nrows a \<noteq> nrows b \<longrightarrow> ray_sel_and mem_ok (SEL a) (SEL b) = ERR RAY_ERR_RANGE) \<and>
    (nrows a = nrows b \<and> \<not> mem_ok (sel_data_size (nrows a)) \<longrightarrow> ray_sel_and mem_ok (SEL a) (SEL b) = NULLP) \<and>
    (nrows a = nrows b \<and> mem_ok (sel_data_size (nrows a)) \<longrightarrow>
       (\<exists>s. ray_sel_and mem_ok (SEL a) (SEL b) = SEL s \<and> sel_ok s \<and> nrows s = nrows a \<and>
          (\<forall>r. selected s r \<longleftrightarrow> selected a r \<and> selected b r)))"
proof -
  have "\<exists>s. ray_sel_and mem_ok (SEL a) (SEL b) = SEL s \<and> sel_ok s \<and> nrows s = nrows a \<and>
      (\<forall>r. selected s r \<longleftrightarrow> selected a r \<and> selected b r)"
    if eq: "nrows a = nrows b" and mem: "mem_ok (sel_data_size (nrows a))"
  proof -
    define n where "n = nrows a"
    have le: "n \<le> 2 ^ 37" using assms(1) by (simp add: sel_ok_def shape_ok_def n_def)
    obtain s where s: "ray_sel_new mem_ok (int n) = SEL s" "shape_ok s" "nrows s = n" "bits s = replicate ((n + 63) div 64) 0"
      using ray_sel_new_SEL [OF le, of mem_ok] mem by (auto simp: n_def)
    have w: "(n + 63) div 64 mod 2 ^ 32 = (n + 63) div 64" using le by simp
    define bs where "bs = fold (\<lambda>w dst. dst[w := bits a ! w AND bits b ! w]) [0..<(n + 63) div 64] (bits s)"
    have res: "ray_sel_and mem_ok (SEL a) (SEL b) = SEL (sel_recompute (s\<lparr>bits := bs\<rparr>))"
      using eq s(1) w by (simp add: ray_sel_and_def ray_sel_recompute_def bs_def n_def)
    have "length bs = length (bits s)" by (simp add: bs_def fold_upd_length)
    then have "shape_ok (s\<lparr>bits := bs\<rparr>)" using s(2) by (rule shape_ok_bits [rotated])
    moreover have "selected (s\<lparr>bits := bs\<rparr>) r \<longleftrightarrow> selected a r \<and> selected b r" for r
      using row_word [of r n] eq
      by (auto simp: selected_def bit_test_iff s(3) bs_def s(4) fold_upd_nth bit_and_iff n_def [symmetric])
    ultimately show ?thesis using res recompute_sel_ok [of "s\<lparr>bits := bs\<rparr>"] s(3) by (auto simp: n_def)
  qed
  then show ?thesis by (auto simp: ray_sel_and_def ray_sel_new_def)
qed

definition three_rows :: "u64 \<Rightarrow> sel" where
  "three_rows w = sel_recompute \<lparr>nrows = 3, total_pass = 0, n_segs = 1, seg_flags = [RAY_SEL_NONE], seg_popcnt = [0], bits = [w]\<rparr>"

lemma three_rows_ok: "sel_ok (three_rows w)"
  unfolding three_rows_def by (rule recompute_sel_ok) (simp add: shape_ok_def)

lemma sel_and_correct_witness:
  "\<exists>s. ray_sel_and (\<lambda>_. True) (SEL (three_rows 5)) (SEL (three_rows 6)) = SEL s \<and> sel_ok s \<and> nrows s = 3 \<and>
     (\<forall>r. selected s r \<longleftrightarrow> selected (three_rows 5) r \<and> selected (three_rows 6) r)"
proof -
  have "nrows (three_rows w) = 3" for w by (simp add: three_rows_def)
  then show ?thesis using sel_and_correct [OF three_rows_ok [of 5] three_rows_ok [of 6], of "\<lambda>_. True"] by simp
qed

text \<open>The bit macros: setting and clearing a row's bit changes the test of that row only.\<close>

lemma bit_set_test:
  assumes "r div 64 < length bs" "q div 64 < length bs"
  shows "RAY_SEL_BIT_TEST (RAY_SEL_BIT_SET bs r) q \<longleftrightarrow> q = r \<or> RAY_SEL_BIT_TEST bs q"
    "RAY_SEL_BIT_TEST (RAY_SEL_BIT_CLR bs r) q \<longleftrightarrow> q \<noteq> r \<and> RAY_SEL_BIT_TEST bs q"
proof -
  have eq: "q = r \<longleftrightarrow> q div 64 = r div 64 \<and> q mod 64 = r mod 64" by (metis div_mult_mod_eq)
  have bit1: "bit (push_bit (r mod 64) 1 :: u64) (q mod 64) \<longleftrightarrow> q mod 64 = r mod 64"
    by (auto simp: bit_push_bit_iff bit_1_iff simp del: push_bit_of_1)
  show "RAY_SEL_BIT_TEST (RAY_SEL_BIT_SET bs r) q \<longleftrightarrow> q = r \<or> RAY_SEL_BIT_TEST bs q"
    unfolding bit_test_iff RAY_SEL_BIT_SET_def using assms eq bit1
    by (auto simp: nth_list_update bit_or_iff simp del: push_bit_of_1)
  show "RAY_SEL_BIT_TEST (RAY_SEL_BIT_CLR bs r) q \<longleftrightarrow> q \<noteq> r \<and> RAY_SEL_BIT_TEST bs q"
    unfolding bit_test_iff RAY_SEL_BIT_CLR_def using assms eq bit1
    by (auto simp: nth_list_update bit_and_iff bit_not_iff simp del: push_bit_of_1)
qed

end
