(* ===== verification/Lftj.thy ===== *)
theory Lftj
  imports Prelude
begin

text \<open>
  Leapfrog triejoin: the iterators over sorted adjacency lists (\<^verbatim>\<open>ops/lftj.h\<close>, on the compressed
  rows of \<^verbatim>\<open>store/csr.h\<close>), the k-way intersection \<open>leapfrog_search\<close>, the construction of the
  binding plan from a pattern, and the backtracking enumeration \<open>lftj_enumerate\<close> (\<^verbatim>\<open>ops/lftj.c\<close>).

  A null pointer is \<^term>\<open>None\<close>.  The unbounded loops run in the option monad, where \<^term>\<open>None\<close>
  means that the loop does not return.  Whether a growth of the output buffers finds memory, and
  whether the user interrupts at the \<open>n\<close>-th checkpoint, are parameters.
\<close>

section \<open>Iterators\<close>

abbreviation (input) INT64_MAX :: int where
  "INT64_MAX \<equiv> 9223372036854775807"

record csr =
  offsets :: "nat list option"
  targets :: "int list option"
  n_nodes :: int

record lftj_iter =
  itargets :: "int list option"
  istart :: nat
  iend :: nat
  pos :: nat

definition lftj_at_end :: "lftj_iter \<Rightarrow> bool" where
  "lftj_at_end it \<longleftrightarrow> itargets it = None \<or> iend it \<le> pos it"

definition lftj_key :: "lftj_iter \<Rightarrow> int" where
  "lftj_key it =
     (case itargets it of
        None \<Rightarrow> INT64_MAX
      | Some ts \<Rightarrow> if iend it \<le> pos it then INT64_MAX else ts ! pos it)"

definition lftj_next :: "lftj_iter \<Rightarrow> lftj_iter" where
  "lftj_next it = (if pos it < iend it then it\<lparr>pos := pos it + 1\<rparr> else it)"

function seek_loop :: "int list \<Rightarrow> int \<Rightarrow> nat \<Rightarrow> nat \<Rightarrow> nat" where
  "seek_loop ts v lo hi =
     (if lo < hi
      then let mid = lo + (hi - lo) div 2
           in if ts ! mid < v then seek_loop ts v (mid + 1) hi else seek_loop ts v lo mid
      else lo)"
  by auto
termination by (relation "measure (\<lambda>(ts, v, lo, hi). hi - lo)") auto

declare seek_loop.simps [simp del]

definition lftj_seek :: "lftj_iter \<Rightarrow> int \<Rightarrow> lftj_iter" where
  "lftj_seek it v =
     (case itargets it of
        None \<Rightarrow> it\<lparr>pos := iend it\<rparr>
      | Some ts \<Rightarrow> it\<lparr>pos := seek_loop ts v (pos it) (iend it)\<rparr>)"

definition lftj_open :: "csr option \<Rightarrow> int \<Rightarrow> lftj_iter" where
  "lftj_open c parent =
     (case c of
        None \<Rightarrow> \<lparr>itargets = None, istart = 0, iend = 0, pos = 0\<rparr>
      | Some g \<Rightarrow>
          (case (offsets g, targets g) of
             (Some os, Some ts) \<Rightarrow>
               if parent < 0 \<or> n_nodes g \<le> parent then \<lparr>itargets = None, istart = 0, iend = 0, pos = 0\<rparr>
               else \<lparr>itargets = Some ts, istart = os ! nat parent, iend = os ! (nat parent + 1), pos = os ! nat parent\<rparr>
           | _ \<Rightarrow> \<lparr>itargets = None, istart = 0, iend = 0, pos = 0\<rparr>))"

section \<open>Leapfrog search\<close>

definition find_max :: "lftj_iter list \<Rightarrow> nat" where
  "find_max its =
     foldl (\<lambda>mx i. if lftj_key (its ! mx) < lftj_key (its ! i) then i else mx) 0 [1..<length its]"

text \<open>The endless loop: \<^term>\<open>Some (its', None)\<close> is \<open>return false\<close>, \<^term>\<open>Some (its', Some v)\<close> a match.\<close>

partial_function (option) leap_loop :: "lftj_iter list \<Rightarrow> nat \<Rightarrow> (lftj_iter list \<times> int option) option" where
  "leap_loop its max_idx =
     (let max_val = lftj_key (its ! max_idx);
          nx = (max_idx + 1) mod length its;
          its = its[nx := lftj_seek (its ! nx) max_val]
      in if lftj_at_end (its ! nx) then Some (its, None)
         else if lftj_key (its ! nx) = max_val \<and> (\<forall>it \<in> set its. lftj_key it = max_val)
         then Some (its, Some max_val)
         else leap_loop its nx)"

definition leapfrog_search :: "lftj_iter list \<Rightarrow> (lftj_iter list \<times> int option) option" where
  "leapfrog_search its =
     (if its = [] then Some (its, None)
      else if \<exists>it \<in> set its. lftj_at_end it then Some (its, None)
      else leap_loop its (find_max its))"

section \<open>The binding plan\<close>

abbreviation (input) LFTJ_MAX_VARS :: nat where
  "LFTJ_MAX_VARS \<equiv> 16"

abbreviation (input) LFTJ_MAX_ITERS_PER_VAR :: nat where
  "LFTJ_MAX_ITERS_PER_VAR \<equiv> 8"

record rel =
  fwd :: csr
  rev_csr :: csr

type_synonym binding = "csr option \<times> nat"

type_synonym plan = "binding list list"

definition add_binding :: "plan \<Rightarrow> nat \<Rightarrow> binding \<Rightarrow> plan option" where
  "add_binding p v b =
     (if LFTJ_MAX_ITERS_PER_VAR \<le> length (p ! v) then None else Some (p[v := p ! v @ [b]]))"

fun plan_loop :: "nat \<Rightarrow> plan \<Rightarrow> (rel \<times> nat \<times> nat) list \<Rightarrow> plan option" where
  "plan_loop n_vars p [] = Some p"
| "plan_loop n_vars p ((r, sv, dv) # rs) =
     (if sv = dv then plan_loop n_vars p rs
      else if n_vars \<le> sv \<or> n_vars \<le> dv then None
      else case (if sv < dv then add_binding p dv (Some (fwd r), sv)
                 else add_binding p sv (Some (rev_csr r), dv)) of
             None \<Rightarrow> None
           | Some p \<Rightarrow> plan_loop n_vars p rs)"

definition lftj_build_plan :: "rel list \<Rightarrow> nat \<Rightarrow> nat list \<Rightarrow> nat list \<Rightarrow> plan option" where
  "lftj_build_plan rels n_vars rel_src_var rel_dst_var =
     (if LFTJ_MAX_VARS < n_vars then None
      else plan_loop n_vars (replicate n_vars []) (zip rels (zip rel_src_var rel_dst_var)))"

definition lftj_build_default_plan :: "rel list \<Rightarrow> nat \<Rightarrow> plan option" where
  "lftj_build_default_plan rels n_vars =
     (let n_rels = length rels
      in if n_vars = 3 \<and> n_rels = 3 then lftj_build_plan rels n_vars [0, 1, 0] [1, 2, 2]
         else if n_vars = 2
         then if 16 < n_rels then None
              else lftj_build_plan rels n_vars (replicate n_rels 0) (replicate n_rels 1)
         else if n_vars = 4 \<and> n_rels = 6
         then lftj_build_plan rels n_vars [0, 0, 0, 1, 1, 2] [1, 2, 3, 2, 3, 3]
         else if int n_rels = int n_vars - 1
         then if 16 < n_rels then None
              else lftj_build_plan rels n_vars [0..<n_rels] [1..<n_rels + 1]
         else None)"

section \<open>Enumeration\<close>

record enum_ctx =
  var_plans :: plan
  bound :: "int list"
  col_data :: "int list list"
  out_count :: int
  out_cap :: int
  oom :: bool
  cancelled :: bool
  polls :: nat

record env =
  grow_ok :: "int \<Rightarrow> bool"
  interrupted :: "nat \<Rightarrow> bool"

abbreviation n_vars :: "enum_ctx \<Rightarrow> nat" where
  "n_vars ctx \<equiv> length (var_plans ctx)"

definition lftj_grow_output :: "env \<Rightarrow> enum_ctx \<Rightarrow> enum_ctx option" where
  "lftj_grow_output E ctx =
     (if INT64_MAX div 2 < out_cap ctx then None
      else let new_cap = if out_cap ctx < 64 then 64 else out_cap ctx * 2
           in if grow_ok E new_cap then Some (ctx\<lparr>out_cap := new_cap\<rparr>) else None)"

definition write_row :: "enum_ctx \<Rightarrow> enum_ctx" where
  "write_row ctx =
     ctx\<lparr>col_data := map2 (\<lambda>col x. take (nat (out_count ctx)) col @ [x]) (col_data ctx) (bound ctx),
         out_count := out_count ctx + 1\<rparr>"

definition emit :: "env \<Rightarrow> enum_ctx \<Rightarrow> enum_ctx" where
  "emit E ctx =
     (if out_cap ctx \<le> out_count ctx
      then case lftj_grow_output E ctx of
             None \<Rightarrow> ctx\<lparr>oom := True\<rparr>
           | Some ctx \<Rightarrow> write_row ctx
      else write_row ctx)"

definition max_nodes :: "plan \<Rightarrow> int" where
  "max_nodes p =
     foldl (\<lambda>nn b. case fst b of None \<Rightarrow> nn | Some g \<Rightarrow> if nn < n_nodes g then n_nodes g else nn) 0 (concat p)"

text \<open>
  One value of a variable: the cancellation checkpoint, the binding and the descent.  The flag says
  whether the loop around it goes on.
\<close>

definition try_value :: "env \<Rightarrow> (enum_ctx \<Rightarrow> enum_ctx option) \<Rightarrow> nat \<Rightarrow> int \<Rightarrow> enum_ctx \<Rightarrow> (enum_ctx \<times> bool) option" where
  "try_value E body depth val ctx =
     (let stop = interrupted E (polls ctx); ctx = ctx\<lparr>polls := polls ctx + 1\<rparr>
      in if stop then Some (ctx\<lparr>cancelled := True\<rparr>, False)
         else case body (ctx\<lparr>bound := (bound ctx)[depth := val]\<rparr>) of
                None \<Rightarrow> None
              | Some ctx \<Rightarrow> Some (ctx, \<not> (oom ctx \<or> cancelled ctx)))"

fun root_loop :: "env \<Rightarrow> (enum_ctx \<Rightarrow> enum_ctx option) \<Rightarrow> nat \<Rightarrow> int list \<Rightarrow> enum_ctx \<Rightarrow> enum_ctx option" where
  "root_loop E body depth [] ctx = Some ctx"
| "root_loop E body depth (a # as) ctx =
     (case try_value E body depth a ctx of
        None \<Rightarrow> None
      | Some (ctx, go) \<Rightarrow> if go then root_loop E body depth as ctx else Some ctx)"

fun open_iters :: "enum_ctx \<Rightarrow> binding list \<Rightarrow> lftj_iter list option" where
  "open_iters ctx [] = Some []"
| "open_iters ctx ((c, bv) # bs) =
     (case c of
        None \<Rightarrow> None
      | Some g \<Rightarrow>
          let parent = bound ctx ! bv
          in if parent < 0 \<or> n_nodes g \<le> parent then None
             else case open_iters ctx bs of None \<Rightarrow> None | Some its \<Rightarrow> Some (lftj_open c parent # its))"

partial_function (option) match_loop ::
  "env \<Rightarrow> (enum_ctx \<Rightarrow> enum_ctx option) \<Rightarrow> nat \<Rightarrow> lftj_iter list \<Rightarrow> enum_ctx \<Rightarrow> enum_ctx option" where
  "match_loop E body depth its ctx =
     Option.bind (leapfrog_search its) (\<lambda>r.
       case r of
         (its, None) \<Rightarrow> Some ctx
       | (its, Some val) \<Rightarrow>
           Option.bind (try_value E body depth val ctx) (\<lambda>(ctx, go).
             if go then match_loop E body depth (map lftj_next its) ctx else Some ctx))"

text \<open>The recursion on \<open>depth\<close>, by the number of variables still to bind.\<close>

fun enumerate_from :: "env \<Rightarrow> nat \<Rightarrow> enum_ctx \<Rightarrow> enum_ctx option" where
  "enumerate_from E 0 ctx = (if oom ctx then Some ctx else Some (emit E ctx))"
| "enumerate_from E (Suc r) ctx =
     (if oom ctx then Some ctx
      else let depth = n_vars ctx - Suc r; vp = var_plans ctx ! depth
           in if vp = []
              then if depth \<noteq> 0 then Some ctx
                   else if max_nodes (var_plans ctx) = 0 then Some ctx
                   else root_loop E (enumerate_from E r) 0 [0..max_nodes (var_plans ctx) - 1] ctx
              else case open_iters ctx vp of
                     None \<Rightarrow> Some ctx
                   | Some its \<Rightarrow> match_loop E (enumerate_from E r) depth its ctx)"

definition lftj_enumerate :: "env \<Rightarrow> enum_ctx \<Rightarrow> nat \<Rightarrow> enum_ctx option" where
  "lftj_enumerate E ctx depth = enumerate_from E (n_vars ctx - depth) ctx"

section \<open>Iterators as sorted lists\<close>

text \<open>The keys an iterator has still to show.\<close>

definition rest :: "lftj_iter \<Rightarrow> int list" where
  "rest it = (case itargets it of None \<Rightarrow> [] | Some ts \<Rightarrow> drop (pos it) (take (iend it) ts))"

definition iter_ok :: "lftj_iter \<Rightarrow> bool" where
  "iter_ok it \<longleftrightarrow> (case itargets it of None \<Rightarrow> True | Some ts \<Rightarrow> iend it \<le> length ts) \<and> sorted_wrt (<) (rest it)"

lemma at_end_iff: "iter_ok it \<Longrightarrow> lftj_at_end it \<longleftrightarrow> rest it = []"
  by (auto simp: lftj_at_end_def rest_def iter_ok_def split: option.splits)

lemma key_hd: "iter_ok it \<Longrightarrow> rest it \<noteq> [] \<Longrightarrow> lftj_key it = hd (rest it)"
  by (auto simp: lftj_key_def rest_def iter_ok_def hd_drop_conv_nth split: option.splits)

lemma next_tl: "iter_ok it \<Longrightarrow> rest (lftj_next it) = tl (rest it) \<and> iter_ok (lftj_next it)"
proof -
  assume ok: "iter_ok it"
  have "rest (lftj_next it) = tl (rest it)"
    by (auto simp: lftj_next_def rest_def tl_drop drop_Suc split: option.splits)
  moreover have "sorted_wrt (<) (tl (rest it))" using ok by (cases "rest it") (auto simp: iter_ok_def)
  ultimately show ?thesis using ok by (auto simp: iter_ok_def lftj_next_def split: option.splits)
qed

lemma seek_loop_ok:
  assumes "lo \<le> hi" "\<forall>i j. lo \<le> i \<and> i < j \<and> j < hi \<longrightarrow> ts ! i < ts ! j"
  shows "lo \<le> seek_loop ts v lo hi \<and> seek_loop ts v lo hi \<le> hi \<and>
    (\<forall>i. lo \<le> i \<and> i < seek_loop ts v lo hi \<longrightarrow> ts ! i < v) \<and>
    (\<forall>i. seek_loop ts v lo hi \<le> i \<and> i < hi \<longrightarrow> v \<le> ts ! i)"
  using assms
proof (induction ts v lo hi rule: seek_loop.induct)
  case (1 ts v lo hi)
  show ?case
  proof (cases "lo < hi")
    case False
    then show ?thesis using 1(3) by (subst (1 2 3 4) seek_loop.simps) auto
  next
    case True
    define mid where "mid = lo + (hi - lo) div 2"
    have mid: "lo \<le> mid" "mid < hi" using True by (auto simp: mid_def)
    show ?thesis
    proof (cases "ts ! mid < v")
      case less: True
      have eq: "seek_loop ts v lo hi = seek_loop ts v (mid + 1) hi"
        using True less by (subst seek_loop.simps) (simp add: Let_def mid_def)
      have "ts ! i < v" if "lo \<le> i" "i \<le> mid" for i
        using that 1(4) [rule_format, of i mid] less mid by (cases "i = mid") auto
      moreover note 1(1) [OF True mid_def less]
      ultimately show ?thesis
        unfolding eq using 1(4) mid by (auto simp: not_le) (metis Suc_leI not_less)+
    next
      case ge: False
      have eq: "seek_loop ts v lo hi = seek_loop ts v lo mid"
        using True ge by (subst seek_loop.simps) (simp add: Let_def mid_def)
      have "v \<le> ts ! i" if "mid \<le> i" "i < hi" for i
        using that 1(4) [rule_format, of mid i] ge mid by (cases "i = mid") auto
      moreover note 1(2) [OF True mid_def ge]
      ultimately show ?thesis
        unfolding eq using 1(4) mid by (auto simp: not_le) (metis not_less)+
    qed
  qed
qed


lemma dropWhile_split:
  assumes "\<forall>x \<in> set xs. P x" "ys \<noteq> [] \<Longrightarrow> \<not> P (hd ys)"
  shows "dropWhile P (xs @ ys) = ys"
  using assms by (cases ys) (auto simp: dropWhile_append2)

lemma seek_rest:
  assumes ok: "iter_ok it"
  shows "rest (lftj_seek it v) = dropWhile (\<lambda>x. x < v) (rest it)" "iter_ok (lftj_seek it v)"
    "itargets (lftj_seek it v) = itargets it" "iend (lftj_seek it v) = iend it"
    "rest (lftj_seek it v) = rest it \<Longrightarrow> rest it \<noteq> [] \<Longrightarrow> lftj_seek it v = it"
proof -
  show t: "itargets (lftj_seek it v) = itargets it" "iend (lftj_seek it v) = iend it"
    by (auto simp: lftj_seek_def split: option.split)
  show r: "rest (lftj_seek it v) = dropWhile (\<lambda>x. x < v) (rest it)"
  proof (cases "itargets it")
    case None
    then show ?thesis by (simp add: rest_def lftj_seek_def)
  next
    case (Some ts)
    have e: "iend it \<le> length ts" using ok Some by (simp add: iter_ok_def)
    have rs: "rest it = drop (pos it) (take (iend it) ts)" using Some by (simp add: rest_def)
    show ?thesis
    proof (cases "pos it \<le> iend it")
      case False
      then show ?thesis by (simp add: rs) (simp add: rest_def lftj_seek_def Some seek_loop.simps)
    next
      case True
      have "ts ! i < ts ! j" if "pos it \<le> i" "i < j" "j < iend it" for i j
      proof -
        have "rest it ! (i - pos it) < rest it ! (j - pos it)"
          using ok that e by (intro sorted_wrt_nth_less [of "(<)"]) (auto simp: iter_ok_def rs)
        then show ?thesis using that e by (simp add: rs)
      qed
      then have sl: "pos it \<le> seek_loop ts v (pos it) (iend it)" "seek_loop ts v (pos it) (iend it) \<le> iend it"
        "\<forall>i. pos it \<le> i \<and> i < seek_loop ts v (pos it) (iend it) \<longrightarrow> ts ! i < v"
        "\<forall>i. seek_loop ts v (pos it) (iend it) \<le> i \<and> i < iend it \<longrightarrow> v \<le> ts ! i"
        using seek_loop_ok [OF True, of ts v] by blast+
      define p where "p = seek_loop ts v (pos it) (iend it) - pos it"
      have p: "rest (lftj_seek it v) = drop p (rest it)"
        using sl(1) by (simp add: rest_def lftj_seek_def Some p_def)
      have a: "\<forall>x \<in> set (take p (rest it)). x < v"
        using sl(1-3) e by (auto simp: in_set_conv_nth p_def rs)
      have b: "\<not> hd (drop p (rest it)) < v" if "drop p (rest it) \<noteq> []"
      proof -
        have l: "p < length (rest it)" using that by simp
        then have "hd (drop p (rest it)) = ts ! (pos it + p)" using e by (simp add: hd_drop_conv_nth rs add.commute)
        moreover have "pos it + p < iend it" using l e by (simp add: rs)
        ultimately show ?thesis using sl(1,4) by (auto simp: p_def not_less)
      qed
      show ?thesis using dropWhile_split [OF a b] p by simp
    qed
  qed
  have "sorted_wrt (<) (dropWhile (\<lambda>x. x < v) (rest it))"
    using ok by (auto simp: iter_ok_def dropWhile_eq_drop sorted_wrt_drop)
  then show "iter_ok (lftj_seek it v)" using ok t r by (auto simp: iter_ok_def split: option.splits)
  assume same: "rest (lftj_seek it v) = rest it" and ne: "rest it \<noteq> []"
  then obtain ts where ts: "itargets it = Some ts" by (auto simp: rest_def split: option.splits)
  have "iend it \<le> length ts" using ok ts by (simp add: iter_ok_def)
  then have "length (rest it) = iend it - pos it" "length (rest (lftj_seek it v)) = iend it - pos (lftj_seek it v)"
    using t ts by (simp_all add: rest_def)
  then have "pos (lftj_seek it v) = pos it" using same ne by (metis diff_diff_cancel diff_is_0_eq length_0_conv nat_le_linear)
  then show "lftj_seek it v = it" by (auto simp: lftj_seek_def split: option.splits)
qed


section \<open>The intersection\<close>

definition shared :: "lftj_iter list \<Rightarrow> int set" where
  "shared its = {x. \<forall>it \<in> set its. x \<in> set (rest it)}"

text \<open>What a search promises: the least shared key with every iterator on it, or that there is none.\<close>

definition found :: "lftj_iter list \<Rightarrow> lftj_iter list \<Rightarrow> int option \<Rightarrow> bool" where
  "found its its' r \<longleftrightarrow> length its' = length its \<and> (\<forall>it \<in> set its'. iter_ok it) \<and>
     (case r of
        None \<Rightarrow> shared its = {}
      | Some v \<Rightarrow> v \<in> shared its \<and> (\<forall>x \<in> shared its. v \<le> x) \<and>
          (\<forall>i < length its. rest (its' ! i) = dropWhile (\<lambda>x. x < v) (rest (its ! i))))"

lemma hd_le: "iter_ok it \<Longrightarrow> x \<in> set (rest it) \<Longrightarrow> hd (rest it) \<le> x"
  by (cases "rest it") (auto simp: iter_ok_def less_imp_le)

lemma in_dropWhile:
  assumes "sorted_wrt (<) xs"
  shows "x \<in> set (dropWhile (\<lambda>y. y < v) xs) \<longleftrightarrow> x \<in> set xs \<and> v \<le> (x :: int)"
  using assms by (induction xs) (auto simp: not_less)

lemma dropWhile_twice: "u \<le> v \<Longrightarrow> dropWhile (\<lambda>x. x < v) (dropWhile (\<lambda>x. x < u) xs) = dropWhile (\<lambda>x. x < (v :: int)) xs"
  by (induction xs) auto

lemma found_seek:
  assumes ok: "\<forall>it \<in> set its. iter_ok it" and m: "m < length its" "rest (its ! m) \<noteq> []" and n: "n < length its"
    and f: "found (its[n := lftj_seek (its ! n) (lftj_key (its ! m))]) its' r"
  shows "found its its' r"
proof -
  let ?v = "lftj_key (its ! m)" and ?its1 = "its[n := lftj_seek (its ! n) (lftj_key (its ! m))]"
  have okm: "iter_ok (its ! m)" and okn: "iter_ok (its ! n)" using ok m(1) n by auto
  have low: "?v \<le> x" if "x \<in> shared its" for x
    using that hd_le [OF okm] key_hd [OF okm m(2)] m(1) by (auto simp: shared_def)
  have mem: "x \<in> set (rest (lftj_seek (its ! n) ?v)) \<longleftrightarrow> x \<in> set (rest (its ! n)) \<and> ?v \<le> x" for x
    using okn by (simp add: seek_rest(1) in_dropWhile iter_ok_def)
  have "shared ?its1 \<subseteq> shared its"
  proof
    fix x assume "x \<in> shared ?its1"
    then have x: "\<forall>i < length its. x \<in> set (rest (?its1 ! i))" by (auto simp: shared_def all_set_conv_all_nth)
    then have "\<forall>i < length its. x \<in> set (rest (its ! i))"
      using mem by (metis nth_list_update_eq nth_list_update_neq)
    then show "x \<in> shared its" by (auto simp: shared_def all_set_conv_all_nth)
  qed
  moreover have "shared its \<subseteq> shared ?its1"
  proof
    fix x assume x: "x \<in> shared its"
    then have "x \<in> set (rest (lftj_seek (its ! n) ?v))" using mem low [OF x] n by (auto simp: shared_def)
    then show "x \<in> shared ?its1" using x by (auto simp: shared_def dest!: set_update_subset_insert [THEN subsetD])
  qed
  ultimately have sh: "shared ?its1 = shared its" by blast
  show ?thesis
  proof (cases r)
    case None
    then show ?thesis using f sh by (simp add: found_def)
  next
    case (Some v)
    have "v \<in> shared its" using f Some sh by (simp add: found_def)
    then have "?v \<le> v" by (rule low)
    then have "rest (its' ! i) = dropWhile (\<lambda>x. x < v) (rest (its ! i))" if "i < length its" for i
      using f Some that okn n by (cases "i = n") (auto simp: found_def seek_rest(1) dropWhile_twice)
    then show ?thesis using f Some sh by (simp add: found_def)
  qed
qed


text \<open>
  The loop returns: each turn moves an iterator, or passes one more iterator that is on the
  greatest key, on the way to the next one (\<open>d\<close> steps ahead) that is below it.
\<close>

definition max_at :: "lftj_iter list \<Rightarrow> nat \<Rightarrow> bool" where
  "max_at its m \<longleftrightarrow> m < length its \<and> (\<forall>it \<in> set its. iter_ok it \<and> rest it \<noteq> [] \<and> lftj_key it \<le> lftj_key (its ! m))"

definition level :: "lftj_iter list \<Rightarrow> nat \<Rightarrow> bool" where
  "level its m \<longleftrightarrow> (\<forall>it \<in> set its. lftj_key it = lftj_key (its ! m))"

definition left :: "lftj_iter list \<Rightarrow> nat" where
  "left its = (\<Sum>it\<leftarrow>its. length (rest it))"

lemma below_ahead:
  assumes "max_at its m" "\<not> level its m"
  obtains d where "d < length its" "lftj_key (its ! ((m + d) mod length its)) < lftj_key (its ! m)"
proof -
  let ?k = "length its"
  obtain j where j: "j < ?k" "lftj_key (its ! j) < lftj_key (its ! m)"
    using assms by (auto simp: level_def max_at_def all_set_conv_all_nth order.strict_iff_order)
  have m: "m < ?k" using assms(1) by (simp add: max_at_def)
  have "(m + (j + ?k - m) mod ?k) mod ?k = (m + (j + ?k - m)) mod ?k" by (simp add: mod_add_right_eq)
  also have "\<dots> = j" using j m by simp
  finally have "(m + (j + ?k - m) mod ?k) mod ?k = j" .
  moreover have "(j + ?k - m) mod ?k < ?k" by (rule mod_less_divisor) (use m in auto)
  ultimately show thesis using that [of "(j + ?k - m) mod ?k"] j(2) by simp
qed

lemma found_level:
  assumes "max_at its m" "level its m"
  shows "found its its (Some (lftj_key (its ! m)))"
proof -
  have h: "hd (rest it) = lftj_key (its ! m)" "rest it \<noteq> []" "iter_ok it" if "it \<in> set its" for it
  proof -
    show ne: "rest it \<noteq> []" and ok: "iter_ok it" using assms(1) that by (simp_all add: max_at_def)
    have "lftj_key it = lftj_key (its ! m)" using assms(2) that unfolding level_def by blast
    then show "hd (rest it) = lftj_key (its ! m)" using key_hd [OF ok ne] by simp
  qed
  have "lftj_key (its ! m) \<in> set (rest it)" if "it \<in> set its" for it
    using h [OF that] hd_in_set [of "rest it"] by simp
  then have "lftj_key (its ! m) \<in> shared its" by (simp add: shared_def)
  moreover have "lftj_key (its ! m) \<le> x" if "x \<in> shared its" for x
  proof -
    have mm: "its ! m \<in> set its" using assms(1) by (simp add: max_at_def)
    then have "x \<in> set (rest (its ! m))" using that by (simp add: shared_def)
    then show ?thesis using hd_le [of "its ! m" x] h [OF mm] by simp
  qed
  moreover have "rest (its ! i) = dropWhile (\<lambda>x. x < lftj_key (its ! m)) (rest (its ! i))" if "i < length its" for i
    using h [of "its ! i"] that by (cases "rest (its ! i)") auto
  ultimately show ?thesis using h by (simp add: found_def)
qed

lemma left_update:
  assumes "n < length its"
  shows "left (its[n := x]) + length (rest (its ! n)) = left its + length (rest x)"
proof -
  have "sum_list (map f (its[n := x])) + f (its ! n) = sum_list (map f its) + (f x :: nat)" for f
    using assms by (induction its arbitrary: n) (auto split: nat.splits simp: nth_Cons')
  then show ?thesis by (simp add: left_def)
qed

lemma dropWhile_same_length: "length (dropWhile P xs) = length xs \<Longrightarrow> dropWhile P xs = xs"
proof -
  assume "length (dropWhile P xs) = length xs"
  moreover have "length xs = length (takeWhile P xs) + length (dropWhile P xs)"
    by (metis length_append takeWhile_dropWhile_id)
  ultimately have "takeWhile P xs = []" by simp
  then show ?thesis using takeWhile_dropWhile_id [of P xs] by simp
qed

lemma leap_loop_found:
  assumes "max_at its m" "level its m \<or> lftj_key (its ! ((m + d) mod length its)) < lftj_key (its ! m)"
  shows "\<exists>its' r. leap_loop its m = Some (its', r) \<and> found its its' r"
  using assms
proof (induction "(left its, d)" arbitrary: its m d rule: wf_induct_rule [OF wf_lex_prod [OF wf_less_than wf_less_than]])
  case (1 its d m)
  let ?k = "length its" and ?v = "lftj_key (its ! m)"
  define n where "n = (m + 1) mod length its"
  define x where "x = lftj_seek (its ! n) ?v"
  let ?its1 = "its[n := x]"
  have m: "m < ?k" and ok: "\<forall>it \<in> set its. iter_ok it" and ne: "\<forall>it \<in> set its. rest it \<noteq> []"
    and mx: "\<forall>it \<in> set its. lftj_key it \<le> ?v"
    using 1(2) by (auto simp: max_at_def)
  have n: "n < ?k" unfolding n_def by (rule mod_less_divisor) (use m in auto)
  have okn: "iter_ok (its ! n)" and nen: "rest (its ! n) \<noteq> []" and nem: "rest (its ! m) \<noteq> []"
    using ok ne n m nth_mem by blast+
  have okx: "iter_ok x" and rx: "rest x = dropWhile (\<lambda>y. y < ?v) (rest (its ! n))"
    using seek_rest [OF okn] unfolding x_def by blast+
  have unfold: "leap_loop its m = (if lftj_at_end x then Some (?its1, None)
      else if lftj_key x = ?v \<and> (\<forall>it \<in> set ?its1. lftj_key it = ?v) then Some (?its1, Some ?v)
      else leap_loop ?its1 n)"
    unfolding leap_loop.simps [of its m] Let_def n_def [symmetric] x_def [symmetric] nth_list_update_eq [OF n]
    by (rule refl)
  have ok1: "\<forall>it \<in> set ?its1. iter_ok it" using ok okx set_update_subset_insert by fastforce
  note fsk = found_seek [OF ok m nem n, folded x_def]
  show ?case
  proof (cases "rest x = []")
    case True
    have "shared ?its1 = {}"
      using True n by (auto simp: shared_def all_set_conv_all_nth intro!: exI [of _ n])
    then have "found ?its1 ?its1 None" using ok1 by (simp add: found_def)
    then show ?thesis using fsk unfold True at_end_iff [OF okx] by simp
  next
    case False
    have kx: "lftj_key x = hd (rest x)" by (rule key_hd [OF okx False])
    have "hd (rest x) \<in> set (rest x)" using False by simp
    then have ge: "?v \<le> lftj_key x"
      using okn by (simp add: kx rx in_dropWhile iter_ok_def)
    have mem1: "it \<in> set its \<or> it = x" if "it \<in> set ?its1" for it
      using that set_update_subset_insert by fastforce
    have at1: "max_at ?its1 n"
      using ok1 False mx ge n ne by (auto simp: max_at_def dest!: mem1 intro: order.trans)
    show ?thesis
    proof (cases "lftj_key x = ?v \<and> (\<forall>it \<in> set ?its1. lftj_key it = ?v)")
      case True
      have "level ?its1 n" using True n by (simp add: level_def)
      from found_level [OF at1 this] have "found ?its1 ?its1 (Some ?v)" using True n by simp
      then show ?thesis using fsk unfold True False at_end_iff [OF okx] by simp
    next
      case go: False
      have step: "leap_loop its m = leap_loop ?its1 n" using unfold go False at_end_iff [OF okx] by simp
      obtain d' where d': "level ?its1 n \<or> lftj_key (?its1 ! ((n + d') mod length ?its1)) < lftj_key (?its1 ! n)"
        "((left ?its1, d'), (left its, d)) \<in> less_than <*lex*> less_than"
      proof (cases "rest x = rest (its ! n)")
        case True
        then have same: "x = its ! n" using seek_rest(5) [OF okn _ nen] unfolding x_def by blast
        then have its1: "?its1 = its" by simp
        have "lftj_key x = ?v" using ge mx same n by (metis antisym nth_mem)
        then have nl: "\<not> level its m" using go its1 by (auto simp: level_def)
        then have lt: "lftj_key (its ! ((m + d) mod ?k)) < ?v" using 1(3) by simp
        have "d \<noteq> 0" using lt m by (cases d) auto
        then have "(n + (d - 1)) mod ?k = (m + d) mod ?k" unfolding n_def mod_add_left_eq by simp
        then have "lftj_key (its ! ((n + (d - 1)) mod ?k)) < lftj_key (its ! n)"
          using lt \<open>lftj_key x = ?v\<close> same by simp
        then show thesis using that [of "d - 1"] its1 \<open>d \<noteq> 0\<close> by simp
      next
        case False
        have "length (rest x) \<le> length (rest (its ! n))" by (simp add: rx length_dropWhile_le)
        moreover have "length (rest x) \<noteq> length (rest (its ! n))"
          using False dropWhile_same_length unfolding rx by metis
        ultimately have "left ?its1 < left its" using left_update [OF n, of x] by linarith
        moreover obtain d' where "level ?its1 n \<or> lftj_key (?its1 ! ((n + d') mod length ?its1)) < lftj_key (?its1 ! n)"
          using below_ahead [OF at1] by blast
        ultimately show thesis using that [of d'] by simp
      qed
      from 1(1) [OF d'(2) at1 d'(1)] show ?thesis using fsk step by auto
    qed
  qed
qed


lemma find_max_at:
  assumes "its \<noteq> []" "\<forall>it \<in> set its. iter_ok it \<and> rest it \<noteq> []"
  shows "max_at its (find_max its)"
proof -
  let ?f = "\<lambda>mx i. if lftj_key (its ! mx) < lftj_key (its ! i) then i else mx"
  have "\<forall>n \<le> length its. 1 \<le> n \<longrightarrow> (let mx = foldl ?f 0 [1..<n] in mx < n \<and> (\<forall>i < n. lftj_key (its ! i) \<le> lftj_key (its ! mx)))"
  proof (intro allI impI)
    fix n :: nat assume "n \<le> length its" "1 \<le> n"
    then show "let mx = foldl ?f 0 [1..<n] in mx < n \<and> (\<forall>i < n. lftj_key (its ! i) \<le> lftj_key (its ! mx))"
    proof (induction n)
      case (Suc n)
      show ?case
      proof (cases "n = 0")
        case False
        then have "let mx = foldl ?f 0 [1..<n] in mx < n \<and> (\<forall>i < n. lftj_key (its ! i) \<le> lftj_key (its ! mx))"
          using Suc by simp
        then show ?thesis using False by (auto simp: Let_def less_Suc_eq intro: order.trans less_imp_le)
      qed simp
    qed simp
  qed
  then have "find_max its < length its" "\<forall>i < length its. lftj_key (its ! i) \<le> lftj_key (its ! find_max its)"
    using assms(1) by (auto simp: find_max_def Let_def Suc_le_eq)
  then show ?thesis using assms(2) by (auto simp: max_at_def all_set_conv_all_nth)
qed

lemma leapfrog_found:
  assumes "its \<noteq> []" "\<forall>it \<in> set its. iter_ok it"
  shows "\<exists>its' r. leapfrog_search its = Some (its', r) \<and> found its its' r"
proof (cases "\<exists>it \<in> set its. lftj_at_end it")
  case True
  then obtain it where "it \<in> set its" "rest it = []" using assms(2) at_end_iff by blast
  then have "shared its = {}" by (force simp: shared_def)
  then show ?thesis using True assms by (auto simp: leapfrog_search_def found_def)
next
  case False
  then have m: "max_at its (find_max its)" using assms at_end_iff by (intro find_max_at) auto
  have "\<exists>d. level its (find_max its) \<or>
      lftj_key (its ! ((find_max its + d) mod length its)) < lftj_key (its ! find_max its)"
    using below_ahead [OF m] by blast
  then show ?thesis using leap_loop_found [OF m] assms False by (auto simp: leapfrog_search_def)
qed

text \<open>
  C39.  The leapfrog search returns on every set of ascending iterators, and returns the least key
  they all have, with each of them moved to that key, or nothing when they share none.
\<close>

theorem leapfrog_least:
  assumes "its \<noteq> []" "\<forall>it \<in> set its. iter_ok it"
  shows "\<exists>its' r. leapfrog_search its = Some (its', r) \<and>
    (case r of
       None \<Rightarrow> \<nexists>x. \<forall>it \<in> set its. x \<in> set (rest it)
     | Some v \<Rightarrow> (\<forall>it \<in> set its. v \<in> set (rest it)) \<and>
         (\<forall>x. (\<forall>it \<in> set its. x \<in> set (rest it)) \<longrightarrow> v \<le> x) \<and>
         map rest its' = map (\<lambda>it. dropWhile (\<lambda>x. x < v) (rest it)) its)"
proof -
  obtain its' r where f: "leapfrog_search its = Some (its', r)" "found its its' r"
    using leapfrog_found [OF assms] by blast
  have "map rest its' = map (\<lambda>it. dropWhile (\<lambda>x. x < v) (rest it)) its" if "r = Some v" for v
    using f(2) that by (auto simp: found_def intro!: nth_equalityI)
  then show ?thesis using f by (auto simp: found_def shared_def split: option.splits)
qed

definition iter_a :: lftj_iter where
  "iter_a = \<lparr>itargets = Some [1, 3, 4], istart = 0, iend = 3, pos = 0\<rparr>"

definition iter_b :: lftj_iter where
  "iter_b = \<lparr>itargets = Some [2, 3, 9], istart = 0, iend = 3, pos = 0\<rparr>"

theorem leapfrog_least_witness: "\<exists>its'. leapfrog_search [iter_a, iter_b] = Some (its', Some 3)"
proof -
  have r: "rest iter_a = [1, 3, 4]" "rest iter_b = [2, 3, 9]" by (simp_all add: rest_def iter_a_def iter_b_def)
  have ok: "\<forall>it \<in> set [iter_a, iter_b]. iter_ok it"
    using r by (simp add: iter_ok_def) (simp add: iter_a_def iter_b_def)
  obtain its' q where q: "leapfrog_search [iter_a, iter_b] = Some (its', q)"
    "case q of None \<Rightarrow> \<nexists>x. \<forall>it \<in> set [iter_a, iter_b]. x \<in> set (rest it)
     | Some v \<Rightarrow> (\<forall>it \<in> set [iter_a, iter_b]. v \<in> set (rest it)) \<and>
         (\<forall>x. (\<forall>it \<in> set [iter_a, iter_b]. x \<in> set (rest it)) \<longrightarrow> v \<le> x) \<and>
         map rest its' = map (\<lambda>it. dropWhile (\<lambda>x. x < v) (rest it)) [iter_a, iter_b]"
    using leapfrog_least [OF _ ok] by blast
  have "q = Some 3"
  proof (cases q)
    case None
    then show ?thesis using q(2) r by (auto dest: spec [of _ 3])
  next
    case (Some v)
    then have "v \<in> set (rest iter_a)" "v \<in> set (rest iter_b)" using q(2) by simp_all
    then show ?thesis using Some r by auto
  qed
  then show ?thesis using q(1) by blast
qed

section \<open>All matches of one variable\<close>

text \<open>The shared keys in ascending order.\<close>

definition meet :: "lftj_iter list \<Rightarrow> int list" where
  "meet its = filter (\<lambda>v. v \<in> shared its) (rest (hd its))"

lemma sorted_at:
  assumes "sorted_wrt (<) xs" "v \<in> set xs"
  obtains ys zs where "xs = ys @ v # zs" "\<forall>y \<in> set ys. y < v" "\<forall>z \<in> set zs. (v :: int) < z"
    "dropWhile (\<lambda>x. x < v) xs = v # zs"
proof -
  obtain ys zs where x: "xs = ys @ v # zs" using assms(2) by (auto dest: split_list)
  then have s: "\<forall>y \<in> set ys. y < v" "\<forall>z \<in> set zs. v < z" using assms(1) by (auto simp: sorted_wrt_append)
  then have "dropWhile (\<lambda>x. x < v) xs = v # zs" unfolding x by (intro dropWhile_split) auto
  with x s show thesis using that by blast
qed

lemma meet_step:
  assumes ok: "\<forall>it \<in> set its. iter_ok it" "its \<noteq> []" and f: "found its its' (Some v)"
  shows "meet its = v # meet (map lftj_next its')" "\<forall>it \<in> set (map lftj_next its'). iter_ok it" "its' \<noteq> []"
proof -
  have len: "length its' = length its" and ok': "\<forall>it \<in> set its'. iter_ok it" and v: "v \<in> shared its"
    and least: "\<forall>x \<in> shared its. v \<le> x"
    and r: "\<forall>i < length its. rest (its' ! i) = dropWhile (\<lambda>x. x < v) (rest (its ! i))"
    using f by (auto simp: found_def)
  let ?nx = "map lftj_next its'"
  show "its' \<noteq> []" using len ok(2) by auto
  show "\<forall>it \<in> set ?nx. iter_ok it" using ok' next_tl by auto
  have nth: "rest (?nx ! i) = tl (dropWhile (\<lambda>x. x < v) (rest (its ! i)))" if "i < length its" for i
    using that len r next_tl ok' by simp
  have mem: "x \<in> set (rest (?nx ! i)) \<longleftrightarrow> x \<in> set (rest (its ! i)) \<and> v < x" if "i < length its" for i x
  proof -
    have "sorted_wrt (<) (rest (its ! i))" "v \<in> set (rest (its ! i))"
      using ok(1) v that by (auto simp: iter_ok_def shared_def)
    then obtain ys zs where "rest (its ! i) = ys @ v # zs" "\<forall>y \<in> set ys. y < v" "\<forall>z \<in> set zs. v < z"
      "dropWhile (\<lambda>x. x < v) (rest (its ! i)) = v # zs" by (rule sorted_at)
    then show ?thesis using nth [OF that] by (auto dest: less_asym)
  qed
  have sh: "x \<in> shared ?nx \<longleftrightarrow> x \<in> shared its \<and> v < x" for x
  proof -
    have "x \<in> shared ?nx \<longleftrightarrow> (\<forall>i < length its. x \<in> set (rest (?nx ! i)))"
      using len by (simp add: shared_def all_set_conv_all_nth)
    also have "\<dots> \<longleftrightarrow> (\<forall>i < length its. x \<in> set (rest (its ! i)) \<and> v < x)" using mem by blast
    also have "\<dots> \<longleftrightarrow> x \<in> shared its \<and> v < x"
      using ok(2) by (auto simp: shared_def all_set_conv_all_nth)
    finally show ?thesis .
  qed
  have z: "0 < length its" using ok(2) by simp
  have h: "hd its = its ! 0" "hd ?nx = ?nx ! 0" using ok(2) len by (cases its; cases its'; simp)+
  have "sorted_wrt (<) (rest (its ! 0))" "v \<in> set (rest (its ! 0))"
    using ok v z by (auto simp: iter_ok_def shared_def)
  then obtain ys zs where s: "rest (its ! 0) = ys @ v # zs" "\<forall>y \<in> set ys. y < v" "\<forall>x \<in> set zs. v < x"
    "dropWhile (\<lambda>x. x < v) (rest (its ! 0)) = v # zs" by (rule sorted_at)
  have "filter (\<lambda>x. x \<in> shared its) ys = []" using s(2) least by (force simp: filter_empty_conv)
  moreover have "filter (\<lambda>x. x \<in> shared its) zs = filter (\<lambda>x. x \<in> shared ?nx) zs"
    using s(3) by (intro filter_cong) (auto simp: sh)
  ultimately show "meet its = v # meet ?nx" using v s nth [OF z] by (simp add: meet_def h)
qed

lemma match_loop_eq:
  assumes "its \<noteq> []" "\<forall>it \<in> set its. iter_ok it"
  shows "match_loop E body depth its ctx = root_loop E body depth (meet its) ctx"
  using assms
proof (induction "meet its" arbitrary: its ctx rule: length_induct)
  case (1 its ctx)
  obtain its' q where q: "leapfrog_search its = Some (its', q)" "found its its' q"
    using leapfrog_found [OF 1(2,3)] by blast
  show ?case
  proof (cases q)
    case None
    then have "shared its = {}" using q(2) by (simp add: found_def)
    then have "meet its = []" by (simp add: meet_def)
    then show ?thesis using q(1) None by (simp add: match_loop.simps)
  next
    case (Some v)
    note st = meet_step [OF 1(3,2) q(2) [unfolded Some]]
    have IH: "match_loop E body depth (map lftj_next its') c = root_loop E body depth (meet (map lftj_next its')) c" for c
    proof -
      have "length (meet (map lftj_next its')) < length (meet its)" by (simp add: st(1))
      then show ?thesis using 1(1) [rule_format, of "meet (map lftj_next its')" "map lftj_next its'"] st(2,3) by blast
    qed
    show ?thesis
      unfolding st(1) using q(1) Some IH
      by (subst match_loop.simps) (auto split: option.splits simp del: map_map)
  qed
qed


section \<open>Adjacency\<close>

definition adj :: "csr \<Rightarrow> int \<Rightarrow> int list" where
  "adj g a =
     (case (offsets g, targets g) of
        (Some os, Some ts) \<Rightarrow> if 0 \<le> a \<and> a < n_nodes g then drop (os ! nat a) (take (os ! (nat a + 1)) ts) else []
      | _ \<Rightarrow> [])"

text \<open>Rows of ascending targets: what the join asks of a relation (the flag \<^verbatim>\<open>sorted\<close>, no parallel edges).\<close>

definition csr_ok :: "csr \<Rightarrow> bool" where
  "csr_ok g \<longleftrightarrow>
     (case (offsets g, targets g) of
        (Some os, Some ts) \<Rightarrow> (\<forall>a \<in> {0..<n_nodes g}. os ! (nat a + 1) \<le> length ts \<and> sorted_wrt (<) (adj g a))
      | _ \<Rightarrow> False)"

lemma open_ok:
  assumes "csr_ok g" "0 \<le> a" "a < n_nodes g"
  shows "iter_ok (lftj_open (Some g) a)" "rest (lftj_open (Some g) a) = adj g a"
  using assms by (auto simp: csr_ok_def lftj_open_def iter_ok_def rest_def adj_def split: option.splits)

definition plan_ok :: "plan \<Rightarrow> bool" where
  "plan_ok p \<longleftrightarrow> (\<forall>d < length p. \<forall>(c, bv) \<in> set (p ! d). bv < d \<and> (\<exists>g. c = Some g \<and> csr_ok g))"

text \<open>The values a variable may take after the values \<open>pre\<close> of the variables before it.\<close>

definition fits :: "int list \<Rightarrow> int \<Rightarrow> binding \<Rightarrow> bool" where
  "fits pre v b = (case b of (None, bv) \<Rightarrow> False | (Some g, bv) \<Rightarrow> v \<in> set (adj g (pre ! bv)))"

definition cands :: "plan \<Rightarrow> int list \<Rightarrow> int list" where
  "cands p pre =
     (case p ! length pre of
        [] \<Rightarrow> if pre = [] then [0..max_nodes p - 1] else []
      | (None, bv) # bs \<Rightarrow> []
      | (Some g, bv) # bs \<Rightarrow> filter (\<lambda>v. \<forall>b \<in> set bs. fits pre v b) (adj g (pre ! bv)))"

fun rows_from :: "plan \<Rightarrow> nat \<Rightarrow> int list \<Rightarrow> int list list" where
  "rows_from p 0 pre = [pre]"
| "rows_from p (Suc r) pre = concat (map (\<lambda>v. rows_from p r (pre @ [v])) (cands p pre))"

lemma adj_out: "\<not> (0 \<le> a \<and> a < n_nodes g) \<Longrightarrow> adj g a = []"
  by (auto simp: adj_def split: option.splits)

text \<open>Opening the iterators of a variable and intersecting them gives its candidates.\<close>

lemma open_iters_rest:
  assumes "\<forall>(c, bv) \<in> set bs. bv < d \<and> (\<exists>g. c = Some g \<and> csr_ok g)" "d \<le> length (bound ctx)"
  shows "case open_iters ctx bs of
      None \<Rightarrow> \<exists>b \<in> set bs. \<forall>v. \<not> fits (take d (bound ctx)) v b
    | Some its \<Rightarrow> length its = length bs \<and> (\<forall>it \<in> set its. iter_ok it) \<and>
        (\<forall>v. (\<forall>it \<in> set its. v \<in> set (rest it)) \<longleftrightarrow> (\<forall>b \<in> set bs. fits (take d (bound ctx)) v b)) \<and>
        (bs \<noteq> [] \<longrightarrow> (\<exists>g. fst (hd bs) = Some g \<and> rest (hd its) = adj g (take d (bound ctx) ! snd (hd bs))))"
  using assms
proof (induction bs)
  case (Cons b bs)
  obtain g bv where b: "b = (Some g, bv)" "bv < d" "csr_ok g" using Cons.prems(1) by (cases b) auto
  have pre: "take d (bound ctx) ! bv = bound ctx ! bv" using b(2) by simp
  show ?case
  proof (cases "0 \<le> bound ctx ! bv \<and> bound ctx ! bv < n_nodes g")
    case False
    then have "\<forall>v. \<not> fits (take d (bound ctx)) v b" using adj_out by (simp add: fits_def b(1) pre)
    moreover have "open_iters ctx (b # bs) = None" using False by (auto simp: b(1) Let_def)
    ultimately show ?thesis by simp
  next
    case True
    note o = open_ok [OF b(3), of "bound ctx ! bv"]
    have IH: "case open_iters ctx bs of
      None \<Rightarrow> \<exists>b \<in> set bs. \<forall>v. \<not> fits (take d (bound ctx)) v b
    | Some its \<Rightarrow> length its = length bs \<and> (\<forall>it \<in> set its. iter_ok it) \<and>
        (\<forall>v. (\<forall>it \<in> set its. v \<in> set (rest it)) \<longleftrightarrow> (\<forall>b \<in> set bs. fits (take d (bound ctx)) v b)) \<and>
        (bs \<noteq> [] \<longrightarrow> (\<exists>g. fst (hd bs) = Some g \<and> rest (hd its) = adj g (take d (bound ctx) ! snd (hd bs))))"
      using Cons by simp
    show ?thesis
    proof (cases "open_iters ctx bs")
      case None
      then show ?thesis using IH True by (auto simp: b(1))
    next
      case (Some its)
      then have "open_iters ctx (b # bs) = Some (lftj_open (Some g) (bound ctx ! bv) # its)"
        using True by (simp add: b(1) Let_def)
      then show ?thesis using IH Some True o by (auto simp: b(1) fits_def pre)
    qed
  qed
qed simp


lemma meet_cands:
  assumes p: "plan_ok p" "var_plans ctx = p" and d: "d < length p" "d \<le> length (bound ctx)" and vp: "p ! d \<noteq> []"
  shows "case open_iters ctx (p ! d) of
      None \<Rightarrow> cands p (take d (bound ctx)) = []
    | Some its \<Rightarrow> its \<noteq> [] \<and> (\<forall>it \<in> set its. iter_ok it) \<and> meet its = cands p (take d (bound ctx))"
proof -
  let ?pre = "take d (bound ctx)"
  have l: "length ?pre = d" using d(2) by simp
  obtain b bs where bs: "p ! d = b # bs" using vp by (cases "p ! d") auto
  have ok: "\<forall>(c, bv) \<in> set (p ! d). bv < d \<and> (\<exists>g. c = Some g \<and> csr_ok g)" using p(1) d(1) by (auto simp: plan_ok_def)
  obtain g bv where b: "b = (Some g, bv)" using ok bs by (cases b) auto
  have c: "cands p ?pre = filter (\<lambda>v. \<forall>b \<in> set (p ! d). fits ?pre v b) (adj g (?pre ! bv))"
  proof -
    have "cands p ?pre = filter (\<lambda>v. \<forall>b \<in> set bs. fits ?pre v b) (adj g (?pre ! bv))"
      unfolding cands_def l bs b by (simp only: list.case prod.case option.case)
    moreover have "fits ?pre v b" if "v \<in> set (adj g (?pre ! bv))" for v using that by (simp add: fits_def b)
    ultimately show ?thesis by (auto simp: bs intro!: filter_cong)
  qed
  note o = open_iters_rest [OF ok d(2)]
  show ?thesis
  proof (cases "open_iters ctx (p ! d)")
    case None
    then have "\<exists>b \<in> set (p ! d). \<forall>v. \<not> fits ?pre v b" using o by simp
    then have "cands p ?pre = []" unfolding c filter_empty_conv by blast
    then show ?thesis using None by simp
  next
    case (Some its)
    then have its: "length its = length (p ! d)" "\<forall>it \<in> set its. iter_ok it"
      "\<forall>v. (\<forall>it \<in> set its. v \<in> set (rest it)) \<longleftrightarrow> (\<forall>b \<in> set (p ! d). fits ?pre v b)"
      "rest (hd its) = adj g (?pre ! bv)"
      using o vp by (auto simp: bs b)
    have "meet its = cands p ?pre" unfolding meet_def c its(4) shared_def using its(3) by (intro filter_cong) auto
    moreover have "its \<noteq> []" using its(1) bs by auto
    ultimately show ?thesis using Some its(2) by simp
  qed
qed

section \<open>The enumeration\<close>

definition quiet :: "env \<Rightarrow> bool" where
  "quiet E \<longleftrightarrow> (\<forall>n. \<not> interrupted E n) \<and> (\<forall>c. grow_ok E c)"

definition add_rows :: "int list list \<Rightarrow> int list list \<Rightarrow> int list list" where
  "add_rows cols rows = foldl (map2 (\<lambda>col x. col @ [x])) cols rows"

definition ctx_ok :: "plan \<Rightarrow> enum_ctx \<Rightarrow> bool" where
  "ctx_ok p ctx \<longleftrightarrow> var_plans ctx = p \<and> \<not> oom ctx \<and> \<not> cancelled ctx \<and> 0 \<le> out_count ctx \<and>
     length p \<le> length (bound ctx) \<and> length (col_data ctx) = length p \<and>
     (\<forall>col \<in> set (col_data ctx). length col = nat (out_count ctx))"

text \<open>From \<open>ctx\<close> the tuples \<open>rows\<close> were appended; only values from variable \<open>d\<close> on were rebound.\<close>

definition appends :: "plan \<Rightarrow> nat \<Rightarrow> enum_ctx \<Rightarrow> enum_ctx \<Rightarrow> int list list \<Rightarrow> bool" where
  "appends p d ctx ctx' rows \<longleftrightarrow> ctx_ok p ctx' \<and> take d (bound ctx') = take d (bound ctx) \<and>
     col_data ctx' = add_rows (col_data ctx) rows \<and> out_count ctx' = out_count ctx + int (length rows)"

lemma emit_ok:
  assumes "ctx_ok p ctx" "quiet E" "out_count ctx < 2 ^ 62"
  shows "appends p (length p) ctx (emit E ctx) [take (length p) (bound ctx)]"
proof -
  let ?row = "take (length p) (bound ctx)"
  have cols: "map2 (\<lambda>col x. take (nat (out_count ctx)) col @ [x]) (col_data ctx) (bound ctx) =
      map2 (\<lambda>col x. col @ [x]) (col_data ctx) ?row"
    using assms(1) by (intro nth_equalityI) (auto simp: ctx_ok_def)
  have w: "appends p (length p) ctx (write_row c) [?row]"
    if "c = ctx \<or> (\<exists>k. c = ctx\<lparr>out_cap := k\<rparr>)" for c
  proof -
    have c: "var_plans c = p" "\<not> oom c" "\<not> cancelled c" "out_count c = out_count ctx" "bound c = bound ctx"
      "col_data c = col_data ctx"
      using that assms(1) by (auto simp: ctx_ok_def)
    have "\<forall>col \<in> set (map2 (\<lambda>col x. col @ [x]) (col_data ctx) ?row). length col = nat (out_count ctx + 1)"
      using assms(1) by (auto simp: ctx_ok_def set_zip)
    then show ?thesis
      using assms(1) c cols by (simp add: appends_def ctx_ok_def write_row_def add_rows_def)
  qed
  show ?thesis
  proof (cases "out_cap ctx \<le> out_count ctx")
    case False
    then show ?thesis using w by (simp add: emit_def)
  next
    case True
    then obtain k where "lftj_grow_output E ctx = Some (ctx\<lparr>out_cap := k\<rparr>)"
      using assms(2,3) by (auto simp: lftj_grow_output_def quiet_def Let_def)
    then show ?thesis using w True by (auto simp: emit_def)
  qed
qed


lemma loop_ok:
  assumes E: "quiet E" and d: "d < length p"
    and body: "\<And>c v. ctx_ok p c \<Longrightarrow> take (Suc d) (bound c) = pre @ [v] \<Longrightarrow> out_count c + int (length (f v)) \<le> 2 ^ 62 \<Longrightarrow>
      \<exists>c'. body c = Some c' \<and> appends p (Suc d) c c' (f v)"
    and c: "ctx_ok p ctx" "take d (bound ctx) = pre" "out_count ctx + int (length (concat (map f vals))) \<le> 2 ^ 62"
  shows "\<exists>ctx'. root_loop E body d vals ctx = Some ctx' \<and> appends p d ctx ctx' (concat (map f vals))"
  using c
proof (induction vals arbitrary: ctx)
  case Nil
  then show ?case by (simp add: appends_def add_rows_def)
next
  case (Cons v vals)
  define c1 where "c1 = ctx\<lparr>polls := polls ctx + 1, bound := (bound ctx)[d := v]\<rparr>"
  have lb: "d < length (bound ctx)" using Cons.prems(1) d by (simp add: ctx_ok_def)
  have c1: "ctx_ok p c1" "col_data c1 = col_data ctx" "out_count c1 = out_count ctx"
    "take (Suc d) (bound c1) = pre @ [v]"
    using Cons.prems(1,2) lb by (auto simp: c1_def ctx_ok_def take_Suc_conv_app_nth)
  then obtain c2 where c2: "body c1 = Some c2" "appends p (Suc d) c1 c2 (f v)"
    using body [OF c1(1,4)] Cons.prems(3) by auto
  have tv: "try_value E body d v ctx = Some (c2, True)"
    using E c2 by (simp add: try_value_def quiet_def c1_def appends_def ctx_ok_def Let_def)
  have pre: "take d (bound c2) = pre"
  proof -
    have "take (Suc d) (bound c2) = pre @ [v]" using c2(2) c1(4) by (simp add: appends_def)
    then have "take d (take (Suc d) (bound c2)) = take d (pre @ [v])" by simp
    then show ?thesis using Cons.prems(2) lb by (auto simp: min_def)
  qed
  have "out_count c2 = out_count ctx + int (length (f v))" using c2(2) c1(3) by (simp add: appends_def)
  then obtain c3 where c3: "root_loop E body d vals c2 = Some c3" "appends p d c2 c3 (concat (map f vals))"
    using Cons.IH [of c2] c2(2) pre Cons.prems(3) by (auto simp: appends_def)
  have "appends p d ctx c3 (concat (map f (v # vals)))"
    using c2(2) c3(2) c1(2,3) pre Cons.prems(2) by (simp add: appends_def add_rows_def)
  then show ?case using tv c3(1) by simp
qed

lemma enumerate_ok:
  assumes E: "quiet E" and p: "plan_ok p" and r: "r \<le> length p" and c: "ctx_ok p ctx"
    and n: "out_count ctx + int (length (rows_from p r (take (length p - r) (bound ctx)))) \<le> 2 ^ 62"
  shows "\<exists>ctx'. enumerate_from E r ctx = Some ctx' \<and>
    appends p (length p - r) ctx ctx' (rows_from p r (take (length p - r) (bound ctx)))"
  using r c n
proof (induction r arbitrary: ctx)
  case 0
  then have "out_count ctx < 2 ^ 62" by simp
  from emit_ok [OF 0(2) E this] show ?case using 0(2) by (simp add: ctx_ok_def)
next
  case (Suc r)
  define d where "d = length p - Suc r"
  define pre where "pre = take d (bound ctx)"
  have d: "d < length p" "length p - r = Suc d" using Suc.prems(1) by (simp_all add: d_def)
  have vp: "var_plans ctx = p" "\<not> oom ctx" and lb: "length p \<le> length (bound ctx)"
    using Suc.prems(2) by (auto simp: ctx_ok_def)
  have lpre: "length pre = d" using lb d(1) by (simp add: pre_def)
  have rows: "rows_from p (Suc r) pre = concat (map (\<lambda>v. rows_from p r (pre @ [v])) (cands p pre))" by simp
  have bound: "out_count ctx + int (length (concat (map (\<lambda>v. rows_from p r (pre @ [v])) (cands p pre)))) \<le> 2 ^ 62"
    using Suc.prems(3) unfolding pre_def [symmetric] d_def [symmetric] rows .
  have loop: "\<exists>ctx'. root_loop E (enumerate_from E r) d (cands p pre) ctx = Some ctx' \<and>
      appends p d ctx ctx' (rows_from p (Suc r) pre)"
    unfolding rows
  proof (rule loop_ok [OF E d(1) _ Suc.prems(2) pre_def [symmetric] bound])
    fix c v
    assume "ctx_ok p c" "take (Suc d) (bound c) = pre @ [v]" "out_count c + int (length (rows_from p r (pre @ [v]))) \<le> 2 ^ 62"
    then show "\<exists>c'. enumerate_from E r c = Some c' \<and> appends p (Suc d) c c' (rows_from p r (pre @ [v]))"
      using Suc.IH [of c] Suc.prems(1) by (simp add: d(2))
  qed
  have "enumerate_from E (Suc r) ctx = root_loop E (enumerate_from E r) d (cands p pre) ctx"
  proof (cases "p ! d = []")
    case True
    have unf: "enumerate_from E (Suc r) ctx = (if d \<noteq> 0 then Some ctx else if max_nodes p = 0 then Some ctx
        else root_loop E (enumerate_from E r) 0 [0..max_nodes p - 1] ctx)"
      using vp True by (simp add: Let_def flip: d_def)
    have "cands p pre = (if d = 0 then [0..max_nodes p - 1] else [])"
      using True lpre by (auto simp: cands_def)
    then show ?thesis unfolding unf by simp
  next
    case False
    have "d \<le> length (bound ctx)" using d(1) lb by simp
    note mc = meet_cands [OF p vp(1) d(1) this False, folded pre_def]
    have unf: "enumerate_from E (Suc r) ctx = (case open_iters ctx (p ! d) of None \<Rightarrow> Some ctx
        | Some its \<Rightarrow> match_loop E (enumerate_from E r) d its ctx)"
      using vp False by (simp add: Let_def flip: d_def)
    show ?thesis
      unfolding unf using mc match_loop_eq by (auto split: option.splits)
  qed
  then show ?case using loop unfolding d_def [symmetric] pre_def [symmetric] by simp
qed

section \<open>The join\<close>

lemma rows_from_set:
  "set (rows_from p r pre) = {t. length t = length pre + r \<and> take (length pre) t = pre \<and>
     (\<forall>d. length pre \<le> d \<and> d < length t \<longrightarrow> t ! d \<in> set (cands p (take d t)))}"
proof (induction r arbitrary: pre)
  case 0
  then show ?case by auto
next
  case (Suc r)
  let ?n = "length pre"
  have "t \<in> set (rows_from p (Suc r) pre) \<longleftrightarrow> length t = ?n + Suc r \<and> take ?n t = pre \<and>
      (\<forall>d. ?n \<le> d \<and> d < length t \<longrightarrow> t ! d \<in> set (cands p (take d t)))" (is "_ \<longleftrightarrow> ?R") for t
  proof
    assume "t \<in> set (rows_from p (Suc r) pre)"
    then obtain v where v: "v \<in> set (cands p pre)" "t \<in> set (rows_from p r (pre @ [v]))" by auto
    then have t: "length t = Suc ?n + r" "take (Suc ?n) t = pre @ [v]"
      "\<forall>d. Suc ?n \<le> d \<and> d < length t \<longrightarrow> t ! d \<in> set (cands p (take d t))" using Suc by auto
    have "take ?n (take (Suc ?n) t) = pre" using t(2) by simp
    then have pre: "take ?n t = pre" by (simp add: min_def)
    have "take (Suc ?n) t ! ?n = v" using t(2) by simp
    then have "t ! ?n = v" by simp
    then have "t ! d \<in> set (cands p (take d t))" if "?n \<le> d" "d < length t" for d
      using that t(3) v(1) pre by (cases "d = ?n") auto
    then show ?R using t pre by simp
  next
    assume R: ?R
    then have "t ! ?n \<in> set (cands p pre)" by (metis add_diff_cancel_left' le_refl length_greater_0_conv less_add_same_cancel1 zero_less_Suc)
    moreover have "take (Suc ?n) t = pre @ [t ! ?n]" using R by (simp add: take_Suc_conv_app_nth)
    ultimately show "t \<in> set (rows_from p (Suc r) pre)" using R Suc [of "pre @ [t ! ?n]"] by auto
  qed
  then show ?case by blast
qed

lemma rows_from_distinct:
  assumes "\<And>q. length q < length p \<Longrightarrow> distinct (cands p q)" "length pre + r = length p"
  shows "distinct (rows_from p r pre)"
  using assms(2)
proof (induction r arbitrary: pre)
  case (Suc r)
  have d: "distinct (cands p pre)" using assms(1) Suc.prems by simp
  have IH: "distinct (rows_from p r (pre @ [v]))" for v using Suc by simp
  have nth: "t ! length pre = v" if "t \<in> set (rows_from p r (pre @ [v]))" for t v
  proof -
    have "take (Suc (length pre)) t = pre @ [v]" using that by (simp add: rows_from_set)
    then have "take (Suc (length pre)) t ! length pre = v" by simp
    then show ?thesis by simp
  qed
  have "distinct (concat (map (\<lambda>v. rows_from p r (pre @ [v])) vs))" if "distinct vs" for vs
    using that
  proof (induction vs)
    case (Cons v vs)
    have "set (rows_from p r (pre @ [v])) \<inter> (\<Union>w \<in> set vs. set (rows_from p r (pre @ [w]))) = {}"
      using Cons.prems nth by (fastforce dest: nth)
    then show ?case using Cons IH by simp
  qed simp
  then show ?case using d by simp
qed simp

lemma plan_ok_binding:
  assumes "plan_ok p" "d < length p" "b \<in> set (p ! d)"
  obtains g bv where "b = (Some g, bv)" "csr_ok g" "bv < d"
proof -
  obtain c bv where b: "b = (c, bv)" by (cases b)
  have "bv < d \<and> (\<exists>g. c = Some g \<and> csr_ok g)" using assms unfolding plan_ok_def b by blast
  then show thesis using that b by blast
qed

lemma cands_distinct:
  assumes "plan_ok p" "length q < length p"
  shows "distinct (cands p q)"
proof (cases "p ! length q")
  case (Cons b bs)
  then obtain g bv where b: "b = (Some g, bv)" "csr_ok g" using plan_ok_binding [OF assms] by (metis list.set_intros(1))
  have "distinct (adj g a)" for a
    using b(2) by (cases "0 \<le> a \<and> a < n_nodes g")
      (auto simp: adj_out csr_ok_def strict_sorted_iff split: option.splits)
  then show ?thesis using Cons b by (simp add: cands_def)
qed (simp add: cands_def)

lemma cands_set:
  assumes "plan_ok p" "length q < length p" "p ! length q \<noteq> []"
  shows "v \<in> set (cands p q) \<longleftrightarrow> (\<forall>b \<in> set (p ! length q). fits q v b)"
proof -
  obtain b bs where bs: "p ! length q = b # bs" using assms(3) by (cases "p ! length q") auto
  then obtain g bv where b: "b = (Some g, bv)" using plan_ok_binding [OF assms(1,2)] by (metis list.set_intros(1))
  have "fits q v b \<longleftrightarrow> v \<in> set (adj g (q ! bv))" by (simp add: fits_def b)
  then show ?thesis by (auto simp: cands_def bs b)
qed

lemma max_nodes_ge:
  assumes "b \<in> set (p ! d)" "d < length p" "fst b = Some g"
  shows "n_nodes g \<le> max_nodes p"
proof -
  let ?f = "\<lambda>nn b. case fst b of None \<Rightarrow> nn | Some g \<Rightarrow> if nn < n_nodes g then n_nodes g else nn"
  have "nn \<le> foldl ?f nn bs \<and> (\<forall>b \<in> set bs. \<forall>g. fst b = Some g \<longrightarrow> n_nodes g \<le> foldl ?f nn bs)"
    for nn and bs :: "binding list"
  proof (induction bs arbitrary: nn)
    case (Cons b bs)
    show ?case using Cons.IH [of "?f nn b"] by (auto split: option.splits if_splits) 
  qed simp
  then have "0 \<le> foldl ?f 0 (concat p) \<and> (\<forall>b \<in> set (concat p). \<forall>g. fst b = Some g \<longrightarrow> n_nodes g \<le> foldl ?f 0 (concat p))"
    by blast
  moreover have "b \<in> set (concat p)" using assms(1,2) by auto
  ultimately show ?thesis using assms(3) unfolding max_nodes_def by blast
qed

text \<open>The constraint a relation puts on the later of its two variables.\<close>

definition rel_binding :: "rel \<times> nat \<times> nat \<Rightarrow> binding" where
  "rel_binding x = (case x of (r, sv, dv) \<Rightarrow> if sv < dv then (Some (fwd r), sv) else (Some (rev_csr r), dv))"

lemma plan_loop_ok:
  assumes "plan_loop n p rs = Some p'" "length p = n"
  shows "length p' = n \<and> (\<forall>(r, sv, dv) \<in> set rs. sv \<noteq> dv \<longrightarrow> sv < n \<and> dv < n) \<and>
    (\<forall>d < n. set (p' ! d) = set (p ! d) \<union> {rel_binding x |x r sv dv. x \<in> set rs \<and> x = (r, sv, dv) \<and> sv \<noteq> dv \<and> max sv dv = d})"
  using assms
proof (induction rs arbitrary: p)
  case (Cons x rs)
  obtain r sv dv where x: "x = (r, sv, dv)" by (cases x)
  show ?case
  proof (cases "sv = dv")
    case True
    then show ?thesis using Cons x by auto
  next
    case False
    let ?d = "max sv dv"
    have vars: "sv < n" "dv < n" using Cons.prems(1) False by (auto simp: x split: if_splits)
    have "add_binding p ?d (rel_binding x) = (if sv < dv then add_binding p dv (Some (fwd r), sv)
                 else add_binding p sv (Some (rev_csr r), dv))"
      using False by (auto simp: rel_binding_def x max_def)
    then obtain p1 where p1: "add_binding p ?d (rel_binding x) = Some p1" "plan_loop n p1 rs = Some p'"
      using Cons.prems(1) False vars by (auto simp: x split: option.splits if_splits)
    then have p1': "p1 = p[?d := p ! ?d @ [rel_binding x]]" by (auto simp: add_binding_def split: if_splits)
    have IH: "length p' = n" "\<forall>(r, sv, dv) \<in> set rs. sv \<noteq> dv \<longrightarrow> sv < n \<and> dv < n"
      "\<forall>d < n. set (p' ! d) = set (p1 ! d) \<union> {rel_binding x |x r sv dv. x \<in> set rs \<and> x = (r, sv, dv) \<and> sv \<noteq> dv \<and> max sv dv = d}"
      using Cons.IH [OF p1(2)] Cons.prems(2) p1' by auto
    have "set (p1 ! d) = set (p ! d) \<union> (if d = ?d then {rel_binding x} else {})" if "d < n" for d
      using that Cons.prems(2) by (auto simp: p1' nth_list_update)
    then show ?thesis using IH vars False by (auto simp: x)
  qed
qed auto


definition rel_ok :: "rel \<Rightarrow> bool" where
  "rel_ok r \<longleftrightarrow> csr_ok (fwd r) \<and> csr_ok (rev_csr r) \<and>
     (\<forall>x y. y \<in> set (adj (fwd r) x) \<longleftrightarrow> x \<in> set (adj (rev_csr r) y))"

text \<open>The tuples a pattern asks for: an edge of each relation between the values of its variables.\<close>

definition solution :: "(rel \<times> nat \<times> nat) list \<Rightarrow> nat \<Rightarrow> int list \<Rightarrow> bool" where
  "solution pat n t \<longleftrightarrow> length t = n \<and>
     (\<forall>(r, sv, dv) \<in> set pat. sv \<noteq> dv \<longrightarrow> t ! dv \<in> set (adj (fwd r) (t ! sv)))"

definition vars_bound :: "(rel \<times> nat \<times> nat) list \<Rightarrow> nat \<Rightarrow> bool" where
  "vars_bound pat n \<longleftrightarrow> (\<forall>d \<in> {1..<n}. \<exists>(r, sv, dv) \<in> set pat. sv \<noteq> dv \<and> max sv dv = d)"

lemma plan_bindings:
  assumes "plan_loop n (replicate n []) pat = Some p" "d < n"
  shows "set (p ! d) = {rel_binding x |x r sv dv. x \<in> set pat \<and> x = (r, sv, dv) \<and> sv \<noteq> dv \<and> max sv dv = d}"
  using plan_loop_ok [OF assms(1)] assms(2) by simp

lemma built_plan_ok:
  assumes "plan_loop n (replicate n []) pat = Some p" "\<forall>(r, sv, dv) \<in> set pat. rel_ok r"
  shows "length p = n \<and> plan_ok p"
proof -
  have l: "length p = n" using plan_loop_ok [OF assms(1)] by simp
  have "bv < d \<and> (\<exists>g. c = Some g \<and> csr_ok g)" if "d < n" "(c, bv) \<in> set (p ! d)" for d c bv
    using that(2) assms(2) unfolding plan_bindings [OF assms(1) that(1)]
    by (auto simp: rel_binding_def rel_ok_def split: if_splits)
  then show ?thesis using l by (auto simp: plan_ok_def)
qed

lemma solution_iff:
  assumes b: "plan_loop n (replicate n []) pat = Some p" and ok: "\<forall>(r, sv, dv) \<in> set pat. rel_ok r"
    and con: "vars_bound pat n" "2 \<le> n" and l: "length t = n"
  shows "solution pat n t \<longleftrightarrow> (\<forall>d < n. t ! d \<in> set (cands p (take d t)))"
proof -
  have p: "length p = n" "plan_ok p" using built_plan_ok [OF b ok] by auto
  note pb = plan_bindings [OF b]
  have fit: "fits (take (max sv dv) t) (t ! max sv dv) (rel_binding (r, sv, dv)) \<longleftrightarrow> t ! dv \<in> set (adj (fwd r) (t ! sv))"
    if "(r, sv, dv) \<in> set pat" "sv \<noteq> dv" for r sv dv
    using ok that by (auto simp: fits_def rel_binding_def rel_ok_def max_def)
  have p0: "p ! 0 = []" using pb [of 0] con(2) by (cases "p ! 0") auto
  have pd: "p ! d \<noteq> []" if "1 \<le> d" "d < n" for d
  proof -
    have "d \<in> {1..<n}" using that by simp
    then obtain r sv dv where "(r, sv, dv) \<in> set pat" "sv \<noteq> dv" "max sv dv = d"
      using con(1) unfolding vars_bound_def by blast
    then have "rel_binding (r, sv, dv) \<in> set (p ! d)" unfolding pb [OF that(2)] by blast
    then show ?thesis by auto
  qed
  have cd: "t ! d \<in> set (cands p (take d t)) \<longleftrightarrow> (\<forall>b \<in> set (p ! d). fits (take d t) (t ! d) b)" if "1 \<le> d" "d < n" for d
    using cands_set [OF p(2), of "take d t" "t ! d"] pd [OF that] that l p(1) by simp
  have all: "solution pat n t \<longleftrightarrow> (\<forall>d < n. \<forall>b \<in> set (p ! d). fits (take d t) (t ! d) b)"
  proof
    assume s: "solution pat n t"
    show "\<forall>d < n. \<forall>b \<in> set (p ! d). fits (take d t) (t ! d) b"
    proof (intro allI impI ballI)
      fix d b assume d: "d < n" and "b \<in> set (p ! d)"
      then obtain r sv dv where x: "b = rel_binding (r, sv, dv)" "(r, sv, dv) \<in> set pat" "sv \<noteq> dv" "max sv dv = d"
        unfolding pb [OF d] by blast
      then show "fits (take d t) (t ! d) b" using fit [OF x(2,3)] s unfolding solution_def by auto
    qed
  next
    assume f: "\<forall>d < n. \<forall>b \<in> set (p ! d). fits (take d t) (t ! d) b"
    have "t ! dv \<in> set (adj (fwd r) (t ! sv))" if x: "(r, sv, dv) \<in> set pat" "sv \<noteq> dv" for r sv dv
    proof -
      have d: "max sv dv < n" using plan_loop_ok [OF b] x by fastforce
      have "rel_binding (r, sv, dv) \<in> set (p ! max sv dv)" unfolding pb [OF d] using x by blast
      then show ?thesis using f d fit [OF x] by blast
    qed
    then show "solution pat n t" using l by (auto simp: solution_def)
  qed
  have root: "t ! 0 \<in> set (cands p (take 0 t))" if f: "\<forall>d < n. \<forall>b \<in> set (p ! d). fits (take d t) (t ! d) b"
  proof -
    have one: "1 < n" using con(2) by simp
    obtain b where b: "b \<in> set (p ! 1)" using pd [of 1] one by (cases "p ! 1") auto
    obtain g bv where g: "b = (Some g, bv)" "bv < 1" using plan_ok_binding [OF p(2) _ b] p(1) one by metis
    have "fits (take 1 t) (t ! 1) b" using f one b by blast
    then have "t ! 1 \<in> set (adj g (t ! 0))" using g l one by (simp add: fits_def)
    then have "0 \<le> t ! 0" "t ! 0 < n_nodes g" using adj_out [of "t ! 0" g] by (metis empty_iff empty_set)+
    moreover have "n_nodes g \<le> max_nodes p" using max_nodes_ge [OF b] g p(1) one by simp
    ultimately show ?thesis using p0 by (simp add: cands_def)
  qed
  show ?thesis
  proof
    assume "solution pat n t"
    then have f: "\<forall>d < n. \<forall>b \<in> set (p ! d). fits (take d t) (t ! d) b" using all by blast
    then show "\<forall>d < n. t ! d \<in> set (cands p (take d t))" using root [OF f] cd by (metis One_nat_def Suc_leI neq0_conv)
  next
    assume c: "\<forall>d < n. t ! d \<in> set (cands p (take d t))"
    have "\<forall>b \<in> set (p ! d). fits (take d t) (t ! d) b" if "d < n" for d
      using c cd that p0 by (cases "d = 0") auto
    then show "solution pat n t" using all by blast
  qed
qed


definition start_ctx :: "plan \<Rightarrow> int \<Rightarrow> enum_ctx" where
  "start_ctx p cap = \<lparr>var_plans = p, bound = replicate 16 0, col_data = replicate (length p) [],
     out_count = 0, out_cap = cap, oom = False, cancelled = False, polls = 0\<rparr>"

lemma add_rows_columns:
  assumes "\<forall>row \<in> set rows. length row = n"
  shows "add_rows (replicate n []) rows = map (\<lambda>v. map (\<lambda>row. row ! v) rows) [0..<n]"
  using assms
proof (induction rows rule: rev_induct)
  case Nil
  then show ?case by (simp add: add_rows_def map_replicate_trivial)
next
  case (snoc row rows)
  then have "add_rows (replicate n []) (rows @ [row]) = map2 (\<lambda>col x. col @ [x]) (map (\<lambda>v. map (\<lambda>row. row ! v) rows) [0..<n]) row"
    by (simp add: add_rows_def)
  also have "\<dots> = map (\<lambda>v. map (\<lambda>row. row ! v) (rows @ [row])) [0..<n]"
    using snoc.prems by (intro nth_equalityI) auto
  finally show ?case .
qed

lemma lftj_join_rows:
  assumes "lftj_build_plan rels n svs dvs = Some p" "\<forall>r \<in> set rels. rel_ok r"
    and "vars_bound (zip rels (zip svs dvs)) n" "2 \<le> n" "quiet E"
    and "card {t. solution (zip rels (zip svs dvs)) n t} \<le> 2 ^ 62"
  shows "\<exists>ctx rows. lftj_enumerate E (start_ctx p cap) 0 = Some ctx \<and> \<not> oom ctx \<and> \<not> cancelled ctx \<and>
    distinct rows \<and> set rows = {t. solution (zip rels (zip svs dvs)) n t} \<and>
    col_data ctx = map (\<lambda>v. map (\<lambda>row. row ! v) rows) [0..<n] \<and> out_count ctx = int (length rows)"
proof -
  let ?pat = "zip rels (zip svs dvs)"
  have n16: "n \<le> 16" and b: "plan_loop n (replicate n []) ?pat = Some p"
    using assms(1) by (auto simp: lftj_build_plan_def split: if_splits)
  have ok: "\<forall>(r, sv, dv) \<in> set ?pat. rel_ok r" using assms(2) by (auto dest: set_zip_leftD)
  have p: "length p = n" "plan_ok p" using built_plan_ok [OF b ok] by auto
  define rows where "rows = rows_from p n []"
  have dist: "distinct rows" using rows_from_distinct [of p "[]" n] cands_distinct [OF p(2)] p(1) by (simp add: rows_def)
  have set: "set rows = {t. solution ?pat n t}"
  proof -
    have "t \<in> set rows \<longleftrightarrow> solution ?pat n t" for t
    proof (cases "length t = n")
      case True
      then show ?thesis using solution_iff [OF b ok assms(3,4) True] by (simp add: rows_def rows_from_set)
    next
      case False
      then show ?thesis by (simp add: rows_def rows_from_set solution_def)
    qed
    then show ?thesis by blast
  qed
  have cnt: "length rows \<le> 2 ^ 62" using assms(6) distinct_card [OF dist] by (simp add: set)
  have c0: "ctx_ok p (start_ctx p cap)" using n16 p(1) by (simp add: ctx_ok_def start_ctx_def)
  have "\<exists>ctx'. enumerate_from E n (start_ctx p cap) = Some ctx' \<and> appends p 0 (start_ctx p cap) ctx' rows"
    using enumerate_ok [OF assms(5) p(2) _ c0, of n] p(1) cnt by (simp add: rows_def start_ctx_def)
  then obtain ctx where ctx: "enumerate_from E n (start_ctx p cap) = Some ctx" "appends p 0 (start_ctx p cap) ctx rows"
    by blast
  have len: "\<forall>row \<in> set rows. length row = n" using set by (auto simp: solution_def)
  show ?thesis
    using ctx dist set add_rows_columns [OF len] p(1)
    by (intro exI [of _ ctx] exI [of _ rows]) (auto simp: lftj_enumerate_def appends_def ctx_ok_def start_ctx_def)
qed

text \<open>
  C16.  On a pattern in which every variable but the first is the later variable of some relation (the
  enumeration produces nothing for a variable without a binding), over relations with ascending
  adjacency lists and at most \<open>2 ^ 62\<close> solutions, the enumeration returns and its columns hold exactly the tuples that satisfy every relation, each tuple once.
\<close>

theorem lftj_join_correct:
  assumes "lftj_build_plan rels n svs dvs = Some p" "\<forall>r \<in> set rels. rel_ok r"
    and "vars_bound (zip rels (zip svs dvs)) n" "2 \<le> n" "quiet E"
    and "card {t. solution (zip rels (zip svs dvs)) n t} \<le> 2 ^ 62"
  shows "\<exists>ctx rows. lftj_enumerate E (start_ctx p cap) 0 = Some ctx \<and> \<not> oom ctx \<and> \<not> cancelled ctx \<and>
    distinct rows \<and> set rows = {t. solution (zip rels (zip svs dvs)) n t} \<and>
    col_data ctx = map (\<lambda>v. map (\<lambda>row. row ! v) rows) [0..<n] \<and> out_count ctx = int (length rows)"
  using assms by (rule lftj_join_rows)


definition one_edge :: rel where
  "one_edge = \<lparr>fwd = \<lparr>offsets = Some [0, 1, 1], targets = Some [1], n_nodes = 2\<rparr>,
     rev_csr = \<lparr>offsets = Some [0, 0, 1], targets = Some [0], n_nodes = 2\<rparr>\<rparr>"

lemma one_edge_adj:
  "adj (fwd one_edge) x = (if x = 0 then [1] else [])" "adj (rev_csr one_edge) x = (if x = 1 then [0] else [])"
proof -
  have "x = 0 \<or> x = 1" if "0 \<le> x" "x < 2" using that by linarith
  then show "adj (fwd one_edge) x = (if x = 0 then [1] else [])" "adj (rev_csr one_edge) x = (if x = 1 then [0] else [])"
    by (auto simp: adj_def one_edge_def)
qed

lemma one_edge_ok: "rel_ok one_edge"
proof -
  have "{0..<2} = {0, 1 :: int}" by auto
  then have "csr_ok (fwd one_edge)" "csr_ok (rev_csr one_edge)"
    using one_edge_adj by (auto simp: csr_ok_def one_edge_def)
  then show ?thesis by (auto simp: rel_ok_def one_edge_adj split: if_splits)
qed

lemma one_edge_solutions: "{t. solution [(one_edge, 0, 1)] 2 t} = {[0, 1]}"
  by (auto simp: solution_def one_edge_adj length_Suc_conv numeral_eq_Suc split: if_splits)

theorem lftj_join_correct_witness:
  "\<exists>p ctx. lftj_build_plan [one_edge] 2 [0] [1] = Some p \<and>
     lftj_enumerate \<lparr>grow_ok = \<lambda>_. True, interrupted = \<lambda>_. False\<rparr> (start_ctx p 0) 0 = Some ctx \<and>
     col_data ctx = [[0], [1]]"
proof -
  let ?E = "\<lparr>grow_ok = \<lambda>_. True, interrupted = \<lambda>_. False\<rparr>"
  obtain p where p: "lftj_build_plan [one_edge] 2 [0] [1] = Some p"
    by (auto simp: lftj_build_plan_def add_binding_def)
  have "\<forall>r \<in> set [one_edge]. rel_ok r" "vars_bound (zip [one_edge] (zip [0] [1])) 2" "quiet ?E"
    "card {t. solution (zip [one_edge] (zip [0] [1])) 2 t} \<le> 2 ^ 62"
    using one_edge_ok one_edge_solutions by (auto simp: vars_bound_def quiet_def)
  from lftj_join_correct [OF p this(1,2) _ this(3,4), of 0]
  obtain ctx rows where r: "lftj_enumerate ?E (start_ctx p 0) 0 = Some ctx" "distinct rows"
    "set rows = {[0, 1]}" "col_data ctx = map (\<lambda>v. map (\<lambda>row. row ! v) rows) [0..<2]"
    using one_edge_solutions by auto
  have "rows = [[0, 1]]"
  proof (cases rows)
    case (Cons x xs)
    then have "x = [0, 1]" "set xs \<subseteq> {[0, 1]}" "x \<notin> set xs" using r(2,3) by auto
    then show ?thesis using Cons by (cases xs) auto
  qed (use r(3) in simp)
  then show ?thesis using p r(1,4) by (auto simp: numeral_eq_Suc)
qed

end
