(* ===== verification/Csr.thy ===== *)
theory Csr
  imports Lftj "HOL-Library.Multiset"
begin

text \<open>
  Building and loading relations (\<^verbatim>\<open>store/csr.c\<close>): edge lists are sorted, counted into offsets and
  scattered into the target and row arrays of a forward and a reverse index, whose rows may be
  sorted in place for the join.  A column of a loaded index is checked before it is used.

  The C library's \<open>qsort\<close> is the parameter \<open>qs\<close>, of which only the contract is assumed
  (\<open>qsort_ok\<close>: a permutation in the order of the comparator, not a stable one).  Whether an
  allocation finds memory is the parameter \<open>mem\<close>, what fresh memory holds the parameter \<open>junk\<close>.
  Releasing memory has no effect on the values that are modelled.
\<close>

section \<open>Edges and their order\<close>

record edge_pair =
  esrc :: int
  edst :: int
  erow :: int

definition cmp_edge_by_src :: "edge_pair \<Rightarrow> edge_pair \<Rightarrow> int" where
  "cmp_edge_by_src ea eb =
     (if esrc ea < esrc eb then -1 else if esrc eb < esrc ea then 1
      else if edst ea < edst eb then -1 else if edst eb < edst ea then 1
      else if erow ea < erow eb then -1 else if erow eb < erow ea then 1 else 0)"

definition cmp_edge_by_dst :: "edge_pair \<Rightarrow> edge_pair \<Rightarrow> int" where
  "cmp_edge_by_dst ea eb =
     (if edst ea < edst eb then -1 else if edst eb < edst ea then 1
      else if esrc ea < esrc eb then -1 else if esrc eb < esrc ea then 1
      else if erow ea < erow eb then -1 else if erow eb < erow ea then 1 else 0)"

text \<open>A relation's index with the map from its positions to rows of the edge table.\<close>

record csr_index = csr +
  rowmap :: "int list option"
  n_edges :: int
  sorted_rows :: bool

section \<open>Sorting the rows in place\<close>

text \<open>The inner loop; \<open>p\<close> is \<^verbatim>\<open>j + 1\<close>, the slot that is free.\<close>

fun shift_loop :: "nat \<Rightarrow> int \<Rightarrow> int list \<Rightarrow> int list option \<Rightarrow> nat \<Rightarrow> int list \<times> int list option \<times> nat" where
  "shift_loop start key ts rm p =
     (if start < p \<and> key < ts ! (p - 1)
      then shift_loop start key (ts[p := ts ! (p - 1)]) (map_option (\<lambda>r. r[p := r ! (p - 1)]) rm) (p - 1)
      else (ts, rm, p))"

declare shift_loop.simps [simp del]

definition insert_step :: "nat \<Rightarrow> nat \<Rightarrow> int list \<times> int list option \<Rightarrow> int list \<times> int list option" where
  "insert_step start i st =
     (case st of (ts, rm) \<Rightarrow>
        let key = ts ! i; row_key = (case rm of Some r \<Rightarrow> r ! i | None \<Rightarrow> 0)
        in case shift_loop start key ts rm i of
             (ts, rm, p) \<Rightarrow> (ts[p := key], map_option (\<lambda>r. r[p := row_key]) rm))"

definition sort_row :: "nat \<Rightarrow> nat \<Rightarrow> int list \<times> int list option \<Rightarrow> int list \<times> int list option" where
  "sort_row start end st = (if end - start \<le> 1 then st else fold (insert_step start) [start + 1..<end] st)"

definition csr_sort_adjacency_lists :: "csr_index \<Rightarrow> csr_index" where
  "csr_sort_adjacency_lists g =
     (case (offsets g, targets g) of
        (Some os, Some ts) \<Rightarrow>
          (case fold (\<lambda>node. sort_row (os ! node) (os ! (node + 1))) [0..<nat (n_nodes g)] (ts, rowmap g) of
             (ts, rm) \<Rightarrow> g\<lparr>targets := Some ts, rowmap := rm\<rparr>)
      | _ \<Rightarrow> g)"

section \<open>Counting and scattering\<close>

datatype alloc_site = Pairs | Relation | Offsets bool | Targets bool | Rowmap bool | Positions bool

definition edge_key :: "bool \<Rightarrow> edge_pair \<Rightarrow> int" where
  "edge_key is_reverse e = (if is_reverse then edst e else esrc e)"

definition edge_val :: "bool \<Rightarrow> edge_pair \<Rightarrow> int" where
  "edge_val is_reverse e = (if is_reverse then esrc e else edst e)"

definition key_in :: "bool \<Rightarrow> int \<Rightarrow> edge_pair \<Rightarrow> bool" where
  "key_in is_reverse n e \<longleftrightarrow> 0 \<le> edge_key is_reverse e \<and> edge_key is_reverse e < n"

definition count_degrees :: "bool \<Rightarrow> int \<Rightarrow> edge_pair list \<Rightarrow> nat list \<Rightarrow> nat list" where
  "count_degrees is_reverse n =
     fold (\<lambda>e off. if key_in is_reverse n e
                   then let k = nat (edge_key is_reverse e) + 1 in off[k := off ! k + 1] else off)"

definition prefix_sum :: "nat \<Rightarrow> nat list \<Rightarrow> nat list" where
  "prefix_sum n off = fold (\<lambda>i off. off[i := off ! i + off ! (i - 1)]) [1..<n + 1] off"

definition fill_step :: "bool \<Rightarrow> int \<Rightarrow> edge_pair \<Rightarrow> nat list \<times> int list \<times> int list \<Rightarrow> nat list \<times> int list \<times> int list" where
  "fill_step is_reverse n e st =
     (if key_in is_reverse n e
      then case st of (ps, tgt, rmap) \<Rightarrow>
             let k = nat (edge_key is_reverse e); p = ps ! k
             in (ps[k := p + 1], tgt[p := edge_val is_reverse e], rmap[p := erow e])
      else st)"

definition csr_build_from_pairs ::
  "(alloc_site \<Rightarrow> bool) \<Rightarrow> (nat \<Rightarrow> int) \<Rightarrow> edge_pair list \<Rightarrow> int \<Rightarrow> bool \<Rightarrow> bool \<Rightarrow> ray_err \<times> csr_index" where
  "csr_build_from_pairs mem junk ps n is_reverse sort_targets =
     (let valid_edges = foldl (\<lambda>c e. if key_in is_reverse n e then c + 1 else c) 0 ps;
          failed = \<lparr>offsets = None, targets = None, n_nodes = n, rowmap = None,
                    n_edges = int valid_edges, sorted_rows = False\<rparr>
      in if \<not> mem (Offsets is_reverse) \<or> \<not> mem (Targets is_reverse) \<or> \<not> mem (Rowmap is_reverse)
         then (RAY_ERR_OOM, failed)
         else let off = prefix_sum (nat n) (count_degrees is_reverse n ps (replicate (nat n + 1) 0))
              in if \<not> mem (Positions is_reverse) then (RAY_ERR_OOM, failed)
                 else case fold (fill_step is_reverse n) ps
                             (take (nat n) off, map junk [0..<valid_edges], map junk [0..<valid_edges]) of
                        (_, tgt, rmap) \<Rightarrow>
                          let out = failed\<lparr>offsets := Some off, targets := Some tgt, rowmap := Some rmap\<rparr>
                          in (RAY_OK, if sort_targets
                                      then csr_sort_adjacency_lists out\<lparr>sorted_rows := True\<rparr> else out))"

section \<open>Relations\<close>

record relation =
  from_table :: nat
  to_table :: nat
  name_sym :: int
  fwd_index :: csr_index
  rev_index :: csr_index

text \<open>A column of the edge table, and the table as its lookup by name; \<open>None\<close> is no table.\<close>

datatype column = I64 "int list" | Other_column

type_synonym edge_table = "(string \<rightharpoonup> column) option"

definition build_relation ::
  "(alloc_site \<Rightarrow> bool) \<Rightarrow> (nat \<Rightarrow> int) \<Rightarrow> ((edge_pair \<Rightarrow> edge_pair \<Rightarrow> int) \<Rightarrow> edge_pair list \<Rightarrow> edge_pair list) \<Rightarrow>
   edge_pair list \<Rightarrow> int \<Rightarrow> int \<Rightarrow> bool \<Rightarrow> relation option" where
  "build_relation mem junk qs ps n_src n_dst sort_targets =
     (if \<not> mem Relation then None
      else let ps = qs cmp_edge_by_src ps
           in case csr_build_from_pairs mem junk ps n_src False sort_targets of (err, f) \<Rightarrow>
              if err \<noteq> RAY_OK then None
              else let ps = qs cmp_edge_by_dst ps
                   in case csr_build_from_pairs mem junk ps n_dst True sort_targets of (err, r) \<Rightarrow>
                      if err \<noteq> RAY_OK then None
                      else Some \<lparr>from_table = 0, to_table = 0, name_sym = -1, fwd_index = f, rev_index = r\<rparr>)"

definition ray_rel_from_edges ::
  "(alloc_site \<Rightarrow> bool) \<Rightarrow> (nat \<Rightarrow> int) \<Rightarrow> ((edge_pair \<Rightarrow> edge_pair \<Rightarrow> int) \<Rightarrow> edge_pair list \<Rightarrow> edge_pair list) \<Rightarrow>
   (string \<Rightarrow> bool) \<Rightarrow> edge_table \<Rightarrow> string \<Rightarrow> string \<Rightarrow> int \<Rightarrow> int \<Rightarrow> bool \<Rightarrow> relation option" where
  "ray_rel_from_edges mem junk qs interned tab src_col dst_col n_src n_dst sort_targets =
     (case tab of
        None \<Rightarrow> None
      | Some col \<Rightarrow>
          if \<not> interned src_col \<or> \<not> interned dst_col then None
          else case (col src_col, col dst_col) of
                 (Some (I64 ss), Some (I64 ds)) \<Rightarrow>
                   if length ss \<noteq> length ds then None
                   else if n_src < 0 \<or> n_dst < 0 then None
                   else if \<not> mem Pairs then None
                   else build_relation mem junk qs
                          (map (\<lambda>i. \<lparr>esrc = ss ! i, edst = ds ! i, erow = int i\<rparr>) [0..<length ss])
                          n_src n_dst sort_targets
               | _ \<Rightarrow> None)"

definition ray_rel_build ::
  "(alloc_site \<Rightarrow> bool) \<Rightarrow> (nat \<Rightarrow> int) \<Rightarrow> ((edge_pair \<Rightarrow> edge_pair \<Rightarrow> int) \<Rightarrow> edge_pair list \<Rightarrow> edge_pair list) \<Rightarrow>
   edge_table \<Rightarrow> string \<Rightarrow> int \<Rightarrow> int \<Rightarrow> bool \<Rightarrow> relation option" where
  "ray_rel_build mem junk qs tab fk_col n_rows n_target sort_targets =
     (case tab of
        None \<Rightarrow> None
      | Some col \<Rightarrow>
          (case col fk_col of
             Some (I64 fk) \<Rightarrow>
               if n_target < 0 then None
               else if \<not> mem Pairs then None
               else build_relation mem junk qs
                      (map (\<lambda>i. \<lparr>esrc = int i, edst = fk ! i, erow = int i\<rparr>) [0..<length fk])
                      n_rows n_target sort_targets
           | _ \<Rightarrow> None))"

section \<open>Reading rows\<close>

definition ray_csr_degree :: "csr_index option \<Rightarrow> int \<Rightarrow> int" where
  "ray_csr_degree g node =
     (case g of
        None \<Rightarrow> 0
      | Some g \<Rightarrow>
          (case offsets g of
             None \<Rightarrow> 0
           | Some os \<Rightarrow> if node < 0 \<or> n_nodes g \<le> node then 0
                        else int (os ! (nat node + 1)) - int (os ! nat node)))"

text \<open>The pointer into the targets is the position it points to; the second part is the count.\<close>

definition ray_csr_neighbors :: "csr_index option \<Rightarrow> int \<Rightarrow> nat option \<times> int" where
  "ray_csr_neighbors g node =
     (case g of
        None \<Rightarrow> (None, 0)
      | Some g \<Rightarrow>
          (case (offsets g, targets g) of
             (Some os, Some ts) \<Rightarrow>
               if node < 0 \<or> n_nodes g \<le> node then (None, 0)
               else (Some (os ! nat node), int (os ! (nat node + 1)) - int (os ! nat node))
           | _ \<Rightarrow> (None, 0)))"

definition ray_rel_neighbors :: "relation option \<Rightarrow> int \<Rightarrow> nat \<Rightarrow> nat option \<times> int" where
  "ray_rel_neighbors r node direction =
     (case r of
        None \<Rightarrow> (None, 0)
      | Some r \<Rightarrow> ray_csr_neighbors (Some (if direction = 1 then rev_index r else fwd_index r)) node)"

definition ray_rel_n_nodes :: "relation option \<Rightarrow> nat \<Rightarrow> int" where
  "ray_rel_n_nodes r direction =
     (case r of None \<Rightarrow> 0 | Some r \<Rightarrow> n_nodes (if direction = 1 then rev_index r else fwd_index r))"

section \<open>Loading\<close>

text \<open>
  \<open>load\<close> reads a column file into a vector or fails.  A vector has its length and, as an array of 64-bit
  integers, the cells its bytes have room for: a column of a narrower type has fewer of those than its
  length says.  A read behind them has no result.  A name of 1024 bytes or more does not fit the path
  buffer.
\<close>

record col_vec =
  col_len :: nat
  cells :: "int list"

definition read_cell :: "col_vec \<Rightarrow> nat \<Rightarrow> int option" where
  "read_cell c i = (if i < length (cells c) then Some (cells c ! i) else None)"

definition path_fits :: "string \<Rightarrow> bool" where
  "path_fits p \<longleftrightarrow> length p < 1024"

text \<open>The loop over the offsets; the last of them has been read before.\<close>

definition offsets_ok :: "int list \<Rightarrow> nat \<Rightarrow> bool" where
  "offsets_ok os n \<longleftrightarrow> list_all (\<lambda>i. \<not> (os ! i < 0 \<or> os ! (i + 1) < os ! i)) [0..<n]"

definition csr_load_impl :: "(string \<Rightarrow> col_vec option) \<Rightarrow> string \<Rightarrow> string \<Rightarrow> (ray_err + csr_index) option" where
  "csr_load_impl load dir prefix =
     (let path = (\<lambda>part. dir @ ''/'' @ prefix @ part)
      in if \<not> path_fits (path ''_offsets'') then Some (Inl RAY_ERR_IO)
         else case load (path ''_offsets'') of
           None \<Rightarrow> Some (Inl RAY_ERR_IO)
         | Some os \<Rightarrow>
             if \<not> path_fits (path ''_targets'') then Some (Inl RAY_ERR_IO)
             else case load (path ''_targets'') of
               None \<Rightarrow> Some (Inl RAY_ERR_IO)
             | Some ts \<Rightarrow>
                 if \<not> path_fits (path ''_rowmap'') then Some (Inl RAY_ERR_IO)
                 else let rm = load (path ''_rowmap'')
                      in if col_len os < 1 then Some (Inl RAY_ERR_IO)
                         else let n = col_len os - 1
                              in case read_cell os n of
                                   None \<Rightarrow> None
                                 | Some end_off \<Rightarrow>
                                     if end_off \<noteq> int (col_len ts) then Some (Inl RAY_ERR_IO)
                                     else if \<not> offsets_ok (cells os) n then Some (Inl RAY_ERR_IO)
                                     else Some (Inr \<lparr>offsets = Some (map nat (take (n + 1) (cells os))), targets = Some (cells ts),
                                            n_nodes = int n, rowmap = map_option cells rm, n_edges = int (col_len ts),
                                            sorted_rows = False\<rparr>))"

definition rel_load_meta :: "(string \<Rightarrow> col_vec option) \<Rightarrow> string \<Rightarrow> relation \<Rightarrow> relation option" where
  "rel_load_meta load path rel =
     (case load path of
        None \<Rightarrow> Some rel
      | Some md \<Rightarrow>
          if col_len md < 5 then Some rel
          else do {
            m0 \<leftarrow> read_cell md 0; m1 \<leftarrow> read_cell md 1; m2 \<leftarrow> read_cell md 2; m3 \<leftarrow> read_cell md 3; m4 \<leftarrow> read_cell md 4;
            Some \<lparr>from_table = nat (m0 mod 2 ^ 16), to_table = nat (m1 mod 2 ^ 16), name_sym = m2,
                  fwd_index = (fwd_index rel)\<lparr>sorted_rows := m3 \<noteq> 0\<rparr>, rev_index = (rev_index rel)\<lparr>sorted_rows := m4 \<noteq> 0\<rparr>\<rparr>
          })"

definition rel_load_impl :: "(alloc_site \<Rightarrow> bool) \<Rightarrow> (string \<Rightarrow> col_vec option) \<Rightarrow> string option \<Rightarrow> relation option option" where
  "rel_load_impl mem load dir_arg =
     (case dir_arg of None \<Rightarrow> Some None | Some dir \<Rightarrow>
      if \<not> mem Relation then Some None
      else do {
        f \<leftarrow> csr_load_impl load dir ''fwd'';
        case f of
          Inl _ \<Rightarrow> Some None
        | Inr f \<Rightarrow> do {
            r \<leftarrow> csr_load_impl load dir ''rev'';
            case r of
              Inl _ \<Rightarrow> Some None
            | Inr r \<Rightarrow>
                let rel = \<lparr>from_table = 0, to_table = 0, name_sym = 0, fwd_index = f, rev_index = r\<rparr>;
                    path = dir @ ''/meta''
                in if path_fits path then map_option Some (rel_load_meta load path rel) else Some (Some rel)
          }
      })"

section \<open>The in-place sort is a stable sort\<close>

text \<open>The loops on an array of target and row pairs.\<close>

fun pshift :: "nat \<Rightarrow> int \<Rightarrow> (int \<times> int) list \<Rightarrow> nat \<Rightarrow> (int \<times> int) list \<times> nat" where
  "pshift start key zs p =
     (if start < p \<and> key < fst (zs ! (p - 1)) then pshift start key (zs[p := zs ! (p - 1)]) (p - 1) else (zs, p))"

declare pshift.simps [simp del]

definition pinsert :: "nat \<Rightarrow> nat \<Rightarrow> (int \<times> int) list \<Rightarrow> (int \<times> int) list" where
  "pinsert start i zs = (case pshift start (fst (zs ! i)) zs i of (ys, p) \<Rightarrow> ys[p := zs ! i])"

lemma shift_loop_pairs:
  assumes "p < length zs" "pshift start key zs p = (ys, q)"
  shows "shift_loop start key (map fst zs) (Some (map snd zs)) p = (map fst ys, Some (map snd ys), q) \<and> length ys = length zs"
  using assms
proof (induction start key zs p arbitrary: ys q rule: pshift.induct)
  case (1 start key zs p)
  show ?case
  proof (cases "start < p \<and> key < fst (zs ! (p - 1))")
    case True
    then have "pshift start key (zs[p := zs ! (p - 1)]) (p - 1) = (ys, q)" using 1(3) by (simp add: pshift.simps [of start key zs p])
    then show ?thesis
      using 1(1) [OF True] True 1(2) by (simp add: shift_loop.simps [of start key "map fst zs"] map_update)
  next
    case False
    then have "ys = zs" "q = p" using 1(3) by (auto simp: pshift.simps [of start key zs p])
    moreover have "\<not> (start < p \<and> key < map fst zs ! (p - 1))" using False 1(2) by auto
    ultimately show ?thesis by (subst shift_loop.simps) auto
  qed
qed

lemma insert_step_pairs:
  assumes "i < length zs"
  shows "insert_step start i (map fst zs, Some (map snd zs)) = (map fst (pinsert start i zs), Some (map snd (pinsert start i zs)))"
proof -
  obtain ys q where y: "pshift start (fst (zs ! i)) zs i = (ys, q)" by fastforce
  then show ?thesis
    using shift_loop_pairs [OF assms y] assms by (simp add: insert_step_def pinsert_def map_update)
qed

text \<open>The loop moves the last elements above the key one slot up.\<close>

lemma pshift_write:
  "case pshift (length A) key (A @ B @ y # D) (length A + length B) of (ys, q) \<Rightarrow>
     ys[q := x] = A @ rev (dropWhile (\<lambda>z. key < fst z) (rev B)) @ x # rev (takeWhile (\<lambda>z. key < fst z) (rev B)) @ D"
proof (induction B arbitrary: y D rule: rev_induct)
  case Nil
  then show ?case by (simp add: pshift.simps list_update_append)
next
  case (snoc b B)
  let ?zs = "A @ (B @ [b]) @ y # D" and ?p = "length A + length (B @ [b])"
  have b: "?zs ! (?p - 1) = b" "?p - 1 = length A + length B" "length A < ?p" by (simp_all add: nth_append)
  have u: "?zs[?p := b] = A @ B @ b # b # D" by (simp add: list_update_append)
  show ?case
  proof (cases "key < fst b")
    case True
    then have "pshift (length A) key ?zs ?p = pshift (length A) key (A @ B @ b # b # D) (length A + length B)"
      using b u by (subst pshift.simps) simp
    then show ?thesis using snoc [where y = b and D = "b # D"] True by simp
  next
    case False
    then have "pshift (length A) key ?zs ?p = (?zs, ?p)" using b by (subst pshift.simps) simp
    then show ?thesis using False by (simp add: list_update_append)
  qed
qed

text \<open>Insertion behind the elements that are not above, and the sort it gives.\<close>

definition insert_right :: "(int \<times> int) \<Rightarrow> (int \<times> int) list \<Rightarrow> (int \<times> int) list" where
  "insert_right x B = rev (dropWhile (\<lambda>z. fst x < fst z) (rev B)) @ x # rev (takeWhile (\<lambda>z. fst x < fst z) (rev B))"

lemma insert_right_parts:
  obtains U W where "B = U @ W" "insert_right x B = U @ x # W" "\<forall>z \<in> set W. fst x < fst z" "U \<noteq> [] \<longrightarrow> fst (last U) \<le> fst x"
proof
  let ?P = "\<lambda>z. fst x < fst z"
  let ?U = "rev (dropWhile ?P (rev B))" and ?W = "rev (takeWhile ?P (rev B))"
  show "B = ?U @ ?W" by (metis rev_append rev_rev_ident takeWhile_dropWhile_id)
  show "insert_right x B = ?U @ x # ?W" by (simp add: insert_right_def)
  show "\<forall>z \<in> set ?W. ?P z" by (auto dest: set_takeWhileD)
  show "?U \<noteq> [] \<longrightarrow> fst (last ?U) \<le> fst x" using hd_dropWhile [of ?P "rev B"] by (auto simp: last_rev not_less)
qed

lemma sort_key_snoc: "sort_key fst (B @ [x]) = insert_right x (sort_key fst B)"
proof -
  obtain U W where p: "sort_key fst B = U @ W" "insert_right x (sort_key fst B) = U @ x # W" "\<forall>z \<in> set W. fst x < fst z"
      "U \<noteq> [] \<longrightarrow> fst (last U) \<le> fst x" using insert_right_parts [of "sort_key fst B" x] by blast
  have srt: "sorted (map fst (U @ W))" using p(1) by (metis sorted_sort_key)
  have "fst z \<le> fst x" if "z \<in> set U" for z
  proof -
    have "fst z \<le> fst (last U)" using srt that by (cases U rule: rev_cases) (auto simp: sorted_append)
    then show ?thesis using p(4) that by (cases U) auto
  qed
  then have "sorted (map fst (U @ x # W))" using srt p(3) by (auto simp: sorted_append less_imp_le)
  moreover have "mset (U @ x # W) = mset (B @ [x])" using arg_cong [OF p(1), of mset] by simp
  moreover have "filter (\<lambda>z. fst k = fst z) (U @ x # W) = filter (\<lambda>z. fst k = fst z) (B @ [x])" for k
  proof -
    have "filter (\<lambda>z. fst k = fst z) (U @ W) = filter (\<lambda>z. fst k = fst z) B"
      using sort_key_stable [of fst "fst k" B] unfolding p(1) eq_commute [of "fst k"] .
    moreover have "filter (\<lambda>z. fst k = fst z) W = []" if "fst k = fst x" using p(3) that by (auto simp: filter_empty_conv)
    ultimately show ?thesis by auto
  qed
  ultimately have "sort_key fst (B @ [x]) = U @ x # W" by (intro properties_for_sort_key)
  then show ?thesis by (simp add: p(2))
qed

lemma pinsert_row:
  "pinsert (length A) (length A + length B) (A @ B @ x # D) = A @ insert_right x B @ D"
  using pshift_write [where A = A and key = "fst x" and B = B and y = x and D = D and x = x] by (auto simp: pinsert_def insert_right_def nth_append split: prod.splits)

lemma fold_insert_pairs:
  "\<forall>i \<in> set is. i < length zs \<Longrightarrow>
   fold (insert_step start) is (map fst zs, Some (map snd zs)) =
     (map fst (fold (pinsert start) is zs), Some (map snd (fold (pinsert start) is zs)))"
proof (induction "is" arbitrary: zs)
  case (Cons i "is")
  obtain ys q where y: "pshift start (fst (zs ! i)) zs i = (ys, q)" by fastforce
  then have "length (pinsert start i zs) = length zs" using shift_loop_pairs [of i zs] Cons.prems by (simp add: pinsert_def)
  then show ?case using Cons by (simp add: insert_step_pairs)
qed simp

lemma fold_pinsert_row:
  "m < length R \<Longrightarrow> fold (pinsert (length A)) [length A + 1..<length A + 1 + m] (A @ R @ C) =
     A @ sort_key fst (take (m + 1) R) @ drop (m + 1) R @ C"
proof (induction m)
  case 0
  then show ?case by (cases R) auto
next
  case (Suc m)
  let ?S = "sort_key fst (take (m + 1) R)"
  have d: "drop (m + 1) R = R ! (m + 1) # drop (m + 2) R" using Suc.prems by (simp add: Cons_nth_drop_Suc)
  have "fold (pinsert (length A)) [length A + 1..<length A + 1 + Suc m] (A @ R @ C) =
      pinsert (length A) (length A + length ?S) (A @ ?S @ R ! (m + 1) # drop (m + 2) R @ C)"
    using Suc d by simp
  also have "\<dots> = A @ insert_right (R ! (m + 1)) ?S @ drop (m + 2) R @ C" by (rule pinsert_row)
  also have "insert_right (R ! (m + 1)) ?S = sort_key fst (take (m + 2) R)"
    using Suc.prems take_Suc_conv_app_nth [of "m + 1" R] by (simp add: sort_key_snoc)
  finally show ?case by simp
qed

lemma sort_row_pairs:
  "sort_row (length A) (length A + length R) (map fst (A @ R @ C), Some (map snd (A @ R @ C))) =
     (map fst (A @ sort_key fst R @ C), Some (map snd (A @ sort_key fst R @ C)))"
proof (cases "length R \<le> 1")
  case True
  then have "sort_key fst R = R" by (cases R) auto
  then show ?thesis using True by (simp add: sort_row_def)
next
  case False
  have "length A + length R = length A + 1 + (length R - 1)" using False by simp
  then have "fold (pinsert (length A)) [length A + 1..<length A + length R] (A @ R @ C) = A @ sort_key fst R @ C"
    using fold_pinsert_row [of "length R - 1" R A C] False by simp
  then show ?thesis
    using False fold_insert_pairs [of "[length A + 1..<length A + length R]" "A @ R @ C" "length A"]
    unfolding sort_row_def by simp
qed

section \<open>Rows of an index\<close>

text \<open>Where row \<open>k\<close> of a list of rows starts, and the rows of an index as pairs of target and edge row.\<close>

definition row_start :: "'a list list \<Rightarrow> nat \<Rightarrow> nat" where
  "row_start rows k = sum_list (map length (take k rows))"

definition slice :: "nat \<Rightarrow> nat \<Rightarrow> 'a list \<Rightarrow> 'a list" where
  "slice a b xs = drop a (take b xs)"

definition index_row :: "csr_index \<Rightarrow> nat \<Rightarrow> (int \<times> int) list" where
  "index_row g k =
     (case (offsets g, targets g, rowmap g) of
        (Some os, Some ts, Some rm) \<Rightarrow> slice (os ! k) (os ! (k + 1)) (zip ts rm)
      | _ \<Rightarrow> [])"

text \<open>An index whose arrays hold the rows \<open>rows\<close>.\<close>

definition holds_rows :: "csr_index \<Rightarrow> (int \<times> int) list list \<Rightarrow> bool" where
  "holds_rows g rows \<longleftrightarrow> n_nodes g = int (length rows) \<and>
     offsets g = Some (map (row_start rows) [0..<length rows + 1]) \<and>
     targets g = Some (map fst (concat rows)) \<and> rowmap g = Some (map snd (concat rows)) \<and>
     n_edges g = int (length (concat rows))"

lemma row_start_Suc: "k < length rows \<Longrightarrow> row_start rows (Suc k) = row_start rows k + length (rows ! k)"
  by (simp add: row_start_def take_Suc_conv_app_nth)

lemma row_start_concat: "row_start rows k = length (concat (take k rows))"
  by (simp add: row_start_def length_concat)

lemma concat_row:
  assumes "k < length rows"
  shows "concat rows = concat (take k rows) @ rows ! k @ concat (drop (Suc k) rows)"
  using id_take_nth_drop [OF assms] by (metis concat.simps(2) concat_append)

lemma slice_concat:
  assumes "k < length rows"
  shows "slice (row_start rows k) (row_start rows (Suc k)) (concat rows) = rows ! k"
  unfolding slice_def row_start_Suc [OF assms] by (subst concat_row [OF assms]) (simp add: row_start_concat)

lemma holds_rows_row:
  assumes "holds_rows g rows" "k < length rows"
  shows "index_row g k = rows ! k"
proof -
  have "k < length rows + 1" "k + 1 < length rows + 1" using assms(2) by simp_all
  then show ?thesis
    using assms slice_concat [OF assms(2)] by (simp add: holds_rows_def index_row_def zip_map_fst_snd del: upt_Suc)
qed

lemma row_start_map_length:
  "map length rows = map length rows' \<Longrightarrow> row_start rows = row_start rows'"
  by (auto simp: row_start_def fun_eq_iff take_map [symmetric])

text \<open>Sorting row after row.\<close>

lemma sort_rows_fold:
  assumes "k \<le> length rows"
  shows "fold (\<lambda>node. sort_row (row_start rows node) (row_start rows (node + 1))) [0..<k]
      (map fst (concat rows), Some (map snd (concat rows))) =
    (let ys = concat (map (sort_key fst) (take k rows) @ drop k rows) in (map fst ys, Some (map snd ys)))"
  using assms
proof (induction k)
  case (Suc k)
  let ?A = "concat (map (sort_key fst) (take k rows))" and ?C = "concat (drop (Suc k) rows)"
  have k: "k < length rows" using Suc.prems by simp
  have A: "length ?A = row_start rows k" by (simp add: row_start_def length_concat comp_def)
  have d: "drop k rows = rows ! k # drop (Suc k) rows" using k by (simp add: Cons_nth_drop_Suc)
  have "fold (\<lambda>node. sort_row (row_start rows node) (row_start rows (node + 1))) [0..<Suc k]
      (map fst (concat rows), Some (map snd (concat rows))) =
    sort_row (length ?A) (length ?A + length (rows ! k)) (map fst (?A @ rows ! k @ ?C), Some (map snd (?A @ rows ! k @ ?C)))"
    using Suc k by (simp add: Let_def d A row_start_Suc)
  also have "\<dots> = (map fst (?A @ sort_key fst (rows ! k) @ ?C), Some (map snd (?A @ sort_key fst (rows ! k) @ ?C)))"
    by (rule sort_row_pairs)
  finally show ?case using k by (simp add: Let_def take_Suc_conv_app_nth)
qed (simp add: Let_def)

lemma sort_holds_rows:
  assumes "holds_rows g rows"
  shows "holds_rows (csr_sort_adjacency_lists g) (map (sort_key fst) rows)"
proof -
  let ?rows = "map (sort_key fst) rows"
  have nth: "map (row_start rows) [0..<length rows + 1] ! k = row_start rows k" if "k < length rows + 1" for k
    using that by (simp del: upt_Suc)
  have "fold (\<lambda>node. sort_row (map (row_start rows) [0..<length rows + 1] ! node) (map (row_start rows) [0..<length rows + 1] ! (node + 1)))
      [0..<length rows] (map fst (concat rows), Some (map snd (concat rows))) =
    fold (\<lambda>node. sort_row (row_start rows node) (row_start rows (node + 1))) [0..<length rows]
      (map fst (concat rows), Some (map snd (concat rows)))"
    by (intro fold_cong refl) (simp add: nth del: upt_Suc)
  also have "\<dots> = (map fst (concat ?rows), Some (map snd (concat ?rows)))" using sort_rows_fold [of "length rows" rows] by (simp add: Let_def)
  finally have "csr_sort_adjacency_lists g = g\<lparr>targets := Some (map fst (concat ?rows)), rowmap := Some (map snd (concat ?rows))\<rparr>"
    using assms by (simp add: csr_sort_adjacency_lists_def holds_rows_def del: upt_Suc)
  moreover have "row_start ?rows = row_start rows" by (rule row_start_map_length) simp
  moreover have "length (concat ?rows) = length (concat rows)" by (simp add: length_concat comp_def)
  ultimately show ?thesis using assms by (simp add: holds_rows_def)
qed

section \<open>Counting and scattering build the rows\<close>

definition key_row :: "bool \<Rightarrow> edge_pair list \<Rightarrow> nat \<Rightarrow> (int \<times> int) list" where
  "key_row rv ps k = map (\<lambda>e. (edge_val rv e, erow e)) (filter (\<lambda>e. edge_key rv e = int k) ps)"

definition key_rows :: "bool \<Rightarrow> edge_pair list \<Rightarrow> nat \<Rightarrow> (int \<times> int) list list" where
  "key_rows rv ps N = map (key_row rv ps) [0..<N]"

lemma key_rows_simps [simp]: "length (key_rows rv ps N) = N" "k < N \<Longrightarrow> key_rows rv ps N ! k = key_row rv ps k"
  by (simp_all add: key_rows_def)

lemma key_in_nat: "key_in rv (int N) e \<longleftrightarrow> (\<exists>k < N. edge_key rv e = int k)"
  unfolding key_in_def by (metis nat_0_le nat_less_iff of_nat_0_le_iff of_nat_less_iff)

lemma key_row_snoc: "key_row rv (ps @ [e]) k = key_row rv ps k @ (if edge_key rv e = int k then [(edge_val rv e, erow e)] else [])"
  by (simp add: key_row_def)

lemma foldl_count: "foldl (\<lambda>c e. if P e then c + 1 else c) (c :: nat) xs = c + length (filter P xs)"
  by (induction xs arbitrary: c) auto

lemma valid_edges_rows:
  "foldl (\<lambda>c e. if key_in rv (int N) e then c + 1 else c) (0 :: nat) ps = length (concat (key_rows rv ps N))"
proof -
  have "length (filter (key_in rv (int N)) ps) = (\<Sum>k\<leftarrow>[0..<N]. length (key_row rv ps k))"
  proof (induction ps)
    case Nil
    then show ?case by (simp add: key_row_def)
  next
    case (Cons e ps)
    have "(\<Sum>k\<leftarrow>[0..<N]. length (key_row rv (e # ps) k)) =
        (\<Sum>k\<leftarrow>[0..<N]. (if edge_key rv e = int k then 1 else 0) + length (key_row rv ps k))"
      by (intro arg_cong [of _ _ sum_list] map_cong) (auto simp: key_row_def)
    also have "\<dots> = (\<Sum>k\<leftarrow>[0..<N]. if edge_key rv e = int k then 1 else 0) + (\<Sum>k\<leftarrow>[0..<N]. length (key_row rv ps k))"
      by (rule sum_list_addf)
    also have "(\<Sum>k\<leftarrow>[0..<N]. if edge_key rv e = int k then 1 else 0) = (if key_in rv (int N) e then 1 else 0 :: nat)"
    proof (cases "key_in rv (int N) e")
      case True
      then obtain k where k: "k < N" "edge_key rv e = int k" unfolding key_in_nat by blast
      then show ?thesis using True by (simp add: interv_sum_list_conv_sum_set_nat sum.delta')
    next
      case False
      then have "\<forall>k < N. edge_key rv e \<noteq> int k" unfolding key_in_nat by blast
      then show ?thesis using False by (simp add: interv_sum_list_conv_sum_set_nat)
    qed
    finally show ?case using Cons by simp
  qed
  then show ?thesis by (simp add: foldl_count key_rows_def length_concat comp_def)
qed

lemma count_degrees_nth:
  "length off = N + 1 \<Longrightarrow>
     length (count_degrees rv (int N) ps off) = N + 1 \<and> count_degrees rv (int N) ps off ! 0 = off ! 0 \<and>
     (\<forall>k < N. count_degrees rv (int N) ps off ! (k + 1) = off ! (k + 1) + length (key_row rv ps k))"
proof (induction ps arbitrary: off)
  case Nil
  then show ?case by (simp add: count_degrees_def key_row_def)
next
  case (Cons e ps)
  let ?off = "if key_in rv (int N) e then let k = nat (edge_key rv e) + 1 in off[k := off ! k + 1] else off"
  have l: "length ?off = N + 1" using Cons.prems by (simp add: Let_def)
  have z: "?off ! 0 = off ! 0" by (simp add: Let_def)
  have s: "?off ! (k + 1) = off ! (k + 1) + (if edge_key rv e = int k then 1 else 0)" if "k < N" for k
    using that Cons.prems by (auto simp: key_in_def nth_list_update Let_def)
  have "count_degrees rv (int N) (e # ps) off = count_degrees rv (int N) ps ?off" by (simp add: count_degrees_def)
  then show ?case using Cons.IH [OF l] z s by (simp add: key_row_def)
qed

lemma prefix_sum_nth:
  assumes "length off = N + 1" "m \<le> N"
  shows "length (prefix_sum m off) = N + 1 \<and>
    (\<forall>j \<le> N. prefix_sum m off ! j = (if j \<le> m then (\<Sum>i\<leftarrow>[0..<j + 1]. off ! i) else off ! j))"
  using assms(2)
proof (induction m)
  case 0
  then show ?case using assms(1) by (auto simp: prefix_sum_def)
next
  case (Suc m)
  let ?p = "prefix_sum m off"
  have ih: "length ?p = N + 1" "\<And>j. j \<le> N \<Longrightarrow> ?p ! j = (if j \<le> m then (\<Sum>i\<leftarrow>[0..<j + 1]. off ! i) else off ! j)"
    using Suc by auto
  have e: "prefix_sum (Suc m) off = ?p[Suc m := ?p ! Suc m + ?p ! m]" by (simp add: prefix_sum_def)
  have "?p ! Suc m + ?p ! m = (\<Sum>i\<leftarrow>[0..<Suc m + 1]. off ! i)" using ih(2) [of "Suc m"] ih(2) [of m] Suc.prems by simp
  then show ?case unfolding e using ih Suc.prems by (auto simp: nth_list_update)
qed

lemma offsets_rows:
  "prefix_sum N (count_degrees rv (int N) ps (replicate (N + 1) 0)) = map (row_start (key_rows rv ps N)) [0..<N + 1]"
proof -
  let ?d = "count_degrees rv (int N) ps (replicate (N + 1) 0)" and ?rows = "key_rows rv ps N"
  have d: "length ?d = N + 1" "?d ! 0 = 0" "\<And>k. k < N \<Longrightarrow> ?d ! (k + 1) = length (key_row rv ps k)"
    using count_degrees_nth [of "replicate (N + 1) 0" N rv ps] by auto
  have p: "length (prefix_sum N ?d) = N + 1" "\<And>j. j \<le> N \<Longrightarrow> prefix_sum N ?d ! j = (\<Sum>i\<leftarrow>[0..<j + 1]. ?d ! i)"
    using prefix_sum_nth [OF d(1) le_refl] by auto
  have "(\<Sum>i\<leftarrow>[0..<j + 1]. ?d ! i) = row_start ?rows j" if "j \<le> N" for j
    using that
  proof (induction j)
    case 0
    then show ?case using d(2) by (simp add: row_start_def)
  next
    case (Suc j)
    then show ?case using d(3) [of j] by (simp add: row_start_Suc)
  qed
  then show ?thesis using p by (intro nth_equalityI) (auto simp del: upt_Suc)
qed

lemma row_start_mono: "i \<le> j \<Longrightarrow> j \<le> length rows \<Longrightarrow> row_start rows i \<le> row_start rows j"
  by (induction j rule: dec_induct) (auto simp: row_start_Suc intro: le_trans)

lemma row_start_all: "row_start rows (length rows) = length (concat rows)"
  by (simp add: row_start_concat)

lemma slice_update_out: "b \<le> p \<or> p < a \<Longrightarrow> slice a b (xs[p := x]) = slice a b xs"
  by (auto simp: slice_def take_update_swap list_update_beyond)

lemma slice_extend: "a \<le> b \<Longrightarrow> b < length xs \<Longrightarrow> slice a (b + 1) (xs[b := x]) = slice a b xs @ [x]"
  by (simp add: slice_def take_Suc_conv_app_nth)

lemma concat_slices:
  assumes "\<forall>k < length rows. slice (row_start rows k) (row_start rows (k + 1)) zs = rows ! k"
    and "length zs = length (concat rows)"
  shows "zs = concat rows"
proof -
  have "take (row_start rows k) zs = concat (take k rows)" if "k \<le> length rows" for k
    using that
  proof (induction k)
    case (Suc k)
    let ?a = "row_start rows k" and ?b = "row_start rows (Suc k)"
    have le: "?a \<le> ?b" using Suc.prems by (intro row_start_mono) auto
    have "take ?b zs = take ?a (take ?b zs) @ drop ?a (take ?b zs)" by (rule append_take_drop_id [symmetric])
    also have "\<dots> = take ?a zs @ slice ?a ?b zs" using le by (simp add: slice_def min_absorb1)
    finally show ?case using Suc assms(1) by (simp add: take_Suc_conv_app_nth)
  qed (simp add: row_start_def)
  from this [of "length rows"] show ?thesis using assms(2) by (simp add: row_start_all)
qed

text \<open>The state of the scatter loop after the edges \<open>qs\<close>: every row holds its part of them.\<close>

definition filled :: "bool \<Rightarrow> (int \<times> int) list list \<Rightarrow> edge_pair list \<Rightarrow> nat list \<times> int list \<times> int list \<Rightarrow> bool" where
  "filled rv rows qs st \<longleftrightarrow> (\<exists>zs.
     st = (map (\<lambda>k. row_start rows k + length (key_row rv qs k)) [0..<length rows], map fst zs, map snd zs) \<and>
     length zs = length (concat rows) \<and>
     (\<forall>k < length rows. slice (row_start rows k) (row_start rows k + length (key_row rv qs k)) zs = key_row rv qs k))"

lemma key_row_append: "key_row rv (xs @ ys) k = key_row rv xs k @ key_row rv ys k"
  by (simp add: key_row_def)

lemma fill_step_filled:
  assumes "filled rv (key_rows rv ps N) qs st" "ps = qs @ e # es"
  shows "filled rv (key_rows rv ps N) (qs @ [e]) (fill_step rv (int N) e st)"
proof (cases "key_in rv (int N) e")
  case False
  then have "edge_key rv e \<noteq> int k" if "k < N" for k using that unfolding key_in_nat by blast
  then have "key_row rv (qs @ [e]) k = key_row rv qs k" if "k < N" for k using that by (simp add: key_row_snoc)
  moreover from this have "map (\<lambda>k. row_start (key_rows rv ps N) k + length (key_row rv (qs @ [e]) k)) [0..<N] =
      map (\<lambda>k. row_start (key_rows rv ps N) k + length (key_row rv qs k)) [0..<N]" by simp
  ultimately show ?thesis using assms(1) False by (auto simp: filled_def fill_step_def)
next
  case True
  then obtain k0 where k0: "k0 < N" "edge_key rv e = int k0" unfolding key_in_nat by blast
  define rs where "rs = row_start (key_rows rv ps N)"
  define cnt where "cnt = (\<lambda>k. length (key_row rv qs k))"
  obtain zs where zs: "st = (map (\<lambda>k. rs k + cnt k) [0..<N], map fst zs, map snd zs)"
      "length zs = length (concat (key_rows rv ps N))" "\<And>k. k < N \<Longrightarrow> slice (rs k) (rs k + cnt k) zs = key_row rv qs k"
    using assms(1) by (auto simp: filled_def rs_def cnt_def)
  define p where "p = rs k0 + cnt k0"
  define x where "x = (edge_val rv e, erow e)"
  have snoc: "key_row rv (qs @ [e]) k = (if k = k0 then key_row rv qs k @ [x] else key_row rv qs k)" for k
    using k0 by (simp add: key_row_snoc x_def)
  have room: "rs k + cnt k + (if k = k0 then 1 else 0) \<le> rs (k + 1)" if "k < N" for k
    using that k0 by (auto simp: rs_def row_start_Suc cnt_def assms(2) key_row_append key_row_def)
  have mono: "rs i \<le> rs j" if "i \<le> j" "j \<le> N" for i j using that by (simp add: rs_def row_start_mono)
  have p: "p < length zs"
    using room [OF k0(1)] mono [of "k0 + 1" N] k0 zs(2) row_start_all [of "key_rows rv ps N"] by (simp add: p_def rs_def)
  have "slice (rs k) (rs k + length (key_row rv (qs @ [e]) k)) (zs[p := x]) = key_row rv (qs @ [e]) k" if k: "k < N" for k
  proof (cases "k = k0")
    case True
    then show ?thesis
      using slice_extend [of "rs k0" p zs x] p zs(3) [OF k] by (simp add: snoc p_def cnt_def)
  next
    case False
    have "rs k + cnt k \<le> p \<or> p < rs k"
    proof (cases "k < k0")
      case True
      then show ?thesis using room [OF k] mono [of "k + 1" k0] k0 by (simp add: p_def)
    next
      case nl: False
      then show ?thesis using room [OF k0(1)] mono [of "k0 + 1" k] k False by (simp add: p_def)
    qed
    then show ?thesis using zs(3) [OF k] False by (simp add: snoc slice_update_out cnt_def)
  qed
  moreover have "fill_step rv (int N) e st =
      (map (\<lambda>k. rs k + length (key_row rv (qs @ [e]) k)) [0..<N], map fst (zs[p := x]), map snd (zs[p := x]))"
    using True k0 by (auto simp: fill_step_def zs(1) Let_def p_def x_def map_update snoc cnt_def intro!: nth_equalityI simp: nth_list_update)
  ultimately show ?thesis using zs(2) unfolding filled_def rs_def [symmetric] by (auto intro!: exI [of _ "zs[p := x]"])
qed

lemma fill_filled:
  assumes "filled rv (key_rows rv ps N) [] st" "ps = qs @ es"
  shows "filled rv (key_rows rv ps N) qs (fold (fill_step rv (int N)) qs st)"
  using assms(2)
proof (induction qs arbitrary: es rule: rev_induct)
  case Nil
  then show ?case using assms(1) by simp
next
  case (snoc e qs)
  then show ?case using fill_step_filled [of rv ps N qs _ e es] by simp
qed

lemma csr_build_rows:
  assumes "\<forall>s. mem s"
  shows "\<exists>g. csr_build_from_pairs mem junk ps (int N) rv srt = (RAY_OK, g) \<and> sorted_rows g = srt \<and>
    holds_rows g (map (if srt then sort_key fst else (\<lambda>r. r)) (key_rows rv ps N))"
proof -
  let ?rows = "key_rows rv ps N"
  define off where "off = map (row_start ?rows) [0..<N + 1]"
  define v where "v = length (concat ?rows)"
  define st where "st = (take N off, map junk [0..<v], map junk [0..<v])"
  have "take N off = map (row_start ?rows) [0..<N]" by (simp add: off_def take_map)
  then have "filled rv ?rows [] st"
    by (auto simp: filled_def st_def key_row_def slice_def v_def intro!: exI [of _ "zip (map junk [0..<v]) (map junk [0..<v])"])
  then have "filled rv ?rows ps (fold (fill_step rv (int N)) ps st)" using fill_filled [of rv ps N st ps "[]"] by simp
  then obtain zs where f: "fold (fill_step rv (int N)) ps st =
        (map (\<lambda>k. row_start ?rows k + length (key_row rv ps k)) [0..<N], map fst zs, map snd zs)"
      "length zs = length (concat ?rows)"
      "\<forall>k < N. slice (row_start ?rows k) (row_start ?rows k + length (key_row rv ps k)) zs = key_row rv ps k"
    by (auto simp: filled_def)
  have zs: "zs = concat ?rows" using f(2,3) by (intro concat_slices) (simp_all add: row_start_Suc)
  define out where "out = \<lparr>offsets = Some off, targets = Some (map fst zs), n_nodes = int N, rowmap = Some (map snd zs),
      n_edges = int v, sorted_rows = False\<rparr>"
  have res: "csr_build_from_pairs mem junk ps (int N) rv srt =
      (RAY_OK, if srt then csr_sort_adjacency_lists out\<lparr>sorted_rows := True\<rparr> else out)"
    unfolding csr_build_from_pairs_def Let_def valid_edges_rows nat_int offsets_rows off_def [symmetric] v_def [symmetric]
      st_def [symmetric] f(1)
    using assms by (simp add: out_def)
  have h: "holds_rows out ?rows" by (simp add: out_def holds_rows_def off_def zs v_def)
  have "holds_rows (csr_sort_adjacency_lists out\<lparr>sorted_rows := True\<rparr>) (map (sort_key fst) ?rows)"
    using sort_holds_rows [OF h] by (simp add: holds_rows_def)
  then show ?thesis using res h by (cases srt) (auto simp: out_def)
qed

text \<open>An allocation that fails leaves no array behind.\<close>

lemma csr_build_oom:
  assumes "\<not> mem (Offsets rv) \<or> \<not> mem (Targets rv) \<or> \<not> mem (Rowmap rv) \<or> \<not> mem (Positions rv)"
  shows "\<exists>g. csr_build_from_pairs mem junk ps n rv srt = (RAY_ERR_OOM, g) \<and> offsets g = None \<and> targets g = None \<and> rowmap g = None"
  using assms by (auto simp: csr_build_from_pairs_def Let_def)

section \<open>The sort of the C library\<close>

definition total_cmp :: "('a \<Rightarrow> 'a \<Rightarrow> int) \<Rightarrow> bool" where
  "total_cmp cmp \<longleftrightarrow> (\<forall>a b. cmp a b \<le> 0 \<or> cmp b a \<le> 0) \<and> (\<forall>a b c. cmp a b \<le> 0 \<longrightarrow> cmp b c \<le> 0 \<longrightarrow> cmp a c \<le> 0)"

text \<open>The comparator of an index: its key, then the value, then the row.\<close>

definition cmp_edge :: "bool \<Rightarrow> edge_pair \<Rightarrow> edge_pair \<Rightarrow> int" where
  "cmp_edge rv = (if rv then cmp_edge_by_dst else cmp_edge_by_src)"

lemma cmp_edge_iff:
  "cmp_edge rv a b \<le> 0 \<longleftrightarrow> edge_key rv a < edge_key rv b \<or> edge_key rv a = edge_key rv b \<and>
     (edge_val rv a < edge_val rv b \<or> edge_val rv a = edge_val rv b \<and> erow a \<le> erow b)"
  by (auto simp: cmp_edge_def cmp_edge_by_src_def cmp_edge_by_dst_def edge_key_def edge_val_def)

lemma total_cmp_edge: "total_cmp (cmp_edge rv)"
  unfolding total_cmp_def cmp_edge_iff by auto

lemma same_fst_eq:
  assumes "\<forall>x \<in> set xs. fst x = c" "\<forall>y \<in> set ys. fst y = c" "mset xs = mset ys"
    and "sorted (map snd xs)" "sorted (map snd ys)"
  shows "xs = ys"
proof -
  have "mset (map snd xs) = mset (map snd ys)" using assms(3) by simp
  then have "map snd xs = map snd ys"
    using properties_for_sort [OF refl assms(4)] properties_for_sort [OF _ assms(4)] assms(5) by (metis sorted_sort_id)
  moreover have "xs = map (Pair c) (map snd xs)" "ys = map (Pair c) (map snd ys)"
    using assms(1,2) by (auto simp: map_idI prod_eq_iff)
  ultimately show ?thesis by metis
qed

locale libc_qsort =
  fixes qs :: "(edge_pair \<Rightarrow> edge_pair \<Rightarrow> int) \<Rightarrow> edge_pair list \<Rightarrow> edge_pair list"
  assumes perm: "total_cmp cmp \<Longrightarrow> mset (qs cmp xs) = mset xs"
    and ordered: "total_cmp cmp \<Longrightarrow> sorted_wrt (\<lambda>a b. cmp a b \<le> 0) (qs cmp xs)"
begin

lemma qsort_rows:
  assumes "mset ps = mset ps0" "sorted_wrt (<) (map erow ps0)"
  shows "key_row rv (qs (cmp_edge rv) ps) k = sort_key fst (key_row rv ps0 k)"
proof -
  let ?S = "qs (cmp_edge rv) ps" and ?val = "\<lambda>e. (edge_val rv e, erow e)"
  let ?M = "key_row rv ?S k" and ?R = "key_row rv ps0 k"
  have ms: "mset ?M = mset ?R" using perm [OF total_cmp_edge, of rv ps] assms(1) by (simp add: key_row_def)
  have "sorted_wrt (\<lambda>a b. cmp_edge rv a b \<le> 0) (filter (\<lambda>e. edge_key rv e = int k) ?S)"
    using ordered [OF total_cmp_edge] by (rule sorted_wrt_filter)
  then have lex: "sorted_wrt (\<lambda>x y. fst x < fst y \<or> fst x = fst y \<and> snd x \<le> snd y) ?M"
    unfolding key_row_def sorted_wrt_map by (rule sorted_wrt_mono_rel [rotated]) (auto simp: cmp_edge_iff)
  have "sorted (map fst ?M)" unfolding sorted_map using lex by (rule sorted_wrt_mono_rel [rotated]) auto
  moreover have "filter (\<lambda>x. fst c = fst x) ?M = filter (\<lambda>x. fst c = fst x) ?R" for c :: "int \<times> int"
  proof (rule same_fst_eq [where c = "fst c"])
    have "sorted_wrt (\<lambda>x y. fst x < fst y \<or> fst x = fst y \<and> snd x \<le> snd y) (filter (\<lambda>x. fst c = fst x) ?M)"
      using lex by (rule sorted_wrt_filter)
    then show "sorted (map snd (filter (\<lambda>x. fst c = fst x) ?M))"
      unfolding sorted_map by (rule sorted_wrt_mono_rel [rotated]) auto
    have "sorted_wrt (\<lambda>a b. erow a < erow b) (filter (\<lambda>e. edge_key rv e = int k) ps0)"
      using assms(2) unfolding sorted_wrt_map by (rule sorted_wrt_filter)
    then have "sorted_wrt (\<lambda>x y. snd x < snd y) ?R" by (simp add: key_row_def sorted_wrt_map)
    then have "sorted_wrt (\<lambda>x y. snd x < snd y) (filter (\<lambda>x. fst c = fst x) ?R)" by (rule sorted_wrt_filter)
    then show "sorted (map snd (filter (\<lambda>x. fst c = fst x) ?R))"
      unfolding sorted_map by (rule sorted_wrt_mono_rel [rotated]) auto
    show "mset (filter (\<lambda>x. fst c = fst x) ?M) = mset (filter (\<lambda>x. fst c = fst x) ?R)" using ms by simp
  qed auto
  ultimately show ?thesis using ms by (intro properties_for_sort_key [symmetric]) auto
qed

end

text \<open>A sort that meets the contract.\<close>

fun ordered_insert :: "('a \<Rightarrow> 'a \<Rightarrow> int) \<Rightarrow> 'a \<Rightarrow> 'a list \<Rightarrow> 'a list" where
  "ordered_insert cmp x [] = [x]"
| "ordered_insert cmp x (y # ys) = (if cmp x y \<le> 0 then x # y # ys else y # ordered_insert cmp x ys)"

definition insertion_qsort :: "('a \<Rightarrow> 'a \<Rightarrow> int) \<Rightarrow> 'a list \<Rightarrow> 'a list" where
  "insertion_qsort cmp xs = foldr (ordered_insert cmp) xs []"

lemma mset_ordered_insert: "mset (ordered_insert cmp x ys) = add_mset x (mset ys)"
  by (induction ys) auto

lemma set_ordered_insert: "set (ordered_insert cmp x ys) = insert x (set ys)"
  using mset_ordered_insert [of cmp x ys] by (metis set_mset_add_mset_insert set_mset_mset)

lemma ordered_insert_ordered:
  "total_cmp cmp \<Longrightarrow> sorted_wrt (\<lambda>a b. cmp a b \<le> 0) ys \<Longrightarrow> sorted_wrt (\<lambda>a b. cmp a b \<le> 0) (ordered_insert cmp x ys)"
proof (induction ys)
  case (Cons y ys)
  have tr: "cmp a b \<le> 0 \<Longrightarrow> cmp b c \<le> 0 \<Longrightarrow> cmp a c \<le> 0" and tot: "\<not> cmp a b \<le> 0 \<Longrightarrow> cmp b a \<le> 0" for a b c
    using Cons.prems(1) unfolding total_cmp_def by blast+
  show ?case
  proof (cases "cmp x y \<le> 0")
    case True
    then show ?thesis using Cons.prems(2) tr by auto
  next
    case False
    then show ?thesis using Cons tot by (auto simp: set_ordered_insert)
  qed
qed simp

interpretation ins: libc_qsort insertion_qsort
proof
  fix cmp :: "edge_pair \<Rightarrow> edge_pair \<Rightarrow> int" and xs
  show "mset (insertion_qsort cmp xs) = mset xs"
    by (induction xs) (simp_all add: insertion_qsort_def mset_ordered_insert)
  assume "total_cmp cmp"
  then show "sorted_wrt (\<lambda>a b. cmp a b \<le> 0) (insertion_qsort cmp xs)"
    by (induction xs) (simp_all add: insertion_qsort_def ordered_insert_ordered)
qed

section \<open>Relations hold the edges of their table\<close>

lemma build_relation_rows:
  assumes "libc_qsort qs" "\<forall>s. mem s" "sorted_wrt (<) (map erow ps)"
  shows "\<exists>r. build_relation mem junk qs ps (int N) (int M) srt = Some r \<and>
    holds_rows (fwd_index r) (map (sort_key fst) (key_rows False ps N)) \<and>
    holds_rows (rev_index r) (map (sort_key fst) (key_rows True ps M)) \<and>
    sorted_rows (fwd_index r) = srt \<and> sorted_rows (rev_index r) = srt"
proof -
  have cmp: "cmp_edge False = cmp_edge_by_src" "cmp_edge True = cmp_edge_by_dst" by (simp_all add: cmp_edge_def)
  define ps1 where "ps1 = qs cmp_edge_by_src ps"
  define ps2 where "ps2 = qs cmp_edge_by_dst ps1"
  have ms: "mset ps1 = mset ps" using libc_qsort.perm [OF assms(1) total_cmp_edge [of False]] by (simp add: ps1_def cmp)
  have rows: "map (if srt then sort_key fst else (\<lambda>r. r)) (key_rows rv ps' k) = map (sort_key fst) (key_rows rv ps k)"
    if "\<And>j. key_row rv ps' j = sort_key fst (key_row rv ps j)" for rv ps' k
  proof -
    have "sort_key fst (sort_key fst xs) = sort_key fst xs" for xs :: "(int \<times> int) list"
      by (simp add: sort_key_id_if_sorted)
    then show ?thesis using that by (auto simp: key_rows_def)
  qed
  obtain f where f: "csr_build_from_pairs mem junk ps1 (int N) False srt = (RAY_OK, f)" "sorted_rows f = srt"
      "holds_rows f (map (sort_key fst) (key_rows False ps N))"
    using csr_build_rows [OF assms(2), of junk ps1 N False srt]
      rows [of False ps1] libc_qsort.qsort_rows [OF assms(1) refl assms(3), of False] by (auto simp: ps1_def cmp)
  obtain r where r: "csr_build_from_pairs mem junk ps2 (int M) True srt = (RAY_OK, r)" "sorted_rows r = srt"
      "holds_rows r (map (sort_key fst) (key_rows True ps M))"
    using csr_build_rows [OF assms(2), of junk ps2 M True srt]
      rows [of True ps2] libc_qsort.qsort_rows [OF assms(1) ms assms(3), of True] by (auto simp: ps2_def cmp)
  show ?thesis using assms(2) f r by (simp add: build_relation_def ps1_def ps2_def)
qed

text \<open>The edges from a node, as the other end and the row of the table, and by ascending other end.\<close>

definition table_row :: "int list \<Rightarrow> int list \<Rightarrow> int \<Rightarrow> (int \<times> int) list" where
  "table_row ss ds u = sort_key fst (map (\<lambda>i. (ds ! i, int i)) (filter (\<lambda>i. ss ! i = u) [0..<length ss]))"

lemma key_row_table:
  assumes "length ss = length ds"
  defines "ps \<equiv> map (\<lambda>i. \<lparr>esrc = ss ! i, edst = ds ! i, erow = int i\<rparr>) [0..<length ss]"
  shows "sort_key fst (key_row False ps k) = table_row ss ds (int k)" "sort_key fst (key_row True ps k) = table_row ds ss (int k)"
    "sorted_wrt (<) (map erow ps)"
  by (simp_all add: ps_def key_row_def table_row_def filter_map comp_def edge_key_def edge_val_def assms(1) sorted_wrt_map sorted_wrt_upt)

lemma holds_table_rows:
  "holds_rows g (map (sort_key fst) (key_rows rv ps N)) \<Longrightarrow> k < N \<Longrightarrow> index_row g k = sort_key fst (key_row rv ps k)"
  by (simp add: holds_rows_row)

lemma length_key_rows: "length (concat (key_rows rv ps N)) = length (filter (key_in rv (int N)) ps)"
  using valid_edges_rows [of rv N ps] by (simp add: foldl_count)

lemma length_sorted_rows: "length (concat (map (sort_key fst) rows)) = length (concat rows)"
  by (simp add: length_concat comp_def)

text \<open>
  C14.  Building an index from any edges keeps the edges whose key is a node and no others: row \<open>k\<close>
  holds the value and the table row of the edges of key \<open>k\<close>, in their order, or, when sorting is
  asked for, stably sorted by value.
\<close>

theorem csr_build_correct:
  assumes "0 \<le> n" "\<forall>s. mem s"
  shows "\<exists>g. csr_build_from_pairs mem junk ps n rv srt = (RAY_OK, g) \<and> n_nodes g = n \<and> sorted_rows g = srt \<and>
    n_edges g = int (length (filter (key_in rv n) ps)) \<and>
    (\<forall>k < nat n. index_row g k =
       (if srt then sort_key fst else (\<lambda>r. r))
         (map (\<lambda>e. (edge_val rv e, erow e)) (filter (\<lambda>e. edge_key rv e = int k) ps)))"
proof -
  obtain N where n: "n = int N" using assms(1) by (metis zero_le_imp_eq_int)
  obtain g where g: "csr_build_from_pairs mem junk ps n rv srt = (RAY_OK, g)" "sorted_rows g = srt"
      "holds_rows g (map (if srt then sort_key fst else (\<lambda>r. r)) (key_rows rv ps N))"
    using csr_build_rows [OF assms(2), of junk ps N rv srt] n by auto
  have "index_row g k = (if srt then sort_key fst else (\<lambda>r. r)) (key_row rv ps k)" if "k < N" for k
    using holds_rows_row [OF g(3), of k] that by simp
  moreover have "n_nodes g = n" using g(3) n by (simp add: holds_rows_def)
  moreover have "n_edges g = int (length (filter (key_in rv n) ps))"
    using g(3) n length_key_rows [of rv ps N] by (auto simp: holds_rows_def length_sorted_rows)
  ultimately show ?thesis using g(1,2) n by (simp add: key_row_def)
qed

definition demo_edges :: "edge_pair list" where
  "demo_edges = [\<lparr>esrc = 0, edst = 1, erow = 0\<rparr>, \<lparr>esrc = 5, edst = 0, erow = 1\<rparr>, \<lparr>esrc = 0, edst = 0, erow = 2\<rparr>]"

lemma csr_build_correct_witness:
  "\<exists>g. csr_build_from_pairs (\<lambda>_. True) (\<lambda>_. 7) demo_edges 2 False True = (RAY_OK, g) \<and> n_edges g = 2 \<and> index_row g 0 = [(0, 2), (1, 0)]"
proof -
  obtain g where g: "csr_build_from_pairs (\<lambda>_. True) (\<lambda>_. 7) demo_edges 2 False True = (RAY_OK, g)"
      "n_edges g = int (length (filter (key_in False 2) demo_edges))"
      "\<forall>k < nat 2. index_row g k = sort_key fst (map (\<lambda>e. (edge_val False e, erow e)) (filter (\<lambda>e. edge_key False e = int k) demo_edges))"
    using csr_build_correct [of 2 "\<lambda>_. True" "\<lambda>_. 7" demo_edges False True] by auto
  have "index_row g 0 = [(0, 2), (1, 0)]" using g(3) by (simp add: demo_edges_def edge_key_def edge_val_def)
  then show ?thesis using g(1,2) by (simp add: demo_edges_def key_in_def edge_key_def)
qed

lemma rel_from_edges_holds:
  assumes "libc_qsort qs" "\<forall>s. mem s" "interned a" "interned b" "col a = Some (I64 ss)" "col b = Some (I64 ds)"
    and "length ss = length ds" "0 \<le> n_src" "0 \<le> n_dst"
  shows "\<exists>r. ray_rel_from_edges mem junk qs interned (Some col) a b n_src n_dst srt = Some r \<and>
    holds_rows (fwd_index r) (map (\<lambda>u. table_row ss ds (int u)) [0..<nat n_src]) \<and>
    holds_rows (rev_index r) (map (\<lambda>v. table_row ds ss (int v)) [0..<nat n_dst])"
proof -
  let ?ps = "map (\<lambda>i. \<lparr>esrc = ss ! i, edst = ds ! i, erow = int i\<rparr>) [0..<length ss]"
  note tab = key_row_table [OF assms(7)]
  obtain r where r: "build_relation mem junk qs ?ps (int (nat n_src)) (int (nat n_dst)) srt = Some r"
      "holds_rows (fwd_index r) (map (sort_key fst) (key_rows False ?ps (nat n_src)))"
      "holds_rows (rev_index r) (map (sort_key fst) (key_rows True ?ps (nat n_dst)))"
    using build_relation_rows [OF assms(1,2) tab(3)] by blast
  have "ray_rel_from_edges mem junk qs interned (Some col) a b n_src n_dst srt = Some r"
    using assms r(1) by (simp add: ray_rel_from_edges_def)
  moreover have "map (sort_key fst) (key_rows False ?ps N) = map (\<lambda>u. table_row ss ds (int u)) [0..<N]"
      "map (sort_key fst) (key_rows True ?ps N) = map (\<lambda>u. table_row ds ss (int u)) [0..<N]" for N
    by (simp_all add: key_rows_def tab(1,2))
  ultimately show ?thesis using r(2,3) by auto
qed

text \<open>
  C22.  With memory and a library sort that meets its contract, a relation built from an edge table
  has in each forward row the edges that leave the node and in each reverse row those that enter it,
  by ascending other end and then by table row, whatever order the sort leaves equal keys in.
\<close>

theorem rel_from_edges_rows:
  assumes "libc_qsort qs" "\<forall>s. mem s" "interned a" "interned b" "col a = Some (I64 ss)" "col b = Some (I64 ds)"
    and "length ss = length ds" "0 \<le> n_src" "0 \<le> n_dst"
  shows "\<exists>r. ray_rel_from_edges mem junk qs interned (Some col) a b n_src n_dst srt = Some r \<and>
    n_nodes (fwd_index r) = n_src \<and> n_nodes (rev_index r) = n_dst \<and>
    (\<forall>u < nat n_src. index_row (fwd_index r) u = table_row ss ds (int u)) \<and>
    (\<forall>v < nat n_dst. index_row (rev_index r) v = table_row ds ss (int v))"
proof -
  obtain r where r: "ray_rel_from_edges mem junk qs interned (Some col) a b n_src n_dst srt = Some r"
      "holds_rows (fwd_index r) (map (\<lambda>u. table_row ss ds (int u)) [0..<nat n_src])"
      "holds_rows (rev_index r) (map (\<lambda>v. table_row ds ss (int v)) [0..<nat n_dst])"
    using rel_from_edges_holds [OF assms] by blast
  moreover have "n_nodes (fwd_index r) = n_src" "n_nodes (rev_index r) = n_dst"
    using r(2,3) assms(8,9) by (simp_all add: holds_rows_def)
  moreover have "index_row (fwd_index r) u = table_row ss ds (int u)" if "u < nat n_src" for u
    using holds_rows_row [OF r(2), of u] that by simp
  moreover have "index_row (rev_index r) v = table_row ds ss (int v)" if "v < nat n_dst" for v
    using holds_rows_row [OF r(3), of v] that by simp
  ultimately show ?thesis by blast
qed

lemma rel_from_edges_rows_witness:
  "\<exists>r. ray_rel_from_edges (\<lambda>_. True) (\<lambda>_. 0) insertion_qsort (\<lambda>_. True)
        (Some [''s'' \<mapsto> I64 [1, 0, 1], ''d'' \<mapsto> I64 [1, 1, 0]]) ''s'' ''d'' 2 2 True = Some r \<and>
     index_row (fwd_index r) 1 = [(0, 2), (1, 0)] \<and> index_row (rev_index r) 1 = [(0, 1), (1, 0)]"
proof -
  obtain r where r: "ray_rel_from_edges (\<lambda>_. True) (\<lambda>_. 0) insertion_qsort (\<lambda>_. True)
        (Some [''s'' \<mapsto> I64 [1, 0, 1], ''d'' \<mapsto> I64 [1, 1, 0]]) ''s'' ''d'' 2 2 True = Some r"
      "\<forall>u < nat 2. index_row (fwd_index r) u = table_row [1, 0, 1] [1, 1, 0] (int u)"
      "\<forall>v < nat 2. index_row (rev_index r) v = table_row [1, 1, 0] [1, 0, 1] (int v)"
    using rel_from_edges_rows [OF ins.libc_qsort_axioms, of "\<lambda>_. True" "\<lambda>_. True" "''s''" "''d''"
        "[''s'' \<mapsto> I64 [1, 0, 1], ''d'' \<mapsto> I64 [1, 1, 0]]" "[1, 0, 1]" "[1, 1, 0]" 2 2 "\<lambda>_. 0" True] by auto
  have "table_row [1, 0, 1] [1, 1, 0] 1 = [(0, 2), (1, 0)]" "table_row [1, 1, 0] [1, 0, 1] 1 = [(0, 1), (1, 0)]"
    by (simp_all add: table_row_def upt_rec)
  then show ?thesis using r by auto
qed

text \<open>A foreign-key column: the row of a table row that is a node is its key.\<close>

lemma rel_build_rows:
  assumes "libc_qsort qs" "\<forall>s. mem s" "col fk_col = Some (I64 fk)" "0 \<le> n_target"
  shows "\<exists>r. ray_rel_build mem junk qs (Some col) fk_col (int (length fk)) n_target srt = Some r \<and>
    (\<forall>u < length fk. index_row (fwd_index r) u = [(fk ! u, int u)]) \<and>
    (\<forall>v < nat n_target. index_row (rev_index r) v = map (\<lambda>i. (int i, int i)) (filter (\<lambda>i. fk ! i = int v) [0..<length fk]))"
proof -
  obtain M where n: "n_target = int M" using assms(4) by (metis zero_le_imp_eq_int)
  let ?ps = "map (\<lambda>i. \<lparr>esrc = int i, edst = fk ! i, erow = int i\<rparr>) [0..<length fk]"
  have asc: "sorted_wrt (<) (map erow ?ps)" by (simp add: sorted_wrt_map sorted_wrt_upt)
  obtain r where r: "build_relation mem junk qs ?ps (int (length fk)) (int M) srt = Some r"
      "holds_rows (fwd_index r) (map (sort_key fst) (key_rows False ?ps (length fk)))"
      "holds_rows (rev_index r) (map (sort_key fst) (key_rows True ?ps M))"
    using build_relation_rows [OF assms(1,2) asc] by blast
  have one: "filter (\<lambda>i. i = u) [0..<m] = (if u < m then [u] else [])" for u m :: nat by (induction m) auto
  have "index_row (fwd_index r) u = [(fk ! u, int u)]" if "u < length fk" for u
    using holds_table_rows [OF r(2) that] that
    by (simp add: key_row_def filter_map comp_def edge_key_def edge_val_def one)
  moreover have "index_row (rev_index r) v = map (\<lambda>i. (int i, int i)) (filter (\<lambda>i. fk ! i = int v) [0..<length fk])" if "v < M" for v
  proof -
    have "sorted (map fst (map (\<lambda>i. (int i, int i)) (filter (\<lambda>i. fk ! i = int v) [0..<length fk])))"
      by (simp add: comp_def sorted_map sorted_wrt_filter)
    then show ?thesis using holds_table_rows [OF r(3) that]
      by (simp add: key_row_def filter_map comp_def edge_key_def edge_val_def sort_key_id_if_sorted)
  qed
  ultimately show ?thesis using assms(2,3) r(1) n by (auto simp: ray_rel_build_def)
qed

text \<open>Files whose columns are vectors of 64-bit integers.\<close>

definition wide :: "(string \<Rightarrow> col_vec option) \<Rightarrow> bool" where
  "wide load \<longleftrightarrow> (\<forall>p c. load p = Some c \<longrightarrow> length (cells c) = col_len c)"

lemma wideD: "wide load \<Longrightarrow> load p = Some c \<Longrightarrow> length (cells c) = col_len c"
  by (simp add: wide_def)

text \<open>Loading such files reads no cell that is not there.\<close>

lemma csr_load_defined:
  assumes "wide load"
  shows "csr_load_impl load d p \<noteq> None"
  using wideD [OF assms]
  by (auto simp: csr_load_impl_def read_cell_def Let_def split: option.splits)

lemma rel_load_meta_defined:
  assumes "wide load"
  shows "rel_load_meta load p rel \<noteq> None"
  using wideD [OF assms, of p]
  by (auto simp: rel_load_meta_def read_cell_def split: option.splits)

lemma rel_load_defined:
  assumes "wide load"
  shows "rel_load_impl mem load dir \<noteq> None"
proof (cases "dir = None \<or> \<not> mem Relation")
  case False
  then obtain d where d: "dir = Some d" "mem Relation" by auto
  obtain f b where "csr_load_impl load d ''fwd'' = Some f" "csr_load_impl load d ''rev'' = Some b"
    using csr_load_defined [OF assms] by blast
  then show ?thesis
    using rel_load_meta_defined [OF assms] by (auto simp: rel_load_impl_def d Let_def split: sum.splits)
qed (auto simp: rel_load_impl_def split: option.splits)

text \<open>What the checks of the loader establish.\<close>

lemma csr_load_offsets:
  assumes "csr_load_impl load d p = Some (Inr g)"
  obtains os ts where "offsets g = Some os" "targets g = Some ts" "n_nodes g = int (length os - 1)" "os \<noteq> []"
    "\<forall>k < length os - 1. os ! k \<le> os ! (k + 1) \<and> int (os ! (k + 1)) \<le> n_edges g" "wide load \<Longrightarrow> n_edges g = int (length ts)"
proof -
  obtain c :: col_vec and ts where c: "0 < col_len c" "col_len c - 1 < length (cells c)" "cells c ! (col_len c - 1) = n_edges g"
      "offsets_ok (cells c) (col_len c - 1)" "offsets g = Some (map nat (take (col_len c) (cells c)))" "targets g = Some ts"
      "n_nodes g = int (col_len c - 1)" "wide load \<Longrightarrow> n_edges g = int (length ts)"
  proof -
    obtain c where c: "load (d @ ''/'' @ p @ ''_offsets'') = Some c"
      using assms by (cases "load (d @ ''/'' @ p @ ''_offsets'')") (auto simp: csr_load_impl_def Let_def split: if_splits)
    obtain u where u: "load (d @ ''/'' @ p @ ''_targets'') = Some u"
      using assms c by (cases "load (d @ ''/'' @ p @ ''_targets'')") (auto simp: csr_load_impl_def Let_def split: if_splits)
    have "0 < col_len c" "col_len c - 1 < length (cells c)" "cells c ! (col_len c - 1) = n_edges g"
        "offsets_ok (cells c) (col_len c - 1)" "offsets g = Some (map nat (take (col_len c) (cells c)))" "targets g = Some (cells u)"
        "n_nodes g = int (col_len c - 1)" "n_edges g = int (col_len u)"
      using assms c u by (auto simp: csr_load_impl_def read_cell_def Let_def split: if_splits option.splits)
    then show ?thesis using that [of c "cells u"] wideD [of load] u by simp
  qed
  define m where "m = col_len c - 1"
  define os where "os = take (col_len c) (cells c)"
  have l: "length os = m + 1" using c(1,2) by (simp add: os_def m_def)
  have nth: "os ! i = cells c ! i" if "i \<le> m" for i using that c(1) by (simp add: os_def m_def)
  have step: "0 \<le> os ! i \<and> os ! i \<le> os ! (i + 1)" if "i < m" for i
  proof -
    have "\<not> (cells c ! i < 0 \<or> cells c ! (i + 1) < cells c ! i)"
      using c(4) that unfolding offsets_ok_def list_all_iff m_def [symmetric] set_upt by (blast intro: atLeastLessThan_iff [THEN iffD2])
    then show ?thesis using nth [of i] nth [of "i + 1"] that by simp
  qed
  have top: "os ! i \<le> n_edges g" if "i \<le> m" for i
    using that
  proof (induction i rule: inc_induct)
    case base
    then show ?case using c(3) nth [of m] by (simp add: m_def)
  next
    case (step i)
    then show ?case using \<open>\<And>i. i < m \<Longrightarrow> 0 \<le> os ! i \<and> os ! i \<le> os ! (i + 1)\<close> [of i] by simp
  qed
  have "map nat os ! k \<le> map nat os ! (k + 1) \<and> int (map nat os ! (k + 1)) \<le> n_edges g" if "k < m" for k
    using step [OF that] top [of "k + 1"] that l by (auto simp: nat_mono)
  moreover have "offsets g = Some (map nat os)" "n_nodes g = int (length (map nat os) - 1)" "map nat os \<noteq> []"
    using l c(5,7) by (auto simp: os_def m_def)
  ultimately show ?thesis using that [of "map nat os" ts] c(6,8) l by simp
qed

text \<open>Rows of an index are inside the target column, of the length the column claims.\<close>

definition rows_inside :: "csr_index \<Rightarrow> bool" where
  "rows_inside g \<longleftrightarrow> (\<forall>node. 0 \<le> node \<and> node < n_nodes g \<longrightarrow>
     (\<exists>start count. ray_csr_neighbors (Some g) node = (Some start, count) \<and> 0 \<le> count \<and> int start + count \<le> n_edges g))"

lemma csr_load_inside:
  assumes "csr_load_impl load d p = Some (Inr g)" "offsets h = offsets g" "targets h = targets g" "n_nodes h = n_nodes g" "n_edges h = n_edges g"
  shows "rows_inside h \<and> (wide load \<longrightarrow> (\<exists>ts. targets h = Some ts \<and> n_edges h = int (length ts)))"
proof -
  obtain os ts where g: "offsets g = Some os" "targets g = Some ts" "n_nodes g = int (length os - 1)" "os \<noteq> []"
    "\<forall>k < length os - 1. os ! k \<le> os ! (k + 1) \<and> int (os ! (k + 1)) \<le> n_edges g" "wide load \<Longrightarrow> n_edges g = int (length ts)"
    using csr_load_offsets [OF assms(1)] by blast
  have "ray_csr_neighbors (Some h) node = (Some (os ! nat node), int (os ! (nat node + 1)) - int (os ! nat node)) \<and>
      os ! nat node \<le> os ! (nat node + 1) \<and> int (os ! (nat node + 1)) \<le> n_edges g" if "0 \<le> node" "node < n_nodes h" for node
    using that assms(2-4) g(1-3) g(5) by (simp add: ray_csr_neighbors_def)
  then show ?thesis using g assms(2-5) by (auto simp: rows_inside_def)
qed

lemma rel_load_meta_indexes:
  "rel_load_meta load p rel = Some r \<Longrightarrow> \<exists>a b. fwd_index r = (fwd_index rel)\<lparr>sorted_rows := a\<rparr> \<and> rev_index r = (rev_index rel)\<lparr>sorted_rows := b\<rparr>"
  by (cases "fwd_index rel"; cases "rev_index rel")
    (auto simp: rel_load_meta_def split: option.splits if_splits Option.bind_splits)

lemma rel_load_indexes:
  assumes "rel_load_impl mem load dir = Some (Some r)"
  obtains d f b s t where "csr_load_impl load d ''fwd'' = Some (Inr f)" "csr_load_impl load d ''rev'' = Some (Inr b)"
    "fwd_index r = f\<lparr>sorted_rows := s\<rparr>" "rev_index r = b\<lparr>sorted_rows := t\<rparr>"
proof -
  obtain d f b where l: "dir = Some d" "csr_load_impl load d ''fwd'' = Some (Inr f)" "csr_load_impl load d ''rev'' = Some (Inr b)"
    using assms by (auto simp: rel_load_impl_def split: option.splits if_splits Option.bind_splits sum.splits)
  let ?rel = "\<lparr>from_table = 0, to_table = 0, name_sym = 0, fwd_index = f, rev_index = b\<rparr>"
  have "r = ?rel \<or> rel_load_meta load (d @ ''/meta'') ?rel = Some r"
    using assms l by (auto simp: rel_load_impl_def Let_def split: if_splits)
  moreover have "f = f\<lparr>sorted_rows := sorted_rows f\<rparr>" "b = b\<lparr>sorted_rows := sorted_rows b\<rparr>" by simp_all
  ultimately have "\<exists>s t. fwd_index r = f\<lparr>sorted_rows := s\<rparr> \<and> rev_index r = b\<lparr>sorted_rows := t\<rparr>"
    using rel_load_meta_indexes [of load "d @ ''/meta''" ?rel r] by (metis relation.select_convs(4,5))
  then show ?thesis using that l by blast
qed

text \<open>
  C23.  Loading a relation.  Whatever the column files hold, as long as they are vectors of 64-bit integers,
  loading reads no cell that is not there, and a relation that loads has every neighbour range inside
  its target array: no node's row starts before the array, ends behind it or has a negative length.
\<close>

theorem rel_load_in_bounds:
  assumes "wide load" "0 \<le> node"
  shows "\<exists>res. rel_load_impl mem load dir = Some res \<and>
    (case res of
       None \<Rightarrow> True
     | Some r \<Rightarrow>
         ray_rel_n_nodes res direction \<le> node \<or>
         (\<exists>start count ts. ray_rel_neighbors res node direction = (Some start, count) \<and>
            targets (if direction = 1 then rev_index r else fwd_index r) = Some ts \<and> 0 \<le> count \<and> int start + count \<le> int (length ts)))"
proof -
  obtain res where res: "rel_load_impl mem load dir = Some res" using rel_load_defined [OF assms(1)] by blast
  show ?thesis
  proof (cases res)
    case (Some r)
    obtain d f b s t where l: "csr_load_impl load d ''fwd'' = Some (Inr f)" "csr_load_impl load d ''rev'' = Some (Inr b)"
      "fwd_index r = f\<lparr>sorted_rows := s\<rparr>" "rev_index r = b\<lparr>sorted_rows := t\<rparr>"
      using rel_load_indexes [of mem load dir r] res Some by blast
    let ?g = "if direction = 1 then rev_index r else fwd_index r"
    have "rows_inside ?g \<and> (\<exists>ts. targets ?g = Some ts \<and> n_edges ?g = int (length ts))"
      using csr_load_inside [OF l(1), of "fwd_index r"] csr_load_inside [OF l(2), of "rev_index r"] l(3,4) assms(1) by simp
    then show ?thesis
      using assms(2) by (auto simp: res Some ray_rel_n_nodes_def ray_rel_neighbors_def rows_inside_def not_le)
  qed (simp add: res)
qed

definition demo_files :: "string \<Rightarrow> col_vec option" where
  "demo_files = [''d/fwd_offsets'' \<mapsto> \<lparr>col_len = 2, cells = [0, 2]\<rparr>, ''d/fwd_targets'' \<mapsto> \<lparr>col_len = 2, cells = [4, 9]\<rparr>,
     ''d/rev_offsets'' \<mapsto> \<lparr>col_len = 1, cells = [0]\<rparr>, ''d/rev_targets'' \<mapsto> \<lparr>col_len = 0, cells = []\<rparr>]"

lemma rel_load_in_bounds_witness:
  "\<exists>r start count ts. rel_load_impl (\<lambda>_. True) demo_files (Some ''d'') = Some (Some r) \<and>
     ray_rel_neighbors (Some r) 0 0 = (Some start, count) \<and> targets (fwd_index r) = Some ts \<and> int start + count \<le> int (length ts)"
proof -
  define r where "r = the (the (rel_load_impl (\<lambda>_. True) demo_files (Some ''d'')))"
  have r: "rel_load_impl (\<lambda>_. True) demo_files (Some ''d'') = Some (Some r)" "\<not> ray_rel_n_nodes (Some r) 0 \<le> 0"
    by (simp_all add: r_def rel_load_impl_def csr_load_impl_def demo_files_def path_fits_def offsets_ok_def ray_rel_n_nodes_def
        rel_load_meta_def read_cell_def Let_def)
  have "wide demo_files" by (simp add: wide_def demo_files_def)
  then show ?thesis using rel_load_in_bounds [of demo_files 0 "\<lambda>_. True" "Some ''d''" 0] r by auto
qed

text \<open>
  Without that the checks do not suffice: offsets of a narrower type are read behind their end, and rows
  of a target column of a narrower type lie behind the end of its cells.
\<close>

lemma narrow_offsets_read_past_end:
  assumes "load (d @ ''/'' @ p @ ''_offsets'') = Some os" "load (d @ ''/'' @ p @ ''_targets'') = Some ts"
    and "length (cells os) < col_len os" "length d + length p < 1000"
  shows "csr_load_impl load d p = None"
  using assms by (auto simp: csr_load_impl_def read_cell_def path_fits_def Let_def)

definition narrow_files :: "string \<Rightarrow> col_vec option" where
  "narrow_files = demo_files(''d/fwd_targets'' \<mapsto> \<lparr>col_len = 2, cells = [0x0000000900000004]\<rparr>)"

lemma narrow_targets_past_end:
  "\<exists>r. rel_load_impl (\<lambda>_. True) narrow_files (Some ''d'') = Some (Some r) \<and>
     ray_rel_neighbors (Some r) 0 0 = (Some 0, 2) \<and> targets (fwd_index r) = Some [0x0000000900000004]"
  by (simp add: rel_load_impl_def csr_load_impl_def narrow_files_def demo_files_def path_fits_def offsets_ok_def
      ray_rel_neighbors_def ray_csr_neighbors_def rel_load_meta_def read_cell_def Let_def)

section \<open>Relations as the join reads them\<close>

definition as_csr :: "csr_index \<Rightarrow> csr" where
  "as_csr g = \<lparr>offsets = offsets g, targets = targets g, n_nodes = n_nodes g\<rparr>"

definition as_rel :: "relation \<Rightarrow> rel" where
  "as_rel r = \<lparr>fwd = as_csr (fwd_index r), rev_csr = as_csr (rev_index r)\<rparr>"

lemma adj_rows:
  assumes "holds_rows g rows"
  shows "adj (as_csr g) u = (if 0 \<le> u \<and> u < int (length rows) then map fst (rows ! nat u) else [])"
proof -
  have "adj (as_csr g) u = map fst (slice (row_start rows (nat u)) (row_start rows (Suc (nat u))) (concat rows))"
    if "0 \<le> u" "nat u < length rows"
    using assms that by (simp add: adj_def as_csr_def holds_rows_def slice_def drop_map take_map del: upt_Suc)
  moreover have "adj (as_csr g) u = []" if "\<not> (0 \<le> u \<and> u < int (length rows))"
    using assms that by (auto simp: adj_def as_csr_def holds_rows_def)
  ultimately show ?thesis by (auto simp: slice_concat)
qed

lemma csr_ok_rows:
  assumes "holds_rows g rows" "\<forall>row \<in> set rows. sorted_wrt (<) (map fst row)"
  shows "csr_ok (as_csr g)"
proof -
  have "row_start rows (nat a + 1) \<le> length (concat rows)" if "a \<in> {0..<int (length rows)}" for a
  proof -
    have "nat a + 1 \<le> length rows" using that by auto
    then show ?thesis using row_start_mono [of "nat a + 1" "length rows" rows] by (simp add: row_start_all)
  qed
  moreover have "sorted_wrt (<) (adj (as_csr g) a)" for a using assms by (auto simp: adj_rows)
  ultimately show ?thesis
    using assms(1) by (auto simp: csr_ok_def as_csr_def holds_rows_def simp del: upt_Suc)
qed

text \<open>The rows of a table without parallel edges ascend strictly.\<close>

lemma set_table_row: "length ss = length ds \<Longrightarrow> v \<in> fst ` set (table_row ss ds u) \<longleftrightarrow> (u, v) \<in> set (zip ss ds)"
  by (force simp: table_row_def set_zip)

lemma table_row_strict:
  assumes "distinct (zip ss ds)" "length ss = length ds"
  shows "sorted_wrt (<) (map fst (table_row ss ds u))"
proof -
  have inj: "i = j" if "i < length ss" "j < length ss" "ss ! i = ss ! j" "ds ! i = ds ! j" for i j
    using assms that nth_eq_iff_index_eq [OF assms(1), of i j] by simp
  have "distinct (map fst (map (\<lambda>i. (ds ! i, int i)) (filter (\<lambda>i. ss ! i = u) [0..<length ss])))"
    using inj by (auto simp: distinct_map comp_def inj_on_def)
  moreover have "mset (map fst (table_row ss ds u)) = mset (map fst (map (\<lambda>i. (ds ! i, int i)) (filter (\<lambda>i. ss ! i = u) [0..<length ss])))"
    by (simp only: table_row_def mset_map mset_sort)
  ultimately have "distinct (map fst (table_row ss ds u))" by (metis mset_eq_imp_distinct_iff)
  then show ?thesis by (simp add: strict_sorted_iff table_row_def)
qed

lemma adj_table:
  assumes "holds_rows g (map (\<lambda>u. table_row ss ds (int u)) [0..<nat n])" "length ss = length ds" "\<forall>(u, v) \<in> set (zip ss ds). 0 \<le> u \<and> u < n"
  shows "v \<in> set (adj (as_csr g) u) \<longleftrightarrow> (u, v) \<in> set (zip ss ds)"
proof (cases "0 \<le> u \<and> u < n")
  case True
  then have "adj (as_csr g) u = map fst (table_row ss ds u)" using adj_rows [OF assms(1), of u] by simp
  then show ?thesis using set_table_row [OF assms(2), of v u] by simp
next
  case False
  then have "(u, v) \<notin> set (zip ss ds)" using assms(3) by blast
  moreover have "adj (as_csr g) u = []" using adj_rows [OF assms(1), of u] False by auto
  ultimately show ?thesis by simp
qed

lemma rel_from_edges_ok:
  assumes "libc_qsort qs" "\<forall>s. mem s" "interned a" "interned b" "col a = Some (I64 ss)" "col b = Some (I64 ds)"
    and "length ss = length ds" "0 \<le> n_src" "0 \<le> n_dst"
    and "distinct (zip ss ds)" "\<forall>(u, v) \<in> set (zip ss ds). 0 \<le> u \<and> u < n_src \<and> 0 \<le> v \<and> v < n_dst"
    and "ray_rel_from_edges mem junk qs interned (Some col) a b n_src n_dst srt = Some r"
  shows "rel_ok (as_rel r)" "v \<in> set (adj (fwd (as_rel r)) u) \<longleftrightarrow> (u, v) \<in> set (zip ss ds)"
proof -
  have h: "holds_rows (fwd_index r) (map (\<lambda>u. table_row ss ds (int u)) [0..<nat n_src])"
      "holds_rows (rev_index r) (map (\<lambda>v. table_row ds ss (int v)) [0..<nat n_dst])"
    using rel_from_edges_holds [OF assms(1-9), of junk srt] assms(12) by auto
  have sw: "(u, v) \<in> set (zip ss ds) \<longleftrightarrow> (v, u) \<in> set (zip ds ss)" for u v by (auto simp: set_zip)
  have dis: "distinct (zip ds ss)" using assms(10) by (simp add: zip_commute [of ds ss] distinct_map inj_on_def split: prod.splits)
  have rng: "\<forall>(u, v) \<in> set (zip ss ds). 0 \<le> u \<and> u < n_src" "\<forall>(v, u) \<in> set (zip ds ss). 0 \<le> v \<and> v < n_dst"
    using assms(11) sw by blast+
  have f: "v \<in> set (adj (fwd (as_rel r)) u) \<longleftrightarrow> (u, v) \<in> set (zip ss ds)" for u v
    using adj_table [OF h(1) assms(7) rng(1)] by (simp add: as_rel_def)
  have b: "u \<in> set (adj (rev_csr (as_rel r)) v) \<longleftrightarrow> (u, v) \<in> set (zip ss ds)" for u v
    using adj_table [OF h(2) assms(7) [symmetric] rng(2)] sw by (simp add: as_rel_def)
  show "v \<in> set (adj (fwd (as_rel r)) u) \<longleftrightarrow> (u, v) \<in> set (zip ss ds)" by (rule f)
  have "csr_ok (fwd (as_rel r))" unfolding as_rel_def rel.simps
    by (rule csr_ok_rows [OF h(1)]) (auto intro: table_row_strict [OF assms(10,7)])
  moreover have "csr_ok (rev_csr (as_rel r))" unfolding as_rel_def rel.simps
    by (rule csr_ok_rows [OF h(2)]) (auto intro: table_row_strict [OF dis assms(7) [symmetric]])
  ultimately show "rel_ok (as_rel r)" by (simp add: rel_ok_def f b)
qed

text \<open>
  Only the key of an edge is checked: an edge whose other end is no node stays in the forward rows,
  and a negative (or null) end is then a target that indexes nothing.
\<close>

lemma forward_row_keeps_missing_target:
  assumes "libc_qsort qs" "\<forall>s. mem s"
  shows "\<exists>r. ray_rel_from_edges mem junk qs (\<lambda>_. True) (Some [''src'' \<mapsto> I64 [0], ''dst'' \<mapsto> I64 [-1]]) ''src'' ''dst'' 1 1 srt = Some r \<and>
    adj (as_csr (fwd_index r)) 0 = [-1]"
proof -
  obtain r where r: "ray_rel_from_edges mem junk qs (\<lambda>_. True) (Some [''src'' \<mapsto> I64 [0], ''dst'' \<mapsto> I64 [-1]]) ''src'' ''dst'' 1 1 srt = Some r"
      "holds_rows (fwd_index r) (map (\<lambda>u. table_row [0] [-1] (int u)) [0..<nat 1])"
    using rel_from_edges_holds [OF assms, of "\<lambda>_. True" "''src''" "''dst''" "[''src'' \<mapsto> I64 [0], ''dst'' \<mapsto> I64 [-1]]" "[0]" "[-1]" 1 1 junk srt] by auto
  then show ?thesis using adj_rows [OF r(2), of 0] by (simp add: table_row_def)
qed

end
