(* ===== verification/Traverse.thy ===== *)
theory Traverse
  imports Csr
begin

text \<open>
  The graph operators of \<^verbatim>\<open>ops/traverse.c\<close> that visit nodes: degrees, connected components by label
  propagation, topological order by Kahn's algorithm, depth-first search, and the shortest path by
  breadth-first search.  They read the sparse rows of \<open>Csr\<close>.

  An operator takes its extension record and returns a table of columns (\<open>Inr\<close>) or the code of an error
  (\<open>Inl\<close>); \<^term>\<open>None\<close> means that it reads or writes outside an array, or does not end.  Whether scratch
  memory, the growth of a buffer and the result can be allocated, and at which poll the query is
  interrupted, is decided by the environment.
\<close>

section \<open>Environment and rows\<close>

record trav_env =
  scratch_ok :: bool
  room_ok :: "nat \<Rightarrow> bool"
  out_ok :: bool
  stop :: "nat \<Rightarrow> bool"

record graph_ext =
  g_rel :: "relation option"
  direction :: nat
  min_depth :: nat
  max_depth :: nat
  path_tracking :: bool

type_synonym gtable = "(string \<times> int list) list"
type_synonym gresult = "(string + gtable) option"

text \<open>A node given as an atom or as the first element of a vector.\<close>

datatype node_arg = Node_atom int | Node_vec "int list"

definition on_graph :: "graph_ext option \<Rightarrow> (graph_ext \<Rightarrow> relation \<Rightarrow> gresult) \<Rightarrow> gresult" where
  "on_graph x f =
     (case x of
        None \<Rightarrow> Some (Inl ''nyi'')
      | Some x \<Rightarrow> (case g_rel x of None \<Rightarrow> Some (Inl ''schema'') | Some r \<Rightarrow> f x r))"

definition graph_require_square :: "relation \<Rightarrow> string option" where
  "graph_require_square r = (if n_nodes (fwd_index r) \<noteq> n_nodes (rev_index r) then Some ''domain'' else None)"

text \<open>Reading an array at an index.\<close>

definition arr_at :: "'a list \<Rightarrow> int \<Rightarrow> 'a option" where
  "arr_at xs i = (if 0 \<le> i \<and> nat i < length xs then Some (xs ! nat i) else None)"

text \<open>The targets between two offsets, as the loops over \<^verbatim>\<open>off[v]\<close> to \<^verbatim>\<open>off[v + 1]\<close> read them, and their number.\<close>

definition csr_row :: "csr_index \<Rightarrow> int \<Rightarrow> int list option" where
  "csr_row g v =
     (case (offsets g, targets g) of
        (Some os, Some ts) \<Rightarrow>
          if 0 \<le> v \<and> nat v + 1 < length os \<and> os ! (nat v + 1) \<le> length ts
          then Some (drop (os ! nat v) (take (os ! (nat v + 1)) ts)) else None
      | _ \<Rightarrow> None)"

definition csr_span :: "csr_index \<Rightarrow> int \<Rightarrow> int option" where
  "csr_span g v =
     (case offsets g of
        None \<Rightarrow> None
      | Some os \<Rightarrow> if 0 \<le> v \<and> nat v + 1 < length os then Some (int (os ! (nat v + 1)) - int (os ! nat v)) else None)"

definition nodes :: "int \<Rightarrow> int list" where
  "nodes n = map int [0..<nat n]"

section \<open>Degrees\<close>

definition exec_degree_cent :: "trav_env \<Rightarrow> graph_ext option \<Rightarrow> gresult" where
  "exec_degree_cent E x = on_graph x (\<lambda>x r.
     let n = n_nodes (fwd_index r)
     in if n \<le> 0 then Some (Inl ''length'')
        else case graph_require_square r of
               Some e \<Rightarrow> Some (Inl e)
             | None \<Rightarrow>
                 if \<not> out_ok E then Some (Inl ''oom'')
                 else do {
                   outs \<leftarrow> those (map (csr_span (fwd_index r)) (nodes n));
                   ins \<leftarrow> those (map (csr_span (rev_index r)) (nodes n));
                   Some (Inr [(''_node'', nodes n), (''_in_degree'', ins), (''_out_degree'', outs),
                              (''_degree'', map2 (+) outs ins)]) })"

section \<open>Connected components\<close>

fun min_label :: "int list \<Rightarrow> int \<Rightarrow> int list \<Rightarrow> int option" where
  "min_label label m [] = Some m"
| "min_label label m (u # us) = do { l \<leftarrow> arr_at label u; min_label label (if l < m then l else m) us }"

definition comp_step :: "relation \<Rightarrow> int \<Rightarrow> int list \<times> bool \<Rightarrow> (int list \<times> bool) option" where
  "comp_step r v = (\<lambda>(label, changed). do {
     l \<leftarrow> arr_at label v;
     fw \<leftarrow> csr_row (fwd_index r) v;
     m \<leftarrow> min_label label l fw;
     bw \<leftarrow> csr_row (rev_index r) v;
     m \<leftarrow> min_label label m bw;
     Some (if m < l then (label[nat v := m], True) else (label, changed)) })"

fun comp_pass :: "relation \<Rightarrow> int list \<Rightarrow> int list \<times> bool \<Rightarrow> (int list \<times> bool) option" where
  "comp_pass r [] s = Some s"
| "comp_pass r (v # vs) s = do { s \<leftarrow> comp_step r v s; comp_pass r vs s }"

partial_function (option) comp_loop :: "trav_env \<Rightarrow> relation \<Rightarrow> int \<Rightarrow> nat \<Rightarrow> int list \<Rightarrow> (string + int list) option" where
  "comp_loop E r n k label =
     (if stop E k then Some (Inl ''cancel'')
      else do {
        s \<leftarrow> comp_pass r (nodes n) (label, False);
        if snd s then comp_loop E r n (k + 1) (fst s) else Some (Inr (fst s)) })"

definition exec_connected_comp :: "trav_env \<Rightarrow> graph_ext option \<Rightarrow> gresult" where
  "exec_connected_comp E x = on_graph x (\<lambda>x r.
     let n = n_nodes (fwd_index r)
     in if n \<le> 0 then Some (Inl ''length'')
        else case graph_require_square r of
               Some e \<Rightarrow> Some (Inl e)
             | None \<Rightarrow>
                 if \<not> scratch_ok E then Some (Inl ''oom'')
                 else do {
                   res \<leftarrow> comp_loop E r n 0 (nodes n);
                   Some (case res of
                           Inl e \<Rightarrow> Inl e
                         | Inr label \<Rightarrow>
                             if \<not> out_ok E then Inl ''oom''
                             else Inr [(''_node'', nodes n), (''_component'', label)]) })"

section \<open>Topological order\<close>

text \<open>One row: the in-degrees go down, and a node whose in-degree reaches zero is enqueued.\<close>

fun top_row :: "int list \<Rightarrow> int list \<times> int list \<Rightarrow> (int list \<times> int list) option" where
  "top_row [] s = Some s"
| "top_row (u # us) (in_deg, queue) = do {
     d \<leftarrow> arr_at in_deg u;
     let in_deg = in_deg[nat u := d - 1];
     if d - 1 = 0
     then if length in_deg \<le> length queue then None else top_row us (in_deg, queue @ [u])
     else top_row us (in_deg, queue) }"

text \<open>The queue with its head, which is also the number of nodes ordered so far.\<close>

partial_function (option) top_loop :: "trav_env \<Rightarrow> relation \<Rightarrow> nat \<Rightarrow> int list \<Rightarrow> int list \<Rightarrow> int list \<Rightarrow> (string + nat \<times> int list) option" where
  "top_loop E r head in_deg queue order =
     (if head < length queue
      then if stop E head then Some (Inl ''cancel'')
           else do {
             let v = queue ! head;
             o0 \<leftarrow> arr_at order v;
             row \<leftarrow> csr_row (fwd_index r) v;
             s \<leftarrow> top_row row (in_deg, queue);
             top_loop E r (head + 1) (fst s) (snd s) (order[nat v := int head]) }
      else Some (Inr (head, order)))"

text \<open>The contents of the fresh array of orders is a parameter.\<close>

definition exec_topsort :: "trav_env \<Rightarrow> (nat \<Rightarrow> int) \<Rightarrow> graph_ext option \<Rightarrow> gresult" where
  "exec_topsort E junk x = on_graph x (\<lambda>x r.
     let n = n_nodes (fwd_index r)
     in if n \<le> 0 then Some (Inl ''length'')
        else case graph_require_square r of
               Some e \<Rightarrow> Some (Inl e)
             | None \<Rightarrow>
                 if \<not> scratch_ok E then Some (Inl ''oom'')
                 else do {
                   in_deg \<leftarrow> those (map (csr_span (rev_index r)) (nodes n));
                   let queue = filter (\<lambda>i. in_deg ! nat i = 0) (nodes n);
                   res \<leftarrow> top_loop E r 0 in_deg queue (map junk [0..<nat n]);
                   Some (case res of
                           Inl e \<Rightarrow> Inl e
                         | Inr (cnt, ord) \<Rightarrow>
                             if int cnt < n then Inl ''domain''
                             else if \<not> out_ok E then Inl ''oom''
                             else Inr [(''_node'', nodes n), (''_order'', ord)]) })"

section \<open>Depth-first search\<close>

type_synonym dfs_entry = "int \<times> int \<times> int"

text \<open>Pushing the neighbours that are not visited; the top of the stack is the head of the list.\<close>

fun dfs_push :: "nat \<Rightarrow> bool list \<Rightarrow> int \<Rightarrow> int \<Rightarrow> int list \<Rightarrow> dfs_entry list \<Rightarrow> dfs_entry list option" where
  "dfs_push cap vis v d [] st = Some st"
| "dfs_push cap vis v d (u # us) st = do {
     seen \<leftarrow> arr_at vis u;
     if seen then dfs_push cap vis v d us st
     else if cap \<le> length st then None
     else dfs_push cap vis v d us ((u, d + 1, v) # st) }"

partial_function (option) dfs_loop ::
  "trav_env \<Rightarrow> relation \<Rightarrow> nat \<Rightarrow> int \<Rightarrow> nat \<Rightarrow> dfs_entry list \<Rightarrow> bool list \<Rightarrow> dfs_entry list \<Rightarrow> (string + dfs_entry list) option" where
  "dfs_loop E r cap md k st vis res =
     (case st of
        [] \<Rightarrow> Some (Inr res)
      | (v, d, p) # st \<Rightarrow>
          if stop E k then Some (Inl ''cancel'')
          else do {
            seen \<leftarrow> arr_at vis v;
            if seen then dfs_loop E r cap md (k + 1) st vis res
            else if length vis \<le> length res then None
            else do {
              let vis = vis[nat v := True];
              st \<leftarrow> (if d < md then do { row \<leftarrow> csr_row (fwd_index r) v; dfs_push cap vis v d (rev row) st } else Some st);
              dfs_loop E r cap md (k + 1) st vis (res @ [(v, d, p)]) } })"

definition exec_dfs :: "trav_env \<Rightarrow> graph_ext option \<Rightarrow> node_arg \<Rightarrow> gresult" where
  "exec_dfs E x src = on_graph x (\<lambda>x r.
     let n = n_nodes (fwd_index r)
     in if n \<le> 0 then Some (Inl ''length'')
        else do {
          start \<leftarrow> (case src of Node_atom i \<Rightarrow> Some i | Node_vec is \<Rightarrow> arr_at is 0);
          if start < 0 \<or> n \<le> start then Some (Inl ''range'')
          else let m = n_edges (fwd_index r);
                   stack_cap = (if n < m then m + 1 else n + 1)
               in if \<not> scratch_ok E then Some (Inl ''oom'')
                  else do {
                    res \<leftarrow> dfs_loop E r (nat stack_cap) (int (max_depth x)) 0 [(start, 0, - 1)] (replicate (nat n) False) [];
                    Some (case res of
                            Inl e \<Rightarrow> Inl e
                          | Inr es \<Rightarrow>
                              if \<not> out_ok E then Inl ''oom''
                              else Inr [(''_node'', map fst es), (''_depth'', map (fst \<circ> snd) es), (''_parent'', map (snd \<circ> snd) es)]) } })"

section \<open>Shortest path\<close>

text \<open>The rows that are expanded for a direction, and the bound of the node ids.\<close>

definition dir_csrs :: "relation \<Rightarrow> nat \<Rightarrow> csr_index list" where
  "dir_csrs r dir =
     (if dir = 2 then [fwd_index r, rev_index r] else if dir = 1 then [rev_index r] else [fwd_index r])"

definition bfs_n_nodes :: "relation \<Rightarrow> nat \<Rightarrow> int" where
  "bfs_n_nodes r dir =
     (let n = n_nodes (if dir = 1 then rev_index r else fwd_index r)
      in if dir = 2 \<and> n < n_nodes (rev_index r) then n_nodes (rev_index r) else n)"

definition csr_nbrs :: "csr_index \<Rightarrow> int \<Rightarrow> int list option" where
  "csr_nbrs g node =
     (if node < 0 \<or> n_nodes g \<le> node then Some []
      else case (ray_csr_neighbors (Some g) node, targets g) of
             ((Some p, cnt), Some ts) \<Rightarrow> if p + nat cnt \<le> length ts then Some (take (nat cnt) (drop p ts)) else None
           | _ \<Rightarrow> Some [])"

datatype sp_status = Going | Found | Stuck

type_synonym sp_state = "int list \<times> int list \<times> nat"

text \<open>One row: the parents, the queue and its capacity.\<close>

fun sp_row :: "trav_env \<Rightarrow> int \<Rightarrow> int \<Rightarrow> int \<Rightarrow> int list \<Rightarrow> sp_state \<Rightarrow> sp_status \<times> sp_state" where
  "sp_row E n dst node [] s = (Going, s)"
| "sp_row E n dst node (nbr # nbrs) (parent, queue, q_cap) =
     (if nbr < 0 \<or> n \<le> nbr then sp_row E n dst node nbrs (parent, queue, q_cap)
      else if parent ! nat nbr \<noteq> - 1 then sp_row E n dst node nbrs (parent, queue, q_cap)
      else let parent = parent[nat nbr := node]
           in if nbr = dst then (Found, parent, queue, q_cap)
              else if q_cap \<le> length queue
              then if INT64_MAX div 2 < int q_cap \<or> \<not> room_ok E (q_cap * 2) then (Stuck, parent, queue, q_cap)
                   else sp_row E n dst node nbrs (parent, queue @ [nbr], q_cap * 2)
              else sp_row E n dst node nbrs (parent, queue @ [nbr], q_cap))"

fun sp_level :: "trav_env \<Rightarrow> int \<Rightarrow> int \<Rightarrow> (int \<times> csr_index) list \<Rightarrow> sp_state \<Rightarrow> (sp_status \<times> sp_state) option" where
  "sp_level E n dst [] s = Some (Going, s)"
| "sp_level E n dst ((node, g) # ps) s = do {
     nbrs \<leftarrow> csr_nbrs g node;
     case sp_row E n dst node nbrs s of
       (Going, s) \<Rightarrow> sp_level E n dst ps s
     | res \<Rightarrow> Some res }"

text \<open>The levels that are left; the queue from \<open>q_start\<close> on is the level.\<close>

fun sp_loop :: "trav_env \<Rightarrow> int \<Rightarrow> int \<Rightarrow> csr_index list \<Rightarrow> nat \<Rightarrow> nat \<Rightarrow> nat \<Rightarrow> sp_state \<Rightarrow> (string + bool \<times> int list) option" where
  "sp_loop E n dst gs 0 depth q_start (parent, queue, q_cap) = Some (Inr (False, parent))"
| "sp_loop E n dst gs (Suc k) depth q_start (parent, queue, q_cap) =
     (if stop E depth then Some (Inl ''cancel'')
      else do {
        res \<leftarrow> sp_level E n dst (List.product (drop q_start queue) gs) (parent, queue, q_cap);
        case res of
          (Going, s) \<Rightarrow> sp_loop E n dst gs k (depth + 1) (length queue) s
        | (Found, parent, _) \<Rightarrow> Some (Inr (True, parent))
        | (Stuck, parent, _) \<Rightarrow> Some (Inr (False, parent)) })"

text \<open>Following the parents back, at most as many steps as are left; the path so far and the node reached.\<close>

fun sp_path :: "int list \<Rightarrow> int \<Rightarrow> nat \<Rightarrow> int \<Rightarrow> (int list \<times> int) option" where
  "sp_path parent src 0 cur = Some ([], cur)"
| "sp_path parent src (Suc k) cur =
     (if cur = src then Some ([], cur)
      else do { p \<leftarrow> arr_at parent cur; res \<leftarrow> sp_path parent src k p; Some (cur # fst res, snd res) })"

definition node_value :: "node_arg \<Rightarrow> string + int" where
  "node_value a = (case a of Node_atom i \<Rightarrow> Inr i | Node_vec [] \<Rightarrow> Inl ''length'' | Node_vec (i # _) \<Rightarrow> Inr i)"

definition exec_shortest_path :: "trav_env \<Rightarrow> graph_ext option \<Rightarrow> node_arg \<Rightarrow> node_arg \<Rightarrow> gresult" where
  "exec_shortest_path E x src dst = on_graph x (\<lambda>x r.
     let gs = dir_csrs r (direction x); n = bfs_n_nodes r (direction x)
     in case (node_value src, node_value dst) of
          (Inl e, _) \<Rightarrow> Some (Inl e)
        | (_, Inl e) \<Rightarrow> Some (Inl e)
        | (Inr s, Inr d) \<Rightarrow>
            if s < 0 \<or> n \<le> s \<or> d < 0 \<or> n \<le> d then Some (Inl ''range'')
            else if s = d
            then Some (if \<not> out_ok E then Inl ''oom'' else Inr [(''_node'', [s]), (''_depth'', [0])])
            else if \<not> scratch_ok E then Some (Inl ''oom'')
            else do {
              res \<leftarrow> sp_loop E n d gs (max_depth x) 1 0 ((replicate (nat n) (- 1))[nat s := s], [s], 1024);
              case res of
                Inl e \<Rightarrow> Some (Inl e)
              | Inr (False, parent) \<Rightarrow> Some (Inl ''range'')
              | Inr (True, parent) \<Rightarrow> do {
                  p \<leftarrow> sp_path parent s 255 d;
                  Some (if snd p \<noteq> s then Inl ''range''
                        else if \<not> out_ok E then Inl ''oom''
                        else let path = rev (fst p @ [s])
                             in Inr [(''_node'', path), (''_depth'', nodes (int (length path)))]) } })"

section \<open>Graphs\<close>

text \<open>The rows of a node, and relations whose rows are there and hold nodes.\<close>

definition succs :: "relation \<Rightarrow> int \<Rightarrow> int list" where
  "succs r v = (case csr_row (fwd_index r) v of Some f \<Rightarrow> f | None \<Rightarrow> [])"

definition preds :: "relation \<Rightarrow> int \<Rightarrow> int list" where
  "preds r v = (case csr_row (rev_index r) v of Some b \<Rightarrow> b | None \<Rightarrow> [])"

definition index_ok :: "csr_index \<Rightarrow> int \<Rightarrow> bool" where
  "index_ok g n \<longleftrightarrow> n_nodes g = n \<and>
     (\<forall>v \<in> {0..<n}. \<exists>row. csr_row g v = Some row \<and> csr_span g v = Some (int (length row)) \<and> set row \<subseteq> {0..<n})"

definition graph_ok :: "relation \<Rightarrow> int \<Rightarrow> bool" where
  "graph_ok r n \<longleftrightarrow> 0 < n \<and> index_ok (fwd_index r) n \<and> index_ok (rev_index r) n"

lemma graph_rows:
  assumes "graph_ok r n" "0 \<le> v" "v < n"
  shows "csr_row (fwd_index r) v = Some (succs r v)" "csr_row (rev_index r) v = Some (preds r v)"
    "csr_span (fwd_index r) v = Some (int (length (succs r v)))" "csr_span (rev_index r) v = Some (int (length (preds r v)))"
    "set (succs r v) \<subseteq> {0..<n}" "set (preds r v) \<subseteq> {0..<n}"
proof -
  have "\<exists>row. csr_row (fwd_index r) v = Some row \<and> csr_span (fwd_index r) v = Some (int (length row)) \<and> set row \<subseteq> {0..<n}"
    "\<exists>row. csr_row (rev_index r) v = Some row \<and> csr_span (rev_index r) v = Some (int (length row)) \<and> set row \<subseteq> {0..<n}"
    using assms unfolding graph_ok_def index_ok_def by auto
  then show "csr_row (fwd_index r) v = Some (succs r v)" "csr_row (rev_index r) v = Some (preds r v)"
    "csr_span (fwd_index r) v = Some (int (length (succs r v)))" "csr_span (rev_index r) v = Some (int (length (preds r v)))"
    "set (succs r v) \<subseteq> {0..<n}" "set (preds r v) \<subseteq> {0..<n}"
    by (auto simp: succs_def preds_def)
qed

lemma graph_nodes: "graph_ok r n \<Longrightarrow> n_nodes (fwd_index r) = n \<and> n_nodes (rev_index r) = n \<and> 0 < n \<and> graph_require_square r = None"
  by (simp add: graph_ok_def index_ok_def graph_require_square_def)

lemma set_nodes [simp]: "set (nodes n) = {0..<n}"
  by (force simp: nodes_def image_iff Bex_def intro: exI [of _ "nat _"])

lemma length_nodes [simp]: "length (nodes n) = nat n"
  by (simp add: nodes_def)

lemma nth_nodes [simp]: "i < nat n \<Longrightarrow> nodes n ! i = int i"
  by (simp add: nodes_def)

lemma distinct_nodes [simp]: "distinct (nodes n)"
  by (simp add: nodes_def distinct_map)

lemma arr_at_in [simp]: "0 \<le> i \<Longrightarrow> i < int (length xs) \<Longrightarrow> arr_at xs i = Some (xs ! nat i)"
  by (simp add: arr_at_def nat_less_iff)

section \<open>Components\<close>

definition links :: "relation \<Rightarrow> int \<Rightarrow> (int \<times> int) set" where
  "links r n = {(v, u). 0 \<le> v \<and> v < n \<and> (u \<in> set (succs r v) \<or> u \<in> set (preds r v))}"

lemma links_range: "graph_ok r n \<Longrightarrow> (v, u) \<in> links r n \<Longrightarrow> 0 \<le> v \<and> v < n \<and> 0 \<le> u \<and> u < n"
  using graph_rows(5,6) [of r n v] by (auto simp: links_def)

lemma links_star_range: "(v, u) \<in> (links r n)\<^sup>* \<Longrightarrow> graph_ok r n \<Longrightarrow> 0 \<le> v \<Longrightarrow> v < n \<Longrightarrow> 0 \<le> u \<and> u < n"
  by (induction rule: rtrancl_induct) (auto dest: links_range)

lemma min_label_ok:
  "set us \<subseteq> {0..<int (length label)} \<Longrightarrow>
     \<exists>m'. min_label label m us = Some m' \<and> m' \<le> m \<and> (\<forall>u \<in> set us. m' \<le> label ! nat u) \<and> (m' = m \<or> m' \<in> (\<lambda>u. label ! nat u) ` set us)"
proof (induction us arbitrary: m)
  case (Cons u us)
  define m1 where "m1 = (if label ! nat u < m then label ! nat u else m)"
  have "set us \<subseteq> {0..<int (length label)}" using Cons.prems by simp
  from Cons.IH [OF this, of m1] obtain m' where "min_label label m1 us = Some m'" "m' \<le> m1" "\<forall>u \<in> set us. m' \<le> label ! nat u"
    "m' = m1 \<or> m' \<in> (\<lambda>u. label ! nat u) ` set us" by blast
  then show ?case using Cons.prems by (auto simp: m1_def split: if_splits)
qed simp

definition labels_ok :: "relation \<Rightarrow> int \<Rightarrow> int list \<Rightarrow> bool" where
  "labels_ok r n label \<longleftrightarrow> length label = nat n \<and> (\<forall>v \<in> {0..<n}. (v, label ! nat v) \<in> (links r n)\<^sup>* \<and> label ! nat v \<le> v)"

lemma comp_step_ok:
  assumes g: "graph_ok r n" and l: "labels_ok r n label" and v: "0 \<le> v" "v < n"
  shows "\<exists>m. comp_step r v (label, c) = Some (label[nat v := m], c \<or> m < label ! nat v) \<and> m \<le> label ! nat v \<and>
    labels_ok r n (label[nat v := m]) \<and> (\<forall>u. (v, u) \<in> links r n \<longrightarrow> m \<le> label ! nat u)"
proof -
  note rows = graph_rows [OF g v]
  have len: "int (length label) = n" using l v by (simp add: labels_ok_def)
  obtain m1 where m1: "min_label label (label ! nat v) (succs r v) = Some m1" "m1 \<le> label ! nat v" "\<forall>u \<in> set (succs r v). m1 \<le> label ! nat u"
    "m1 = label ! nat v \<or> m1 \<in> (\<lambda>u. label ! nat u) ` set (succs r v)"
    using min_label_ok [of "succs r v" label "label ! nat v"] rows(5) len by auto
  obtain m where m: "min_label label m1 (preds r v) = Some m" "m \<le> m1" "\<forall>u \<in> set (preds r v). m \<le> label ! nat u"
    "m = m1 \<or> m \<in> (\<lambda>u. label ! nat u) ` set (preds r v)"
    using min_label_ok [of "preds r v" label m1] rows(6) len by auto
  have le: "m \<le> label ! nat v" "\<forall>u. (v, u) \<in> links r n \<longrightarrow> m \<le> label ! nat u" using m1 m by (auto simp: links_def)
  have "m = label ! nat v \<or> (\<exists>u. (v, u) \<in> links r n \<and> m = label ! nat u)" using m1(4) m(4) v by (auto simp: links_def)
  moreover have "(u, label ! nat u) \<in> (links r n)\<^sup>*" if "(v, u) \<in> links r n \<or> u = v" for u
    using that links_range [OF g, of v u] l v by (auto simp: labels_ok_def)
  ultimately have "(v, m) \<in> (links r n)\<^sup>*" by (metis converse_rtrancl_into_rtrancl)
  moreover have "label ! nat v \<le> v" using l v by (simp add: labels_ok_def)
  then have "m \<le> v" using le(1) by simp
  ultimately have "labels_ok r n (label[nat v := m])" using l v by (auto simp: labels_ok_def nth_list_update eq_nat_nat_iff)
  moreover have "comp_step r v (label, c) = Some (label[nat v := m], c \<or> m < label ! nat v)"
    using rows(1,2) m1(1) m(1) le(1) v len by (auto simp: comp_step_def)
  ultimately show ?thesis using le by blast
qed

lemma sum_list_update_int: "i < length xs \<Longrightarrow> sum_list (xs[i := m]) = sum_list xs + m - xs ! i" for xs :: "int list"
  by (induction xs arbitrary: i) (auto split: nat.split)

lemma sum_list_lower: "i < length xs \<Longrightarrow> m \<le> xs ! i \<Longrightarrow> sum_list (xs[i := m]) \<le> sum_list xs \<and> (m < xs ! i \<longrightarrow> sum_list (xs[i := m]) < sum_list xs)" for xs :: "int list"
  using sum_list_update_int [of i xs m] by simp

lemma comp_pass_ok:
  assumes "graph_ok r n" "labels_ok r n label" "set vs \<subseteq> {0..<n}"
  shows "\<exists>label' c'. comp_pass r vs (label, c) = Some (label', c') \<and> labels_ok r n label' \<and> sum_list label' \<le> sum_list label \<and>
    (c' \<and> \<not> c \<longrightarrow> sum_list label' < sum_list label) \<and>
    (\<not> c' \<longrightarrow> \<not> c \<and> label' = label \<and> (\<forall>v \<in> set vs. \<forall>u. (v, u) \<in> links r n \<longrightarrow> label ! nat v \<le> label ! nat u))"
  using assms(2,3)
proof (induction vs arbitrary: label c)
  case (Cons v vs)
  have v: "0 \<le> v" "v < n" using Cons.prems(2) by auto
  obtain m where m: "comp_step r v (label, c) = Some (label[nat v := m], c \<or> m < label ! nat v)" "m \<le> label ! nat v"
    "labels_ok r n (label[nat v := m])" "\<forall>u. (v, u) \<in> links r n \<longrightarrow> m \<le> label ! nat u"
    using comp_step_ok [OF assms(1) Cons.prems(1) v] by blast
  have lt: "nat v < length label" using Cons.prems(1) v by (simp add: labels_ok_def)
  note sum = sum_list_lower [OF lt m(2)]
  obtain label' c' where l: "comp_pass r vs (label[nat v := m], c \<or> m < label ! nat v) = Some (label', c')" "labels_ok r n label'"
    "sum_list label' \<le> sum_list (label[nat v := m])" "c' \<and> \<not> (c \<or> m < label ! nat v) \<longrightarrow> sum_list label' < sum_list (label[nat v := m])"
    "\<not> c' \<longrightarrow> \<not> (c \<or> m < label ! nat v) \<and> label' = label[nat v := m] \<and> (\<forall>w \<in> set vs. \<forall>u. (w, u) \<in> links r n \<longrightarrow> label[nat v := m] ! nat w \<le> label[nat v := m] ! nat u)"
    using Cons.IH [OF m(3), of "c \<or> m < label ! nat v"] Cons.prems(2) by auto
  have "label[nat v := m] = label" if "\<not> m < label ! nat v" using that m(2) by simp
  moreover from this have "\<not> c' \<longrightarrow> m = label ! nat v" using l(5) m(2) by auto
  ultimately show ?case using m(1,4) l sum by auto
qed auto

lemma comp_loop_ok:
  assumes g: "graph_ok r n" and E: "\<forall>k. \<not> stop E k" and "labels_ok r n label"
  shows "\<exists>label'. comp_loop E r n k label = Some (Inr label') \<and> labels_ok r n label' \<and>
    (\<forall>(v, u) \<in> links r n. label' ! nat v \<le> label' ! nat u)"
  using assms(3)
proof (induction "nat (sum_list label)" arbitrary: label k rule: less_induct)
  case less
  obtain label' c' where l: "comp_pass r (nodes n) (label, False) = Some (label', c')" "labels_ok r n label'"
    "c' \<longrightarrow> sum_list label' < sum_list label" "\<not> c' \<longrightarrow> label' = label \<and> (\<forall>v \<in> {0..<n}. \<forall>u. (v, u) \<in> links r n \<longrightarrow> label ! nat v \<le> label ! nat u)"
    using comp_pass_ok [OF g less.prems, of "nodes n" False] by auto
  show ?case
  proof (cases c')
    case True
    have "0 \<le> x" if "x \<in> set label'" for x
    proof -
      obtain i where i: "i < length label'" "x = label' ! i" using \<open>x \<in> set label'\<close> by (auto simp: in_set_conv_nth)
      then have "(int i, x) \<in> (links r n)\<^sup>*" using l(2) by (auto simp: labels_ok_def dest!: bspec [of _ _ "int i"])
      then show ?thesis using links_star_range [of "int i" x r n] g i l(2) by (simp add: labels_ok_def)
    qed
    then have "0 \<le> sum_list label'" by (simp add: sum_list_nonneg)
    then have "nat (sum_list label') < nat (sum_list label)" using l(3) True by simp
    then show ?thesis using less.hyps [OF _ l(2), of "k + 1"] E l(1) True by (subst comp_loop.simps) simp
  next
    case False
    then show ?thesis using E l links_range [OF g] by (subst comp_loop.simps) fastforce
  qed
qed

lemma labels_nodes: "labels_ok r n (nodes n)"
  by (simp add: labels_ok_def nat_less_iff)

lemma label_least:
  assumes "graph_ok r n" "labels_ok r n label" "\<forall>(v, u) \<in> links r n. label ! nat v \<le> label ! nat u" "0 \<le> v" "v < n"
  shows "label ! nat v = Min {u. (v, u) \<in> (links r n)\<^sup>*}"
proof -
  have fin: "{u. (v, u) \<in> (links r n)\<^sup>*} \<subseteq> {0..<n}" using links_star_range [of v _ r n] assms(1,4,5) by auto
  have le: "label ! nat v \<le> label ! nat u" if "(v, u) \<in> (links r n)\<^sup>*" for u
    using that by (induction rule: rtrancl_induct) (use assms(3) in \<open>auto intro: order_trans\<close>)
  have "label ! nat v \<le> u" if "(v, u) \<in> (links r n)\<^sup>*" for u
    using le [OF that] fin that assms(2) by (force simp: labels_ok_def)
  moreover have "(v, label ! nat v) \<in> (links r n)\<^sup>*" using assms(2,4,5) by (simp add: labels_ok_def)
  ultimately show ?thesis using finite_subset [OF fin] by (intro Min_eqI [symmetric]) auto
qed

text \<open>When the reverse rows are the converse of the forward rows, the labels are those of the components.\<close>

lemma same_label:
  assumes "sym (links r n)" "finite {u. (a, u) \<in> (links r n)\<^sup>*}" "finite {u. (b, u) \<in> (links r n)\<^sup>*}"
  shows "Min {u. (a, u) \<in> (links r n)\<^sup>*} = Min {u. (b, u) \<in> (links r n)\<^sup>*} \<longleftrightarrow> (a, b) \<in> (links r n)\<^sup>*"
proof
  have s: "sym ((links r n)\<^sup>*)" using assms(1) by (rule sym_rtrancl)
  assume eq: "Min {u. (a, u) \<in> (links r n)\<^sup>*} = Min {u. (b, u) \<in> (links r n)\<^sup>*}"
  have "Min {u. (a, u) \<in> (links r n)\<^sup>*} \<in> {u. (a, u) \<in> (links r n)\<^sup>*}" "Min {u. (b, u) \<in> (links r n)\<^sup>*} \<in> {u. (b, u) \<in> (links r n)\<^sup>*}"
    using assms(2,3) by (intro Min_in; auto)+
  then show "(a, b) \<in> (links r n)\<^sup>*" using eq s by (auto dest: symD intro: rtrancl_trans)
next
  have s: "sym ((links r n)\<^sup>*)" using assms(1) by (rule sym_rtrancl)
  assume "(a, b) \<in> (links r n)\<^sup>*"
  then have "{u. (a, u) \<in> (links r n)\<^sup>*} = {u. (b, u) \<in> (links r n)\<^sup>*}" using s by (auto dest: symD intro: rtrancl_trans)
  then show "Min {u. (a, u) \<in> (links r n)\<^sup>*} = Min {u. (b, u) \<in> (links r n)\<^sup>*}" by simp
qed

section \<open>Graphs from edge tables\<close>

lemma rows_index:
  assumes "holds_rows g rows" "0 \<le> v" "v < int (length rows)"
  shows "csr_row g v = Some (map fst (rows ! nat v))" "csr_span g v = Some (int (length (rows ! nat v)))"
proof -
  have v: "nat v < length rows" using assms(2,3) by simp
  have le: "row_start rows (nat v + 1) \<le> length (concat rows)"
    using row_start_mono [of "nat v + 1" "length rows" rows] v by (simp add: row_start_all)
  have "drop (row_start rows (nat v)) (take (row_start rows (nat v + 1)) (map fst (concat rows))) =
      map fst (slice (row_start rows (nat v)) (row_start rows (Suc (nat v))) (concat rows))"
    by (simp add: slice_def drop_map take_map)
  then show "csr_row g v = Some (map fst (rows ! nat v))"
    using assms v le by (simp add: csr_row_def holds_rows_def slice_concat del: upt_Suc)
  show "csr_span g v = Some (int (length (rows ! nat v)))"
    using assms v row_start_Suc [OF v] by (simp add: csr_span_def holds_rows_def del: upt_Suc)
qed

text \<open>A square relation built from two columns of nodes.\<close>

definition table_graph :: "((edge_pair \<Rightarrow> edge_pair \<Rightarrow> int) \<Rightarrow> edge_pair list \<Rightarrow> edge_pair list) \<Rightarrow> int list \<Rightarrow> int list \<Rightarrow> int \<Rightarrow> relation \<Rightarrow> bool" where
  "table_graph qs ss ds n r \<longleftrightarrow> 0 < n \<and> length ss = length ds \<and> (\<forall>(u, v) \<in> set (zip ss ds). 0 \<le> u \<and> u < n \<and> 0 \<le> v \<and> v < n) \<and>
     (\<exists>srt. ray_rel_from_edges (\<lambda>_. True) (\<lambda>_. 0) qs (\<lambda>_. True) (Some [''src'' \<mapsto> I64 ss, ''dst'' \<mapsto> I64 ds]) ''src'' ''dst'' n n srt = Some r)"

lemma table_graph_holds:
  assumes "libc_qsort qs" "table_graph qs ss ds n r"
  shows "holds_rows (fwd_index r) (map (\<lambda>u. table_row ss ds (int u)) [0..<nat n])" "holds_rows (rev_index r) (map (\<lambda>v. table_row ds ss (int v)) [0..<nat n])"
proof -
  obtain srt where r: "ray_rel_from_edges (\<lambda>_. True) (\<lambda>_. 0) qs (\<lambda>_. True) (Some [''src'' \<mapsto> I64 ss, ''dst'' \<mapsto> I64 ds]) ''src'' ''dst'' n n srt = Some r"
    "length ss = length ds" "0 < n" using assms(2) by (auto simp: table_graph_def)
  show "holds_rows (fwd_index r) (map (\<lambda>u. table_row ss ds (int u)) [0..<nat n])" "holds_rows (rev_index r) (map (\<lambda>v. table_row ds ss (int v)) [0..<nat n])"
    using rel_from_edges_holds [OF assms(1), of "\<lambda>_. True" "\<lambda>_. True" "''src''" "''dst''" "[''src'' \<mapsto> I64 ss, ''dst'' \<mapsto> I64 ds]" ss ds n n "\<lambda>_. 0" srt] r
    by auto
qed

lemma table_rows:
  assumes "libc_qsort qs" "table_graph qs ss ds n r" "0 \<le> v" "v < n"
  shows "csr_row (fwd_index r) v = Some (map fst (table_row ss ds v))" "csr_row (rev_index r) v = Some (map fst (table_row ds ss v))"
    "csr_span (fwd_index r) v = Some (int (length (table_row ss ds v)))" "csr_span (rev_index r) v = Some (int (length (table_row ds ss v)))"
  using rows_index [OF table_graph_holds(1) [OF assms(1,2)] assms(3)] rows_index [OF table_graph_holds(2) [OF assms(1,2)] assms(3)] assms(3,4)
  by simp_all

lemma table_rows_of:
  assumes "libc_qsort qs" "table_graph qs ss ds n r" "0 \<le> v" "v < n"
  shows "succs r v = map fst (table_row ss ds v)" "preds r v = map fst (table_row ds ss v)"
    "set (succs r v) = {u. (v, u) \<in> set (zip ss ds)}" "set (preds r v) = {u. (u, v) \<in> set (zip ss ds)}"
proof -
  show s: "succs r v = map fst (table_row ss ds v)" "preds r v = map fst (table_row ds ss v)"
    using table_rows [OF assms] by (simp_all add: succs_def preds_def)
  have len: "length ss = length ds" using assms(2) by (simp add: table_graph_def)
  show "set (succs r v) = {u. (v, u) \<in> set (zip ss ds)}" using set_table_row [OF len] by (auto simp: s)
  show "set (preds r v) = {u. (u, v) \<in> set (zip ss ds)}" using set_table_row [OF len [symmetric]] len by (auto simp: s set_zip)
qed

lemma table_graph_ok:
  assumes "libc_qsort qs" "table_graph qs ss ds n r"
  shows "graph_ok r n" "links r n = set (zip ss ds) \<union> (set (zip ss ds))\<inverse>"
proof -
  have rng: "\<forall>(u, v) \<in> set (zip ss ds). 0 \<le> u \<and> u < n \<and> 0 \<le> v \<and> v < n" "0 < n" using assms(2) by (auto simp: table_graph_def)
  have "n_nodes (fwd_index r) = n" "n_nodes (rev_index r) = n"
    using table_graph_holds [OF assms] rng(2) by (simp_all add: holds_rows_def)
  moreover have "csr_row (fwd_index r) v = Some (succs r v) \<and> csr_span (fwd_index r) v = Some (int (length (succs r v))) \<and> set (succs r v) \<subseteq> {0..<n}"
    "csr_row (rev_index r) v = Some (preds r v) \<and> csr_span (rev_index r) v = Some (int (length (preds r v))) \<and> set (preds r v) \<subseteq> {0..<n}"
    if "v \<in> {0..<n}" for v
    using table_rows [OF assms, of v] table_rows_of [OF assms, of v] that rng(1) by auto
  ultimately show "graph_ok r n" using rng(2) unfolding graph_ok_def index_ok_def by blast
  show "links r n = set (zip ss ds) \<union> (set (zip ss ds))\<inverse>"
    using table_rows_of(3,4) [OF assms] rng(1) by (auto simp: links_def)
qed

text \<open>Parallel edges count: an edge is in the row of its target as often as in the row of its source.\<close>

lemma count_table_row:
  "count_list (map fst (table_row ss ds u)) v = length (filter (\<lambda>i. ss ! i = u \<and> ds ! i = v) [0..<length ss])"
proof -
  have "count_list (map fst (table_row ss ds u)) v = count (mset (map fst (table_row ss ds u))) v" by (simp only: count_mset)
  also have "mset (map fst (table_row ss ds u)) = mset (map (\<lambda>i. ds ! i) (filter (\<lambda>i. ss ! i = u) [0..<length ss]))"
    unfolding table_row_def mset_map mset_sort by (simp add: image_mset.compositionality comp_def)
  also have "count \<dots> v = length (filter (\<lambda>i. ss ! i = u \<and> ds ! i = v) [0..<length ss])"
    by (simp only: count_mset count_list_eq_length_filter filter_map length_map filter_filter comp_def) (metis (mono_tags, lifting))
  finally show ?thesis .
qed

definition twin_rows :: "relation \<Rightarrow> int \<Rightarrow> bool" where
  "twin_rows r n \<longleftrightarrow> (\<forall>u \<in> {0..<n}. \<forall>v \<in> {0..<n}. count_list (succs r u) v = count_list (preds r v) u)"

lemma table_twin:
  assumes "libc_qsort qs" "table_graph qs ss ds n r"
  shows "twin_rows r n"
proof -
  have len: "length ss = length ds" using assms(2) by (simp add: table_graph_def)
  show ?thesis using table_rows_of(1,2) [OF assms] len by (simp add: twin_rows_def count_table_row conj_commute)
qed

text \<open>
  C24.  Connected components of a graph built from an edge table, parallel edges and loops included: the
  label propagation ends, and two nodes get the same label exactly if edges, taken in either
  direction, lead from one to the other; the label is the least node of the component.
\<close>

theorem connected_comp_correct:
  assumes "libc_qsort qs" "table_graph qs ss ds n r" "g_rel x = Some r" "scratch_ok E" "out_ok E" "\<forall>k. \<not> stop E k"
  shows "\<exists>comp. exec_connected_comp E (Some x) = Some (Inr [(''_node'', nodes n), (''_component'', comp)]) \<and> length comp = nat n \<and>
    (\<forall>a \<in> {0..<n}. comp ! nat a = Min {u. (a, u) \<in> (set (zip ss ds) \<union> (set (zip ss ds))\<inverse>)\<^sup>*} \<and>
      (\<forall>b \<in> {0..<n}. comp ! nat a = comp ! nat b \<longleftrightarrow> (a, b) \<in> (set (zip ss ds) \<union> (set (zip ss ds))\<inverse>)\<^sup>*))"
proof -
  note g = table_graph_ok(1) [OF assms(1,2)] and links = table_graph_ok(2) [OF assms(1,2)]
  obtain comp where c: "comp_loop E r n 0 (nodes n) = Some (Inr comp)" "labels_ok r n comp" "\<forall>(v, u) \<in> links r n. comp ! nat v \<le> comp ! nat u"
    using comp_loop_ok [OF g assms(6) labels_nodes] by blast
  have m: "comp ! nat a = Min {u. (a, u) \<in> (links r n)\<^sup>*}" if "a \<in> {0..<n}" for a using label_least [OF g c(2,3)] that by simp
  have fin: "finite {u. (a, u) \<in> (links r n)\<^sup>*}" if "a \<in> {0..<n}" for a
    by (rule finite_subset [of _ "{0..<n}"]) (use links_star_range [OF _ g] that in auto)
  have "sym (links r n)" unfolding links by (auto simp: sym_def)
  then have "comp ! nat a = comp ! nat b \<longleftrightarrow> (a, b) \<in> (links r n)\<^sup>*" if "a \<in> {0..<n}" "b \<in> {0..<n}" for a b
    using same_label [OF _ fin fin] m that by simp
  then show ?thesis
    using m c(1,2) graph_nodes [OF g] assms(3-5) unfolding links [symmetric]
    by (auto simp: exec_connected_comp_def on_graph_def labels_ok_def)
qed

lemma table_graph_exists:
  assumes "libc_qsort qs" "0 < n" "length ss = length ds" "\<forall>(u, v) \<in> set (zip ss ds). 0 \<le> u \<and> u < n \<and> 0 \<le> v \<and> v < n"
  shows "\<exists>r. table_graph qs ss ds n r"
  using rel_from_edges_holds [OF assms(1), of "\<lambda>_. True" "\<lambda>_. True" "''src''" "''dst''" "[''src'' \<mapsto> I64 ss, ''dst'' \<mapsto> I64 ds]" ss ds n n "\<lambda>_. 0" True] assms
  by (auto simp: table_graph_def)

definition calm :: trav_env where
  "calm = \<lparr>scratch_ok = True, room_ok = \<lambda>_. True, out_ok = True, stop = \<lambda>_. False\<rparr>"

definition plain_ext :: "relation \<Rightarrow> nat \<Rightarrow> graph_ext" where
  "plain_ext r md = \<lparr>g_rel = Some r, direction = 0, min_depth = 1, max_depth = md, path_tracking = False\<rparr>"

lemma calm_env: "scratch_ok calm" "out_ok calm" "\<forall>k. \<not> stop calm k" "\<forall>k. room_ok calm k" "g_rel (plain_ext r md) = Some r"
  "direction (plain_ext r md) = 0" "max_depth (plain_ext r md) = md"
  by (simp_all add: calm_def plain_ext_def)

theorem connected_comp_correct_witness:
  "\<exists>r comp. table_graph insertion_qsort [0] [1] 3 r \<and>
     exec_connected_comp calm (Some (plain_ext r 0)) = Some (Inr [(''_node'', [0, 1, 2]), (''_component'', comp)]) \<and>
     comp ! 0 = comp ! 1 \<and> comp ! 0 \<noteq> comp ! 2"
proof -
  obtain r where r: "table_graph insertion_qsort [0] [1] 3 r"
    using table_graph_exists [OF ins.libc_qsort_axioms, of 3 "[0]" "[1]"] by auto
  let ?L = "set (zip [0] [1]) \<union> (set (zip [0] [1]))\<inverse> :: (int \<times> int) set"
  obtain comp where c: "exec_connected_comp calm (Some (plain_ext r 0)) = Some (Inr [(''_node'', nodes 3), (''_component'', comp)])"
    "\<forall>a \<in> {0..<3}. \<forall>b \<in> {0..<3}. comp ! nat a = comp ! nat b \<longleftrightarrow> (a, b) \<in> ?L\<^sup>*"
    using connected_comp_correct [OF ins.libc_qsort_axioms r calm_env(5,1,2,3)] by blast
  have "(0, 1) \<in> ?L\<^sup>*" by auto
  moreover have "u = 0 \<or> u = 1" if "(0, u) \<in> ?L\<^sup>*" for u using that by (induction rule: rtrancl_induct) auto
  then have "(0, 2) \<notin> ?L\<^sup>*" by fastforce
  ultimately have "comp ! 0 = comp ! 1" "comp ! 0 \<noteq> comp ! 2"
    using c(2) [rule_format, of 0 1] c(2) [rule_format, of 0 2] by auto
  moreover have "nodes 3 = [0, 1, 2]" by (simp add: nodes_def numeral_eq_Suc)
  ultimately show ?thesis using r c(1) by auto
qed

section \<open>Topological order\<close>

text \<open>The queue holds the nodes whose in-degree is zero, once each.\<close>

definition zero_queue :: "int \<Rightarrow> int list \<Rightarrow> int list \<Rightarrow> bool" where
  "zero_queue n ind q \<longleftrightarrow> length ind = nat n \<and> distinct q \<and> set q = {w \<in> {0..<n}. ind ! nat w = 0}"

lemma top_row_ok:
  assumes "zero_queue n ind q" "set us \<subseteq> {0..<n}" "\<forall>w \<in> {0..<n}. int (count_list us w) \<le> ind ! nat w"
  shows "\<exists>ind' new. top_row us (ind, q) = Some (ind', q @ new) \<and> zero_queue n ind' (q @ new) \<and>
    (\<forall>w \<in> {0..<n}. ind' ! nat w = ind ! nat w - int (count_list us w))"
  using assms
proof (induction us arbitrary: ind q)
  case Nil
  then show ?case by (intro exI [of _ ind] exI [of _ "[]"]) simp
next
  case (Cons u us)
  have u: "0 \<le> u" "u < n" using Cons.prems(2) by auto
  have len: "int (length ind) = n" "length ind = nat n" using Cons.prems(1) u by (auto simp: zero_queue_def)
  have pos: "int (count_list us u) + 1 \<le> ind ! nat u" using bspec [OF Cons.prems(3), of u] u by simp
  define ind1 where "ind1 = ind[nat u := ind ! nat u - 1]"
  have ind1: "ind1 ! nat w = (if w = u then ind ! nat u - 1 else ind ! nat w)" if "w \<in> {0..<n}" for w
    using that u len by (auto simp: ind1_def nth_list_update eq_nat_nat_iff)
  have "ind ! nat u \<noteq> 0" using pos by linarith
  then have nq: "u \<notin> set q" using Cons.prems(1) by (simp add: zero_queue_def)
  have "set q \<subseteq> {0..<n}" using Cons.prems(1) unfolding zero_queue_def by blast
  then have sub: "set q \<subseteq> {0..<n} - {u}" using nq by blast
  have "distinct q" using Cons.prems(1) by (simp add: zero_queue_def)
  then have "length q = card (set q)" by (simp only: distinct_card)
  also have "\<dots> \<le> card ({0..<n} - {u})" using sub by (intro card_mono) auto
  also have "\<dots> < nat n" using u by (simp add: card_Diff_singleton)
  finally have room: "length q < length ind" using len by simp
  define q1 where "q1 = (if ind ! nat u - 1 = 0 then q @ [u] else q)"
  have "w \<in> set q1 \<longleftrightarrow> w \<in> {0..<n} \<and> ind1 ! nat w = 0" for w
    using Cons.prems(1) ind1 [of w] u \<open>ind ! nat u \<noteq> 0\<close> by (cases "w = u") (simp_all add: zero_queue_def q1_def cong: conj_cong)
  moreover have "distinct q1" "length ind1 = nat n" using Cons.prems(1) nq by (simp_all add: zero_queue_def q1_def ind1_def)
  ultimately have z: "zero_queue n ind1 q1" by (auto simp: zero_queue_def)
  have c: "\<forall>w \<in> {0..<n}. int (count_list us w) \<le> ind1 ! nat w" using Cons.prems(3) ind1 by fastforce
  obtain ind' new where r: "top_row us (ind1, q1) = Some (ind', q1 @ new)" "zero_queue n ind' (q1 @ new)"
    "\<forall>w \<in> {0..<n}. ind' ! nat w = ind1 ! nat w - int (count_list us w)"
    using Cons.IH [OF z _ c] Cons.prems(2) by auto
  have step: "top_row (u # us) (ind, q) = top_row us (ind1, q1)"
    using u len room by (simp add: Let_def ind1_def q1_def)
  obtain new' where "q1 @ new = q @ new'" by (cases "ind ! nat u - 1 = 0") (simp_all add: q1_def)
  then show ?case using step r ind1 by (intro exI [of _ ind'] exI [of _ new']) auto
qed

definition arcs :: "relation \<Rightarrow> int \<Rightarrow> (int \<times> int) set" where
  "arcs r n = {(u, v). 0 \<le> u \<and> u < n \<and> v \<in> set (succs r u)}"

text \<open>
  The invariant: the in-degrees count the edges from nodes that are not ordered yet, what leads to a node of
  the queue was ordered before it, and the orders are the positions in the queue.
\<close>

definition top_inv :: "relation \<Rightarrow> int \<Rightarrow> nat \<Rightarrow> int list \<Rightarrow> int list \<Rightarrow> int list \<Rightarrow> bool" where
  "top_inv r n head ind q ord \<longleftrightarrow> zero_queue n ind q \<and> head \<le> length q \<and> length ord = nat n \<and>
     (\<forall>w \<in> {0..<n}. ind ! nat w = (\<Sum>u \<in> {0..<n} - set (take head q). int (count_list (succs r u) w))) \<and>
     (\<forall>i < length q. \<forall>u. (u, q ! i) \<in> arcs r n \<longrightarrow> u \<in> set (take (min i head) q)) \<and>
     (\<forall>i < head. ord ! nat (q ! i) = int i)"

lemma top_inv_facts:
  assumes "top_inv r n head ind q ord"
  shows "zero_queue n ind q" "head \<le> length q" "length ord = nat n" "distinct q" "set q \<subseteq> {0..<n}" "length q \<le> nat n" "length ind = nat n"
proof -
  show z: "zero_queue n ind q" and "head \<le> length q" "length ord = nat n" using assms by (simp_all add: top_inv_def)
  show d: "distinct q" and s: "set q \<subseteq> {0..<n}" and "length ind = nat n" using z unfolding zero_queue_def by blast+
  have "length q = card (set q)" using d by (simp only: distinct_card)
  also have "\<dots> \<le> card {0..<n}" using s by (intro card_mono) auto
  finally show "length q \<le> nat n" by simp
qed

lemma top_step:
  assumes g: "graph_ok r n" and inv: "top_inv r n head ind q ord" and h: "head < length q"
  shows "\<exists>ind' new. csr_row (fwd_index r) (q ! head) = Some (succs r (q ! head)) \<and> 0 \<le> q ! head \<and> q ! head < n \<and>
    top_row (succs r (q ! head)) (ind, q) = Some (ind', q @ new) \<and> top_inv r n (head + 1) ind' (q @ new) (ord[nat (q ! head) := int head])"
proof -
  note F = top_inv_facts [OF inv]
  define v where "v = q ! head"
  have v: "0 \<le> v" "v < n" using nth_mem [OF h] F(5) by (auto simp: v_def)
  define P where "P = set (take head q)"
  have P': "set (take (head + 1) q) = insert v P" using h by (simp add: P_def v_def take_Suc_conv_app_nth)
  have vP: "v \<notin> P" unfolding P_def v_def using F(4) h by (auto simp: in_set_conv_nth nth_eq_iff_index_eq)
  let ?c = "\<lambda>u w. int (count_list (succs r u) w)"
  have ind: "ind ! nat w = (\<Sum>u \<in> {0..<n} - P. ?c u w)" if "w \<in> {0..<n}" for w using inv that by (simp add: top_inv_def P_def)
  have split: "(\<Sum>u \<in> {0..<n} - P. ?c u w) = ?c v w + (\<Sum>u \<in> {0..<n} - insert v P. ?c u w)" for w
  proof -
    have "v \<in> {0..<n} - P" using v vP by simp
    then show ?thesis using sum.remove [of "{0..<n} - P" v "\<lambda>u. ?c u w"] by (simp only: Diff_insert [of _ v P] finite_Diff finite_atLeastLessThan_int)
  qed
  have "?c v w \<le> ind ! nat w" if "w \<in> {0..<n}" for w using ind [OF that] split by (simp add: sum_nonneg)
  then obtain ind' new where r: "top_row (succs r v) (ind, q) = Some (ind', q @ new)" "zero_queue n ind' (q @ new)"
    "\<forall>w \<in> {0..<n}. ind' ! nat w = ind ! nat w - ?c v w"
    using top_row_ok [OF F(1) graph_rows(5) [OF g v]] by blast
  have tk: "take (head + 1) (q @ new) = take (head + 1) q" using h by simp
  have ind': "ind' ! nat w = (\<Sum>u \<in> {0..<n} - set (take (head + 1) (q @ new)). ?c u w)" if "w \<in> {0..<n}" for w
    using r(3) ind [OF that] split that unfolding tk P' by simp
  have "u \<in> set (take (min i (head + 1)) (q @ new))" if i: "i < length (q @ new)" and a: "(u, (q @ new) ! i) \<in> arcs r n" for i u
  proof (cases "i < length q")
    case True
    then have "u \<in> set (take (min i head) q)" using inv a by (simp add: top_inv_def nth_append)
    also have "\<dots> \<subseteq> set (take (min i (head + 1)) q)" by (intro set_take_subset_set_take) simp
    finally show ?thesis by auto
  next
    case False
    let ?w = "(q @ new) ! i"
    have w: "?w \<in> {0..<n}" "ind' ! nat ?w = 0" using r(2) nth_mem [OF i] unfolding zero_queue_def by blast+
    have "u \<in> {0..<n}" "?c u ?w \<noteq> 0" using a by (auto simp: arcs_def count_list_0_iff)
    moreover have "(\<Sum>u \<in> {0..<n} - set (take (head + 1) (q @ new)). ?c u ?w) = 0" using ind' [OF w(1)] w(2) by simp
    then have "\<forall>u \<in> {0..<n} - set (take (head + 1) (q @ new)). ?c u ?w = 0" by (subst (asm) sum_nonneg_eq_0_iff) auto
    ultimately have "u \<in> set (take (head + 1) (q @ new))" by blast
    also have "take (head + 1) (q @ new) = take (min i (head + 1)) (q @ new)" using False h by (simp add: min_def)
    finally show ?thesis .
  qed
  moreover have "ord[nat v := int head] ! nat ((q @ new) ! i) = int i" if "i < head + 1" for i
  proof (cases "i = head")
    case True
    then show ?thesis using h v F(3) by (simp add: nth_append v_def)
  next
    case False
    then have i: "i < head" "i < length q" using that h by auto
    have "q ! i \<in> {0..<n}" using nth_mem [OF i(2)] F(5) by blast
    moreover have "q ! i \<noteq> v" using F(4) i h by (simp add: v_def nth_eq_iff_index_eq)
    ultimately show ?thesis using inv i v by (simp add: top_inv_def nth_append nth_list_update eq_nat_nat_iff)
  qed
  ultimately have "top_inv r n (head + 1) ind' (q @ new) (ord[nat v := int head])"
    using r(2) ind' F(3) h unfolding top_inv_def by simp
  then show ?thesis using r(1) graph_rows(1) [OF g v] v unfolding v_def [symmetric] by blast
qed

lemma top_loop_ok:
  assumes g: "graph_ok r n" and E: "\<forall>k. \<not> stop E k" and "top_inv r n head ind q ord"
  shows "\<exists>q' ind' ord'. top_loop E r head ind q ord = Some (Inr (length q', ord')) \<and> top_inv r n (length q') ind' q' ord'"
  using assms(3)
proof (induction "nat n - head" arbitrary: head ind q ord rule: less_induct)
  case less
  show ?case
  proof (cases "head < length q")
    case False
    then have "head = length q" using top_inv_facts(2) [OF less.prems] by simp
    then show ?thesis using less.prems by (subst top_loop.simps) auto
  next
    case True
    obtain ind' new where s: "csr_row (fwd_index r) (q ! head) = Some (succs r (q ! head))" "0 \<le> q ! head" "q ! head < n"
      "top_row (succs r (q ! head)) (ind, q) = Some (ind', q @ new)" "top_inv r n (head + 1) ind' (q @ new) (ord[nat (q ! head) := int head])"
      using top_step [OF g less.prems True] by blast
    have "nat n - (head + 1) < nat n - head" using True top_inv_facts(6) [OF less.prems] by linarith
    from less.hyps [OF this s(5)]
    show ?thesis using True E s top_inv_facts(3) [OF less.prems] by (subst top_loop.simps) (simp add: Let_def)
  qed
qed

lemma top_start:
  assumes g: "graph_ok r n" and tw: "twin_rows r n" and j: "length ord = nat n"
  shows "\<exists>ind. those (map (csr_span (rev_index r)) (nodes n)) = Some ind \<and> top_inv r n 0 ind (filter (\<lambda>i. ind ! nat i = 0) (nodes n)) ord"
proof -
  let ?ind = "map (\<lambda>v. int (length (preds r v))) (nodes n)"
  have "map (csr_span (rev_index r)) (nodes n) = map Some ?ind" using graph_rows(4) [OF g] by simp
  moreover have "those (map Some xs) = Some xs" for xs :: "int list" by (induction xs) auto
  ultimately have t: "those (map (csr_span (rev_index r)) (nodes n)) = Some ?ind" by (simp only:)
  have nth: "?ind ! nat w = int (length (preds r w))" if "w \<in> {0..<n}" for w using that by (simp add: nat_less_iff)
  have sum: "int (length (preds r w)) = (\<Sum>u \<in> {0..<n}. int (count_list (succs r u) w))" if "w \<in> {0..<n}" for w
  proof -
    have "length (preds r w) = (\<Sum>u \<in> {0..<n}. count_list (preds r w) u)"
      using sum_count_set [of "preds r w" "{0..<n}"] graph_rows(6) [OF g, of w] that by simp
    also have "\<dots> = (\<Sum>u \<in> {0..<n}. count_list (succs r u) w)" using tw that by (simp add: twin_rows_def)
    finally show ?thesis by simp
  qed
  let ?q = "filter (\<lambda>i. ?ind ! nat i = 0) (nodes n)"
  have z: "zero_queue n ?ind ?q" by (auto simp: zero_queue_def)
  have no: "False" if "w \<in> set ?q" "(u, w) \<in> arcs r n" for u w
  proof -
    have w: "w \<in> {0..<n}" "?ind ! nat w = 0" using that(1) by auto
    then have "(\<Sum>u \<in> {0..<n}. int (count_list (succs r u) w)) = 0" using sum nth by simp
    then have "\<forall>u \<in> {0..<n}. int (count_list (succs r u) w) = 0" by (subst (asm) sum_nonneg_eq_0_iff) auto
    then show False using that(2) by (auto simp: arcs_def count_list_0_iff)
  qed
  have "\<forall>i < length ?q. \<forall>u. (u, ?q ! i) \<in> arcs r n \<longrightarrow> u \<in> set (take (min i 0) ?q)" using no nth_mem by blast
  moreover have "\<forall>w \<in> {0..<n}. ?ind ! nat w = (\<Sum>u \<in> {0..<n} - set (take 0 ?q). int (count_list (succs r u) w))"
    using nth sum by simp
  ultimately have "top_inv r n 0 ?ind ?q ord" using z j unfolding top_inv_def by blast
  then show ?thesis using t by blast
qed

text \<open>At the end the queue is complete exactly if there is no cycle, and it is in topological order.\<close>

lemma top_complete:
  assumes g: "graph_ok r n" and inv: "top_inv r n (length q) ind q ord"
  shows "int (length q) = n \<longleftrightarrow> acyclic (arcs r n)"
    "int (length q) = n \<Longrightarrow> (\<forall>(u, v) \<in> arcs r n. ord ! nat u < ord ! nat v) \<and> distinct ord \<and> set ord = {0..<n}"
proof -
  note F = top_inv_facts [OF inv]
  have pred: "j < i" if "i < length q" "j < length q" "(q ! j, q ! i) \<in> arcs r n" for i j
  proof -
    have "q ! j \<in> set (take i q)" using inv that by (simp add: top_inv_def)
    then obtain k where "k < i" "q ! k = q ! j" using that(1) by (auto simp: in_set_conv_nth)
    then show ?thesis using F(4) that by (simp add: nth_eq_iff_index_eq)
  qed
  have ord: "ord ! nat (q ! i) = int i" if "i < length q" for i using inv that by (simp add: top_inv_def)
  have rng: "u \<in> {0..<n} \<and> v \<in> {0..<n}" if "(u, v) \<in> arcs r n" for u v
    using that graph_rows(5) [OF g, of u] by (auto simp: arcs_def)
  have all: "set q = {0..<n}" if "int (length q) = n"
    using F(4,5) that distinct_card [OF F(4)] by (intro card_subset_eq) auto
  have up: "ord ! nat u < ord ! nat v" if n: "int (length q) = n" and a: "(u, v) \<in> arcs r n" for u v
  proof -
    obtain i j where "i < length q" "q ! i = u" "j < length q" "q ! j = v" using rng [OF a] all [OF n] by (metis in_set_conv_nth)
    then show ?thesis using pred a ord by auto
  qed
  show "int (length q) = n \<longleftrightarrow> acyclic (arcs r n)"
  proof
    assume n: "int (length q) = n"
    have "ord ! nat u < ord ! nat v" if "(u, v) \<in> (arcs r n)\<^sup>+" for u v
      using that by (induction rule: trancl_induct) (use up [OF n] in \<open>auto intro: order.strict_trans\<close>)
    then show "acyclic (arcs r n)" unfolding acyclic_def by blast
  next
    assume ac: "acyclic (arcs r n)"
    have "arcs r n \<subseteq> {0..<n} \<times> {0..<n}" using rng by auto
    then have wf: "wf (arcs r n)" using ac by (intro finite_acyclic_wf) (auto intro: finite_subset)
    have "{0..<n} - set q = {}"
    proof (rule ccontr)
      assume "{0..<n} - set q \<noteq> {}"
      then obtain w where w: "w \<in> {0..<n} - set q" "\<And>u. (u, w) \<in> arcs r n \<Longrightarrow> u \<notin> {0..<n} - set q"
        using wfE_min' [OF wf, of "{0..<n} - set q"] by blast
      have "count_list (succs r u) w = 0" if "u \<in> {0..<n} - set q" for u
        using w(2) [of u] that by (auto simp: arcs_def count_list_0_iff)
      moreover have "ind ! nat w = (\<Sum>u \<in> {0..<n} - set q. int (count_list (succs r u) w))" using inv w(1) by (simp add: top_inv_def)
      ultimately have "ind ! nat w = 0" by simp
      then show False using F(1) w(1) by (auto simp: zero_queue_def)
    qed
    then have "set q = {0..<n}" using F(5) by auto
    then show "int (length q) = n" using distinct_card [OF F(4)] g by (simp add: graph_ok_def) linarith
  qed
  assume n: "int (length q) = n"
  have img: "map (\<lambda>i. ord ! nat (q ! i)) [0..<length q] = nodes n" using ord n by (intro nth_equalityI) (auto simp: nodes_def)
  have "nat ` {0..<n} = {..<nat n}"
  proof
    show "{..<nat n} \<subseteq> nat ` {0..<n}" by (rule subsetI, rule image_eqI [of _ _ "int _"]) auto
  qed auto
  then have "set ord = (!) ord ` nat ` {0..<n}" using F(3) by (auto simp: set_conv_nth)
  also have "\<dots> = (\<lambda>v. ord ! nat v) ` {0..<n}" by (simp add: image_image)
  also have "\<dots> = set (nodes n)" unfolding all [OF n, symmetric] img [symmetric] set_map set_upt set_conv_nth [of q] by (fastforce simp: image_def)
  finally have s: "set ord = {0..<n}" by simp
  moreover have "distinct ord" using s F(3) by (intro card_distinct) simp
  ultimately show "(\<forall>(u, v) \<in> arcs r n. ord ! nat u < ord ! nat v) \<and> distinct ord \<and> set ord = {0..<n}" using up [OF n] by auto
qed

lemma table_arcs: "libc_qsort qs \<Longrightarrow> table_graph qs ss ds n r \<Longrightarrow> arcs r n = set (zip ss ds)"
  using table_rows_of(3) [of qs ss ds n r] by (auto simp: arcs_def table_graph_def)

text \<open>
  C13.  Topological order of a graph built from an edge table: if the edges have no cycle, the result
  numbers the nodes from zero without repetition so that every edge goes to a higher number; if they have
  one, the operator reports it.  Parallel edges are counted as often as they occur.
\<close>

theorem topsort_correct:
  assumes "libc_qsort qs" "table_graph qs ss ds n r" "g_rel x = Some r" "scratch_ok E" "out_ok E" "\<forall>k. \<not> stop E k"
  shows "if acyclic (set (zip ss ds))
    then \<exists>ord. exec_topsort E junk (Some x) = Some (Inr [(''_node'', nodes n), (''_order'', ord)]) \<and> distinct ord \<and> set ord = {0..<n} \<and>
           (\<forall>(u, v) \<in> set (zip ss ds). ord ! nat u < ord ! nat v)
    else exec_topsort E junk (Some x) = Some (Inl ''domain'')"
proof -
  note g = table_graph_ok(1) [OF assms(1,2)] and A = table_arcs [OF assms(1,2)]
  obtain ind where i: "those (map (csr_span (rev_index r)) (nodes n)) = Some ind"
    "top_inv r n 0 ind (filter (\<lambda>i. ind ! nat i = 0) (nodes n)) (map junk [0..<nat n])"
    using top_start [OF g table_twin [OF assms(1,2)], of "map junk [0..<nat n]"] by auto
  obtain q ind' ord where l: "top_loop E r 0 ind (filter (\<lambda>i. ind ! nat i = 0) (nodes n)) (map junk [0..<nat n]) = Some (Inr (length q, ord))"
    "top_inv r n (length q) ind' q ord"
    using top_loop_ok [OF g assms(6) i(2)] by blast
  note c = top_complete [OF g l(2), unfolded A]
  have "length q \<le> nat n" "0 < n" using top_inv_facts(6) [OF l(2)] g by (auto simp: graph_ok_def)
  then have "int (length q) < n \<longleftrightarrow> int (length q) \<noteq> n" by linarith
  then show ?thesis
    using c i(1) l(1) graph_nodes [OF g] assms(3-5) by (auto simp: exec_topsort_def on_graph_def)
qed

theorem topsort_correct_witness:
  "\<exists>r ord. table_graph insertion_qsort [2, 0] [0, 1] 3 r \<and>
     exec_topsort calm (\<lambda>_. 0) (Some (plain_ext r 0)) = Some (Inr [(''_node'', nodes 3), (''_order'', ord)]) \<and> ord ! 2 < ord ! 0 \<and> ord ! 0 < ord ! 1"
proof -
  obtain r where r: "table_graph insertion_qsort [2, 0] [0, 1] 3 r"
    using table_graph_exists [OF ins.libc_qsort_axioms, of 3 "[2, 0]" "[0, 1]"] by auto
  have "(u, v) \<in> (set (zip [2, 0] [0, 1]))\<^sup>+ \<Longrightarrow> (u, v) \<in> {(2, 0), (0, 1), (2, 1)}" for u v :: int
    by (induction rule: trancl_induct) auto
  then have "acyclic (set (zip [2, 0] [0, 1]) :: (int \<times> int) set)" unfolding acyclic_def by fastforce
  then show ?thesis
    using topsort_correct [OF ins.libc_qsort_axioms r calm_env(5,1,2,3), of "\<lambda>_. 0" 0] r by auto
qed

section \<open>Breadth-first search\<close>

text \<open>The number of steps that lead from a node to another, and what is reached within \<open>k\<close> steps.\<close>

definition hops :: "(int \<times> int) set \<Rightarrow> int \<Rightarrow> int \<Rightarrow> nat \<Rightarrow> bool" where
  "hops S s v k \<longleftrightarrow> (s, v) \<in> S ^^ k \<and> (\<forall>i < k. (s, v) \<notin> S ^^ i)"

definition nearby :: "(int \<times> int) set \<Rightarrow> int \<Rightarrow> nat \<Rightarrow> int set" where
  "nearby S s k = {v. \<exists>i \<le> k. (s, v) \<in> S ^^ i}"

lemma hops_exists: "(s, v) \<in> S ^^ k \<Longrightarrow> \<exists>j \<le> k. hops S s v j"
proof -
  assume "(s, v) \<in> S ^^ k"
  then have "hops S s v (LEAST i. (s, v) \<in> S ^^ i) \<and> (LEAST i. (s, v) \<in> S ^^ i) \<le> k"
    unfolding hops_def by (metis (mono_tags, lifting) LeastI Least_le not_less_Least)
  then show ?thesis by blast
qed

lemma hops_unique: "hops S s v i \<Longrightarrow> hops S s v j \<Longrightarrow> i = j"
  unfolding hops_def by (metis linorder_neqE_nat)

lemma hops_nearby: "hops S s v i \<Longrightarrow> v \<in> nearby S s k \<longleftrightarrow> i \<le> k"
  unfolding hops_def nearby_def by (auto simp: not_less [symmetric])

lemma nearby_hops: "v \<in> nearby S s k \<longleftrightarrow> (\<exists>i \<le> k. hops S s v i)"
proof
  assume "v \<in> nearby S s k"
  then obtain i where i: "i \<le> k" "(s, v) \<in> S ^^ i" by (auto simp: nearby_def)
  then show "\<exists>i \<le> k. hops S s v i" using hops_exists [OF i(2)] order_trans by blast
qed (auto simp: nearby_def hops_def)

lemma nearby_mono: "k \<le> k' \<Longrightarrow> nearby S s k \<subseteq> nearby S s k'"
  unfolding nearby_def by (blast intro: order_trans)

lemma nearby_0 [simp]: "nearby S s 0 = {s}"
  by (auto simp: nearby_def)

lemma hops_self [simp]: "hops S s s k \<longleftrightarrow> k = 0"
proof
  assume "hops S s s k"
  moreover have "hops S s s 0" by (simp add: hops_def)
  ultimately show "k = 0" by (rule hops_unique)
qed (simp add: hops_def)

lemma step_nearby: "u \<in> nearby S s k \<Longrightarrow> (u, v) \<in> S \<Longrightarrow> v \<in> nearby S s (Suc k)"
  unfolding nearby_def by (auto intro: relpow_Suc_I simp del: relpow.simps)

lemma hops_step:
  assumes "hops S s u k" "(u, v) \<in> S" "v \<notin> nearby S s k"
  shows "hops S s v (Suc k)"
proof -
  have "v \<in> nearby S s (Suc k)" using step_nearby assms(1,2) hops_nearby [OF assms(1)] by blast
  then obtain i where "i \<le> Suc k" "hops S s v i" by (auto simp: nearby_hops)
  moreover have "\<not> i \<le> k" using assms(3) calculation(2) by (auto simp: nearby_hops)
  ultimately show ?thesis by (simp add: le_Suc_eq)
qed

lemma hops_back:
  assumes "hops S s v (Suc k)"
  obtains u where "hops S s u k" "(u, v) \<in> S"
proof -
  obtain u where u: "(s, u) \<in> S ^^ k" "(u, v) \<in> S" using assms by (auto simp: hops_def)
  obtain j where j: "j \<le> k" "hops S s u j" using hops_exists [OF u(1)] by blast
  have "(s, v) \<in> S ^^ Suc j" using j(2) u(2) by (auto simp: hops_def)
  then have "\<not> Suc j < Suc k" using assms by (auto simp: hops_def simp del: relpow.simps)
  then show ?thesis using that [of u] j u(2) by simp
qed

text \<open>The steps the search takes, and the tree of the parents: every node was reached from one a step nearer.\<close>

definition steps :: "csr_index list \<Rightarrow> int \<Rightarrow> (int \<times> int) set" where
  "steps gs n = {(u, v). 0 \<le> u \<and> u < n \<and> 0 \<le> v \<and> v < n \<and> (\<exists>g \<in> set gs. \<exists>row. csr_nbrs g u = Some row \<and> v \<in> set row)}"

definition vis :: "int list \<Rightarrow> int \<Rightarrow> int set" where
  "vis parent n = {v \<in> {0..<n}. parent ! nat v \<noteq> - 1}"

definition tree_ok :: "(int \<times> int) set \<Rightarrow> int \<Rightarrow> int \<Rightarrow> int list \<Rightarrow> bool" where
  "tree_ok S s n parent \<longleftrightarrow> length parent = nat n \<and>
     (\<forall>v \<in> vis parent n. v \<noteq> s \<longrightarrow> (\<exists>k. hops S s (parent ! nat v) k \<and> hops S s v (Suc k)) \<and> (parent ! nat v, v) \<in> S \<and> parent ! nat v \<in> vis parent n)"

lemma vis_update:
  "length parent = nat n \<Longrightarrow> 0 \<le> v \<Longrightarrow> v < n \<Longrightarrow> u \<noteq> - 1 \<Longrightarrow> vis (parent[nat v := u]) n = insert v (vis parent n)"
  by (auto simp: vis_def nth_list_update eq_nat_nat_iff)

lemma tree_grow:
  assumes "tree_ok S s n parent" "0 \<le> v" "v < n" "v \<notin> vis parent n" "u \<in> vis parent n" "(u, v) \<in> S" "hops S s u k" "hops S s v (Suc k)"
  shows "tree_ok S s n (parent[nat v := u])" "vis (parent[nat v := u]) n = insert v (vis parent n)"
proof -
  have u: "0 \<le> u" using assms(5) by (simp add: vis_def)
  have len: "length parent = nat n" using assms(1) by (simp add: tree_ok_def)
  show e: "vis (parent[nat v := u]) n = insert v (vis parent n)" using vis_update [OF len assms(2,3), of u] u by simp
  have nth: "parent[nat v := u] ! nat w = (if w = v then u else parent ! nat w)" if "w \<in> insert v (vis parent n)" for w
    using that assms(2,3) len by (auto simp: vis_def nth_list_update eq_nat_nat_iff)
  show "tree_ok S s n (parent[nat v := u])"
    using assms unfolding tree_ok_def e by (auto simp: nth)
qed

text \<open>
  While a level is expanded: the queue holds what was reached, all of it within the level and the next, and
  not the destination.
\<close>

definition bfs_inv :: "(int \<times> int) set \<Rightarrow> int \<Rightarrow> int \<Rightarrow> int \<Rightarrow> nat \<Rightarrow> int list \<Rightarrow> int list \<Rightarrow> bool" where
  "bfs_inv S s n dst k parent q \<longleftrightarrow> tree_ok S s n parent \<and> distinct q \<and> set q = vis parent n \<and> dst \<notin> set q \<and>
     nearby S s k \<subseteq> set q \<and> set q \<subseteq> nearby S s (Suc k)"

definition bfs_found :: "(int \<times> int) set \<Rightarrow> int \<Rightarrow> int \<Rightarrow> int \<Rightarrow> nat \<Rightarrow> int list \<Rightarrow> bool" where
  "bfs_found S s n dst k parent \<longleftrightarrow> tree_ok S s n parent \<and> dst \<in> vis parent n \<and> hops S s dst (Suc k)"

lemma bfs_add:
  assumes inv: "bfs_inv S s n dst k parent q" and u: "hops S s u k" and v: "0 \<le> v" "v < n" "parent ! nat v = - 1" "(u, v) \<in> S"
  shows "v \<notin> set q" "length q < nat n" "hops S s v (Suc k)" "tree_ok S s n (parent[nat v := u])" "vis (parent[nat v := u]) n = insert v (set q)"
    "v \<noteq> dst \<Longrightarrow> bfs_inv S s n dst k (parent[nat v := u]) (q @ [v])" "v = dst \<Longrightarrow> bfs_found S s n dst k (parent[nat v := u])"
proof -
  have q: "distinct q" "set q = vis parent n" "dst \<notin> set q" "nearby S s k \<subseteq> set q" "set q \<subseteq> nearby S s (Suc k)" "tree_ok S s n parent"
    using inv unfolding bfs_inv_def by blast+
  show nv: "v \<notin> set q" using v(3) by (simp add: q(2) vis_def)
  then have "set q \<subseteq> {0..<n} - {v}" unfolding q(2) vis_def by auto
  then have "card (set q) \<le> card ({0..<n} - {v})" by (intro card_mono) auto
  then show "length q < nat n" using v(1,2) distinct_card [OF q(1)] by (simp add: card_Diff_singleton)
  show h: "hops S s v (Suc k)" using hops_step [OF u v(4)] nv q(4) by blast
  have uq: "u \<in> vis parent n" using hops_nearby [OF u, of k] q(2,4) by auto
  note grow = tree_grow [OF q(6) v(1,2) _ uq v(4) u h]
  show t: "tree_ok S s n (parent[nat v := u])" and e: "vis (parent[nat v := u]) n = insert v (set q)" using grow nv by (simp_all add: q(2))
  have "v \<in> nearby S s (Suc k)" using hops_nearby [OF h, of "Suc k"] by simp
  then show "v \<noteq> dst \<Longrightarrow> bfs_inv S s n dst k (parent[nat v := u]) (q @ [v])" using q t e nv by (auto simp: bfs_inv_def)
  show "v = dst \<Longrightarrow> bfs_found S s n dst k (parent[nat v := u])" using t e h by (simp add: bfs_found_def)
qed

lemma sp_row_ok:
  assumes "bfs_inv S s n dst k parent q" "hops S s u k" "\<forall>v \<in> set row. 0 \<le> v \<and> v < n \<longrightarrow> (u, v) \<in> S" "\<forall>c. room_ok E c" "n \<le> 2 ^ 62"
  shows "\<exists>st parent' new cap'. sp_row E n dst u row (parent, q, cap) = (st, parent', q @ new, cap') \<and>
    (st = Going \<and> bfs_inv S s n dst k parent' (q @ new) \<and> (\<forall>v \<in> set row. 0 \<le> v \<and> v < n \<longrightarrow> v \<in> set (q @ new)) \<or>
     st = Found \<and> bfs_found S s n dst k parent')"
  using assms(1,3)
proof (induction row arbitrary: parent q cap)
  case Nil
  then show ?case by (intro exI [of _ Going] exI [of _ parent] exI [of _ "[]"] exI [of _ cap]) simp
next
  case (Cons v row)
  have tail: "\<forall>v \<in> set row. 0 \<le> v \<and> v < n \<longrightarrow> (u, v) \<in> S" using Cons.prems(2) by simp
  show ?case
  proof (cases "v < 0 \<or> n \<le> v \<or> parent ! nat v \<noteq> - 1")
    case True
    then have step: "sp_row E n dst u (v # row) (parent, q, cap) = sp_row E n dst u row (parent, q, cap)" by auto
    have "0 \<le> v \<and> v < n \<longrightarrow> v \<in> set q" using True Cons.prems(1) by (auto simp: bfs_inv_def vis_def)
    then show ?thesis unfolding step using Cons.IH [OF Cons.prems(1) tail, of cap] by fastforce
  next
    case False
    then have v: "0 \<le> v" "v < n" "parent ! nat v = - 1" "(u, v) \<in> S" using Cons.prems(2) by auto
    note add = bfs_add [OF Cons.prems(1) assms(2) v]
    show ?thesis
    proof (cases "v = dst")
      case True
      then have "sp_row E n dst u (v # row) (parent, q, cap) = (Found, parent[nat v := u], q @ [], cap)" using v by (simp add: Let_def)
      then show ?thesis using add(7) [OF True] by blast
    next
      case nd: False
      define cap1 where "cap1 = (if cap \<le> length q then cap * 2 else cap)"
      have "\<not> (cap \<le> length q \<and> INT64_MAX div 2 < int cap)" using add(2) assms(5) by auto
      then have step: "sp_row E n dst u (v # row) (parent, q, cap) = sp_row E n dst u row (parent[nat v := u], q @ [v], cap1)"
        using v nd assms(4) by (simp add: Let_def cap1_def)
      obtain st parent' new cap' where r: "sp_row E n dst u row (parent[nat v := u], q @ [v], cap1) = (st, parent', (q @ [v]) @ new, cap')"
        "st = Going \<and> bfs_inv S s n dst k parent' ((q @ [v]) @ new) \<and> (\<forall>w \<in> set row. 0 \<le> w \<and> w < n \<longrightarrow> w \<in> set ((q @ [v]) @ new)) \<or>
         st = Found \<and> bfs_found S s n dst k parent'"
        using Cons.IH [OF add(6) [OF nd] tail, of cap1] by blast
      show ?thesis unfolding step using r by (intro exI [of _ st] exI [of _ parent'] exI [of _ "v # new"] exI [of _ cap']) auto
    qed
  qed
qed

lemma sp_level_ok:
  assumes "bfs_inv S s n dst k parent q" "\<forall>(u, g) \<in> set ps. hops S s u k \<and> g \<in> set gs \<and> (\<exists>row. csr_nbrs g u = Some row) \<and> 0 \<le> u \<and> u < n"
    and "S = steps gs n" "\<forall>c. room_ok E c" "n \<le> 2 ^ 62"
  shows "\<exists>st parent' new cap'. sp_level E n dst ps (parent, q, cap) = Some (st, parent', q @ new, cap') \<and>
    (st = Going \<and> bfs_inv S s n dst k parent' (q @ new) \<and> (\<forall>(u, g) \<in> set ps. \<forall>v \<in> set (the (csr_nbrs g u)). 0 \<le> v \<and> v < n \<longrightarrow> v \<in> set (q @ new)) \<or>
     st = Found \<and> bfs_found S s n dst k parent')"
  using assms(1,2)
proof (induction ps arbitrary: parent q cap)
  case Nil
  then show ?case by (intro exI [of _ Going] exI [of _ parent] exI [of _ "[]"] exI [of _ cap]) simp
next
  case (Cons p ps)
  obtain u g where p: "p = (u, g)" by (cases p)
  obtain row where row: "csr_nbrs g u = Some row" and u: "hops S s u k" "g \<in> set gs" "0 \<le> u" "u < n" using Cons.prems(2) by (auto simp: p)
  have S: "\<forall>v \<in> set row. 0 \<le> v \<and> v < n \<longrightarrow> (u, v) \<in> S" using row u by (auto simp: assms(3) steps_def)
  obtain st parent1 new1 cap1 where r: "sp_row E n dst u row (parent, q, cap) = (st, parent1, q @ new1, cap1)"
    "st = Going \<and> bfs_inv S s n dst k parent1 (q @ new1) \<and> (\<forall>v \<in> set row. 0 \<le> v \<and> v < n \<longrightarrow> v \<in> set (q @ new1)) \<or>
     st = Found \<and> bfs_found S s n dst k parent1"
    using sp_row_ok [OF Cons.prems(1) u(1) S assms(4,5), of cap] by blast
  show ?case
  proof (cases "st = Going")
    case False
    then have "sp_level E n dst (p # ps) (parent, q, cap) = Some (Found, parent1, q @ new1, cap1)" using r row by (auto simp: p)
    then show ?thesis using r(2) False by blast
  next
    case True
    then have g: "bfs_inv S s n dst k parent1 (q @ new1)" "\<forall>v \<in> set row. 0 \<le> v \<and> v < n \<longrightarrow> v \<in> set (q @ new1)" using r(2) by auto
    obtain st' parent' new cap' where l: "sp_level E n dst ps (parent1, q @ new1, cap1) = Some (st', parent', (q @ new1) @ new, cap')"
      "st' = Going \<and> bfs_inv S s n dst k parent' ((q @ new1) @ new) \<and> (\<forall>(u, g) \<in> set ps. \<forall>v \<in> set (the (csr_nbrs g u)). 0 \<le> v \<and> v < n \<longrightarrow> v \<in> set ((q @ new1) @ new)) \<or>
       st' = Found \<and> bfs_found S s n dst k parent'"
      using Cons.IH [OF g(1), of cap1] Cons.prems(2) by auto
    have "sp_level E n dst (p # ps) (parent, q, cap) = Some (st', parent', q @ new1 @ new, cap')" using r(1) row l(1) True by (simp add: p)
    moreover have "st' = Going \<and> bfs_inv S s n dst k parent' (q @ new1 @ new) \<and>
        (\<forall>(u, g) \<in> set (p # ps). \<forall>v \<in> set (the (csr_nbrs g u)). 0 \<le> v \<and> v < n \<longrightarrow> v \<in> set (q @ new1 @ new)) \<or>
        st' = Found \<and> bfs_found S s n dst k parent'"
      using l(2) g(2) row by (auto simp: p)
    ultimately show ?thesis by blast
  qed
qed

text \<open>Every row of the directions searched can be read.\<close>

definition rows_read :: "csr_index list \<Rightarrow> int \<Rightarrow> bool" where
  "rows_read gs n \<longleftrightarrow> (\<forall>g \<in> set gs. \<forall>u \<in> {0..<n}. \<exists>row. csr_nbrs g u = Some row)"

lemma level_done:
  assumes S: "S = steps gs n" and old: "nearby S s k \<subseteq> set q" "set q' \<subseteq> nearby S s (Suc k)" "set q \<subseteq> set q'"
    and cov: "\<And>u g v. hops S s u k \<Longrightarrow> g \<in> set gs \<Longrightarrow> v \<in> set (the (csr_nbrs g u)) \<Longrightarrow> 0 \<le> v \<Longrightarrow> v < n \<Longrightarrow> v \<in> set q'"
  shows "set q' = nearby S s (Suc k)"
proof
  show "nearby S s (Suc k) \<subseteq> set q'"
  proof
    fix v assume "v \<in> nearby S s (Suc k)"
    then obtain i where i: "i \<le> Suc k" "hops S s v i" by (auto simp: nearby_hops)
    show "v \<in> set q'"
    proof (cases "i = Suc k")
      case True
      then obtain u where u: "hops S s u k" "(u, v) \<in> S" using hops_back i(2) by blast
      then show ?thesis using cov [OF u(1)] by (auto simp: S steps_def)
    next
      case False
      then have "i \<le> k" using i(1) by simp
      then have "v \<in> nearby S s k" using i(2) by (auto simp: nearby_hops)
      then show ?thesis using old by blast
    qed
  qed
qed (rule old(2))

lemma sp_loop_ok:
  assumes S: "S = steps gs n" and rows: "rows_read gs n" and E: "\<forall>c. room_ok E c" "\<forall>j. \<not> stop E j" "n \<le> 2 ^ 62"
  shows "bfs_inv S s n dst k parent q \<Longrightarrow> set q = nearby S s k \<Longrightarrow> set (drop qs q) = {u. hops S s u k} \<Longrightarrow>
    \<exists>found parent'. sp_loop E n dst gs m depth qs (parent, q, cap) = Some (Inr (found, parent')) \<and>
      (found \<longleftrightarrow> dst \<in> nearby S s (k + m)) \<and> (found \<longrightarrow> tree_ok S s n parent' \<and> dst \<in> vis parent' n)"
proof (induction m arbitrary: k parent q qs cap depth)
  case 0
  then show ?case by (auto simp: bfs_inv_def)
next
  case (Suc m)
  let ?ps = "List.product (drop qs q) gs"
  have rng: "0 \<le> u \<and> u < n" if "hops S s u k" for u
  proof -
    have "u \<in> set (drop qs q)" using Suc.prems(3) that by simp
    then have "u \<in> set q" by (rule in_set_dropD)
    then show ?thesis using Suc.prems(1) unfolding bfs_inv_def vis_def by auto
  qed
  have ps: "\<forall>(u, g) \<in> set ?ps. hops S s u k \<and> g \<in> set gs \<and> (\<exists>row. csr_nbrs g u = Some row) \<and> 0 \<le> u \<and> u < n"
    using Suc.prems(3) rng rows by (auto simp: rows_read_def)
  obtain st parent' new cap' where l: "sp_level E n dst ?ps (parent, q, cap) = Some (st, parent', q @ new, cap')"
    "st = Going \<and> bfs_inv S s n dst k parent' (q @ new) \<and> (\<forall>(u, g) \<in> set ?ps. \<forall>v \<in> set (the (csr_nbrs g u)). 0 \<le> v \<and> v < n \<longrightarrow> v \<in> set (q @ new)) \<or>
     st = Found \<and> bfs_found S s n dst k parent'"
    using sp_level_ok [OF Suc.prems(1) ps S E(1,3), of cap] by blast
  show ?case
  proof (cases "st = Going")
    case False
    then have f: "bfs_found S s n dst k parent'" "st = Found" using l(2) by auto
    then have "dst \<in> nearby S s (k + Suc m)" using hops_nearby [of S s dst "Suc k" "k + Suc m"] by (simp add: bfs_found_def)
    then show ?thesis using f l(1) E(2) by (intro exI [of _ True] exI [of _ parent']) (simp add: bfs_found_def)
  next
    case True
    then have g: "bfs_inv S s n dst k parent' (q @ new)"
      "\<forall>(u, g) \<in> set ?ps. \<forall>v \<in> set (the (csr_nbrs g u)). 0 \<le> v \<and> v < n \<longrightarrow> v \<in> set (q @ new)" using l(2) by auto
    have sub: "set (q @ new) \<subseteq> nearby S s (Suc k)" "distinct (q @ new)" using g(1) unfolding bfs_inv_def by blast+
    have all: "set (q @ new) = nearby S s (Suc k)"
    proof (rule level_done [OF S _ sub(1)])
      show "nearby S s k \<subseteq> set q" using Suc.prems(2) by simp
      fix u g v assume "hops S s u k" "g \<in> set gs" "v \<in> set (the (csr_nbrs g u))" "0 \<le> v" "v < n"
      moreover from this have "(u, g) \<in> set ?ps" using Suc.prems(3) by simp
      ultimately show "v \<in> set (q @ new)" using g(2) by blast
    qed simp
    have "set new = nearby S s (Suc k) - nearby S s k" using all sub(2) Suc.prems(2) by auto
    also have "\<dots> = {u. hops S s u (Suc k)}"
      by (auto simp: nearby_hops le_Suc_eq dest: hops_unique) (metis hops_unique Suc_n_not_le_n)
    finally have new: "set (drop (length q) (q @ new)) = {u. hops S s u (Suc k)}" by simp
    have inv: "bfs_inv S s n dst (Suc k) parent' (q @ new)"
      using g(1) all nearby_mono [of "Suc k" "Suc (Suc k)" S s] unfolding bfs_inv_def by auto
    show ?thesis using Suc.IH [OF inv all new, of "depth + 1" cap'] l(1) True E(2) by simp
  qed
qed

text \<open>The way back along the parents is a shortest path.\<close>

lemma sp_path_ok:
  assumes t: "tree_ok S s n parent"
  shows "v \<in> vis parent n \<Longrightarrow> hops S s v j \<Longrightarrow> j \<le> fuel \<Longrightarrow>
    \<exists>p. sp_path parent s fuel v = Some (p, s) \<and> length p = j \<and> hd (rev (p @ [s])) = s \<and> last (rev (p @ [s])) = v \<and>
      successively (\<lambda>a b. (a, b) \<in> S) (rev (p @ [s]))"
proof (induction fuel arbitrary: v j)
  case 0
  then have "v = s" by (simp add: hops_def)
  then show ?case using 0 by simp
next
  case (Suc fuel)
  show ?case
  proof (cases "v = s")
    case True
    then show ?thesis using Suc.prems(2) by simp
  next
    case False
    let ?u = "parent ! nat v"
    obtain i where i: "hops S s ?u i" "hops S s v (Suc i)" "(?u, v) \<in> S" "?u \<in> vis parent n"
      using t Suc.prems(1) False unfolding tree_ok_def by blast
    then have j: "j = Suc i" using hops_unique Suc.prems(2) by blast
    obtain p where p: "sp_path parent s fuel ?u = Some (p, s)" "length p = i" "hd (rev (p @ [s])) = s" "last (rev (p @ [s])) = ?u"
      "successively (\<lambda>a b. (a, b) \<in> S) (rev (p @ [s]))"
      using Suc.IH [OF i(4,1)] Suc.prems(3) j by auto
    have "arr_at parent v = Some ?u" using t Suc.prems(1) by (auto simp: tree_ok_def vis_def)
    moreover have "successively (\<lambda>a b. (a, b) \<in> S) (rev (p @ [s]) @ [v])"
      unfolding successively_append_iff using p(4,5) i(3) by simp
    ultimately show ?thesis using False p j by (intro exI [of _ "v # p"]) simp
  qed
qed

lemma nbrs_rows:
  assumes "holds_rows g rows" "0 \<le> v" "v < int (length rows)"
  shows "csr_nbrs g v = Some (map fst (rows ! nat v))"
proof -
  have v: "nat v < length rows" using assms(2,3) by simp
  have n: "n_nodes g = int (length rows)" using assms(1) by (simp add: holds_rows_def)
  have le: "row_start rows (nat v + 1) \<le> length (concat rows)"
    using row_start_mono [of "nat v + 1" "length rows" rows] v by (simp add: row_start_all)
  have "take (length (rows ! nat v)) (drop (row_start rows (nat v)) (map fst (concat rows))) =
      map fst (slice (row_start rows (nat v)) (row_start rows (Suc (nat v))) (concat rows))"
    by (simp add: slice_def row_start_Suc [OF v] take_map drop_map take_drop add.commute)
  also have "\<dots> = map fst (rows ! nat v)" by (simp only: slice_concat [OF v])
  finally show ?thesis
    using assms v le n row_start_Suc [OF v] by (simp add: csr_nbrs_def ray_csr_neighbors_def holds_rows_def del: upt_Suc)
qed

definition dir_edges :: "nat \<Rightarrow> (int \<times> int) set \<Rightarrow> (int \<times> int) set" where
  "dir_edges dir A = (if dir = 2 then A \<union> A\<inverse> else if dir = 1 then A\<inverse> else A)"

lemma table_nbrs:
  assumes "libc_qsort qs" "table_graph qs ss ds n r" "0 \<le> v" "v < n"
  shows "csr_nbrs (fwd_index r) v = Some (succs r v)" "csr_nbrs (rev_index r) v = Some (preds r v)"
  using nbrs_rows [OF table_graph_holds(1) [OF assms(1,2)], of v] nbrs_rows [OF table_graph_holds(2) [OF assms(1,2)], of v]
    table_rows_of(1,2) [OF assms] assms(3,4) by simp_all

lemma table_steps:
  assumes "libc_qsort qs" "table_graph qs ss ds n r"
  shows "steps (dir_csrs r dir) n = dir_edges dir (set (zip ss ds))" "rows_read (dir_csrs r dir) n" "bfs_n_nodes r dir = n"
proof -
  note nb = table_nbrs [OF assms] and rows = table_rows_of(3,4) [OF assms]
  have rng: "(u, v) \<in> set (zip ss ds) \<Longrightarrow> 0 \<le> u \<and> u < n \<and> 0 \<le> v \<and> v < n" for u v using assms(2) by (auto simp: table_graph_def)
  show "steps (dir_csrs r dir) n = dir_edges dir (set (zip ss ds))"
    unfolding steps_def dir_edges_def dir_csrs_def using nb rows rng by auto
  show "rows_read (dir_csrs r dir) n" using nb by (simp add: rows_read_def dir_csrs_def)
  show "bfs_n_nodes r dir = n" using graph_nodes [OF table_graph_ok(1) [OF assms]] by (simp add: bfs_n_nodes_def)
qed

lemma sp_start:
  assumes "0 \<le> s" "s < n" "0 \<le> d" "d < n" "s \<noteq> d"
  shows "bfs_inv S s n d 0 ((replicate (nat n) (- 1))[nat s := s]) [s]" "set [s] = nearby S s 0" "set (drop 0 [s]) = {u. hops S s u 0}"
proof -
  have "vis (replicate (nat n) (- 1)) n = {}" by (auto simp: vis_def)
  then have v: "vis ((replicate (nat n) (- 1))[nat s := s]) n = {s}"
    using assms(1,2) vis_update [of "replicate (nat n) (- 1)" n s s] by simp
  show "bfs_inv S s n d 0 ((replicate (nat n) (- 1))[nat s := s]) [s]"
    using assms nearby_mono [of 0 "Suc 0" S s] unfolding bfs_inv_def tree_ok_def v by simp
  show "set [s] = nearby S s 0" "set (drop 0 [s]) = {u. hops S s u 0}" by (auto simp: hops_def)
qed

text \<open>
  C9.  The shortest path on a graph built from an edge table, along the edges, against them or both: if
  the destination can be reached within the depth limit, the result is a path over such edges from the source
  to the destination, and none is shorter; if not, the operator reports that there is no path.
\<close>

theorem shortest_path_correct:
  assumes "libc_qsort qs" "table_graph qs ss ds n r" "g_rel x = Some r" "scratch_ok E" "out_ok E" "\<forall>k. \<not> stop E k" "\<forall>c. room_ok E c"
    and "node_value src = Inr s" "node_value dst = Inr d" "0 \<le> s" "s < n" "0 \<le> d" "d < n" "max_depth x \<le> 255" "n \<le> 2 ^ 62"
  defines "S \<equiv> dir_edges (direction x) (set (zip ss ds))"
  shows "if \<exists>k \<le> max_depth x. (s, d) \<in> S ^^ k
    then \<exists>path. exec_shortest_path E (Some x) src dst = Some (Inr [(''_node'', path), (''_depth'', nodes (int (length path)))]) \<and>
           path \<noteq> [] \<and> hd path = s \<and> last path = d \<and> successively (\<lambda>a b. (a, b) \<in> S) path \<and>
           (\<forall>k. (s, d) \<in> S ^^ k \<longrightarrow> length path \<le> k + 1)
    else exec_shortest_path E (Some x) src dst = Some (Inl ''range'')"
proof (cases "s = d")
  case True
  have "\<exists>k \<le> max_depth x. (s, d) \<in> S ^^ k" using True by (intro exI [of _ 0]) simp
  moreover have "nodes 1 = [0]" by (simp add: nodes_def)
  ultimately show ?thesis
    using True assms(3,5,8-13) table_steps(3) [OF assms(1,2)] by (simp add: exec_shortest_path_def on_graph_def Let_def)
next
  case False
  let ?gs = "dir_csrs r (direction x)" and ?parent = "(replicate (nat n) (- 1))[nat s := s]"
  have S: "S = steps ?gs n" using table_steps(1) [OF assms(1,2)] by (simp add: S_def)
  obtain found parent where l: "sp_loop E n d ?gs (max_depth x) 1 0 (?parent, [s], 1024) = Some (Inr (found, parent))"
    "found \<longleftrightarrow> d \<in> nearby S s (max_depth x)" "found \<longrightarrow> tree_ok S s n parent \<and> d \<in> vis parent n"
    using sp_loop_ok [OF S table_steps(2) [OF assms(1,2)] assms(7,6,15) sp_start [OF assms(10-13) False], of "max_depth x" 1 1024] by auto
  have ex: "exec_shortest_path E (Some x) src dst =
      (if found then do {
         p \<leftarrow> sp_path parent s 255 d;
         Some (if snd p \<noteq> s then Inl ''range''
               else Inr [(''_node'', rev (fst p @ [s])), (''_depth'', nodes (int (length (rev (fst p @ [s])))))]) }
       else Some (Inl ''range''))"
    using False l(1) assms(3-5,8-13) table_steps(3) [OF assms(1,2)] by (cases found) (simp_all add: exec_shortest_path_def on_graph_def Let_def cong: if_cong)
  show ?thesis
  proof (cases found)
    case False
    then have no: "\<not> (\<exists>k \<le> max_depth x. (s, d) \<in> S ^^ k)" using l(2) by (simp add: nearby_def)
    show ?thesis unfolding if_not_P [OF no] ex using False by simp
  next
    case True
    then obtain j where j: "j \<le> max_depth x" "hops S s d j" using l(2) by (auto simp: nearby_hops)
    then obtain p where p: "sp_path parent s 255 d = Some (p, s)" "length p = j" "hd (rev (p @ [s])) = s" "last (rev (p @ [s])) = d"
      "successively (\<lambda>a b. (a, b) \<in> S) (rev (p @ [s]))"
      using sp_path_ok [of S s n parent d j 255] l(3) True assms(14) by auto
    have "j \<le> k" if "(s, d) \<in> S ^^ k" for k using j(2) that by (auto simp: hops_def not_less [symmetric])
    then show ?thesis using ex p True l(2) by (auto simp: nearby_def)
  qed
qed

theorem shortest_path_correct_witness:
  "\<exists>r. table_graph insertion_qsort [0, 1, 0, 3] [1, 2, 3, 2] 4 r \<and>
     (\<exists>path. exec_shortest_path calm (Some (plain_ext r 5)) (Node_atom 0) (Node_vec [2, 7]) =
        Some (Inr [(''_node'', path), (''_depth'', nodes (int (length path)))]) \<and> hd path = 0 \<and> last path = 2 \<and> length path \<le> 3) \<and>
     exec_shortest_path calm (Some (plain_ext r 5)) (Node_atom 2) (Node_atom 0) = Some (Inl ''range'')"
proof -
  let ?A = "set (zip [0, 1, 0, 3] [1, 2, 3, 2]) :: (int \<times> int) set"
  obtain r where r: "table_graph insertion_qsort [0, 1, 0, 3] [1, 2, 3, 2] 4 r"
    using table_graph_exists [OF ins.libc_qsort_axioms, of 4 "[0, 1, 0, 3]" "[1, 2, 3, 2]"] by auto
  have S: "dir_edges (direction (plain_ext r 5)) ?A = ?A" by (simp add: dir_edges_def calm_env)
  have two: "(0, 2) \<in> ?A ^^ 2" by (auto simp: numeral_2_eq_2 relcomp_unfold)
  have none: "(2, 0) \<notin> ?A ^^ k" for k
  proof
    assume "(2, 0) \<in> ?A ^^ k"
    then show False by (cases k) (auto dest!: relpow_Suc_D2)
  qed
  note correct = shortest_path_correct [OF ins.libc_qsort_axioms r calm_env(5,1,2,3,4), of _ _ _ _ 5, unfolded S]
  have "\<exists>k \<le> max_depth (plain_ext r 5). (0, 2) \<in> ?A ^^ k" using two by (intro exI [of _ 2]) (simp add: calm_env)
  then obtain path where "exec_shortest_path calm (Some (plain_ext r 5)) (Node_atom 0) (Node_vec [2, 7]) =
      Some (Inr [(''_node'', path), (''_depth'', nodes (int (length path)))])" "hd path = 0" "last path = 2" "\<forall>k. (0, 2) \<in> ?A ^^ k \<longrightarrow> length path \<le> k + 1"
    using correct [of "Node_atom 0" 0 "Node_vec [2, 7]" 2] by (auto simp: node_value_def calm_env(7) simp del: zip_Cons_Cons)
  moreover have "exec_shortest_path calm (Some (plain_ext r 5)) (Node_atom 2) (Node_atom 0) = Some (Inl ''range'')"
    using correct [of "Node_atom 2" 2 "Node_atom 0" 0] none by (simp add: node_value_def calm_env(7) del: zip_Cons_Cons)
  ultimately show ?thesis using r two by fastforce
qed

section \<open>Depth-first order\<close>

text \<open>
  An entry that may be visited: the start, or a successor of a node that was visited one level above, within the
  depth limit.
\<close>

definition dfs_entry_ok :: "(int \<times> int) set \<Rightarrow> int \<Rightarrow> int \<Rightarrow> dfs_entry list \<Rightarrow> dfs_entry \<Rightarrow> bool" where
  "dfs_entry_ok A start md res = (\<lambda>(v, d, p). (v, d, p) = (start, 0, - 1) \<or>
     (\<exists>d' p'. (p, d', p') \<in> set res \<and> d = d' + 1 \<and> (p, v) \<in> A \<and> d \<le> md))"

definition degree_sum :: "relation \<Rightarrow> int set \<Rightarrow> nat" where
  "degree_sum r V = (\<Sum>v \<in> V. length (succs r v))"

definition dfs_inv :: "relation \<Rightarrow> int \<Rightarrow> int \<Rightarrow> int \<Rightarrow> dfs_entry list \<Rightarrow> bool list \<Rightarrow> dfs_entry list \<Rightarrow> bool" where
  "dfs_inv r n start md st vs res \<longleftrightarrow> length vs = nat n \<and> distinct (map fst res) \<and>
     fst ` set res \<subseteq> {0..<n} \<and> fst ` set st \<subseteq> {0..<n} \<and> (\<forall>v \<in> {0..<n}. vs ! nat v \<longleftrightarrow> v \<in> fst ` set res) \<and>
     (\<forall>e \<in> set st. dfs_entry_ok (arcs r n) start md res e) \<and>
     (\<forall>i < length res. dfs_entry_ok (arcs r n) start md (take i res) (res ! i)) \<and>
     (if res = [] then st = [(start, 0, - 1)] else hd res = (start, 0, - 1)) \<and>
     length st \<le> 1 + degree_sum r (fst ` set res) \<and>
     (\<forall>(v, d, p) \<in> set res. d < md \<longrightarrow> set (succs r v) \<subseteq> fst ` set res \<union> fst ` set st)"

lemma dfs_push_ok:
  assumes "set us \<subseteq> {0..<int (length vs)}" "length st + length us \<le> cap"
  shows "\<exists>new. dfs_push cap vs v d us st = Some (new @ st) \<and> length new \<le> length us \<and>
    set new = {(u, d + 1, v) |u. u \<in> set us \<and> \<not> vs ! nat u}"
  using assms
proof (induction us arbitrary: st)
  case (Cons u us)
  have u: "arr_at vs u = Some (vs ! nat u)" using Cons.prems(1) by simp
  show ?case
  proof (cases "vs ! nat u")
    case True
    obtain new where "dfs_push cap vs v d us st = Some (new @ st)" "length new \<le> length us"
      "set new = {(u, d + 1, v) |u. u \<in> set us \<and> \<not> vs ! nat u}"
      using Cons.IH [of st] Cons.prems by auto
    then show ?thesis using u True by (intro exI [of _ new]) auto
  next
    case False
    obtain new where "dfs_push cap vs v d us ((u, d + 1, v) # st) = Some (new @ (u, d + 1, v) # st)" "length new \<le> length us"
      "set new = {(u, d + 1, v) |u. u \<in> set us \<and> \<not> vs ! nat u}"
      using Cons.IH [of "(u, d + 1, v) # st"] Cons.prems by auto
    then show ?thesis using u False Cons.prems(2) by (intro exI [of _ "new @ [(u, d + 1, v)]"]) auto
  qed
qed simp

lemma degree_sum_le:
  assumes "V \<subseteq> {0..<n}"
  shows "degree_sum r V \<le> degree_sum r {0..<n}"
  unfolding degree_sum_def using assms by (intro sum_mono2) auto

lemma dfs_seen:
  assumes inv: "dfs_inv r n start md ((v, d, p) # st) vs res" and v: "v \<in> fst ` set res"
  shows "dfs_inv r n start md st vs res"
proof -
  have "insert v (fst ` set res \<union> fst ` set st) = fst ` set res \<union> fst ` set st" using v by blast
  moreover have "res \<noteq> []" using v by auto
  ultimately show ?thesis using inv unfolding dfs_inv_def by simp
qed

lemma dfs_visit:
  assumes g: "graph_ok r n" and inv: "dfs_inv r n start md ((v, d, p) # st) vs res" and v: "v \<notin> fst ` set res"
    and cap: "1 + degree_sum r {0..<n} \<le> cap"
  shows "\<exists>new. (if d < md then do { row \<leftarrow> csr_row (fwd_index r) v; dfs_push cap (vs[nat v := True]) v d (rev row) st } else Some st) = Some (new @ st) \<and>
    dfs_inv r n start md (new @ st) (vs[nat v := True]) (res @ [(v, d, p)]) \<and> length res < length vs"
proof -
  have rng: "0 \<le> v" "v < n" using inv by (auto simp: dfs_inv_def)
  have len: "length vs = nat n" and di: "distinct (map fst res)" and sub: "fst ` set res \<subseteq> {0..<n}" "fst ` set st \<subseteq> {0..<n}"
    and seen: "\<forall>w \<in> {0..<n}. vs ! nat w \<longleftrightarrow> w \<in> fst ` set res"
    and st: "\<forall>e \<in> set ((v, d, p) # st). dfs_entry_ok (arcs r n) start md res e"
    and past: "\<forall>i < length res. dfs_entry_ok (arcs r n) start md (take i res) (res ! i)"
    and hd: "if res = [] then (v, d, p) # st = [(start, 0, - 1)] else hd res = (start, 0, - 1)"
    and bound: "length st \<le> degree_sum r (fst ` set res)"
    and closed: "\<forall>(w, e, q) \<in> set res. e < md \<longrightarrow> set (succs r w) \<subseteq> insert v (fst ` set res \<union> fst ` set st)"
    using inv unfolding dfs_inv_def by simp_all
  let ?vs = "vs[nat v := True]" and ?V = "insert v (fst ` set res)"
  have seen': "\<forall>w \<in> {0..<n}. ?vs ! nat w \<longleftrightarrow> w \<in> ?V" using seen len rng by (auto simp: nth_list_update eq_nat_nat_iff)
  have dsum: "degree_sum r ?V = length (succs r v) + degree_sum r (fst ` set res)" using v by (simp add: degree_sum_def)
  have "degree_sum r ?V \<le> degree_sum r {0..<n}" using sub(1) rng by (intro degree_sum_le) auto
  then have fit: "length st + length (succs r v) \<le> cap" using bound dsum cap by linarith
  have row: "csr_row (fwd_index r) v = Some (succs r v)" "set (succs r v) \<subseteq> {0..<n}" using graph_rows [OF g rng] by auto
  obtain new where new: "dfs_push cap ?vs v d (rev (succs r v)) st = Some (new @ st)" "length new \<le> length (succs r v)"
    "set new = {(u, d + 1, v) |u. u \<in> set (succs r v) \<and> \<not> ?vs ! nat u}"
    using dfs_push_ok [of "rev (succs r v)" ?vs st cap v d] row(2) len fit rng by auto
  define nw where "nw = (if d < md then new else [])"
  have nw: "\<forall>e \<in> set nw. dfs_entry_ok (arcs r n) start md (res @ [(v, d, p)]) e" "length nw \<le> length (succs r v)" "fst ` set nw \<subseteq> {0..<n}"
    "d < md \<Longrightarrow> set (succs r v) \<subseteq> ?V \<union> fst ` set nw"
    using new(2,3) rng row(2) seen' by (auto simp: nw_def dfs_entry_ok_def arcs_def image_iff)
  have "length (map fst res) = card (fst ` set res)" using distinct_card [OF di] by simp
  also have "\<dots> \<le> card ({0..<n} - {v})" using sub(1) v by (intro card_mono) auto
  finally have less: "length res < length vs" using len rng by (simp add: card_Diff_singleton)
  have past': "dfs_entry_ok (arcs r n) start md (take i (res @ [(v, d, p)])) ((res @ [(v, d, p)]) ! i)" if "i < length (res @ [(v, d, p)])" for i
    using that past st by (cases "i = length res") (simp_all add: nth_append)
  have st': "dfs_entry_ok (arcs r n) start md (res @ [(v, d, p)]) e" if "e \<in> set (nw @ st)" for e
  proof (cases "e \<in> set nw")
    case False
    then have "dfs_entry_ok (arcs r n) start md res e" using st that by simp
    then show ?thesis unfolding dfs_entry_ok_def by (cases e) auto
  qed (use nw(1) in blast)
  have closed': "set (succs r w) \<subseteq> ?V \<union> fst ` set (nw @ st)" if "(w, e, q) \<in> set (res @ [(v, d, p)])" "e < md" for w e q
  proof (cases "(w, e, q) \<in> set res")
    case True
    then have "set (succs r w) \<subseteq> insert v (fst ` set res \<union> fst ` set st)" using closed that(2) by blast
    then show ?thesis by auto
  next
    case False
    then show ?thesis using that nw(4) by auto
  qed
  have set_eq: "fst ` set (res @ [(v, d, p)]) = ?V" by simp
  have "dfs_inv r n start md (nw @ st) ?vs (res @ [(v, d, p)])"
    unfolding dfs_inv_def set_eq
  proof (intro conjI ballI)
    show "length (nw @ st) \<le> 1 + degree_sum r ?V" using nw(2) bound dsum by simp
    show "if res @ [(v, d, p)] = [] then nw @ st = [(start, 0, - 1)] else hd (res @ [(v, d, p)]) = (start, 0, - 1)"
      using hd by (cases "res = []") auto
    show "\<forall>i < length (res @ [(v, d, p)]). dfs_entry_ok (arcs r n) start md (take i (res @ [(v, d, p)])) ((res @ [(v, d, p)]) ! i)"
      using past' by blast
    show "case e of (w, e, q) \<Rightarrow> e < md \<longrightarrow> set (succs r w) \<subseteq> ?V \<union> fst ` set (nw @ st)" if "e \<in> set (res @ [(v, d, p)])" for e
    proof -
      obtain w a q where "e = (w, a, q)" by (cases e)
      then show ?thesis using that closed' [of w a q] by simp
    qed
    show "?vs ! nat w = (w \<in> ?V)" if "w \<in> {0..<n}" for w using seen' that by blast
    show "fst ` set (nw @ st) \<subseteq> {0..<n}" using nw(3) sub(2) by (simp add: image_Un)
  qed (use len di v sub rng st' in auto)
  then show ?thesis using new(1) row(1) less by (intro exI [of _ nw]) (simp add: nw_def)
qed


lemma dfs_loop_ok:
  assumes g: "graph_ok r n" and cap: "1 + degree_sum r {0..<n} \<le> cap" and E: "\<forall>j. \<not> stop E j"
  shows "dfs_inv r n start md st vs res \<Longrightarrow>
    \<exists>vs' res'. dfs_loop E r cap md k st vs res = Some (Inr res') \<and> dfs_inv r n start md [] vs' res'"
proof (induction "nat n - length res" arbitrary: st vs res k rule: less_induct)
  case less
  show ?case using less.prems
  proof (induction st arbitrary: k)
    case Nil
    then show ?case by (intro exI [of _ vs] exI [of _ res]) (simp add: dfs_loop.simps)
  next
    case (Cons e st)
    obtain v d p where e: "e = (v, d, p)" by (cases e)
    have inv: "dfs_inv r n start md ((v, d, p) # st) vs res" using Cons.prems e by simp
    then have rng: "0 \<le> v" "v < n" "length vs = nat n" "vs ! nat v \<longleftrightarrow> v \<in> fst ` set res" unfolding dfs_inv_def by auto
    then have seen: "arr_at vs v = Some (v \<in> fst ` set res)" by simp
    show ?case
    proof (cases "v \<in> fst ` set res")
      case True
      then show ?thesis using Cons.IH [OF dfs_seen [OF inv True], of "k + 1"] seen E unfolding e
        by (subst dfs_loop.simps) simp
    next
      case False
      obtain new where new: "(if d < md then do { row \<leftarrow> csr_row (fwd_index r) v; dfs_push cap (vs[nat v := True]) v d (rev row) st } else Some st) = Some (new @ st)"
        "dfs_inv r n start md (new @ st) (vs[nat v := True]) (res @ [(v, d, p)])" "length res < length vs"
        using dfs_visit [OF g inv False cap] by blast
      have "nat n - length (res @ [(v, d, p)]) < nat n - length res" using new(3) rng(3) by simp
      note rest = less.hyps [OF this new(2), of "k + 1"]
      have "dfs_loop E r cap md k ((v, d, p) # st) vs res = dfs_loop E r cap md (k + 1) (new @ st) (vs[nat v := True]) (res @ [(v, d, p)])"
        using seen False E new(3) by (subst dfs_loop.simps) (simp add: Let_def new(1) cong: if_cong)
      then show ?thesis using rest unfolding e by simp
    qed
  qed
qed

lemma degree_sum_edges:
  assumes "libc_qsort qs" "table_graph qs ss ds n r"
  shows "n_edges (fwd_index r) = int (degree_sum r {0..<n})"
proof -
  let ?rows = "map (\<lambda>u. table_row ss ds (int u)) [0..<nat n]"
  have "degree_sum r {0..<n} = (\<Sum>u \<in> int ` {0..<nat n}. length (succs r u))"
    unfolding degree_sum_def by (simp add: image_int_atLeastLessThan)
  also have "\<dots> = (\<Sum>u \<in> {0..<nat n}. length (succs r (int u)))" by (simp add: sum.reindex)
  also have "\<dots> = (\<Sum>u \<in> {0..<nat n}. length (table_row ss ds (int u)))"
    using table_rows_of(1) [OF assms] by (intro sum.cong) auto
  also have "\<dots> = length (concat ?rows)" by (simp add: length_concat comp_def interv_sum_list_conv_sum_set_nat)
  finally show ?thesis using table_graph_holds(1) [OF assms] by (simp add: holds_rows_def)
qed


lemma dfs_tree:
  assumes inv: "dfs_inv r n start md [] vs es"
  shows "distinct (map fst es)" "es \<noteq> []" "hd es = (start, 0, - 1)"
    "\<forall>i. 0 < i \<and> i < length es \<longrightarrow> (\<exists>j < i. (fst (es ! j), fst (es ! i)) \<in> arcs r n \<and> snd (es ! i) = (fst (snd (es ! j)) + 1, fst (es ! j)) \<and> fst (snd (es ! i)) \<le> md)"
    "(\<forall>(v, d, p) \<in> set es. d < md) \<Longrightarrow> fst ` set es = (arcs r n)\<^sup>* `` {start}"
proof -
  show di: "distinct (map fst es)" using inv by (simp add: dfs_inv_def)
  show ne: "es \<noteq> []" and hd: "hd es = (start, 0, - 1)" using inv by (auto simp: dfs_inv_def split: if_splits)
  then have zero: "es ! 0 = (start, 0, - 1)" by (simp add: hd_conv_nth)
  have sub: "fst ` set es \<subseteq> {0..<n}" using inv by (simp add: dfs_inv_def)
  have parent: "\<exists>j < i. (fst (es ! j), fst (es ! i)) \<in> arcs r n \<and> snd (es ! i) = (fst (snd (es ! j)) + 1, fst (es ! j)) \<and> fst (snd (es ! i)) \<le> md"
    if i: "0 < i" "i < length es" for i
  proof -
    obtain v d p where e: "es ! i = (v, d, p)" by (cases "es ! i")
    have "v \<noteq> start"
    proof
      assume "v = start"
      then have "map fst es ! i = map fst es ! 0" using e zero i ne by simp
      then show False using nth_eq_iff_index_eq [OF di, of i 0] i ne by simp
    qed
    moreover have "dfs_entry_ok (arcs r n) start md (take i es) (v, d, p)" using inv i e unfolding dfs_inv_def by metis
    ultimately obtain d' p' where p: "(p, d', p') \<in> set (take i es)" "d = d' + 1" "(p, v) \<in> arcs r n" "d \<le> md"
      by (auto simp: dfs_entry_ok_def)
    then obtain j where "j < i" "es ! j = (p, d', p')" using i by (auto simp: in_set_conv_nth)
    then show ?thesis using e p by (intro exI [of _ j]) simp
  qed
  then show "\<forall>i. 0 < i \<and> i < length es \<longrightarrow> (\<exists>j < i. (fst (es ! j), fst (es ! i)) \<in> arcs r n \<and> snd (es ! i) = (fst (snd (es ! j)) + 1, fst (es ! j)) \<and> fst (snd (es ! i)) \<le> md)"
    by blast
  show "fst ` set es = (arcs r n)\<^sup>* `` {start}" if all: "\<forall>(v, d, p) \<in> set es. d < md"
  proof
    have "(start, fst (es ! i)) \<in> (arcs r n)\<^sup>*" if "i < length es" for i
      using that
    proof (induction i rule: less_induct)
      case (less i)
      then show ?case using zero parent [of i] by (cases "i = 0") (auto intro: rtrancl_into_rtrancl)
    qed
    then show "fst ` set es \<subseteq> (arcs r n)\<^sup>* `` {start}" unfolding set_conv_nth by blast
    have step: "u \<in> fst ` set es" if "v \<in> fst ` set es" "(v, u) \<in> arcs r n" for v u
      using that all inv unfolding dfs_inv_def arcs_def by fastforce
    have "u \<in> fst ` set es" if "(start, u) \<in> (arcs r n)\<^sup>*" for u
      using that
    proof (induction rule: rtrancl_induct)
      case base
      then show ?case using ne hd by (cases es) auto
    qed (use step in blast)
    then show "(arcs r n)\<^sup>* `` {start} \<subseteq> fst ` set es" by blast
  qed
qed

text \<open>
  C25.  Depth-first search on a graph built from an edge table: no node is listed twice, the source comes
  first, every other row follows that of its parent, one level below it along an edge and within the depth
  limit; and if no row is at the limit, the nodes listed are exactly those that can be reached.  The stack
  of one slot for each edge is large enough.
\<close>

theorem dfs_correct:
  assumes "libc_qsort qs" "table_graph qs ss ds n r" "g_rel x = Some r" "scratch_ok E" "out_ok E" "\<forall>k. \<not> stop E k"
    and "src = Node_atom start \<or> (\<exists>rest. src = Node_vec (start # rest))" "0 \<le> start" "start < n"
  defines "A \<equiv> set (zip ss ds)"
  shows "\<exists>es. exec_dfs E (Some x) src = Some (Inr [(''_node'', map fst es), (''_depth'', map (fst \<circ> snd) es), (''_parent'', map (snd \<circ> snd) es)]) \<and>
    distinct (map fst es) \<and> es \<noteq> [] \<and> hd es = (start, 0, - 1) \<and>
    (\<forall>i. 0 < i \<and> i < length es \<longrightarrow> (\<exists>j < i. (fst (es ! j), fst (es ! i)) \<in> A \<and>
       snd (es ! i) = (fst (snd (es ! j)) + 1, fst (es ! j)) \<and> fst (snd (es ! i)) \<le> int (max_depth x))) \<and>
    ((\<forall>(v, d, p) \<in> set es. d < int (max_depth x)) \<longrightarrow> fst ` set es = A\<^sup>* `` {start})"
proof -
  note g = table_graph_ok(1) [OF assms(1,2)]
  have A: "arcs r n = A" using table_arcs [OF assms(1,2)] by (simp add: A_def)
  let ?m = "n_edges (fwd_index r)"
  have cap: "1 + degree_sum r {0..<n} \<le> nat (if n < ?m then ?m + 1 else n + 1)"
    using degree_sum_edges [OF assms(1,2)] by (auto simp: le_nat_iff)
  have "dfs_inv r n start (int (max_depth x)) [(start, 0, - 1)] (replicate (nat n) False) []"
    using assms(8,9) by (simp add: dfs_inv_def dfs_entry_ok_def)
  then obtain vs es where es: "dfs_loop E r (nat (if n < ?m then ?m + 1 else n + 1)) (int (max_depth x)) 0 [(start, 0, - 1)] (replicate (nat n) False) [] = Some (Inr es)"
    "dfs_inv r n start (int (max_depth x)) [] vs es"
    using dfs_loop_ok [OF g cap assms(6)] by blast
  have "(case src of Node_atom i \<Rightarrow> Some i | Node_vec is \<Rightarrow> arr_at is 0) = Some start" using assms(7) by (auto simp: arr_at_def)
  then have "exec_dfs E (Some x) src = Some (Inr [(''_node'', map fst es), (''_depth'', map (fst \<circ> snd) es), (''_parent'', map (snd \<circ> snd) es)])"
    using es(1) graph_nodes [OF g] assms(3-5,8,9) by (cases "n < ?m") (simp_all add: exec_dfs_def on_graph_def Let_def)
  then show ?thesis using dfs_tree [OF es(2), unfolded A] by (intro exI [of _ es]) simp
qed

theorem dfs_correct_witness:
  "\<exists>r es. table_graph insertion_qsort [0, 1, 2] [1, 2, 0] 4 r \<and>
     exec_dfs calm (Some (plain_ext r 3)) (Node_vec [0, 3]) =
       Some (Inr [(''_node'', map fst es), (''_depth'', map (fst \<circ> snd) es), (''_parent'', map (snd \<circ> snd) es)]) \<and> hd es = (0, 0, - 1)"
proof -
  obtain r where r: "table_graph insertion_qsort [0, 1, 2] [1, 2, 0] 4 r"
    using table_graph_exists [OF ins.libc_qsort_axioms, of 4 "[0, 1, 2]" "[1, 2, 0]"] by auto
  show ?thesis
    using dfs_correct [OF ins.libc_qsort_axioms r calm_env(5,1,2,3), of "Node_vec [0, 3]" 0 3] r by fastforce
qed


text \<open>
  The depth limit does not bound the distance: a node that is first reached along a longer path is closed at
  the limit, and what lies behind it is not listed although it is near enough.
\<close>

lemma dfs_limit_hides_node:
  assumes "libc_qsort qs" "table_graph qs [0, 1, 0, 2] [1, 2, 2, 3] 4 r"
  shows "exec_dfs calm (Some (plain_ext r 2)) (Node_atom 0) =
      Some (Inr [(''_node'', [0, 1, 2]), (''_depth'', [0, 1, 2]), (''_parent'', [- 1, 0, 1])])"
    "(0, 3) \<in> (set (zip [0, 1, 0, 2] [1, 2, 2, 3]) :: (int \<times> int) set) ^^ 2"
proof -
  note g = table_graph_ok(1) [OF assms]
  have rows: "csr_row (fwd_index r) 0 = Some [1, 2]" "csr_row (fwd_index r) 1 = Some [2]"
    using table_rows(1) [OF assms, of 0] table_rows(1) [OF assms, of 1] by (simp_all add: table_row_def upt_conv_Cons)
  have m: "n_edges (fwd_index r) = 4"
    using table_graph_holds(1) [OF assms] by (simp add: holds_rows_def table_row_def upt_conv_Cons)
  show "exec_dfs calm (Some (plain_ext r 2)) (Node_atom 0) =
      Some (Inr [(''_node'', [0, 1, 2]), (''_depth'', [0, 1, 2]), (''_parent'', [- 1, 0, 1])])"
    using rows m graph_nodes [OF g] calm_env
    by (simp add: exec_dfs_def on_graph_def Let_def dfs_loop.simps [where st = "[]"] dfs_loop.simps [where st = "e # st" for e st]
        arr_at_def numeral_eq_Suc cong: if_cong)
  show "(0, 3) \<in> (set (zip [0, 1, 0, 2] [1, 2, 2, 3]) :: (int \<times> int) set) ^^ 2" by (auto simp: numeral_2_eq_2 relcomp_unfold)
qed

text \<open>On a graph built from an edge table the degrees count the edges of the table.\<close>

lemma degree_cent_table:
  assumes "libc_qsort qs" "table_graph qs ss ds n r" "g_rel x = Some r" "out_ok E"
  shows "exec_degree_cent E (Some x) = Some (Inr [(''_node'', nodes n), (''_in_degree'', map (\<lambda>v. int (count_list ds v)) (nodes n)),
    (''_out_degree'', map (\<lambda>v. int (count_list ss v)) (nodes n)), (''_degree'', map (\<lambda>v. int (count_list ss v + count_list ds v)) (nodes n))])"
proof -
  have len: "length (table_row as bs v) = count_list as v" for as bs v
  proof -
    have "count_list as v = length (filter (\<lambda>i. as ! i = v) [0..<length as])"
      unfolding count_list_eq_length_filter by (subst map_nth [of as, symmetric]) (simp only: filter_map length_map comp_def eq_commute)
    then show ?thesis by (simp add: table_row_def)
  qed
  have row: "csr_span (fwd_index r) v = Some (int (count_list ss v))" "csr_span (rev_index r) v = Some (int (count_list ds v))" if "v \<in> set (nodes n)" for v
    using table_rows(3,4) [OF assms(1,2), of v] that by (auto simp: nodes_def len)
  have all: "those (map f vs) = Some (map g vs)" if "\<And>v. v \<in> set vs \<Longrightarrow> f v = Some (g v)" for f and g :: "int \<Rightarrow> int" and vs :: "int list"
    using that by (induction vs) auto
  show ?thesis
    using all [of "nodes n", OF row(1)] all [of "nodes n", OF row(2)] graph_nodes [OF table_graph_ok(1) [OF assms(1,2)]] assms(3,4)
    by (simp add: exec_degree_cent_def on_graph_def Let_def map2_map_map)
qed

end
