(* ===== verification/Wire.thy ===== *)
theory Wire
  imports Value NumParse
begin

text \<open>
  The wire format of objects (\<^verbatim>\<open>store/serde.c\<close>): objects, their sizes, the bytes an object is written as, and
  the object that a list of bytes reads as.  Theory \<open>Serde\<close> models the functions that do this in a
  buffer and rests on the facts shown here: sizes are lengths, what is written reads back, and what is
  read from any bytes is built from masked attributes.

  An object is a \<open>ray_t*\<close>: the null pointer, the null singleton, an error with its seven code bytes,
  an atom (theory \<open>Value\<close>), a vector of fixed-width cells as its bytes, a vector of symbol ids or of
  strings, and the compound types.  A vector or list is what \<^verbatim>\<open>ray_data\<close> shows of it, also when it is a
  slice; a string vector has besides its slice offset, which is read only in a slice.  Symbols are ids;
  \<open>sym_str\<close> and \<open>sym_intern\<close> of the environment
  resolve them both ways, \<open>env_get\<close> looks up a global, \<open>narrow\<close> and \<open>widen\<close> convert between the bit
  patterns of double and float, \<open>room\<close> says whether a block of so many bytes can be allocated, and
  \<open>junk\<close> what it holds then.  The headers of atoms can always be allocated.
\<close>

unbundle bit_operations_syntax

section \<open>Objects\<close>

datatype obj =
    NullPtr
  | NullObj
  | ErrObj "u8 list"
  | AtomObj bool atom
  | VecObj int u8 nat "u8 list"
  | SymVec u8 "int list"
  | StrVec u8 nat "u8 list list"
  | ListObj u8 "obj list"
  | TableObj u8 "int list" obj
  | DictObj u8 obj obj
  | LambdaObj u8 obj obj
  | FnObj int "u8 list"
  | OtherObj int

record serde_env =
  sym_str :: "int \<Rightarrow> u8 list option"
  sym_intern :: "u8 list \<Rightarrow> int"
  env_get :: "int \<Rightarrow> obj option"
  narrow :: "u64 \<Rightarrow> u32"
  widen :: "u32 \<Rightarrow> u64"
  room :: "nat \<Rightarrow> bool"
  junk :: "nat \<Rightarrow> u8"

abbreviation (input) RAY_TABLE :: int where "RAY_TABLE \<equiv> 98"
abbreviation (input) RAY_DICT :: int where "RAY_DICT \<equiv> 99"
abbreviation (input) RAY_LAMBDA :: int where "RAY_LAMBDA \<equiv> 100"
abbreviation (input) RAY_UNARY :: int where "RAY_UNARY \<equiv> 101"
abbreviation (input) RAY_BINARY :: int where "RAY_BINARY \<equiv> 102"
abbreviation (input) RAY_VARY :: int where "RAY_VARY \<equiv> 103"
abbreviation (input) RAY_ERROR :: int where "RAY_ERROR \<equiv> 127"
abbreviation (input) RAY_SERDE_NULL :: int where "RAY_SERDE_NULL \<equiv> 126"
abbreviation (input) ATTR_QUOTED :: u8 where "ATTR_QUOTED \<equiv> 0x20"
abbreviation (input) RAY_ATTR_SLICE :: u8 where "RAY_ATTR_SLICE \<equiv> 0x10"
abbreviation (input) RAY_ATTR_HAS_NULLS :: u8 where "RAY_ATTR_HAS_NULLS \<equiv> 0x40"
abbreviation (input) RAY_SERDE_ATTR_WIRE_MASK :: u8 where "RAY_SERDE_ATTR_WIRE_MASK \<equiv> 0x60"
abbreviation (input) RAY_SYM_W64 :: u8 where "RAY_SYM_W64 \<equiv> 3"
abbreviation (input) RAY_DE_MAX_DEPTH :: nat where "RAY_DE_MAX_DEPTH \<equiv> 512"

definition ray_error :: "string \<Rightarrow> obj" where
  "ray_error code = ErrObj (take 7 (map of_char code @ replicate 7 0))"

fun is_err :: "obj \<Rightarrow> bool" where
  "is_err (ErrObj c) = True"
| "is_err x = False"

definition ray_type_sizes :: "int \<Rightarrow> nat" where
  "ray_type_sizes t =
     (if t = RAY_BOOL \<or> t = RAY_U8 then 1
      else if t = RAY_I16 then 2
      else if t = RAY_I32 \<or> t = RAY_DATE \<or> t = RAY_TIME \<or> t = RAY_F32 then 4
      else if t = RAY_I64 \<or> t = RAY_TIMESTAMP \<or> t = RAY_F64 then 8
      else if t = RAY_GUID then 16 else 0)"

definition fixed_vec :: "int \<Rightarrow> bool" where
  "fixed_vec t \<longleftrightarrow> RAY_BOOL \<le> t \<and> t \<le> RAY_GUID"

definition put_le :: "nat \<Rightarrow> u64 \<Rightarrow> u8 list" where
  "put_le n w = map (\<lambda>i. ucast (drop_bit (8 * i) w)) [0..<n]"

definition get_i64 :: "u8 list \<Rightarrow> int" where
  "get_i64 bs = sint (load_le (take 8 bs) :: u64)"

section \<open>Sizes\<close>

definition sym_text :: "serde_env \<Rightarrow> int \<Rightarrow> u8 list" where
  "sym_text E i = (case sym_str E i of Some s \<Rightarrow> s | None \<Rightarrow> [])"

definition schema_names_serde_size :: "serde_env \<Rightarrow> int list \<Rightarrow> int" where
  "schema_names_serde_size E ids = foldl (\<lambda>sz i. sz + int (length (sym_text E i)) + 1) (1 + 1 + 8) ids"

definition atom_serde_size :: "serde_env \<Rightarrow> atom \<Rightarrow> int" where
  "atom_serde_size E a =
     (let base = - a_type a in
      if base = RAY_BOOL \<or> base = RAY_U8 then 1 + 1 + 1
      else if base = RAY_I16 then 1 + 1 + 2
      else if base = RAY_I32 \<or> base = RAY_DATE \<or> base = RAY_TIME \<or> base = RAY_F32 then 1 + 1 + 4
      else if base = RAY_I64 \<or> base = RAY_TIMESTAMP \<or> base = RAY_F64 then 1 + 1 + 8
      else if base = RAY_GUID then 1 + 1 + 16
      else if base = RAY_SYM then 1 + 1 + int (length (sym_text E (view_i64 (a_word a)))) + 1
      else if base = RAY_STR then 1 + 1 + 8 + int (length (a_bytes a))
      else 0)"

definition vec_size_guard :: "nat \<Rightarrow> int \<Rightarrow> int" where
  "vec_size_guard len sz = (if int len > (2 ^ 63 - 1 - 32) div 16 then -1 else sz)"

definition fn_name :: "u8 list \<Rightarrow> u8 list" where
  "fn_name name = take 15 (takeWhile (\<lambda>c. c \<noteq> 0) name)"

fun ray_serde_size :: "serde_env \<Rightarrow> obj \<Rightarrow> int" where
  "ray_serde_size E NullPtr = 1"
| "ray_serde_size E (ErrObj c) = 1 + 8"
| "ray_serde_size E NullObj = 1"
| "ray_serde_size E (AtomObj q a) = atom_serde_size E a"
| "ray_serde_size E (VecObj t attrs len data) =
     vec_size_guard len (if fixed_vec t then 1 + 1 + 8 + int len * int (ray_type_sizes t) else 0)"
| "ray_serde_size E (SymVec attrs ids) =
     vec_size_guard (length ids) (foldl (\<lambda>sz i. sz + int (length (sym_text E i)) + 1) (1 + 1 + 8) ids)"
| "ray_serde_size E (StrVec attrs off ss) =
     vec_size_guard (length ss) (foldl (\<lambda>sz s. sz + 8 + int (length s)) (1 + 1 + 8) ss)"
| "ray_serde_size E (ListObj attrs xs) =
     vec_size_guard (length xs) (1 + 1 + 8 + sum_list (map (ray_serde_size E) xs))"
| "ray_serde_size E (TableObj attrs names cols) = 1 + 1 + schema_names_serde_size E names + ray_serde_size E cols"
| "ray_serde_size E (DictObj attrs k v) = 1 + 1 + ray_serde_size E k + ray_serde_size E v"
| "ray_serde_size E (LambdaObj attrs p b) = 1 + 1 + ray_serde_size E p + ray_serde_size E b"
| "ray_serde_size E (FnObj t name) = 1 + int (length (fn_name name)) + 1"
| "ray_serde_size E (OtherObj t) = 0"

section \<open>The bytes of an object\<close>

definition tag :: "int \<Rightarrow> u8" where
  "tag t = word_of_int t"

definition vec_header :: "int \<Rightarrow> u8 \<Rightarrow> nat \<Rightarrow> u8 list" where
  "vec_header t attrs len = [tag t, attrs] @ put_le 8 (of_nat len)"

definition wire_syms :: "serde_env \<Rightarrow> int list \<Rightarrow> u8 list" where
  "wire_syms E ids = concat (map (\<lambda>i. sym_text E i @ [0]) ids)"

definition wire_schema :: "serde_env \<Rightarrow> int list \<Rightarrow> u8 list" where
  "wire_schema E ids = vec_header RAY_SYM RAY_SYM_W64 (length ids) @ wire_syms E ids"

definition wire_atom :: "serde_env \<Rightarrow> bool \<Rightarrow> atom \<Rightarrow> u8 list" where
  "wire_atom E quoted a =
     (let base = - a_type a;
          aflags = (if a_aux0 a then 1 else 0) OR (if a_type a = - RAY_SYM \<and> quoted then ATTR_QUOTED else 0);
          head = [tag (a_type a), aflags]
      in if base = RAY_BOOL \<or> base = RAY_U8 then head @ put_le 1 (a_word a)
         else if base = RAY_I16 then head @ put_le 2 (a_word a)
         else if base = RAY_I32 \<or> base = RAY_DATE \<or> base = RAY_TIME then head @ put_le 4 (a_word a)
         else if base = RAY_F32 then head @ put_le 4 (ucast (narrow E (a_word a)))
         else if base = RAY_I64 \<or> base = RAY_TIMESTAMP \<or> base = RAY_F64 then head @ put_le 8 (a_word a)
         else if base = RAY_GUID then head @ take 16 (a_bytes a @ replicate 16 0)
         else if base = RAY_SYM then head @ sym_text E (view_i64 (a_word a)) @ [0]
         else if base = RAY_STR then head @ put_le 8 (of_nat (length (a_bytes a))) @ a_bytes a
         else [])"

fun wire_of :: "serde_env \<Rightarrow> obj \<Rightarrow> u8 list" where
  "wire_of E NullPtr = [tag RAY_SERDE_NULL]"
| "wire_of E (ErrObj c) = tag RAY_ERROR # take 7 (c @ replicate 7 0) @ [0]"
| "wire_of E NullObj = [tag RAY_SERDE_NULL]"
| "wire_of E (AtomObj q a) = wire_atom E q a"
| "wire_of E (VecObj t attrs len data) =
     (if fixed_vec t
      then vec_header t (attrs AND RAY_ATTR_HAS_NULLS) len @ take (len * ray_type_sizes t) data else [])"
| "wire_of E (SymVec attrs ids) =
     vec_header RAY_SYM (attrs AND RAY_ATTR_HAS_NULLS) (length ids) @ wire_syms E ids"
| "wire_of E (StrVec attrs off ss) =
     vec_header RAY_STR (attrs AND RAY_ATTR_HAS_NULLS) (length ss) @
     concat (map (\<lambda>s. put_le 8 (of_nat (length s)) @ s) ss)"
| "wire_of E (ListObj attrs xs) =
     vec_header RAY_LIST (attrs AND RAY_SERDE_ATTR_WIRE_MASK) (length xs) @ concat (map (wire_of E) xs)"
| "wire_of E (TableObj attrs names cols) =
     [tag RAY_TABLE, attrs AND RAY_SERDE_ATTR_WIRE_MASK] @ wire_schema E names @ wire_of E cols"
| "wire_of E (DictObj attrs k v) =
     [tag RAY_DICT, attrs AND RAY_SERDE_ATTR_WIRE_MASK] @ wire_of E k @ wire_of E v"
| "wire_of E (LambdaObj attrs p b) = [tag RAY_LAMBDA, attrs AND 0] @ wire_of E p @ wire_of E b"
| "wire_of E (FnObj t name) = tag t # fn_name name @ [0]"
| "wire_of E (OtherObj t) = []"

section \<open>The object that bytes read as\<close>

definition text_len :: "u8 list \<Rightarrow> nat" where
  "text_len buf = length (takeWhile (\<lambda>b. b \<noteq> 0) buf)"

definition domain_error :: obj where
  "domain_error = ray_error ''domain''"

text \<open>A read of \<open>k\<close> bytes, or the truncation error.\<close>

definition read_bytes :: "nat \<Rightarrow> u8 list \<Rightarrow> (u8 list \<Rightarrow> obj) \<Rightarrow> obj \<times> u8 list" where
  "read_bytes k buf mk = (if length buf < k then (domain_error, buf) else (mk (take k buf), drop k buf))"

fun got :: "atom option \<Rightarrow> obj" where
  "got (Some a) = AtomObj False a"
| "got None = NullPtr"

definition typed_null :: "int \<Rightarrow> obj" where
  "typed_null type =
     (case ray_typed_null True True type of
        Some (Inr a) \<Rightarrow> AtomObj False a | Some (Inl e) \<Rightarrow> ray_error ''type'' | None \<Rightarrow> NullPtr)"

definition ray_f32 :: "serde_env \<Rightarrow> u32 \<Rightarrow> atom option" where
  "ray_f32 E v = mk_atom True (- RAY_F32) (widen E v)"

definition ray_str :: "u8 list \<Rightarrow> atom" where
  "ray_str s = header0\<lparr>a_type := - RAY_STR, a_bytes := s\<rparr>"

definition read_sym_atom :: "serde_env \<Rightarrow> u8 \<Rightarrow> u8 list \<Rightarrow> obj \<times> u8 list" where
  "read_sym_atom E aflags buf =
     (let slen = text_len buf
      in if length buf \<le> slen then (domain_error, buf)
         else let rest = drop (slen + 1) buf
              in if aflags AND 1 \<noteq> 0 then (typed_null (- RAY_SYM), rest)
                 else (case ray_sym True (sym_intern E (take slen buf)) of
                         Some a \<Rightarrow> (AtomObj (aflags AND ATTR_QUOTED \<noteq> 0) a, rest)
                       | None \<Rightarrow> (NullPtr, rest)))"

definition read_str_atom :: "serde_env \<Rightarrow> u8 \<Rightarrow> u8 list \<Rightarrow> obj \<times> u8 list" where
  "read_str_atom E aflags buf =
     (if length buf < 8 then (domain_error, buf)
      else let slen = get_i64 buf; buf = drop 8 buf
           in if int (length buf) < slen \<or> slen < 0 then (domain_error, buf)
              else let rest = drop (nat slen) buf
                   in if aflags AND 1 \<noteq> 0 then (typed_null (- RAY_STR), rest)
                      else if 7 \<le> slen \<and> \<not> room E (nat slen + 1) then (NullPtr, rest)
                      else (AtomObj False (ray_str (take (nat slen) buf)), rest))"

definition read_atom :: "serde_env \<Rightarrow> int \<Rightarrow> u8 list \<Rightarrow> obj \<times> u8 list" where
  "read_atom E type buf0 =
     (case buf0 of
        [] \<Rightarrow> (domain_error, [])
      | aflags # buf \<Rightarrow>
          let base = - type;
              null_or = (\<lambda>x. if aflags AND 1 \<noteq> 0 then typed_null type else x)
          in if base = RAY_BOOL then read_bytes 1 buf (\<lambda>bs. null_or (got (ray_bool True (hd bs \<noteq> 0))))
             else if base = RAY_U8 then read_bytes 1 buf (\<lambda>bs. null_or (got (ray_u8 True (hd bs))))
             else if base = RAY_I16
             then read_bytes 2 buf (\<lambda>bs. null_or (got (ray_i16 True (sint (load_le bs :: 16 word)))))
             else if base = RAY_I32
             then read_bytes 4 buf (\<lambda>bs. null_or (got (ray_i32 True (sint (load_le bs :: u32)))))
             else if base = RAY_DATE
             then read_bytes 4 buf (\<lambda>bs. null_or (got (ray_date True (sint (load_le bs :: u32)))))
             else if base = RAY_TIME
             then read_bytes 4 buf (\<lambda>bs. null_or (got (ray_time True (sint (load_le bs :: u32)))))
             else if base = RAY_F32 then read_bytes 4 buf (\<lambda>bs. null_or (got (ray_f32 E (load_le bs))))
             else if base = RAY_I64
             then read_bytes 8 buf (\<lambda>bs. null_or (got (ray_i64 True (sint (load_le bs :: u64)))))
             else if base = RAY_TIMESTAMP
             then read_bytes 8 buf (\<lambda>bs. null_or (got (ray_timestamp True (sint (load_le bs :: u64)))))
             else if base = RAY_F64 then read_bytes 8 buf (\<lambda>bs. null_or (got (ray_f64 True (load_le bs))))
             else if base = RAY_GUID
             then read_bytes 16 buf (\<lambda>bs. null_or (case ray_guid (room E 16) True bs of
                                                 Some (Some a) \<Rightarrow> AtomObj False a | _ \<Rightarrow> NullPtr))
             else if base = RAY_SYM then read_sym_atom E aflags buf
             else if base = RAY_STR then read_str_atom E aflags buf
             else (ray_error ''type'', buf))"

text \<open>
  The header of a vector: attributes and length, or an error, and the bytes behind it.  The lengths of
  symbol, string and list vectors are also bounded by the bytes that remain.
\<close>

definition read_header :: "bool \<Rightarrow> u8 list \<Rightarrow> (u8 \<times> nat) option \<times> u8 list" where
  "read_header bounded buf =
     (if length buf < 9 then (None, buf)
      else let l = get_i64 (drop 1 buf); rest = drop 9 buf
           in if l < 0 \<or> l > 1000000000 then (None, rest)
              else if bounded \<and> int (length rest) < l then (None, rest)
              else (Some (hd buf, nat l), rest))"

definition read_fixed_vec :: "serde_env \<Rightarrow> int \<Rightarrow> u8 list \<Rightarrow> obj \<times> u8 list" where
  "read_fixed_vec E type buf =
     (case read_header False buf of
        (None, rest) \<Rightarrow> (domain_error, rest)
      | (Some (attrs, l), rest) \<Rightarrow>
          let data_bytes = l * ray_type_sizes type
          in if length rest < data_bytes then (domain_error, rest)
             else if \<not> room E data_bytes then (NullPtr, rest)
             else (VecObj type (attrs AND RAY_ATTR_HAS_NULLS) l (take data_bytes rest), drop data_bytes rest))"

fun read_syms :: "serde_env \<Rightarrow> nat \<Rightarrow> u8 list \<Rightarrow> int list option \<times> u8 list" where
  "read_syms E 0 buf = (Some [], buf)"
| "read_syms E (Suc n) buf =
     (let slen = text_len buf
      in if length buf \<le> slen then (None, buf)
         else (case read_syms E n (drop (slen + 1) buf) of
                 (ids, rest) \<Rightarrow> (map_option (\<lambda>ids. sym_intern E (take slen buf) # ids) ids, rest)))"

definition read_sym_vec :: "serde_env \<Rightarrow> u8 list \<Rightarrow> obj \<times> u8 list" where
  "read_sym_vec E buf =
     (case read_header True buf of
        (None, rest) \<Rightarrow> (domain_error, rest)
      | (Some (attrs, l), rest) \<Rightarrow>
          if \<not> room E (8 * l) then (ray_error ''oom'', rest)
          else (case read_syms E l rest of
                  (None, rest) \<Rightarrow> (domain_error, rest)
                | (Some ids, rest) \<Rightarrow> (SymVec (RAY_SYM_W64 OR (attrs AND RAY_ATTR_HAS_NULLS)) ids, rest)))"

text \<open>Appending to a string vector: strings of more than 12 bytes share a pool with 32-bit offsets.\<close>

definition pool_bytes :: "u8 list list \<Rightarrow> nat" where
  "pool_bytes ss = sum_list (map length (filter (\<lambda>s. 12 < length s) ss))"

definition str_append :: "serde_env \<Rightarrow> u8 list list \<Rightarrow> u8 list \<Rightarrow> string + u8 list list" where
  "str_append E ss s =
     (if 2 ^ 32 - 1 < length s then Inl ''range''
      else if 12 < length s \<and> (2 ^ 32 - 1 < pool_bytes ss \<or> 2 ^ 32 - 1 - pool_bytes ss < length s) then Inl ''range''
      else if \<not> room E (pool_bytes ss + length s) \<or> \<not> room E (16 * (length ss + 1)) then Inl ''oom''
      else Inr (ss @ [s]))"

fun read_strs :: "serde_env \<Rightarrow> u8 list list \<Rightarrow> nat \<Rightarrow> u8 list \<Rightarrow> (obj + u8 list list) \<times> u8 list" where
  "read_strs E ss 0 buf = (Inr ss, buf)"
| "read_strs E ss (Suc n) buf =
     (if length buf < 8 then (Inl domain_error, buf)
      else let slen = get_i64 buf; buf = drop 8 buf
           in if int (length buf) < slen \<or> slen < 0 then (Inl domain_error, buf)
              else case str_append E ss (take (nat slen) buf) of
                     Inl code \<Rightarrow> (Inl (ray_error code), buf)
                   | Inr ss \<Rightarrow> read_strs E ss n (drop (nat slen) buf))"

definition read_str_vec :: "serde_env \<Rightarrow> u8 list \<Rightarrow> obj \<times> u8 list" where
  "read_str_vec E buf =
     (case read_header True buf of
        (None, rest) \<Rightarrow> (domain_error, rest)
      | (Some (attrs, l), rest) \<Rightarrow>
          if \<not> room E (16 * l) then (ray_error ''oom'', rest)
          else (case read_strs E [] l rest of
                  (Inl e, rest) \<Rightarrow> (e, rest)
                | (Inr ss, rest) \<Rightarrow> (StrVec (attrs AND RAY_ATTR_HAS_NULLS) 0 ss, rest)))"

definition read_fn :: "serde_env \<Rightarrow> u8 list \<Rightarrow> obj \<times> u8 list" where
  "read_fn E buf =
     (let nlen = text_len buf
      in if length buf \<le> nlen then (domain_error, buf)
         else case env_get E (sym_intern E (take nlen buf)) of
                None \<Rightarrow> (ray_error ''name'', buf)
              | Some fn \<Rightarrow> (fn, drop (nlen + 1) buf))"

definition read_error :: "u8 list \<Rightarrow> obj \<times> u8 list" where
  "read_error buf =
     (if length buf < 8 then (domain_error, buf)
      else (ErrObj (take 7 (takeWhile (\<lambda>c. c \<noteq> 0) (take 8 buf) @ replicate 7 0)), drop 8 buf))"

text \<open>The table of column names and columns, as far as both go.\<close>

definition rebuild_table :: "serde_env \<Rightarrow> obj \<Rightarrow> obj \<Rightarrow> obj" where
  "rebuild_table E schema cols =
     (let names = (case schema of
                     SymVec _ ids \<Rightarrow> Some ids
                   | VecObj t _ n data \<Rightarrow>
                       if t = RAY_I64 then Some (map (\<lambda>i. get_i64 (drop (8 * i) data)) [0..<n]) else None
                   | _ \<Rightarrow> None)
      in case (names, cols) of
           (Some ids, ListObj _ xs) \<Rightarrow>
             let k = min (length xs) (length ids)
             in if \<not> room E 16 \<or> \<not> room E (8 * length xs) then ray_error ''oom''
                else TableObj 0 (take k ids) (ListObj 0 (take k xs))
         | _ \<Rightarrow> domain_error)"

text \<open>The last step of the three types that hold two objects.\<close>

definition build_pair :: "serde_env \<Rightarrow> int \<Rightarrow> u8 \<Rightarrow> obj \<Rightarrow> obj \<Rightarrow> obj" where
  "build_pair E type attrs x y =
     (if type = RAY_TABLE then rebuild_table E x y
      else if type = RAY_DICT then (if room E 16 then DictObj (attrs AND RAY_SERDE_ATTR_WIRE_MASK) x y else NullPtr)
      else (if room E 56 then LambdaObj (attrs AND 0) x y else NullPtr))"

text \<open>
  \<open>read_obj\<close> with the depth that is left, \<^verbatim>\<open>RAY_DE_MAX_DEPTH - g_de_depth\<close>, and the loop over the
  elements of a list.
\<close>

function read_obj :: "serde_env \<Rightarrow> nat \<Rightarrow> u8 list \<Rightarrow> obj \<times> u8 list"
  and read_elems :: "serde_env \<Rightarrow> nat \<Rightarrow> nat \<Rightarrow> u8 list \<Rightarrow> (obj + obj list) \<times> u8 list" where
  "read_obj E 0 buf = (domain_error, buf)"
| "read_obj E (Suc d) buf0 =
     (case buf0 of
        [] \<Rightarrow> (NullPtr, [])
      | b # buf \<Rightarrow>
          let type = sint b
          in if type = RAY_SERDE_NULL then (NullObj, buf)
             else if type < 0 then read_atom E type buf
             else if fixed_vec type then read_fixed_vec E type buf
             else if type = RAY_SYM then read_sym_vec E buf
             else if type = RAY_STR then read_str_vec E buf
             else if type = RAY_LIST then
               (case read_header True buf of
                  (None, rest) \<Rightarrow> (domain_error, rest)
                | (Some (attrs, l), rest) \<Rightarrow>
                    if \<not> room E (8 * l) then (NullPtr, rest)
                    else (case read_elems E d l rest of
                            (Inl e, rest) \<Rightarrow> (e, rest)
                          | (Inr xs, rest) \<Rightarrow> (ListObj (attrs AND RAY_SERDE_ATTR_WIRE_MASK) xs, rest)))
             else if type = RAY_TABLE \<or> type = RAY_DICT \<or> type = RAY_LAMBDA then
               (case buf of
                  [] \<Rightarrow> (domain_error, [])
                | attrs # buf \<Rightarrow>
                    (case read_obj E d buf of (x, buf) \<Rightarrow>
                       if x = NullPtr \<or> is_err x then (x, buf)
                       else (case read_obj E d buf of (y, buf) \<Rightarrow>
                         if y = NullPtr \<or> is_err y then (y, buf) else (build_pair E type attrs x y, buf))))
             else if type = RAY_UNARY \<or> type = RAY_BINARY \<or> type = RAY_VARY then read_fn E buf
             else if type = RAY_ERROR then read_error buf
             else (ray_error ''type'', buf))"
| "read_elems E d 0 buf = (Inr [], buf)"
| "read_elems E d (Suc n) buf =
     (case read_obj E d buf of (x, rest) \<Rightarrow>
        if is_err x then (Inl x, rest)
        else (case read_elems E d n rest of
                (Inl e, rest) \<Rightarrow> (Inl e, rest)
              | (Inr xs, rest) \<Rightarrow> (Inr ((if x = NullPtr then NullObj else x) # xs), rest)))"
  by pat_completeness auto
termination
  by (relation "measures [\<lambda>x. case x of Inl (_, d, _) \<Rightarrow> 2 * d | Inr (_, d, _, _) \<Rightarrow> 2 * d + 1,
                          \<lambda>x. case x of Inl _ \<Rightarrow> 0 | Inr (_, _, n, _) \<Rightarrow> n]") auto

declare read_obj.simps(2) [simp del]

section \<open>Bytes\<close>

lemma length_put_le [simp]: "length (put_le n w) = n"
  by (simp add: put_le_def)

lemma put_le_Suc: "put_le (Suc n) w = ucast w # put_le n (drop_bit 8 w)"
  unfolding put_le_def upt_rec [of 0 "Suc n"] by (auto simp: map_Suc_upt [symmetric] drop_bit_drop_bit algebra_simps simp del: upt_Suc)

lemma horner_put_le: "horner_sum uint 256 (put_le n w) = uint (take_bit (8 * n) w)"
proof (induction n arbitrary: w)
  case 0
  then show ?case by (simp add: put_le_def)
next
  case (Suc n)
  have "uint (ucast w :: u8) = take_bit 8 (uint w)" by (simp add: unsigned_ucast_eq)
  moreover have "uint (take_bit (8 * n) (drop_bit 8 w)) = take_bit (8 * n) (drop_bit 8 (uint w))"
  proof -
    have "take_bit 64 (uint w) = uint w" using uint_lt2p [of w] by (simp add: take_bit_int_eq_self)
    then show ?thesis by (simp add: unsigned_take_bit_eq unsigned_drop_bit_eq)
  qed
  moreover have "take_bit 8 x + 256 * take_bit (8 * n) (drop_bit 8 x) = take_bit (8 * Suc n) x" for x :: int
  proof -
    have "take_bit (8 + 8 * n) x = take_bit 8 x + 2 ^ 8 * (take_bit (8 * n) (drop_bit 8 x))"
      by (simp add: take_bit_eq_mod drop_bit_eq_div power_add zmod_zmult2_eq)
    then show ?thesis by (simp add: algebra_simps)
  qed
  ultimately show ?case
    using Suc [of "drop_bit 8 w"] by (simp add: put_le_Suc unsigned_take_bit_eq)
qed

lemma load_put_le: "(load_le (put_le n w) :: 'a::len word) = ucast (take_bit (8 * n) w)"
  unfolding load_le_def horner_put_le ucast_eq ..

lemma load_put_8 [simp]: "(load_le (put_le 8 w) :: u64) = w"
  by (simp add: load_put_le take_bit_word_eq_self)

lemma load_put_4 [simp]: "(load_le (put_le 4 w) :: u32) = ucast w"
  by (rule bit_word_eqI) (simp add: load_put_le bit_simps)

lemma load_put_2 [simp]: "(load_le (put_le 2 w) :: 16 word) = ucast w"
  by (rule bit_word_eqI) (simp add: load_put_le bit_simps)

lemma put_1 [simp]: "put_le (Suc 0) w = [ucast w]"
  by (simp add: put_le_def)

lemma get_put_len [simp]: "n < 2 ^ 63 \<Longrightarrow> get_i64 (put_le 8 (of_nat n) @ rest) = int n"
  by (simp add: get_i64_def signed_of_nat signed_take_bit_eq_if_positive take_bit_nat_eq_self bit_iff_odd take_bit_int_eq_self)

section \<open>The size is the number of bytes\<close>

lemma foldl_size: "foldl (\<lambda>sz x. sz + f x + 1) s xs = s + (\<Sum>x\<leftarrow>xs. f x + 1)" for s :: int
  by (induction xs arbitrary: s) auto

lemma foldl_size8: "foldl (\<lambda>sz x. sz + 8 + f x) s xs = s + (\<Sum>x\<leftarrow>xs. 8 + f x)" for s :: int
  by (induction xs arbitrary: s) auto

lemma length_wire_syms: "int (length (wire_syms E ids)) = (\<Sum>i\<leftarrow>ids. int (length (sym_text E i)) + 1)"
  by (induction ids) (simp_all add: wire_syms_def)

lemma length_vec_header [simp]: "length (vec_header t a n) = 10"
  by (simp add: vec_header_def)

lemma length_wire_atom: "int (length (wire_atom E q a)) = atom_serde_size E a"
  by (simp add: wire_atom_def atom_serde_size_def Let_def min_def)

lemma length_wire_strs: "int (length (concat (map (\<lambda>s. put_le 8 (of_nat (length s)) @ s) ss))) = (\<Sum>s\<leftarrow>ss. 8 + int (length s))"
  by (induction ss) simp_all

text \<open>
  The pool slot of a string vector is at the place of the slice offset: in a slice it can be taken for
  a pool only if it is zero, and then all strings must be short enough to be stored without a pool.
\<close>

definition pool_ok :: "u8 \<Rightarrow> nat \<Rightarrow> u8 list list \<Rightarrow> bool" where
  "pool_ok attrs off ss \<longleftrightarrow> attrs AND RAY_ATTR_SLICE = 0 \<or> off = 0 \<and> (\<forall>s \<in> set ss. length s \<le> 12)"

text \<open>
  Objects that can be written: known types throughout, vectors whose bytes are there and whose length
  does not trip the overflow guard, string vectors with a proper pool slot.
\<close>

fun writable :: "obj \<Rightarrow> bool" where
  "writable (AtomObj q a) \<longleftrightarrow> 1 \<le> - a_type a \<and> - a_type a \<le> 13"
| "writable (VecObj t attrs n data) \<longleftrightarrow> fixed_vec t \<and> length data = n * ray_type_sizes t \<and> int n \<le> (2 ^ 63 - 1 - 32) div 16"
| "writable (SymVec attrs ids) \<longleftrightarrow> int (length ids) \<le> (2 ^ 63 - 1 - 32) div 16"
| "writable (StrVec attrs off ss) \<longleftrightarrow> pool_ok attrs off ss \<and> int (length ss) \<le> (2 ^ 63 - 1 - 32) div 16"
| "writable (ListObj attrs xs) \<longleftrightarrow> int (length xs) \<le> (2 ^ 63 - 1 - 32) div 16 \<and> (\<forall>x \<in> set xs. writable x)"
| "writable (TableObj attrs names cols) \<longleftrightarrow> writable cols"
| "writable (DictObj attrs k v) \<longleftrightarrow> writable k \<and> writable v"
| "writable (LambdaObj attrs p b) \<longleftrightarrow> writable p \<and> writable b"
| "writable (OtherObj t) \<longleftrightarrow> False"
| "writable x \<longleftrightarrow> True"

lemma wire_size: "writable x \<Longrightarrow> ray_serde_size E x = int (length (wire_of E x))"
proof (induction E x rule: wire_of.induct)
  case (8 E attrs xs)
  then have "(\<Sum>x\<leftarrow>xs. ray_serde_size E x) = int (length (concat (map (wire_of E) xs)))"
    by (induction xs) auto
  then show ?case using 8(2) by (simp add: vec_size_guard_def)
qed (auto simp: length_wire_atom vec_size_guard_def length_wire_syms length_wire_strs foldl_size foldl_size8
      schema_names_serde_size_def wire_schema_def simp del: length_concat)

section \<open>What survives the wire\<close>

text \<open>The object the reader rebuilds: attributes outside the wire masks are gone.\<close>

fun wire_view :: "obj \<Rightarrow> obj" where
  "wire_view NullPtr = NullObj"
| "wire_view (VecObj t attrs n data) = VecObj t (attrs AND RAY_ATTR_HAS_NULLS) n data"
| "wire_view (SymVec attrs ids) = SymVec (RAY_SYM_W64 OR (attrs AND RAY_ATTR_HAS_NULLS)) ids"
| "wire_view (StrVec attrs off ss) = StrVec (attrs AND RAY_ATTR_HAS_NULLS) 0 ss"
| "wire_view (ListObj attrs xs) = ListObj (attrs AND RAY_SERDE_ATTR_WIRE_MASK) (map wire_view xs)"
| "wire_view (TableObj attrs names cols) =
     TableObj 0 names (case wire_view cols of ListObj _ xs \<Rightarrow> ListObj 0 xs | y \<Rightarrow> y)"
| "wire_view (DictObj attrs k v) = DictObj (attrs AND RAY_SERDE_ATTR_WIRE_MASK) (wire_view k) (wire_view v)"
| "wire_view (LambdaObj attrs p b) = LambdaObj 0 (wire_view p) (wire_view b)"
| "wire_view x = x"

text \<open>A symbol that resolves, without a NUL, to a text that interns to the same id.\<close>

definition sym_ok :: "serde_env \<Rightarrow> int \<Rightarrow> bool" where
  "sym_ok E i \<longleftrightarrow> (case sym_str E i of None \<Rightarrow> False | Some s \<Rightarrow> sym_intern E s = i \<and> 0 \<notin> set s)"

text \<open>Atoms as their constructors build them, and the typed nulls.\<close>

definition atom_ok :: "serde_env \<Rightarrow> bool \<Rightarrow> atom \<Rightarrow> bool" where
  "atom_ok E q a \<longleftrightarrow>
     (let base = - a_type a; w = a_word a in
      1 \<le> base \<and> base \<le> 13 \<and> (q \<longrightarrow> base = RAY_SYM) \<and>
      (if a_aux0 a then base \<noteq> RAY_SYM \<and> typed_null (a_type a) = AtomObj False a
       else (base \<noteq> RAY_GUID \<and> base \<noteq> RAY_STR \<longrightarrow> a_bytes a = []) \<and>
            (base = RAY_BOOL \<longrightarrow> w = 0 \<or> w = 1) \<and>
            (base = RAY_U8 \<longrightarrow> ucast (ucast w :: u8) = w) \<and>
            (base = RAY_I16 \<longrightarrow> ucast (ucast w :: 16 word) = w) \<and>
            (base = RAY_I32 \<longrightarrow> ucast (ucast w :: u32) = w) \<and>
            (base = RAY_DATE \<or> base = RAY_TIME \<longrightarrow> scast (ucast w :: u32) = w) \<and>
            (base = RAY_F32 \<longrightarrow> widen E (narrow E w) = w) \<and>
            (base = RAY_GUID \<longrightarrow> w = 0 \<and> length (a_bytes a) = 16) \<and>
            (base = RAY_SYM \<longrightarrow> sym_ok E (view_i64 w)) \<and>
            (base = RAY_STR \<longrightarrow> w = 0 \<and> length (a_bytes a) < 2 ^ 63)))"

lemma with_bytes_append [simp]: "length bs = k \<Longrightarrow> read_bytes k (bs @ rest) mk = (mk bs, rest)"
  by (simp add: read_bytes_def)

lemma with_bytes_1 [simp]: "read_bytes (Suc 0) (b # rest) mk = (mk [b], rest)"
  by (simp add: read_bytes_def)

lemma with_bytes_16 [simp]:
  "read_bytes 16 (take 16 bs @ replicate (16 - length bs) 0 @ rest) mk = (mk (take 16 bs @ replicate (16 - length bs) 0), rest)"
  using with_bytes_append [of "take 16 bs @ replicate (16 - length bs) 0" 16 rest mk] by (simp add: min_def)

lemma strlen_text: "0 \<notin> set s \<Longrightarrow> text_len (s @ 0 # rest) = length s"
  by (simp add: text_len_def takeWhile_append2 takeWhile_append)

lemma sym_textD: "sym_ok E i \<Longrightarrow> 0 \<notin> set (sym_text E i) \<and> sym_intern E (sym_text E i) = i"
  by (auto simp: sym_ok_def sym_text_def split: option.splits)

lemma read_sym_atom_text:
  "sym_ok E i \<Longrightarrow> aflags AND 1 = 0 \<Longrightarrow>
     read_sym_atom E aflags (sym_text E i @ 0 # rest) = (AtomObj (aflags AND ATTR_QUOTED \<noteq> 0) (header0\<lparr>a_type := - RAY_SYM, a_word := word_of_int i\<rparr>), rest)"
  using sym_textD [of E i] by (simp add: read_sym_atom_def strlen_text Let_def ray_sym_def mk_atom_def)

lemma read_str_atom_text:
  assumes "\<forall>n. room E n" "length s < 2 ^ 63"
  shows "read_str_atom E aflags (put_le 8 (of_nat (length s)) @ s @ rest) =
     (if aflags AND 1 \<noteq> 0 then typed_null (- RAY_STR) else AtomObj False (ray_str s), rest)"
  using assms by (simp add: read_str_atom_def Let_def)

lemma u32_through_u64 [simp]: "ucast (ucast (x :: u32) :: u64) = x"
  by (rule bit_word_eqI) (simp add: bit_simps)

lemma mk_atom_word: "mk_atom True t w = Some (header0\<lparr>a_type := t, a_word := w\<rparr>)"
  by (simp add: mk_atom_def)

lemma scalar_atom: "\<not> a_aux0 a \<Longrightarrow> a_bytes a = [] \<Longrightarrow> a_type a = t \<Longrightarrow> header0\<lparr>a_type := t, a_word := a_word a\<rparr> = a"
  by (cases a) (simp add: header0_def)

lemma base_cases:
  fixes t :: int
  assumes "1 \<le> - t" "- t \<le> 13"
  obtains "t = -1" | "t = -2" | "t = -3" | "t = -4" | "t = -5" | "t = -6" | "t = -7" | "t = -8" | "t = -9" | "t = -10" | "t = -11" | "t = -12" | "t = -13"
proof -
  have "t = -1 \<or> t = -2 \<or> t = -3 \<or> t = -4 \<or> t = -5 \<or> t = -6 \<or> t = -7 \<or> t = -8 \<or> t = -9 \<or> t = -10 \<or> t = -11 \<or> t = -12 \<or> t = -13"
    using assms by arith
  then show ?thesis using that by blast
qed

lemma read_wire_atom:
  assumes "\<forall>n. room E n" "atom_ok E q a"
  shows "read_atom E (a_type a) (tl (wire_atom E q a) @ rest) = (AtomObj q a, rest)"
proof -
  have b: "1 \<le> - a_type a" "- a_type a \<le> 13" "q \<longrightarrow> - a_type a = 12" using assms(2) by (auto simp: atom_ok_def Let_def)
  show ?thesis
  proof (cases "a_aux0 a")
    case True
    then have n: "typed_null (a_type a) = AtomObj False a" "a_type a \<noteq> -12" "\<not> q" using assms(2) by (auto simp: atom_ok_def Let_def)
    have str: "a_bytes a = []" if "a_type a = -13"
    proof -
      have "typed_null (-13) = AtomObj False a" using n(1) that by simp
      then show ?thesis by (auto simp: typed_null_def ray_typed_null_def header0_def)
    qed
    show ?thesis
      by (rule base_cases [OF b(1,2)])
        (use n True str assms(1) read_str_atom_text [of E "[]" 1 rest] in \<open>simp_all add: read_atom_def wire_atom_def\<close>)
  next
    case False
    note ok = assms(2) [unfolded atom_ok_def Let_def]
    have w: "a_bytes a = [] \<Longrightarrow> header0\<lparr>a_type := a_type a, a_word := a_word a\<rparr> = a" using scalar_atom [OF False _ refl] .
    have g: "a_type a = -11 \<or> a_type a = -13 \<Longrightarrow> header0\<lparr>a_type := a_type a, a_bytes := a_bytes a\<rparr> = a"
    proof -
      assume "a_type a = -11 \<or> a_type a = -13"
      then have "a_word a = 0" using ok False by fastforce
      then show ?thesis using False by (cases a) (simp add: header0_def)
    qed
    have fl: "(if q then 32 else 0 :: u8) AND 1 = 0" "((if q then 32 else 0 :: u8) AND 32 \<noteq> 0) = q" by auto
    note [simp] = False read_atom_def wire_atom_def mk_atom_word
    consider (bool) "a_type a = -1" | (u8) "a_type a = -2" | (i16) "a_type a = -3" | (i32) "a_type a = -4" | (i64) "a_type a = -5"
      | (f32) "a_type a = -6" | (f64) "a_type a = -7" | (date) "a_type a = -8" | (time) "a_type a = -9" | (ts) "a_type a = -10"
      | (guid) "a_type a = -11" | (sym) "a_type a = -12" | (str) "a_type a = -13"
      using base_cases [OF b(1,2)] by metis
    then show ?thesis
    proof cases
      case bool
      then show ?thesis using ok w by (auto simp: ray_bool_def)
    next
      case u8
      then show ?thesis using ok w by (simp add: ray_u8_def)
    next
      case i16
      then show ?thesis using ok w by (simp add: ray_i16_def)
    next
      case i32
      then show ?thesis using ok w by (simp add: ray_i32_def)
    next
      case i64
      then show ?thesis using ok w by (simp add: ray_i64_def)
    next
      case f32
      then show ?thesis using ok w by (simp add: ray_f32_def)
    next
      case f64
      then show ?thesis using ok w by (simp add: ray_f64_def)
    next
      case date
      then show ?thesis using ok w by (simp add: ray_date_def flip: scast_eq)
    next
      case time
      then show ?thesis using ok w by (simp add: ray_time_def flip: scast_eq)
    next
      case ts
      then show ?thesis using ok w by (simp add: ray_timestamp_def)
    next
      case guid
      then show ?thesis using ok g assms(1) by (simp add: ray_guid_def header0_def)
    next
      case sym
      then show ?thesis
        using ok w fl read_sym_atom_text [of E "view_i64 (a_word a)" "if q then 32 else 0" rest] by (simp add: view_i64_def)
    next
      case str
      then show ?thesis using ok g b(3) assms(1) read_str_atom_text [of E "a_bytes a" 0 rest] by (simp add: ray_str_def)
    qed
  qed
qed

lemma read_header_put:
  assumes "n \<le> 1000000000" "bounded \<Longrightarrow> n \<le> length rest"
  shows "read_header bounded (attrs # put_le 8 (of_nat n) @ rest) = (Some (attrs, n), rest)"
  using assms by (auto simp: read_header_def Let_def)

lemma tl_vec_header: "vec_header t attrs n = tag t # attrs # put_le 8 (of_nat n)"
  by (simp add: vec_header_def)

lemma read_fixed_vec_put:
  assumes "\<forall>k. room E k" "n \<le> 1000000000" "length data = n * ray_type_sizes t"
  shows "read_fixed_vec E t (attrs # put_le 8 (of_nat n) @ data @ rest) = (VecObj t (attrs AND RAY_ATTR_HAS_NULLS) n data, rest)"
  using assms by (simp add: read_fixed_vec_def read_header_put Let_def)

lemma read_syms_put:
  "\<forall>i \<in> set ids. sym_ok E i \<Longrightarrow> read_syms E (length ids) (wire_syms E ids @ rest) = (Some ids, rest)"
proof (induction ids)
  case (Cons i ids)
  have "wire_syms E (i # ids) @ rest = sym_text E i @ 0 # wire_syms E ids @ rest" by (simp add: wire_syms_def)
  then show ?case using Cons sym_textD [of E i] by (simp add: strlen_text)
qed (simp add: wire_syms_def)

lemma length_wire_syms_ge: "length ids \<le> length (wire_syms E ids)"
  by (induction ids) (simp_all add: wire_syms_def)

lemma read_sym_vec_put:
  assumes "\<forall>k. room E k" "length ids \<le> 1000000000" "\<forall>i \<in> set ids. sym_ok E i"
  shows "read_sym_vec E (attrs # put_le 8 (of_nat (length ids)) @ wire_syms E ids @ rest) =
    (SymVec (RAY_SYM_W64 OR (attrs AND RAY_ATTR_HAS_NULLS)) ids, rest)"
  using assms length_wire_syms_ge [of ids E] by (simp add: read_sym_vec_def read_header_put read_syms_put)

lemma read_strs_put:
  assumes "\<forall>k. room E k"
  shows "pool_bytes (ss @ ss') < 2 ^ 32 \<Longrightarrow> \<forall>s \<in> set ss'. length s < 2 ^ 32 \<Longrightarrow>
    read_strs E ss (length ss') (concat (map (\<lambda>s. put_le 8 (of_nat (length s)) @ s) ss') @ rest) = (Inr (ss @ ss'), rest)"
proof (induction ss' arbitrary: ss)
  case (Cons s ss')
  have pool: "pool_bytes (ss @ s # ss') = pool_bytes ss + (if 12 < length s then length s else 0) + pool_bytes ss'"
    by (simp add: pool_bytes_def)
  have app: "str_append E ss s = Inr (ss @ [s])" using Cons.prems assms pool by (auto simp: str_append_def)
  have "length s < 2 ^ 63" using Cons.prems(2) by simp
  then show ?case
    using Cons.IH [of "ss @ [s]"] Cons.prems app by (simp add: Let_def)
qed simp

lemma read_str_vec_put:
  assumes "\<forall>k. room E k" "length ss \<le> 1000000000" "pool_bytes ss < 2 ^ 32" "\<forall>s \<in> set ss. length s < 2 ^ 32"
  shows "read_str_vec E (attrs # put_le 8 (of_nat (length ss)) @ concat (map (\<lambda>s. put_le 8 (of_nat (length s)) @ s) ss) @ rest) =
    (StrVec (attrs AND RAY_ATTR_HAS_NULLS) 0 ss, rest)"
proof -
  have "length ss \<le> length (concat (map (\<lambda>s. put_le 8 (of_nat (length s)) @ s) ss))" by (induction ss) auto
  then show ?thesis using assms read_strs_put [OF assms(1), of "[]" ss rest] by (simp add: read_str_vec_def read_header_put)
qed

lemma read_fn_put:
  "0 \<notin> set name \<Longrightarrow> env_get E (sym_intern E name) = Some f \<Longrightarrow> read_fn E (name @ 0 # rest) = (f, rest)"
  by (simp add: read_fn_def strlen_text)

lemma read_error_put:
  assumes "c = take 7 (takeWhile (\<lambda>b. b \<noteq> 0) c @ replicate 7 0)" "length c = 7"
  shows "read_error (c @ 0 # rest) = (ErrObj c, rest)"
proof -
  have "takeWhile (\<lambda>b. b \<noteq> 0) (c @ [0]) = takeWhile (\<lambda>b. b \<noteq> 0) c"
    by (induction c) auto
  then show ?thesis using assms by (simp add: read_error_def)
qed


text \<open>Objects that the wire format carries, and how deeply the reader nests on them.\<close>

fun wire_ok :: "serde_env \<Rightarrow> obj \<Rightarrow> bool" where
  "wire_ok E (ErrObj c) \<longleftrightarrow> length c = 7 \<and> c = take 7 (takeWhile (\<lambda>b. b \<noteq> 0) c @ replicate 7 0)"
| "wire_ok E (AtomObj q a) \<longleftrightarrow> atom_ok E q a"
| "wire_ok E (VecObj t attrs n data) \<longleftrightarrow> fixed_vec t \<and> n \<le> 1000000000 \<and> length data = n * ray_type_sizes t"
| "wire_ok E (SymVec attrs ids) \<longleftrightarrow> length ids \<le> 1000000000 \<and> (\<forall>i \<in> set ids. sym_ok E i)"
| "wire_ok E (StrVec attrs off ss) \<longleftrightarrow>
     pool_ok attrs off ss \<and> length ss \<le> 1000000000 \<and> pool_bytes ss < 2 ^ 32 \<and> (\<forall>s \<in> set ss. length s < 2 ^ 32)"
| "wire_ok E (ListObj attrs xs) \<longleftrightarrow> length xs \<le> 1000000000 \<and> (\<forall>x \<in> set xs. wire_ok E x \<and> \<not> is_err x)"
| "wire_ok E (TableObj attrs names cols) \<longleftrightarrow>
     (case cols of
        ListObj _ xs \<Rightarrow> length xs = length names \<and> (\<forall>i \<in> set names. sym_ok E i) \<and> wire_ok E cols
      | _ \<Rightarrow> False)"
| "wire_ok E (DictObj attrs k v) \<longleftrightarrow> wire_ok E k \<and> wire_ok E v \<and> \<not> is_err k \<and> \<not> is_err v"
| "wire_ok E (LambdaObj attrs p b) \<longleftrightarrow> wire_ok E p \<and> wire_ok E b \<and> \<not> is_err p \<and> \<not> is_err b"
| "wire_ok E (FnObj t name) \<longleftrightarrow> t \<in> {RAY_UNARY, RAY_BINARY, RAY_VARY} \<and> 0 \<notin> set name \<and> length name \<le> 15 \<and>
     env_get E (sym_intern E name) = Some (FnObj t name)"
| "wire_ok E (OtherObj t) \<longleftrightarrow> False"
| "wire_ok E x \<longleftrightarrow> True"

fun depth :: "obj \<Rightarrow> nat" where
  "depth (ListObj attrs xs) = 1 + foldr (\<lambda>x d. max (depth x) d) xs 0"
| "depth (TableObj attrs names cols) = 1 + depth cols"
| "depth (DictObj attrs k v) = 1 + max (depth k) (depth v)"
| "depth (LambdaObj attrs p b) = 1 + max (depth p) (depth b)"
| "depth x = 1"

lemma depth_pos: "0 < depth x"
  by (cases x) auto

lemma depth_elem: "x \<in> set xs \<Longrightarrow> depth x \<le> foldr (\<lambda>x d. max (depth x) d) xs 0"
  by (induction xs) auto

lemma wire_view_obj: "\<not> is_err x \<Longrightarrow> wire_view x \<noteq> NullPtr \<and> \<not> is_err (wire_view x)"
  by (cases x) auto

lemma wire_atom_Cons: "atom_ok E q a \<Longrightarrow> wire_atom E q a = tag (a_type a) # tl (wire_atom E q a)"
proof -
  assume "atom_ok E q a"
  then have b: "1 \<le> - a_type a" "- a_type a \<le> 13" unfolding atom_ok_def Let_def by blast+
  show ?thesis by (rule base_cases [OF b]) (simp_all add: wire_atom_def)
qed

lemma wire_nonempty: "wire_ok E x \<Longrightarrow> wire_of E x \<noteq> []"
  by (cases x) (auto simp: vec_header_def dest: wire_atom_Cons)

lemma length_wire_elems:
  "\<forall>x \<in> set xs. wire_ok E x \<Longrightarrow> length xs \<le> length (concat (map (wire_of E) xs))"
proof (induction xs)
  case (Cons x xs)
  have "0 < length (wire_of E x)" using Cons.prems wire_nonempty [of E x] by simp
  moreover have "length xs \<le> length (concat (map (wire_of E) xs))" using Cons by simp
  ultimately show ?case by (simp del: length_concat length_greater_0_conv)
qed simp

lemma sint_tag: "-128 \<le> t \<Longrightarrow> t \<le> 127 \<Longrightarrow> sint (tag t) = t"
  by (simp add: tag_def signed_of_int signed_take_bit_int_eq_self)

section \<open>The round trip\<close>

lemma read_raw_Cons:
  "- 128 \<le> t \<Longrightarrow> t \<le> 127 \<Longrightarrow> read_obj E (Suc d) (tag t # buf) =
     (let type = t
      in if type = RAY_SERDE_NULL then (NullObj, buf)
         else if type < 0 then read_atom E type buf
         else if fixed_vec type then read_fixed_vec E type buf
         else if type = RAY_SYM then read_sym_vec E buf
         else if type = RAY_STR then read_str_vec E buf
         else if type = RAY_LIST then
           (case read_header True buf of
              (None, rest) \<Rightarrow> (domain_error, rest)
            | (Some (attrs, l), rest) \<Rightarrow>
                if \<not> room E (8 * l) then (NullPtr, rest)
                else (case read_elems E d l rest of
                        (Inl e, rest) \<Rightarrow> (e, rest)
                      | (Inr xs, rest) \<Rightarrow> (ListObj (attrs AND RAY_SERDE_ATTR_WIRE_MASK) xs, rest)))
         else if type = RAY_TABLE \<or> type = RAY_DICT \<or> type = RAY_LAMBDA then
           (case buf of
              [] \<Rightarrow> (domain_error, [])
            | attrs # buf \<Rightarrow>
                (case read_obj E d buf of (x, buf) \<Rightarrow>
                   if x = NullPtr \<or> is_err x then (x, buf)
                   else (case read_obj E d buf of (y, buf) \<Rightarrow>
                     if y = NullPtr \<or> is_err y then (y, buf) else (build_pair E type attrs x y, buf))))
         else if type = RAY_UNARY \<or> type = RAY_BINARY \<or> type = RAY_VARY then read_fn E buf
         else if type = RAY_ERROR then read_error buf
         else (ray_error ''type'', buf))"
  by (subst read_obj.simps(2)) (simp only: sint_tag list.case)

lemma read_elems_put:
  assumes "\<forall>x \<in> set xs. \<not> is_err x \<and> (\<forall>rest. read_obj E d (wire_of E x @ rest) = (wire_view x, rest))"
  shows "read_elems E d (length xs) (concat (map (wire_of E) xs) @ rest) = (Inr (map wire_view xs), rest)"
  using assms
proof (induction xs)
  case (Cons x xs)
  then show ?case using wire_view_obj [of x] by simp
qed simp

lemma read_sym_vec_raw:
  assumes "\<forall>k. room E k" "length ids \<le> 1000000000" "\<forall>i \<in> set ids. sym_ok E i"
  shows "read_obj E (Suc d) (vec_header RAY_SYM attrs (length ids) @ wire_syms E ids @ rest) =
    (SymVec (RAY_SYM_W64 OR (attrs AND RAY_ATTR_HAS_NULLS)) ids, rest)"
  unfolding tl_vec_header append_Cons using read_sym_vec_put [OF assms] by (simp add: read_raw_Cons fixed_vec_def)

lemma fixed_vec_range: "fixed_vec t \<Longrightarrow> 1 \<le> t \<and> t \<le> 11"
  by (simp add: fixed_vec_def)

lemma read_pair:
  assumes "t \<in> {RAY_DICT, RAY_LAMBDA}" "\<forall>k. room E k" "\<not> is_err x" "\<not> is_err y"
    and "\<And>rest. read_obj E d (wire_of E x @ rest) = (wire_view x, rest)"
    and "\<And>rest. read_obj E d (wire_of E y @ rest) = (wire_view y, rest)"
  shows "read_obj E (Suc d) (tag t # attrs # wire_of E x @ wire_of E y @ rest) =
    (if t = RAY_DICT then DictObj (attrs AND RAY_SERDE_ATTR_WIRE_MASK) (wire_view x) (wire_view y)
     else LambdaObj 0 (wire_view x) (wire_view y), rest)"
  using assms wire_view_obj [of x] wire_view_obj [of y] by (auto simp: read_raw_Cons fixed_vec_def build_pair_def)

lemma read_table:
  assumes "\<forall>k. room E k" "length xs = length names" "length names \<le> 1000000000" "\<forall>i \<in> set names. sym_ok E i"
    and "\<And>rest. read_obj E (Suc d) (wire_of E (ListObj ca xs) @ rest) = (wire_view (ListObj ca xs), rest)"
  shows "read_obj E (Suc (Suc d)) (wire_of E (TableObj attrs names (ListObj ca xs)) @ rest) =
    (wire_view (TableObj attrs names (ListObj ca xs)), rest)"
proof -
  have s: "read_obj E (Suc d) (wire_schema E names @ rest) = (SymVec RAY_SYM_W64 names, rest)" for rest
    using read_sym_vec_raw [OF assms(1,3,4), of d RAY_SYM_W64 rest] by (simp add: wire_schema_def)
  have "rebuild_table E (SymVec RAY_SYM_W64 names) (wire_view (ListObj ca xs)) = wire_view (TableObj attrs names (ListObj ca xs))"
    using assms(1,2) by (simp add: rebuild_table_def Let_def)
  then show ?thesis using s assms(5) by (simp add: read_raw_Cons fixed_vec_def build_pair_def del: wire_of.simps(8))
qed

lemma read_wire:
  assumes "\<forall>k. room E k"
  shows "wire_ok E x \<Longrightarrow> depth x \<le> d \<Longrightarrow> read_obj E d (wire_of E x @ rest) = (wire_view x, rest)"
proof (induction x arbitrary: d rest)
  case NullPtr
  then show ?case by (cases d) (simp_all add: read_raw_Cons)
next
  case NullObj
  then show ?case by (cases d) (simp_all add: read_raw_Cons)
next
  case (ErrObj c)
  then obtain d' where d: "d = Suc d'" by (cases d) auto
  have "take 7 (c @ replicate 7 0) = c" using ErrObj.prems(1) by simp
  then show ?case using ErrObj.prems(1) read_error_put [of c rest] by (simp add: d read_raw_Cons fixed_vec_def)
next
  case (AtomObj q a)
  then obtain d' where d: "d = Suc d'" by (cases d) auto
  have ok: "atom_ok E q a" using AtomObj.prems by simp
  then have b: "1 \<le> - a_type a" "- a_type a \<le> 13" unfolding atom_ok_def Let_def by blast+
  have c: "wire_of E (AtomObj q a) @ rest = tag (a_type a) # tl (wire_atom E q a) @ rest"
    using wire_atom_Cons [OF ok] by (metis append_Cons wire_of.simps(4))
  show ?case unfolding c using read_wire_atom [OF assms ok, of rest] b by (simp add: d read_raw_Cons)
next
  case (VecObj t attrs n data)
  then obtain d' where d: "d = Suc d'" by (cases d) auto
  have t: "1 \<le> t" "t \<le> 11" "fixed_vec t" using VecObj.prems by (auto simp: fixed_vec_def)
  show ?case
    using VecObj.prems t read_fixed_vec_put [OF assms, of n data t "attrs AND 64" rest]
    by (simp add: d read_raw_Cons tl_vec_header)
next
  case (SymVec attrs ids)
  then obtain d' where d: "d = Suc d'" by (cases d) auto
  show ?case using SymVec.prems read_sym_vec_raw [OF assms, of ids d' "attrs AND 64" rest] by (simp add: d)
next
  case (StrVec attrs off ss)
  then obtain d' where d: "d = Suc d'" by (cases d) auto
  show ?case
    using StrVec.prems read_str_vec_put [OF assms, of ss "attrs AND 64" rest]
    by (simp add: d read_raw_Cons tl_vec_header fixed_vec_def)
next
  case (ListObj attrs xs)
  then obtain d' where d: "d = Suc d'" by (cases d) auto
  have "depth x \<le> d'" if "x \<in> set xs" for x using depth_elem [OF that] ListObj.prems d by simp
  then have "read_elems E d' (length xs) (concat (map (wire_of E) xs) @ rest) = (Inr (map wire_view xs), rest)"
    using ListObj by (intro read_elems_put) auto
  then show ?case
    using ListObj.prems assms length_wire_elems [of xs E]
    by (simp add: d read_raw_Cons tl_vec_header fixed_vec_def read_header_put)
next
  case (TableObj attrs names cols)
  then obtain ca xs where c: "cols = ListObj ca xs" by (auto split: obj.splits)
  then obtain d' where d: "d = Suc (Suc d')" using TableObj.prems(2) by (cases d; cases "d - 1") auto
  have "read_obj E (Suc d') (wire_of E cols @ rest) = (wire_view cols, rest)" for rest
    using TableObj by (intro TableObj.IH) (auto simp: c d)
  then show ?case
    using TableObj.prems(1) read_table [OF assms, of xs names d' ca attrs rest] by (simp add: c d del: wire_of.simps wire_view.simps)
next
  case (DictObj attrs k v)
  then obtain d' where d: "d = Suc d'" by (cases d) auto
  show ?case
    using read_pair [of RAY_DICT E k v d' "attrs AND 96" rest] DictObj assms by (simp add: d)
next
  case (LambdaObj attrs p b)
  then obtain d' where d: "d = Suc d'" by (cases d) auto
  show ?case
    using read_pair [of RAY_LAMBDA E p b d' 0 rest] LambdaObj assms by (simp add: d)
next
  case (FnObj t name)
  then obtain d' where d: "d = Suc d'" by (cases d) auto
  have tw: "takeWhile (\<lambda>c. c \<noteq> 0) name = name" using FnObj.prems by (subst takeWhile_eq_all_conv) auto
  have n: "fn_name name = name" unfolding fn_name_def tw using FnObj.prems by simp
  have t: "t = 101 \<or> t = 102 \<or> t = 103" using FnObj.prems by auto
  show ?case using t FnObj.prems read_fn_put [of name E "FnObj t name" rest] by (auto simp: d n read_raw_Cons fixed_vec_def)
next
  case (OtherObj t)
  then show ?case by simp
qed

lemma wire_ok_writable: "wire_ok E x \<Longrightarrow> writable x"
proof (induction E x rule: wire_ok.induct)
  case (7 E attrs names cols)
  then show ?case by (cases cols) auto
qed (auto simp: atom_ok_def Let_def)

section \<open>Bytes of any origin\<close>

text \<open>
  What bytes of any origin read as.  An object the reader builds has no attribute bit that promises a
  backing pointer or an index, as many bytes as its length says, and no null pointer and no error
  inside.  The name of a builtin may be that of any global, whatever it is bound to; the columns of a
  table may be the items of a global list.
\<close>

inductive from_wire :: "serde_env \<Rightarrow> obj \<Rightarrow> bool" for E where
  global: "env_get E i = Some x \<Longrightarrow> from_wire E x"
| null: "from_wire E NullPtr"
| null_obj: "from_wire E NullObj"
| err: "length c = 7 \<Longrightarrow> from_wire E (ErrObj c)"
| atom: "from_wire E (AtomObj q a)"
| vec: "fixed_vec t \<Longrightarrow> length data = n * ray_type_sizes t \<Longrightarrow> attrs AND NOT RAY_ATTR_HAS_NULLS = 0 \<Longrightarrow>
    from_wire E (VecObj t attrs n data)"
| syms: "attrs AND NOT (RAY_SYM_W64 OR RAY_ATTR_HAS_NULLS) = 0 \<Longrightarrow> from_wire E (SymVec attrs ids)"
| strs: "attrs AND NOT RAY_ATTR_HAS_NULLS = 0 \<Longrightarrow> from_wire E (StrVec attrs 0 ss)"
| items: "attrs AND NOT RAY_SERDE_ATTR_WIRE_MASK = 0 \<Longrightarrow>
    \<forall>x \<in> set xs. from_wire E x \<and> x \<noteq> NullPtr \<and> \<not> is_err x \<Longrightarrow> from_wire E (ListObj attrs xs)"
| table: "length xs = length names \<Longrightarrow> \<forall>x \<in> set xs. from_wire E x \<and> x \<noteq> NullPtr \<and> \<not> is_err x \<Longrightarrow>
    from_wire E (TableObj 0 names (ListObj 0 xs))"
| global_table: "length xs = length names \<Longrightarrow> env_get E i = Some (ListObj a ys) \<Longrightarrow> xs = take k ys \<Longrightarrow>
    from_wire E (TableObj 0 names (ListObj 0 xs))"
| dict: "attrs AND NOT RAY_SERDE_ATTR_WIRE_MASK = 0 \<Longrightarrow> from_wire E x \<Longrightarrow> x \<noteq> NullPtr \<Longrightarrow> \<not> is_err x \<Longrightarrow>
    from_wire E y \<Longrightarrow> y \<noteq> NullPtr \<Longrightarrow> \<not> is_err y \<Longrightarrow> from_wire E (DictObj attrs x y)"
| lambda: "from_wire E x \<Longrightarrow> x \<noteq> NullPtr \<Longrightarrow> \<not> is_err x \<Longrightarrow> from_wire E y \<Longrightarrow> y \<noteq> NullPtr \<Longrightarrow> \<not> is_err y \<Longrightarrow>
    from_wire E (LambdaObj 0 x y)"

inductive_cases from_wire_list: "from_wire E (ListObj attrs xs)"

declare from_wire.null [simp] from_wire.null_obj [simp] from_wire.atom [simp]

text \<open>What a reader may return: such an object, and a tail of the bytes it was given.\<close>

definition reads_ok :: "serde_env \<Rightarrow> u8 list \<Rightarrow> obj \<times> u8 list \<Rightarrow> bool" where
  "reads_ok E buf r \<longleftrightarrow> from_wire E (fst r) \<and> (\<exists>k. snd r = drop k buf)"

lemma tail_trans: "(\<exists>k. b = drop k a) \<Longrightarrow> (\<exists>k. c = drop k b) \<Longrightarrow> \<exists>k. c = drop k (a :: u8 list)"
  by (auto simp: drop_drop)

lemma tail_self [simp]: "\<exists>k. b = drop k (b :: u8 list)"
  by (rule exI [of _ 0]) simp

lemma tail_drop [simp]: "\<exists>k. drop n b = drop k (b :: u8 list)"
  by blast

lemma tail_Cons: "(\<exists>k. c = drop k b) \<Longrightarrow> \<exists>k. c = drop k (x # b :: u8 list)"
  by (auto intro: exI [of _ "Suc _"])

lemma from_error [simp]: "from_wire E (ray_error c)" "from_wire E domain_error"
  by (auto simp: ray_error_def domain_error_def intro: from_wire.err)

lemma is_err_error [simp]: "is_err (ray_error c)" "is_err domain_error"
  by (simp_all add: ray_error_def domain_error_def)

lemma from_got [simp]: "from_wire E (got a)"
  by (cases a) auto

lemma from_typed_null [simp]: "from_wire E (typed_null t)"
  by (auto simp: typed_null_def split: option.splits sum.splits)

lemma read_bytes_reads: "(\<And>bs. from_wire E (mk bs)) \<Longrightarrow> reads_ok E buf (read_bytes k buf mk)"
  by (auto simp: read_bytes_def reads_ok_def)

lemma reads_tail: "reads_ok E (drop k buf) r \<Longrightarrow> reads_ok E buf r"
  by (auto simp: reads_ok_def drop_drop)

lemma reads_err [simp]: "reads_ok E buf (ray_error c, buf)"
  by (simp add: reads_ok_def)

lemma read_sym_atom_reads: "reads_ok E buf (read_sym_atom E f buf)"
  by (auto simp: read_sym_atom_def reads_ok_def Let_def split: option.splits)

lemma read_str_atom_reads: "reads_ok E buf (read_str_atom E f buf)"
  by (auto simp: read_str_atom_def reads_ok_def Let_def drop_drop)

lemma read_atom_reads: "reads_ok E buf (read_atom E t buf)"
proof (cases buf)
  case Nil
  then show ?thesis by (simp add: read_atom_def reads_ok_def)
next
  case (Cons f rest)
  have "reads_ok E rest (read_atom E t buf)"
    unfolding read_atom_def Cons list.case Let_def
    by (auto intro!: read_bytes_reads read_sym_atom_reads read_str_atom_reads split: option.splits)
  then show ?thesis using reads_tail [of E 1 buf] by (simp add: Cons)
qed

lemma read_header_tail: "read_header b buf = (r, rest) \<Longrightarrow> \<exists>k. rest = drop k buf"
  by (auto simp: read_header_def Let_def split: if_splits)

lemma attr_masked [simp]:
  "(x AND m) AND NOT m = (0 :: u8)" "(w OR (x AND m)) AND NOT (w OR m) = (0 :: u8)" for x m w :: u8
  by (auto intro!: bit_word_eqI simp: bit_simps)

lemma read_fixed_vec_reads: "fixed_vec t \<Longrightarrow> reads_ok E buf (read_fixed_vec E t buf)"
  using attr_masked(1) [of _ 64]
  by (auto simp: read_fixed_vec_def reads_ok_def Let_def split: prod.splits option.splits dest!: read_header_tail intro!: from_wire.vec)

lemma read_syms_tail: "read_syms E n buf = (r, rest) \<Longrightarrow> \<exists>k. rest = drop k buf"
proof (induction n arbitrary: buf r)
  case (Suc n)
  show ?case
  proof (cases "length buf \<le> text_len buf")
    case False
    then obtain r' where "read_syms E n (drop (text_len buf + 1) buf) = (r', rest)"
      using Suc.prems by (auto simp: Let_def split: prod.splits)
    then show ?thesis using Suc.IH tail_trans [of "drop (text_len buf + 1) buf" buf rest] by blast
  qed (use Suc.prems in \<open>simp add: Let_def\<close>)
qed auto

lemma read_sym_vec_reads: "reads_ok E buf (read_sym_vec E buf)"
  using attr_masked(2) [of 3 _ 64]
  by (auto simp: read_sym_vec_def reads_ok_def split: option.splits prod.splits dest!: read_header_tail read_syms_tail intro!: from_wire.syms)

lemma read_strs_tail:
  "read_strs E ss n buf = (r, rest) \<Longrightarrow> (\<exists>k. rest = drop k buf) \<and> (\<forall>e. r = Inl e \<longrightarrow> from_wire E e)"
proof (induction n arbitrary: ss buf)
  case (Suc n)
  then show ?case
    using tail_trans [of "drop (nat (get_i64 buf) + 8) buf" buf rest] by (fastforce simp: Let_def split: if_splits sum.splits)
qed auto

lemma read_str_vec_reads: "reads_ok E buf (read_str_vec E buf)"
  using attr_masked(1) [of _ 64]
  by (auto simp: read_str_vec_def reads_ok_def split: option.splits prod.splits sum.splits
      dest!: read_header_tail read_strs_tail intro!: from_wire.strs)

lemma read_error_reads: "reads_ok E buf (read_error buf)"
  by (auto simp: read_error_def reads_ok_def intro!: from_wire.err)

lemma read_fn_reads: "reads_ok E buf (read_fn E buf)"
  by (auto simp: read_fn_def reads_ok_def Let_def split: option.splits intro: from_wire.global)

lemma table_from_wire:
  assumes "from_wire E (ListObj a xs)" "k \<le> length xs" "k \<le> length ids"
  shows "from_wire E (TableObj 0 (take k ids) (ListObj 0 (take k xs)))"
proof (rule from_wire_list [OF assms(1)])
  fix i
  assume "env_get E i = Some (ListObj a xs)"
  then show ?thesis using assms(2,3) by (intro from_wire.global_table) auto
next
  assume "\<forall>x \<in> set xs. from_wire E x \<and> x \<noteq> NullPtr \<and> \<not> is_err x"
  then show ?thesis using assms(2,3) set_take_subset [of k xs] by (intro from_wire.table) auto
qed

lemma from_rebuild: "from_wire E y \<Longrightarrow> from_wire E (rebuild_table E x y)"
  using table_from_wire by (auto simp: rebuild_table_def Let_def split: obj.splits option.splits)

lemma read_elems_reads:
  assumes "\<And>buf. reads_ok E buf (read_obj E d buf)"
  shows "read_elems E d n buf = (r, rest) \<Longrightarrow> (\<exists>k. rest = drop k buf) \<and>
    (case r of Inl e \<Rightarrow> from_wire E e | Inr xs \<Rightarrow> \<forall>x \<in> set xs. from_wire E x \<and> x \<noteq> NullPtr \<and> \<not> is_err x)"
proof (induction n arbitrary: buf r)
  case (Suc n)
  obtain x b where x: "read_obj E d buf = (x, b)" by fastforce
  then have ok: "from_wire E x" "\<exists>k. b = drop k buf" using assms [of buf] by (auto simp: reads_ok_def)
  show ?case
  proof (cases "is_err x")
    case True
    then show ?thesis using Suc.prems ok by (auto simp: x)
  next
    case False
    obtain r' where r': "read_elems E d n b = (r', rest)" using Suc.prems False by (auto simp: x split: prod.splits sum.splits)
    then have ih: "\<exists>k. rest = drop k buf"
        "case r' of Inl e \<Rightarrow> from_wire E e | Inr xs \<Rightarrow> \<forall>x \<in> set xs. from_wire E x \<and> x \<noteq> NullPtr \<and> \<not> is_err x"
      using Suc.IH [OF r'] tail_trans [OF ok(2)] by auto
    have "r = (case r' of Inl e \<Rightarrow> Inl e | Inr xs \<Rightarrow> Inr ((if x = NullPtr then NullObj else x) # xs))"
      using Suc.prems False by (cases r') (auto simp: x r')
    then show ?thesis using ih ok(1) False by (cases r') auto
  qed
qed auto

lemma read_pair_reads:
  assumes "\<And>buf. reads_ok E buf (read_obj E d buf)"
    and "\<And>x y b. from_wire E x \<Longrightarrow> x \<noteq> NullPtr \<Longrightarrow> \<not> is_err x \<Longrightarrow> from_wire E y \<Longrightarrow> y \<noteq> NullPtr \<Longrightarrow> \<not> is_err y \<Longrightarrow>
      from_wire E (mk x y)"
  shows "reads_ok E buf (case read_obj E d buf of (x, buf) \<Rightarrow>
      if x = NullPtr \<or> is_err x then (x, buf)
      else (case read_obj E d buf of (y, buf) \<Rightarrow> if y = NullPtr \<or> is_err y then (y, buf) else (mk x y, buf)))"
proof -
  obtain x b where x: "read_obj E d buf = (x, b)" by fastforce
  obtain y c where y: "read_obj E d b = (y, c)" by fastforce
  have "from_wire E x" "\<exists>k. b = drop k buf" "from_wire E y" "\<exists>k. c = drop k b"
    using assms(1) [of buf] assms(1) [of b] x y by (auto simp: reads_ok_def)
  then show ?thesis using assms(2) [of x y] tail_trans [of b buf c] by (auto simp: x y reads_ok_def)
qed

lemma read_list_reads:
  assumes "\<And>buf. reads_ok E buf (read_obj E d buf)"
  shows "reads_ok E buf (case read_header True buf of
      (None, rest) \<Rightarrow> (domain_error, rest)
    | (Some (attrs, l), rest) \<Rightarrow>
        if \<not> room E (8 * l) then (NullPtr, rest)
        else (case read_elems E d l rest of
                (Inl e, rest) \<Rightarrow> (e, rest)
              | (Inr xs, rest) \<Rightarrow> (ListObj (attrs AND RAY_SERDE_ATTR_WIRE_MASK) xs, rest)))"
proof -
  obtain h b where h: "read_header True buf = (h, b)" by fastforce
  note tb = read_header_tail [OF h]
  show ?thesis
  proof (cases h)
    case None
    then show ?thesis using tb by (auto simp: h reads_ok_def)
  next
    case (Some al)
    then obtain a l where al: "h = Some (a, l)" by (cases al) auto
    obtain r c where r: "read_elems E d l b = (r, c)" by fastforce
    have "\<exists>k. c = drop k buf"
        "case r of Inl e \<Rightarrow> from_wire E e | Inr xs \<Rightarrow> \<forall>x \<in> set xs. from_wire E x \<and> x \<noteq> NullPtr \<and> \<not> is_err x"
      using read_elems_reads [OF assms r] tail_trans [OF tb] by auto
    then show ?thesis
      using tb attr_masked(1) [of a 96] by (auto simp: h al r reads_ok_def intro!: from_wire.items split: sum.splits)
  qed
qed

lemma from_build_pair:
  assumes "from_wire E x" "x \<noteq> NullPtr" "\<not> is_err x" "from_wire E y" "y \<noteq> NullPtr" "\<not> is_err y"
  shows "from_wire E (build_pair E t a x y)"
  using assms from_rebuild [of E y x] attr_masked(1) [of a 96] by (auto simp: build_pair_def intro: from_wire.dict from_wire.lambda)

lemma read_obj_reads: "reads_ok E buf (read_obj E d buf)"
proof (induction d arbitrary: buf)
  case 0
  then show ?case by (simp add: reads_ok_def)
next
  case (Suc d)
  show ?case
  proof (cases buf)
    case Nil
    then show ?thesis by (simp add: read_obj.simps(2) reads_ok_def)
  next
    case (Cons b rest)
    have comp: "reads_ok E rest (case rest of [] \<Rightarrow> (domain_error, []) | attrs # buf \<Rightarrow>
        (case read_obj E d buf of (x, buf) \<Rightarrow>
           if x = NullPtr \<or> is_err x then (x, buf)
           else (case read_obj E d buf of (y, buf) \<Rightarrow>
             if y = NullPtr \<or> is_err y then (y, buf) else (build_pair E t attrs x y, buf))))" for t
    proof (cases rest)
      case Nil
      then show ?thesis by (simp add: reads_ok_def)
    next
      case (Cons a rest')
      have "rest' = drop 1 rest" by (simp add: Cons)
      then show ?thesis
        using read_pair_reads [OF Suc.IH, where mk = "build_pair E t a" and buf = rest'] from_build_pair reads_tail [of E 1 rest]
        by (simp add: Cons)
    qed
    have "reads_ok E rest (read_obj E (Suc d) (b # rest))"
      unfolding read_obj.simps(2) list.case Let_def
      using comp read_list_reads [OF Suc.IH] read_atom_reads read_fixed_vec_reads read_sym_vec_reads read_str_vec_reads
        read_fn_reads read_error_reads
      by (auto simp: reads_ok_def [of _ _ "(NullObj, _)"])
    then show ?thesis using reads_tail [of E 1 buf] by (simp add: Cons)
  qed
qed

end
