(* ===== verification/Serde.thy ===== *)
theory Serde
  imports Wire
begin

text \<open>
  Serialisation (\<^verbatim>\<open>store/serde.c\<close>): the writer and the reader of the wire format and the framed messages, on
  a block of memory.

  A block is the list of its bytes.  A store or a load outside of it has no result (\<open>None\<close>), and neither
  has following a wild pointer.  The writer takes the place \<^verbatim>\<open>buf\<close> in the block and returns the block and the
  number of bytes it counts, as the code does: the type byte is stored before the type is looked
  at.  The reader takes the place and \<^verbatim>\<open>*len\<close>, the number of bytes that remain, and returns the object and
  the new \<^verbatim>\<open>*len\<close>; the callers find the next place from it.

  The writer stores the bytes \<open>wire_of\<close> gives, and no others; the reader returns what \<open>read_obj\<close> reads off
  the bytes that remain, and never looks elsewhere, whatever they are.
\<close>

section \<open>A block of memory\<close>

definition peek :: "u8 list \<Rightarrow> int \<Rightarrow> nat \<Rightarrow> u8 list option" where
  "peek m p k = (if 0 \<le> p \<and> p + int k \<le> int (length m) then Some (take k (drop (nat p) m)) else None)"

definition overwrite :: "u8 list \<Rightarrow> nat \<Rightarrow> u8 list \<Rightarrow> u8 list" where
  "overwrite m p bs = take p m @ bs @ drop (p + length bs) m"

definition poke :: "u8 list \<Rightarrow> nat \<Rightarrow> u8 list \<Rightarrow> u8 list option" where
  "poke m p bs = (if p + length bs \<le> length m then Some (overwrite m p bs) else None)"

section \<open>Writing\<close>

text \<open>The last store of a case, and the count it returns.\<close>

definition stored :: "u8 list \<Rightarrow> nat \<Rightarrow> u8 list \<Rightarrow> nat \<Rightarrow> (u8 list \<times> nat) option" where
  "stored m p bs n = do { m \<leftarrow> poke m p bs; Some (m, n) }"

definition ser_atom :: "serde_env \<Rightarrow> u8 list \<Rightarrow> nat \<Rightarrow> bool \<Rightarrow> atom \<Rightarrow> (u8 list \<times> nat) option" where
  "ser_atom E m p quoted a = do {
     m \<leftarrow> poke m p [tag (a_type a)];
     m \<leftarrow> poke m (p + 1) [(if a_aux0 a then 1 else 0) OR (if a_type a = - RAY_SYM \<and> quoted then ATTR_QUOTED else 0)];
     let base = - a_type a;
     let p = p + 2;
     if base = RAY_BOOL \<or> base = RAY_U8 then stored m p (put_le 1 (a_word a)) (1 + 1 + 1)
     else if base = RAY_I16 then stored m p (put_le 2 (a_word a)) (1 + 1 + 2)
     else if base = RAY_I32 \<or> base = RAY_DATE \<or> base = RAY_TIME then stored m p (put_le 4 (a_word a)) (1 + 1 + 4)
     else if base = RAY_F32 then stored m p (put_le 4 (ucast (narrow E (a_word a)))) (1 + 1 + 4)
     else if base = RAY_I64 \<or> base = RAY_TIMESTAMP \<or> base = RAY_F64 then stored m p (put_le 8 (a_word a)) (1 + 1 + 8)
     else if base = RAY_GUID then stored m p (take 16 (a_bytes a @ replicate 16 0)) (1 + 1 + 16)
     else if base = RAY_SYM then do {
       let s = sym_text E (view_i64 (a_word a));
       m \<leftarrow> poke m p s;
       stored m (p + length s) [0] (1 + 1 + length s + 1)
     }
     else if base = RAY_STR then do {
       m \<leftarrow> poke m p (put_le 8 (of_nat (length (a_bytes a))));
       stored m (p + 8) (a_bytes a) (1 + 1 + 8 + length (a_bytes a))
     }
     else Some (m, 0)
   }"

fun ser_syms :: "serde_env \<Rightarrow> u8 list \<Rightarrow> nat \<Rightarrow> nat \<Rightarrow> int list \<Rightarrow> (u8 list \<times> nat) option" where
  "ser_syms E m buf c [] = Some (m, c)"
| "ser_syms E m buf c (i # ids) = do {
     let s = sym_text E i;
     m \<leftarrow> poke m (buf + c) s;
     let c = c + length s;
     m \<leftarrow> poke m (buf + c) [0];
     ser_syms E m buf (c + 1) ids
   }"

definition ser_schema_names :: "serde_env \<Rightarrow> u8 list \<Rightarrow> nat \<Rightarrow> int list \<Rightarrow> (u8 list \<times> nat) option" where
  "ser_schema_names E m buf ids = do {
     m \<leftarrow> poke m buf [tag RAY_SYM];
     m \<leftarrow> poke m (buf + 1) [RAY_SYM_W64];
     m \<leftarrow> poke m (buf + 2) (put_le 8 (of_nat (length ids)));
     ser_syms E m buf 10 ids
   }"

text \<open>
  The pool of a string vector: the slot holds the slice offset of a slice, and following a wild
  pointer has no result.  Strings of more than 12 bytes are in the pool.
\<close>

definition str_pool :: "u8 \<Rightarrow> nat \<Rightarrow> bool option" where
  "str_pool attrs off = (if attrs AND RAY_ATTR_SLICE = 0 then Some True else if off = 0 then Some False else None)"

fun ser_strs :: "u8 list \<Rightarrow> nat \<Rightarrow> nat \<Rightarrow> bool \<Rightarrow> u8 list list \<Rightarrow> (u8 list \<times> nat) option" where
  "ser_strs m buf c pool [] = Some (m, c)"
| "ser_strs m buf c pool (s # ss) = do {
     m \<leftarrow> poke m (buf + c) (put_le 8 (of_nat (length s)));
     let c = c + 8;
     src \<leftarrow> (if length s \<le> 12 \<or> pool then Some s else None);
     m \<leftarrow> poke m (buf + c) src;
     ser_strs m buf (c + length s) pool ss
   }"

text \<open>Attributes and length behind the type byte.\<close>

definition ser_head :: "u8 list \<Rightarrow> nat \<Rightarrow> u8 \<Rightarrow> nat \<Rightarrow> u8 list option" where
  "ser_head m buf attrs len = do { m \<leftarrow> poke m (buf + 1) [attrs]; poke m (buf + 2) (put_le 8 (of_nat len)) }"

fun ray_ser_raw :: "serde_env \<Rightarrow> u8 list \<Rightarrow> nat \<Rightarrow> obj \<Rightarrow> (u8 list \<times> nat) option"
  and ser_elems :: "serde_env \<Rightarrow> u8 list \<Rightarrow> nat \<Rightarrow> nat \<Rightarrow> obj list \<Rightarrow> (u8 list \<times> nat) option" where
  "ray_ser_raw E m buf NullPtr = stored m buf [tag RAY_SERDE_NULL] 1"
| "ray_ser_raw E m buf (ErrObj code) = do {
     m \<leftarrow> poke m buf [tag RAY_ERROR];
     m \<leftarrow> poke m (buf + 1) (take 7 (code @ replicate 7 0));
     stored m (buf + 8) [0] (1 + 8)
   }"
| "ray_ser_raw E m buf NullObj = stored m buf [tag RAY_SERDE_NULL] 1"
| "ray_ser_raw E m buf (AtomObj q a) = ser_atom E m buf q a"
| "ray_ser_raw E m buf (VecObj t attrs len data) = do {
     m \<leftarrow> poke m buf [tag t];
     if fixed_vec t then do {
       m \<leftarrow> ser_head m buf (attrs AND RAY_ATTR_HAS_NULLS) len;
       let dsz = len * ray_type_sizes t;
       src \<leftarrow> peek data 0 dsz;
       stored m (buf + 10) src (1 + 1 + 8 + dsz)
     }
     else Some (m, 0)
   }"
| "ray_ser_raw E m buf (SymVec attrs ids) = do {
     m \<leftarrow> poke m buf [tag RAY_SYM];
     m \<leftarrow> ser_head m buf (attrs AND RAY_ATTR_HAS_NULLS) (length ids);
     (m, c) \<leftarrow> ser_syms E m (buf + 10) 0 ids;
     Some (m, 1 + 1 + 8 + c)
   }"
| "ray_ser_raw E m buf (StrVec attrs off ss) = do {
     m \<leftarrow> poke m buf [tag RAY_STR];
     m \<leftarrow> ser_head m buf (attrs AND RAY_ATTR_HAS_NULLS) (length ss);
     pool \<leftarrow> str_pool attrs off;
     (m, c) \<leftarrow> ser_strs m (buf + 10) 0 pool ss;
     Some (m, 1 + 1 + 8 + c)
   }"
| "ray_ser_raw E m buf (ListObj attrs xs) = do {
     m \<leftarrow> poke m buf [tag RAY_LIST];
     m \<leftarrow> ser_head m buf (attrs AND RAY_SERDE_ATTR_WIRE_MASK) (length xs);
     (m, c) \<leftarrow> ser_elems E m (buf + 10) 0 xs;
     Some (m, 1 + 1 + 8 + c)
   }"
| "ray_ser_raw E m buf (TableObj attrs names cols) = do {
     m \<leftarrow> poke m buf [tag RAY_TABLE];
     m \<leftarrow> poke m (buf + 1) [attrs AND RAY_SERDE_ATTR_WIRE_MASK];
     (m, c) \<leftarrow> ser_schema_names E m (buf + 2) names;
     (m, d) \<leftarrow> ray_ser_raw E m (buf + 2 + c) cols;
     Some (m, 1 + 1 + (c + d))
   }"
| "ray_ser_raw E m buf (DictObj attrs k v) = do {
     m \<leftarrow> poke m buf [tag RAY_DICT];
     m \<leftarrow> poke m (buf + 1) [attrs AND RAY_SERDE_ATTR_WIRE_MASK];
     (m, c) \<leftarrow> ray_ser_raw E m (buf + 2) k;
     (m, d) \<leftarrow> ray_ser_raw E m (buf + 2 + c) v;
     Some (m, 1 + 1 + (c + d))
   }"
| "ray_ser_raw E m buf (LambdaObj attrs p b) = do {
     m \<leftarrow> poke m buf [tag RAY_LAMBDA];
     m \<leftarrow> poke m (buf + 1) [attrs AND 0];
     (m, c) \<leftarrow> ray_ser_raw E m (buf + 2) p;
     (m, d) \<leftarrow> ray_ser_raw E m (buf + 2 + c) b;
     Some (m, 1 + 1 + (c + d))
   }"
| "ray_ser_raw E m buf (FnObj t name) = do {
     m \<leftarrow> poke m buf [tag t];
     let name = fn_name name;
     m \<leftarrow> poke m (buf + 1) name;
     stored m (buf + 1 + length name) [0] (1 + length name + 1)
   }"
| "ray_ser_raw E m buf (OtherObj t) = stored m buf [tag t] 0"
| "ser_elems E m buf c [] = Some (m, c)"
| "ser_elems E m buf c (x # xs) = do {
     (m, k) \<leftarrow> ray_ser_raw E m (buf + c) x;
     ser_elems E m buf (c + k) xs
   }"

section \<open>Reading\<close>

primrec strlen_upto :: "u8 list \<Rightarrow> int \<Rightarrow> nat \<Rightarrow> nat option" where
  "strlen_upto m buf 0 = Some 0"
| "strlen_upto m buf (Suc n) = do {
     b \<leftarrow> peek m buf 1;
     if hd b = 0 then Some 0 else map_option Suc (strlen_upto m (buf + 1) n)
   }"

definition safe_strlen :: "u8 list \<Rightarrow> int \<Rightarrow> int \<Rightarrow> nat option" where
  "safe_strlen m buf avail = strlen_upto m buf (nat avail)"

text \<open>A case of \<^verbatim>\<open>de_raw_inner\<close> that needs \<open>k\<close> bytes, with its truncation check.\<close>

definition with_bytes :: "nat \<Rightarrow> u8 list \<Rightarrow> int \<Rightarrow> int \<Rightarrow> (u8 list \<Rightarrow> obj) \<Rightarrow> (obj \<times> int) option" where
  "with_bytes k m buf len mk =
     (if len < int k then Some (domain_error, len)
      else do { bs \<leftarrow> peek m buf k; Some (mk bs, len - int k) })"

definition de_sym_atom :: "serde_env \<Rightarrow> u8 \<Rightarrow> u8 list \<Rightarrow> int \<Rightarrow> int \<Rightarrow> (obj \<times> int) option" where
  "de_sym_atom E aflags m buf len = do {
     slen \<leftarrow> safe_strlen m buf len;
     if int slen \<ge> len then Some (domain_error, len)
     else do {
       let len = len - (int slen + 1);
       if aflags AND 1 \<noteq> 0 then Some (typed_null (- RAY_SYM), len)
       else do {
         text \<leftarrow> peek m buf slen;
         case ray_sym True (sym_intern E text) of
           Some a \<Rightarrow> Some (AtomObj (aflags AND ATTR_QUOTED \<noteq> 0) a, len)
         | None \<Rightarrow> Some (NullPtr, len)
       }
     }
   }"

definition de_str_atom :: "serde_env \<Rightarrow> u8 \<Rightarrow> u8 list \<Rightarrow> int \<Rightarrow> int \<Rightarrow> (obj \<times> int) option" where
  "de_str_atom E aflags m buf len =
     (if len < 8 then Some (domain_error, len)
      else do {
        bs \<leftarrow> peek m buf 8;
        let slen = get_i64 bs;
        let buf = buf + 8;
        let len = len - 8;
        if len < slen \<or> slen < 0 then Some (domain_error, len)
        else do {
          let len = len - slen;
          if aflags AND 1 \<noteq> 0 then Some (typed_null (- RAY_STR), len)
          else if 7 \<le> slen \<and> \<not> room E (nat slen + 1) then Some (NullPtr, len)
          else do { text \<leftarrow> peek m buf (nat slen); Some (AtomObj False (ray_str text), len) }
        }
      })"

definition de_atom :: "serde_env \<Rightarrow> int \<Rightarrow> u8 list \<Rightarrow> int \<Rightarrow> int \<Rightarrow> (obj \<times> int) option" where
  "de_atom E type m buf len =
     (if len < 1 then Some (domain_error, len)
      else do {
        fl \<leftarrow> peek m buf 1;
        let aflags = hd fl;
        let buf = buf + 1;
        let len = len - 1;
        let base = - type;
        let null_or = (\<lambda>x. if aflags AND 1 \<noteq> 0 then typed_null type else x);
        if base = RAY_BOOL then with_bytes 1 m buf len (\<lambda>bs. null_or (got (ray_bool True (hd bs \<noteq> 0))))
        else if base = RAY_U8 then with_bytes 1 m buf len (\<lambda>bs. null_or (got (ray_u8 True (hd bs))))
        else if base = RAY_I16
        then with_bytes 2 m buf len (\<lambda>bs. null_or (got (ray_i16 True (sint (load_le bs :: 16 word)))))
        else if base = RAY_I32
        then with_bytes 4 m buf len (\<lambda>bs. null_or (got (ray_i32 True (sint (load_le bs :: u32)))))
        else if base = RAY_DATE
        then with_bytes 4 m buf len (\<lambda>bs. null_or (got (ray_date True (sint (load_le bs :: u32)))))
        else if base = RAY_TIME
        then with_bytes 4 m buf len (\<lambda>bs. null_or (got (ray_time True (sint (load_le bs :: u32)))))
        else if base = RAY_F32 then with_bytes 4 m buf len (\<lambda>bs. null_or (got (ray_f32 E (load_le bs))))
        else if base = RAY_I64
        then with_bytes 8 m buf len (\<lambda>bs. null_or (got (ray_i64 True (sint (load_le bs :: u64)))))
        else if base = RAY_TIMESTAMP
        then with_bytes 8 m buf len (\<lambda>bs. null_or (got (ray_timestamp True (sint (load_le bs :: u64)))))
        else if base = RAY_F64 then with_bytes 8 m buf len (\<lambda>bs. null_or (got (ray_f64 True (load_le bs))))
        else if base = RAY_GUID
        then with_bytes 16 m buf len (\<lambda>bs. null_or (case ray_guid (room E 16) True bs of
                                            Some (Some a) \<Rightarrow> AtomObj False a | _ \<Rightarrow> NullPtr))
        else if base = RAY_SYM then de_sym_atom E aflags m buf len
        else if base = RAY_STR then de_str_atom E aflags m buf len
        else Some (ray_error ''type'', len)
      })"

text \<open>
  The header of a vector: attributes and length, or nothing for an error, and what is left of \<^verbatim>\<open>*len\<close>.
  The lengths of symbol, string and list vectors are also bounded by the bytes that remain.
\<close>

definition de_header :: "bool \<Rightarrow> u8 list \<Rightarrow> int \<Rightarrow> int \<Rightarrow> ((u8 \<times> nat) option \<times> int) option" where
  "de_header bounded m buf len =
     (if len < 9 then Some (None, len)
      else do {
        attrs \<leftarrow> peek m buf 1;
        bs \<leftarrow> peek m (buf + 1) 8;
        let l = get_i64 bs;
        let len = len - 9;
        Some (if l < 0 \<or> l > 1000000000 then None else if bounded \<and> l > len then None else Some (hd attrs, nat l), len)
      })"

definition de_fixed_vec :: "serde_env \<Rightarrow> int \<Rightarrow> u8 list \<Rightarrow> int \<Rightarrow> int \<Rightarrow> (obj \<times> int) option" where
  "de_fixed_vec E type m buf len = do {
     (h, len) \<leftarrow> de_header False m buf len;
     case h of
       None \<Rightarrow> Some (domain_error, len)
     | Some (attrs, l) \<Rightarrow> do {
         let data_bytes = l * ray_type_sizes type;
         if len < int data_bytes then Some (domain_error, len)
         else if \<not> room E data_bytes then Some (NullPtr, len)
         else do {
           data \<leftarrow> peek m (buf + 9) data_bytes;
           Some (VecObj type (attrs AND RAY_ATTR_HAS_NULLS) l data, len - int data_bytes)
         }
       }
   }"

fun de_syms :: "serde_env \<Rightarrow> u8 list \<Rightarrow> nat \<Rightarrow> int \<Rightarrow> int \<Rightarrow> (int list option \<times> int) option" where
  "de_syms E m 0 buf len = Some (Some [], len)"
| "de_syms E m (Suc n) buf len = do {
     slen \<leftarrow> safe_strlen m buf len;
     if int slen \<ge> len then Some (None, len)
     else do {
       text \<leftarrow> peek m buf slen;
       (ids, len) \<leftarrow> de_syms E m n (buf + (int slen + 1)) (len - (int slen + 1));
       Some (map_option (\<lambda>ids. sym_intern E text # ids) ids, len)
     }
   }"

definition de_sym_vec :: "serde_env \<Rightarrow> u8 list \<Rightarrow> int \<Rightarrow> int \<Rightarrow> (obj \<times> int) option" where
  "de_sym_vec E m buf len = do {
     (h, len) \<leftarrow> de_header True m buf len;
     case h of
       None \<Rightarrow> Some (domain_error, len)
     | Some (attrs, l) \<Rightarrow>
         if \<not> room E (8 * l) then Some (ray_error ''oom'', len)
         else do {
           (ids, len) \<leftarrow> de_syms E m l (buf + 9) len;
           Some (case ids of None \<Rightarrow> domain_error | Some ids \<Rightarrow> SymVec (RAY_SYM_W64 OR (attrs AND RAY_ATTR_HAS_NULLS)) ids, len)
         }
   }"

fun de_strs :: "serde_env \<Rightarrow> u8 list \<Rightarrow> u8 list list \<Rightarrow> nat \<Rightarrow> int \<Rightarrow> int \<Rightarrow> ((obj + u8 list list) \<times> int) option" where
  "de_strs E m ss 0 buf len = Some (Inr ss, len)"
| "de_strs E m ss (Suc n) buf len =
     (if len < 8 then Some (Inl domain_error, len)
      else do {
        bs \<leftarrow> peek m buf 8;
        let slen = get_i64 bs;
        let buf = buf + 8;
        let len = len - 8;
        if len < slen \<or> slen < 0 then Some (Inl domain_error, len)
        else do {
          text \<leftarrow> peek m buf (nat slen);
          case str_append E ss text of
            Inl code \<Rightarrow> Some (Inl (ray_error code), len)
          | Inr ss \<Rightarrow> de_strs E m ss n (buf + slen) (len - slen)
        }
      })"

definition de_str_vec :: "serde_env \<Rightarrow> u8 list \<Rightarrow> int \<Rightarrow> int \<Rightarrow> (obj \<times> int) option" where
  "de_str_vec E m buf len = do {
     (h, len) \<leftarrow> de_header True m buf len;
     case h of
       None \<Rightarrow> Some (domain_error, len)
     | Some (attrs, l) \<Rightarrow>
         if \<not> room E (16 * l) then Some (ray_error ''oom'', len)
         else do {
           (r, len) \<leftarrow> de_strs E m [] l (buf + 9) len;
           Some (case r of Inl e \<Rightarrow> e | Inr ss \<Rightarrow> StrVec (attrs AND RAY_ATTR_HAS_NULLS) 0 ss, len)
         }
   }"

definition de_fn :: "serde_env \<Rightarrow> u8 list \<Rightarrow> int \<Rightarrow> int \<Rightarrow> (obj \<times> int) option" where
  "de_fn E m buf len = do {
     nlen \<leftarrow> safe_strlen m buf len;
     if int nlen \<ge> len then Some (domain_error, len)
     else do {
       name \<leftarrow> peek m buf nlen;
       case env_get E (sym_intern E name) of
         None \<Rightarrow> Some (ray_error ''name'', len)
       | Some fn \<Rightarrow> Some (fn, len - (int nlen + 1))
     }
   }"

definition de_error :: "u8 list \<Rightarrow> int \<Rightarrow> int \<Rightarrow> (obj \<times> int) option" where
  "de_error m buf len =
     (if len < 8 then Some (domain_error, len)
      else do {
        code \<leftarrow> peek m buf 8;
        Some (ErrObj (take 7 (takeWhile (\<lambda>c. c \<noteq> 0) code @ replicate 7 0)), len - 8)
      })"

function ray_de_raw :: "serde_env \<Rightarrow> u8 list \<Rightarrow> nat \<Rightarrow> int \<Rightarrow> int \<Rightarrow> (obj \<times> int) option"
  and de_elems :: "serde_env \<Rightarrow> u8 list \<Rightarrow> nat \<Rightarrow> int \<Rightarrow> int \<Rightarrow> nat \<Rightarrow> int \<Rightarrow> ((obj + obj list) \<times> int) option" where
  "ray_de_raw E m 0 buf len = Some (domain_error, len)"
| "ray_de_raw E m (Suc d) buf len =
     (if len < 1 then Some (NullPtr, len)
      else do {
        b \<leftarrow> peek m buf 1;
        let type = sint (hd b);
        let buf = buf + 1;
        let len = len - 1;
        if type = RAY_SERDE_NULL then Some (NullObj, len)
        else if type < 0 then de_atom E type m buf len
        else if fixed_vec type then de_fixed_vec E type m buf len
        else if type = RAY_SYM then de_sym_vec E m buf len
        else if type = RAY_STR then de_str_vec E m buf len
        else if type = RAY_LIST then do {
          (h, len) \<leftarrow> de_header True m buf len;
          case h of
            None \<Rightarrow> Some (domain_error, len)
          | Some (attrs, l) \<Rightarrow>
              if \<not> room E (8 * l) then Some (NullPtr, len)
              else do {
                (r, len) \<leftarrow> de_elems E m d (buf + 9) len l len;
                Some (case r of Inl e \<Rightarrow> e | Inr xs \<Rightarrow> ListObj (attrs AND RAY_SERDE_ATTR_WIRE_MASK) xs, len)
              }
        }
        else if type = RAY_TABLE \<or> type = RAY_DICT \<or> type = RAY_LAMBDA then
          (if len < 1 then Some (domain_error, len)
           else do {
             attrs \<leftarrow> peek m buf 1;
             let buf = buf + 1;
             let saved = len - 1;
             (x, len) \<leftarrow> ray_de_raw E m d buf saved;
             if x = NullPtr \<or> is_err x then Some (x, len)
             else do {
               (y, len) \<leftarrow> ray_de_raw E m d (buf + (saved - len)) len;
               Some (if y = NullPtr \<or> is_err y then y else build_pair E type (hd attrs) x y, len)
             }
           })
        else if type = RAY_UNARY \<or> type = RAY_BINARY \<or> type = RAY_VARY then de_fn E m buf len
        else if type = RAY_ERROR then de_error m buf len
        else Some (ray_error ''type'', len)
      })"
| "de_elems E m d buf saved 0 len = Some (Inr [], len)"
| "de_elems E m d buf saved (Suc n) len = do {
     (x, len) \<leftarrow> ray_de_raw E m d (buf + (saved - len)) len;
     if is_err x then Some (Inl x, len)
     else do {
       (r, len) \<leftarrow> de_elems E m d buf saved n len;
       Some (case r of Inl e \<Rightarrow> Inl e | Inr xs \<Rightarrow> Inr ((if x = NullPtr then NullObj else x) # xs), len)
     }
   }"
  by pat_completeness auto
termination
  by (relation "measures [\<lambda>x. case x of Inl (_, _, d, _) \<Rightarrow> 2 * d | Inr (_, _, d, _) \<Rightarrow> 2 * d + 1,
                          \<lambda>x. case x of Inl _ \<Rightarrow> 0 | Inr (_, _, _, _, _, n, _) \<Rightarrow> n]") auto

declare ray_de_raw.simps(2) [simp del]

section \<open>Frames\<close>

abbreviation (input) RAY_SERDE_PREFIX :: u32 where "RAY_SERDE_PREFIX \<equiv> 0xcefadefa"
abbreviation (input) RAY_SERDE_WIRE_VERSION :: u8 where "RAY_SERDE_WIRE_VERSION \<equiv> 3"

definition ipc_header :: "int \<Rightarrow> u8 list" where
  "ipc_header sz = put_le 4 (ucast RAY_SERDE_PREFIX) @ [RAY_SERDE_WIRE_VERSION, 0, 0, 0] @ put_le 8 (word_of_int sz)"

text \<open>\<open>ray_ser\<close> of an object that is not lazy: \<open>Inl\<close> is the error object.\<close>

definition ray_ser :: "serde_env \<Rightarrow> obj \<Rightarrow> (obj + u8 list) option" where
  "ray_ser E x = do {
     let payload = ray_serde_size E x;
     if payload \<le> 0 then Some (Inl domain_error)
     else do {
       let total_bytes = nat (16 + payload);
       if \<not> room E total_bytes then Some (Inl (ray_error ''oom''))
       else do {
         m \<leftarrow> poke (map (junk E) [0..<total_bytes]) 0 (ipc_header payload);
         (m, written) \<leftarrow> ray_ser_raw E m 16 x;
         Some (if written = 0 then Inl domain_error else Inr m)
       }
     }
   }"

definition ray_de :: "serde_env \<Rightarrow> u8 list \<Rightarrow> obj option" where
  "ray_de E bytes =
     (if length bytes < 16 then Some domain_error
      else do {
        prefix \<leftarrow> peek bytes 0 4;
        version \<leftarrow> peek bytes 4 1;
        endian \<leftarrow> peek bytes 6 1;
        size \<leftarrow> peek bytes 8 8;
        if (load_le prefix :: u32) \<noteq> RAY_SERDE_PREFIX then Some domain_error
        else if hd version \<noteq> RAY_SERDE_WIRE_VERSION then Some (ray_error ''version'')
        else if hd endian \<noteq> 0 then Some domain_error
        else if get_i64 size < 0 \<or> get_i64 size > 1000000000 then Some domain_error
        else if get_i64 size + 16 \<noteq> int (length bytes) then Some domain_error
        else do {
          (x, _) \<leftarrow> ray_de_raw E bytes RAY_DE_MAX_DEPTH 16 (get_i64 size);
          Some x
        }
      })"

section \<open>The writer stores the bytes of the object\<close>

lemma length_overwrite [simp]: "p + length bs \<le> length m \<Longrightarrow> length (overwrite m p bs) = length m"
  by (simp add: overwrite_def)

lemma overwrite_empty [simp]: "overwrite m p [] = m"
  by (simp add: overwrite_def)

lemma overwrite_twice:
  assumes "p + length a + length b \<le> length m"
  shows "overwrite (overwrite m p a) (p + length a) b = overwrite m p (a @ b)"
proof -
  have "length (take p m) = p" using assms by simp
  then show ?thesis by (simp add: overwrite_def add.commute add.left_commute)
qed

lemma poke_next:
  assumes "q = p + length a" "p + length a + length b \<le> length m"
  shows "poke (overwrite m p a) q b = Some (overwrite m p (a @ b))"
  using assms overwrite_twice [OF assms(2)] by (simp add: poke_def)

lemma stored_next:
  assumes "q = p + length a" "p + length a + length b \<le> length m"
  shows "stored (overwrite m p a) q b n = Some (overwrite m p (a @ b), n)"
  using poke_next [OF assms] by (simp add: stored_def)

lemma ser_atom_stores:
  assumes "1 \<le> - a_type x" "- a_type x \<le> 13" "p + length a + length (wire_atom E q x) \<le> length m"
  shows "ser_atom E (overwrite m p a) (p + length a) q x =
    Some (overwrite m p (a @ wire_atom E q x), length (wire_atom E q x))"
  by (rule base_cases [OF assms(1,2)])
    (use assms(3) in \<open>simp_all add: ser_atom_def wire_atom_def Let_def poke_next stored_next min_def\<close>)

lemma ser_syms_stores:
  "buf + c = p + length a \<Longrightarrow> p + length a + length (wire_syms E ids) \<le> length m \<Longrightarrow>
   ser_syms E (overwrite m p a) buf c ids = Some (overwrite m p (a @ wire_syms E ids), c + length (wire_syms E ids))"
proof (induction ids arbitrary: a c)
  case (Cons i ids)
  have w: "wire_syms E (i # ids) = sym_text E i @ 0 # wire_syms E ids" by (simp add: wire_syms_def)
  have "poke (overwrite m p a) (buf + c) (sym_text E i) = Some (overwrite m p (a @ sym_text E i))"
    "poke (overwrite m p (a @ sym_text E i)) (buf + (c + length (sym_text E i))) [0] = Some (overwrite m p (a @ sym_text E i @ [0]))"
    using Cons.prems poke_next [of _ p "a @ sym_text E i" "[0]" m] by (simp_all add: w poke_next)
  then show ?case using Cons.IH [of "c + length (sym_text E i) + 1" "a @ sym_text E i @ [0]"] Cons.prems by (simp add: w Let_def add.assoc)
qed (simp add: wire_syms_def)

lemma ser_strs_stores:
  "buf + c = p + length a \<Longrightarrow> pool \<or> (\<forall>s \<in> set ss. length s \<le> 12) \<Longrightarrow>
   p + length a + length (concat (map (\<lambda>s. put_le 8 (of_nat (length s)) @ s) ss)) \<le> length m \<Longrightarrow>
   ser_strs (overwrite m p a) buf c pool ss =
     Some (overwrite m p (a @ concat (map (\<lambda>s. put_le 8 (of_nat (length s)) @ s) ss)),
       c + length (concat (map (\<lambda>s. put_le 8 (of_nat (length s)) @ s) ss)))"
proof (induction ss arbitrary: a c)
  case (Cons s ss)
  let ?h = "put_le 8 (of_nat (length s))"
  have "poke (overwrite m p a) (buf + c) ?h = Some (overwrite m p (a @ ?h))"
    "poke (overwrite m p (a @ ?h)) (buf + (c + 8)) s = Some (overwrite m p (a @ ?h @ s))"
    using Cons.prems poke_next [of _ p "a @ ?h" s m] by (simp_all add: poke_next)
  moreover have "length s \<le> 12 \<or> pool" using Cons.prems(2) by auto
  moreover have "pool \<or> (\<forall>s \<in> set ss. length s \<le> 12)" using Cons.prems(2) by auto
  ultimately show ?case using Cons.IH [of "c + 8 + length s" "a @ ?h @ s"] Cons.prems by (simp add: Let_def add.assoc del: length_concat)
qed simp

lemma ser_head_stores:
  assumes "buf + 1 = p + length a" "p + length a + 9 \<le> length m"
  shows "ser_head (overwrite m p a) buf attrs n = Some (overwrite m p (a @ attrs # put_le 8 (of_nat n)))"
  using assms poke_next [of "buf + 2" p "a @ [attrs]" "put_le 8 (of_nat n)" m]
  by (simp add: ser_head_def poke_next)

lemma ser_schema_stores:
  assumes "p + length a + length (wire_schema E ids) \<le> length m"
  shows "ser_schema_names E (overwrite m p a) (p + length a) ids =
    Some (overwrite m p (a @ wire_schema E ids), length (wire_schema E ids))"
proof -
  let ?h = "[tag RAY_SYM]" and ?w = "[RAY_SYM_W64]" and ?n = "put_le 8 (of_nat (length ids))"
  note len = assms [unfolded wire_schema_def vec_header_def]
  have "poke (overwrite m p a) (p + length a) ?h = Some (overwrite m p (a @ ?h))"
    "poke (overwrite m p (a @ ?h)) (p + length a + 1) ?w = Some (overwrite m p (a @ ?h @ ?w))"
    "poke (overwrite m p (a @ ?h @ ?w)) (p + length a + 2) ?n = Some (overwrite m p (a @ ?h @ ?w @ ?n))"
    using len poke_next [of _ p "a @ ?h" ?w m] poke_next [of _ p "a @ ?h @ ?w" ?n m] by (simp_all add: poke_next)
  then show ?thesis
    using len ser_syms_stores [of "p + length a" 10 p "a @ ?h @ ?w @ ?n" E ids m]
    by (simp add: ser_schema_names_def wire_schema_def vec_header_def)
qed

lemma ser_elems_stores:
  assumes "\<And>x a. x \<in> set xs \<Longrightarrow> p + length a + length (wire_of E x) \<le> length m \<Longrightarrow>
     ray_ser_raw E (overwrite m p a) (p + length a) x = Some (overwrite m p (a @ wire_of E x), length (wire_of E x))"
  shows "buf + c = p + length a \<Longrightarrow> p + length a + length (concat (map (wire_of E) xs)) \<le> length m \<Longrightarrow>
    ser_elems E (overwrite m p a) buf c xs =
      Some (overwrite m p (a @ concat (map (wire_of E) xs)), c + length (concat (map (wire_of E) xs)))"
  using assms
proof (induction xs arbitrary: a c)
  case (Cons x xs)
  have "ray_ser_raw E (overwrite m p a) (buf + c) x = Some (overwrite m p (a @ wire_of E x), length (wire_of E x))"
    using Cons.prems(3) [of x a] Cons.prems(1,2) by simp
  then show ?case
    using Cons.IH [of "c + length (wire_of E x)" "a @ wire_of E x"] Cons.prems by (simp del: length_concat)
qed simp

text \<open>The stores of the compound types: type byte, attributes, and what follows.\<close>

lemma two_bytes:
  assumes "p + length a + 2 \<le> length m"
  shows "poke (overwrite m p a) (p + length a) [t] = Some (overwrite m p (a @ [t]))"
    "poke (overwrite m p (a @ [t])) (p + length a + 1) [f] = Some (overwrite m p (a @ [t, f]))"
  using assms poke_next [of "p + length a + 1" p "a @ [t]" "[f]" m] by (simp_all add: poke_next)

lemma head_stores:
  assumes "p + length a + 10 \<le> length m"
  shows "poke (overwrite m p a) (p + length a) [tag t] = Some (overwrite m p (a @ [tag t]))"
    "ser_head (overwrite m p (a @ [tag t])) (p + length a) attrs n = Some (overwrite m p (a @ vec_header t attrs n))"
  using assms ser_head_stores [of "p + length a" p "a @ [tag t]" m attrs n] by (simp_all add: poke_next tl_vec_header)

lemma ser_raw_stores:
  "writable x \<Longrightarrow> p + length a + length (wire_of E x) \<le> length m \<Longrightarrow>
   ray_ser_raw E (overwrite m p a) (p + length a) x = Some (overwrite m p (a @ wire_of E x), length (wire_of E x))"
proof (induction x arbitrary: a)
  case NullPtr
  then show ?case by (simp add: stored_next)
next
  case NullObj
  then show ?case by (simp add: stored_next)
next
  case (ErrObj c)
  define c' where "c' = take 7 (c @ replicate 7 0)"
  have c: "length c' = 7" by (simp add: c'_def)
  have len: "p + length a + 9 \<le> length m" using ErrObj.prems(2) c by (simp flip: c'_def)
  have "poke (overwrite m p a) (p + length a) [tag RAY_ERROR] = Some (overwrite m p (a @ [tag RAY_ERROR]))"
    "poke (overwrite m p (a @ [tag RAY_ERROR])) (p + length a + 1) c' = Some (overwrite m p (a @ tag RAY_ERROR # c'))"
    "stored (overwrite m p (a @ tag RAY_ERROR # c')) (p + length a + 8) [0] 9 = Some (overwrite m p (a @ tag RAY_ERROR # c' @ [0]), 9)"
    using len c poke_next [of _ p "a @ [tag RAY_ERROR]" c' m] stored_next [of _ p "a @ tag RAY_ERROR # c'" "[0]" m 9]
    by (simp_all add: poke_next add.assoc)
  then show ?case using c by (simp flip: c'_def del: take_append)
next
  case (AtomObj q aa)
  then show ?case by (simp add: ser_atom_stores)
next
  case (VecObj t attrs n data)
  have d: "peek data 0 (n * ray_type_sizes t) = Some data" using VecObj.prems by (simp add: peek_def)
  show ?case
    using VecObj.prems d head_stores(1) [of p a m t] head_stores(2) [of p a m t "attrs AND RAY_ATTR_HAS_NULLS" n]
      stored_next [of "p + length a + 10" p "a @ vec_header t (attrs AND RAY_ATTR_HAS_NULLS) n" data m]
    by simp
next
  case (SymVec attrs ids)
  let ?h = "vec_header RAY_SYM (attrs AND RAY_ATTR_HAS_NULLS) (length ids)"
  show ?case
    using SymVec.prems head_stores(1) [of p a m RAY_SYM] head_stores(2) [of p a m RAY_SYM "attrs AND RAY_ATTR_HAS_NULLS" "length ids"]
      ser_syms_stores [of "p + length a + 10" 0 p "a @ ?h" E ids m]
    by simp
next
  case (StrVec attrs off ss)
  let ?h = "vec_header RAY_STR (attrs AND RAY_ATTR_HAS_NULLS) (length ss)"
  obtain pool where "str_pool attrs off = Some pool" "pool \<or> (\<forall>s \<in> set ss. length s \<le> 12)"
    using StrVec.prems(1) by (cases "attrs AND RAY_ATTR_SLICE = 0") (auto simp: str_pool_def pool_ok_def)
  then show ?case
    using StrVec.prems(2) head_stores(1) [of p a m RAY_STR] head_stores(2) [of p a m RAY_STR "attrs AND RAY_ATTR_HAS_NULLS" "length ss"]
      ser_strs_stores [of "p + length a + 10" 0 p "a @ ?h" pool ss m]
    by (simp del: length_concat)
next
  case (ListObj attrs xs)
  let ?h = "vec_header RAY_LIST (attrs AND RAY_SERDE_ATTR_WIRE_MASK) (length xs)"
  show ?case
    using ListObj head_stores(1) [of p a m RAY_LIST] head_stores(2) [of p a m RAY_LIST "attrs AND RAY_SERDE_ATTR_WIRE_MASK" "length xs"]
      ser_elems_stores [of xs p E m "p + length a + 10" 0 "a @ ?h"]
    by (simp del: length_concat)
next
  case (TableObj attrs names cols)
  let ?h = "[tag RAY_TABLE, attrs AND RAY_SERDE_ATTR_WIRE_MASK]"
  show ?case
    using TableObj two_bytes(1) [of p a m "tag RAY_TABLE"] two_bytes(2) [of p a m "tag RAY_TABLE" "attrs AND RAY_SERDE_ATTR_WIRE_MASK"]
      ser_schema_stores [of p "a @ ?h" E names m] TableObj.IH [of "a @ ?h @ wire_schema E names"]
    by (simp add: add.assoc)
next
  case (DictObj attrs k v)
  let ?h = "[tag RAY_DICT, attrs AND RAY_SERDE_ATTR_WIRE_MASK]"
  show ?case
    using DictObj.prems two_bytes(1) [of p a m "tag RAY_DICT"] two_bytes(2) [of p a m "tag RAY_DICT" "attrs AND RAY_SERDE_ATTR_WIRE_MASK"]
      DictObj.IH(1) [of "a @ ?h"] DictObj.IH(2) [of "a @ ?h @ wire_of E k"]
    by (simp add: add.assoc)
next
  case (LambdaObj attrs k v)
  let ?h = "[tag RAY_LAMBDA, attrs AND 0]"
  show ?case
    using LambdaObj.prems two_bytes(1) [of p a m "tag RAY_LAMBDA"] two_bytes(2) [of p a m "tag RAY_LAMBDA" "attrs AND 0"]
      LambdaObj.IH(1) [of "a @ ?h"] LambdaObj.IH(2) [of "a @ ?h @ wire_of E k"]
    by (simp add: add.assoc)
next
  case (FnObj t name)
  let ?c = "fn_name name"
  have "poke (overwrite m p a) (p + length a) [tag t] = Some (overwrite m p (a @ [tag t]))"
    "poke (overwrite m p (a @ [tag t])) (p + length a + 1) ?c = Some (overwrite m p (a @ tag t # ?c))"
    "stored (overwrite m p (a @ tag t # ?c)) (p + length a + 1 + length ?c) [0] n = Some (overwrite m p (a @ tag t # ?c @ [0]), n)" for n
    using FnObj.prems poke_next [of _ p "a @ [tag t]" ?c m] stored_next [of _ p "a @ tag t # ?c" "[0]" m]
    by (simp_all add: poke_next add.assoc)
  then show ?case by (simp add: Let_def)
next
  case (OtherObj t)
  then show ?case by simp
qed

section \<open>The reader reads off the bytes that remain\<close>

text \<open>The bytes \<open>w\<close> stand at the place \<open>p\<close>.\<close>

definition sees :: "u8 list \<Rightarrow> int \<Rightarrow> u8 list \<Rightarrow> bool" where
  "sees m p w \<longleftrightarrow> 0 \<le> p \<and> p + int (length w) \<le> int (length m) \<and> take (length w) (drop (nat p) m) = w"

text \<open>A result with the remaining bytes counted.\<close>

definition counted :: "'a \<times> u8 list \<Rightarrow> 'a \<times> int" where
  "counted r = (fst r, int (length (snd r)))"

lemma counted_Pair [simp]: "counted (x, b) = (x, int (length b))"
  by (simp add: counted_def)

lemma peek_sees:
  assumes "sees m p w" "k \<le> length w"
  shows "peek m p k = Some (take k w)"
proof -
  have "take k w = take k (take (length w) (drop (nat p) m))" using assms(1) by (simp add: sees_def)
  also have "\<dots> = take k (drop (nat p) m)" using assms(2) by (simp add: min_def)
  finally show ?thesis using assms by (simp add: sees_def peek_def)
qed

lemma sees_drop:
  assumes "sees m p w" "k \<le> length w"
  shows "sees m (p + int k) (drop k w)"
proof -
  have "take (length w - k) (drop k (drop (nat p) m)) = drop k (take (length w) (drop (nat p) m))"
    by (simp add: drop_take)
  then have "take (length w - k) (drop k (drop (nat p) m)) = drop k w" using assms(1) by (simp add: sees_def)
  moreover have "nat (p + int k) = k + nat p" using assms(1) by (simp add: sees_def nat_add_distrib)
  ultimately show ?thesis using assms by (simp add: sees_def)
qed

text \<open>The place behind a reader that has left a tail.\<close>

lemma sees_tail:
  assumes "sees m p w" "\<exists>k. b = drop k w"
  shows "sees m (p + (int (length w) - int (length b))) b"
proof -
  obtain k where "b = drop k w" using assms(2) by blast
  then have b: "b = drop (min k (length w)) w" "min k (length w) \<le> length w" by (auto simp: min_def)
  then have "int (length w) - int (length b) = int (min k (length w))" by (metis diff_diff_cancel length_drop of_nat_diff diff_le_self)
  then show ?thesis using sees_drop [OF assms(1) b(2)] b(1) by simp
qed

lemma text_len_le: "text_len b \<le> length b"
  by (simp add: text_len_def length_takeWhile_le)

lemma strlen_upto_sees: "sees m p w \<Longrightarrow> strlen_upto m p (length w) = Some (text_len w)"
proof (induction w arbitrary: p)
  case (Cons b w)
  have "strlen_upto m (p + 1) (length w) = Some (text_len w)" using Cons.IH [of "p + 1"] sees_drop [OF Cons.prems, of 1] by simp
  then show ?case using peek_sees [OF Cons.prems, of 1] by (simp add: text_len_def)
qed (simp add: text_len_def)

lemma safe_strlen_sees: "sees m p w \<Longrightarrow> safe_strlen m p (int (length w)) = Some (text_len w)"
  by (simp add: safe_strlen_def strlen_upto_sees)

lemma with_bytes_refines: "sees m p w \<Longrightarrow> with_bytes k m p (int (length w)) mk = Some (counted (read_bytes k w mk))"
  by (simp add: with_bytes_def read_bytes_def peek_sees of_nat_diff)

lemma de_sym_atom_refines:
  assumes "sees m p w"
  shows "de_sym_atom E f m p (int (length w)) = Some (counted (read_sym_atom E f w))"
proof -
  have "int (length w) - (int (text_len w) + 1) = int (length (drop (text_len w + 1) w))" if "\<not> length w \<le> text_len w"
    using that by simp
  then show ?thesis using assms text_len_le [of w]
    by (simp add: de_sym_atom_def read_sym_atom_def safe_strlen_sees peek_sees Let_def split: option.splits)
qed

lemma get_i64_take [simp]: "get_i64 (take 8 w) = get_i64 w"
  by (simp add: get_i64_def)

lemma de_str_atom_refines:
  assumes "sees m p w"
  shows "de_str_atom E f m p (int (length w)) = Some (counted (read_str_atom E f w))"
proof (cases "length w < 8")
  case False
  have i: "sees m (p + 8) (drop 8 w)" using sees_drop [OF assms, of 8] False by simp
  have len: "int (length w) - 8 = int (length (drop 8 w))" using False by simp
  show ?thesis
    using False peek_sees [OF assms, of 8] peek_sees [OF i]
    by (simp add: de_str_atom_def read_str_atom_def len Let_def not_less nat_le_iff of_nat_diff del: length_drop) (auto simp: of_nat_diff nat_le_iff)
qed (simp add: de_str_atom_def read_str_atom_def)

lemma de_atom_refines:
  assumes "sees m p w"
  shows "de_atom E t m p (int (length w)) = Some (counted (read_atom E t w))"
proof (cases w)
  case Nil
  then show ?thesis by (simp add: de_atom_def read_atom_def)
next
  case (Cons b v)
  have i: "sees m (p + 1) v" using sees_drop [OF assms, of 1] by (simp add: Cons)
  have len: "int (length w) - 1 = int (length v)" "\<not> int (length w) < 1" by (simp_all add: Cons)
  have pk: "peek m p 1 = Some [b]" using peek_sees [OF assms, of 1] by (simp add: Cons)
  show ?thesis
    unfolding de_atom_def read_atom_def Cons list.case Let_def
    using pk by (simp add: with_bytes_refines [OF i] de_sym_atom_refines [OF i] de_str_atom_refines [OF i])
qed

lemma de_header_refines:
  assumes "sees m p w"
  shows "de_header b m p (int (length w)) = Some (counted (read_header b w))"
proof (cases "length w < 9")
  case False
  have i: "sees m (p + 1) (drop 1 w)" using sees_drop [OF assms, of 1] False by simp
  have "peek m p 1 = Some (take 1 w)" "peek m (p + 1) 8 = Some (take 8 (drop 1 w))"
    using peek_sees [OF assms, of 1] peek_sees [OF i, of 8] False by simp_all
  moreover have "hd (take 1 w) = hd w" using False by (cases w) auto
  ultimately show ?thesis using False by (auto simp: de_header_def read_header_def Let_def of_nat_diff)
qed (simp add: de_header_def read_header_def)

lemma header_place: "sees m p w \<Longrightarrow> read_header b w = (Some (a, l), rest) \<Longrightarrow> sees m (p + 9) rest"
  using sees_drop [of m p w 9] by (auto simp: read_header_def Let_def split: if_splits)

lemma de_fixed_vec_refines:
  assumes "sees m p w"
  shows "de_fixed_vec E t m p (int (length w)) = Some (counted (read_fixed_vec E t w))"
proof -
  obtain h rest where h: "read_header False w = (h, rest)" by fastforce
  show ?thesis
  proof (cases h)
    case (Some al)
    then obtain a l where al: "h = Some (a, l)" by (cases al) auto
    note i = header_place [OF assms h [unfolded al]]
    show ?thesis using peek_sees [OF i]
      by (simp add: de_fixed_vec_def read_fixed_vec_def de_header_refines [OF assms] h al Let_def of_nat_diff not_less del: of_nat_mult)
  qed (simp add: de_fixed_vec_def read_fixed_vec_def de_header_refines [OF assms] h)
qed

lemma de_syms_refines: "sees m p w \<Longrightarrow> de_syms E m n p (int (length w)) = Some (counted (read_syms E n w))"
proof (induction n arbitrary: p w)
  case (Suc n)
  show ?case
  proof (cases "length w \<le> text_len w")
    case False
    let ?k = "text_len w + 1"
    have i: "sees m (p + int ?k) (drop ?k w)" by (rule sees_drop [OF Suc.prems]) (use False in simp)
    have len: "int (length w) - (int (text_len w) + 1) = int (length (drop ?k w))" using False by simp
    have "de_syms E m n (p + (int (text_len w) + 1)) (int (length (drop ?k w))) = Some (counted (read_syms E n (drop ?k w)))"
      using Suc.IH [OF i] by (simp add: ac_simps)
    then show ?thesis
      using False peek_sees [OF Suc.prems, of "text_len w"]
      by (simp add: safe_strlen_sees [OF Suc.prems] Let_def len counted_def case_prod_beta del: length_drop)
  qed (simp add: safe_strlen_sees [OF Suc.prems])
qed simp

lemma de_sym_vec_refines:
  assumes "sees m p w"
  shows "de_sym_vec E m p (int (length w)) = Some (counted (read_sym_vec E w))"
proof -
  obtain h rest where h: "read_header True w = (h, rest)" by fastforce
  show ?thesis
  proof (cases h)
    case (Some al)
    then obtain a l where al: "h = Some (a, l)" by (cases al) auto
    note i = header_place [OF assms h [unfolded al]]
    show ?thesis
      by (simp add: de_sym_vec_def read_sym_vec_def de_header_refines [OF assms] de_syms_refines [OF i] h al counted_def
          split: prod.split option.split)
  qed (simp add: de_sym_vec_def read_sym_vec_def de_header_refines [OF assms] h)
qed

lemma de_strs_refines: "sees m p w \<Longrightarrow> de_strs E m ss n p (int (length w)) = Some (counted (read_strs E ss n w))"
proof (induction n arbitrary: p w ss)
  case (Suc n)
  show ?case
  proof (cases "length w < 8")
    case False
    let ?v = "drop 8 w" and ?k = "get_i64 w"
    have v: "sees m (p + 8) ?v" using sees_drop [OF Suc.prems, of 8] False by simp
    have len: "int (length w) - 8 = int (length ?v)" using False by simp
    have pk: "peek m p 8 = Some (take 8 w)" using peek_sees [OF Suc.prems, of 8] False by simp
    show ?thesis
    proof (cases "int (length ?v) < ?k \<or> ?k < 0")
      case True
      then show ?thesis using False pk by (simp add: len Let_def del: length_drop)
    next
      case ok: False
      then have k: "nat ?k \<le> length ?v" "int (nat ?k) = ?k" by auto
      have s: "sees m (p + 8 + ?k) (drop (nat ?k) ?v)" using sees_drop [OF v k(1)] k(2) by simp
      have l: "int (length ?v) - ?k = int (length (drop (nat ?k) ?v))" using k by (simp only: length_drop of_nat_diff)
      have "de_strs E m ss n (p + 8 + ?k) (int (length ?v) - ?k) = Some (counted (read_strs E ss n (drop (nat ?k) ?v)))" for ss
        unfolding l using Suc.IH [OF s] .
      then show ?thesis
        using False ok pk peek_sees [OF v k(1)] by (simp add: len Let_def del: length_drop drop_drop split: sum.split)
    qed
  qed simp
qed simp

lemma de_str_vec_refines:
  assumes "sees m p w"
  shows "de_str_vec E m p (int (length w)) = Some (counted (read_str_vec E w))"
proof -
  obtain h rest where h: "read_header True w = (h, rest)" by fastforce
  show ?thesis
  proof (cases h)
    case (Some al)
    then obtain a l where al: "h = Some (a, l)" by (cases al) auto
    note i = header_place [OF assms h [unfolded al]]
    show ?thesis
      by (simp add: de_str_vec_def read_str_vec_def de_header_refines [OF assms] de_strs_refines [OF i] h al counted_def
          split: prod.split sum.split)
  qed (simp add: de_str_vec_def read_str_vec_def de_header_refines [OF assms] h)
qed

lemma de_fn_refines:
  assumes "sees m p w"
  shows "de_fn E m p (int (length w)) = Some (counted (read_fn E w))"
  using peek_sees [OF assms, of "text_len w"] text_len_le [of w]
  by (simp add: de_fn_def read_fn_def safe_strlen_sees [OF assms] Let_def of_nat_diff split: option.split)

lemma de_error_refines: "sees m p w \<Longrightarrow> de_error m p (int (length w)) = Some (counted (read_error w))"
  by (simp add: de_error_def read_error_def peek_sees of_nat_diff)

lemma de_elems_refines:
  assumes "\<And>p w. sees m p w \<Longrightarrow> ray_de_raw E m d p (int (length w)) = Some (counted (read_obj E d w))"
    and "sees m p w"
  shows "\<exists>k. b = drop k w \<Longrightarrow>
    de_elems E m d p (int (length w)) n (int (length b)) = Some (counted (read_elems E d n b))"
proof (induction n arbitrary: b)
  case (Suc n)
  obtain x c where x: "read_obj E d b = (x, c)" by fastforce
  have i: "sees m (p + (int (length w) - int (length b))) b" using sees_tail [OF assms(2) Suc.prems] .
  have c: "\<exists>k. c = drop k w"
    using tail_trans [OF Suc.prems] read_obj_reads [of E b d] by (simp add: x reads_ok_def)
  show ?case
    using Suc.IH [OF c] by (simp add: assms(1) [OF i] x counted_def split: prod.split sum.split)
qed simp

lemma ray_de_raw_refines:
  "sees m p w \<Longrightarrow> ray_de_raw E m d p (int (length w)) = Some (counted (read_obj E d w))"
proof (induction d arbitrary: p w)
  case (Suc d)
  show ?case
  proof (cases w)
    case Nil
    then show ?thesis by (simp add: ray_de_raw.simps(2) read_obj.simps(2))
  next
    case (Cons b v)
    have i: "sees m (p + 1) v" using sees_drop [OF Suc.prems, of 1] by (simp add: Cons)
    have len: "int (length w) - 1 = int (length v)" "\<not> int (length w) < 1" by (simp_all add: Cons)
    have pk: "peek m p 1 = Some [b]" using peek_sees [OF Suc.prems, of 1] by (simp add: Cons)
    have items: "(do {
          (h, len) \<leftarrow> de_header True m (p + 1) (int (length v));
          case h of
            None \<Rightarrow> Some (domain_error, len)
          | Some (attrs, l) \<Rightarrow>
              if \<not> room E (8 * l) then Some (NullPtr, len)
              else do {
                (r, len) \<leftarrow> de_elems E m d (p + 1 + 9) len l len;
                Some (case r of Inl e \<Rightarrow> e | Inr xs \<Rightarrow> ListObj (attrs AND RAY_SERDE_ATTR_WIRE_MASK) xs, len)
              }
        }) = Some (counted (case read_header True v of
              (None, rest) \<Rightarrow> (domain_error, rest)
            | (Some (attrs, l), rest) \<Rightarrow>
                if \<not> room E (8 * l) then (NullPtr, rest)
                else (case read_elems E d l rest of
                        (Inl e, rest) \<Rightarrow> (e, rest)
                      | (Inr xs, rest) \<Rightarrow> (ListObj (attrs AND RAY_SERDE_ATTR_WIRE_MASK) xs, rest))))"
    proof -
      obtain h rest where h: "read_header True v = (h, rest)" by fastforce
      show ?thesis
      proof (cases h)
        case (Some al)
        then obtain a l where al: "h = Some (a, l)" by (cases al) auto
        note j = header_place [OF i h [unfolded al]]
        have "de_elems E m d (p + 1 + 9) (int (length rest)) l (int (length rest)) = Some (counted (read_elems E d l rest))"
          using de_elems_refines [OF Suc.IH j, of rest l] tail_self [of rest] by simp
        then show ?thesis by (simp add: de_header_refines [OF i] h al counted_def split: prod.split sum.split)
      qed (simp add: de_header_refines [OF i] h)
    qed
    have pair: "(if int (length v) < 1 then Some (domain_error, int (length v))
        else do {
          attrs \<leftarrow> peek m (p + 1) 1;
          let buf = p + 1 + 1;
          let saved = int (length v) - 1;
          (x, len) \<leftarrow> ray_de_raw E m d buf saved;
          if x = NullPtr \<or> is_err x then Some (x, len)
          else do {
            (y, len) \<leftarrow> ray_de_raw E m d (buf + (saved - len)) len;
            Some (if y = NullPtr \<or> is_err y then y else build_pair E t (hd attrs) x y, len)
          }
        }) = Some (counted (case v of
             [] \<Rightarrow> (domain_error, [])
           | attrs # buf \<Rightarrow>
               (case read_obj E d buf of (x, buf) \<Rightarrow>
                  if x = NullPtr \<or> is_err x then (x, buf)
                  else (case read_obj E d buf of (y, buf) \<Rightarrow>
                    if y = NullPtr \<or> is_err y then (y, buf) else (build_pair E t attrs x y, buf)))))" for t
    proof (cases v)
      case (Cons a u)
      have j: "sees m (p + 1 + 1) u" using sees_drop [OF i, of 1] by (simp add: Cons)
      have pa: "peek m (p + 1) 1 = Some [a]" using peek_sees [OF i, of 1] by (simp add: Cons)
      have lu: "int (length v) - 1 = int (length u)" "\<not> int (length v) < 1" by (simp_all add: Cons)
      obtain x c where x: "read_obj E d u = (x, c)" by fastforce
      have "\<exists>k. c = drop k u" using read_obj_reads [of E u d] by (simp add: x reads_ok_def)
      note c = Suc.IH [OF sees_tail [OF j this]]
      show ?thesis
        unfolding lu pa Let_def using c Suc.IH [OF j] lu(2) by (simp add: Cons x counted_def split: prod.split)
    qed simp
    show ?thesis
      unfolding ray_de_raw.simps(2) read_obj.simps(2) Cons list.case pk len [unfolded Cons] if_False Option.bind.simps(2) Let_def list.sel(1)
      unfolding items [unfolded Let_def] pair [unfolded Let_def] de_atom_refines [OF i] de_fixed_vec_refines [OF i] de_sym_vec_refines [OF i]
          de_str_vec_refines [OF i] de_fn_refines [OF i] de_error_refines [OF i]
      unfolding counted_Pair [symmetric] using len(2) [unfolded Cons] by (simp only: if_False if_distrib [of "\<lambda>r. Some (counted r)"])
  qed
qed simp

section \<open>Frames read and written\<close>

lemma writable_nonempty: "writable x \<Longrightarrow> wire_of E x \<noteq> []"
proof (cases x)
  case (AtomObj q a)
  assume "writable x"
  then have b: "1 \<le> - a_type a" "- a_type a \<le> 13" by (simp_all add: AtomObj)
  show ?thesis by (rule base_cases [OF b]) (simp_all add: AtomObj wire_atom_def)
qed (auto simp: vec_header_def)

lemma overwrite_all: "length bs = length m \<Longrightarrow> overwrite m 0 bs = bs"
  by (simp add: overwrite_def)

lemma length_ipc_header [simp]: "length (ipc_header sz) = 16"
  by (simp add: ipc_header_def)

lemma ray_ser_frame:
  assumes "writable x" "room E (16 + length (wire_of E x))"
  shows "ray_ser E x = Some (Inr (ipc_header (ray_serde_size E x) @ wire_of E x))"
proof -
  let ?p = "wire_of E x" and ?h = "ipc_header (ray_serde_size E x)"
  have sz: "ray_serde_size E x = int (length ?p)" using wire_size [OF assms(1)] .
  then have tot: "nat (16 + ray_serde_size E x) = 16 + length ?p" by simp
  define J where "J = map (junk E) [0..<16 + length ?p]"
  have J: "length J = 16 + length ?p" by (simp add: J_def)
  have "poke J 0 ?h = Some (overwrite J 0 ?h)" using J by (simp add: poke_def)
  moreover have "ray_ser_raw E (overwrite J 0 ?h) 16 x = Some (overwrite J 0 (?h @ ?p), length ?p)"
    using ser_raw_stores [OF assms(1), of 0 ?h E J] J by simp
  moreover have "overwrite J 0 (?h @ ?p) = ?h @ ?p" by (rule overwrite_all) (simp add: J)
  ultimately show ?thesis
    using assms(2) writable_nonempty [OF assms(1), of E] sz
    unfolding ray_ser_def Let_def tot by (simp add: J_def del: map_append)
qed

lemma ipc_header_bytes:
  "(load_le (take 4 (ipc_header sz)) :: u32) = RAY_SERDE_PREFIX" "drop 8 (ipc_header sz) = put_le 8 (word_of_int sz)"
  by (simp_all add: ipc_header_def)

text \<open>The fields of the header of a buffer.\<close>

lemma sees_all: "sees m 0 m"
  by (simp add: sees_def)

lemma peek_in: "p + k \<le> length m \<Longrightarrow> peek m (int p) k = Some (take k (drop p m))"
  by (simp add: peek_def)

lemma take_1_nth: "k < length m \<Longrightarrow> take 1 (drop k m) = [m ! k]"
  by (simp add: take_Suc hd_drop_conv_nth)

lemma ray_de_fields:
  assumes "16 \<le> length bytes"
  shows "ray_de E bytes =
    (if (load_le (take 4 bytes) :: u32) \<noteq> RAY_SERDE_PREFIX then Some domain_error
     else if bytes ! 4 \<noteq> RAY_SERDE_WIRE_VERSION then Some (ray_error ''version'')
     else if bytes ! 6 \<noteq> 0 then Some domain_error
     else if get_i64 (drop 8 bytes) < 0 \<or> get_i64 (drop 8 bytes) > 1000000000 then Some domain_error
     else if get_i64 (drop 8 bytes) + 16 \<noteq> int (length bytes) then Some domain_error
     else map_option fst (ray_de_raw E bytes RAY_DE_MAX_DEPTH 16 (get_i64 (drop 8 bytes))))"
proof -
  have "peek bytes 0 4 = Some (take 4 bytes)" "peek bytes 4 1 = Some [bytes ! 4]" "peek bytes 6 1 = Some [bytes ! 6]"
    "peek bytes 8 8 = Some (take 8 (drop 8 bytes))"
    using assms peek_in [of 0 4 bytes] peek_in [of 4 1 bytes] peek_in [of 6 1 bytes] peek_in [of 8 8 bytes]
      take_1_nth [of 4 bytes] take_1_nth [of 6 bytes] by simp_all
  then show ?thesis
    unfolding ray_de_def using assms by (cases "ray_de_raw E bytes RAY_DE_MAX_DEPTH 16 (get_i64 (drop 8 bytes))") auto
qed

lemma ray_de_frame:
  assumes "length payload < 2 ^ 63"
  shows "ray_de E (ipc_header (int (length payload)) @ payload) =
    Some (if length payload \<le> 1000000000 then fst (read_obj E RAY_DE_MAX_DEPTH payload) else domain_error)"
proof -
  let ?h = "ipc_header (int (length payload))"
  note h = ipc_header_bytes [of "int (length payload)"]
  have sz: "get_i64 (drop 8 ?h @ payload) = int (length payload)"
    unfolding h(2) using get_put_len [OF assms, of payload] by (simp only: of_int_of_nat_eq)
  have f: "(?h @ payload) ! 4 = RAY_SERDE_WIRE_VERSION" "(?h @ payload) ! 6 = 0"
      "(load_le (take 4 (?h @ payload)) :: u32) = RAY_SERDE_PREFIX" "get_i64 (drop 8 (?h @ payload)) = int (length payload)"
    using h(1) sz by (simp_all add: ipc_header_def nth_append)
  have "sees (?h @ payload) 16 payload" using sees_drop [OF sees_all, of 16 "?h @ payload"] by simp
  then have "ray_de_raw E (?h @ payload) RAY_DE_MAX_DEPTH 16 (int (length payload)) =
      Some (counted (read_obj E RAY_DE_MAX_DEPTH payload))" by (rule ray_de_raw_refines)
  then show ?thesis
    by (subst ray_de_fields) (simp, simp only: f, simp add: counted_def)
qed

lemma frame_reads_back:
  assumes "\<forall>k. room E k" "wire_ok E x" "depth x \<le> 512" "length (wire_of E x) \<le> 1000000000"
  shows "ray_de E (ipc_header (int (length (wire_of E x))) @ wire_of E x) = Some (wire_view x)"
  using ray_de_frame [of "wire_of E x" E] read_wire [OF assms(1-3), of "[]"] assms(4) by simp

lemma ray_de_raw_reads:
  assumes "0 \<le> p" "0 \<le> len" "p + len \<le> int (length m)"
  shows "\<exists>r rest. ray_de_raw E m d p len = Some (r, rest) \<and> from_wire E r \<and> 0 \<le> rest \<and> rest \<le> len"
    "ray_de_raw E m d p len = ray_de_raw E (take (nat len) (drop (nat p) m)) d 0 len"
proof -
  let ?w = "take (nat len) (drop (nat p) m)"
  have len: "int (length ?w) = len" using assms by simp
  have s: "sees m p ?w" using assms by (auto simp: sees_def)
  have r: "ray_de_raw E m d p len = Some (counted (read_obj E d ?w))" using ray_de_raw_refines [OF s] by (simp only: len)
  then show "ray_de_raw E m d p len = ray_de_raw E ?w d 0 len"
    using ray_de_raw_refines [OF sees_all, of E ?w d] by (simp only: len)
  obtain k where "snd (read_obj E d ?w) = drop k ?w" "from_wire E (fst (read_obj E d ?w))"
    using read_obj_reads [of E ?w d] by (auto simp: reads_ok_def)
  then show "\<exists>r rest. ray_de_raw E m d p len = Some (r, rest) \<and> from_wire E r \<and> 0 \<le> rest \<and> rest \<le> len"
    using r assms by (auto simp: counted_def)
qed

lemma ray_de_reads: "\<exists>r. ray_de E bytes = Some r \<and> from_wire E r"
proof (cases "16 \<le> length bytes")
  case True
  show ?thesis
  proof (cases "0 \<le> get_i64 (drop 8 bytes) \<and> get_i64 (drop 8 bytes) + 16 = int (length bytes)")
    case ok: True
    then obtain r k where "ray_de_raw E bytes RAY_DE_MAX_DEPTH 16 (get_i64 (drop 8 bytes)) = Some (r, k)" "from_wire E r"
      using ray_de_raw_reads(1) [of 16 "get_i64 (drop 8 bytes)" bytes E RAY_DE_MAX_DEPTH] by auto
    then show ?thesis using True by (simp add: ray_de_fields)
  next
    case False
    then show ?thesis using True by (auto simp: ray_de_fields)
  qed
qed (simp add: ray_de_def)

section \<open>Flaws\<close>

text \<open>In a slice of a string vector that does not start at the first row the slice offset is followed as a pool.\<close>

lemma slice_offset_followed:
  assumes "attrs AND RAY_ATTR_SLICE \<noteq> 0" "off \<noteq> 0"
  shows "ray_ser_raw E m p (StrVec attrs off ss) = None"
proof -
  have "str_pool attrs off = None" using assms by (simp add: str_pool_def)
  then show ?thesis by (auto simp: bind_eq_None_conv)
qed

text \<open>
  The type byte of an object that cannot be written is not counted: at the end of a list it is stored
  past the block of the frame.
\<close>

lemma unknown_item_past_end:
  assumes "t < 0 \<or> 0 < t" "\<forall>k. room E k"
  shows "ray_ser E (ListObj 0 [NullObj, OtherObj t]) = None"
  using assms(2)
  by (simp add: ray_ser_def vec_size_guard_def poke_def stored_def ser_head_def Let_def)

text \<open>A builtin is read by its name, whatever the name is bound to.\<close>

lemma name_reads_any_global:
  assumes "0 \<notin> set s" "env_get E (sym_intern E s) = Some x"
  shows "ray_de_raw E (tag RAY_UNARY # s @ [0]) (Suc d) 0 (int (length s) + 2) = Some (x, 0)"
  using ray_de_raw_refines [OF sees_all, of E "tag RAY_UNARY # s @ [0]" "Suc d"] read_fn_put [OF assms, of "[]"]
  by (simp add: read_raw_Cons fixed_vec_def add.commute)

text \<open>A payload of more than a billion bytes is written without an error, and cannot be read.\<close>

lemma big_frame_unreadable:
  assumes "\<forall>k. room E k" "writable x" "ray_serde_size E x > 1000000000" "ray_serde_size E x < 2 ^ 63"
  shows "\<exists>bytes. ray_ser E x = Some (Inr bytes) \<and> ray_de E bytes = Some domain_error"
proof -
  let ?p = "wire_of E x"
  have sz: "ray_serde_size E x = int (length ?p)" using wire_size [OF assms(2)] .
  have "ray_ser E x = Some (Inr (ipc_header (int (length ?p)) @ ?p))" using ray_ser_frame [OF assms(2), of E] assms(1) sz by simp
  moreover have "ray_de E (ipc_header (int (length ?p)) @ ?p) = Some domain_error" using ray_de_frame [of ?p E] assms(3,4) sz by simp
  ultimately show ?thesis by blast
qed

section \<open>Properties\<close>


definition demo_env :: serde_env where
  "demo_env = \<lparr>sym_str = [7 \<mapsto> [97, 98]], sym_intern = (\<lambda>s. if s = [97, 98] then 7 else -1), env_get = (\<lambda>_. None),
     narrow = (\<lambda>w. ucast (drop_bit 32 w)), widen = (\<lambda>v. push_bit 32 (ucast v)), room = (\<lambda>_. True), junk = (\<lambda>i. 0xAA)\<rparr>"

definition demo_obj :: obj where
  "demo_obj = ListObj 0x30 [AtomObj False (header0\<lparr>a_type := - RAY_I64, a_word := 5\<rparr>), NullObj,
     TableObj 0 [7] (ListObj 0 [StrVec 0x40 0 [[1, 2], []]]), DictObj 0x20 (SymVec 3 [7]) (VecObj RAY_I16 0 1 [1, 0])]"

lemma demo_size: "ray_serde_size demo_env demo_obj = 101"
  by (simp add: demo_obj_def demo_env_def vec_size_guard_def atom_serde_size_def schema_names_serde_size_def sym_text_def
      ray_type_sizes_def fixed_vec_def header0_def)


text \<open>
  C7.  A framed object reads back.  For every object of the wire format that nests at most 512 deep and
  whose payload is at most a billion bytes, \<open>ray_ser\<close> gives a frame, and \<open>ray_de\<close> of the frame is the
  object as it crosses the wire: the same cells, symbols and strings, with attributes reduced to the
  wire masks, symbol columns of full width, slices as vectors of their own, and the null singleton for
  a null pointer.
\<close>

theorem serde_frame_roundtrip:
  assumes "\<forall>k. room E k" "wire_ok E x" "depth x \<le> 512" "ray_serde_size E x \<le> 1000000000"
  shows "\<exists>bytes. ray_ser E x = Some (Inr bytes) \<and> ray_de E bytes = Some (wire_view x)"
proof -
  have w: "writable x" using wire_ok_writable [OF assms(2)] .
  have sz: "ray_serde_size E x = int (length (wire_of E x))" using wire_size [OF w] .
  show ?thesis
    using ray_ser_frame [OF w, of E] frame_reads_back [OF assms(1-3)] assms(1,4) sz by simp
qed

lemma demo_wire_ok: "wire_ok demo_env demo_obj"
  by (simp add: demo_obj_def demo_env_def atom_ok_def sym_ok_def pool_bytes_def ray_type_sizes_def fixed_vec_def header0_def pool_ok_def)

theorem serde_frame_roundtrip_witness:
  "\<exists>bytes. ray_ser demo_env demo_obj = Some (Inr bytes) \<and> ray_de demo_env bytes = Some (
     ListObj 0x20 [AtomObj False (header0\<lparr>a_type := - RAY_I64, a_word := 5\<rparr>), NullObj,
       TableObj 0 [7] (ListObj 0 [StrVec 0x40 0 [[1, 2], []]]), DictObj 0x20 (SymVec 3 [7]) (VecObj RAY_I16 0 1 [1, 0])])"
proof -
  have "depth demo_obj \<le> 512" "\<forall>k. room demo_env k" by (simp_all add: demo_obj_def demo_env_def)
  then show ?thesis using serde_frame_roundtrip [OF _ demo_wire_ok] demo_size by (simp add: demo_obj_def)
qed

text \<open>
  C8.  Reading untrusted bytes.  Whatever a frame holds, \<open>ray_de\<close> returns, and so does \<open>ray_de_raw\<close> at any
  place with any number of remaining bytes, at any depth: no byte outside of those is looked at, the
  number that remains afterwards is not negative and not larger.  The result is built by the reader, with
  no attribute bit that promises a pointer or an index, vectors with the bytes their length says, and
  no null pointer and no error inside a container; or it is a global, which a frame can name.
\<close>

theorem serde_untrusted_safe:
  assumes "0 \<le> p" "0 \<le> len" "p + len \<le> int (length m)"
  shows "(\<exists>r. ray_de E bytes = Some r \<and> from_wire E r) \<and>
    (\<exists>r rest. ray_de_raw E m d p len = Some (r, rest) \<and> from_wire E r \<and> 0 \<le> rest \<and> rest \<le> len) \<and>
    ray_de_raw E m d p len = ray_de_raw E (take (nat len) (drop (nat p) m)) d 0 len"
  using ray_de_reads ray_de_raw_reads [OF assms] by blast

lemma serde_untrusted_safe_witness:
  "(\<exists>r. ray_de demo_env (replicate 40 0xFA) = Some r \<and> from_wire demo_env r) \<and>
   (\<exists>r rest. ray_de_raw demo_env [9, 0, 0xFF, 9] 3 1 2 = Some (r, rest) \<and> from_wire demo_env r \<and> 0 \<le> rest \<and> rest \<le> 2) \<and>
   ray_de_raw demo_env [9, 0, 0xFF, 9] 3 1 2 = ray_de_raw demo_env (take (nat 2) (drop (nat 1) [9, 0, 0xFF, 9])) 3 0 2"
  by (rule serde_untrusted_safe) simp_all

end
