(* ===== verification/Hash.thy ===== *)
theory Hash
  imports NumParse
begin

text \<open>
  The hash functions of \<^verbatim>\<open>ops/hash.h\<close>: the multiply-and-mix step with its portable form, the byte
  readers on a little-endian machine, and the hashes of byte strings, integers and doubles (by their
  bits).  The section on the multiplication shows that the form without a 128-bit type computes the same product.

  A pointer into the data is the list of the bytes from it on.
\<close>

unbundle bit_operations_syntax

section \<open>Mixing\<close>

definition ray__wymum :: "u64 \<Rightarrow> u64 \<Rightarrow> u64 \<times> u64" where
  "ray__wymum A B = (let r = ucast A * ucast B :: 128 word in (ucast r, ucast (drop_bit 64 r)))"

text \<open>The same without a type of 128 bits.\<close>

definition wymum_portable :: "u64 \<Rightarrow> u64 \<Rightarrow> u64 \<times> u64" where
  "wymum_portable A B =
     (let ha = drop_bit 32 A; la = ucast (ucast A :: u32);
          hb = drop_bit 32 B; lb = ucast (ucast B :: u32);
          rh = ha * hb; rm0 = ha * lb; rm1 = hb * la; rl = la * lb;
          t = rl + push_bit 32 rm0; c = if t < rl then 1 else 0;
          lo = t + push_bit 32 rm1;
          c = c + (if lo < t then 1 else 0);
          hi = rh + drop_bit 32 rm0 + drop_bit 32 rm1 + c
      in (lo, hi))"

definition ray__wymix :: "u64 \<Rightarrow> u64 \<Rightarrow> u64" where
  "ray__wymix A B = (case ray__wymum A B of (A, B) \<Rightarrow> A XOR B)"

definition ray__wyr8 :: "u8 list \<Rightarrow> u64" where
  "ray__wyr8 p = load_le (take 8 p)"

definition ray__wyr4 :: "u8 list \<Rightarrow> u64" where
  "ray__wyr4 p = ucast (load_le (take 4 p) :: u32)"

definition ray__wyr3 :: "u8 list \<Rightarrow> nat \<Rightarrow> u64" where
  "ray__wyr3 p k = push_bit 16 (ucast (p ! 0)) OR push_bit 8 (ucast (p ! (k div 2))) OR ucast (p ! (k - 1))"

abbreviation (input) wyp0 :: u64 where "wyp0 \<equiv> 0x2d358dccaa6c78a5"
abbreviation (input) wyp1 :: u64 where "wyp1 \<equiv> 0x8bb84b93962eacc9"
abbreviation (input) wyp2 :: u64 where "wyp2 \<equiv> 0x4b33a62ed433d4a3"
abbreviation (input) wyp3 :: u64 where "wyp3 \<equiv> 0x4d5a2da51de1aa47"

section \<open>Hashing\<close>

text \<open>The loop over blocks of 48 bytes, with its three lanes.\<close>

fun wy_blocks48 :: "u64 \<Rightarrow> u64 \<Rightarrow> u64 \<Rightarrow> u8 list \<Rightarrow> (u64 \<times> u64 \<times> u64) \<times> u8 list" where
  "wy_blocks48 seed see1 see2 p =
     (if 48 \<le> length p
      then wy_blocks48 (ray__wymix (ray__wyr8 p XOR wyp1) (ray__wyr8 (drop 8 p) XOR seed))
             (ray__wymix (ray__wyr8 (drop 16 p) XOR wyp2) (ray__wyr8 (drop 24 p) XOR see1))
             (ray__wymix (ray__wyr8 (drop 32 p) XOR wyp3) (ray__wyr8 (drop 40 p) XOR see2)) (drop 48 p)
      else ((seed, see1, see2), p))"

fun wy_blocks16 :: "u64 \<Rightarrow> u8 list \<Rightarrow> u64 \<times> u8 list" where
  "wy_blocks16 seed p =
     (if 16 < length p
      then wy_blocks16 (ray__wymix (ray__wyr8 p XOR wyp1) (ray__wyr8 (drop 8 p) XOR seed)) (drop 16 p)
      else (seed, p))"

declare wy_blocks48.simps [simp del] wy_blocks16.simps [simp del]

text \<open>The last two reads of a long input rewind to the last 16 bytes of the data.\<close>

definition ray_hash_bytes :: "u8 list \<Rightarrow> u64" where
  "ray_hash_bytes data =
     (let len = length data;
          seed = 0 XOR ray__wymix (0 XOR wyp0) wyp1;
          (a, b, seed) =
            (if len \<le> 16
             then if 4 \<le> len
                  then let q = len div 8 * 4
                       in (push_bit 32 (ray__wyr4 data) OR ray__wyr4 (drop q data),
                           push_bit 32 (ray__wyr4 (drop (len - 4) data)) OR ray__wyr4 (drop (len - 4 - q) data), seed)
                  else if 0 < len then (ray__wyr3 data len, 0, seed) else (0, 0, seed)
             else let (seed, p) = (if 48 \<le> len
                                   then case wy_blocks48 seed seed seed data of
                                          ((seed, see1, see2), p) \<Rightarrow> (seed XOR (see1 XOR see2), p)
                                   else (seed, data));
                      (seed, p) = wy_blocks16 seed p
                  in (ray__wyr8 (drop (len - 16) data), ray__wyr8 (drop (len - 8) data), seed));
          (a, b) = ray__wymum (a XOR wyp1) (b XOR seed)
      in ray__wymix (a XOR wyp0 XOR of_nat len) (b XOR wyp1))"

definition ray_hash_combine :: "u64 \<Rightarrow> u64 \<Rightarrow> u64" where
  "ray_hash_combine h1 h2 =
     (case ray__wymum (h1 XOR wyp0) (h2 XOR wyp1) of (A, B) \<Rightarrow> ray__wymix (A XOR wyp0) (B XOR wyp1))"

definition ray_hash_i64 :: "int \<Rightarrow> u64" where
  "ray_hash_i64 val =
     (case ray__wymum (word_of_int val XOR wyp0) (word_of_int val XOR wyp1) of
        (A, B) \<Rightarrow> ray__wymix (A XOR wyp0) (B XOR wyp1))"

definition ray_hash_f64 :: "u64 \<Rightarrow> u64" where
  "ray_hash_f64 bits =
     (let bits = if bits = 0x8000000000000000 then 0 else bits
      in case ray__wymum (bits XOR wyp0) (bits XOR wyp1) of (A, B) \<Rightarrow> ray__wymix (A XOR wyp0) (B XOR wyp1))"

section \<open>The portable product\<close>

lemma uint_bound: "uint w < 2 ^ LENGTH('a)" for w :: "'a::len word"
  by (rule unsigned_less)

lemma uint_drop_bit: "uint (drop_bit n w) = uint w div 2 ^ n" for w :: "'a::len word"
  by (simp add: unsigned_drop_bit_eq drop_bit_eq_div [where 'a = int] take_bit_int_eq_self
      le_less_trans [OF zdiv_mono2 [of "uint w" 1 "2 ^ n", simplified] uint_bound])

lemma wymum_int:
  "ray__wymum A B = (word_of_int (uint A * uint B), word_of_int (uint A * uint B div 2 ^ 64))"
proof -
  let ?r = "ucast A * ucast B :: 128 word"
  have lt: "uint A * uint B < 2 ^ 64 * 2 ^ 64"
    by (rule mult_strict_mono) (use uint_bound [of A] uint_bound [of B] in auto)
  have u: "uint (ucast X :: 128 word) = uint X" for X :: u64
    using uint_bound [of X] by (simp add: unsigned_ucast_eq take_bit_int_eq_self)
  then have r: "uint ?r = uint A * uint B" using lt by (simp only: uint_word_ariths u) simp
  have "ucast ?r = (word_of_int (uint ?r) :: u64)" by (rule ucast_eq)
  moreover have "ucast (drop_bit 64 ?r) = (word_of_int (uint (drop_bit 64 ?r)) :: u64)" by (rule ucast_eq)
  moreover have "uint (drop_bit 64 ?r) = uint A * uint B div 2 ^ 64" by (simp only: uint_drop_bit r)
  ultimately show ?thesis unfolding ray__wymum_def Let_def by (simp only: r)
qed

lemma add_carry:
  fixes a b :: u64
  shows "uint a + uint b = uint (a + b) + (if a + b < a then 2 ^ 64 else 0)"
proof -
  have "uint (a + b) = (if uint a + uint b < 2 ^ 64 then uint a + uint b else uint a + uint b - 2 ^ 64)"
    using uint_plus_if' [of a b] by simp
  then show ?thesis using uint_bound [of a] uint_bound [of b] by (auto simp: word_less_def)
qed

text \<open>
  The two branches of the 128-bit multiplication agree: the sum of the four 32-bit products with
  its two carries gives the low and the high word of the product.
\<close>

theorem wymum_portable_eq: "wymum_portable A B = ray__wymum A B"
proof -
  define ha la hb lb where "ha = drop_bit 32 A" and "la = (ucast (ucast A :: u32) :: u64)"
    and "hb = drop_bit 32 B" and "lb = (ucast (ucast B :: u32) :: u64)"
  have split: "uint X = uint (drop_bit 32 X) * 2 ^ 32 + uint (ucast (ucast X :: u32) :: u64)"
    "uint (drop_bit 32 X) < 2 ^ 32" "uint (ucast (ucast X :: u32) :: u64) < 2 ^ 32" for X :: u64
    using uint_bound [of X] by (simp_all add: uint_drop_bit unsigned_ucast_eq unsigned_take_bit_eq take_bit_eq_mod [where 'a = int])
  note sA = split [of A, folded ha_def la_def] and sB = split [of B, folded hb_def lb_def]
  have small: "uint (x * y) = uint x * uint y" if "uint x < 2 ^ 32" "uint y < 2 ^ 32" for x y :: u64
  proof -
    have "uint x * uint y < 2 ^ 32 * 2 ^ 32" by (rule mult_strict_mono) (use that in auto)
    then show ?thesis by (simp add: uint_word_ariths)
  qed
  define rh rm0 rm1 rl where "rh = ha * hb" and "rm0 = ha * lb" and "rm1 = hb * la" and "rl = la * lb"
  have prod: "uint rh = uint ha * uint hb" "uint rm0 = uint ha * uint lb" "uint rm1 = uint hb * uint la" "uint rl = uint la * uint lb"
    using sA(2,3) sB(2,3) by (simp_all add: rh_def rm0_def rm1_def rl_def small)
  have halves: "uint r = uint (drop_bit 32 r) * 2 ^ 32 + uint r mod 2 ^ 32" "uint (push_bit 32 r) = uint r mod 2 ^ 32 * 2 ^ 32" for r :: u64
    by (simp_all add: uint_drop_bit unsigned_push_bit_eq push_bit_eq_mult [where 'a = int] take_bit_eq_mod [where 'a = int] mult_mod_left)
  define t where "t = rl + push_bit 32 rm0"
  define lo where "lo = t + push_bit 32 rm1"
  define c :: u64 where "c = (if t < rl then 1 else 0) + (if lo < t then 1 else 0)"
  define hi where "hi = rh + drop_bit 32 rm0 + drop_bit 32 rm1 + c"
  have p: "wymum_portable A B = (lo, hi)"
    by (simp add: wymum_portable_def Let_def hi_def lo_def t_def c_def rh_def rm0_def rm1_def rl_def ha_def la_def hb_def lb_def)
  have c: "uint c = (if t < rl then 1 else 0) + (if lo < t then 1 else 0)" by (simp add: c_def)
  have P: "uint A * uint B = (uint rh + uint (drop_bit 32 rm0) + uint (drop_bit 32 rm1) + uint c) * 2 ^ 64 + uint lo"
    using add_carry [of rl "push_bit 32 rm0"] add_carry [of t "push_bit 32 rm1"] halves(1) [of rm0] halves(1) [of rm1]
    unfolding sA(1) sB(1) halves(2) c t_def [symmetric] lo_def [symmetric] by (simp add: prod algebra_simps split: if_splits)
  have "uint A * uint B div 2 ^ 64 = uint rh + uint (drop_bit 32 rm0) + uint (drop_bit 32 rm1) + uint c"
    unfolding P using uint_bound [of lo] by (simp add: div_mult_self3 del: distrib_right_numeral)
  then have "word_of_int (uint A * uint B div 2 ^ 64) = hi" by (simp add: hi_def)
  moreover have "uint A * uint B mod 2 ^ 64 = uint lo"
    unfolding P using uint_bound [of lo] by (simp del: distrib_right_numeral)
  then have "word_of_int (uint A * uint B) = lo"
    by (intro unsigned_word_eqI [where 'a = int]) (simp add: uint_word_ariths)
  ultimately show ?thesis by (simp add: p wymum_int)
qed

end
