(* ===== verification/Sym.thy ===== *)
theory Sym
  imports Hash Arena
begin

text \<open>
  The symbol table of \<^verbatim>\<open>table/sym.c\<close>: an open-addressing hash table from names to ids, the array of
  string atoms (kept in the arena of \<open>Arena\<close>), the cached segments of dotted names, the lazily mapped
  dictionary and the snapshot file.

  The table is the record \<open>sym_table\<close>, the contents of the atoms are in the memory of the arena.  A
  result \<^term>\<open>None\<close> means that a probe loop does not end or that the program reads outside an array;
  the theorems show where this cannot happen.  Whether an array can be allocated is decided by the
  environment for each state and size; the arena maps memory through the parameter \<open>vm\<close> of \<open>Arena\<close>.
  The spin lock serialises all operations, so each one is a function on the table.
\<close>

unbundle bit_operations_syntax

section \<open>State\<close>

record lazy_map =
  lazy_count :: nat
  lazy_next_id :: nat
  lazy_ptr :: "u8 list"

record sym_table =
  buckets :: "u64 list"
  strings :: "nat option list"
  str_count :: nat
  str_cap :: nat
  dotted :: "u64 list"
  scanned :: "u64 list"
  segments :: "int list list"
  lazy :: "lazy_map option"
  sym_arena :: arena
  sym_mem :: memory

record sym_env =
  vmem :: vm
  alloc_ok :: "sym_table \<Rightarrow> nat \<Rightarrow> bool"

abbreviation (input) SYM_INIT_CAP :: nat where "SYM_INIT_CAP \<equiv> 256"
abbreviation (input) UINT32_MAX :: nat where "UINT32_MAX \<equiv> 4294967295"
abbreviation (input) SYM_STRL_MAGIC :: nat where "SYM_STRL_MAGIC \<equiv> 0x4C525453"
abbreviation (input) SYM_LAZY_LOAD_MIN_BYTES :: nat where "SYM_LAZY_LOAD_MIN_BYTES \<equiv> 64 * 1024 * 1024"

abbreviation bucket_cap :: "sym_table \<Rightarrow> nat" where
  "bucket_cap t \<equiv> length (buckets t)"

abbreviation heap :: "sym_table \<Rightarrow> nat \<Rightarrow> u8" where
  "heap t \<equiv> mem (sym_mem t)"

definition sym_hash :: "u8 list \<Rightarrow> u32" where
  "sym_hash s = ucast (ray_hash_bytes s)"

text \<open>Bitmaps with one bit per id, in words of 64.\<close>

definition bm_get :: "u64 list \<Rightarrow> nat \<Rightarrow> bool" where
  "bm_get ws i = bit (ws ! (i div 64)) (i mod 64)"

definition bm_set :: "u64 list \<Rightarrow> nat \<Rightarrow> u64 list" where
  "bm_set ws i = ws[i div 64 := ws ! (i div 64) OR push_bit (i mod 64) 1]"

section \<open>The hash table\<close>

definition ht_entry :: "u32 \<Rightarrow> u32 \<Rightarrow> u64" where
  "ht_entry hash i = push_bit 32 (ucast hash) OR ucast (i + 1)"

definition e_hash :: "u64 \<Rightarrow> u32" where
  "e_hash e = ucast (drop_bit 32 e)"

definition e_id :: "u64 \<Rightarrow> u32" where
  "e_id e = ucast (e AND 0xFFFFFFFF) - 1"

partial_function (option) ht_insert_from :: "u64 list \<Rightarrow> u32 \<Rightarrow> u64 \<Rightarrow> u32 \<Rightarrow> u64 list option" where
  "ht_insert_from bs msk entry slot =
     (if bs ! unat slot = 0 then Some (bs[unat slot := entry])
      else ht_insert_from bs msk entry ((slot + 1) AND msk))"

definition ht_insert :: "u64 list \<Rightarrow> u32 \<Rightarrow> u32 \<Rightarrow> u64 list option" where
  "ht_insert bs hash i =
     (let msk = of_nat (length bs) - 1 in ht_insert_from bs msk (ht_entry hash i) (hash AND msk))"

text \<open>Re-inserting the entries of the old buckets.\<close>

fun ht_reinsert :: "u64 list \<Rightarrow> u64 list \<Rightarrow> u64 list option" where
  "ht_reinsert nb [] = Some nb"
| "ht_reinsert nb (e # es) =
     (if e = 0 then ht_reinsert nb es
      else do { nb \<leftarrow> ht_insert nb (e_hash e) (e_id e); ht_reinsert nb es })"

definition ht_grow_to :: "sym_env \<Rightarrow> sym_table \<Rightarrow> nat \<Rightarrow> (bool \<times> sym_table) option" where
  "ht_grow_to E t new_cap =
     (if \<not> alloc_ok E t (new_cap * 8) then Some (False, t)
      else do { nb \<leftarrow> ht_reinsert (replicate new_cap 0) (buckets t); Some (True, t\<lparr>buckets := nb\<rparr>) })"

definition ht_grow :: "sym_env \<Rightarrow> sym_table \<Rightarrow> (bool \<times> sym_table) option" where
  "ht_grow E t =
     (if UINT32_MAX div 2 + 1 \<le> bucket_cap t then Some (False, t) else ht_grow_to E t (bucket_cap t * 2))"

definition sym_grow_str_cap :: "sym_env \<Rightarrow> sym_table \<Rightarrow> nat \<Rightarrow> bool \<times> sym_table" where
  "sym_grow_str_cap E t new_cap =
     (let old_cap = str_cap t; old_bm = (old_cap + 63) div 64; new_bm = (new_cap + 63) div 64
      in if new_cap \<le> old_cap then (True, t)
         else if \<not> alloc_ok E t (new_cap * 8) then (False, t)
         else let t = t\<lparr>strings := take old_cap (strings t) @ replicate (new_cap - old_cap) None\<rparr>
              in if old_bm < new_bm \<and> \<not> alloc_ok E t (new_bm * 8) then (False, t)
                 else let t = (if old_bm < new_bm then t\<lparr>dotted := take old_bm (dotted t) @ replicate (new_bm - old_bm) 0\<rparr> else t)
                      in if old_bm < new_bm \<and> \<not> alloc_ok E t (new_bm * 8) then (False, t)
                         else let t = (if old_bm < new_bm
                                       then t\<lparr>scanned := take old_bm (scanned t) @ replicate (new_bm - old_bm) 0\<rparr> else t)
                              in if \<not> alloc_ok E t (new_cap * 16) then (False, t)
                                 else (True, t\<lparr>segments := take old_cap (segments t) @ replicate (new_cap - old_cap) [],
                                              str_cap := new_cap\<rparr>))"

text \<open>The length test and \<^verbatim>\<open>memcmp\<close> of a stored atom with a name.\<close>

definition str_eq :: "(nat \<Rightarrow> u8) \<Rightarrow> nat \<Rightarrow> u8 list \<Rightarrow> bool" where
  "str_eq h p s \<longleftrightarrow> ray_str_len h p = length s \<and> memcmp (mem_read h (ray_str_ptr h p) (length s)) s (length s) = 0"

partial_function (option) sym_probe_from :: "sym_table \<Rightarrow> u32 \<Rightarrow> u8 list \<Rightarrow> u32 \<Rightarrow> int option" where
  "sym_probe_from t hash s slot =
     (let e = buckets t ! unat slot
      in if e = 0 then Some (- 1)
         else if e_hash e = hash \<and> (case strings t ! unat (e_id e) of None \<Rightarrow> False | Some p \<Rightarrow> str_eq (heap t) p s)
         then Some (uint (e_id e))
         else sym_probe_from t hash s ((slot + 1) AND (of_nat (bucket_cap t) - 1)))"

definition sym_probe :: "sym_table \<Rightarrow> u32 \<Rightarrow> u8 list \<Rightarrow> int option" where
  "sym_probe t hash s = sym_probe_from t hash s (hash AND (of_nat (bucket_cap t) - 1))"

section \<open>Adding a symbol\<close>

text \<open>The load check before an insertion: whether there is room, and the table, grown if need be.\<close>

definition commit_room :: "sym_env \<Rightarrow> sym_table \<Rightarrow> (bool \<times> sym_table) option" where
  "commit_room E t =
     (if bucket_cap t * 70 \<le> str_count t * 100
      then do { (ok, t) \<leftarrow> ht_grow E t; Some (ok \<or> \<not> bucket_cap t * 95 \<le> str_count t * 100, t) }
      else Some (True, t))"

text \<open>A slot in the array of strings, and the atom with its entries.\<close>

definition commit_slot :: "sym_env \<Rightarrow> sym_table \<Rightarrow> bool \<times> sym_table" where
  "commit_slot E t =
     (if str_count t < str_cap t then (True, t)
      else if UINT32_MAX div 2 \<le> str_cap t then (False, t)
      else sym_grow_str_cap E t (str_cap t * 2))"

definition commit_atom :: "sym_env \<Rightarrow> sym_table \<Rightarrow> u32 \<Rightarrow> u8 list \<Rightarrow> (int \<times> sym_table) option" where
  "commit_atom E t hash s =
     (let new_id = str_count t
      in case ray_arena_str (vmem E) (sym_arena t) (sym_mem t) s of
           (None, a, m) \<Rightarrow> Some (- 1, t\<lparr>sym_arena := a, sym_mem := m\<rparr>)
         | (Some p, a, m) \<Rightarrow> do {
             bs \<leftarrow> ht_insert (buckets t) hash (of_nat new_id);
             Some (int new_id, t\<lparr>buckets := bs, strings := (strings t)[new_id := Some p],
                                str_count := new_id + 1, sym_arena := a, sym_mem := m\<rparr>) })"

definition sym_commit_new :: "sym_env \<Rightarrow> sym_table \<Rightarrow> u32 \<Rightarrow> u8 list \<Rightarrow> (int \<times> sym_table) option" where
  "sym_commit_new E t hash s = do {
     (room, t) \<leftarrow> commit_room E t;
     if \<not> room then Some (- 1, t)
     else case commit_slot E t of (False, t) \<Rightarrow> Some (- 1, t) | (True, t) \<Rightarrow> commit_atom E t hash s }"

text \<open>Doubling until the load is below 70 percent, or the array holds all strings.\<close>

partial_function (option) bucket_target :: "nat \<Rightarrow> nat \<Rightarrow> nat option option" where
  "bucket_target new_count target =
     (if target * 70 \<le> new_count * 100
      then if UINT32_MAX div 2 + 1 \<le> target then Some None else bucket_target new_count (target * 2)
      else Some (Some target))"

partial_function (option) string_target :: "nat \<Rightarrow> nat \<Rightarrow> nat option option" where
  "string_target new_count target =
     (if target < new_count
      then if UINT32_MAX div 2 \<le> target then Some None else string_target new_count (target * 2)
      else Some (Some target))"

definition sym_reserve_capacity :: "sym_env \<Rightarrow> sym_table \<Rightarrow> nat \<Rightarrow> size_t \<Rightarrow> (bool \<times> sym_table) option" where
  "sym_reserve_capacity E t new_sym_count arena_bytes = do {
     let new_count = str_count t + new_sym_count;
     target \<leftarrow> bucket_target new_count (bucket_cap t);
     (ok, t) \<leftarrow> (case target of
                 None \<Rightarrow> Some (False, t)
               | Some k \<Rightarrow> if bucket_cap t < k then ht_grow_to E t k else Some (True, t));
     if \<not> ok then Some (False, t)
     else do {
       (ok, t) \<leftarrow> (if str_cap t < new_count
                  then do { target \<leftarrow> string_target new_count (str_cap t);
                            Some (case target of None \<Rightarrow> (False, t) | Some k \<Rightarrow> sym_grow_str_cap E t k) }
                  else Some (True, t));
       if \<not> ok then Some (False, t)
       else if arena_bytes = 0 then Some (True, t)
       else case ray_arena_reserve (vmem E) (sym_arena t) (sym_mem t) arena_bytes of
              (ok, a, m) \<Rightarrow> Some (ok, t\<lparr>sym_arena := a, sym_mem := m\<rparr>) } }"

definition ray_sym_bytes_upper :: "size_t \<Rightarrow> size_t" where
  "ray_sym_bytes_upper len = (if len < 7 then 32 else 32 + ((32 + len + 1 + 31) AND NOT 31))"

section \<open>Dotted names\<close>

text \<open>The segments up to the first empty one, and whether there was none.  A dot is byte 46.\<close>

fun seg_split :: "bool \<Rightarrow> nat \<Rightarrow> u8 list \<Rightarrow> u8 list list \<times> bool" where
  "seg_split leading_dot 0 p = ([], True)"
| "seg_split leading_dot (Suc n) p =
     (if p = [] then ([], True)
      else let skip = (if leading_dot then 1 else 0);
               dot = skip + length (takeWhile (\<lambda>c. c \<noteq> 46) (drop skip p));
               seg_len = (if dot < length p then dot else length p)
           in if seg_len = 0 then ([], False)
              else if dot < length p
              then case seg_split False n (drop (dot + 1) p) of (ss, ok) \<Rightarrow> (take dot p # ss, ok)
              else ([p], True))"

definition sym_shape :: "u8 list \<Rightarrow> (u8 list list \<times> bool) option" where
  "sym_shape s =
     (if 46 \<notin> set s then None
      else if last s = 46 then None
      else let leading_dot = (hd s = 46)
           in if leading_dot \<and> 46 \<notin> set (tl s) then None
              else let sep_dots = length (filter (\<lambda>c. c = 46) (if leading_dot then tl s else s))
                   in if 255 < sep_dots + 1 then None else Some (seg_split leading_dot (sep_dots + 1) s))"

fun probe_all :: "sym_table \<Rightarrow> u8 list list \<Rightarrow> int list option" where
  "probe_all t [] = Some []"
| "probe_all t (s # ss) = do { i \<leftarrow> sym_probe t (sym_hash s) s; is \<leftarrow> probe_all t ss; Some (i # is) }"

definition new_segs :: "u8 list list \<Rightarrow> int list \<Rightarrow> u8 list list" where
  "new_segs ss is = map fst (filter (\<lambda>(s, i). i < 0) (zip ss is))"

definition new_seg_bytes :: "u8 list list \<Rightarrow> size_t" where
  "new_seg_bytes ss = sum_list (map (\<lambda>s. ray_sym_bytes_upper (of_nat (length s))) ss)"

definition segs_block :: "nat \<Rightarrow> size_t" where
  "segs_block nsegs = (32 + of_nat nsegs * 8 + 31) AND NOT 31"

fun commit_segs :: "sym_env \<Rightarrow> sym_table \<Rightarrow> (u8 list \<times> int) list \<Rightarrow> (int list option \<times> sym_table) option" where
  "commit_segs E t [] = Some (Some [], t)"
| "commit_segs E t ((s, i) # ds) =
     (if i < 0
      then do {
        (sid, t) \<leftarrow> sym_commit_new E t (sym_hash s) s;
        if sid < 0 then Some (None, t)
        else do { (r, t) \<leftarrow> commit_segs E (t\<lparr>scanned := bm_set (scanned t) (nat sid)\<rparr>) ds;
                  Some (map_option ((#) sid) r, t) } }
      else do { (r, t) \<leftarrow> commit_segs E t ds; Some (map_option ((#) i) r, t) })"

text \<open>
  Storing the segment ids of a symbol in an arena block, whose header they overwrite.  Readers get the
  list that the entry of the table keeps with the block.
\<close>

definition id_bytes :: "int list \<Rightarrow> u8 list" where
  "id_bytes segs = concat (map (\<lambda>i. le_bytes (nat (i mod 2 ^ 64))) segs)"

definition store_segs :: "sym_env \<Rightarrow> sym_table \<Rightarrow> nat \<Rightarrow> int list \<Rightarrow> bool \<times> sym_table" where
  "store_segs E t i segs =
     (case ray_arena_alloc (vmem E) (sym_arena t) (sym_mem t) (of_nat (length segs) * 8) of
        (None, a, m) \<Rightarrow> (False, t\<lparr>sym_arena := a, sym_mem := m\<rparr>)
      | (Some p, a, m) \<Rightarrow>
          (True, t\<lparr>segments := (segments t)[i := segs], dotted := bm_set (dotted t) i, sym_arena := a,
                   sym_mem := mem_write m p (id_bytes segs)\<rparr>))"

definition sym_cache_segments :: "sym_env \<Rightarrow> sym_table \<Rightarrow> nat \<Rightarrow> u8 list \<Rightarrow> (bool \<times> sym_table) option" where
  "sym_cache_segments E t new_id s =
     (let settle = (\<lambda>t. t\<lparr>scanned := bm_set (scanned t) new_id\<rparr>)
      in if bm_get (scanned t) new_id then Some (True, t)
         else case sym_shape s of
                None \<Rightarrow> Some (True, settle t)
              | Some (ss, False) \<Rightarrow> Some (True, settle t)
              | Some (ss, True) \<Rightarrow> do {
                  is \<leftarrow> probe_all t ss;
                  let new = new_segs ss is;
                  (ok, t) \<leftarrow> sym_reserve_capacity E t (length new) (new_seg_bytes new + segs_block (length ss));
                  if \<not> ok then Some (False, t)
                  else do {
                    (r, t) \<leftarrow> commit_segs E t (zip ss is);
                    case r of
                      None \<Rightarrow> Some (False, t)
                    | Some segs \<Rightarrow> (case store_segs E t new_id segs of
                                     (False, t) \<Rightarrow> Some (False, t)
                                   | (True, t) \<Rightarrow> Some (True, settle t)) } })"

section \<open>The lazily mapped dictionary\<close>

definition sym_lazy_unmap_locked :: "sym_table \<Rightarrow> sym_table" where
  "sym_lazy_unmap_locked t = t\<lparr>lazy := None\<rparr>"

text \<open>One record of the mapped file; the cursor moves past the length before the record is checked.\<close>

definition lazy_step :: "sym_env \<Rightarrow> sym_table \<Rightarrow> lazy_map \<Rightarrow> (bool \<times> sym_table) option" where
  "lazy_step E t L =
     (if length (lazy_ptr L) < 4 then Some (False, t)
      else let slen = le_value (take 4 (lazy_ptr L));
               L = L\<lparr>lazy_ptr := drop 4 (lazy_ptr L)\<rparr>;
               t = t\<lparr>lazy := Some L\<rparr>;
               i = lazy_next_id L;
               sp = take slen (lazy_ptr L);
               done = (\<lambda>t. t\<lparr>lazy := Some (L\<lparr>lazy_ptr := drop slen (lazy_ptr L), lazy_next_id := i + 1\<rparr>)\<rparr>)
           in if length (lazy_ptr L) < slen then Some (False, t)
              else case strings t ! i of
                     Some p \<Rightarrow> if str_eq (heap t) p sp then Some (True, done t) else Some (False, t)
                   | None \<Rightarrow>
                       (case ray_arena_str (vmem E) (sym_arena t) (sym_mem t) sp of
                          (None, a, m) \<Rightarrow> Some (False, t\<lparr>sym_arena := a, sym_mem := m\<rparr>)
                        | (Some p, a, m) \<Rightarrow> do {
                            bs \<leftarrow> ht_insert (buckets t) (sym_hash sp) (of_nat i);
                            Some (True, done (t\<lparr>buckets := bs, strings := (strings t)[i := Some p],
                                               sym_arena := a, sym_mem := m\<rparr>)) }))"

fun lazy_loop :: "sym_env \<Rightarrow> sym_table \<Rightarrow> nat \<Rightarrow> (bool \<times> sym_table) option" where
  "lazy_loop E t 0 = Some (True, t)"
| "lazy_loop E t (Suc k) =
     (case lazy t of
        None \<Rightarrow> Some (False, t)
      | Some L \<Rightarrow> do { (ok, t) \<leftarrow> lazy_step E t L; if ok then lazy_loop E t k else Some (False, t) })"

definition sym_lazy_materialize_to_locked :: "sym_env \<Rightarrow> sym_table \<Rightarrow> nat \<Rightarrow> (bool \<times> sym_table) option" where
  "sym_lazy_materialize_to_locked E t target_id =
     (case lazy t of
        None \<Rightarrow> Some (False, t)
      | Some L \<Rightarrow>
          if lazy_count L \<le> target_id then Some (False, t)
          else if target_id < lazy_next_id L then Some (strings t ! target_id \<noteq> None, t)
          else lazy_loop E t (target_id + 1 - lazy_next_id L))"

definition lazy_pending :: "sym_table \<Rightarrow> bool" where
  "lazy_pending t \<longleftrightarrow> (case lazy t of None \<Rightarrow> False | Some L \<Rightarrow> lazy_next_id L < lazy_count L)"

definition lazy_all :: "sym_env \<Rightarrow> sym_table \<Rightarrow> (bool \<times> sym_table) option" where
  "lazy_all E t = sym_lazy_materialize_to_locked E t (case lazy t of None \<Rightarrow> 0 | Some L \<Rightarrow> lazy_count L - 1)"

section \<open>Interning\<close>

definition sym_intern_nolock_noseg :: "sym_env \<Rightarrow> sym_table \<Rightarrow> u32 \<Rightarrow> u8 list \<Rightarrow> (int \<times> sym_table) option" where
  "sym_intern_nolock_noseg E t hash s = do {
     existing \<leftarrow> sym_probe t hash s;
     if 0 \<le> existing then Some (existing, t)
     else if lazy_pending t
     then do {
       (ok, t) \<leftarrow> lazy_all E t;
       if \<not> ok then Some (- 1, t)
       else do {
         existing \<leftarrow> sym_probe t hash s;
         if 0 \<le> existing then Some (existing, t) else sym_commit_new E t hash s } }
     else sym_commit_new E t hash s }"

text \<open>Reserve and commit a name that is not in the table.\<close>

definition intern_new :: "sym_env \<Rightarrow> sym_table \<Rightarrow> u32 \<Rightarrow> u8 list \<Rightarrow> (int \<times> sym_table) option" where
  "intern_new E t hash s = do {
     let (ss, is_dotted) = (case sym_shape s of None \<Rightarrow> ([], False) | Some r \<Rightarrow> r);
     is \<leftarrow> probe_all t ss;
     let new = new_segs ss is;
     let arena_bytes = ray_sym_bytes_upper (of_nat (length s)) +
                       (if is_dotted then new_seg_bytes new + segs_block (length ss) else 0);
     (ok, t) \<leftarrow> sym_reserve_capacity E t (1 + length new) arena_bytes;
     if \<not> ok then Some (- 1, t)
     else do {
       (r, t) \<leftarrow> (if is_dotted then commit_segs E t (zip ss is) else Some (Some [], t));
       case r of
         None \<Rightarrow> Some (- 1, t)
       | Some segs \<Rightarrow> do {
           (main_id, t) \<leftarrow> sym_commit_new E t hash s;
           if main_id < 0 then Some (- 1, t)
           else let settle = (\<lambda>t. t\<lparr>scanned := bm_set (scanned t) (nat main_id)\<rparr>)
                in if is_dotted
                   then case store_segs E t (nat main_id) segs of
                          (False, t) \<Rightarrow> Some (main_id, t)
                        | (True, t) \<Rightarrow> Some (main_id, settle t)
                   else Some (main_id, settle t) } } }"

definition sym_intern_nolock :: "sym_env \<Rightarrow> sym_table \<Rightarrow> u32 \<Rightarrow> u8 list \<Rightarrow> bool \<Rightarrow> (int \<times> sym_table) option" where
  "sym_intern_nolock E t hash s search_lazy = do {
     existing \<leftarrow> sym_probe t hash s;
     (ok, existing, t) \<leftarrow> (if search_lazy \<and> existing < 0 \<and> lazy_pending t
                          then do { (ok, t) \<leftarrow> lazy_all E t;
                                    if ok then do { i \<leftarrow> sym_probe t hash s; Some (True, i, t) }
                                    else Some (False, - 1, t) }
                          else Some (True, existing, t));
     if \<not> ok then Some (- 1, t)
     else if 0 \<le> existing
     then do { (_, t) \<leftarrow> sym_cache_segments E t (nat existing) s; Some (existing, t) }
     else intern_new E t hash s }"

text \<open>The entry points; before \<open>ray_sym_init\<close> there is no table.\<close>

definition on_table :: "sym_table option \<Rightarrow> 'a \<Rightarrow> (sym_table \<Rightarrow> ('a \<times> sym_table) option) \<Rightarrow> ('a \<times> sym_table option) option" where
  "on_table g d f =
     (case g of None \<Rightarrow> Some (d, None) | Some t \<Rightarrow> do { (r, t) \<leftarrow> f t; Some (r, Some t) })"

definition ray_sym_intern :: "sym_env \<Rightarrow> sym_table option \<Rightarrow> u8 list \<Rightarrow> (int \<times> sym_table option) option" where
  "ray_sym_intern E g s = on_table g (- 1) (\<lambda>t. sym_intern_nolock E t (sym_hash s) s True)"

definition ray_sym_intern_runtime :: "sym_env \<Rightarrow> sym_table option \<Rightarrow> u8 list \<Rightarrow> (int \<times> sym_table option) option" where
  "ray_sym_intern_runtime E g s = on_table g (- 1) (\<lambda>t. sym_intern_nolock E t (sym_hash s) s False)"

definition ray_sym_intern_prehashed :: "sym_env \<Rightarrow> sym_table option \<Rightarrow> u32 \<Rightarrow> u8 list \<Rightarrow> (int \<times> sym_table option) option" where
  "ray_sym_intern_prehashed E g hash s = on_table g (- 1) (\<lambda>t. sym_intern_nolock E t hash s True)"

definition ray_sym_intern_no_split :: "sym_env \<Rightarrow> sym_table option \<Rightarrow> u8 list \<Rightarrow> (int \<times> sym_table option) option" where
  "ray_sym_intern_no_split E g s = on_table g (- 1) (\<lambda>t. sym_intern_nolock_noseg E t (sym_hash s) s)"

fun rebuild_loop :: "sym_env \<Rightarrow> sym_table \<Rightarrow> nat list \<Rightarrow> (ray_err \<times> sym_table) option" where
  "rebuild_loop E t [] = Some (RAY_OK, t)"
| "rebuild_loop E t (i # is) =
     (if bm_get (scanned t) i then rebuild_loop E t is
      else case strings t ! i of
             None \<Rightarrow> rebuild_loop E t is
           | Some p \<Rightarrow> do {
               (ok, t) \<leftarrow> sym_cache_segments E t i (str_bytes (heap t) p);
               if ok then rebuild_loop E t is else Some (RAY_ERR_OOM, t) })"

definition ray_sym_rebuild_segments :: "sym_env \<Rightarrow> sym_table option \<Rightarrow> (ray_err \<times> sym_table option) option" where
  "ray_sym_rebuild_segments E g = on_table g RAY_ERR_IO (\<lambda>t. rebuild_loop E t [0..<str_count t])"

section \<open>Reading\<close>

text \<open>The range tests compare the id after a conversion to 32 bits.\<close>

definition u32_of :: "int \<Rightarrow> nat" where
  "u32_of i = nat (i mod 2 ^ 32)"

definition ray_sym_is_dotted :: "sym_table option \<Rightarrow> int \<Rightarrow> bool" where
  "ray_sym_is_dotted g sym_id =
     (case g of None \<Rightarrow> False
      | Some t \<Rightarrow> 0 \<le> sym_id \<and> u32_of sym_id < str_count t \<and> bm_get (dotted t) (u32_of sym_id))"

definition ray_sym_segs :: "sym_table option \<Rightarrow> int \<Rightarrow> int list option" where
  "ray_sym_segs g sym_id =
     (case g of None \<Rightarrow> Some []
      | Some t \<Rightarrow>
          if sym_id < 0 \<or> str_count t \<le> u32_of sym_id then Some []
          else if length (segments t) \<le> nat sym_id then None
          else Some (segments t ! nat sym_id))"

partial_function (option) sym_find_from :: "sym_env \<Rightarrow> sym_table \<Rightarrow> u32 \<Rightarrow> u8 list \<Rightarrow> u32 \<Rightarrow> (int \<times> sym_table) option" where
  "sym_find_from E t hash s slot =
     (let e = buckets t ! unat slot; msk = of_nat (bucket_cap t) - 1
      in if e = 0
         then if lazy_pending t
              then do { (ok, t) \<leftarrow> lazy_all E t;
                        if ok then sym_find_from E t hash s (hash AND (of_nat (bucket_cap t) - 1))
                        else Some (- 1, t) }
              else Some (- 1, t)
         else if e_hash e = hash \<and> (case strings t ! unat (e_id e) of None \<Rightarrow> False | Some p \<Rightarrow> str_eq (heap t) p s)
         then Some (uint (e_id e), t)
         else sym_find_from E t hash s ((slot + 1) AND msk))"

definition ray_sym_find :: "sym_env \<Rightarrow> sym_table option \<Rightarrow> u8 list \<Rightarrow> (int \<times> sym_table option) option" where
  "ray_sym_find E g s =
     on_table g (- 1) (\<lambda>t. sym_find_from E t (sym_hash s) s (sym_hash s AND (of_nat (bucket_cap t) - 1)))"

text \<open>The array is read at the id itself, which may lie outside it.\<close>

definition ray_sym_str :: "sym_env \<Rightarrow> sym_table option \<Rightarrow> int \<Rightarrow> (nat option \<times> sym_table option) option" where
  "ray_sym_str E g i = on_table g None (\<lambda>t.
     if i < 0 \<or> str_count t \<le> u32_of i then Some (None, t)
     else if length (strings t) \<le> nat i then None
     else if strings t ! nat i = None \<and> (case lazy t of None \<Rightarrow> False | Some L \<Rightarrow> u32_of i < lazy_count L)
     then do { (ok, t) \<leftarrow> sym_lazy_materialize_to_locked E t (u32_of i);
               Some (if ok then (strings t ! nat i, t) else (None, t)) }
     else Some (strings t ! nat i, t))"

definition ray_sym_count :: "sym_table option \<Rightarrow> nat" where
  "ray_sym_count g = (case g of None \<Rightarrow> 0 | Some t \<Rightarrow> str_count t)"

definition ray_sym_strings_borrow :: "sym_env \<Rightarrow> sym_table option \<Rightarrow> ((nat option list \<times> nat) \<times> sym_table option) option" where
  "ray_sym_strings_borrow E g = on_table g ([], 0) (\<lambda>t. do {
     (_, t) \<leftarrow> (case lazy t of None \<Rightarrow> Some (True, t)
                | Some L \<Rightarrow> if 0 < lazy_count L then lazy_all E t else Some (True, t));
     Some ((strings t, str_count t), t) })"

section \<open>Start and end\<close>

text \<open>
  \<open>ray_sym_init\<close> on a table that is not initialised: \<open>Inl\<close> is \<^verbatim>\<open>RAY_ERR_OOM\<close> with the memory left.
\<close>

definition ray_sym_init :: "sym_env \<Rightarrow> memory \<Rightarrow> (memory + sym_table) option" where
  "ray_sym_init E m =
     (let bm = (SYM_INIT_CAP + 63) div 64;
          t = \<lparr>buckets = replicate SYM_INIT_CAP 0, strings = replicate SYM_INIT_CAP None, str_count = 0,
               str_cap = SYM_INIT_CAP, dotted = replicate bm 0, scanned = replicate bm 0,
               segments = replicate SYM_INIT_CAP [], lazy = None,
               sym_arena = \<lparr>self = 0, chunks = [], chunk_size = 0\<rparr>, sym_mem = m\<rparr>
      in if \<not> alloc_ok E t (SYM_INIT_CAP * 8) then Some (Inl m)
         else case ray_arena_new (vmem E) m (1024 * 1024) of
                (None, m) \<Rightarrow> Some (Inl m)
              | (Some a, m) \<Rightarrow>
                  let t = t\<lparr>sym_arena := a, sym_mem := m\<rparr>
                  in if \<not> alloc_ok E t (bm * 8) \<or> \<not> alloc_ok E t (SYM_INIT_CAP * 16)
                     then Some (Inl (ray_arena_destroy a m))
                     else do { (empty_id, t) \<leftarrow> sym_intern_nolock E t (sym_hash []) [] True;
                               Some (if empty_id = 0 then Inr t else Inl (ray_arena_destroy (sym_arena t) (sym_mem t))) })"

definition ray_sym_destroy :: "sym_table \<Rightarrow> memory" where
  "ray_sym_destroy t = ray_arena_destroy (sym_arena t) (sym_mem t)"

section \<open>The snapshot file\<close>

text \<open>The steps of the file system that may fail.\<close>

record sym_io =
  path_fits :: bool
  lock_opens :: bool
  lock_err :: ray_err
  tmp_opens :: bool
  writes_ok :: bool
  reopen_ok :: bool
  sync_err :: ray_err
  rename_err :: ray_err
  dir_err :: ray_err

fun strl_records :: "(nat \<Rightarrow> u8) \<Rightarrow> nat option list \<Rightarrow> ray_err + u8 list" where
  "strl_records h [] = Inr []"
| "strl_records h (s # snap) =
     (case s of
        None \<Rightarrow> Inl RAY_ERR_CORRUPT
      | Some p \<Rightarrow>
          if obj_type h p \<noteq> - RAY_STR then Inl RAY_ERR_CORRUPT
          else if UINT32_MAX < ray_str_len h p then Inl RAY_ERR_RANGE
          else case strl_records h snap of
                 Inl e \<Rightarrow> Inl e
               | Inr bs \<Rightarrow> Inr (take 4 (le_bytes (ray_str_len h p)) @ str_bytes h p @ bs))"

text \<open>The contents of the file at the path after \<open>ray_sym_save\<close>, given what was there before.\<close>

definition ray_sym_save ::
  "sym_env \<Rightarrow> sym_io \<Rightarrow> sym_table option \<Rightarrow> u8 list option \<Rightarrow> ((ray_err \<times> u8 list option) \<times> sym_table option) option" where
  "ray_sym_save E io g old = on_table g (RAY_ERR_IO, old) (\<lambda>t.
     if \<not> path_fits io \<or> \<not> lock_opens io then Some ((RAY_ERR_IO, old), t)
     else if lock_err io \<noteq> RAY_OK then Some ((lock_err io, old), t)
     else do {
       (ok, t) \<leftarrow> (case lazy t of None \<Rightarrow> Some (True, t)
                  | Some L \<Rightarrow> if 0 < lazy_count L then lazy_all E t else Some (True, t));
       Some (if \<not> ok then (RAY_ERR_CORRUPT, old)
             else if \<not> alloc_ok E t (str_count t * 8) then (RAY_ERR_OOM, old)
             else if \<not> tmp_opens io then (RAY_ERR_IO, old)
             else case strl_records (heap t) (take (str_count t) (strings t)) of
                    Inl e \<Rightarrow> (if writes_ok io then e else RAY_ERR_IO, old)
                  | Inr bs \<Rightarrow>
                      if \<not> writes_ok io then (RAY_ERR_IO, old)
                      else if \<not> reopen_ok io then (RAY_ERR_IO, old)
                      else if sync_err io \<noteq> RAY_OK then (sync_err io, old)
                      else if rename_err io \<noteq> RAY_OK then (rename_err io, old)
                      else (dir_err io, Some (take 4 (le_bytes SYM_STRL_MAGIC) @ le_bytes (str_count t) @ bs)), t) })"

fun load_loop :: "sym_env \<Rightarrow> sym_table \<Rightarrow> nat \<Rightarrow> nat \<Rightarrow> u8 list \<Rightarrow> ((ray_err + u8 list) \<times> sym_table) option" where
  "load_loop E t i 0 p = Some (Inr p, t)"
| "load_loop E t i (Suc k) p =
     (if length p < 4 then Some (Inl RAY_ERR_CORRUPT, t)
      else let slen = le_value (take 4 p); p = drop 4 p
           in if length p < slen then Some (Inl RAY_ERR_CORRUPT, t)
              else do {
                (j, t) \<leftarrow> sym_intern_nolock_noseg E t (sym_hash (take slen p)) (take slen p);
                if j < 0 then Some (Inl RAY_ERR_OOM, t)
                else if j \<noteq> int i then Some (Inl RAY_ERR_CORRUPT, t)
                else load_loop E t (i + 1) k (drop slen p) })"

text \<open>Installing a large file as the lazily mapped dictionary.\<close>

definition load_lazily :: "sym_env \<Rightarrow> sym_table \<Rightarrow> nat \<Rightarrow> u8 list \<Rightarrow> (ray_err \<times> sym_table) option" where
  "load_lazily E t disk records = do {
     let current = str_count t;
     let target_count = max current disk;
     (ok, t) \<leftarrow> (if current < target_count then sym_reserve_capacity E t (target_count - current) 0 else Some (True, t));
     if \<not> ok then Some (RAY_ERR_OOM, t)
     else do {
       let t = t\<lparr>strings := map (\<lambda>i. if current \<le> i \<and> i < disk then None else strings t ! i) [0..<length (strings t)],
                 lazy := Some \<lparr>lazy_count = disk, lazy_next_id = 0, lazy_ptr = records\<rparr>, str_count := target_count\<rparr>;
       let validate_count = min current disk;
       (ok, t) \<leftarrow> (if validate_count = 0 then Some (True, t) else sym_lazy_materialize_to_locked E t (validate_count - 1));
       Some (if ok then (RAY_OK, t) else (RAY_ERR_CORRUPT, sym_lazy_unmap_locked t)) } }"

text \<open>\<open>ray_sym_load\<close> with the bytes of the file, or \<^term>\<open>None\<close> when it cannot be mapped.\<close>

definition ray_sym_load :: "sym_env \<Rightarrow> sym_io \<Rightarrow> sym_table option \<Rightarrow> u8 list option \<Rightarrow> (ray_err \<times> sym_table option) option" where
  "ray_sym_load E io g file = on_table g RAY_ERR_IO (\<lambda>t.
     if \<not> path_fits io \<or> \<not> lock_opens io then Some (RAY_ERR_IO, t)
     else if lock_err io \<noteq> RAY_OK then Some (lock_err io, t)
     else case file of
            None \<Rightarrow> Some (RAY_ERR_IO, t)
          | Some mapped \<Rightarrow>
              let disk_count = le_value (take 8 (drop 4 mapped))
              in if length mapped < 12 \<or> le_value (take 4 mapped) \<noteq> SYM_STRL_MAGIC \<or> UINT32_MAX < disk_count
                 then Some (RAY_ERR_CORRUPT, t)
                 else if SYM_LAZY_LOAD_MIN_BYTES \<le> length mapped then load_lazily E t disk_count (drop 12 mapped)
                 else do {
                   (r, t) \<leftarrow> load_loop E t 0 disk_count (drop 12 mapped);
                   case r of
                     Inl e \<Rightarrow> Some (e, t)
                   | Inr rest \<Rightarrow> if rest \<noteq> [] then Some (RAY_ERR_CORRUPT, t)
                                 else rebuild_loop E t [0..<str_count t] })"

end
