(* ===== verification/SymCore.thy ===== *)
theory SymCore
  imports Sym
begin

text \<open>
  The arrays of the symbol table: linear probing finds what was inserted, growing and rehashing keep
  the entries and the cached flags, and a reservation makes the commits that follow it infallible.
  The invariant is \<open>core_ok\<close>; the list \<open>names\<close> is the abstraction of a table.
\<close>

unbundle bit_operations_syntax

section \<open>Linear probing\<close>

text \<open>Capacities are powers of two, so that masking is the remainder.\<close>

definition pow2 :: "nat \<Rightarrow> bool" where
  "pow2 n \<longleftrightarrow> (\<exists>k. 8 \<le> k \<and> k \<le> 31 \<and> n = 2 ^ k)"

lemma pow2_bounds: "pow2 n \<Longrightarrow> 256 \<le> n \<and> n \<le> 2 ^ 31"
  using power_increasing [of 8 _ "2 :: nat"] power_increasing [of _ 31 "2 :: nat"] by (fastforce simp: pow2_def)

lemma pow2_double: "pow2 n \<Longrightarrow> n < 2 ^ 31 \<Longrightarrow> pow2 (n * 2)"
proof -
  assume "pow2 n" "n < 2 ^ 31"
  then obtain k where k: "8 \<le> k" "n = 2 ^ k" by (auto simp: pow2_def)
  have "k < 31" using \<open>n < 2 ^ 31\<close> unfolding k(2) by (rule power_less_imp_less_exp [rotated]) simp
  with k show ?thesis unfolding pow2_def by (intro exI [of _ "Suc k"]) simp
qed

lemma unat_masked:
  assumes "pow2 n"
  shows "unat (w AND (of_nat n - 1) :: u32) = unat w mod n"
proof -
  obtain k where "n = 2 ^ k" using assms by (auto simp: pow2_def)
  then show ?thesis
    by (simp add: mask_eq_exp_minus_1 [symmetric] take_bit_eq_mask [symmetric] unsigned_take_bit_eq take_bit_eq_mod [where 'a = nat])
qed

lemma unat_next_slot:
  assumes "pow2 n"
  shows "unat ((w + 1) AND (of_nat n - 1) :: u32) = (unat w + 1) mod n"
proof -
  obtain k where "k \<le> 31" "n = 2 ^ k" using assms by (auto simp: pow2_def)
  then have "n dvd 2 ^ 32" using le_imp_power_dvd [of k 32 "2 :: nat"] by simp
  then show ?thesis by (simp only: unat_masked [OF assms] unat_word_ariths) (simp add: mod_mod_cancel)
qed

text \<open>The \<open>d\<close>-th slot that a probe for a hash visits.\<close>

definition slot_at :: "u64 list \<Rightarrow> u32 \<Rightarrow> nat \<Rightarrow> nat" where
  "slot_at bs h d = (unat h + d) mod length bs"

definition reach :: "u64 list \<Rightarrow> u32 \<Rightarrow> u64 \<Rightarrow> bool" where
  "reach bs h e \<longleftrightarrow> (\<exists>d. bs ! slot_at bs h d = e \<and> (\<forall>d' < d. bs ! slot_at bs h d' \<noteq> 0))"

lemma slot_at_lt: "pow2 (length bs) \<Longrightarrow> slot_at bs h d < length bs"
  using pow2_bounds [of "length bs"] unfolding slot_at_def by (intro mod_less_divisor) linarith

lemma slot_at_Suc: "(slot_at bs h d + 1) mod length bs = slot_at bs h (Suc d)"
  by (simp add: slot_at_def mod_Suc_eq)

lemma slot_at_onto:
  assumes "pow2 (length bs)" "j < length bs"
  shows "\<exists>d. slot_at bs h d = j"
proof
  have "unat h mod length bs \<le> length bs" using pow2_bounds [OF assms(1)] by (intro less_imp_le mod_less_divisor) linarith
  then have "unat h + (j + (length bs - unat h mod length bs)) = length bs * (unat h div length bs) + (j + length bs)"
    using mult_div_mod_eq [of "length bs" "unat h"] by linarith
  then show "slot_at bs h (j + (length bs - unat h mod length bs)) = j"
    unfolding slot_at_def using assms(2) by (simp only: mod_mult_self4 mod_add_self2 mod_less)
qed

lemma first_free:
  assumes "pow2 (length bs)" "0 \<in> set bs"
  obtains d where "bs ! slot_at bs h d = 0" "\<forall>d' < d. bs ! slot_at bs h d' \<noteq> 0"
proof -
  obtain j where "j < length bs" "bs ! j = 0" using assms(2) by (auto simp: in_set_conv_nth)
  then have "\<exists>d. bs ! slot_at bs h d = 0" using slot_at_onto [OF assms(1)] by metis
  then show ?thesis using that exists_least_iff [of "\<lambda>d. bs ! slot_at bs h d = 0"] by blast
qed

lemma ht_insert_from_at:
  assumes "pow2 (length bs)" "bs ! slot_at bs h d = 0" "\<forall>d' < d. bs ! slot_at bs h d' \<noteq> 0"
  shows "n \<le> d \<Longrightarrow> unat slot = slot_at bs h (d - n) \<Longrightarrow>
    ht_insert_from bs (of_nat (length bs) - 1) e slot = Some (bs[slot_at bs h d := e])"
proof (induction n arbitrary: slot)
  case 0
  then show ?case using assms(2) by (simp add: ht_insert_from.simps)
next
  case (Suc n)
  have "unat ((slot + 1) AND (of_nat (length bs) - 1)) = slot_at bs h (d - n)"
    using Suc.prems by (simp only: unat_next_slot [OF assms(1)] slot_at_Suc Suc_diff_Suc Suc_le_lessD)
  then have "ht_insert_from bs (of_nat (length bs) - 1) e ((slot + 1) AND (of_nat (length bs) - 1)) = Some (bs[slot_at bs h d := e])"
    using Suc by simp
  moreover have "bs ! unat slot \<noteq> 0" using Suc.prems assms(3) by simp
  ultimately show ?case by (subst ht_insert_from.simps) simp
qed

lemma slot_at_update [simp]: "slot_at (bs[j := e]) h d = slot_at bs h d"
  by (simp add: slot_at_def)

lemma reach_update:
  assumes "reach bs h e" "e \<noteq> 0" "pow2 (length bs)" "j < length bs" "bs ! j = 0" "x \<noteq> 0"
  shows "reach (bs[j := x]) h e"
proof -
  obtain d where d: "bs ! slot_at bs h d = e" "\<forall>d' < d. bs ! slot_at bs h d' \<noteq> 0" using assms(1) by (auto simp: reach_def)
  have "slot_at bs h d \<noteq> j" using d(1) assms(2,5) by auto
  then show ?thesis
    unfolding reach_def using d assms(6) slot_at_lt [OF assms(3)]
    by (intro exI [of _ d]) (simp add: nth_list_update, metis nth_list_update_eq nth_list_update_neq)
qed

lemma ht_insert_at:
  assumes "pow2 (length bs)" "0 \<in> set bs" "ht_entry h i \<noteq> 0"
  obtains j where "ht_insert bs h i = Some (bs[j := ht_entry h i])" "j < length bs" "bs ! j = 0"
    "reach (bs[j := ht_entry h i]) h (ht_entry h i)"
proof -
  obtain d where d: "bs ! slot_at bs h d = 0" "\<forall>d' < d. bs ! slot_at bs h d' \<noteq> 0"
    using first_free [OF assms(1,2)] .
  let ?j = "slot_at bs h d"
  have lt: "slot_at bs h d' < length bs" for d' by (rule slot_at_lt [OF assms(1)])
  have "unat (h AND (of_nat (length bs) - 1)) = slot_at bs h 0" by (simp add: unat_masked [OF assms(1)] slot_at_def)
  then have "ht_insert bs h i = Some (bs[?j := ht_entry h i])"
    using ht_insert_from_at [OF assms(1) d, of d] by (simp add: ht_insert_def)
  moreover have "reach (bs[?j := ht_entry h i]) h (ht_entry h i)"
    unfolding reach_def using d assms(3) lt by (intro exI [of _ d]) (auto simp: nth_list_update)
  ultimately show ?thesis using that d(1) lt by blast
qed

text \<open>Entries hold their hash and id.\<close>

lemma ucast_down_up: "ucast (ucast w :: u64) = w" for w :: u32
  by (rule bit_word_eqI) (auto simp: bit_simps dest: bit_imp_le_length)

lemma e_hash_entry [simp]: "e_hash (ht_entry h i) = h"
proof -
  have "drop_bit 32 (ht_entry h i) = ucast h"
    by (rule bit_word_eqI) (auto simp: ht_entry_def bit_simps dest: bit_imp_le_length)
  then show ?thesis by (simp only: e_hash_def ucast_down_up)
qed

lemma entry_low: "ht_entry h i AND 0xFFFFFFFF = ucast (i + 1)"
proof -
  have m: "(0xFFFFFFFF :: u64) = mask 32" by (simp add: mask_eq_exp_minus_1)
  show ?thesis
    unfolding m by (rule bit_word_eqI) (auto simp: ht_entry_def bit_simps dest: bit_imp_le_length)
qed

lemma e_id_entry [simp]: "e_id (ht_entry h i) = i"
  by (simp only: e_id_def entry_low ucast_down_up) simp

lemma entry_nonzero: "i \<noteq> - 1 \<Longrightarrow> ht_entry h i \<noteq> 0"
  using e_id_entry [of h i] by (auto simp: e_id_def)

text \<open>
  A table that holds the ids \<open>S\<close>, each under the hash \<open>H\<close> of its name: every id is reached by
  probing, and nothing else is in the buckets.
\<close>

definition ent :: "(nat \<Rightarrow> u32) \<Rightarrow> nat \<Rightarrow> u64" where
  "ent H i = ht_entry (H i) (of_nat i)"

definition ht_ok :: "u64 list \<Rightarrow> (nat \<Rightarrow> u32) \<Rightarrow> nat set \<Rightarrow> bool" where
  "ht_ok bs H S \<longleftrightarrow> pow2 (length bs) \<and> S \<subseteq> {..<2 ^ 31} \<and> (\<forall>i \<in> S. reach bs (H i) (ent H i)) \<and>
     (\<forall>e \<in> set bs. e = 0 \<or> e \<in> ent H ` S) \<and> length (filter (\<lambda>e. e \<noteq> 0) bs) = card S"

lemma unat_id: "i < 2 ^ 31 \<Longrightarrow> unat (of_nat i :: u32) = i"
  by (simp add: unat_of_nat)

lemma ent_parts:
  assumes "i < 2 ^ 31"
  shows "ent H i \<noteq> 0" "e_hash (ent H i) = H i" "unat (e_id (ent H i)) = i"
proof -
  have "(of_nat i :: u32) \<noteq> - 1"
  proof
    assume "(of_nat i :: u32) = - 1"
    then have "unat (of_nat i :: u32) = unat (- 1 :: u32)" by simp
    then show False using assms by (simp add: unat_id unsigned_minus_1_eq_mask mask_eq_exp_minus_1)
  qed
  then show "ent H i \<noteq> 0" by (simp add: ent_def entry_nonzero)
qed (use assms in \<open>simp_all add: ent_def unat_id\<close>)

lemma ent_inj: "S \<subseteq> {..<2 ^ 31} \<Longrightarrow> inj_on (ent H) S"
  by (rule inj_onI) (metis ent_parts(3) lessThan_iff subsetD)

lemma ht_ok_free:
  assumes "ht_ok bs H S" "card S < length bs"
  shows "0 \<in> set bs"
proof (rule ccontr)
  assume "0 \<notin> set bs"
  then have "filter (\<lambda>e. e \<noteq> 0) bs = bs" by (intro filter_True) auto
  then show False using assms by (simp add: ht_ok_def)
qed

lemma ht_insert_ok:
  assumes ok: "ht_ok bs H S" and i: "i \<notin> S" "i < 2 ^ 31" and room: "card S < length bs"
  shows "\<exists>bs'. ht_insert bs (H i) (of_nat i) = Some bs' \<and> ht_ok bs' H (insert i S) \<and> length bs' = length bs"
proof -
  have p2: "pow2 (length bs)" and S: "S \<subseteq> {..<2 ^ 31}" using ok by (auto simp: ht_ok_def)
  have nz: "ht_entry (H i) (of_nat i) \<noteq> 0" using ent_parts(1) [OF i(2)] by (simp add: ent_def)
  obtain j where j: "ht_insert bs (H i) (of_nat i) = Some (bs[j := ent H i])" "j < length bs" "bs ! j = 0"
    "reach (bs[j := ent H i]) (H i) (ent H i)"
    using ht_insert_at [OF p2 ht_ok_free [OF ok room] nz] by (auto simp: ent_def)
  have "\<forall>x \<in> S. reach (bs[j := ent H i]) (H x) (ent H x)"
    using ok S j(2,3) p2 ent_parts(1) i(2) by (auto simp: ht_ok_def intro!: reach_update)
  moreover have "\<forall>e \<in> set (bs[j := ent H i]). e = 0 \<or> e \<in> ent H ` insert i S"
    using ok set_update_subset_insert [of bs j "ent H i"] by (auto simp: ht_ok_def)
  moreover have "length (filter (\<lambda>e. e \<noteq> 0) (bs[j := ent H i])) = Suc (length (filter (\<lambda>e. e \<noteq> 0) bs))"
    using ent_parts(1) [OF i(2)] arg_cong [OF id_take_nth_drop [OF j(2)], of "\<lambda>bs. length (filter (\<lambda>e. e \<noteq> 0) bs)"]
    by (simp add: upd_conv_take_nth_drop [OF j(2)] j(3))
  moreover have "card (insert i S) = Suc (card S)" using i(1) finite_subset [OF S] by simp
  ultimately show ?thesis using ok j(1,4) S i(2) p2 by (auto simp: ht_ok_def)
qed

lemma ht_reinsert_filter: "ht_reinsert nb es = ht_reinsert nb (filter (\<lambda>e. e \<noteq> 0) es)"
  by (induction es arbitrary: nb) (auto split: Option.bind_split)

lemma ht_reinsert_ok:
  assumes "distinct is" "set is \<subseteq> {..<2 ^ 31}" "set is \<inter> S = {}" "card S + length is < length nb" "ht_ok nb H S"
  shows "\<exists>nb'. ht_reinsert nb (map (ent H) is) = Some nb' \<and> ht_ok nb' H (S \<union> set is) \<and> length nb' = length nb"
  using assms
proof (induction "is" arbitrary: nb S)
  case (Cons i "is")
  have i: "i < 2 ^ 31" "i \<notin> S" using Cons.prems by auto
  obtain nb1 where nb1: "ht_insert nb (H i) (of_nat i) = Some nb1" "ht_ok nb1 H (insert i S)" "length nb1 = length nb"
    using ht_insert_ok [OF Cons.prems(5) i(2,1)] Cons.prems(4) by auto
  have "card (insert i S) \<le> Suc (card S)" by (rule card_insert_le_m1) auto
  then obtain nb' where "ht_reinsert nb1 (map (ent H) is) = Some nb'" "ht_ok nb' H (insert i S \<union> set is)" "length nb' = length nb1"
    using Cons.IH [of "insert i S" nb1] Cons.prems nb1 by auto
  then show ?case using nb1 i ent_parts [OF i(1)] by (simp add: ent_def [symmetric]) (simp add: ent_def)
qed simp

lemma ht_ok_entries:
  assumes ok: "ht_ok bs H S"
  obtains "is" where "filter (\<lambda>e. e \<noteq> 0) bs = map (ent H) is" "distinct is" "set is = S"
proof -
  let ?nz = "filter (\<lambda>e. e \<noteq> 0) bs"
  have S: "S \<subseteq> {..<2 ^ 31}" using ok by (simp add: ht_ok_def)
  have dec: "ent H (unat (e_id e)) = e" if "e \<in> set ?nz" for e
    using that ok S ent_parts(3) [of _ H] by (fastforce simp: ht_ok_def)
  have "ent H ` S \<subseteq> set ?nz"
  proof
    fix e assume "e \<in> ent H ` S"
    then obtain i where i: "i \<in> S" "e = ent H i" by auto
    then obtain d where "bs ! slot_at bs (H i) d = e" using ok by (auto simp: ht_ok_def reach_def)
    moreover have "slot_at bs (H i) d < length bs" using ok by (intro slot_at_lt) (simp add: ht_ok_def)
    moreover have "e \<noteq> 0" using i S ent_parts(1) by auto
    ultimately show "e \<in> set ?nz" by (auto simp: in_set_conv_nth)
  qed
  moreover have "set ?nz \<subseteq> ent H ` S" using ok by (auto simp: ht_ok_def)
  ultimately have set: "set ?nz = ent H ` S" by blast
  then have "card (set ?nz) = length ?nz" using ok S by (simp add: card_image [OF ent_inj] ht_ok_def)
  then have d: "distinct ?nz" by (rule card_distinct)
  let ?is = "map (\<lambda>e. unat (e_id e)) ?nz"
  have m: "map (ent H) ?is = ?nz" unfolding map_map comp_def by (rule map_idI) (rule dec)
  then have "distinct ?is" using d distinct_map by metis
  moreover have "set ?is = (\<lambda>i. unat (e_id (ent H i))) ` S" by (simp only: set_map set image_image)
  then have "set ?is = S" using S by (simp add: subset_iff ent_parts(3) cong: image_cong)
  ultimately show ?thesis using that m by metis
qed

lemma ht_rehash_ok:
  assumes "ht_ok bs H S" "pow2 n" "card S < n"
  shows "\<exists>nb. ht_reinsert (replicate n 0) bs = Some nb \<and> ht_ok nb H S \<and> length nb = n"
proof -
  obtain "is" where ids: "filter (\<lambda>e. e \<noteq> 0) bs = map (ent H) is" "distinct is" "set is = S"
    using ht_ok_entries [OF assms(1)] .
  have "ht_ok (replicate n 0) H {}" using assms(2) by (simp add: ht_ok_def)
  moreover have "set is \<subseteq> {..<2 ^ 31}" using assms(1) ids(3) by (simp add: ht_ok_def)
  ultimately show ?thesis
    using ht_reinsert_ok [OF ids(2), of "{}" "replicate n 0" H] assms(3) ids distinct_card [OF ids(2)]
    by (subst ht_reinsert_filter) simp
qed

section \<open>Names\<close>

text \<open>An atom that holds a name.\<close>

definition atom_at :: "arena \<Rightarrow> memory \<Rightarrow> nat \<Rightarrow> u8 list \<Rightarrow> bool" where
  "atom_at a m p s \<longleftrightarrow> str_ok a m p \<and> str_bytes (mem m) p = s \<and> ray_str_len (mem m) p = length s \<and>
     obj_type (mem m) p = - RAY_STR"

lemma atom_at_mono: "atom_at a m p s \<Longrightarrow> grows a m a' m' \<Longrightarrow> atom_at a' m' p s"
  using str_keep [of a m a' m' p] by (auto simp: atom_at_def)

lemma memcmp_eq: "length s = n \<Longrightarrow> n \<le> length p \<Longrightarrow> memcmp p s n = 0 \<longleftrightarrow> take n p = s"
proof (induction p s n rule: memcmp.induct)
  case (1 x xs y ys n)
  then show ?case by (auto simp: word_uint_eq_iff)
qed auto

lemma str_eq_atom:
  assumes "atom_at a m p s"
  shows "str_eq (mem m) p s' \<longleftrightarrow> s' = s"
proof -
  have len: "ray_str_len (mem m) p = length s" "mem_read (mem m) (ray_str_ptr (mem m) p) (length s) = s"
    using assms by (auto simp: atom_at_def str_bytes_def)
  then show ?thesis using memcmp_eq [of s' "length s'" s] by (auto simp: str_eq_def)
qed

definition names :: "sym_table \<Rightarrow> u8 list list" where
  "names t = map (\<lambda>i. str_bytes (heap t) (the (strings t ! i))) [0..<str_count t]"

lemma length_names [simp]: "length (names t) = str_count t"
  by (simp add: names_def)

abbreviation (input) name_hash :: "u8 list list \<Rightarrow> nat \<Rightarrow> u32" where
  "name_hash ns \<equiv> \<lambda>i. sym_hash (ns ! i)"

text \<open>
  The invariant of the arrays: they have their capacities, every id below the count has a name, and
  the buckets hold exactly these ids below the load limit.
\<close>

definition core_ok :: "sym_table \<Rightarrow> bool" where
  "core_ok t \<longleftrightarrow> pow2 (str_cap t) \<and> str_count t \<le> str_cap t \<and> str_cap t \<le> length (strings t) \<and> length (strings t) \<le> 2 ^ 31 \<and>
     str_cap t \<le> length (segments t) \<and> str_cap t \<le> 64 * length (dotted t) \<and> str_cap t \<le> 64 * length (scanned t) \<and>
     str_count t * 100 < bucket_cap t * 95 + 100 \<and>
     (\<forall>i < str_count t. \<exists>p. strings t ! i = Some p \<and> atom_at (sym_arena t) (sym_mem t) p (names t ! i)) \<and>
     ht_ok (buckets t) (name_hash (names t)) {..<str_count t} \<and>
     arena_ok (sym_arena t) (sym_mem t) \<and> lazy t = None"

lemma core_pow2: "core_ok t \<Longrightarrow> pow2 (bucket_cap t) \<and> pow2 (str_cap t)"
  by (simp add: core_ok_def ht_ok_def)

lemma core_load: "core_ok t \<Longrightarrow> str_count t < bucket_cap t"
  using pow2_bounds [of "bucket_cap t"] core_pow2 [of t] by (simp add: core_ok_def)

lemma core_count: "core_ok t \<Longrightarrow> str_count t \<le> 2 ^ 31"
  using pow2_bounds [of "str_cap t"] by (auto simp: core_ok_def)

lemma names_nth: "i < str_count t \<Longrightarrow> strings t ! i = Some p \<Longrightarrow> names t ! i = str_bytes (heap t) p"
  by (simp add: names_def)

section \<open>Probing\<close>

text \<open>The position of a name in the list of names.\<close>

fun index_of :: "u8 list list \<Rightarrow> u8 list \<Rightarrow> int" where
  "index_of [] s = - 1"
| "index_of (n # ns) s = (if n = s then 0 else let i = index_of ns s in if i < 0 then - 1 else i + 1)"

lemma index_of_range: "- 1 \<le> index_of ns s \<and> index_of ns s < int (length ns)"
  by (induction ns) (auto simp: Let_def)

lemma index_of_neg: "index_of ns s < 0 \<longleftrightarrow> s \<notin> set ns"
  by (induction ns) (auto simp: Let_def)

lemma index_of_absent: "s \<notin> set ns \<Longrightarrow> index_of ns s = - 1"
  using index_of_neg [of ns s] index_of_range [of ns s] by simp

lemma index_of_nth: "distinct ns \<Longrightarrow> i < length ns \<Longrightarrow> index_of ns (ns ! i) = int i"
proof (induction ns arbitrary: i)
  case (Cons n ns)
  then show ?case by (cases i) (auto simp: Let_def)
qed simp

lemma nth_index_of: "s \<in> set ns \<Longrightarrow> ns ! nat (index_of ns s) = s \<and> 0 \<le> index_of ns s"
proof (induction ns)
  case (Cons n ns)
  then show ?case using index_of_neg [of ns s] by (auto simp: Let_def nat_add_distrib)
qed simp

lemma index_of_append: "index_of (ns @ ms) s = (if s \<in> set ns then index_of ns s else
    if s \<in> set ms then int (length ns) + index_of ms s else - 1)"
proof (induction ns)
  case Nil
  then show ?case by (simp add: index_of_absent)
next
  case (Cons n ns)
  then show ?case using index_of_neg [of ns s] index_of_neg [of ms s] by (auto simp: Let_def)
qed

text \<open>The test of one bucket: the hash, the length and the bytes.\<close>

lemma bucket_match:
  assumes ok: "core_ok t" and e: "e \<in> set (buckets t)" "e \<noteq> 0"
  shows "(e_hash e = sym_hash s \<and> (case strings t ! unat (e_id e) of None \<Rightarrow> False | Some p \<Rightarrow> str_eq (heap t) p s)) \<longleftrightarrow>
    (\<exists>i < str_count t. e = ent (name_hash (names t)) i \<and> names t ! i = s)"
proof -
  obtain i where i: "i < str_count t" "e = ent (name_hash (names t)) i"
    using ok e by (auto simp: core_ok_def ht_ok_def)
  then have lt: "i < 2 ^ 31" using core_count [OF ok] by simp
  obtain p where p: "strings t ! i = Some p" "atom_at (sym_arena t) (sym_mem t) p (names t ! i)" using ok i(1) by (auto simp: core_ok_def)
  have "e = ent (name_hash (names t)) j \<Longrightarrow> j < str_count t \<Longrightarrow> j = i" for j
    using ent_parts(3) [of j] ent_parts(3) [OF lt] core_count [OF ok] i by (metis less_le_trans)
  then show ?thesis using i p str_eq_atom [OF p(2)] ent_parts [OF lt, of "name_hash (names t)"] by auto
qed

lemma sym_probe_from_hit:
  assumes ok: "core_ok t" and dist: "distinct (names t)" and i: "i < str_count t" "names t ! i = s"
    and d: "buckets t ! slot_at (buckets t) (sym_hash s) d = ent (name_hash (names t)) i"
    "\<forall>d' < d. buckets t ! slot_at (buckets t) (sym_hash s) d' \<noteq> 0"
  shows "n \<le> d \<Longrightarrow> unat slot = slot_at (buckets t) (sym_hash s) (d - n) \<Longrightarrow> sym_probe_from t (sym_hash s) s slot = Some (int i)"
proof (induction n arbitrary: slot)
  case 0
  have "ent (name_hash (names t)) i \<noteq> 0" "unat (e_id (ent (name_hash (names t)) i)) = i"
    using ent_parts i(1) core_count [OF ok] by auto
  moreover have "ent (name_hash (names t)) i \<in> set (buckets t)"
    using d(1) slot_at_lt [OF conjunct1 [OF core_pow2 [OF ok]]] nth_mem by metis
  ultimately show ?case
    using 0 d(1) bucket_match [OF ok, of "ent (name_hash (names t)) i" s] i
    by (subst sym_probe_from.simps) (auto simp: Let_def uint_nat)
next
  case (Suc n)
  let ?bs = "buckets t" let ?e = "?bs ! unat slot"
  have p2: "pow2 (length ?bs)" using core_pow2 [OF ok] by simp
  have nz: "?e \<noteq> 0" "?e \<in> set ?bs" using Suc.prems d(2) slot_at_lt [OF p2] by simp_all
  have "unat ((slot + 1) AND (of_nat (length ?bs) - 1)) = slot_at ?bs (sym_hash s) (d - n)"
    using Suc.prems by (simp only: unat_next_slot [OF p2] slot_at_Suc Suc_diff_Suc Suc_le_lessD)
  then have rec: "sym_probe_from t (sym_hash s) s ((slot + 1) AND (of_nat (length ?bs) - 1)) = Some (int i)"
    using Suc by simp
  show ?case
  proof (cases "e_hash ?e = sym_hash s \<and> (case strings t ! unat (e_id ?e) of None \<Rightarrow> False | Some p \<Rightarrow> str_eq (heap t) p s)")
    case True
    then obtain j where j: "j < str_count t" "?e = ent (name_hash (names t)) j" "names t ! j = s"
      using bucket_match [OF ok nz(2,1)] by auto
    then have "j = i" using dist i nth_eq_iff_index_eq [of "names t" j i] by simp
    then have "uint (e_id ?e) = int i" using j ent_parts(3) core_count [OF ok] by (simp add: uint_nat)
    then show ?thesis using True nz by (subst sym_probe_from.simps) (simp add: Let_def)
  next
    case False
    then show ?thesis using rec nz by (subst sym_probe_from.simps) (auto simp: Let_def)
  qed
qed

lemma sym_probe_from_miss:
  assumes ok: "core_ok t" and s: "s \<notin> set (names t)"
    and d: "buckets t ! slot_at (buckets t) (sym_hash s) d = 0" "\<forall>d' < d. buckets t ! slot_at (buckets t) (sym_hash s) d' \<noteq> 0"
  shows "n \<le> d \<Longrightarrow> unat slot = slot_at (buckets t) (sym_hash s) (d - n) \<Longrightarrow> sym_probe_from t (sym_hash s) s slot = Some (- 1)"
proof (induction n arbitrary: slot)
  case 0
  then show ?case using d(1) by (subst sym_probe_from.simps) simp
next
  case (Suc n)
  let ?bs = "buckets t" let ?e = "?bs ! unat slot"
  have p2: "pow2 (length ?bs)" using core_pow2 [OF ok] by simp
  have nz: "?e \<noteq> 0" "?e \<in> set ?bs" using Suc.prems d(2) slot_at_lt [OF p2] by simp_all
  have "unat ((slot + 1) AND (of_nat (length ?bs) - 1)) = slot_at ?bs (sym_hash s) (d - n)"
    using Suc.prems by (simp only: unat_next_slot [OF p2] slot_at_Suc Suc_diff_Suc Suc_le_lessD)
  then have rec: "sym_probe_from t (sym_hash s) s ((slot + 1) AND (of_nat (length ?bs) - 1)) = Some (- 1)"
    using Suc by simp
  have "\<not> (e_hash ?e = sym_hash s \<and> (case strings t ! unat (e_id ?e) of None \<Rightarrow> False | Some p \<Rightarrow> str_eq (heap t) p s))"
    unfolding bucket_match [OF ok nz(2,1)] using s by (auto simp: in_set_conv_nth)
  then show ?case using rec nz by (subst sym_probe_from.simps) (auto simp: Let_def)
qed

lemma sym_probe_index:
  assumes ok: "core_ok t" and dist: "distinct (names t)"
  shows "sym_probe t (sym_hash s) s = Some (index_of (names t) s)"
proof -
  let ?bs = "buckets t"
  have p2: "pow2 (length ?bs)" using core_pow2 [OF ok] by simp
  have start: "unat (sym_hash s AND (of_nat (length ?bs) - 1)) = slot_at ?bs (sym_hash s) 0"
    by (simp add: unat_masked [OF p2] slot_at_def)
  show ?thesis
  proof (cases "s \<in> set (names t)")
    case True
    then obtain i where i: "i < str_count t" "names t ! i = s" by (auto simp: in_set_conv_nth)
    then have "reach ?bs (sym_hash s) (ent (name_hash (names t)) i)" using ok by (auto simp: core_ok_def ht_ok_def)
    then obtain d where d: "?bs ! slot_at ?bs (sym_hash s) d = ent (name_hash (names t)) i"
      "\<forall>d' < d. ?bs ! slot_at ?bs (sym_hash s) d' \<noteq> 0" by (auto simp: reach_def)
    have "index_of (names t) s = int i" using dist i index_of_nth [of "names t" i] by simp
    then show ?thesis using sym_probe_from_hit [OF ok dist i d, of d] start by (simp add: sym_probe_def)
  next
    case False
    have "0 \<in> set ?bs" using ok core_load [OF ok] by (intro ht_ok_free) (auto simp: core_ok_def)
    then obtain d where "?bs ! slot_at ?bs (sym_hash s) d = 0" "\<forall>d' < d. ?bs ! slot_at ?bs (sym_hash s) d' \<noteq> 0"
      using first_free [OF p2] by blast
    then show ?thesis using sym_probe_from_miss [OF ok False, of d d] start False by (simp add: sym_probe_def index_of_absent)
  qed
qed

lemma probe_all_index: "core_ok t \<Longrightarrow> distinct (names t) \<Longrightarrow> probe_all t ss = Some (map (index_of (names t)) ss)"
  by (induction ss) (simp_all add: sym_probe_index)

section \<open>Growing\<close>

text \<open>The cached flags and segments of an id; beyond the capacity there are none.\<close>

definition dot_bit :: "sym_table \<Rightarrow> nat \<Rightarrow> bool" where
  "dot_bit t i \<longleftrightarrow> i < str_cap t \<and> bm_get (dotted t) i"

definition scan_bit :: "sym_table \<Rightarrow> nat \<Rightarrow> bool" where
  "scan_bit t i \<longleftrightarrow> i < str_cap t \<and> bm_get (scanned t) i"

definition seg_of :: "sym_table \<Rightarrow> nat \<Rightarrow> int list" where
  "seg_of t i = (if i < str_cap t then segments t ! i else [])"

definition same_side :: "sym_table \<Rightarrow> sym_table \<Rightarrow> bool" where
  "same_side t t' \<longleftrightarrow> dot_bit t' = dot_bit t \<and> scan_bit t' = scan_bit t \<and> seg_of t' = seg_of t"

lemma same_side_refl [simp]: "same_side t t"
  by (simp add: same_side_def)

lemma same_side_trans: "same_side t u \<Longrightarrow> same_side u v \<Longrightarrow> same_side t v"
  by (simp add: same_side_def)

lemma same_side_simps [simp]:
  "same_side t (u\<lparr>buckets := bs\<rparr>) = same_side t u" "same_side t (u\<lparr>strings := ps\<rparr>) = same_side t u"
  "same_side t (u\<lparr>str_count := n\<rparr>) = same_side t u" "same_side t (u\<lparr>sym_arena := a\<rparr>) = same_side t u"
  "same_side t (u\<lparr>sym_mem := m\<rparr>) = same_side t u"
  by (simp_all add: same_side_def dot_bit_def scan_bit_def seg_of_def fun_eq_iff)

lemma names_simps [simp]:
  "names (t\<lparr>buckets := bs\<rparr>) = names t" "names (t\<lparr>sym_arena := a\<rparr>) = names t"
  "names (t\<lparr>scanned := ws\<rparr>) = names t" "names (t\<lparr>dotted := ws\<rparr>) = names t" "names (t\<lparr>segments := gs\<rparr>) = names t"
  by (simp_all add: names_def)

lemma core_buckets:
  assumes "core_ok t" "ht_ok bs (name_hash (names t)) {..<str_count t}" "length bs \<ge> bucket_cap t"
  shows "core_ok (t\<lparr>buckets := bs\<rparr>)"
  using assms by (simp add: core_ok_def)

lemma ht_grow_to_ok:
  assumes ok: "core_ok t" and n: "pow2 n" "bucket_cap t \<le> n"
  shows "\<exists>ok bs. ht_grow_to E t n = Some (ok, t\<lparr>buckets := bs\<rparr>) \<and> core_ok (t\<lparr>buckets := bs\<rparr>) \<and>
    (ok \<longrightarrow> length bs = n) \<and> (\<not> ok \<longrightarrow> bs = buckets t)"
proof (cases "alloc_ok E t (n * 8)")
  case True
  obtain nb where nb: "ht_reinsert (replicate n 0) (buckets t) = Some nb" "ht_ok nb (name_hash (names t)) {..<str_count t}" "length nb = n"
    using ht_rehash_ok [of "buckets t" "name_hash (names t)" "{..<str_count t}" n] ok n core_load [OF ok] by (auto simp: core_ok_def)
  then show ?thesis using True core_buckets [OF ok nb(2)] n(2) by (intro exI [of _ True] exI [of _ nb]) (simp add: ht_grow_to_def)
next
  case False
  then show ?thesis using ok by (intro exI [of _ False] exI [of _ "buckets t"]) (simp add: ht_grow_to_def)
qed

lemma resize_ok:
  assumes ok: "core_ok t" and n: "pow2 n" "str_cap t \<le> n"
    and "n \<le> length ps" "n \<le> length gs" "n \<le> 64 * length ds" "n \<le> 64 * length cs" "\<forall>i < str_cap t. ps ! i = strings t ! i"
    and "length ps \<le> 2 ^ 31"
  shows "core_ok (t\<lparr>strings := ps, dotted := ds, scanned := cs, segments := gs, str_cap := n\<rparr>) \<and>
    names (t\<lparr>strings := ps, dotted := ds, scanned := cs, segments := gs, str_cap := n\<rparr>) = names t"
proof -
  have c: "str_count t \<le> str_cap t" using ok by (simp add: core_ok_def)
  then have nm: "names (t\<lparr>strings := ps, dotted := ds, scanned := cs, segments := gs, str_cap := n\<rparr>) = names t"
    using assms(8) by (simp add: names_def)
  show ?thesis using ok assms c unfolding core_ok_def nm by auto
qed

lemma bm_get_extend:
  assumes "64 dvd old" "old \<le> 64 * length ws" "old \<le> n"
  shows "(i < n \<and> bm_get (take (old div 64) ws @ replicate ((n + 63) div 64 - old div 64) 0) i) \<longleftrightarrow> i < old \<and> bm_get ws i"
proof (cases "i < old")
  case True
  then have "i div 64 < old div 64" "old div 64 \<le> length ws" using assms(1,2) by (auto elim!: dvdE)
  then show ?thesis using True assms(3) by (simp add: bm_get_def nth_append)
next
  case False
  have "i div 64 - old div 64 < (n + 63) div 64 - old div 64" "old div 64 \<le> i div 64" if "i < n"
    using that False assms(1,3) by (auto elim!: dvdE)
  then show ?thesis using False assms(2) by (auto simp: bm_get_def nth_append)
qed

lemma pow2_words: "pow2 n \<Longrightarrow> 64 dvd n \<and> (n + 63) div 64 = n div 64"
proof -
  assume "pow2 n"
  then obtain k where k: "8 \<le> k" "n = 2 ^ k" by (auto simp: pow2_def)
  then have "(2 :: nat) ^ 6 dvd 2 ^ k" by (intro le_imp_power_dvd) simp
  then show ?thesis by (auto simp: k(2) elim!: dvdE)
qed

lemma sym_grow_str_cap_ok:
  assumes ok: "core_ok t" and n: "pow2 n" "str_cap t \<le> n" and r: "sym_grow_str_cap E t n = (res, t')"
  shows "core_ok t' \<and> names t' = names t \<and> same_side t t' \<and> (res \<longrightarrow> str_cap t' = n) \<and> (\<not> res \<longrightarrow> str_cap t' = str_cap t) \<and>
    buckets t' = buckets t \<and> sym_arena t' = sym_arena t \<and> sym_mem t' = sym_mem t \<and> str_count t' = str_count t"
proof (cases "n = str_cap t")
  case True
  then show ?thesis using r ok by (simp add: sym_grow_str_cap_def)
next
  case False
  define old where "old = str_cap t"
  define ps where "ps = take old (strings t) @ replicate (n - old) None"
  define gs where "gs = take old (segments t) @ replicate (n - old) ([] :: int list)"
  define ext where "ext = (\<lambda>ws :: u64 list. take (old div 64) ws @ replicate ((n + 63) div 64 - old div 64) 0)"
  have lt: "old < n" using False n(2) by (simp add: old_def)
  have w: "64 dvd old" "(old + 63) div 64 = old div 64" "64 dvd n" "(n + 63) div 64 = n div 64"
    using pow2_words [OF n(1)] pow2_words [of old] ok by (auto simp: core_ok_def old_def)
  have bm: "(old + 63) div 64 < (n + 63) div 64" using lt w by (auto elim!: dvdE)
  have cap: "old \<le> length (strings t)" "old \<le> length (segments t)" "old \<le> 64 * length (dotted t)" "old \<le> 64 * length (scanned t)"
    "pow2 old" using ok by (auto simp: core_ok_def old_def)
  have ext: "length (ext ws) = n div 64" "n \<le> 64 * length (ext ws)" "(i < n \<and> bm_get (ext ws) i) \<longleftrightarrow> i < old \<and> bm_get ws i"
    "i < old \<Longrightarrow> bm_get (ext ws) i = bm_get ws i" if "old \<le> 64 * length ws" for ws i
  proof -
    have "old div 64 \<le> length ws" "old div 64 \<le> n div 64" using that w(1) lt by (auto elim!: dvdE)
    then show l: "length (ext ws) = n div 64" by (simp add: ext_def w(4))
    show "n \<le> 64 * length (ext ws)" unfolding l using w(3) by (auto elim!: dvdE)
    show e: "(i < n \<and> bm_get (ext ws) i) \<longleftrightarrow> i < old \<and> bm_get ws i"
      unfolding ext_def by (rule bm_get_extend [OF w(1) that]) (use lt in simp)
    show "i < old \<Longrightarrow> bm_get (ext ws) i = bm_get ws i" using e lt by auto
  qed
  have res: "(res, t') \<in> {(False, t), (False, t\<lparr>strings := ps\<rparr>), (False, t\<lparr>strings := ps, dotted := ext (dotted t)\<rparr>),
      (False, t\<lparr>strings := ps, dotted := ext (dotted t), scanned := ext (scanned t)\<rparr>),
      (True, t\<lparr>strings := ps, dotted := ext (dotted t), scanned := ext (scanned t), segments := gs, str_cap := n\<rparr>)}"
    using r lt bm unfolding sym_grow_str_cap_def Let_def ps_def gs_def ext_def old_def [symmetric] w(2) by (auto split: if_splits)
  have P: "n \<le> length ps" "n \<le> length gs" "\<forall>i < old. ps ! i = strings t ! i" "\<forall>i < old. gs ! i = segments t ! i"
    using cap lt by (auto simp: ps_def gs_def nth_append)
  have small: "length ps \<le> 2 ^ 31" using cap(1) lt pow2_bounds [OF n(1)] by (simp add: ps_def)
  have G: "gs ! i = []" if "old \<le> i" "i < n" for i using that cap(2) by (simp add: gs_def nth_append)
  note R = resize_ok [OF ok, folded old_def, OF _ _ _ _ _ _ P(3) small]
  have all: "core_ok (t\<lparr>strings := ps, dotted := ext (dotted t), scanned := ext (scanned t), segments := gs, str_cap := n\<rparr>) \<and>
      names (t\<lparr>strings := ps, dotted := ext (dotted t), scanned := ext (scanned t), segments := gs, str_cap := n\<rparr>) = names t"
    using R [OF n(1)] P(1,2) ext(2) cap(3,4) lt by simp
  have part: "core_ok (t\<lparr>strings := ps, dotted := ds, scanned := cs\<rparr>) \<and> names (t\<lparr>strings := ps, dotted := ds, scanned := cs\<rparr>) = names t"
    if "old \<le> 64 * length ds" "old \<le> 64 * length cs" for ds cs
    using R [OF cap(5), of "segments t" ds cs] P(1) cap(2) lt that by (simp add: old_def)
  have le: "old \<le> 64 * length (ext (dotted t))" "old \<le> 64 * length (ext (scanned t))" using ext(2) cap(3,4) lt by (meson less_imp_le order_trans)+
  have side_all: "same_side t (t\<lparr>strings := ps, dotted := ext (dotted t), scanned := ext (scanned t), segments := gs, str_cap := n\<rparr>)"
    using ext(3) [OF cap(3)] ext(3) [OF cap(4)] P(4) G lt
    by (simp add: same_side_def dot_bit_def scan_bit_def seg_of_def fun_eq_iff flip: old_def)
  have side_part: "same_side t (t\<lparr>strings := ps, dotted := ds, scanned := cs\<rparr>)"
    if "ds = dotted t \<or> ds = ext (dotted t)" "cs = scanned t \<or> cs = ext (scanned t)" for ds cs
    using that ext(4) [OF cap(3)] ext(4) [OF cap(4)]
    by (auto simp: same_side_def dot_bit_def scan_bit_def seg_of_def fun_eq_iff simp flip: old_def)
  from res show ?thesis
    using ok all side_all part [OF cap(3,4)] part [OF le(1) cap(4)] part [OF le] side_part [of "dotted t" "scanned t"]
      side_part [of "ext (dotted t)" "scanned t"] side_part [of "ext (dotted t)" "ext (scanned t)"]
    by (elim insertE emptyE) simp_all
qed

lemma bucket_target_ok:
  assumes "pow2 c"
  shows "\<exists>r. bucket_target n c = Some r \<and> (\<forall>k. r = Some k \<longrightarrow> pow2 k \<and> c \<le> k \<and> n * 100 < k * 70)"
  using assms
proof (induction "2 ^ 31 - c" arbitrary: c rule: less_induct)
  case less
  show ?case
  proof (cases "c * 70 \<le> n * 100 \<and> c < 2 ^ 31")
    case True
    have "2 ^ 31 - c * 2 < 2 ^ 31 - c" using True pow2_bounds [OF less.prems] by linarith
    then obtain r where "bucket_target n (c * 2) = Some r" "\<forall>k. r = Some k \<longrightarrow> pow2 k \<and> c * 2 \<le> k \<and> n * 100 < k * 70"
      using less.hyps pow2_double [OF less.prems] True by blast
    then show ?thesis using True by (subst bucket_target.simps) auto
  next
    case False
    then show ?thesis using less.prems by (subst bucket_target.simps) auto
  qed
qed

lemma string_target_ok:
  assumes "pow2 c"
  shows "\<exists>r. string_target n c = Some r \<and> (\<forall>k. r = Some k \<longrightarrow> pow2 k \<and> c \<le> k \<and> n \<le> k)"
  using assms
proof (induction "2 ^ 31 - c" arbitrary: c rule: less_induct)
  case less
  show ?case
  proof (cases "c < n \<and> c < 2 ^ 31 - 1")
    case True
    have "2 ^ 31 - c * 2 < 2 ^ 31 - c" using True pow2_bounds [OF less.prems] by linarith
    then obtain r where "string_target n (c * 2) = Some r" "\<forall>k. r = Some k \<longrightarrow> pow2 k \<and> c * 2 \<le> k \<and> n \<le> k"
      using less.hyps pow2_double [OF less.prems] True by force
    then show ?thesis using True by (subst string_target.simps) auto
  next
    case False
    then show ?thesis using less.prems by (subst string_target.simps) auto
  qed
qed

section \<open>Room in the arena\<close>

lemma core_arena:
  assumes "core_ok t" "arena_ok a m" "grows (sym_arena t) (sym_mem t) a m"
  shows "core_ok (t\<lparr>sym_arena := a, sym_mem := m\<rparr>) \<and> names (t\<lparr>sym_arena := a, sym_mem := m\<rparr>) = names t"
proof -
  have at: "\<exists>p. strings t ! i = Some p \<and> atom_at a m p (names t ! i)" if "i < str_count t" for i
    using assms(1,3) that atom_at_mono unfolding core_ok_def by blast
  have nm: "names (t\<lparr>sym_arena := a, sym_mem := m\<rparr>) = names t"
  proof (rule nth_equalityI)
    fix i assume "i < length (names (t\<lparr>sym_arena := a, sym_mem := m\<rparr>))"
    then have i: "i < str_count t" by simp
    then obtain p where "strings t ! i = Some p" "atom_at a m p (names t ! i)" using at by blast
    then show "names (t\<lparr>sym_arena := a, sym_mem := m\<rparr>) ! i = names t ! i" using i by (simp add: names_def atom_at_def)
  qed simp
  show ?thesis using assms at unfolding nm by (simp add: core_ok_def nm)
qed

lemma arena_reserve_keeps:
  assumes "arena_ok a m" "vm_ok vm" "unat b \<le> 2 ^ 62" "ray_arena_reserve vm a m b = (ok, a', m')"
  shows "arena_ok a' m' \<and> grows a m a' m' \<and> (ok \<longrightarrow> unat b \<le> avail a')"
proof -
  have o: "mem m2 = mem m" if "arena_new_chunk vm m n = (r, m2)" for n r m2
    using that by (auto simp: arena_new_chunk_def split: if_splits prod.splits option.splits)
  have m: "mem m' = mem m"
    using assms(4) o by (auto simp: ray_arena_reserve_def Let_def split: if_splits prod.splits option.splits)
  have g: "given a p n \<Longrightarrow> given a' p n" for p n
    using assms(4) by (auto simp: given_def ray_arena_reserve_def Let_def split: if_splits prod.splits option.splits)
  show ?thesis
  proof (cases ok)
    case True
    then show ?thesis using arena_reserve_ok [OF assms(1-3), of a' m'] assms(4) grows_same_mem [OF m g] by simp
  next
    case False
    then have "a' = a \<and> m' = m"
      using assms(4) new_chunk_None by (fastforce simp: ray_arena_reserve_def Let_def split: if_splits prod.splits option.splits)
    then show ?thesis using assms(1) False by (simp add: grows_refl)
  qed
qed

text \<open>The bytes of arena a name takes.\<close>

definition upper :: "u8 list \<Rightarrow> nat" where
  "upper s = unat (ray_sym_bytes_upper (of_nat (length s)))"

lemma upper_eq:
  assumes "length s \<le> 2 ^ 61"
  shows "upper s = (if length s < 7 then 32 else 32 + up32 (length s + 33))"
proof -
  define w :: size_t where "w = of_nat (length s)"
  have u: "unat w = length s" using assms by (simp add: w_def unat_of_nat)
  then have "w < 7 \<longleftrightarrow> length s < 7" by (simp add: word_less_nat_alt)
  moreover have "unat (32 + ((32 + w + 1 + 31) AND NOT 31)) = 32 + up32 (length s + 33)"
  proof -
    have e: "(32 + w + 1 + 31) AND NOT 31 = ARENA_ALIGN_UP (32 + (w + 1))" by (simp add: ARENA_ALIGN_UP_def add_ac)
    have "unat (32 + (w + 1)) = length s + 33" using assms u by (simp add: unat_word_ariths)
    then have c: "unat (ARENA_ALIGN_UP (32 + (w + 1))) = up32 (length s + 33)"
      using assms unat_ARENA_ALIGN_UP [of "32 + (w + 1)"] by simp
    then show ?thesis unfolding e using assms up32_bounds [of "length s + 33"] by (simp add: unat_word_ariths)
  qed
  ultimately show ?thesis by (simp add: upper_def ray_sym_bytes_upper_def w_def)
qed

lemma arena_alloc_None: "ray_arena_alloc vm a m n = (None, a', m') \<Longrightarrow> a' = a \<and> m' = m"
  using new_chunk_None
  by (fastforce simp: ray_arena_alloc_def arena_bump_def Let_def split: if_splits prod.splits option.splits)

lemma arena_str_None: "ray_arena_str vm a m s = (None, a', m') \<Longrightarrow> a' = a \<and> m' = m"
  using arena_alloc_None
  by (fastforce simp: ray_arena_str_def Let_def split: if_splits prod.splits option.splits)

lemma arena_str_avail:
  assumes ok: "arena_ok a m" and len: "length s \<le> 2 ^ 61" and fit: "upper s \<le> avail a"
  shows "\<exists>v a' m'. ray_arena_str vm a m s = (Some v, a', m') \<and> avail a' = avail a - upper s"
proof (cases "length s < 7")
  case True
  then have "upper s = 32" using upper_eq [OF len] by simp
  then obtain v a' m' where "ray_arena_alloc vm a m 0 = (Some v, a', m')" "avail a' = avail a - 32"
    using arena_alloc_avail [OF ok, of 0 vm] fit by (auto simp: up32_def)
  then show ?thesis using True \<open>upper s = 32\<close> by (simp add: ray_arena_str_def Let_def)
next
  case False
  define cb where "cb = (32 + (word_of_nat (length s) + 1) + 31 :: size_t) AND NOT 31"
  have "unat (32 + (word_of_nat (length s) + 1) :: size_t) = length s + 33"
    using len by (simp add: unat_word_ariths unat_of_nat)
  then have cb: "unat cb = up32 (length s + 33)"
    using len unat_ARENA_ALIGN_UP [of "32 + (word_of_nat (length s) + 1)"] by (simp add: cb_def ARENA_ALIGN_UP_def add_ac)
  have up: "up32 (32 + unat cb) = upper s" "unat cb \<le> 2 ^ 62"
    using False len up32_bounds [of "length s + 33"] upper_eq [OF len] by (simp_all add: cb)
  obtain v a' m' where "ray_arena_alloc vm a m cb = (Some v, a', m')" "avail a' = avail a - upper s"
    using arena_alloc_avail [OF ok up(2), of vm] fit up(1) by auto
  then show ?thesis using False unfolding ray_arena_str_def Let_def cb_def [symmetric] by simp
qed

section \<open>Reserving and committing\<close>

definition reserved :: "sym_table \<Rightarrow> nat \<Rightarrow> nat \<Rightarrow> bool" where
  "reserved t n b \<longleftrightarrow> (str_count t + n) * 100 < bucket_cap t * 70 \<and> str_count t + n \<le> str_cap t \<and> b \<le> avail (sym_arena t)"

text \<open>A step that keeps the table well-formed, its names and its cached segments.\<close>

definition keeps :: "sym_table \<Rightarrow> sym_table \<Rightarrow> bool" where
  "keeps t t' \<longleftrightarrow> core_ok t' \<and> names t' = names t \<and> same_side t t'"

lemma keeps_refl: "core_ok t \<Longrightarrow> keeps t t"
  by (simp add: keeps_def)

lemma keeps_trans: "keeps t u \<Longrightarrow> keeps u v \<Longrightarrow> keeps t v"
  by (auto simp: keeps_def intro: same_side_trans)

lemma keeps_count: "keeps t u \<Longrightarrow> str_count u = str_count t"
  by (metis keeps_def length_names)

lemma keeps_core: "keeps t u \<Longrightarrow> core_ok u"
  by (simp add: keeps_def)

lemma reserve_buckets:
  assumes "core_ok t"
  shows "\<exists>ok u. do { target \<leftarrow> bucket_target n (bucket_cap t);
      case target of None \<Rightarrow> Some (False, t)
      | Some k \<Rightarrow> if bucket_cap t < k then ht_grow_to E t k else Some (True, t) } = Some (ok, u) \<and>
    keeps t u \<and> str_cap u = str_cap t \<and> sym_arena u = sym_arena t \<and> sym_mem u = sym_mem t \<and> (ok \<longrightarrow> n * 100 < bucket_cap u * 70)"
proof -
  obtain r where r: "bucket_target n (bucket_cap t) = Some r"
    "\<And>k. r = Some k \<Longrightarrow> pow2 k \<and> bucket_cap t \<le> k \<and> n * 100 < k * 70"
    using bucket_target_ok core_pow2 [OF assms] by blast
  show ?thesis
  proof (cases "\<exists>k. r = Some k \<and> bucket_cap t < k")
    case True
    then obtain k where k: "r = Some k" "bucket_cap t < k" by auto
    then obtain ok bs where "ht_grow_to E t k = Some (ok, t\<lparr>buckets := bs\<rparr>)" "core_ok (t\<lparr>buckets := bs\<rparr>)" "ok \<longrightarrow> length bs = k"
      using ht_grow_to_ok [OF assms] r(2) [of k] by (meson less_imp_le)
    then show ?thesis using r k by (auto simp: keeps_def)
  next
    case False
    have "n * 100 < bucket_cap t * 70" if "r = Some k" for k
    proof -
      have "k = bucket_cap t" using False that r(2) [OF that] by (simp add: not_less)
      then show ?thesis using r(2) [OF that] by simp
    qed
    then show ?thesis using r False assms by (cases r) (auto simp: keeps_def)
  qed
qed

lemma reserve_strings:
  assumes "core_ok t"
  shows "\<exists>ok u. (if str_cap t < n
      then do { target \<leftarrow> string_target n (str_cap t); Some (case target of None \<Rightarrow> (False, t) | Some k \<Rightarrow> sym_grow_str_cap E t k) }
      else Some (True, t)) = Some (ok, u) \<and>
    keeps t u \<and> buckets u = buckets t \<and> sym_arena u = sym_arena t \<and> sym_mem u = sym_mem t \<and> (ok \<longrightarrow> n \<le> str_cap u)"
proof (cases "str_cap t < n")
  case True
  obtain r where r: "string_target n (str_cap t) = Some r" "\<And>k. r = Some k \<Longrightarrow> pow2 k \<and> str_cap t \<le> k \<and> n \<le> k"
    using string_target_ok core_pow2 [OF assms] by blast
  show ?thesis
  proof (cases r)
    case None
    then show ?thesis using True r(1) assms by (auto simp: keeps_refl)
  next
    case (Some k)
    obtain ok u where "sym_grow_str_cap E t k = (ok, u)" by (cases "sym_grow_str_cap E t k")
    then show ?thesis
      using sym_grow_str_cap_ok [OF assms, of k E ok u] r(2) [OF Some] True r(1) Some by (auto simp: keeps_def)
  qed
qed (use assms in \<open>auto simp: keeps_refl\<close>)

lemma sym_reserve_capacity_ok:
  assumes ok: "core_ok t" and vm: "vm_ok (vmem E)" and b: "unat b \<le> 2 ^ 62"
  shows "\<exists>ok t'. sym_reserve_capacity E t n b = Some (ok, t') \<and> keeps t t' \<and> (ok \<longrightarrow> reserved t' n (unat b))"
proof -
  let ?n = "str_count t + n"
  obtain ok1 u where u: "do { target \<leftarrow> bucket_target ?n (bucket_cap t);
      case target of None \<Rightarrow> Some (False, t)
      | Some k \<Rightarrow> if bucket_cap t < k then ht_grow_to E t k else Some (True, t) } = Some (ok1, u)"
    "keeps t u" "str_cap u = str_cap t" "ok1 \<longrightarrow> ?n * 100 < bucket_cap u * 70"
    using reserve_buckets [OF ok] by blast
  obtain ok2 v where v: "(if str_cap u < ?n
      then do { target \<leftarrow> string_target ?n (str_cap u); Some (case target of None \<Rightarrow> (False, u) | Some k \<Rightarrow> sym_grow_str_cap E u k) }
      else Some (True, u)) = Some (ok2, v)"
    "keeps u v" "buckets v = buckets u" "ok2 \<longrightarrow> ?n \<le> str_cap v"
    using reserve_strings [OF keeps_core [OF u(2)]] by blast
  have tv: "keeps t v" using u(2) v(2) by (rule keeps_trans)
  obtain ok3 a m where r: "ray_arena_reserve (vmem E) (sym_arena v) (sym_mem v) b = (ok3, a, m)"
    by (cases "ray_arena_reserve (vmem E) (sym_arena v) (sym_mem v) b") auto
  have ao: "arena_ok (sym_arena v) (sym_mem v)" using keeps_core [OF tv] by (simp add: core_ok_def)
  note am = arena_reserve_keeps [OF ao vm b r]
  let ?w = "v\<lparr>sym_arena := a, sym_mem := m\<rparr>"
  have vw: "keeps v ?w" using core_arena [OF keeps_core [OF tv], of a m] am by (simp add: keeps_def)
  have eq: "sym_reserve_capacity E t n b = (if \<not> ok1 then Some (False, u) else if \<not> ok2 then Some (False, v)
      else if b = 0 then Some (True, v) else Some (ok3, ?w))"
    using u(1) v(1) r unfolding sym_reserve_capacity_def Let_def
    by (simp only: bind_assoc [symmetric]) (simp cong: if_cong)
  note facts = u(2,4) v(3,4) tv am keeps_trans [OF tv vw] keeps_count [OF tv]
  consider "\<not> ok1" | "ok1" "\<not> ok2" | "ok1" "ok2" "b = 0" | "ok1" "ok2" "b \<noteq> 0" by blast
  then show ?thesis
  proof cases
    case 1
    then show ?thesis unfolding eq using facts by auto
  next
    case 2
    then show ?thesis unfolding eq using facts by auto
  next
    case 3
    then show ?thesis unfolding eq using facts by (auto simp: reserved_def)
  next
    case 4
    then show ?thesis unfolding eq using facts by (auto simp: reserved_def)
  qed
qed

lemma commit_room_ok:
  assumes ok: "core_ok t"
  shows "\<exists>room bs. commit_room E t = Some (room, t\<lparr>buckets := bs\<rparr>) \<and> core_ok (t\<lparr>buckets := bs\<rparr>) \<and>
    (room \<longrightarrow> str_count t * 100 < length bs * 95) \<and> (str_count t * 100 < bucket_cap t * 70 \<longrightarrow> room \<and> bs = buckets t)"
proof (cases "bucket_cap t * 70 \<le> str_count t * 100")
  case False
  then show ?thesis using ok by (intro exI [of _ True] exI [of _ "buckets t"]) (simp add: commit_room_def)
next
  case True
  have p: "pow2 (bucket_cap t)" using core_pow2 [OF ok] by simp
  show ?thesis
  proof (cases "bucket_cap t < 2 ^ 31")
    case lt: True
    obtain g bs where g: "ht_grow_to E t (bucket_cap t * 2) = Some (g, t\<lparr>buckets := bs\<rparr>)" "core_ok (t\<lparr>buckets := bs\<rparr>)"
      "g \<longrightarrow> length bs = bucket_cap t * 2" "\<not> g \<longrightarrow> bs = buckets t"
      using ht_grow_to_ok [OF ok pow2_double [OF p lt], of E] by auto
    have "str_count t * 100 < bucket_cap t * 2 * 95" using ok pow2_bounds [OF p] by (simp add: core_ok_def)
    then have "g \<or> \<not> length bs * 95 \<le> str_count t * 100 \<Longrightarrow> str_count t * 100 < length bs * 95" using g(3) by auto
    moreover have "commit_room E t = Some (g \<or> \<not> length bs * 95 \<le> str_count t * 100, t\<lparr>buckets := bs\<rparr>)"
      using True lt g(1) by (simp add: commit_room_def ht_grow_def)
    ultimately show ?thesis using g(2) True by (intro exI conjI) (assumption | simp)+
  next
    case False
    then have "commit_room E t = Some (\<not> bucket_cap t * 95 \<le> str_count t * 100, t\<lparr>buckets := buckets t\<rparr>)"
      using True by (simp add: commit_room_def ht_grow_def)
    then show ?thesis using True ok by (intro exI conjI) (assumption | simp)+
  qed
qed

lemma ht_ok_cong: "(\<And>i. i \<in> S \<Longrightarrow> H i = H' i) \<Longrightarrow> ht_ok bs H S \<longleftrightarrow> ht_ok bs H' S"
  by (simp add: ht_ok_def ent_def cong: image_cong)

text \<open>The last step of an insertion: the atom, the array slot and the bucket.\<close>

lemma commit_last:
  assumes ok: "core_ok t" and lt: "str_count t < str_cap t" and load: "str_count t * 100 < bucket_cap t * 95"
    and a: "arena_ok a m" "grows (sym_arena t) (sym_mem t) a m" "atom_at a m p s"
  obtains bs where "ht_insert (buckets t) (sym_hash s) (of_nat (str_count t)) = Some bs" "length bs = bucket_cap t"
    "core_ok (t\<lparr>buckets := bs, strings := (strings t)[str_count t := Some p], str_count := str_count t + 1, sym_arena := a, sym_mem := m\<rparr>)"
    "names (t\<lparr>buckets := bs, strings := (strings t)[str_count t := Some p], str_count := str_count t + 1, sym_arena := a, sym_mem := m\<rparr>) =
       names t @ [s]"
proof -
  define n where "n = str_count t"
  let ?H = "name_hash (names t @ [s])"
  have n31: "n < 2 ^ 31" using lt pow2_bounds [of "str_cap t"] core_pow2 [OF ok] by (simp add: n_def)
  have "ht_ok (buckets t) (name_hash (names t)) {..<n}" using ok by (simp add: core_ok_def n_def)
  then have "ht_ok (buckets t) ?H {..<n}" by (subst ht_ok_cong) (auto simp: nth_append n_def)
  then obtain bs where bs: "ht_insert (buckets t) (?H n) (of_nat n) = Some bs" "ht_ok bs ?H (insert n {..<n})" "length bs = bucket_cap t"
    using ht_insert_ok [of "buckets t" ?H "{..<n}" n] n31 core_load [OF ok] by (auto simp: n_def)
  have Hn: "?H n = sym_hash s" by (simp add: nth_append n_def)
  let ?t = "t\<lparr>buckets := bs, strings := (strings t)[n := Some p], str_count := n + 1, sym_arena := a, sym_mem := m\<rparr>"
  have len: "n < length (strings t)" using ok lt by (simp add: core_ok_def n_def)
  have at: "\<exists>q. strings ?t ! i = Some q \<and> atom_at a m q ((names t @ [s]) ! i)" if "i < n + 1" for i
  proof (cases "i = n")
    case True
    then show ?thesis using len a(3) by (simp add: nth_append n_def)
  next
    case False
    then have i: "i < str_count t" using that by (simp add: n_def)
    then obtain q where "strings t ! i = Some q" "atom_at (sym_arena t) (sym_mem t) q (names t ! i)" using ok by (auto simp: core_ok_def)
    then show ?thesis using False i atom_at_mono [OF _ a(2)] by (simp add: nth_append)
  qed
  have nm: "names ?t = names t @ [s]"
  proof (rule nth_equalityI)
    fix i assume "i < length (names ?t)"
    then have i: "i < n + 1" by simp
    obtain q where "strings ?t ! i = Some q" "atom_at a m q ((names t @ [s]) ! i)" using at [OF i] by blast
    then show "names ?t ! i = (names t @ [s]) ! i" using i by (simp add: names_def atom_at_def del: upt_Suc)
  qed (simp add: n_def)
  have "insert n {..<n} = {..<n + 1}" by auto
  then have "core_ok ?t"
    using ok lt load a(1) at bs(2,3) unfolding core_ok_def nm by (simp add: n_def)
  then show ?thesis using that bs(1,3) nm Hn by (simp add: n_def)
qed

lemma atom_of_arena:
  assumes "core_ok t" "vm_ok vm" "length s \<le> 2 ^ 61" "ray_arena_str vm (sym_arena t) (sym_mem t) s = (Some p, a, m)"
  shows "arena_ok a m" "grows (sym_arena t) (sym_mem t) a m" "atom_at a m p s"
proof -
  have "str_put (sym_arena t) (sym_mem t) s p a m"
    using arena_str_ok [OF _ assms(2-4)] assms(1) by (simp add: core_ok_def)
  then show "arena_ok a m" "grows (sym_arena t) (sym_mem t) a m" "atom_at a m p s"
    by (auto simp: atom_at_def str_put_def intro: str_put_grows gives_grows)
qed

definition added :: "sym_table \<Rightarrow> u8 list list \<Rightarrow> sym_table \<Rightarrow> bool" where
  "added t ss t' \<longleftrightarrow> core_ok t' \<and> names t' = names t @ ss"

lemma commit_slot_ok:
  assumes ok: "core_ok t" and r: "commit_slot E t = (res, v)"
  shows "keeps t v \<and> buckets v = buckets t \<and> sym_arena v = sym_arena t \<and> sym_mem v = sym_mem t \<and>
    (res \<longrightarrow> str_count v < str_cap v) \<and> (str_count t < str_cap t \<longrightarrow> res \<and> v = t)"
proof (cases "str_count t < str_cap t \<or> UINT32_MAX div 2 \<le> str_cap t")
  case True
  then show ?thesis using r ok by (auto simp: commit_slot_def keeps_refl split: if_splits)
next
  case False
  have c: "256 \<le> str_cap t" "str_count t \<le> str_cap t" using pow2_bounds [of "str_cap t"] core_pow2 [OF ok] ok by (auto simp: core_ok_def)
  have "pow2 (str_cap t * 2)" using False pow2_double core_pow2 [OF ok] by simp
  from sym_grow_str_cap_ok [OF ok this, of E res v] show ?thesis using False c r by (auto simp: commit_slot_def keeps_def)
qed

lemma commit_atom_ok:
  assumes ok: "core_ok t" and vm: "vm_ok (vmem E)" and s: "length s \<le> 2 ^ 61"
    and lt: "str_count t < str_cap t" and load: "str_count t * 100 < bucket_cap t * 95"
  shows "\<exists>r t'. commit_atom E t (sym_hash s) s = Some (r, t') \<and> same_side t t' \<and>
    (r = - 1 \<and> core_ok t' \<and> names t' = names t \<or> r = int (str_count t) \<and> added t [s] t') \<and>
    (reserved t (Suc n) (upper s + b) \<longrightarrow> 0 \<le> r \<and> reserved t' n b)"
proof -
  obtain r a m where r: "ray_arena_str (vmem E) (sym_arena t) (sym_mem t) s = (r, a, m)"
    by (cases "ray_arena_str (vmem E) (sym_arena t) (sym_mem t) s") auto
  have fit: "r \<noteq> None \<and> avail a = avail (sym_arena t) - upper s" if "reserved t (Suc n) (upper s + b)"
    using arena_str_avail [of "sym_arena t" "sym_mem t" s "vmem E"] ok s r that by (auto simp: core_ok_def reserved_def)
  show ?thesis
  proof (cases r)
    case None
    then have "a = sym_arena t" "m = sym_mem t" using arena_str_None r by auto
    then show ?thesis using ok r None fit by (auto simp: commit_atom_def)
  next
    case (Some p)
    note A = atom_of_arena [OF ok vm s, of p a m]
    obtain nb where "ht_insert (buckets t) (sym_hash s) (of_nat (str_count t)) = Some nb" "length nb = bucket_cap t"
      "core_ok (t\<lparr>buckets := nb, strings := (strings t)[str_count t := Some p], str_count := str_count t + 1, sym_arena := a, sym_mem := m\<rparr>)"
      "names (t\<lparr>buckets := nb, strings := (strings t)[str_count t := Some p], str_count := str_count t + 1, sym_arena := a, sym_mem := m\<rparr>) = names t @ [s]"
      using commit_last [OF ok lt load, of a m p] A r Some by auto
    then show ?thesis using r Some fit by (auto simp: added_def reserved_def commit_atom_def Let_def)
  qed
qed

lemma sym_commit_new_ok:
  assumes ok: "core_ok t" and vm: "vm_ok (vmem E)" and s: "length s \<le> 2 ^ 61"
  shows "\<exists>r t'. sym_commit_new E t (sym_hash s) s = Some (r, t') \<and> same_side t t' \<and>
    (r = - 1 \<and> core_ok t' \<and> names t' = names t \<or> r = int (str_count t) \<and> added t [s] t') \<and>
    (reserved t (Suc n) (upper s + b) \<longrightarrow> 0 \<le> r \<and> reserved t' n b)"
proof -
  obtain room bs where u: "commit_room E t = Some (room, t\<lparr>buckets := bs\<rparr>)" "core_ok (t\<lparr>buckets := bs\<rparr>)"
    "room \<longrightarrow> str_count t * 100 < length bs * 95" "str_count t * 100 < bucket_cap t * 70 \<longrightarrow> room \<and> bs = buckets t"
    using commit_room_ok [OF ok] by blast
  let ?u = "t\<lparr>buckets := bs\<rparr>"
  have tu: "keeps t ?u" using u(2) by (simp add: keeps_def)
  obtain res v where v: "commit_slot E ?u = (res, v)" by (cases "commit_slot E ?u")
  note V = commit_slot_ok [OF u(2) v]
  have tv: "keeps t v" using keeps_trans [OF tu] V by blast
  have rv: "room \<and> res \<and> v = t" if "reserved t (Suc n) (upper s + b)" using u(4) V that by (simp add: reserved_def)
  show ?thesis
  proof (cases "room \<and> res")
    case False
    have "sym_commit_new E t (sym_hash s) s = Some (- 1, if room then v else ?u)"
      using False u(1) v by (auto simp: sym_commit_new_def)
    then show ?thesis using tu tv rv False by (auto simp: keeps_def)
  next
    case True
    have e: "sym_commit_new E t (sym_hash s) s = commit_atom E v (sym_hash s) s" using True u(1) v by (simp add: sym_commit_new_def)
    have load: "str_count v * 100 < bucket_cap v * 95" using u(3) True V keeps_count [OF tv] by simp
    have N: "names v = names t" "str_count v = str_count t" "core_ok v" "same_side t v" using tv keeps_count [OF tv] by (auto simp: keeps_def)
    obtain r t' where "commit_atom E v (sym_hash s) s = Some (r, t')" "same_side v t'"
      "r = - 1 \<and> core_ok t' \<and> names t' = names v \<or> r = int (str_count v) \<and> added v [s] t'"
      "reserved v (Suc n) (upper s + b) \<longrightarrow> 0 \<le> r \<and> reserved t' n b"
      using commit_atom_ok [OF N(3) vm s _ load, of n b] N(1) V True by auto
    then show ?thesis using e N rv same_side_trans [OF N(4)] by (auto simp: added_def)
  qed
qed

end
