(* ===== verification/SymTable.thy ===== *)
theory SymTable
  imports SymCore
begin

text \<open>
  The symbol table as a dictionary: the segments of dotted names, interning, finding and reading, runs
  of operations, and snapshots.  The invariant is \<open>tab_ok\<close>; the interface for readers is the locale
  \<open>name_table\<close>.
\<close>

unbundle bit_operations_syntax

section \<open>Segments of a name\<close>

lemma plain_seg: "46 \<notin> set (tl x) \<Longrightarrow> sym_shape x = None"
  by (cases x) (auto simp: sym_shape_def Let_def)

text \<open>The position of the dot that ends the first segment.\<close>

definition seg_end :: "bool \<Rightarrow> u8 list \<Rightarrow> nat" where
  "seg_end lead p = (if lead then 1 else 0) + length (takeWhile (\<lambda>c. c \<noteq> 46) (drop (if lead then 1 else 0) p))"

lemma seg_split_step:
  "seg_split lead (Suc n) p =
     (if p = [] then ([], True)
      else if seg_end lead p < length p
      then if seg_end lead p = 0 then ([], False)
           else case seg_split False n (drop (seg_end lead p + 1) p) of (ss, ok) \<Rightarrow> (take (seg_end lead p) p # ss, ok)
      else ([p], True))"
  by (auto simp: seg_end_def Let_def)

lemma seg_end_dot: "seg_end lead p < length p \<Longrightarrow> p ! seg_end lead p = 46"
proof -
  let ?k = "if lead then 1 else 0 :: nat"
  assume lt: "seg_end lead p < length p"
  then have "length (takeWhile (\<lambda>c. c \<noteq> 46) (drop ?k p)) < length (drop ?k p)" by (auto simp: seg_end_def)
  from nth_length_takeWhile [OF this] show ?thesis using lt by (auto simp: seg_end_def)
qed

lemma upto_dot: "46 \<notin> set (take (length (takeWhile (\<lambda>c. c \<noteq> 46) q)) q)" for q :: "u8 list"
proof -
  have "take (length (takeWhile (\<lambda>c. c \<noteq> 46) q)) q = takeWhile (\<lambda>c. c \<noteq> 46) q"
    by (metis append_eq_conv_conj takeWhile_dropWhile_id)
  then show ?thesis using set_takeWhileD [of 46 "\<lambda>c. c \<noteq> 46" q] by auto
qed

lemma seg_plain: "46 \<notin> set (tl (take (seg_end lead p) p))"
proof (cases lead)
  case True
  then show ?thesis using upto_dot [of "tl p"] by (cases p) (auto simp: seg_end_def)
next
  case False
  then show ?thesis using upto_dot [of p] by (cases "take (length (takeWhile (\<lambda>c. c \<noteq> 46) p)) p") (auto simp: seg_end_def)
qed

lemma dots_after:
  assumes "seg_end lead p < length p"
  shows "filter (\<lambda>c. c = 46) (if lead then tl p else p) = 46 # filter (\<lambda>c. c = 46) (drop (seg_end lead p + 1) p)"
proof -
  have g: "filter (\<lambda>c. c = 46) q = 46 # filter (\<lambda>c. c = 46) (drop (k + 1) q)"
    if "k = length (takeWhile (\<lambda>c. c \<noteq> 46) q)" "k < length q" for q :: "u8 list" and k
  proof -
    have "q = take k q @ 46 # drop (k + 1) q"
      using id_take_nth_drop [OF that(2)] nth_length_takeWhile [of "\<lambda>c. c \<noteq> 46" q] that by simp
    then have "filter (\<lambda>c. c = 46) q = filter (\<lambda>c. c = 46) (take k q) @ 46 # filter (\<lambda>c. c = 46) (drop (k + 1) q)"
      by (metis (mono_tags, lifting) filter.simps(2) filter_append)
    moreover have "filter (\<lambda>c. c = 46) (take k q) = []" using upto_dot [of q] by (auto simp: that(1) filter_empty_conv)
    ultimately show ?thesis by simp
  qed
  show ?thesis using assms g [OF refl, of "tl p"] g [OF refl, of p] by (cases lead; cases p) (auto simp: seg_end_def)
qed

lemma seg_split_facts:
  "seg_split lead n p = (ss, ok) \<Longrightarrow>
     length ss \<le> n \<and> sum_list (map length ss) \<le> length p \<and> (\<forall>x \<in> set ss. sym_shape x = None)"
proof (induction n arbitrary: lead p ss)
  case (Suc n)
  show ?case
  proof (cases "p = [] \<or> seg_end lead p = 0 \<and> seg_end lead p < length p")
    case True
    then show ?thesis using Suc.prems by (auto simp: seg_split_step simp del: seg_split.simps)
  next
    case False
    show ?thesis
    proof (cases "seg_end lead p < length p")
      case True
      obtain ss' where ss': "seg_split False n (drop (seg_end lead p + 1) p) = (ss', ok)" "ss = take (seg_end lead p) p # ss'"
        using Suc.prems True False by (auto simp: seg_split_step simp del: seg_split.simps split: prod.splits)
      show ?thesis using Suc.IH [OF ss'(1)] True plain_seg [OF seg_plain] by (auto simp: ss'(2))
    next
      case ge: False
      then have "ss = [p]" using Suc.prems False by (auto simp: seg_split_step simp del: seg_split.simps)
      then show ?thesis using ge plain_seg [OF seg_plain [of lead p]] by simp
    qed
  qed
qed simp

lemma seg_split_shorter:
  assumes "seg_split lead n p = (ss, ok)" "seg_end lead p < length p" "x \<in> set ss"
  shows "length x < length p"
proof (cases n)
  case (Suc m)
  have p: "p \<noteq> []" "seg_end lead p \<noteq> 0" using assms by (auto simp: Suc seg_split_step simp del: seg_split.simps split: if_splits)
  obtain ss' where ss': "seg_split False m (drop (seg_end lead p + 1) p) = (ss', ok)" "ss = take (seg_end lead p) p # ss'"
    using assms p by (auto simp: Suc seg_split_step simp del: seg_split.simps split: prod.splits)
  show ?thesis
  proof (cases "x \<in> set ss'")
    case True
    then have "length x \<le> sum_list (map length ss')" by (simp add: member_le_sum_list)
    then show ?thesis using seg_split_facts [OF ss'(1)] assms(2) by auto
  qed (use assms ss'(2) in auto)
qed (use assms in simp)

lemma dot_ends_segment:
  assumes "46 \<in> set (if lead then tl p else p)"
  shows "seg_end lead p < length p"
proof -
  have "length (takeWhile (\<lambda>c. c \<noteq> 46) q) < length q" if "46 \<in> set q" for q :: "u8 list"
    using that by (metis (mono_tags, lifting) length_takeWhile_le nat_less_le takeWhile_eq_all_conv takeWhile_eq_take take_all_iff)
  from this [OF assms] show ?thesis by (cases p; cases lead) (auto simp: seg_end_def)
qed

lemma shape_facts:
  assumes "sym_shape s = Some (ss, ok)"
  shows "length ss \<le> 255" "sum_list (map length ss) \<le> length s" "x \<in> set ss \<Longrightarrow> sym_shape x = None \<and> length x < length s"
proof -
  let ?lead = "hd s = 46" let ?n = "length (filter (\<lambda>c. c = 46) (if ?lead then tl s else s)) + 1"
  have r: "seg_split ?lead ?n s = (ss, ok)" "?n \<le> 255" "46 \<in> set (if ?lead then tl s else s)"
    using assms by (auto simp: sym_shape_def Let_def simp del: seg_split.simps split: if_splits)
  then show "length ss \<le> 255" "sum_list (map length ss) \<le> length s" using seg_split_facts [OF r(1)] by auto
  show "x \<in> set ss \<Longrightarrow> sym_shape x = None \<and> length x < length s"
    using seg_split_facts [OF r(1)] seg_split_shorter [OF r(1) dot_ends_segment [OF r(3)]] by blast
qed

text \<open>Joining segments by dots.\<close>

fun seg_join :: "u8 list list \<Rightarrow> u8 list" where
  "seg_join [] = []"
| "seg_join [x] = x"
| "seg_join (x # y # xs) = x @ 46 # seg_join (y # xs)"

lemma seg_split_join:
  assumes "p \<noteq> []" "last p \<noteq> 46" "length (filter (\<lambda>c. c = 46) (if lead then tl p else p)) < n" "seg_split lead n p = (ss, True)"
  shows "seg_join ss = p \<and> [] \<notin> set ss \<and> length ss = length (filter (\<lambda>c. c = 46) (if lead then tl p else p)) + 1"
  using assms
proof (induction n arbitrary: lead p ss)
  case (Suc n)
  let ?d = "seg_end lead p"
  let ?q = "if lead then tl p else p"
  show ?case
  proof (cases "?d < length p")
    case True
    obtain ss' where ss': "seg_split False n (drop (?d + 1) p) = (ss', True)" "ss = take ?d p # ss'" and d0: "?d \<noteq> 0"
      using Suc.prems True by (auto simp: seg_split_step simp del: seg_split.simps split: prod.splits if_splits)
    have p: "p = take ?d p @ 46 # drop (?d + 1) p" using id_take_nth_drop [OF True] seg_end_dot [OF True] by simp
    then have ne: "drop (?d + 1) p \<noteq> []" using Suc.prems(2) by (metis last_snoc)
    have dots: "length (filter (\<lambda>c. c = 46) ?q) = Suc (length (filter (\<lambda>c. c = 46) (drop (?d + 1) p)))"
      unfolding dots_after [OF True] by simp
    have last: "last (drop (?d + 1) p) \<noteq> 46" using Suc.prems(2) p ne by (simp add: last_drop)
    have IH: "seg_join ss' = drop (?d + 1) p \<and> [] \<notin> set ss' \<and> length ss' = length (filter (\<lambda>c. c = 46) (drop (?d + 1) p)) + 1"
      using Suc.IH [OF ne last, of False] dots Suc.prems(3) ss'(1) by simp
    then obtain y ys where "ss' = y # ys" by (cases ss') auto
    then have "seg_join ss = take ?d p @ 46 # drop (?d + 1) p" using IH by (simp add: ss'(2))
    then have "seg_join ss = p" using p by simp
    then show ?thesis using IH dots d0 Suc.prems(1) by (simp add: ss'(2))
  next
    case False
    then have "46 \<notin> set ?q" using dot_ends_segment by blast
    then have "filter (\<lambda>c. c = 46) ?q = []" by (auto simp: filter_empty_conv)
    moreover have "ss = [p]" using Suc.prems False by (simp add: seg_split_step del: seg_split.simps)
    ultimately show ?thesis using Suc.prems(1) by simp
  qed
qed simp

definition name_segs :: "u8 list \<Rightarrow> u8 list list option" where
  "name_segs s = (case sym_shape s of Some (ss, True) \<Rightarrow> Some ss | _ \<Rightarrow> None)"

lemma name_segs_None: "sym_shape s = None \<Longrightarrow> name_segs s = None"
  by (simp add: name_segs_def)

text \<open>A name with segments is these segments, none of them empty, joined by dots.\<close>

lemma name_segs_join: "name_segs s = Some ss \<Longrightarrow> seg_join ss = s \<and> [] \<notin> set ss"
proof -
  assume "name_segs s = Some ss"
  then have "sym_shape s = Some (ss, True)" by (auto simp: name_segs_def split: option.splits bool.splits)
  moreover from this have "s \<noteq> []" by (auto simp: sym_shape_def)
  ultimately show ?thesis
    using seg_split_join [of s "hd s = 46" "length (filter (\<lambda>c. c = 46) (if hd s = 46 then tl s else s)) + 1" ss]
    by (auto simp: sym_shape_def Let_def simp del: seg_split.simps split: if_splits)
qed

section \<open>The cached segments\<close>

definition segs_ok :: "sym_table \<Rightarrow> bool" where
  "segs_ok t \<longleftrightarrow> (\<forall>i.
     (if i < str_count t
      then (if dot_bit t i
            then (\<exists>ss. name_segs (names t ! i) = Some ss \<and> set ss \<subseteq> set (names t) \<and> seg_of t i = map (index_of (names t)) ss)
            else seg_of t i = [] \<and> (scan_bit t i \<longrightarrow> name_segs (names t ! i) = None))
      else \<not> dot_bit t i \<and> \<not> scan_bit t i \<and> seg_of t i = []))"

definition tab_ok :: "sym_table \<Rightarrow> bool" where
  "tab_ok t \<longleftrightarrow> core_ok t \<and> distinct (names t) \<and> segs_ok t"

lemma keeps_sym_ok: "tab_ok t \<Longrightarrow> keeps t u \<Longrightarrow> tab_ok u"
  using keeps_count [of t u] by (simp add: tab_ok_def segs_ok_def keeps_def same_side_def)

lemma index_of_extend: "set ss \<subseteq> set ns \<Longrightarrow> map (index_of (ns @ ms)) ss = map (index_of ns) ss"
  by (auto simp: index_of_append)

lemma added_sym_ok:
  assumes ok: "tab_ok t" and a: "added t ss u" "same_side t u" and d: "distinct (names t @ ss)"
  shows "tab_ok u"
proof -
  have nm: "names u = names t @ ss" "core_ok u" using a(1) by (auto simp: added_def)
  have c: "str_count u = str_count t + length ss" by (metis length_append length_names nm(1))
  have "segs_ok u" unfolding segs_ok_def
  proof (intro allI)
    fix i
    have side: "dot_bit u i = dot_bit t i" "scan_bit u i = scan_bit t i" "seg_of u i = seg_of t i" using a(2) by (auto simp: same_side_def)
    have old: "if i < str_count t
      then (if dot_bit t i
            then (\<exists>ss. name_segs (names t ! i) = Some ss \<and> set ss \<subseteq> set (names t) \<and> seg_of t i = map (index_of (names t)) ss)
            else seg_of t i = [] \<and> (scan_bit t i \<longrightarrow> name_segs (names t ! i) = None))
      else \<not> dot_bit t i \<and> \<not> scan_bit t i \<and> seg_of t i = []"
      using ok by (simp add: tab_ok_def segs_ok_def)
    show "if i < str_count u
      then (if dot_bit u i
            then (\<exists>ss. name_segs (names u ! i) = Some ss \<and> set ss \<subseteq> set (names u) \<and> seg_of u i = map (index_of (names u)) ss)
            else seg_of u i = [] \<and> (scan_bit u i \<longrightarrow> name_segs (names u ! i) = None))
      else \<not> dot_bit u i \<and> \<not> scan_bit u i \<and> seg_of u i = []"
      unfolding side nm c using old
      by (cases "i < str_count t"; cases "dot_bit t i") (auto simp: nth_append index_of_extend)
  qed
  then show ?thesis using nm d by (simp add: tab_ok_def)
qed

lemma bm_get_set: "i div 64 < length ws \<Longrightarrow> bm_get (bm_set ws i) j \<longleftrightarrow> i = j \<or> bm_get ws j"
proof -
  assume l: "i div 64 < length ws"
  show ?thesis
  proof (cases "i div 64 = j div 64")
    case True
    moreover have "i mod 64 = j mod 64 \<longleftrightarrow> i = j" using True by (metis mult_div_mod_eq)
    ultimately show ?thesis using l by (auto simp: bm_get_def bm_set_def bit_simps)
  next
    case False
    then show ?thesis by (auto simp: bm_get_def bm_set_def)
  qed
qed

lemma length_bm_set [simp]: "length (bm_set ws i) = length ws"
  by (simp add: bm_set_def)

lemma core_word: "core_ok t \<Longrightarrow> i < str_cap t \<Longrightarrow> i div 64 < length (scanned t) \<and> i div 64 < length (dotted t)"
  by (auto simp: core_ok_def less_mult_imp_div_less mult.commute)

lemma core_side:
  assumes "core_ok t" "length ws = length (scanned t)" "length ds = length (dotted t)" "length gs = length (segments t)"
  shows "core_ok (t\<lparr>scanned := ws, dotted := ds, segments := gs\<rparr>)"
  using assms by (simp add: core_ok_def)

text \<open>Marking a name as settled that is plain or has its segments.\<close>

lemma settle_ok:
  assumes ok: "tab_ok t" and i: "i < str_count t" "name_segs (names t ! i) = None \<or> dot_bit t i"
  shows "tab_ok (t\<lparr>scanned := bm_set (scanned t) i\<rparr>)"
proof -
  let ?u = "t\<lparr>scanned := bm_set (scanned t) i\<rparr>"
  have co: "core_ok t" using ok by (simp add: tab_ok_def)
  have lt: "i < str_cap t" using i(1) co by (simp add: core_ok_def)
  have "scan_bit ?u j \<longleftrightarrow> j = i \<or> scan_bit t j" for j
    using bm_get_set [OF conjunct1 [OF core_word [OF co lt]]] lt by (auto simp: scan_bit_def)
  moreover have "dot_bit ?u = dot_bit t" "seg_of ?u = seg_of t" by (simp_all add: dot_bit_def seg_of_def fun_eq_iff)
  moreover have "core_ok ?u" using core_side [OF co, of "bm_set (scanned t) i" "dotted t" "segments t"] by simp
  ultimately show ?thesis using ok i by (auto simp: tab_ok_def segs_ok_def)
qed

lemma settle_reserved: "reserved (t\<lparr>scanned := ws\<rparr>) n b = reserved t n b"
  by (simp add: reserved_def)

section \<open>Committing segments\<close>

definition fresh :: "u8 list list \<Rightarrow> u8 list list \<Rightarrow> u8 list list" where
  "fresh ns ss = filter (\<lambda>x. x \<notin> set ns) ss"

lemma new_segs_fresh: "new_segs ss (map (index_of ns) ss) = fresh ns ss"
  by (induction ss) (auto simp: new_segs_def fresh_def index_of_neg)

lemma commit_segs_ok:
  assumes "tab_ok t" "vm_ok (vmem E)" "names t = ns @ ads" "distinct (fresh ns ss)" "set (fresh ns ss) \<inter> set ads = {}"
    and "\<forall>x \<in> set ss. sym_shape x = None \<and> length x \<le> 2 ^ 61"
    and "reserved t (length (fresh ns ss) + n) (sum_list (map upper (fresh ns ss)) + b)"
  shows "\<exists>t'. commit_segs E t (zip ss (map (index_of ns) ss)) = Some (Some (map (index_of (names t')) ss), t') \<and>
    tab_ok t' \<and> names t' = names t @ fresh ns ss \<and> reserved t' n b"
  using assms
proof (induction ss arbitrary: t ads)
  case Nil
  then show ?case by (simp add: fresh_def)
next
  case (Cons x ss)
  show ?case
  proof (cases "x \<in> set ns")
    case True
    then have f: "fresh ns (x # ss) = fresh ns ss" by (simp add: fresh_def)
    obtain t' where t': "commit_segs E t (zip ss (map (index_of ns) ss)) = Some (Some (map (index_of (names t')) ss), t')"
      "tab_ok t'" "names t' = names t @ fresh ns ss" "reserved t' n b"
      using Cons.IH [of t ads] Cons.prems unfolding f by auto
    have "index_of (names t') x = index_of ns x" using True Cons.prems(3) t'(3) by (simp add: index_of_append)
    then show ?thesis using True t' index_of_neg [of ns x] f by (auto simp: index_of_neg)
  next
    case False
    then have f: "fresh ns (x # ss) = x # fresh ns ss" by (simp add: fresh_def)
    have xn: "x \<notin> set (names t)" using False Cons.prems(3,5) by (auto simp: f)
    have co: "core_ok t" and x: "length x \<le> 2 ^ 61" "name_segs x = None" using Cons.prems by (auto simp: tab_ok_def name_segs_None)
    obtain u where u: "sym_commit_new E t (sym_hash x) x = Some (int (str_count t), u)" "same_side t u" "added t [x] u"
      "reserved u (length (fresh ns ss) + n) (sum_list (map upper (fresh ns ss)) + b)"
      using sym_commit_new_ok [OF co Cons.prems(2) x(1), of "length (fresh ns ss) + n" "sum_list (map upper (fresh ns ss)) + b"] Cons.prems(7)
      by (fastforce simp: f add.assoc)
    let ?v = "u\<lparr>scanned := bm_set (scanned u) (str_count t)\<rparr>"
    have nu: "names u = names t @ [x]" using u(3) by (simp add: added_def)
    then have cu: "str_count u = Suc (str_count t)" by (metis length_append_singleton length_names)
    have "tab_ok u" using added_sym_ok [OF Cons.prems(1) u(3,2)] xn Cons.prems(1) by (simp add: tab_ok_def)
    then have v: "tab_ok ?v" by (rule settle_ok) (use cu nu x(2) in \<open>auto simp: nth_append\<close>)
    obtain t' where t': "commit_segs E ?v (zip ss (map (index_of ns) ss)) = Some (Some (map (index_of (names t')) ss), t')"
      "tab_ok t'" "names t' = names ?v @ fresh ns ss" "reserved t' n b"
      using Cons.IH [OF v Cons.prems(2), of "ads @ [x]"] Cons.prems(3-6) u(4) nu unfolding f by (auto simp: settle_reserved)
    have "index_of (names t') x = int (str_count t)" using xn nu t'(3) by (simp add: index_of_append)
    then show ?thesis using False t' u(1) f nu by (simp add: index_of_absent)
  qed
qed

lemma upper_le: "length s \<le> 2 ^ 61 \<Longrightarrow> upper s \<le> length s + 96"
  using up32_bounds(2) [of "length s + 33"] by (simp add: upper_eq)

lemma unat_sum_list: "sum_list (map unat ws) < 2 ^ 64 \<Longrightarrow> unat (sum_list ws) = sum_list (map unat ws)" for ws :: "u64 list"
  by (induction ws) (simp_all add: unat_word_ariths)

lemma sum_upper_le:
  "\<forall>x \<in> set ss. length x \<le> 2 ^ 61 \<Longrightarrow> sum_list (map upper ss) \<le> sum_list (map length ss) + 96 * length ss"
  by (induction ss) (use upper_le in force)+

lemma fresh_bounds:
  "length (fresh ns ss) \<le> length ss" "sum_list (map length (fresh ns ss)) \<le> sum_list (map length ss)" "set (fresh ns ss) \<subseteq> set ss"
  by (induction ss) (auto simp: fresh_def le_SucI)

definition segs_bytes :: "nat \<Rightarrow> nat" where
  "segs_bytes n = up32 (32 + n * 8)"

lemma unat_segs_block: "n \<le> 255 \<Longrightarrow> unat (segs_block n) = segs_bytes n"
proof -
  assume n: "n \<le> 255"
  have "segs_block n = ARENA_ALIGN_UP (32 + of_nat n * 8)" by (simp add: segs_block_def ARENA_ALIGN_UP_def add_ac)
  moreover have "unat (32 + of_nat n * 8 :: size_t) = 32 + n * 8" using n by (simp add: unat_word_ariths unat_of_nat)
  ultimately show ?thesis using unat_ARENA_ALIGN_UP [of "32 + of_nat n * 8"] n by (simp add: segs_bytes_def)
qed

lemma segs_bytes_le: "n \<le> 255 \<Longrightarrow> segs_bytes n \<le> 2103"
  using up32_bounds(2) [of "32 + n * 8"] by (simp add: segs_bytes_def)

text \<open>The bytes reserved for the new segments of a name and their array, and for the name itself.\<close>

lemma arena_bytes:
  assumes "sym_shape s = Some (ss, ok)" "length s \<le> 2 ^ 60"
  shows "unat (new_seg_bytes (fresh ns ss) + segs_block (length ss)) = sum_list (map upper (fresh ns ss)) + segs_bytes (length ss)"
    "unat (ray_sym_bytes_upper (of_nat (length s)) + (new_seg_bytes (fresh ns ss) + segs_block (length ss))) =
       upper s + (sum_list (map upper (fresh ns ss)) + segs_bytes (length ss))"
    "upper s + (sum_list (map upper (fresh ns ss)) + segs_bytes (length ss)) \<le> 2 ^ 62"
    "upper s + (sum_list (map upper (fresh ns ss)) + segs_bytes (length ss)) \<le> 2 * length s + 30000"
proof -
  have len: "\<forall>x \<in> set (fresh ns ss). length x \<le> 2 ^ 61"
    using shape_facts(3) [OF assms(1)] fresh_bounds(3) [of ns ss] assms(2) by fastforce
  have "sum_list (map upper (fresh ns ss)) \<le> length s + 96 * 255"
    using sum_upper_le [OF len] fresh_bounds(1,2) [where ns = ns and ss = ss] shape_facts(1,2) [OF assms(1)] by linarith
  moreover have "upper s \<le> length s + 96" using upper_le assms(2) by simp
  ultimately show room: "upper s + (sum_list (map upper (fresh ns ss)) + segs_bytes (length ss)) \<le> 2 * length s + 30000"
    using segs_bytes_le shape_facts(1) [OF assms(1)] by fastforce
  then have b: "upper s + (sum_list (map upper (fresh ns ss)) + segs_bytes (length ss)) \<le> 2 ^ 61 + 30000"
    using assms(2) by simp
  then show "upper s + (sum_list (map upper (fresh ns ss)) + segs_bytes (length ss)) \<le> 2 ^ 62" by simp
  have n: "unat (new_seg_bytes (fresh ns ss)) = sum_list (map upper (fresh ns ss))"
    using b unat_sum_list [of "map (\<lambda>s. ray_sym_bytes_upper (of_nat (length s))) (fresh ns ss)"]
    by (simp add: new_seg_bytes_def comp_def upper_def [abs_def])
  show m: "unat (new_seg_bytes (fresh ns ss) + segs_block (length ss)) = sum_list (map upper (fresh ns ss)) + segs_bytes (length ss)"
    using b n unat_segs_block shape_facts(1) [OF assms(1)] by (simp add: unat_word_ariths)
  then show "unat (ray_sym_bytes_upper (of_nat (length s)) + (new_seg_bytes (fresh ns ss) + segs_block (length ss))) =
       upper s + (sum_list (map upper (fresh ns ss)) + segs_bytes (length ss))"
    using b by (simp add: unat_word_ariths upper_def)
qed

lemma store_segs_ok:
  assumes ok: "tab_ok t" and vm: "vm_ok (vmem E)" and i: "i < str_count t" "name_segs (names t ! i) = Some ss" "set ss \<subseteq> set (names t)" "length ss \<le> 255"
    and r: "reserved t n (segs_bytes (length ss) + b)"
  shows "\<exists>t'. store_segs E t i (map (index_of (names t)) ss) = (True, t') \<and> tab_ok (t'\<lparr>scanned := bm_set (scanned t') i\<rparr>) \<and>
    names t' = names t \<and> i < str_cap t' \<and> i div 64 < length (scanned t') \<and> reserved t' n b"
proof -
  have co: "core_ok t" using ok by (simp add: tab_ok_def)
  have lt: "i < str_cap t" "i < length (segments t)" using i(1) co by (auto simp: core_ok_def)
  have w: "unat (of_nat (length ss) * 8 :: size_t) = length ss * 8" using i(4) by (simp add: unat_word_ariths unat_of_nat)
  obtain p a m where a: "ray_arena_alloc (vmem E) (sym_arena t) (sym_mem t) (of_nat (length ss) * 8) = (Some p, a, m)" "arena_ok a m"
    "avail a = avail (sym_arena t) - segs_bytes (length ss)"
    using arena_alloc_avail [of "sym_arena t" "sym_mem t" "of_nat (length ss) * 8" "vmem E"] co r i(4)
    by (auto simp: core_ok_def reserved_def segs_bytes_def w)
  have ao: "arena_ok (sym_arena t) (sym_mem t)" using co by (simp add: core_ok_def)
  have al: "gives (sym_arena t) a p (segs_bytes (length ss))" "clears (sym_mem t) p m"
    using arena_alloc_ok [OF ao vm _ a(1)] i(4) by (simp_all add: w segs_bytes_def)
  let ?segs = "map (index_of (names t)) ss"
  let ?m = "mem_write m p (id_bytes ?segs)"
  have room: "32 + length (id_bytes ?segs) \<le> segs_bytes (length ss)"
    using up32_bounds(1) [of "32 + length ss * 8"]
    by (simp add: segs_bytes_def id_bytes_def length_concat comp_def le_bytes_length sum_list_triv)
  have "p \<le> q \<and> q < p + segs_bytes (length ss)" if "mem ?m q \<noteq> mem (sym_mem t) q" for q
    using that clears_outside [OF al(2), of q] room by (auto simp: mem_write_at split: if_splits)
  then have le: "grows (sym_arena t) (sym_mem t) a ?m" by (rule gives_grows [OF al(1)])
  let ?u = "t\<lparr>sym_arena := a, sym_mem := ?m\<rparr>"
  have u: "keeps t ?u" using core_arena [OF co _ le] a(2) by (simp add: keeps_def)
  let ?v = "?u\<lparr>segments := (segments t)[i := map (index_of (names t)) ss], dotted := bm_set (dotted t) i\<rparr>"
  have nm: "names ?v = names t" using u by (simp add: keeps_def)
  have cv: "core_ok ?v"
    using keeps_core [OF u] u unfolding core_ok_def nm by (simp add: keeps_def)
  have "dot_bit ?v j \<longleftrightarrow> j = i \<or> dot_bit t j" for j
    using bm_get_set [OF conjunct2 [OF core_word [OF co lt(1)]]] lt(1) by (auto simp: dot_bit_def)
  moreover have "scan_bit ?v = scan_bit t" by (simp add: scan_bit_def fun_eq_iff)
  moreover have "seg_of ?v j = (if j = i then map (index_of (names t)) ss else seg_of t j)" for j
    using lt by (simp add: seg_of_def)
  ultimately have "segs_ok ?v \<and> dot_bit ?v i" using ok i nm unfolding tab_ok_def segs_ok_def nm by auto
  then have "tab_ok ?v" "dot_bit ?v i" using cv ok nm by (simp_all add: tab_ok_def)
  then have "tab_ok (?v\<lparr>scanned := bm_set (scanned ?v) i\<rparr>)" by (intro settle_ok) (use i(1) in auto)
  moreover have "store_segs E t i (map (index_of (names t)) ss) = (True, ?v)" using a(1) by (simp add: store_segs_def)
  moreover have "i div 64 < length (scanned ?v)" using core_word [OF co lt(1)] by simp
  moreover have "reserved ?v n b" using r a(3) by (simp add: reserved_def) linarith
  ultimately show ?thesis using nm lt(1) by (intro exI [of _ ?v]) simp
qed

section \<open>Interning\<close>

definition segs :: "u8 list \<Rightarrow> u8 list list" where
  "segs s = (case name_segs s of None \<Rightarrow> [] | Some ss \<Rightarrow> ss)"

text \<open>No new segment occurs twice in the name.\<close>

definition clash_free :: "u8 list list \<Rightarrow> u8 list \<Rightarrow> bool" where
  "clash_free ns s \<longleftrightarrow> distinct (fresh ns (segs s))"

lemma segs_shape: "sym_shape s = Some (ss, True) \<Longrightarrow> segs s = ss \<and> name_segs s = Some ss"
  by (simp add: segs_def name_segs_def)

lemma segs_plain: "name_segs s = None \<Longrightarrow> segs s = []"
  by (simp add: segs_def)

lemma fresh_Nil [simp]: "fresh ns [] = []"
  by (simp add: fresh_def)

lemma fresh_subset: "set ss \<subseteq> set ns \<Longrightarrow> fresh ns ss = []"
  by (auto simp: fresh_def filter_empty_conv)

lemma names_fresh: "set ss \<subseteq> set (ns @ fresh ns ss)"
  by (auto simp: fresh_def)

lemma name_segs_SomeD: "name_segs s = Some ss \<Longrightarrow> sym_shape s = Some (ss, True)"
  by (auto simp: name_segs_def split: option.splits bool.splits)

lemma dotted_segs:
  assumes "tab_ok t" "i < str_count t" "dot_bit t i"
  obtains ss where "name_segs (names t ! i) = Some ss" "set ss \<subseteq> set (names t)" "seg_of t i = map (index_of (names t)) ss"
  using assms unfolding tab_ok_def segs_ok_def by metis

text \<open>A scanned name has no segments that are not in the table.\<close>

lemma scanned_no_fresh:
  assumes "tab_ok t" "i < str_count t" "scan_bit t i"
  shows "fresh (names t) (segs (names t ! i)) = []"
proof (cases "dot_bit t i")
  case True
  then obtain ss where "name_segs (names t ! i) = Some ss" "set ss \<subseteq> set (names t)"
    using dotted_segs [OF assms(1,2)] by blast
  then show ?thesis by (simp add: segs_def fresh_subset)
next
  case False
  then show ?thesis using assms by (auto simp: tab_ok_def segs_ok_def segs_plain)
qed

text \<open>Reserving room for the new segments, committing them and storing their ids.\<close>

lemma shape_segments: "sym_shape s = Some (ss, ok) \<Longrightarrow> length s \<le> 2 ^ 60 \<Longrightarrow> \<forall>x \<in> set ss. sym_shape x = None \<and> length x \<le> 2 ^ 61"
  using shape_facts(3) by fastforce

lemma reserve_roomy:
  assumes "core_ok t" "reserved t n (unat b)"
  shows "sym_reserve_capacity E t n b = Some (True, t)"
proof -
  have k: "bucket_target (str_count t + n) (bucket_cap t) = Some (Some (bucket_cap t))"
    using assms(2) by (subst bucket_target.simps) (simp add: reserved_def)
  have ao: "arena_ok (sym_arena t) (sym_mem t)" using assms(1) by (simp add: core_ok_def)
  then have ne: "chunks (sym_arena t) \<noteq> []" by (simp add: arena_ok_def)
  then have "used (hd (chunks (sym_arena t))) \<le> cap (hd (chunks (sym_arena t)))"
    using ao by (auto simp: arena_ok_def chunk_ok_def word_le_nat_alt)
  then have "ray_arena_reserve (vmem E) (sym_arena t) (sym_mem t) b = (True, sym_arena t, sym_mem t)"
    using assms(2) ne by (simp add: reserved_def ray_arena_reserve_def avail_def word_le_nat_alt unat_sub)
  then show ?thesis using k assms(2) by (simp add: sym_reserve_capacity_def reserved_def)
qed

lemma reserved_less: "reserved t n b \<Longrightarrow> n' \<le> n \<Longrightarrow> b' \<le> b \<Longrightarrow> reserved t n' b'"
  by (auto simp: reserved_def)

lemma sym_cache_segments_ok:
  assumes ok: "tab_ok t" and vm: "vm_ok (vmem E)" and i: "i < str_count t" "names t ! i = s" and s: "length s \<le> 2 ^ 60"
    and cf: "clash_free (names t) s"
  shows "\<exists>res t'. sym_cache_segments E t i s = Some (res, t') \<and> tab_ok t' \<and>
    names t' = names t @ (if res then fresh (names t) (segs s) else []) \<and> (res \<longrightarrow> scan_bit t' i) \<and>
    (set (segs s) \<subseteq> set (names t) \<and> reserved t 0 (segs_bytes (length (segs s)) + b) \<longrightarrow> res \<and> reserved t' 0 b)"
proof -
  have co: "core_ok t" and di: "distinct (names t)" using ok by (auto simp: tab_ok_def)
  have lt: "i < str_cap t" using i(1) co by (simp add: core_ok_def)
  have settled: "scan_bit (u\<lparr>scanned := bm_set (scanned u) i\<rparr>) i" if "i < str_cap u" "i div 64 < length (scanned u)" for u
    using that bm_get_set by (simp add: scan_bit_def)
  consider (scanned) "bm_get (scanned t) i" | (plain) "\<not> bm_get (scanned t) i" "name_segs s = None"
    | (dotted) ss where "\<not> bm_get (scanned t) i" "sym_shape s = Some (ss, True)"
    using name_segs_SomeD by (cases "name_segs s") auto
  then show ?thesis
  proof cases
    case scanned
    then have "scan_bit t i" using lt by (simp add: scan_bit_def)
    moreover have "reserved t 0 (segs_bytes (length (segs s)) + b) \<longrightarrow> reserved t 0 b" by (simp add: reserved_def)
    ultimately show ?thesis
      using scanned ok i scanned_no_fresh [OF ok i(1)] by (intro exI [of _ True] exI [of _ t]) (simp add: sym_cache_segments_def)
  next
    case plain
    let ?u = "t\<lparr>scanned := bm_set (scanned t) i\<rparr>"
    have "sym_cache_segments E t i s = Some (True, ?u)"
      using plain by (auto simp: sym_cache_segments_def name_segs_def split: option.splits bool.splits)
    moreover have "tab_ok ?u" using plain i by (intro settle_ok [OF ok]) auto
    moreover have "scan_bit ?u i" using settled [of t] lt core_word [OF co lt] by simp
    moreover have "reserved ?u 0 b" if "reserved t 0 (segs_bytes (length (segs s)) + b)"
      using that by (simp add: reserved_def)
    ultimately show ?thesis using plain(2) by (auto simp: segs_plain)
  next
    case dotted
    note ss = segs_shape [OF dotted(2)] and ab = arena_bytes [OF dotted(2) s]
    let ?new = "fresh (names t) ss"
    have small: "sum_list (map upper ?new) + segs_bytes (length ss) \<le> 2 ^ 62" using ab(3) [of "names t"] by linarith
    obtain res u where u: "sym_reserve_capacity E t (length ?new) (new_seg_bytes ?new + segs_block (length ss)) = Some (res, u)"
      "keeps t u" "res \<longrightarrow> reserved u (length ?new) (sum_list (map upper ?new) + segs_bytes (length ss))"
      using sym_reserve_capacity_ok [OF co vm, of "new_seg_bytes ?new + segs_block (length ss)" "length ?new"] small ab(1) [of "names t"] by auto
    have nu: "names u = names t" "tab_ok u" using u(2) keeps_sym_ok [OF ok u(2)] by (auto simp: keeps_def)
    let ?room = "set ss \<subseteq> set (names t) \<and> reserved t 0 (segs_bytes (length ss) + b)"
    let ?b = "segs_bytes (length ss) + (if ?room then b else 0)"
    have room: "res \<and> u = t \<and> ?new = []" if "?room"
      using that reserve_roomy [OF co, of "length ?new" "new_seg_bytes ?new + segs_block (length ss)" E] u(1) ab(1) [of "names t"]
        reserved_less [of t 0 "segs_bytes (length ss) + b" 0 "segs_bytes (length ss)"] by (simp add: fresh_subset)
    show ?thesis
    proof (cases res)
      case False
      then show ?thesis
        using dotted u(1) nu co di room ss by (auto simp: sym_cache_segments_def probe_all_index new_segs_fresh)
    next
      case True
      have r: "reserved u (length ?new + 0) (sum_list (map upper ?new) + ?b)" using u(3) True room by auto
      obtain v where v: "commit_segs E u (zip ss (map (index_of (names t)) ss)) = Some (Some (map (index_of (names v)) ss), v)"
        "tab_ok v" "names v = names t @ ?new" "reserved v 0 ?b"
        using commit_segs_ok [OF nu(2) vm, of "names t" "[]" ss 0 ?b] nu(1) cf ss shape_segments [OF dotted(2) s] r
        by (auto simp: clash_free_def)
      have "str_count v = str_count t + length ?new" using v(3) by (metis length_append length_names)
      then have iv: "i < str_count v" "names v ! i = s" using i v(3) by (auto simp: nth_append)
      obtain w where w: "store_segs E v i (map (index_of (names v)) ss) = (True, w)" "tab_ok (w\<lparr>scanned := bm_set (scanned w) i\<rparr>)"
        "names w = names v" "i < str_cap w" "i div 64 < length (scanned w)" "reserved w 0 (if ?room then b else 0)"
        using store_segs_ok [OF v(2) vm iv(1), of ss 0 "if ?room then b else 0"] iv(2) ss v(3,4) names_fresh [of ss "names t"] shape_facts(1) [OF dotted(2)] by auto
      have "sym_cache_segments E t i s = Some (True, w\<lparr>scanned := bm_set (scanned w) i\<rparr>)"
        using dotted u(1) True v(1) w(1) co di by (simp add: sym_cache_segments_def probe_all_index new_segs_fresh)
      then show ?thesis
        using w v(3) ss settled [of w] by (intro exI [of _ True] exI [of _ "w\<lparr>scanned := bm_set (scanned w) i\<rparr>"]) (auto simp: settle_reserved)
    qed
  qed
qed

text \<open>
  Room for a name and its segments without a further allocation: a free slot for each byte of the name
  and one more, and a chunk of the arena that takes the atoms and the array of the segments.
\<close>

definition roomy :: "sym_table \<Rightarrow> u8 list \<Rightarrow> bool" where
  "roomy t s \<longleftrightarrow> reserved t (1 + length s) (2 * length s + 30000)"

lemma shape_count:
  assumes "sym_shape s = Some (ss, ok)"
  shows "length ss \<le> length s"
proof -
  let ?lead = "hd s = 46" let ?p = "if ?lead then tl s else s"
  have r: "seg_split ?lead (length (filter (\<lambda>c. c = 46) ?p) + 1) s = (ss, ok)" and s: "last s \<noteq> 46" "s \<noteq> []"
    using assms by (auto simp: sym_shape_def Let_def simp del: seg_split.simps split: if_splits)
  have "length (filter (\<lambda>c. c = 46) ?p) \<le> length (filter (\<lambda>c. c = 46) s)" by (cases s) auto
  also have "\<dots> < length s" using s by (intro length_filter_less [of "last s"]) auto
  finally show ?thesis using seg_split_facts [OF r] by linarith
qed

lemma intern_new_ok:
  assumes ok: "tab_ok t" and vm: "vm_ok (vmem E)" and s: "s \<notin> set (names t)" "length s \<le> 2 ^ 60"
    and cf: "clash_free (names t) s"
  shows "\<exists>r t'. intern_new E t (sym_hash s) s = Some (r, t') \<and> tab_ok t' \<and>
    (r = - 1 \<and> names t' = names t \<and> \<not> roomy t s \<or>
     names t' = names t @ fresh (names t) (segs s) @ [s] \<and> r = int (str_count t') - 1 \<and> scan_bit t' (nat r))"
proof -
  have co: "core_ok t" and di: "distinct (names t)" using ok by (auto simp: tab_ok_def)
  obtain ss dt where sh: "(case sym_shape s of None \<Rightarrow> ([], False) | Some r \<Rightarrow> r) = (ss, dt)" by (cases "case sym_shape s of None \<Rightarrow> ([], False) | Some r \<Rightarrow> r")
  let ?new = "fresh (names t) ss" let ?cb = "if dt then segs_bytes (length ss) else 0"
  let ?cs = "if dt then ?new else []"
  define ab where "ab = ray_sym_bytes_upper (of_nat (length s)) + (if dt then new_seg_bytes ?new + segs_block (length ss) else 0)"
  have dts: "dt \<Longrightarrow> sym_shape s = Some (ss, True)" using sh by (auto split: option.splits)
  have segs: "segs s = (if dt then ss else [])"
    using sh by (auto simp: segs_def name_segs_def split: option.splits bool.splits)
  have pre: "unat ab = sum_list (map upper ?cs) + (upper s + ?cb)" "unat ab \<le> 2 ^ 62" "unat ab \<le> 2 * length s + 30000"
    using arena_bytes [OF dts s(2), of "names t"] upper_le [of s] s(2) by (auto simp: ab_def upper_def)
  have "length ss \<le> length s" using sh shape_count [of s ss dt] by (cases "sym_shape s") auto
  then have room: "\<not> roomy t s" if "sym_reserve_capacity E t (1 + length ?new) ab = Some (False, u)" for u
    using reserve_roomy [OF co, of "1 + length ?new" ab E] that pre(3) fresh_bounds(1) [of "names t" ss] by (auto simp: roomy_def reserved_def)
  obtain res u where u: "sym_reserve_capacity E t (1 + length ?new) ab = Some (res, u)"
    "keeps t u" "res \<longrightarrow> reserved u (1 + length ?new) (unat ab)"
    using sym_reserve_capacity_ok [OF co vm pre(2)] by blast
  have nu: "names u = names t" "tab_ok u" using u(2) keeps_sym_ok [OF ok u(2)] by (auto simp: keeps_def)
  show ?thesis
  proof (cases res)
    case False
    then show ?thesis using sh u(1) room nu co di by (auto simp: intern_new_def probe_all_index new_segs_fresh ab_def)
  next
    case True
    have r1: "reserved u (length ?cs + 1) (sum_list (map upper ?cs) + (upper s + ?cb))"
      using u(3) True unfolding pre(1) by (auto simp: reserved_def)
    have dcs: "distinct ?cs" using cf segs by (simp add: clash_free_def split: if_splits)
    obtain v where v: "(if dt then commit_segs E u (zip ss (map (index_of (names t)) ss)) else Some (Some [], u)) =
        Some (Some (if dt then map (index_of (names v)) ss else []), v)"
      "tab_ok v" "names v = names t @ ?cs" "reserved v 1 (upper s + ?cb)"
      using commit_segs_ok [OF nu(2) vm, of "names t" "[]" ss 1 "upper s + ?cb"] nu r1 dcs shape_segments [OF dts s(2)] by (cases dt) auto
    have sv: "s \<notin> set (names v)"
      using s(1) v(3) shape_facts(3) [OF dts, of s] by (auto simp: fresh_def split: if_splits)
    obtain w where w: "sym_commit_new E v (sym_hash s) s = Some (int (str_count v), w)" "same_side v w" "added v [s] w" "reserved w 0 ?cb"
      using sym_commit_new_ok [of v E s 0 ?cb] v(2,4) vm s(2) by (fastforce simp: tab_ok_def)
    have nw: "names w = names v @ [s]" "str_count w = Suc (str_count v)"
      using w(3) by (auto simp: added_def) (metis length_append_singleton length_names)
    have ow: "tab_ok w" using added_sym_ok [OF v(2) w(3,2)] sv v(2) by (simp add: tab_ok_def)
    have cw: "core_ok w" and lw: "str_count v < str_cap w" using ow nw(2) by (auto simp: tab_ok_def core_ok_def)
    have sw: "names w ! str_count v = s" using nw(1) length_names [of v] by (simp add: nth_append)
    have settled: "scan_bit (x\<lparr>scanned := bm_set (scanned x) (str_count v)\<rparr>) (str_count v)"
      if "str_count v < str_cap x" "str_count v div 64 < length (scanned x)" for x
      using that bm_get_set by (simp add: scan_bit_def)
    show ?thesis
    proof (cases dt)
      case False
      let ?x = "w\<lparr>scanned := bm_set (scanned w) (str_count v)\<rparr>"
      have "name_segs s = None" using sh False by (auto simp: name_segs_def split: option.splits bool.splits)
      then have "tab_ok ?x" using sw nw(2) by (intro settle_ok [OF ow]) auto
      moreover have "intern_new E t (sym_hash s) s = Some (int (str_count v), ?x)"
        using sh u(1) True v(1) w(1) False co di by (simp add: intern_new_def probe_all_index new_segs_fresh ab_def)
      ultimately show ?thesis using False nw v(3) segs settled [OF lw] core_word [OF cw lw] by auto
    next
      case dt: True
      have ns: "names w = names t @ ?new @ [s]" using nw(1) v(3) dt by simp
      have sub: "set ss \<subseteq> set (names v)" using names_fresh [of ss "names t"] v(3) dt by simp
      then have idx: "map (index_of (names w)) ss = map (index_of (names v)) ss" unfolding nw(1) by (rule index_of_extend)
      obtain y where y: "store_segs E w (str_count v) (map (index_of (names w)) ss) = (True, y)"
        "tab_ok (y\<lparr>scanned := bm_set (scanned y) (str_count v)\<rparr>)" "names y = names w" "str_count v < str_cap y" "str_count v div 64 < length (scanned y)"
        using store_segs_ok [OF ow vm, of "str_count v" ss 0 0] sw nw w(4) dt segs_shape [OF dts] sub shape_facts(1) [OF dts] by auto
      have "str_count y = str_count w" using y(3) length_names by metis
      moreover have "intern_new E t (sym_hash s) s = Some (int (str_count v), y\<lparr>scanned := bm_set (scanned y) (str_count v)\<rparr>)"
        using sh u(1) True v(1) w(1) y(1) idx dt co di by (simp add: intern_new_def probe_all_index new_segs_fresh ab_def)
      ultimately show ?thesis using y ns segs dt nw settled [of y] by auto
    qed
  qed
qed

lemma sym_ok_lazy: "tab_ok t \<Longrightarrow> lazy t = None \<and> \<not> lazy_pending t"
  by (simp add: tab_ok_def core_ok_def lazy_pending_def)

text \<open>What interning a name does to the list of names.\<close>

definition intern_result :: "sym_table \<Rightarrow> u8 list \<Rightarrow> int \<Rightarrow> sym_table \<Rightarrow> bool" where
  "intern_result t s r t' \<longleftrightarrow>
     (if s \<in> set (names t)
      then r = index_of (names t) s \<and> (names t' = names t \<or> names t' = names t @ fresh (names t) (segs s))
      else r = - 1 \<and> names t' = names t \<and> \<not> roomy t s \<or>
           r = index_of (names t') s \<and> names t' = names t @ fresh (names t) (segs s) @ [s] \<and> scan_bit t' (nat r))"

lemma sym_intern_nolock_ok:
  assumes ok: "tab_ok t" and vm: "vm_ok (vmem E)" and s: "length s \<le> 2 ^ 60" and cf: "clash_free (names t) s"
  shows "\<exists>r t'. sym_intern_nolock E t (sym_hash s) s lz = Some (r, t') \<and> tab_ok t' \<and> intern_result t s r t'"
proof -
  have co: "core_ok t" "distinct (names t)" using ok by (auto simp: tab_ok_def)
  note pr = sym_probe_index [OF co, of s] and lp = conjunct2 [OF sym_ok_lazy [OF ok]]
  show ?thesis
  proof (cases "s \<in> set (names t)")
    case True
    let ?i = "nat (index_of (names t) s)"
    have i: "0 \<le> index_of (names t) s" "names t ! ?i = s" "?i < str_count t"
      using nth_index_of [OF True] index_of_range [of "names t" s] by auto
    obtain res t' where "sym_cache_segments E t ?i s = Some (res, t')" "tab_ok t'" "names t' = names t @ (if res then fresh (names t) (segs s) else [])"
      using sym_cache_segments_ok [OF ok vm i(3,2) s cf] by blast
    then show ?thesis using True i(1) pr lp by (auto simp: sym_intern_nolock_def intern_result_def)
  next
    case False
    obtain r t' where r: "intern_new E t (sym_hash s) s = Some (r, t')" "tab_ok t'"
      "r = - 1 \<and> names t' = names t \<and> \<not> roomy t s \<or> names t' = names t @ fresh (names t) (segs s) @ [s] \<and> r = int (str_count t') - 1 \<and> scan_bit t' (nat r)"
      using intern_new_ok [OF ok vm False s cf] by blast
    have "index_of (names t') s = int (str_count t') - 1" if "names t' = names t @ fresh (names t) (segs s) @ [s]"
    proof -
      have "distinct (names t')" using r(2) by (simp add: tab_ok_def)
      then have "s \<notin> set (names t @ fresh (names t) (segs s))" using that by auto
      then show ?thesis
        using that length_names [of t'] index_of_append [of "names t @ fresh (names t) (segs s)" "[s]" s] by (simp del: length_names add: length_names [of t])
    qed
    then show ?thesis using False r pr lp by (auto simp: sym_intern_nolock_def intern_result_def index_of_absent)
  qed
qed

lemma sym_intern_noseg_ok:
  assumes ok: "tab_ok t" and vm: "vm_ok (vmem E)" and s: "length s \<le> 2 ^ 61"
  shows "\<exists>r t'. sym_intern_nolock_noseg E t (sym_hash s) s = Some (r, t') \<and> tab_ok t' \<and>
    (if s \<in> set (names t) then r = index_of (names t) s \<and> t' = t
     else r = - 1 \<and> names t' = names t \<or> r = int (str_count t) \<and> names t' = names t @ [s]) \<and>
    (reserved t (Suc n) (upper s + b) \<longrightarrow> 0 \<le> r \<and> reserved t' n b)"
proof -
  have co: "core_ok t" "distinct (names t)" using ok by (auto simp: tab_ok_def)
  note pr = sym_probe_index [OF co, of s] and lp = conjunct2 [OF sym_ok_lazy [OF ok]]
  show ?thesis
  proof (cases "s \<in> set (names t)")
    case True
    moreover have "reserved t (Suc n) (upper s + b) \<longrightarrow> reserved t n b" by (simp add: reserved_def)
    ultimately show ?thesis using pr ok nth_index_of [OF True] by (simp add: sym_intern_nolock_noseg_def)
  next
    case False
    obtain r t' where r: "sym_commit_new E t (sym_hash s) s = Some (r, t')" "same_side t t'"
      "r = - 1 \<and> core_ok t' \<and> names t' = names t \<or> r = int (str_count t) \<and> added t [s] t'"
      "reserved t (Suc n) (upper s + b) \<longrightarrow> 0 \<le> r \<and> reserved t' n b"
      using sym_commit_new_ok [OF co(1) vm s, of n b] by blast
    have "tab_ok t'"
    proof (cases "added t [s] t'")
      case True
      then show ?thesis using added_sym_ok [OF ok True r(2)] co(2) False by simp
    next
      case False
      then have "keeps t t'" using r(2,3) by (simp add: keeps_def)
      then show ?thesis by (rule keeps_sym_ok [OF ok])
    qed
    then show ?thesis using False r pr lp by (auto simp: sym_intern_nolock_noseg_def index_of_absent added_def)
  qed
qed

section \<open>Finding and reading\<close>

lemma sym_find_probe:
  assumes "sym_probe_from t hash s slot = Some r"
  shows "\<not> lazy_pending t \<longrightarrow> sym_find_from E t hash s slot = Some (r, t)"
proof (rule sym_probe_from.raw_induct [OF _ assms])
  fix f t hash s slot r
  assume "\<And>t hash s slot r. f t hash s slot = Some r \<Longrightarrow> \<not> lazy_pending t \<longrightarrow> sym_find_from E t hash s slot = Some (r, t)"
    and "(let e = buckets t ! unat slot
      in if e = 0 then Some (- 1)
         else if e_hash e = hash \<and> (case strings t ! unat (e_id e) of None \<Rightarrow> False | Some p \<Rightarrow> str_eq (heap t) p s)
         then Some (uint (e_id e))
         else f t hash s ((slot + 1) AND (of_nat (bucket_cap t) - 1))) = Some r"
  then show "\<not> lazy_pending t \<longrightarrow> sym_find_from E t hash s slot = Some (r, t)"
    by (subst sym_find_from.simps) (auto simp: Let_def split: if_splits)
qed

lemma sym_find_index: "tab_ok t \<Longrightarrow> ray_sym_find E (Some t) s = Some (index_of (names t) s, Some t)"
  using sym_probe_index [of t s] sym_find_probe [of t "sym_hash s" s _ "index_of (names t) s" E] sym_ok_lazy [of t]
  by (auto simp: ray_sym_find_def on_table_def sym_probe_def tab_ok_def)

lemma u32_of_id: "0 \<le> i \<Longrightarrow> i < 2 ^ 32 \<Longrightarrow> u32_of i = nat i"
  by (simp add: u32_of_def)

lemma sym_str_name:
  assumes "tab_ok t" "0 \<le> i" "i < int (str_count t)"
  obtains p where "ray_sym_str E (Some t) i = Some (Some p, Some t)" "atom_at (sym_arena t) (sym_mem t) p (names t ! nat i)"
proof -
  have co: "core_ok t" using assms(1) by (simp add: tab_ok_def)
  then obtain p where p: "strings t ! nat i = Some p" "atom_at (sym_arena t) (sym_mem t) p (names t ! nat i)" using assms(2,3) unfolding core_ok_def by (metis nat_less_iff)
  have "i < 2 ^ 32" using assms(3) core_count [OF co] by simp
  then have u: "u32_of i = nat i" using assms(2) by (simp add: u32_of_id)
  have len: "nat i < length (strings t)" using assms(2,3) co by (auto simp: core_ok_def)
  have "ray_sym_str E (Some t) i = Some (Some p, Some t)"
    using assms(2,3) u len p(1) by (simp add: ray_sym_str_def on_table_def)
  then show ?thesis using that p(2) by blast
qed

lemma sym_segs_of:
  assumes "tab_ok t" "i < str_count t"
  shows "ray_sym_segs (Some t) (int i) = Some (seg_of t i)" "ray_sym_is_dotted (Some t) (int i) = dot_bit t i"
proof -
  have co: "core_ok t" using assms(1) by (simp add: tab_ok_def)
  have "u32_of (int i) = i" using u32_of_id [of "int i"] assms(2) core_count [OF co] by simp
  moreover have "i < str_cap t" "i < length (segments t)" using co assms(2) by (auto simp: core_ok_def)
  ultimately show "ray_sym_segs (Some t) (int i) = Some (seg_of t i)" "ray_sym_is_dotted (Some t) (int i) = dot_bit t i"
    using assms(2) by (auto simp: ray_sym_segs_def ray_sym_is_dotted_def seg_of_def dot_bit_def)
qed

lemma scanned_segs:
  assumes "tab_ok t" "i < str_count t" "scan_bit t i"
  shows "seg_of t i = map (index_of (names t)) (segs (names t ! i))" "dot_bit t i \<longleftrightarrow> name_segs (names t ! i) \<noteq> None"
proof -
  have "seg_of t i = map (index_of (names t)) (segs (names t ! i)) \<and> (dot_bit t i \<longleftrightarrow> name_segs (names t ! i) \<noteq> None)"
  proof (cases "dot_bit t i")
    case True
    then show ?thesis using dotted_segs [OF assms(1,2)] by (metis option.distinct(1) option.simps(5) segs_def)
  next
    case False
    then show ?thesis using assms by (auto simp: tab_ok_def segs_ok_def segs_plain)
  qed
  then show "seg_of t i = map (index_of (names t)) (segs (names t ! i))" "dot_bit t i \<longleftrightarrow> name_segs (names t ! i) \<noteq> None" by auto
qed

section \<open>The table as a dictionary\<close>

text \<open>
  What the readers of a table of names rely on: an id reads as the name at that position, and a name
  is found at the id under which it reads.
\<close>

locale name_table =
  fixes inv :: "'t \<Rightarrow> bool" and entries :: "'t \<Rightarrow> u8 list list"
    and find_name :: "'t \<Rightarrow> u8 list \<Rightarrow> int" and read_name :: "'t \<Rightarrow> int \<Rightarrow> u8 list option"
  assumes distinct_entries: "inv t \<Longrightarrow> distinct (entries t)"
    and find_index: "inv t \<Longrightarrow> find_name t s = index_of (entries t) s"
    and read_entry: "inv t \<Longrightarrow> 0 \<le> i \<Longrightarrow> i < int (length (entries t)) \<Longrightarrow> read_name t i = Some (entries t ! nat i)"
begin

lemma find_read:
  assumes "inv t" "0 \<le> i" "i < int (length (entries t))"
  shows "\<exists>s. read_name t i = Some s \<and> find_name t s = i"
  using assms distinct_entries [OF assms(1)] index_of_nth [of "entries t" "nat i"] by (simp add: read_entry find_index)

lemma read_find:
  assumes "inv t" "0 \<le> find_name t s"
  shows "read_name t (find_name t s) = Some s"
proof -
  have "s \<in> set (entries t)" using assms index_of_neg [of "entries t" s] by (force simp: find_index)
  then show ?thesis using assms nth_index_of [of s "entries t"] index_of_range [of "entries t" s] by (simp add: find_index read_entry)
qed

lemma find_inj:
  assumes "inv t" "find_name t s = find_name t s'" "0 \<le> find_name t s"
  shows "s = s'"
proof -
  have "Some s = Some s'" using read_find [OF assms(1,3)] read_find [OF assms(1), of s'] assms(2,3) by metis
  then show ?thesis by simp
qed

end

definition table_find :: "sym_env \<Rightarrow> sym_table \<Rightarrow> u8 list \<Rightarrow> int" where
  "table_find E t s = (case ray_sym_find E (Some t) s of Some (i, _) \<Rightarrow> i | None \<Rightarrow> - 1)"

definition table_read :: "sym_env \<Rightarrow> sym_table \<Rightarrow> int \<Rightarrow> u8 list option" where
  "table_read E t i = (case ray_sym_str E (Some t) i of Some (Some p, Some u) \<Rightarrow> Some (str_bytes (heap u) p) | _ \<Rightarrow> None)"

interpretation tab: name_table tab_ok names "table_find E" "table_read E" for E
proof unfold_locales
  show "distinct (names t)" if "tab_ok t" for t using that by (simp add: tab_ok_def)
  show "table_find E t s = index_of (names t) s" if "tab_ok t" for t s using that by (simp add: table_find_def sym_find_index)
  show "table_read E t i = Some (names t ! nat i)" if "tab_ok t" "0 \<le> i" "i < int (length (names t))" for t i
    using sym_str_name [OF that(1,2), of E] that(3) by (fastforce simp: table_read_def atom_at_def)
qed

section \<open>Runs\<close>

text \<open>The names of a table are of moderate length, and no name has a segment twice.\<close>

definition name_fine :: "u8 list \<Rightarrow> bool" where
  "name_fine s \<longleftrightarrow> length s \<le> 2 ^ 60 \<and> distinct (segs s)"

definition sym_fine :: "sym_table \<Rightarrow> bool" where
  "sym_fine t \<longleftrightarrow> tab_ok t \<and> (\<forall>s \<in> set (names t). name_fine s)"

lemma name_fine_clash_free: "name_fine s \<Longrightarrow> clash_free ns s"
  by (simp add: name_fine_def clash_free_def fresh_def)

lemma name_fine_segs: "name_fine s \<Longrightarrow> x \<in> set (segs s) \<Longrightarrow> name_fine x"
proof -
  assume s: "name_fine s" and x: "x \<in> set (segs s)"
  then obtain ss where ss: "name_segs s = Some ss" "x \<in> set ss" by (cases "name_segs s") (auto simp: segs_def)
  then have "sym_shape x = None" "length x < length s" using shape_facts(3) [OF name_segs_SomeD] by auto
  then show ?thesis using s by (simp add: name_fine_def segs_plain name_segs_None)
qed

lemma fresh_fine: "name_fine s \<Longrightarrow> x \<in> set (fresh ns (segs s)) \<Longrightarrow> name_fine x"
  using name_fine_segs fresh_bounds(3) by blast

lemma intern_fine:
  assumes "sym_fine t" "name_fine s" "vm_ok (vmem E)"
  shows "\<exists>r u. sym_intern_nolock E t (sym_hash s) s lz = Some (r, u) \<and> sym_fine u \<and> (\<exists>ms. names u = names t @ ms) \<and> intern_result t s r u"
proof -
  obtain r u where u: "sym_intern_nolock E t (sym_hash s) s lz = Some (r, u)" "tab_ok u" "intern_result t s r u"
    using sym_intern_nolock_ok [of t E s lz] assms name_fine_clash_free [OF assms(2)] by (auto simp: sym_fine_def name_fine_def)
  have "\<exists>ms. names u = names t @ ms \<and> set ms \<subseteq> set (fresh (names t) (segs s)) \<union> {s}"
    using u(3) by (auto simp: intern_result_def split: if_splits)
  then obtain ms where ms: "names u = names t @ ms" "set ms \<subseteq> set (fresh (names t) (segs s)) \<union> {s}" by blast
  then have "\<forall>x \<in> set ms. name_fine x" using fresh_fine [OF assms(2)] assms(2) by blast
  then have "sym_fine u \<and> (\<exists>ms. names u = names t @ ms)" using assms(1) u(2) ms(1) by (auto simp: sym_fine_def)
  then show ?thesis using u by blast
qed

lemma noseg_fine:
  assumes "sym_fine t" "name_fine s" "vm_ok (vmem E)"
  shows "\<exists>r u. sym_intern_nolock_noseg E t (sym_hash s) s = Some (r, u) \<and> sym_fine u \<and> (\<exists>ms. names u = names t @ ms) \<and>
    (if s \<in> set (names t) then r = index_of (names t) s \<and> u = t
     else r = - 1 \<and> names u = names t \<or> r = int (str_count t) \<and> names u = names t @ [s]) \<and>
    (reserved t (Suc n) (upper s + b) \<longrightarrow> 0 \<le> r \<and> reserved u n b)"
proof -
  have "length s \<le> 2 ^ 61" "tab_ok t" using assms(1,2) by (simp_all add: name_fine_def sym_fine_def)
  then obtain r u where "sym_intern_nolock_noseg E t (sym_hash s) s = Some (r, u)" "tab_ok u"
    "if s \<in> set (names t) then r = index_of (names t) s \<and> u = t
     else r = - 1 \<and> names u = names t \<or> r = int (str_count t) \<and> names u = names t @ [s]"
    "reserved t (Suc n) (upper s + b) \<longrightarrow> 0 \<le> r \<and> reserved u n b"
    using sym_intern_noseg_ok [of t E s n b] assms(3) by blast
  then show ?thesis using assms(1,2) by (auto simp: sym_fine_def split: if_splits)
qed

text \<open>The bytes for the arrays of segments of a list of names, and names that come with their segments.\<close>

definition segs_room :: "u8 list list \<Rightarrow> nat" where
  "segs_room ns = sum_list (map (\<lambda>s. segs_bytes (length (segs s))) ns)"

definition seg_closed :: "u8 list list \<Rightarrow> bool" where
  "seg_closed ns \<longleftrightarrow> (\<forall>s \<in> set ns. set (segs s) \<subseteq> set ns)"

lemma rebuild_loop_fine:
  assumes "sym_fine t" "vm_ok (vmem E)" "\<forall>i \<in> set is. i < str_count t"
  shows "\<exists>e u. rebuild_loop E t is = Some (e, u) \<and> sym_fine u \<and> (\<exists>ms. names u = names t @ ms) \<and> (e = RAY_OK \<or> e = RAY_ERR_OOM) \<and>
    (seg_closed (names t) \<and> reserved t 0 (segs_room (map ((!) (names t)) is) + b) \<longrightarrow> e = RAY_OK)"
  using assms
proof (induction "is" arbitrary: t)
  case (Cons i "is")
  have ok: "tab_ok t" and i: "i < str_count t" using Cons.prems by (auto simp: sym_fine_def)
  let ?b = "segs_room (map ((!) (names t)) is) + b"
  have need: "segs_room (map ((!) (names t)) (i # is)) + b = segs_bytes (length (segs (names t ! i))) + ?b" by (simp add: segs_room_def)
  have less: "reserved t 0 (segs_bytes (length (segs (names t ! i))) + ?b) \<longrightarrow> reserved t 0 ?b" by (simp add: reserved_def)
  show ?case
  proof (cases "bm_get (scanned t) i")
    case True
    then show ?thesis using Cons.IH [OF Cons.prems(1,2)] Cons.prems(3) less unfolding need by auto
  next
    case False
    obtain p where p: "strings t ! i = Some p" "atom_at (sym_arena t) (sym_mem t) p (names t ! i)" using ok i by (auto simp: tab_ok_def core_ok_def)
    have fine: "name_fine (names t ! i)" using Cons.prems(1) i by (simp add: sym_fine_def)
    obtain res v where v: "sym_cache_segments E t i (names t ! i) = Some (res, v)" "tab_ok v"
      "names v = names t @ (if res then fresh (names t) (segs (names t ! i)) else [])"
      "set (segs (names t ! i)) \<subseteq> set (names t) \<and> reserved t 0 (segs_bytes (length (segs (names t ! i))) + ?b) \<longrightarrow> res \<and> reserved v 0 ?b"
      using sym_cache_segments_ok [OF ok Cons.prems(2) i refl _ name_fine_clash_free [OF fine], of ?b] fine unfolding name_fine_def by blast
    have fv: "sym_fine v" using Cons.prems(1) v fresh_fine [OF fine] by (auto simp: sym_fine_def)
    have "str_count t \<le> str_count v" using v(3) by (metis length_append length_names le_add1)
    then have "\<forall>j \<in> set is. j < str_count v" using Cons.prems(3) by fastforce
    then obtain e u where u: "rebuild_loop E v is = Some (e, u)" "sym_fine u" "\<exists>ms. names u = names v @ ms" "e = RAY_OK \<or> e = RAY_ERR_OOM"
      "seg_closed (names v) \<and> reserved v 0 (segs_room (map ((!) (names v)) is) + b) \<longrightarrow> e = RAY_OK"
      using Cons.IH [OF fv Cons.prems(2)] by blast
    have "res \<and> e = RAY_OK" if "seg_closed (names t)" "reserved t 0 (segs_bytes (length (segs (names t ! i))) + ?b)"
    proof -
      have sub: "set (segs (names t ! i)) \<subseteq> set (names t)" using that(1) i by (simp add: seg_closed_def)
      then have "names v = names t" using v(3) by (simp add: fresh_subset)
      then show ?thesis using v(4) u(5) that sub by simp
    qed
    then show ?thesis using False p v(1,3) fv u(1-4) unfolding need by (cases res) (auto simp: atom_at_def)
  qed
qed auto

inductive sym_run :: "sym_env \<Rightarrow> sym_table \<Rightarrow> sym_table \<Rightarrow> bool" for E where
  run_start: "sym_run E t t"
| run_intern: "sym_run E t u \<Longrightarrow> name_fine s \<Longrightarrow> ray_sym_intern E (Some u) s = Some (r, Some v) \<Longrightarrow> sym_run E t v"
| run_intern_runtime: "sym_run E t u \<Longrightarrow> name_fine s \<Longrightarrow> ray_sym_intern_runtime E (Some u) s = Some (r, Some v) \<Longrightarrow> sym_run E t v"
| run_no_split: "sym_run E t u \<Longrightarrow> name_fine s \<Longrightarrow> ray_sym_intern_no_split E (Some u) s = Some (r, Some v) \<Longrightarrow> sym_run E t v"
| run_rebuild: "sym_run E t u \<Longrightarrow> ray_sym_rebuild_segments E (Some u) = Some (e, Some v) \<Longrightarrow> sym_run E t v"
| run_find: "sym_run E t u \<Longrightarrow> ray_sym_find E (Some u) s = Some (r, Some v) \<Longrightarrow> sym_run E t v"

lemma sym_run_keeps:
  assumes "sym_run E t u" "sym_fine t" "vm_ok (vmem E)"
  shows "sym_fine u \<and> (\<exists>ms. names u = names t @ ms)"
  using assms
proof (induction rule: sym_run.induct)
  case (run_intern t u s r v)
  then show ?case using intern_fine [of u s E True] by (auto simp: ray_sym_intern_def on_table_def)
next
  case (run_intern_runtime t u s r v)
  then show ?case using intern_fine [of u s E False] by (auto simp: ray_sym_intern_runtime_def on_table_def)
next
  case (run_no_split t u s r v)
  then show ?case using noseg_fine [of u s E 0 0] by (auto simp: ray_sym_intern_no_split_def on_table_def)
next
  case (run_rebuild t u e v)
  then show ?case using rebuild_loop_fine [of u E "[0..<str_count u]" 0] by (auto simp: ray_sym_rebuild_segments_def on_table_def)
next
  case (run_find t u s r v)
  then show ?case using sym_find_index [of u E s] by (auto simp: sym_fine_def)
qed auto

section \<open>Initialisation\<close>

definition fresh_table :: "arena \<Rightarrow> memory \<Rightarrow> sym_table" where
  "fresh_table a m = \<lparr>buckets = replicate 256 0, strings = replicate 256 None, str_count = 0, str_cap = 256,
    dotted = replicate 4 0, scanned = replicate 4 0, segments = replicate 256 [], lazy = None, sym_arena = a, sym_mem = m\<rparr>"

lemma fresh_table_fine:
  assumes "arena_ok a m"
  shows "sym_fine (fresh_table a m) \<and> names (fresh_table a m) = []"
proof -
  let ?t = "fresh_table a m"
  have p: "pow2 256" unfolding pow2_def by (intro exI [of _ 8]) simp
  have "ht_ok (replicate 256 0) H {}" for H using p by (simp add: ht_ok_def)
  then have co: "core_ok ?t" using p assms by (simp add: core_ok_def fresh_table_def)
  have bits: "\<not> bm_get (replicate 4 0) i" if "i < 256" for i using that by (simp add: bm_get_def)
  have nm: "names ?t = []" by (simp add: names_def fresh_table_def)
  have "segs_ok ?t" using bits by (simp add: segs_ok_def dot_bit_def scan_bit_def seg_of_def) (simp add: fresh_table_def)
  then show ?thesis using co nm by (simp add: sym_fine_def tab_ok_def)
qed

lemma empty_name_fine: "name_fine []" "segs [] = []"
  by (simp_all add: name_fine_def segs_def name_segs_def sym_shape_def)

lemma sym_init_fine:
  assumes vm: "vm_ok (vmem E)" and m: "maps_ok (maps m)"
  shows "\<exists>r. ray_sym_init E m = Some r \<and> (\<forall>t. r = Inr t \<longrightarrow> sym_fine t \<and> names t = [[]])"
proof (cases "\<exists>a m'. ray_arena_new (vmem E) m (1024 * 1024) = (Some a, m')")
  case False
  then show ?thesis by (auto simp: ray_sym_init_def Let_def split: prod.splits option.splits)
next
  case True
  then obtain a m' where a: "ray_arena_new (vmem E) m (1024 * 1024) = (Some a, m')" by blast
  note fine = fresh_table_fine [OF arena_new_ok [OF a vm m]]
  obtain r u where u: "sym_intern_nolock E (fresh_table a m') (sym_hash []) [] True = Some (r, u)" "sym_fine u" "intern_result (fresh_table a m') [] r u"
    using intern_fine [OF conjunct1 [OF fine] empty_name_fine(1) vm] by blast
  have "names u = [[]]" if "r = 0" using u(3) that fine by (simp add: intern_result_def empty_name_fine(2))
  moreover have "(fresh_table a0 m0)\<lparr>sym_arena := a, sym_mem := m'\<rparr> = fresh_table a m'" for a0 m0 by (simp add: fresh_table_def)
  ultimately show ?thesis using a u by (simp add: ray_sym_init_def Let_def fresh_table_def [symmetric])
qed

section \<open>Snapshots\<close>

definition strl_rec :: "u8 list \<Rightarrow> u8 list" where
  "strl_rec s = take 4 (le_bytes (length s)) @ s"

definition strl_file :: "u8 list list \<Rightarrow> u8 list" where
  "strl_file ns = take 4 (le_bytes SYM_STRL_MAGIC) @ le_bytes (length ns) @ concat (map strl_rec ns)"

lemma le_value_4: "n < 2 ^ 32 \<Longrightarrow> le_value (take 4 (le_bytes n)) = n"
proof -
  assume n: "n < 2 ^ 32"
  have "take 4 (le_bytes n) = map (\<lambda>k. word_of_nat (n div 256 ^ k)) [0..<4]" by (simp add: le_bytes_def take_map)
  then have "le_value (take 4 (le_bytes n)) = horner_sum (\<lambda>k. n div 256 ^ k mod 256) 256 [0..<4]"
    by (simp add: le_value_def horner_sum_eq_sum unat_of_nat)
  also have "\<dots> = n mod 256 ^ 4" by (rule horner_digits)
  finally show ?thesis using n by simp
qed

lemma length_le_bytes [simp]: "length (le_bytes n) = 8"
  by (simp add: le_bytes_def)

lemma strl_records_ok:
  "list_all2 (\<lambda>p s. \<exists>q. p = Some q \<and> atom_at a m q s \<and> length s < 2 ^ 32) ps ns \<Longrightarrow> strl_records (mem m) ps = Inr (concat (map strl_rec ns))"
  by (induction rule: list_all2_induct) (auto simp: atom_at_def strl_rec_def)

lemma sym_snapshot:
  assumes "tab_ok t" "\<forall>s \<in> set (names t). length s < 2 ^ 32"
  shows "strl_records (heap t) (take (str_count t) (strings t)) = Inr (concat (map strl_rec (names t)))"
proof (rule strl_records_ok, rule list_all2_all_nthI)
  have co: "core_ok t" using assms(1) by (simp add: tab_ok_def)
  then have len: "str_count t \<le> length (strings t)" by (simp add: core_ok_def)
  then show "length (take (str_count t) (strings t)) = length (names t)" by simp
  fix i assume "i < length (take (str_count t) (strings t))"
  then have i: "i < str_count t" using len by simp
  then obtain q where "strings t ! i = Some q" "atom_at (sym_arena t) (sym_mem t) q (names t ! i)" using co by (auto simp: core_ok_def)
  then show "\<exists>q. take (str_count t) (strings t) ! i = Some q \<and> atom_at (sym_arena t) (sym_mem t) q (names t ! i) \<and> length (names t ! i) < 2 ^ 32"
    using i assms(2) by simp
qed

text \<open>Reading records of names that agree, as far as both go, with the names of the table.\<close>

lemma load_loop_step:
  assumes "length s < 2 ^ 32"
  shows "load_loop E t i (Suc k) (strl_rec s @ rest) =
    do { (j, t) \<leftarrow> sym_intern_nolock_noseg E t (sym_hash s) s;
         if j < 0 then Some (Inl RAY_ERR_OOM, t)
         else if j \<noteq> int i then Some (Inl RAY_ERR_CORRUPT, t)
         else load_loop E t (i + 1) k rest }"
  using le_value_4 [OF assms] by (simp add: strl_rec_def case_prod_beta' cong: if_cong)

lemma load_loop_ok:
  assumes "sym_fine t" "vm_ok (vmem E)" "\<forall>s \<in> set ns. name_fine s \<and> length s < 2 ^ 32"
    and "take i (names t) = pre" "length pre = i" "distinct (pre @ ns)"
    and "\<exists>ms. pre @ ns = names t @ ms \<or> names t = pre @ ns @ ms"
  shows "\<exists>r u. load_loop E t i (length ns) (concat (map strl_rec ns) @ rest) = Some (r, u) \<and> sym_fine u \<and>
    (r = Inl RAY_ERR_OOM \<or> r = Inr rest \<and> take (i + length ns) (names u) = pre @ ns \<and>
       (\<forall>ms. pre @ ns = names t @ ms \<longrightarrow> names u = pre @ ns)) \<and>
    (reserved t (length ns) (sum_list (map upper ns) + b) \<longrightarrow> r = Inr rest \<and> reserved u 0 b)"
  using assms
proof (induction ns arbitrary: t i pre)
  case (Cons s ns)
  have fs: "name_fine s" "length s < 2 ^ 32" using Cons.prems(3) by auto
  obtain j u where u: "sym_intern_nolock_noseg E t (sym_hash s) s = Some (j, u)" "sym_fine u"
    "if s \<in> set (names t) then j = index_of (names t) s \<and> u = t
     else j = - 1 \<and> names u = names t \<or> j = int (str_count t) \<and> names u = names t @ [s]"
    "reserved t (length (s # ns)) (sum_list (map upper (s # ns)) + b) \<longrightarrow> 0 \<le> j \<and> reserved u (length ns) (sum_list (map upper ns) + b)"
    using noseg_fine [OF Cons.prems(1) fs(1) Cons.prems(2), of "length ns" "sum_list (map upper ns) + b"] by (auto simp: add.assoc)
  have step: "load_loop E t i (length (s # ns)) (concat (map strl_rec (s # ns)) @ rest) =
      (if j < 0 then Some (Inl RAY_ERR_OOM, u) else if j \<noteq> int i then Some (Inl RAY_ERR_CORRUPT, u)
       else load_loop E u (i + 1) (length ns) (concat (map strl_rec ns) @ rest))"
    using load_loop_step [OF fs(2), of E t i "length ns" "concat (map strl_rec ns) @ rest"] u(1) by simp
  show ?case
  proof (cases "j = - 1")
    case True
    then show ?thesis using step u(2,4) by (intro exI [of _ "Inl RAY_ERR_OOM"] exI [of _ u]) (simp del: load_loop.simps)
  next
    case False
    have "j = int i \<and> take (i + 1) (names u) = pre @ [s] \<and> (\<exists>ms. (pre @ [s]) @ ns = names u @ ms \<or> names u = (pre @ [s]) @ ns @ ms)"
    proof (cases "s \<in> set (names t)")
      case True
      then have j: "j = index_of (names t) s" "u = t" using u(3) by auto
      have d: "distinct (names t)" using Cons.prems(1) by (simp add: sym_fine_def tab_ok_def)
      have lt: "i < length (names t)"
      proof (rule ccontr)
        assume "\<not> i < length (names t)"
        then have "names t = pre" using Cons.prems(4) by simp
        then show False using True Cons.prems(6) by auto
      qed
      have "names t ! i = s"
        using Cons.prems(5,7) lt by (metis append_Cons nth_append nth_append_length order_less_irrefl)
      then have "index_of (names t) s = int i" using index_of_nth [OF d lt] by simp
      moreover have "take (i + 1) (names t) = pre @ [s]" using \<open>names t ! i = s\<close> Cons.prems(4) lt by (simp add: take_Suc_conv_app_nth)
      ultimately show ?thesis using j Cons.prems(7) by auto
    next
      case no: False
      then have j: "j = int (str_count t)" "names u = names t @ [s]" using u(3) \<open>j \<noteq> - 1\<close> by auto
      obtain q where q: "names t = pre @ q" using Cons.prems(4) append_take_drop_id [of i "names t"] by metis
      obtain ms where "pre @ s # ns = names t @ ms \<or> names t = pre @ (s # ns) @ ms" using Cons.prems(7) by auto
      then have "s # ns = q @ ms \<or> q = s # ns @ ms" unfolding q by simp
      then have "q = []" using no q by (cases q) auto
      then have "names t = pre" using q by simp
      then show ?thesis using j Cons.prems(5) length_names [of t] by auto
    qed
    then obtain j: "j = int i" and tk: "take (i + 1) (names u) = pre @ [s]"
      and ex: "\<exists>ms. (pre @ [s]) @ ns = names u @ ms \<or> names u = (pre @ [s]) @ ns @ ms" by blast
    obtain r v where v: "load_loop E u (i + 1) (length ns) (concat (map strl_rec ns) @ rest) = Some (r, v)" "sym_fine v"
      "r = Inl RAY_ERR_OOM \<or> r = Inr rest \<and> take (i + 1 + length ns) (names v) = (pre @ [s]) @ ns \<and>
         (\<forall>ms. (pre @ [s]) @ ns = names u @ ms \<longrightarrow> names v = (pre @ [s]) @ ns)"
      "reserved u (length ns) (sum_list (map upper ns) + b) \<longrightarrow> r = Inr rest \<and> reserved v 0 b"
      using Cons.IH [OF u(2) Cons.prems(2) _ tk _ _ ex] Cons.prems(3,5,6) by auto
    have "\<exists>ms'. (pre @ [s]) @ ns = names u @ ms'" if ms: "pre @ s # ns = names t @ ms" for ms
    proof (cases "s \<in> set (names t)")
      case True
      then show ?thesis using u(3) ms by simp
    next
      case no: False
      then have nu: "names u = names t @ [s]" using u(3) False by auto
      have "s \<in> set (names t @ ms)" unfolding ms [symmetric] by simp
      then have "ms \<noteq> []" using no by auto
      obtain k where "(pre @ [s]) @ ns = names u @ k \<or> names u = (pre @ [s]) @ ns @ k" using ex by blast
      moreover have "ms = [s]" if "names u = (pre @ [s]) @ ns @ k"
      proof -
        have "names t @ [s] = names t @ ms @ k" using that nu append_assoc [of pre "s # ns" k] ms by simp
        then show ?thesis using \<open>ms \<noteq> []\<close> by (cases ms) auto
      qed
      ultimately show ?thesis using ms unfolding nu by auto
    qed
    then have "\<forall>ms. pre @ s # ns = names t @ ms \<longrightarrow> r = Inr rest \<longrightarrow> names v = pre @ s # ns" using v(3) by fastforce
    then show ?thesis using step j v u(4) by auto
  qed
qed auto

lemma load_loop_indices:
  assumes "sym_fine t" "vm_ok (vmem E)" "\<forall>s \<in> set ns. name_fine s \<and> length s < 2 ^ 32"
    and "load_loop E t i (length ns) (concat (map strl_rec ns) @ rest) = Some (Inr r, u)"
  shows "(\<exists>ms. names u = names t @ ms) \<and> map (index_of (names u)) ns = map int [i..<i + length ns]"
  using assms
proof (induction ns arbitrary: t i)
  case (Cons s ns)
  have fs: "name_fine s" "length s < 2 ^ 32" using Cons.prems(3) by auto
  obtain j v where v: "sym_intern_nolock_noseg E t (sym_hash s) s = Some (j, v)" "sym_fine v" "\<exists>ms. names v = names t @ ms"
    "if s \<in> set (names t) then j = index_of (names t) s \<and> v = t
     else j = - 1 \<and> names v = names t \<or> j = int (str_count t) \<and> names v = names t @ [s]"
    using noseg_fine [OF Cons.prems(1) fs(1) Cons.prems(2)] by blast
  have "\<not> j < 0 \<and> j = int i \<and> load_loop E v (i + 1) (length ns) (concat (map strl_rec ns) @ rest) = Some (Inr r, u)"
    using load_loop_step [OF fs(2), of E t i "length ns" "concat (map strl_rec ns) @ rest"] Cons.prems(4) v(1)
    by (simp split: if_splits)
  then have j: "j = int i" and l: "load_loop E v (i + 1) (length ns) (concat (map strl_rec ns) @ rest) = Some (Inr r, u)" by auto
  have IH: "\<exists>ms. names u = names v @ ms" "map (index_of (names u)) ns = map int [i + 1..<i + 1 + length ns]"
    using Cons.IH [OF v(2) Cons.prems(2) _ l] Cons.prems(3) by simp_all
  have "s \<in> set (names v) \<and> index_of (names v) s = int i" using v(4) j by (auto simp: index_of_append split: if_splits)
  then have "index_of (names u) s = int i" using IH(1) by (auto simp: index_of_append)
  moreover have "[i..<i + length (s # ns)] = i # [i + 1..<i + 1 + length ns]" by (simp add: upt_rec)
  ultimately show ?case using IH v(3) by auto
qed simp

text \<open>
  A snapshot in which a name occurs twice cannot be loaded: the second record finds the id of the first.
\<close>

lemma duplicate_snapshot_unloadable:
  assumes "sym_fine t" "vm_ok (vmem E)" "\<forall>s \<in> set ns. name_fine s \<and> length s < 2 ^ 32"
    and "load_loop E t 0 (length ns) (concat (map strl_rec ns)) = Some (Inr r, u)"
  shows "distinct ns"
proof -
  have "map (index_of (names u)) ns = map int [0..<0 + length ns]"
    using load_loop_indices [OF assms(1-3), of 0 "[]"] assms(4) by simp
  then have "distinct (map (index_of (names u)) ns)" by (simp add: distinct_map)
  then show ?thesis by (simp add: distinct_map)
qed

text \<open>
  A segment that is new and occurs twice in a name is committed twice, under two ids: the probes all
  come before the first commit.
\<close>

lemma repeated_segment_two_ids:
  assumes "core_ok t" "vm_ok (vmem E)" "x \<notin> set (names t)" "length x \<le> 2 ^ 61" "reserved t 2 (upper x + upper x)"
  shows "\<exists>u. commit_segs E t [(x, - 1), (x, - 1)] = Some (Some [int (str_count t), int (str_count t) + 1], u) \<and>
    names u = names t @ [x, x]"
proof -
  obtain u where u: "sym_commit_new E t (sym_hash x) x = Some (int (str_count t), u)" "added t [x] u" "reserved u 1 (upper x)"
    using sym_commit_new_ok [OF assms(1,2,4), of 1 "upper x"] assms(5) by (fastforce simp: numeral_2_eq_2)
  let ?v = "u\<lparr>scanned := bm_set (scanned u) (str_count t)\<rparr>"
  have nu: "names u = names t @ [x]" "core_ok u" using u(2) by (auto simp: added_def)
  then have cu: "str_count u = Suc (str_count t)" by (metis length_append_singleton length_names)
  have v: "core_ok ?v" using core_side [OF nu(2), of "bm_set (scanned u) (str_count t)" "dotted u" "segments u"] by simp
  have "reserved ?v (Suc 0) (upper x + 0)" using u(3) by (simp add: reserved_def)
  then obtain w where "sym_commit_new E ?v (sym_hash x) x = Some (int (str_count u), w)" "added ?v [x] w"
    using sym_commit_new_ok [OF v assms(2,4), of 0 0] by fastforce
  then show ?thesis using u(1) nu(1) cu by (simp add: added_def)
qed

text \<open>
  The range test of \<open>ray_sym_str\<close> looks at the low 32 bits of the id, the array is read at the id: an
  id above \<open>2 ^ 32\<close> reads outside the array.
\<close>

lemma sym_str_wide_id:
  assumes "tab_ok t" "0 < str_count t" "length (strings t) \<le> 2 ^ 32"
  shows "ray_sym_str E (Some t) (2 ^ 32) = None"
  using assms by (simp add: ray_sym_str_def on_table_def u32_of_def)

text \<open>
  A record that cannot be stored for lack of memory leaves the cursor of the lazy dictionary behind its
  length, so the next attempt takes the bytes of the name for a length.
\<close>

lemma lazy_failure_moves_cursor:
  assumes "lazy t = Some L" "4 \<le> length (lazy_ptr L)" "le_value (take 4 (lazy_ptr L)) + 4 \<le> length (lazy_ptr L)"
    and "strings t ! lazy_next_id L = None" "\<forall>s. fst (ray_arena_str (vmem E) (sym_arena t) (sym_mem t) s) = None"
  shows "\<exists>u. lazy_step E t L = Some (False, u) \<and> lazy u = Some (L\<lparr>lazy_ptr := drop 4 (lazy_ptr L)\<rparr>)"
proof -
  let ?s = "take (le_value (take 4 (lazy_ptr L))) (drop 4 (lazy_ptr L))"
  obtain a m where "ray_arena_str (vmem E) (sym_arena t) (sym_mem t) ?s = (None, a, m)"
    using assms(5) by (cases "ray_arena_str (vmem E) (sym_arena t) (sym_mem t) ?s") (metis fst_conv)
  moreover have "\<not> length (drop 4 (lazy_ptr L)) < le_value (take 4 (lazy_ptr L))" using assms(3) by simp
  ultimately show ?thesis using assms(2,4) by (simp add: lazy_step_def Let_def)
qed

section \<open>Properties\<close>

definition lab_env :: sym_env where
  "lab_env = \<lparr>vmem = bump_vm, alloc_ok = \<lambda>_ _. True\<rparr>"

definition lab_table :: sym_table where
  "lab_table = (case ray_arena_new bump_vm no_memory (1024 * 1024) of
     (Some a, m) \<Rightarrow> fresh_table a m | (None, m) \<Rightarrow> fresh_table \<lparr>self = 0, chunks = [], chunk_size = 0\<rparr> m)"

lemma lab_arena:
  obtains a m where "ray_arena_new bump_vm no_memory (1024 * 1024) = (Some a, m)" "lab_table = fresh_table a m" "avail a = 1048576"
  by (simp add: lab_table_def ray_arena_new_def ray_sys_alloc_def page_round_def bump_vm_def avail_def
      arena_new_chunk_def chunk_hdr_def ARENA_ALIGN_UP_def Let_def)

lemma lab_table_ok:
  "sym_fine lab_table" "tab_ok lab_table" "names lab_table = []" "vm_ok (vmem lab_env)" "roomy lab_table [97, 46, 98]"
proof -
  obtain a m where a: "ray_arena_new bump_vm no_memory (1024 * 1024) = (Some a, m)" "lab_table = fresh_table a m" "avail a = 1048576"
    by (rule lab_arena)
  then have "arena_ok a m" using arena_new_ok [OF a(1) bump_vm_ok] by (simp add: maps_ok_def)
  then show "sym_fine lab_table" "tab_ok lab_table" "names lab_table = []"
    using fresh_table_fine [of a m] a(2) by (simp_all add: sym_fine_def)
  show "vm_ok (vmem lab_env)" by (simp add: lab_env_def bump_vm_ok)
  show "roomy lab_table [97, 46, 98]" unfolding a(2) using a(3) by (simp add: roomy_def reserved_def fresh_table_def)
qed

text \<open>
  C2.  Interning a name of at most \<open>2 ^ 60\<close> bytes in which no new segment occurs twice ends and keeps the
  table well-formed.  A name that is present gives its id, and
  the only thing that may be added are its segments.  A new name is refused with \<open>- 1\<close> and no
  change of the names, which does not happen when there is room, or else its new segments and then the
  name itself are appended, the result is the id of the name, and the table answers for that id whether
  the name is dotted and with the ids of its segments.
\<close>

theorem sym_intern_correct:
  assumes "tab_ok t" "vm_ok (vmem E)" "length s \<le> 2 ^ 60" "clash_free (names t) s"
  shows "\<exists>r t'. ray_sym_intern E (Some t) s = Some (r, Some t') \<and> tab_ok t' \<and>
    (if s \<in> set (names t)
     then r = index_of (names t) s \<and> (names t' = names t \<or> names t' = names t @ fresh (names t) (segs s))
     else r = - 1 \<and> names t' = names t \<and> \<not> roomy t s \<or>
          names t' = names t @ fresh (names t) (segs s) @ [s] \<and> r = index_of (names t') s \<and> 0 \<le> r \<and>
          ray_sym_segs (Some t') r = Some (map (index_of (names t')) (segs s)) \<and>
          (ray_sym_is_dotted (Some t') r \<longleftrightarrow> name_segs s \<noteq> None))"
proof -
  obtain r t' where r: "sym_intern_nolock E t (sym_hash s) s True = Some (r, t')" "tab_ok t'" "intern_result t s r t'"
    using sym_intern_nolock_ok [OF assms] by blast
  have "0 \<le> r \<and> ray_sym_segs (Some t') r = Some (map (index_of (names t')) (segs s)) \<and>
      (ray_sym_is_dotted (Some t') r \<longleftrightarrow> name_segs s \<noteq> None)"
    if "names t' = names t @ fresh (names t) (segs s) @ [s]" "r = index_of (names t') s" "scan_bit t' (nat r)"
  proof -
    have "s \<in> set (names t')" using that(1) by simp
    then have i: "0 \<le> r" "nat r < str_count t'" "names t' ! nat r = s"
      using that(2) nth_index_of [of s "names t'"] index_of_range [of "names t'" s] by auto
    then show ?thesis using sym_segs_of [OF r(2) i(2)] scanned_segs [OF r(2) i(2) that(3)] by simp
  qed
  then show ?thesis using r by (auto simp: ray_sym_intern_def on_table_def intern_result_def)
qed

lemma lab_name: "segs [97, 46, 98] = [[97], [98]]" "name_segs [97, 46, 98] = Some [[97], [98]]" "fresh [] [[97], [98]] = [[97], [98]]"
  by (simp_all add: segs_def name_segs_def sym_shape_def fresh_def Let_def)

theorem sym_intern_correct_witness:
  "\<exists>t'. ray_sym_intern lab_env (Some lab_table) [97, 46, 98] = Some (2, Some t') \<and>
     names t' = [[97], [98], [97, 46, 98]] \<and> ray_sym_segs (Some t') 2 = Some [0, 1]"
proof -
  have cf: "clash_free (names lab_table) [97, 46, 98]" by (simp add: clash_free_def lab_name lab_table_ok)
  show ?thesis
    using sym_intern_correct [OF lab_table_ok(2,4) _ cf] lab_table_ok(3,5) by (auto simp: lab_name)
qed

text \<open>
  C6.  Ids are for ever.  Along any run of interning, segment rebuilding and finding from a table of
  names without repeated segments, with names of that kind, an id that reads as a name at one point reads as the same name at every later point,
  and the name is found under that id at both; all ids below the count are such.
\<close>

theorem sym_ids_stable:
  assumes "sym_fine t" "vm_ok (vmem E)" "sym_run E t u" "sym_run E u v" "0 \<le> i" "i < int (ray_sym_count (Some u))"
  shows "\<exists>s. table_read E u i = Some s \<and> table_find E u s = i \<and> table_read E v i = Some s \<and> table_find E v s = i"
proof -
  have u: "sym_fine u" using sym_run_keeps [OF assms(3,1,2)] by blast
  obtain ms where v: "sym_fine v" "names v = names u @ ms" using sym_run_keeps [OF assms(4) u assms(2)] by blast
  have ok: "tab_ok u" "tab_ok v" using u v(1) by (auto simp: sym_fine_def)
  have iu: "i < int (length (names u))" using assms(6) by (simp add: ray_sym_count_def)
  then have iv: "i < int (length (names v))" unfolding v(2) by simp
  have same: "names v ! nat i = names u ! nat i" using v(2) iu assms(5) by (simp add: nth_append nat_less_iff)
  show ?thesis
    using tab.find_read [OF ok(1) assms(5) iu, of E] tab.find_read [OF ok(2) assms(5) iv, of E]
      tab.read_entry [OF ok(1) assms(5) iu, of E] tab.read_entry [OF ok(2) assms(5) iv, of E] same by auto
qed

lemma lab_fine: "name_fine [97, 46, 98]" "name_fine [99]"
  by (simp_all add: name_fine_def lab_name) (simp add: segs_def name_segs_def sym_shape_def)

lemma lab_intern:
  obtains u where "ray_sym_intern lab_env (Some lab_table) [97, 46, 98] = Some (2, Some u)" "sym_fine u" "names u = [[97], [98], [97, 46, 98]]"
proof -
  obtain r u where u: "sym_intern_nolock lab_env lab_table (sym_hash [97, 46, 98]) [97, 46, 98] True = Some (r, u)" "sym_fine u"
    "intern_result lab_table [97, 46, 98] r u"
    using intern_fine [OF lab_table_ok(1) lab_fine(1) lab_table_ok(4)] by blast
  then have "names u = [[97], [98], [97, 46, 98]]" "r = 2"
    using lab_table_ok(3,5) by (auto simp: intern_result_def lab_name)
  then show ?thesis using that u by (simp add: ray_sym_intern_def on_table_def)
qed

theorem sym_ids_stable_witness:
  "\<exists>u r v. ray_sym_intern lab_env (Some lab_table) [97, 46, 98] = Some (2, Some u) \<and>
     ray_sym_intern lab_env (Some u) [99] = Some (r, Some v) \<and>
     table_read lab_env u 2 = Some [97, 46, 98] \<and> table_read lab_env v 2 = Some [97, 46, 98] \<and>
     table_find lab_env v [97, 46, 98] = 2"
proof -
  obtain u where u: "ray_sym_intern lab_env (Some lab_table) [97, 46, 98] = Some (2, Some u)" "sym_fine u" "names u = [[97], [98], [97, 46, 98]]"
    by (rule lab_intern)
  obtain r v where v: "ray_sym_intern lab_env (Some u) [99] = Some (r, Some v)"
    using intern_fine [OF u(2) lab_fine(2) lab_table_ok(4), of True] by (auto simp: ray_sym_intern_def on_table_def)
  have run: "sym_run lab_env lab_table u" "sym_run lab_env u v"
    using run_intern [OF run_start lab_fine(1) u(1)] run_intern [OF run_start lab_fine(2) v] by auto
  have c: "str_count u = 3" using u(3) length_names [of u] by simp
  have "table_read lab_env u 2 = Some [97, 46, 98]"
    using tab.read_entry [of u 2 lab_env] u(2,3) c by (simp add: sym_fine_def)
  then show ?thesis
    using sym_ids_stable [OF lab_table_ok(1,4) run, of 2] u(1) v c by (auto simp: ray_sym_count_def)
qed

lemma sym_save_file:
  assumes "tab_ok t" "\<forall>s \<in> set (names t). length s < 2 ^ 32"
    and "ray_sym_save E io (Some t) old = Some ((RAY_OK, Some file), Some t')"
  shows "t' = t \<and> file = strl_file (names t)"
  using assms(3) sym_snapshot [OF assms(1,2)] sym_ok_lazy [OF assms(1)]
  by (auto simp: ray_sym_save_def on_table_def strl_file_def split: if_splits)

lemma sym_load_file:
  assumes "length (strl_file ns) < 64 * 1024 * 1024" "length ns < 2 ^ 32" "path_fits io" "lock_opens io" "lock_err io = RAY_OK"
  shows "ray_sym_load E io (Some u) (Some (strl_file ns)) = on_table (Some u) RAY_ERR_IO (\<lambda>u. do {
    (r, u) \<leftarrow> load_loop E u 0 (length ns) (concat (map strl_rec ns) @ []);
    case r of Inl e \<Rightarrow> Some (e, u)
    | Inr rest \<Rightarrow> if rest \<noteq> [] then Some (RAY_ERR_CORRUPT, u) else rebuild_loop E u [0..<str_count u] })"
proof -
  have "le_value (take 4 (strl_file ns)) = SYM_STRL_MAGIC" using le_value_4 [of SYM_STRL_MAGIC] by (simp add: strl_file_def)
  moreover have "le_value (take 8 (drop 4 (strl_file ns))) = length ns"
    using le_value_le_bytes [of "length ns"] assms(2) by (simp add: strl_file_def)
  moreover have "drop 12 (strl_file ns) = concat (map strl_rec ns)" "12 \<le> length (strl_file ns)" by (simp_all add: strl_file_def)
  ultimately show ?thesis using assms by (simp add: ray_sym_load_def on_table_def Let_def)
qed

text \<open>
  C4.  What \<open>ray_sym_save\<close> writes, \<open>ray_sym_load\<close> reads back: loaded into a table whose names are the
  beginning of the saved ones (an empty table, or an older state), the file restores every saved name
  at its id, for reading and for finding, or else memory runs out; the table stays well-formed in both
  cases.  No name has a segment twice.  Memory does not run out when there is room for the names and their segments.  This is for files
  below the size at which the dictionary is mapped lazily.
\<close>

theorem sym_snapshot_roundtrip:
  assumes "sym_fine t" "\<forall>s \<in> set (names t). length s < 2 ^ 32" "vm_ok (vmem E)"
    and "ray_sym_save E io (Some t) old = Some ((RAY_OK, Some file), Some t')" "length file < 64 * 1024 * 1024"
    and "sym_fine u" "names t = names u @ ms" "path_fits io2" "lock_opens io2" "lock_err io2 = RAY_OK"
  shows "t' = t \<and> (\<exists>e u'. ray_sym_load E io2 (Some u) (Some file) = Some (e, Some u') \<and> sym_fine u' \<and> (e = RAY_OK \<or> e = RAY_ERR_OOM) \<and>
    (e = RAY_OK \<longrightarrow> (\<forall>i < ray_sym_count (Some t). table_read E u' (int i) = Some (names t ! i) \<and> table_find E u' (names t ! i) = int i)) \<and>
    (seg_closed (names t) \<and> reserved u (length (names t)) (sum_list (map upper (names t)) + segs_room (names t)) \<longrightarrow> e = RAY_OK))"
proof -
  let ?ns = "names t"
  have ok: "tab_ok t" using assms(1) by (simp add: sym_fine_def)
  have fl: "t' = t" "file = strl_file ?ns" using sym_save_file [OF ok assms(2,4)] by auto
  have few: "length ?ns < 2 ^ 32" using ok core_count [of t] by (simp add: tab_ok_def)
  have fine: "\<forall>s \<in> set ?ns. name_fine s \<and> length s < 2 ^ 32" and di: "distinct ?ns"
    using assms(1,2) ok by (auto simp: sym_fine_def tab_ok_def)
  obtain r v where v: "load_loop E u 0 (length ?ns) (concat (map strl_rec ?ns) @ []) = Some (r, v)" "sym_fine v"
    "r = Inl RAY_ERR_OOM \<or> r = Inr [] \<and> names v = ?ns"
    "reserved u (length ?ns) (sum_list (map upper ?ns) + segs_room ?ns) \<longrightarrow> r = Inr [] \<and> reserved v 0 (segs_room ?ns)"
    using load_loop_ok [OF assms(6,3) fine, of 0 "[]" "[]" "segs_room ?ns"] di assms(7) by auto
  note load = sym_load_file [OF assms(5) [unfolded fl(2)] few assms(8-10), of E u]
  show ?thesis
  proof (cases "r = Inr []")
    case False
    then show ?thesis using v load fl by (auto simp: on_table_def)
  next
    case True
    then have nv: "names v = ?ns" using v(3) by auto
    obtain e w where w: "rebuild_loop E v [0..<str_count v] = Some (e, w)" "sym_fine w" "\<exists>ms. names w = names v @ ms" "e = RAY_OK \<or> e = RAY_ERR_OOM"
      "seg_closed (names v) \<and> reserved v 0 (segs_room (names v) + 0) \<longrightarrow> e = RAY_OK"
      using rebuild_loop_fine [OF v(2) assms(3), of "[0..<str_count v]" 0] map_nth [of "names v"] by auto
    have tw: "tab_ok w" using w(2) by (simp add: sym_fine_def)
    obtain k where k: "names w = ?ns @ k" using w(3) nv by auto
    have "table_read E w (int i) = Some (?ns ! i) \<and> table_find E w (?ns ! i) = int i" if "i < ray_sym_count (Some t)" for i
    proof -
      have i: "i < length ?ns" using that by (simp add: ray_sym_count_def)
      then have "int i < int (length (names w))" "names w ! i = ?ns ! i" unfolding k by (simp_all add: nth_append)
      then show ?thesis using tab.read_entry [OF tw, of "int i" E] tab.find_read [OF tw, of "int i" E] by auto
    qed
    then show ?thesis using v(1,4) w True load fl nv by (auto simp: on_table_def)
  qed
qed

definition lab_io :: sym_io where
  "lab_io = \<lparr>path_fits = True, lock_opens = True, lock_err = RAY_OK, tmp_opens = True, writes_ok = True,
     reopen_ok = True, sync_err = RAY_OK, rename_err = RAY_OK, dir_err = RAY_OK\<rparr>"

lemma lab_save:
  assumes "tab_ok t" "\<forall>s \<in> set (names t). length s < 2 ^ 32"
  shows "ray_sym_save lab_env lab_io (Some t) None = Some ((RAY_OK, Some (strl_file (names t))), Some t)"
  using sym_snapshot [OF assms] sym_ok_lazy [OF assms(1)]
  by (simp add: ray_sym_save_def on_table_def strl_file_def lab_env_def lab_io_def)

theorem sym_snapshot_roundtrip_witness:
  "\<exists>u bytes u'. ray_sym_intern lab_env (Some lab_table) [97, 46, 98] = Some (2, Some u) \<and>
     ray_sym_save lab_env lab_io (Some u) None = Some ((RAY_OK, Some bytes), Some u) \<and>
     ray_sym_load lab_env lab_io (Some lab_table) (Some bytes) = Some (RAY_OK, Some u') \<and>
     table_read lab_env u' 2 = Some [97, 46, 98] \<and> table_find lab_env u' [98] = 1"
proof -
  obtain u where u: "ray_sym_intern lab_env (Some lab_table) [97, 46, 98] = Some (2, Some u)" "sym_fine u" "names u = [[97], [98], [97, 46, 98]]"
    by (rule lab_intern)
  have sv: "ray_sym_save lab_env lab_io (Some u) None = Some ((RAY_OK, Some (strl_file (names u))), Some u)"
    using u(2,3) by (intro lab_save) (simp_all add: sym_fine_def)
  have plain: "segs [97] = []" "segs [98] = []" by (simp_all add: segs_def name_segs_def sym_shape_def)
  have closed: "seg_closed (names u)" unfolding u(3) by (simp add: seg_closed_def lab_name plain)
  obtain a m where a: "lab_table = fresh_table a m" "avail a = 1048576" by (rule lab_arena)
  have room: "reserved lab_table (length (names u)) (sum_list (map upper (names u)) + segs_room (names u))"
    unfolding u(3) a(1) using a(2) by (simp add: reserved_def fresh_table_def upper_eq segs_room_def lab_name plain segs_bytes_def up32_def)
  have len: "length (strl_file (names u)) < 64 * 1024 * 1024" unfolding u(3) by (simp add: strl_file_def strl_rec_def)
  have io: "path_fits lab_io" "lock_opens lab_io" "lock_err lab_io = RAY_OK" by (simp_all add: lab_io_def)
  have c: "ray_sym_count (Some u) = 3" using u(3) length_names [of u] by (simp add: ray_sym_count_def)
  obtain e u' where e: "ray_sym_load lab_env lab_io (Some lab_table) (Some (strl_file (names u))) = Some (e, Some u')"
    "e = RAY_OK" "\<forall>i < 3. table_read lab_env u' (int i) = Some (names u ! i) \<and> table_find lab_env u' (names u ! i) = int i"
    using sym_snapshot_roundtrip [OF u(2) _ lab_table_ok(4) sv len lab_table_ok(1) _ io] closed room u(3) c lab_table_ok(3) by force
  have "table_read lab_env u' 2 = Some [97, 46, 98]" "table_find lab_env u' [98] = 1"
    using e(3) [rule_format, of 2] e(3) [rule_format, of 1] u(3) by simp_all
  then show ?thesis using u(1) sv e(1,2) by blast
qed

end
