(* ===== verification/Spec2Isabelle.thy ===== *)
theory Spec2Isabelle
  imports Pool Calendar Value Morsel Temporal Glob Timers Crc Aof NumParse NumFloat Arena Sel Lftj Csr Traverse Serde SymTable
begin

text \<open>
  \<^bold>\<open>A verification development of the rayforce column store\<close>

  Rayforce is a column store with a query language, written in C.  Values are atoms and vectors with
  typed nulls (\<^verbatim>\<open>vec/\<close>); operators work on vectors in morsels of 1024 rows (\<^verbatim>\<open>core/morsel.c\<close>, \<^verbatim>\<open>ops/\<close>)
  and carry selections as bitmaps (\<^verbatim>\<open>vec/sel.c\<close>); relations are compressed sparse rows
  (\<^verbatim>\<open>store/csr.c\<close>) which the leapfrog triejoin (\<^verbatim>\<open>ops/lftj.c\<close>) enumerates and the graph
  operators (\<^verbatim>\<open>ops/traverse.c\<close>) walk through; changes go to an append-only
  log (\<^verbatim>\<open>store/aof.c\<close>); values travel in the wire format of \<^verbatim>\<open>store/serde.c\<close>;
  names are interned to ids in the symbol table (\<^verbatim>\<open>table/sym.c\<close>, hashed by \<^verbatim>\<open>ops/hash.h\<close>); the event loop
  drives timers (\<^verbatim>\<open>core/timer.c\<close>); a pool of threads runs the parallel loops (\<^verbatim>\<open>core/pool.c\<close>); text enters through the number parsers (\<^verbatim>\<open>core/numparse.c\<close>), the
  calendar (\<^verbatim>\<open>lang/cal.h\<close>) and pattern matching (\<^verbatim>\<open>ops/glob.c\<close>);
  memory comes from mappings and arenas (\<^verbatim>\<open>mem/sys.c\<close>, \<^verbatim>\<open>mem/arena.c\<close>).  All paths are below
  \<^verbatim>\<open>src/src\<close>.  Each of these parts has a theory; a function of the source is a definition of the same
  name, a loop inside it a definition of its own, a struct a record.

  \<^bold>\<open>Conventions.\<close>  A C integer is an \<^typ>\<open>int\<close> or \<^typ>\<open>nat\<close> with the conversions written out, or a word
  where wrap-around matters; signed overflow is checked and has no result (\<open>chk_i32\<close>, \<open>chk_i64\<close> in
  \<open>Prelude\<close>).  A null pointer is \<^term>\<open>None\<close>, an error code a value of \<open>ray_err\<close>.  What is decided outside
  the source is a parameter: whether an allocation or a system call succeeds, what fresh memory holds,
  the clock, the callbacks of timers, \<^verbatim>\<open>strtod\<close>, \<^verbatim>\<open>pow\<close>, \<^verbatim>\<open>qsort\<close>, the directory and the files.

  \<^bold>\<open>The theories.\<close>
  \<^item> \<open>Prelude\<close>: error codes, C integer conversions, division towards zero.
  \<^item> \<open>Calendar\<close> (\<^verbatim>\<open>lang/cal.h\<close>): \<open>date_to_ymd\<close>, \<open>ymd_to_date\<close> with the double division of the year
    estimate as correctly rounded arithmetic on rationals.  Encoding and decoding are inverse to each
    other on valid dates and on the whole range of day numbers.
  \<^item> \<open>Value\<close> (\<^verbatim>\<open>vec/atom.c\<close>, \<^verbatim>\<open>vec/vec.c\<close>): atoms as their 8-byte union, vectors as an explicit store of
    cells with slices that alias their parent.  Typed nulls read as null; marking and copying nulls
    changes exactly the rows asked for; a slice shows the window of its parent.
  \<^item> \<open>Morsel\<close> (\<^verbatim>\<open>core/morsel.c\<close>): the cursor and the null bitmap it synthesises.  The chunks of a range are
    its rows in order, and from an aligned start each bitmap says which rows are null.
  \<^item> \<open>Temporal\<close> (\<^verbatim>\<open>ops/temporal.c\<close>): field extraction and truncation, as builtins on whole vectors and as
    executor kernels over morsels with their own copies of the arithmetic.  Both agree, on truncation for the
    day and the second; the extracted dates are those of \<open>Calendar\<close>; truncation
    is the floor of the bucket, or the first day of the month or year.
  \<^item> \<open>Glob\<close> (\<^verbatim>\<open>ops/glob.c\<close>): the backtracking matcher, the compiled shapes, the substring search.  The
    matcher accepts the language of the pattern, given as a recursive predicate; the compiled forms
    agree with it; the search finds the first match.
  \<^item> \<open>Timers\<close> (\<^verbatim>\<open>core/timer.c\<close>): the binary heap implements the locale \<open>priority_queue\<close>; the timer set keeps
    its invariant under every operation, and firing leaves the array only when a callback adds timers;
    firing returns when callbacks add none, with nothing due at the last clock reading.  Three flaws of the
    firing loop are proved.
  \<^item> \<open>Crc\<close> and \<open>Aof\<close> (\<^verbatim>\<open>store/aof.c\<close>): checksum, frames, survey, delivery and the writer.  The writer
    implements the locale \<open>durable_log\<close>: a scan after a commit shows the records written, recovery after
    a crash the committed ones, and damage below the commit boundary is reported.
  \<^item> \<open>NumParse\<close> and \<open>NumFloat\<close> (\<^verbatim>\<open>core/numparse.c\<close>): the SWAR integer parser equals a digit-by-digit
    reference, and the float parser stores the correctly rounded double of the decimal text.
  \<^item> \<open>Arena\<close> (\<^verbatim>\<open>mem/sys.c\<close>, \<^verbatim>\<open>mem/arena.c\<close>, \<^verbatim>\<open>vec/str.c\<close>): a memory of bytes, in which headers, pointers and
    characters are stores and loads at the offsets of the source.  Blocks are aligned, disjoint and inside live
    mappings; a reservation cannot fail later; a string reads back from its bytes and storing it changes no
    byte given out before; comparison is lexicographic.
  \<^item> \<open>Sel\<close> (\<^verbatim>\<open>vec/sel.c\<close>): flags and counts of every segment agree with the bits that \<open>ray_sel_from_pred\<close> and
    \<open>ray_sel_and\<close> write, and the bits are the predicate or the conjunction.
  \<^item> \<open>Lftj\<close> (\<^verbatim>\<open>ops/lftj.c\<close>, \<^verbatim>\<open>ops/lftj.h\<close>): iterators, the leapfrog intersection, the plan and the enumeration.
    The search returns the least common key; the enumeration returns exactly the solutions, once each.
  \<^item> \<open>Csr\<close> (\<^verbatim>\<open>store/csr.c\<close>): counting, prefix sums, scattering and in-place sorting build the rows of the
    edges; the result does not depend on the order in which the library sort (locale \<open>libc_qsort\<close>)
    leaves equal keys; an index loaded from columns of 64-bit integers has all its rows in bounds, and one
    from narrower columns need not.
  \<^item> \<open>Traverse\<close> (\<^verbatim>\<open>ops/traverse.c\<close>): degrees, connected components, topological order, depth-first search and
    the shortest path over the rows of \<open>Csr\<close>, in one direction or both.  On graphs built from edge tables
    the components are the classes of connected nodes, the order is topological or a cycle is
    reported, the search lists what can be reached, and the path found is a shortest one.
  \<^item> \<open>Wire\<close> and \<open>Serde\<close> (\<^verbatim>\<open>store/serde.c\<close>): \<open>Wire\<close> has the value trees, the sizes and the wire format as
    functions on lists of bytes (\<open>wire_of\<close>, \<open>read_obj\<close>), \<open>Serde\<close> the writer, the reader and the frames as
    the source has them, storing and loading at offsets of a block, where \<^term>\<open>None\<close> is an access outside it.
    The reader refines \<open>read_obj\<close> on every input, so it never reads outside the bytes it was given; the
    writer stores \<open>wire_of\<close> and fills the block exactly on the objects it can write (\<open>writable\<close>); a frame
    reads back as the object with its attributes reduced to the wire masks.  Where the writer goes wrong
    (slices of string vectors, objects of unknown type) the flaws are proved.
  \<^item> \<open>Hash\<close> (\<^verbatim>\<open>ops/hash.h\<close>): the byte hash and the mixers.  The portable multiplication equals the native one.
  \<^item> \<open>Sym\<close> (\<^verbatim>\<open>table/sym.c\<close>): the definitions of the symbol table: hash table, growth, reservation and commit,
    dotted names, interning, finding, the lazily mapped dictionary, the snapshot file.
  \<^item> \<open>SymCore\<close>: linear probing, rehashing and growth keep the invariant \<open>core_ok\<close>; a reservation makes the
    commits after it infallible.
  \<^item> \<open>SymTable\<close>: the table implements the locale \<open>name_table\<close>, a dictionary over the list of its names; interning
    appends and never renames; a snapshot restores the ids.  Four flaws are proved, among them that
    a new segment which occurs twice in a name gets two ids.
  \<^item> \<open>Pool\<close> (\<^verbatim>\<open>core/pool.c\<close>): a dispatch cut into tasks, the ring, and the threads as a step relation on their
    positions in the claim loop.  The tickets held, run and skipped partition those claimed; from that,
    every task runs once under any interleaving, a dispatch covers its elements, and none is stuck.
  \<^item> This theory joins \<open>Csr\<close> and \<open>Lftj\<close>: from edge tables to the tuples of a pattern; and \<open>Serde\<close> with
    \<open>SymTable\<close>: a frame read in a later state of the table has the symbol ids it was written with.

  \<^bold>\<open>Loops, fuel and bounds.\<close>  Loops are recursive functions with a measure.  The leapfrog loop, the firing
  loop of the timers, the enumeration, the probe loops of the symbol table and the loops of the graph
  operators are partial functions in the option type, and their theorems
  state that they return.  The float theorem is for texts of at most 9000 bytes, where the cap of the
  exponent at 10000 cannot bite; selections are limited to \<open>2 ^ 37\<close> rows, where the counts of words
  fit 32 bits; the join theorem to \<open>2 ^ 62\<close> result rows, where the growth of the buffers does not
  overflow, and so is the shortest path to \<open>2 ^ 62\<close> nodes, with the depth limit of one byte; a
  dispatch to \<open>2 ^ 44\<close> elements, where the number of tasks fits 32 bits; the round trip of frames to a nesting of 512 and a payload of a billion bytes, the bounds
  of the reader.  Names are of at most \<open>2 ^ 60\<close> bytes, so that the sums of the reservation do not wrap, and
  have no new segment twice; requests to an arena are of at most \<open>2 ^ 62\<close> bytes; snapshots below 64 megabytes are loaded at once, larger ones are mapped, and
  the theorem on snapshots is for the former.

  \<^bold>\<open>Not modelled.\<close>  The interpreter and its compiler (\<^verbatim>\<open>lang/\<close> but for the calendar), the query planner,
  executor and the operators on tables (\<^verbatim>\<open>ops/query.c\<close>, \<^verbatim>\<open>group.c\<close>, \<^verbatim>\<open>join.c\<close>, \<^verbatim>\<open>sort.c\<close>, \<^verbatim>\<open>exec.c\<close>, \<^verbatim>\<open>window.c\<close>,
  \<^verbatim>\<open>pivot.c\<close>, \<^verbatim>\<open>datalog.c\<close> and others), the expansions and the
  weighted and iterative algorithms of \<^verbatim>\<open>ops/traverse.c\<close>, the buddy heap
  (\<^verbatim>\<open>mem/heap.c\<close>) with reference counting, domain, dictionary and table objects (\<^verbatim>\<open>table/\<close>), column files
  and the other storage formats (\<^verbatim>\<open>store/\<close> but for the log, the sparse rows and the wire format): they are
  larger than what is covered here and not needed by the parts that are.  Sockets, polling,
  the terminal and the CSV reader are input and output around these parts.  Of modelled files the
  following is left out: appending, concatenating and the string pool of \<^verbatim>\<open>vec/vec.c\<close>, the clock builtins
  of \<^verbatim>\<open>ops/temporal.c\<close>, the sleeping test driver of \<^verbatim>\<open>core/timer.c\<close>, reallocation in \<^verbatim>\<open>mem/sys.c\<close>,
  the saving of relations in \<^verbatim>\<open>store/csr.c\<close> and of objects in \<^verbatim>\<open>store/serde.c\<close>, the sizing in floating
  point of \<open>ray_sym_ensure_cap\<close> in \<^verbatim>\<open>table/sym.c\<close>, the life cycle of the global pool in \<^verbatim>\<open>core/pool.c\<close>.
\<close>

section \<open>Joining edge tables\<close>

text \<open>An edge table whose edges lie between its nodes, each at most once.\<close>

type_synonym edges = "int list \<times> int list \<times> int \<times> int"

fun edges_ok :: "edges \<Rightarrow> bool" where
  "edges_ok (ss, ds, n_src, n_dst) \<longleftrightarrow> length ss = length ds \<and> distinct (zip ss ds) \<and> 0 \<le> n_src \<and> 0 \<le> n_dst \<and>
     (\<forall>(u, v) \<in> set (zip ss ds). 0 \<le> u \<and> u < n_src \<and> 0 \<le> v \<and> v < n_dst)"

fun built_from :: "((edge_pair \<Rightarrow> edge_pair \<Rightarrow> int) \<Rightarrow> edge_pair list \<Rightarrow> edge_pair list) \<Rightarrow> relation \<Rightarrow> edges \<Rightarrow> bool" where
  "built_from qs r (ss, ds, n_src, n_dst) \<longleftrightarrow>
     ray_rel_from_edges (\<lambda>_. True) (\<lambda>_. 0) qs (\<lambda>_. True) (Some [''src'' \<mapsto> I64 ss, ''dst'' \<mapsto> I64 ds]) ''src'' ''dst'' n_src n_dst True = Some r"

text \<open>The tuples that match a pattern: for each table an edge between the values of its two variables.\<close>

definition matches :: "edges list \<Rightarrow> nat list \<Rightarrow> nat list \<Rightarrow> nat \<Rightarrow> int list \<Rightarrow> bool" where
  "matches tabs svs dvs n t \<longleftrightarrow> length t = n \<and>
     (\<forall>((ss, ds, _), sv, dv) \<in> set (zip tabs (zip svs dvs)). sv \<noteq> dv \<longrightarrow> (t ! sv, t ! dv) \<in> set (zip ss ds))"

lemma built_from_ok:
  assumes "libc_qsort qs" "edges_ok tab" "built_from qs r tab"
  shows "rel_ok (as_rel r)" "v \<in> set (adj (fwd (as_rel r)) u) \<longleftrightarrow> (u, v) \<in> set (zip (fst tab) (fst (snd tab)))"
proof -
  obtain ss ds m n where t: "tab = (ss, ds, m, n)" by (cases tab)
  note ok = rel_from_edges_ok [OF assms(1), where mem = "\<lambda>_. True" and interned = "\<lambda>_. True" and a = "''src''" and b = "''dst''"
      and col = "[''src'' \<mapsto> I64 ss, ''dst'' \<mapsto> I64 ds]" and ss = ss and ds = ds and n_src = m and n_dst = n
      and srt = True and junk = "\<lambda>_. 0" and r = r]
  show "rel_ok (as_rel r)" using ok(1) assms(2,3) by (simp add: t)
  show "v \<in> set (adj (fwd (as_rel r)) u) \<longleftrightarrow> (u, v) \<in> set (zip (fst tab) (fst (snd tab)))"
    using ok(2) assms(2,3) by (simp add: t)
qed

lemma solution_matches:
  assumes "libc_qsort qs" "\<forall>tab \<in> set tabs. edges_ok tab" "list_all2 (built_from qs) rs tabs"
  shows "solution (zip (map as_rel rs) (zip svs dvs)) n t \<longleftrightarrow> matches tabs svs dvs n t"
proof -
  let ?vs = "zip svs dvs"
  have len: "length rs = length tabs" using assms(3) by (rule list_all2_lengthD)
  have adj: "t ! snd (?vs ! i) \<in> set (adj (fwd (as_rel (rs ! i))) (t ! fst (?vs ! i))) \<longleftrightarrow>
      (t ! fst (?vs ! i), t ! snd (?vs ! i)) \<in> set (zip (fst (tabs ! i)) (fst (snd (tabs ! i))))" if "i < length tabs" for i
    using built_from_ok(2) [OF assms(1) _ list_all2_nthD [OF assms(3)], of i] assms(2) that len by simp
  have "(\<forall>(r, sv, dv) \<in> set (zip (map as_rel rs) ?vs). sv \<noteq> dv \<longrightarrow> t ! dv \<in> set (adj (fwd r) (t ! sv))) \<longleftrightarrow>
      (\<forall>i < min (length tabs) (length ?vs). fst (?vs ! i) \<noteq> snd (?vs ! i) \<longrightarrow>
         t ! snd (?vs ! i) \<in> set (adj (fwd (as_rel (rs ! i))) (t ! fst (?vs ! i))))"
    unfolding all_set_conv_all_nth by (simp add: len case_prod_beta)
  also have "\<dots> \<longleftrightarrow> (\<forall>i < min (length tabs) (length ?vs). fst (?vs ! i) \<noteq> snd (?vs ! i) \<longrightarrow>
         (t ! fst (?vs ! i), t ! snd (?vs ! i)) \<in> set (zip (fst (tabs ! i)) (fst (snd (tabs ! i)))))"
    by (rule all_cong) (simp only: adj min_less_iff_conj)
  also have "\<dots> \<longleftrightarrow> (\<forall>((ss, ds, _), sv, dv) \<in> set (zip tabs ?vs). sv \<noteq> dv \<longrightarrow> (t ! sv, t ! dv) \<in> set (zip ss ds))"
    unfolding all_set_conv_all_nth by (simp add: case_prod_beta)
  finally show ?thesis by (simp add: solution_def matches_def)
qed

text \<open>
  C1.  Relations built from edge tables without repeated edges and joined by the leapfrog triejoin: on a
  pattern in which every variable but the first is the later variable of some table,
  with any library sort that meets its contract, the join returns and its columns hold exactly the
  tuples with an edge of every table between the values of its two variables, each tuple once.
\<close>

theorem join_of_edge_tables:
  assumes "libc_qsort qs" "\<forall>tab \<in> set tabs. edges_ok tab" "list_all2 (built_from qs) rs tabs"
    and "lftj_build_plan (map as_rel rs) n svs dvs = Some p" "vars_bound (zip (map as_rel rs) (zip svs dvs)) n"
    and "2 \<le> n" "quiet E" "card {t. matches tabs svs dvs n t} \<le> 2 ^ 62"
  shows "\<exists>ctx rows. lftj_enumerate E (start_ctx p cap0) 0 = Some ctx \<and> \<not> oom ctx \<and> \<not> cancelled ctx \<and>
    distinct rows \<and> set rows = {t. matches tabs svs dvs n t} \<and>
    col_data ctx = map (\<lambda>v. map (\<lambda>row. row ! v) rows) [0..<n] \<and> out_count ctx = int (length rows)"
proof -
  have "rel_ok (as_rel (rs ! i))" if "i < length rs" for i
    using built_from_ok(1) [OF assms(1) _ list_all2_nthD [OF assms(3) that]] assms(2) that list_all2_lengthD [OF assms(3)] by simp
  then have "\<forall>r \<in> set (map as_rel rs). rel_ok r" by (auto simp: in_set_conv_nth)
  then show ?thesis
    using lftj_join_rows [OF assms(4) _ assms(5-7), of cap0] assms(8) by (simp add: solution_matches [OF assms(1-3)])
qed

text \<open>The triangles of the directed graph 0 to 1, 1 to 2, 0 to 2.\<close>

definition tri_edges :: edges where
  "tri_edges = ([0, 1, 0], [1, 2, 2], 3, 3)"

lemma tri_ok: "edges_ok tri_edges" by (simp add: tri_edges_def)

lemma tri_built: "\<exists>r. built_from insertion_qsort r tri_edges"
  using rel_from_edges_holds [OF ins.libc_qsort_axioms, of "\<lambda>_. True" "\<lambda>_. True" "''src''" "''dst''"
      "[''src'' \<mapsto> I64 [0, 1, 0], ''dst'' \<mapsto> I64 [1, 2, 2]]" "[0, 1, 0]" "[1, 2, 2]" 3 3 "\<lambda>_. 0" True]
  by (auto simp: tri_edges_def)

lemma tri_matches: "{t. matches [tri_edges, tri_edges, tri_edges] [0, 1, 0] [1, 2, 2] 3 t} = {[0, 1, 2]}"
  by (auto simp: matches_def tri_edges_def length_Suc_conv numeral_eq_Suc)

theorem join_of_edge_tables_witness:
  "\<exists>r p ctx. built_from insertion_qsort r tri_edges \<and>
     lftj_build_plan [as_rel r, as_rel r, as_rel r] 3 [0, 1, 0] [1, 2, 2] = Some p \<and>
     lftj_enumerate \<lparr>grow_ok = \<lambda>_. True, interrupted = \<lambda>_. False\<rparr> (start_ctx p 0) 0 = Some ctx \<and>
     col_data ctx = [[0], [1], [2]]"
proof -
  let ?E = "\<lparr>grow_ok = \<lambda>_. True, interrupted = \<lambda>_. False\<rparr>" and ?tabs = "[tri_edges, tri_edges, tri_edges]"
  obtain r where r: "built_from insertion_qsort r tri_edges" using tri_built by blast
  obtain p where p: "lftj_build_plan (map as_rel [r, r, r]) 3 [0, 1, 0] [1, 2, 2] = Some p"
    by (auto simp: lftj_build_plan_def add_binding_def numeral_eq_Suc)
  have c: "vars_bound (zip (map as_rel [r, r, r]) (zip [0, 1, 0] [1, 2, 2])) 3"
    by (auto simp: vars_bound_def)
  have "\<forall>tab \<in> set ?tabs. edges_ok tab" "list_all2 (built_from insertion_qsort) [r, r, r] ?tabs" "quiet ?E"
      "card {t. matches ?tabs [0, 1, 0] [1, 2, 2] 3 t} \<le> 2 ^ 62"
    using tri_ok r tri_matches by (auto simp: quiet_def)
  from join_of_edge_tables [OF ins.libc_qsort_axioms this(1,2) p c _ this(3,4), of 0]
  obtain ctx rows where j: "lftj_enumerate ?E (start_ctx p 0) 0 = Some ctx" "distinct rows" "set rows = {[0, 1, 2]}"
      "col_data ctx = map (\<lambda>v. map (\<lambda>row. row ! v) rows) [0..<3]"
    using tri_matches by auto
  have "rows = [[0, 1, 2]]"
  proof (cases rows)
    case (Cons x xs)
    then have "x = [0, 1, 2]" "set xs \<subseteq> {[0, 1, 2]}" "x \<notin> set xs" using j(2,3) by auto
    then show ?thesis using Cons by (cases xs) auto
  qed (use j(3) in simp)
  then show ?thesis using r p j(1,4) by (auto simp: numeral_eq_Suc)
qed

section \<open>Serialisation with the symbol table\<close>

text \<open>
  The environment of the serialiser in a process with a symbol table: symbols are written by their text
  and interned when read.
\<close>

definition table_intern :: "sym_env \<Rightarrow> sym_table \<Rightarrow> u8 list \<Rightarrow> int" where
  "table_intern E t s = (case ray_sym_intern E (Some t) s of Some (i, _) \<Rightarrow> i | None \<Rightarrow> - 1)"

definition with_table :: "serde_env \<Rightarrow> sym_env \<Rightarrow> sym_table \<Rightarrow> serde_env" where
  "with_table S E t = S\<lparr>sym_str := table_read E t, sym_intern := table_intern E t\<rparr>"

text \<open>What one environment writes, another that agrees on the symbols and functions writes as well.\<close>

lemma agree_syms:
  assumes "\<And>i. sym_ok A i \<Longrightarrow> sym_ok B i \<and> sym_text A i = sym_text B i" "\<forall>i \<in> set ids. sym_ok A i"
  shows "(\<forall>i \<in> set ids. sym_ok B i) \<and> wire_syms A ids = wire_syms B ids"
  using assms(2) by (induction ids) (use assms(1) in \<open>auto simp: wire_syms_def\<close>)

lemma agree_wire:
  assumes "narrow A = narrow B" "widen A = widen B"
    and sym: "\<And>i. sym_ok A i \<Longrightarrow> sym_ok B i \<and> sym_text A i = sym_text B i"
    and "\<And>s f. env_get A (sym_intern A s) = Some f \<Longrightarrow> env_get B (sym_intern B s) = Some f"
  shows "wire_ok A x \<Longrightarrow> wire_ok B x \<and> wire_of A x = wire_of B x"
proof (induction x)
  case (AtomObj q a)
  then show ?case using assms(1,2) sym [of "view_i64 (a_word a)"] by (auto simp: atom_ok_def wire_atom_def Let_def split: if_splits)
next
  case (SymVec attrs ids)
  then show ?case using agree_syms [OF sym, of ids] by simp
next
  case (ListObj attrs xs)
  then have "map (wire_of A) xs = map (wire_of B) xs" by simp
  then show ?case using ListObj by (simp cong: map_cong)
next
  case (TableObj attrs nms cols)
  then show ?case using agree_syms [OF sym, of nms] by (cases cols) (auto simp: wire_schema_def)
next
  case (FnObj t nm)
  then show ?case using assms(4) by auto
qed auto

lemma table_read_range:
  assumes "tab_ok t" "table_read E t i = Some s"
  shows "0 \<le> i" "i < int (str_count t)" "s = names t ! nat i"
proof -
  have cap: "length (strings t) \<le> 2 ^ 31"
    using assms(1) by (simp add: tab_ok_def core_ok_def)
  have r: "0 \<le> i" "u32_of i < str_count t" "nat i < length (strings t)"
    using assms(2) by (auto simp: table_read_def ray_sym_str_def on_table_def not_le split: if_splits option.splits)
  then have "i < 2 ^ 32" using cap by auto
  then have "u32_of i = nat i" using r(1) by (rule u32_of_id [rotated])
  then show i: "0 \<le> i" "i < int (str_count t)" using r by auto
  then show "s = names t ! nat i" using tab.read_entry [OF assms(1), of i E] assms(2) by simp
qed

lemma table_intern_present:
  assumes "sym_fine t" "vm_ok (vmem E)" "s \<in> set (names t)"
  shows "table_intern E t s = index_of (names t) s"
proof -
  have "name_fine s" using assms(1,3) by (simp add: sym_fine_def)
  then obtain r u where "sym_intern_nolock E t (sym_hash s) s True = Some (r, u)" "intern_result t s r u"
    using intern_fine [OF assms(1) _ assms(2)] by blast
  then show ?thesis using assms(3) by (simp add: table_intern_def ray_sym_intern_def on_table_def intern_result_def)
qed

text \<open>The globals are bound to names of the table.\<close>

definition globals_named :: "serde_env \<Rightarrow> sym_env \<Rightarrow> sym_table \<Rightarrow> bool" where
  "globals_named S E t \<longleftrightarrow> (\<forall>s. env_get S (table_intern E t s) \<noteq> None \<longrightarrow> s \<in> set (names t))"

lemma later_agrees:
  assumes "sym_fine t" "vm_ok (vmem E)" "sym_run E t u" "globals_named S E t" "wire_ok (with_table S E t) x"
  shows "wire_ok (with_table S E u) x \<and> wire_of (with_table S E t) x = wire_of (with_table S E u) x"
proof (rule agree_wire [OF _ _ _ _ assms(5)])
  obtain ms where u: "sym_fine u" "names u = names t @ ms" using sym_run_keeps [OF assms(3,1,2)] by blast
  have ok: "tab_ok t" "tab_ok u" using assms(1) u(1) by (auto simp: sym_fine_def)
  have same: "table_intern E u s = table_intern E t s" if "s \<in> set (names t)" for s
    using that table_intern_present [OF assms(1,2)] table_intern_present [OF u(1) assms(2), of s] by (simp add: u(2) index_of_append)
  show "narrow (with_table S E t) = narrow (with_table S E u)" "widen (with_table S E t) = widen (with_table S E u)"
    by (simp_all add: with_table_def)
  fix i assume "sym_ok (with_table S E t) i"
  then obtain s where s: "table_read E t i = Some s" "table_intern E t s = i" "0 \<notin> set s"
    by (auto simp: sym_ok_def with_table_def split: option.splits)
  note i = table_read_range [OF ok(1) s(1)]
  then have "s \<in> set (names t)" by simp
  moreover have "table_read E u i = Some s"
  proof -
    have "i < int (length (names u))" "names u ! nat i = s" unfolding u(2) using i by (auto simp: nth_append)
    then show ?thesis using tab.read_entry [OF ok(2) i(1), of E] by simp
  qed
  ultimately show "sym_ok (with_table S E u) i \<and> sym_text (with_table S E t) i = sym_text (with_table S E u) i"
    using s same by (simp add: sym_ok_def with_table_def sym_text_def)
next
  fix s f assume f: "env_get (with_table S E t) (sym_intern (with_table S E t) s) = Some f"
  then have "s \<in> set (names t)" using assms(4) by (auto simp: globals_named_def with_table_def)
  moreover obtain ms where u: "sym_fine u" "names u = names t @ ms" using sym_run_keeps [OF assms(3,1,2)] by blast
  ultimately show "env_get (with_table S E u) (sym_intern (with_table S E u) s) = Some f"
    using f table_intern_present [OF assms(1,2)] table_intern_present [OF u(1) assms(2), of s]
    by (simp add: with_table_def index_of_append)
qed

text \<open>
  C5.  Frames keep their symbols.  An object framed in a process reads back, in every later state of its
  symbol table, whatever has been interned in between, as it crosses the wire (\<open>wire_view\<close>: attributes
  reduced to the wire masks, symbol columns of full width): with the very symbol ids it had.  The wire
  format carries the text of a symbol, and the text still has the id it had.
\<close>

theorem frame_read_later:
  assumes "sym_fine t" "vm_ok (vmem E)" "sym_run E t u" "globals_named S E t" "\<forall>k. room S k"
    and "wire_ok (with_table S E t) x" "depth x \<le> 512" "ray_serde_size (with_table S E t) x \<le> 1000000000"
  shows "\<exists>bytes. ray_ser (with_table S E t) x = Some (Inr bytes) \<and> ray_de (with_table S E u) bytes = Some (wire_view x)"
proof -
  let ?A = "with_table S E t" and ?B = "with_table S E u"
  have room: "\<forall>k. room ?A k" "\<forall>k. room ?B k" using assms(5) by (simp_all add: with_table_def)
  have B: "wire_ok ?B x" "wire_of ?A x = wire_of ?B x" using later_agrees [OF assms(1-4,6)] by blast+
  have w: "writable x" using wire_ok_writable [OF assms(6)] .
  have sz: "ray_serde_size ?A x = int (length (wire_of ?A x))" using wire_size [OF w] .
  show ?thesis
    using ray_ser_frame [OF w, of ?A] frame_reads_back [OF room(2) B(1) assms(7)] room(1) assms(8) sz B(2) by simp
qed

theorem frame_read_later_witness:
  "\<exists>t u r bytes. ray_sym_intern lab_env (Some lab_table) [97, 46, 98] = Some (2, Some t) \<and>
     ray_sym_intern lab_env (Some t) [99] = Some (r, Some u) \<and>
     ray_ser (with_table demo_env lab_env t) (SymVec 3 [2, 0]) = Some (Inr bytes) \<and>
     ray_de (with_table demo_env lab_env u) bytes = Some (SymVec 3 [2, 0])"
proof -
  obtain t where t: "ray_sym_intern lab_env (Some lab_table) [97, 46, 98] = Some (2, Some t)" "sym_fine t" "names t = [[97], [98], [97, 46, 98]]"
    by (rule lab_intern)
  obtain r u where u: "ray_sym_intern lab_env (Some t) [99] = Some (r, Some u)"
    using intern_fine [OF t(2) lab_fine(2) lab_table_ok(4), of True] by (auto simp: ray_sym_intern_def on_table_def)
  have run: "sym_run lab_env t u" using run_intern [OF run_start lab_fine(2) u] .
  have c: "str_count t = 3" using t(3) length_names [of t] by simp
  have rd: "table_read lab_env t 2 = Some [97, 46, 98]" "table_read lab_env t 0 = Some [97]"
    using tab.read_entry [of t 2 lab_env] tab.read_entry [of t 0 lab_env] t(2,3) c by (simp_all add: sym_fine_def)
  have it: "table_intern lab_env t [97, 46, 98] = 2" "table_intern lab_env t [97] = 0"
    using table_intern_present [OF t(2) lab_table_ok(4)] t(3) by simp_all
  have "globals_named demo_env lab_env t" "\<forall>k. room demo_env k" by (simp_all add: globals_named_def demo_env_def)
  moreover have "wire_ok (with_table demo_env lab_env t) (SymVec 3 [2, 0])"
    using rd it by (simp add: sym_ok_def with_table_def)
  moreover have "ray_serde_size (with_table demo_env lab_env t) (SymVec 3 [2, 0]) \<le> 1000000000"
    using rd by (simp add: vec_size_guard_def sym_text_def with_table_def)
  ultimately have "\<exists>bytes. ray_ser (with_table demo_env lab_env t) (SymVec 3 [2, 0]) = Some (Inr bytes) \<and>
      ray_de (with_table demo_env lab_env u) bytes = Some (wire_view (SymVec 3 [2, 0]))"
    by (intro frame_read_later [OF t(2) lab_table_ok(4) run]) simp_all
  then show ?thesis using t(1) u by auto
qed

end
